(* ===== verification/Pintos_Prelude.thy ===== *)
theory Pintos_Prelude
  imports Main "HOL-Library.Word" "HOL-Library.Monad_Syntax" "HOL-Library.Multiset"
begin

text \<open>
  Shared vocabulary of the development.

  \<^item> A kernel function that may stop the machine (a failed \<^verbatim>\<open>ASSERT\<close>, a \<^verbatim>\<open>PANIC\<close>, a null
    pointer dereference, an access outside an array) returns an \<open>option\<close>; \<open>None\<close> is the halted
    kernel.  Sequencing is the option monad's \<open>do\<close> block.
  \<^item> A loop that the C program does not bound is a \<^theory_text>\<open>partial_function (option)\<close>, so that
    running forever is \<open>None\<close> too; theorems that conclude \<open>\<dots> = Some r\<close> therefore say that the
    code returns.
  \<^item> Machine words are \<open>32 word\<close> and \<open>8 word\<close> (IA-32: \<^verbatim>\<open>unsigned\<close>, \<^verbatim>\<open>size_t\<close>, \<^verbatim>\<open>unsigned long\<close>
    and pointers are 32 bits wide).
\<close>

section \<open>Types\<close>

type_synonym byte = "8 word"
type_synonym u32 = "32 word"
type_synonym u64 = "64 word"

text \<open>Addresses of kernel objects; 0 is the null pointer.\<close>

type_synonym addr = nat

abbreviation (input) NULL :: addr where
  "NULL \<equiv> 0"

section \<open>Simplification sets of the development\<close>

named_theorems monad_simps \<open>rewriting of option-monad programs that returned a value\<close>
named_theorems heap_simps \<open>reading a field of the heap after an update\<close>
named_theorems view_simps \<open>what a component's abstraction function sees after an operation\<close>

section \<open>Assertions\<close>

definition ASSERT :: "bool \<Rightarrow> unit option" where
  "ASSERT b = (if b then Some () else None)"

definition PANIC :: "'a option" where
  "PANIC = None"

lemma ASSERT_True [simp]: "ASSERT True = Some ()"
  and ASSERT_False [simp]: "ASSERT False = None"
  by (simp_all add: ASSERT_def)

lemma ASSERT_bind [simp]: "b \<Longrightarrow> (ASSERT b \<bind> f) = f ()"
  by (simp add: ASSERT_def)

lemma ASSERT_eq_Some [simp]: "ASSERT b = Some u \<longleftrightarrow> b"
  by (simp add: ASSERT_def)

lemma ASSERT_bind_eq_Some [monad_simps]:
  "(ASSERT b \<bind> f) = Some r \<longleftrightarrow> b \<and> f () = Some r"
  by (simp add: ASSERT_def)

lemma ASSERT_bind_eq_None [monad_simps]:
  "(ASSERT b \<bind> f) = None \<longleftrightarrow> \<not> b \<or> f () = None"
  by (simp add: ASSERT_def)

lemma PANIC_not_Some [simp]: "PANIC \<noteq> Some r" and PANIC_eq_None [simp]: "PANIC = None"
  by (simp_all add: PANIC_def)

lemmas bind_Some_iff [monad_simps] = bind_eq_Some_conv
lemmas bind_None_iff = bind_eq_None_conv

section \<open>Arithmetic of lib/round.h\<close>

text \<open>
  The macros on natural numbers.  A macro computes at the width of its operands; where a use can exceed 32 bits
  the component writes the use out at its width instead (\<open>round_up_page\<close> in \<open>Elf_Load\<close>, \<open>malloc_big\<close> in \<open>Malloc\<close>,
  \<open>bytes_to_sectors\<close> in \<open>Inode\<close>), and the other uses stay below.
\<close>

definition DIV_ROUND_UP :: "nat \<Rightarrow> nat \<Rightarrow> nat" where
  "DIV_ROUND_UP x step = (x + step - 1) div step"

definition ROUND_UP :: "nat \<Rightarrow> nat \<Rightarrow> nat" where
  "ROUND_UP x step = (x + step - 1) div step * step"

definition ROUND_DOWN :: "nat \<Rightarrow> nat \<Rightarrow> nat" where
  "ROUND_DOWN x step = x div step * step"

lemma DIV_ROUND_UP_0 [simp]: "DIV_ROUND_UP 0 k = 0"
  by (cases k) (simp_all add: DIV_ROUND_UP_def)

lemma DIV_ROUND_UP_ge: "0 < k \<Longrightarrow> x \<le> DIV_ROUND_UP x k * k"
  using div_mult_mod_eq [of "x + k - 1" k] mod_less_divisor [of k "x + k - 1"]
  unfolding DIV_ROUND_UP_def by linarith

lemma DIV_ROUND_UP_less: "0 < k \<Longrightarrow> i < x \<Longrightarrow> i div k < DIV_ROUND_UP x k"
  by (metis DIV_ROUND_UP_ge div_less_iff_less_mult order_less_le_trans)

lemma DIV_ROUND_UP_least:
  assumes "0 < k" "x \<le> m * k"
  shows "DIV_ROUND_UP x k \<le> m"
proof -
  have "x + k - 1 < Suc m * k"
    using assms by simp
  then have "(x + k - 1) div k < Suc m"
    using assms(1) by (simp add: less_mult_imp_div_less)
  then show ?thesis
    by (simp add: DIV_ROUND_UP_def)
qed

lemma ROUND_UP_bounds: "0 < k \<Longrightarrow> x \<le> ROUND_UP x k \<and> ROUND_UP x k < x + k"
  using div_mult_mod_eq [of "x + k - 1" k] mod_less_divisor [of k "x + k - 1"]
  unfolding ROUND_UP_def by linarith

section \<open>Lists\<close>

lemma list_update_nth_same [simp]: "i < length xs \<Longrightarrow> xs ! i = v \<Longrightarrow> xs[i := v] = xs"
  by auto

lemma nth_list_update_if:
  "i < length xs \<Longrightarrow> xs[j := v] ! i = (if i = j then v else xs ! i)"
  by (cases "i = j") auto

lemma length_filter_list_update_less:
  "k < length xs \<Longrightarrow> P (xs ! k) \<Longrightarrow> \<not> P v \<Longrightarrow> length (filter P (xs[k := v])) < length (filter P xs)"
  by (induction xs arbitrary: k) (auto split: nat.split simp: nth_Cons)

lemma map_upt_cong: "(\<And>i. m \<le> i \<Longrightarrow> i < n \<Longrightarrow> f i = g i) \<Longrightarrow> map f [m..<n] = map g [m..<n]"
  by simp

end
