(* ===== verification/Kernel_List.thy ===== *)
theory Kernel_List
  imports Pintos_Prelude
begin

text \<open>
  \<^verbatim>\<open>lib/kernel/list.c\<close>: intrusive doubly linked lists with a head and a tail sentinel.

  A list element is an address whose two link fields live in the heap; a \<^verbatim>\<open>struct list\<close> at address
  \<open>l\<close> is the pair of elements at \<open>l\<close> (its head) and \<open>l + 8\<close> (its tail, one \<^verbatim>\<open>struct list_elem\<close> of
  two 4-byte pointers further).  Each operation performs the pointer assignments of the source in
  the order of the source; reads of a field happen in the heap of that moment.

  \<open>represents h l xs\<close> says that the heap \<open>h\<close> holds at \<open>l\<close> a well-formed list of the
  elements \<open>xs\<close>.  Every operation is shown to refine the operation on HOL lists, without touching
  addresses outside the list.
\<close>

section \<open>The heap of list elements\<close>

record list_elem =
  prev_ptr :: addr
  next_ptr :: addr

type_synonym heap = "addr \<Rightarrow> list_elem"

text \<open>The addresses of \<^verbatim>\<open>&list->head\<close> and \<^verbatim>\<open>&list->tail\<close>.\<close>

definition head_of :: "addr \<Rightarrow> addr" where
  "head_of l = l"

definition tail_of :: "addr \<Rightarrow> addr" where
  "tail_of l = l + 8"

definition set_prev :: "heap \<Rightarrow> addr \<Rightarrow> addr \<Rightarrow> heap" where
  "set_prev h e p = h(e := (h e)\<lparr>prev_ptr := p\<rparr>)"

definition set_next :: "heap \<Rightarrow> addr \<Rightarrow> addr \<Rightarrow> heap" where
  "set_next h e n = h(e := (h e)\<lparr>next_ptr := n\<rparr>)"

definition is_head :: "heap \<Rightarrow> addr \<Rightarrow> bool" where
  "is_head h e \<longleftrightarrow> e \<noteq> NULL \<and> prev_ptr (h e) = NULL \<and> next_ptr (h e) \<noteq> NULL"

definition is_interior :: "heap \<Rightarrow> addr \<Rightarrow> bool" where
  "is_interior h e \<longleftrightarrow> e \<noteq> NULL \<and> prev_ptr (h e) \<noteq> NULL \<and> next_ptr (h e) \<noteq> NULL"

definition is_tail :: "heap \<Rightarrow> addr \<Rightarrow> bool" where
  "is_tail h e \<longleftrightarrow> e \<noteq> NULL \<and> prev_ptr (h e) \<noteq> NULL \<and> next_ptr (h e) = NULL"

section \<open>Operations\<close>

definition list_init :: "heap \<Rightarrow> addr \<Rightarrow> heap option" where
  "list_init h l = do {
     ASSERT (l \<noteq> NULL);
     let h = set_prev h (head_of l) NULL;
     let h = set_next h (head_of l) (tail_of l);
     let h = set_prev h (tail_of l) (head_of l);
     Some (set_next h (tail_of l) NULL)
   }"

definition list_begin :: "heap \<Rightarrow> addr \<Rightarrow> addr option" where
  "list_begin h l = do { ASSERT (l \<noteq> NULL); Some (next_ptr (h (head_of l))) }"

definition list_next :: "heap \<Rightarrow> addr \<Rightarrow> addr option" where
  "list_next h e = do { ASSERT (is_head h e \<or> is_interior h e); Some (next_ptr (h e)) }"

definition list_end :: "addr \<Rightarrow> addr option" where
  "list_end l = do { ASSERT (l \<noteq> NULL); Some (tail_of l) }"

definition list_rbegin :: "heap \<Rightarrow> addr \<Rightarrow> addr option" where
  "list_rbegin h l = do { ASSERT (l \<noteq> NULL); Some (prev_ptr (h (tail_of l))) }"

definition list_prev :: "heap \<Rightarrow> addr \<Rightarrow> addr option" where
  "list_prev h e = do { ASSERT (is_interior h e \<or> is_tail h e); Some (prev_ptr (h e)) }"

definition list_rend :: "addr \<Rightarrow> addr option" where
  "list_rend l = do { ASSERT (l \<noteq> NULL); Some (head_of l) }"

definition list_head :: "addr \<Rightarrow> addr option" where
  "list_head l = do { ASSERT (l \<noteq> NULL); Some (head_of l) }"

definition list_tail :: "addr \<Rightarrow> addr option" where
  "list_tail l = do { ASSERT (l \<noteq> NULL); Some (tail_of l) }"

definition list_insert :: "heap \<Rightarrow> addr \<Rightarrow> addr \<Rightarrow> heap option" where
  "list_insert h before elem = do {
     ASSERT (is_interior h before \<or> is_tail h before);
     ASSERT (elem \<noteq> NULL);
     let h = set_prev h elem (prev_ptr (h before));
     let h = set_next h elem before;
     let h = set_next h (prev_ptr (h before)) elem;
     Some (set_prev h before elem)
   }"

definition list_splice :: "heap \<Rightarrow> addr \<Rightarrow> addr \<Rightarrow> addr \<Rightarrow> heap option" where
  "list_splice h before first end_elem = do {
     ASSERT (is_interior h before \<or> is_tail h before);
     if first = end_elem then Some h
     else do {
       last \<leftarrow> list_prev h end_elem;
       ASSERT (is_interior h first);
       ASSERT (is_interior h last);
       let h = set_next h (prev_ptr (h first)) (next_ptr (h last));
       let h = set_prev h (next_ptr (h last)) (prev_ptr (h first));
       let h = set_prev h first (prev_ptr (h before));
       let h = set_next h last before;
       let h = set_next h (prev_ptr (h before)) first;
       Some (set_prev h before last)
     }
   }"

definition list_push_front :: "heap \<Rightarrow> addr \<Rightarrow> addr \<Rightarrow> heap option" where
  "list_push_front h l elem = do { b \<leftarrow> list_begin h l; list_insert h b elem }"

definition list_push_back :: "heap \<Rightarrow> addr \<Rightarrow> addr \<Rightarrow> heap option" where
  "list_push_back h l elem = do { e \<leftarrow> list_end l; list_insert h e elem }"

text \<open>\<open>list_remove\<close> returns the element that followed, with the new heap.\<close>

definition list_remove :: "heap \<Rightarrow> addr \<Rightarrow> (addr \<times> heap) option" where
  "list_remove h elem = do {
     ASSERT (is_interior h elem);
     let h = set_next h (prev_ptr (h elem)) (next_ptr (h elem));
     let h = set_prev h (next_ptr (h elem)) (prev_ptr (h elem));
     Some (next_ptr (h elem), h)
   }"

definition list_empty :: "heap \<Rightarrow> addr \<Rightarrow> bool option" where
  "list_empty h l = do { b \<leftarrow> list_begin h l; e \<leftarrow> list_end l; Some (b = e) }"

definition list_front :: "heap \<Rightarrow> addr \<Rightarrow> addr option" where
  "list_front h l = do { em \<leftarrow> list_empty h l; ASSERT (\<not> em); Some (next_ptr (h (head_of l))) }"

definition list_back :: "heap \<Rightarrow> addr \<Rightarrow> addr option" where
  "list_back h l = do { em \<leftarrow> list_empty h l; ASSERT (\<not> em); Some (prev_ptr (h (tail_of l))) }"

definition list_pop_front :: "heap \<Rightarrow> addr \<Rightarrow> (addr \<times> heap) option" where
  "list_pop_front h l = do { front \<leftarrow> list_front h l; (_, h) \<leftarrow> list_remove h front; Some (front, h) }"

definition list_pop_back :: "heap \<Rightarrow> addr \<Rightarrow> (addr \<times> heap) option" where
  "list_pop_back h l = do { back \<leftarrow> list_back h l; (_, h) \<leftarrow> list_remove h back; Some (back, h) }"

section \<open>Chains of linked elements\<close>

text \<open>Consecutive elements point to each other.\<close>

fun linked :: "heap \<Rightarrow> addr list \<Rightarrow> bool" where
  "linked h (a # b # r) \<longleftrightarrow> next_ptr (h a) = b \<and> prev_ptr (h b) = a \<and> linked h (b # r)"
| "linked h _ \<longleftrightarrow> True"

definition wf_chain :: "heap \<Rightarrow> addr list \<Rightarrow> bool" where
  "wf_chain h c \<longleftrightarrow> 2 \<le> length c \<and> distinct c \<and> NULL \<notin> set c \<and> linked h c \<and>
     prev_ptr (h (hd c)) = NULL \<and> next_ptr (h (last c)) = NULL"

definition represents :: "heap \<Rightarrow> addr \<Rightarrow> addr list \<Rightarrow> bool" where
  "represents h l xs \<longleftrightarrow> wf_chain h (head_of l # xs @ [tail_of l])"

lemma next_set_next [heap_simps]: "next_ptr (set_next h e v x) = (if x = e then v else next_ptr (h x))"
  and prev_set_next [heap_simps]: "prev_ptr (set_next h e v x) = prev_ptr (h x)"
  and next_set_prev [heap_simps]: "next_ptr (set_prev h e v x) = next_ptr (h x)"
  and prev_set_prev [heap_simps]: "prev_ptr (set_prev h e v x) = (if x = e then v else prev_ptr (h x))"
  and set_next_other [heap_simps]: "x \<noteq> e \<Longrightarrow> set_next h e v x = h x"
  and set_prev_other [heap_simps]: "x \<noteq> e \<Longrightarrow> set_prev h e v x = h x"
  by (auto simp: set_next_def set_prev_def)

lemma linked_append:
  "xs \<noteq> [] \<Longrightarrow> ys \<noteq> [] \<Longrightarrow> linked h (xs @ ys) \<longleftrightarrow>
     linked h xs \<and> next_ptr (h (last xs)) = hd ys \<and> prev_ptr (h (hd ys)) = last xs \<and> linked h ys"
  by (induction h xs rule: linked.induct; cases ys; auto)

lemma linked_Cons:
  "ys \<noteq> [] \<Longrightarrow> linked h (a # ys) \<longleftrightarrow> next_ptr (h a) = hd ys \<and> prev_ptr (h (hd ys)) = a \<and> linked h ys"
  by (cases ys) auto

lemma linked_set_next [heap_simps]: "e \<notin> set (butlast c) \<Longrightarrow> linked (set_next h e v) c = linked h c"
  by (induction h c rule: linked.induct) (auto simp: heap_simps split: if_splits)

lemma linked_set_prev_Cons: "e \<notin> set c \<Longrightarrow> linked (set_prev h e v) (a # c) = linked h (a # c)"
  by (induction c arbitrary: a) (auto simp: heap_simps)

lemma linked_set_prev [heap_simps]: "e \<notin> set (tl c) \<Longrightarrow> linked (set_prev h e v) c = linked h c"
  by (cases c) (auto simp: linked_set_prev_Cons)

lemma linked_set_other [heap_simps]:
  assumes "e \<notin> set c"
  shows "linked (set_next h e v) c = linked h c" "linked (set_prev h e v) c = linked h c"
proof -
  from assms have "e \<notin> set (butlast c)" "e \<notin> set (tl c)"
    by (auto dest: in_set_butlastD) (cases c; simp)
  then show "linked (set_next h e v) c = linked h c" "linked (set_prev h e v) c = linked h c"
    by (simp_all add: linked_set_next linked_set_prev)
qed

text \<open>Frame rule: heaps that agree on a chain agree on its links.\<close>

lemma linked_frame: "(\<And>x. x \<in> set c \<Longrightarrow> h' x = h x) \<Longrightarrow> linked h' c = linked h c"
  by (induction h c rule: linked.induct) auto

lemma wf_chain_frame: "wf_chain h c \<Longrightarrow> (\<And>x. x \<in> set c \<Longrightarrow> h' x = h x) \<Longrightarrow> wf_chain h' c"
  unfolding wf_chain_def using linked_frame [of c h' h]
  by (metis hd_in_set last_in_set list.size(3) not_numeral_le_zero)

lemma represents_frame:
  "represents h l xs \<Longrightarrow> (\<And>x. x \<in> set (head_of l # xs @ [tail_of l]) \<Longrightarrow> h' x = h x) \<Longrightarrow> represents h' l xs"
  unfolding represents_def by (rule wf_chain_frame)

lemma distinct_ends:
  assumes "distinct xs"
  shows "hd xs \<notin> set (tl xs)" "last xs \<notin> set (butlast xs)"
  using assms by (cases xs; simp) (use assms in \<open>cases xs rule: rev_cases; simp\<close>)

lemmas chain_simps = heap_simps linked_append distinct_ends wf_chain_def

text \<open>Insertion between two non-empty parts of a chain.\<close>

lemma list_insert_chain:
  assumes c: "wf_chain h (us @ vs)" and ne: "us \<noteq> []" "vs \<noteq> []" and e: "e \<noteq> NULL" "e \<notin> set (us @ vs)"
  obtains h' where "list_insert h (hd vs) e = Some h'" "wf_chain h' (us @ [e] @ vs)"
    "\<And>x. x \<notin> {e, last us, hd vs} \<Longrightarrow> h' x = h x"
proof -
  let ?b = "hd vs" and ?p = "last us"
  have d: "distinct us" "distinct vs" "set us \<inter> set vs = {}" and nz: "NULL \<notin> set us" "NULL \<notin> set vs"
    and lk: "linked h us" "linked h vs" "next_ptr (h ?p) = ?b" "prev_ptr (h ?b) = ?p"
    using c ne by (auto simp: wf_chain_def linked_append)
  have mem: "?p \<in> set us" "?b \<in> set vs" using ne by auto
  have nn: "?p \<noteq> NULL" "?b \<noteq> NULL" using mem nz by metis+
  have ab: "is_interior h ?b \<or> is_tail h ?b"
    using nn lk(4) by (auto simp: is_interior_def is_tail_def)
  let ?h = "set_prev (set_next (set_next (set_prev h e ?p) e ?b) ?p e) ?b e"
  have ne': "?p \<noteq> ?b" "e \<noteq> ?p" "e \<noteq> ?b" using mem d e by auto
  have 1: "list_insert h ?b e = Some ?h"
    using ab e(1) lk(4) ne' by (simp add: list_insert_def Let_def heap_simps)
  have mem': "e \<notin> set us" "e \<notin> set vs" using e by auto
  have nin: "?b \<notin> set us" "?p \<notin> set vs" using mem d by auto
  have "linked ?h us" "linked ?h vs"
    using lk mem' nin distinct_ends [OF d(1)] distinct_ends [OF d(2)]
    by (simp_all add: heap_simps)
  moreover have "hd us \<noteq> ?b" "last vs \<noteq> ?p" "hd us \<noteq> e" "last vs \<noteq> e"
    using nin mem' last_in_set [OF ne(2)] hd_in_set [OF ne(1)] by metis+
  then have "prev_ptr (?h (hd us)) = NULL" "next_ptr (?h (last vs)) = NULL"
    using c ne by (auto simp: wf_chain_def heap_simps)
  ultimately have 2: "wf_chain ?h (us @ [e] @ vs)"
    using c ne e d ne' by (auto simp: wf_chain_def linked_append linked_Cons heap_simps)
  show thesis
    by (rule that [OF 1 2]) (auto simp: heap_simps)
qed

text \<open>Removal of one element from the middle of a chain.\<close>

lemma list_remove_chain:
  assumes c: "wf_chain h (us @ e # vs)" and ne: "us \<noteq> []" "vs \<noteq> []"
  obtains h' where "list_remove h e = Some (hd vs, h')" "wf_chain h' (us @ vs)"
    "\<And>x. x \<notin> {last us, hd vs} \<Longrightarrow> h' x = h x"
    "next_ptr (h' (last us)) = hd vs" "prev_ptr (h' (hd vs)) = last us"
proof -
  let ?n = "hd vs" and ?p = "last us"
  have lk0: "linked h (us @ [e] @ vs)" using c by (simp add: wf_chain_def)
  have d: "distinct us" "distinct vs" "set us \<inter> set vs = {}" "e \<notin> set us" "e \<notin> set vs"
    and nz: "NULL \<notin> set us" "NULL \<notin> set vs" "e \<noteq> NULL"
    and lk: "linked h us" "linked h vs" "prev_ptr (h e) = ?p" "next_ptr (h e) = ?n"
    using c ne lk0 by (auto simp: wf_chain_def linked_append simp del: append_Cons)
  have mem: "?p \<in> set us" "?n \<in> set vs" using ne by auto
  have nn: "?p \<noteq> NULL" "?n \<noteq> NULL" using mem nz by metis+
  have int: "is_interior h e"
    using nn nz lk(3,4) by (auto simp: is_interior_def)
  let ?h = "set_prev (set_next h ?p ?n) ?n ?p"
  have ne': "?p \<noteq> e" "?n \<noteq> e" "?p \<noteq> ?n" using mem d by auto
  have 1: "list_remove h e = Some (?n, ?h)"
    using int lk ne' by (simp add: list_remove_def Let_def heap_simps)
  have nin: "?n \<notin> set us" "?p \<notin> set vs" using mem d by auto
  have "linked ?h us" "linked ?h vs"
    using lk nin distinct_ends [OF d(1)] distinct_ends [OF d(2)]
    by (simp_all add: heap_simps)
  moreover have "hd us \<noteq> ?n" "last vs \<noteq> ?p"
    using nin last_in_set [OF ne(2)] hd_in_set [OF ne(1)] by metis+
  then have "prev_ptr (?h (hd us)) = NULL" "next_ptr (?h (last vs)) = NULL"
    using c ne by (auto simp: wf_chain_def heap_simps)
  moreover have "2 \<le> length (us @ vs)"
    using ne by (cases us; cases vs) auto
  ultimately have 2: "wf_chain ?h (us @ vs)"
    using c ne d ne' by (auto simp: wf_chain_def linked_append heap_simps)
  show thesis
    by (rule that [OF 1 2]) (auto simp: heap_simps)
qed

text \<open>Whatever has a non-empty part of the chain on each side is an interior element.\<close>

lemma wf_chain_interior:
  assumes c: "wf_chain h (us @ ms @ vs)" and ne: "us \<noteq> []" "vs \<noteq> []" and x: "x \<in> set ms"
  shows "is_interior h x"
proof -
  from x obtain as bs where ms: "ms = as @ x # bs" by (auto simp: in_set_conv_decomp)
  let ?us = "us @ as" and ?vs = "bs @ vs"
  have "linked h (?us @ [x] @ ?vs)" and nz: "NULL \<notin> set (?us @ [x] @ ?vs)" using c ms by (auto simp: wf_chain_def)
  moreover have ne': "?us \<noteq> []" "?vs \<noteq> []" using ne by auto
  ultimately have "prev_ptr (h x) = last ?us" "next_ptr (h x) = hd ?vs"
    using linked_append [of ?us "[x] @ ?vs" h] linked_append [of "[x]" ?vs h] by auto
  moreover have "last ?us \<in> set ?us" "hd ?vs \<in> set ?vs" using ne' by (blast intro: last_in_set hd_in_set)+
  ultimately show ?thesis using nz unfolding is_interior_def by (metis UnCI list.set_intros(1) set_append)
qed

text \<open>Moving the block \<open>fs\<close> in front of the block \<open>bs\<close> that precedes it in the same chain.\<close>

lemma list_splice_chain:
  assumes c: "wf_chain h (us @ bs @ fs @ vs)" and ne: "us \<noteq> []" "bs \<noteq> []" "fs \<noteq> []" "vs \<noteq> []"
  obtains h' where "list_splice h (hd bs) (hd fs) (hd vs) = Some h'" "wf_chain h' (us @ fs @ bs @ vs)"
    "\<And>x. x \<notin> set (us @ bs @ fs @ vs) \<Longrightarrow> h' x = h x"
proof -
  let ?p = "last us" and ?b = "hd bs" and ?q = "last bs" and ?f = "hd fs" and ?l = "last fs" and ?n = "hd vs"
  have d: "distinct us" "distinct bs" "distinct fs" "distinct vs"
    and dj: "set us \<inter> set bs = {}" "set us \<inter> set fs = {}" "set us \<inter> set vs = {}"
      "set bs \<inter> set fs = {}" "set bs \<inter> set vs = {}" "set fs \<inter> set vs = {}"
    and nz: "NULL \<notin> set us" "NULL \<notin> set bs" "NULL \<notin> set fs" "NULL \<notin> set vs"
    and lk: "linked h us" "linked h bs" "linked h fs" "linked h vs"
      "prev_ptr (h ?b) = ?p" "next_ptr (h ?q) = ?f" "prev_ptr (h ?f) = ?q" "next_ptr (h ?l) = ?n" "prev_ptr (h ?n) = ?l"
    and ends: "prev_ptr (h (hd us)) = NULL" "next_ptr (h (last vs)) = NULL"
    using c ne by (auto simp: wf_chain_def linked_append)
  have mem: "?p \<in> set us" "hd us \<in> set us" "?b \<in> set bs" "?q \<in> set bs" "?f \<in> set fs" "?l \<in> set fs"
    "?n \<in> set vs" "last vs \<in> set vs"
    using ne by auto
  have nn: "?p \<noteq> NULL" "?b \<noteq> NULL" "?q \<noteq> NULL" "?f \<noteq> NULL" "?l \<noteq> NULL" "?n \<noteq> NULL"
    using mem nz by metis+
  have dn: "?p \<notin> set bs" "?p \<notin> set fs" "?p \<notin> set vs" "?b \<notin> set us" "?b \<notin> set fs" "?b \<notin> set vs"
    "?q \<notin> set us" "?q \<notin> set fs" "?q \<notin> set vs" "?f \<notin> set us" "?f \<notin> set bs" "?f \<notin> set vs"
    "?l \<notin> set us" "?l \<notin> set bs" "?l \<notin> set vs" "?n \<notin> set us" "?n \<notin> set bs" "?n \<notin> set fs"
    "hd us \<notin> set bs" "hd us \<notin> set fs" "hd us \<notin> set vs"
    "last vs \<notin> set us" "last vs \<notin> set bs" "last vs \<notin> set fs"
    using mem dj by auto
  have neq: "?p \<noteq> ?b" "?p \<noteq> ?q" "?p \<noteq> ?f" "?p \<noteq> ?l" "?p \<noteq> ?n" "?b \<noteq> ?f" "?b \<noteq> ?l" "?b \<noteq> ?n"
    "?q \<noteq> ?f" "?q \<noteq> ?l" "?q \<noteq> ?n" "?f \<noteq> ?n" "?l \<noteq> ?n" "hd us \<noteq> ?b" "hd us \<noteq> ?f" "hd us \<noteq> ?n"
    "last vs \<noteq> ?p" "last vs \<noteq> ?l" "last vs \<noteq> ?q"
    using mem dn by metis+
  let ?h = "set_prev (set_next (set_next (set_prev (set_prev (set_next h ?q ?n) ?n ?q) ?f ?p) ?l ?b) ?p ?f) ?b ?l"
  have "is_interior h ?f" "is_interior h ?l"
    using wf_chain_interior [of h "us @ bs" fs vs] c ne mem by auto
  then have pre: "is_interior h ?b \<or> is_tail h ?b" "is_interior h ?n \<or> is_tail h ?n" "is_interior h ?f" "is_interior h ?l"
    using lk nn by (auto simp: is_interior_def is_tail_def)
  have 1: "list_splice h ?b ?f ?n = Some ?h"
    using pre lk neq by (simp add: list_splice_def list_prev_def Let_def heap_simps)
  have lk': "linked ?h us" "linked ?h bs" "linked ?h fs" "linked ?h vs"
    using lk dn distinct_ends [OF d(1)] distinct_ends [OF d(2)] distinct_ends [OF d(3)] distinct_ends [OF d(4)]
    by (simp_all add: heap_simps)
  have ptrs: "next_ptr (?h ?p) = ?f" "prev_ptr (?h ?f) = ?p" "next_ptr (?h ?l) = ?b" "prev_ptr (?h ?b) = ?l"
    "next_ptr (?h ?q) = ?n" "prev_ptr (?h ?n) = ?q" "prev_ptr (?h (hd us)) = NULL" "next_ptr (?h (last vs)) = NULL"
    using neq neq [symmetric] ends by (simp_all add: heap_simps)
  have 2: "wf_chain ?h (us @ fs @ bs @ vs)"
    using c ne lk' ptrs by (auto simp: wf_chain_def linked_append)
  have "?h x = h x" if "x \<notin> set (us @ bs @ fs @ vs)" for x
  proof -
    have "x \<noteq> ?p" "x \<noteq> ?b" "x \<noteq> ?q" "x \<noteq> ?f" "x \<noteq> ?l" "x \<noteq> ?n" using mem that by auto
    then show ?thesis by (simp add: heap_simps)
  qed
  then show thesis
    by (rule that [OF 1 2])
qed

section \<open>Refinement of the basic operations\<close>

lemma represents_simps:
  assumes "represents h l xs"
  shows "l \<noteq> NULL" "next_ptr (h (head_of l)) = hd (xs @ [tail_of l])"
    "prev_ptr (h (tail_of l)) = last (head_of l # xs)" "distinct xs" "NULL \<notin> set xs"
    "head_of l \<notin> set xs" "tail_of l \<notin> set xs"
proof -
  have c: "wf_chain h (head_of l # xs @ [tail_of l])" and lk: "linked h ([head_of l] @ xs @ [tail_of l])"
    "linked h ((head_of l # xs) @ [tail_of l])"
    using assms by (simp_all add: represents_def wf_chain_def)
  show "l \<noteq> NULL" "distinct xs" "NULL \<notin> set xs" "head_of l \<notin> set xs" "tail_of l \<notin> set xs"
    using c by (auto simp: wf_chain_def head_of_def)
  show "next_ptr (h (head_of l)) = hd (xs @ [tail_of l])"
    using lk(1) by (subst (asm) linked_append) auto
  show "prev_ptr (h (tail_of l)) = last (head_of l # xs)"
    using lk(2) by (subst (asm) linked_append) auto
qed

lemma head_neq_tail [simp]: "head_of l \<noteq> tail_of l" "tail_of l \<noteq> head_of l"
  by (simp_all add: head_of_def tail_of_def)

lemma list_end_eq [simp]: "l \<noteq> NULL \<Longrightarrow> list_end l = Some (tail_of l)"
  by (simp add: list_end_def)

lemma list_begin_represents: "represents h l xs \<Longrightarrow> list_begin h l = Some (hd (xs @ [tail_of l]))"
  by (simp add: list_begin_def represents_simps)

lemma list_empty_represents: "represents h l xs \<Longrightarrow> list_empty h l = Some (xs = [])"
  using represents_simps [of h l xs]
  by (cases xs) (auto simp: list_empty_def list_begin_represents)

lemma list_init_represents:
  assumes "l \<noteq> NULL"
  obtains h' where "list_init h l = Some h'" "represents h' l []"
    "\<And>x. x \<notin> {head_of l, tail_of l} \<Longrightarrow> h' x = h x"
  using assms
  by (auto simp: list_init_def represents_def wf_chain_def heap_simps head_of_def tail_of_def Let_def)

lemma list_insert_represents:
  assumes "represents h l (us @ vs)" "e \<noteq> NULL" "e \<notin> set (us @ vs) \<union> {head_of l, tail_of l}"
  obtains h' where "list_insert h (hd (vs @ [tail_of l])) e = Some h'" "represents h' l (us @ e # vs)"
    "\<And>x. x \<notin> set (us @ e # vs) \<union> {head_of l, tail_of l} \<Longrightarrow> h' x = h x"
proof -
  have "wf_chain h ((head_of l # us) @ (vs @ [tail_of l]))" "e \<notin> set ((head_of l # us) @ (vs @ [tail_of l]))"
    using assms by (auto simp: represents_def)
  from list_insert_chain [OF this(1) _ _ assms(2) this(2)] obtain h' where
    h': "list_insert h (hd (vs @ [tail_of l])) e = Some h'" "wf_chain h' ((head_of l # us) @ [e] @ vs @ [tail_of l])"
    and fr: "\<And>x. x \<notin> {e, last (head_of l # us), hd (vs @ [tail_of l])} \<Longrightarrow> h' x = h x"
    by auto
  have "last (head_of l # us) \<in> set (head_of l # us)" "hd (vs @ [tail_of l]) \<in> set (vs @ [tail_of l])"
    by (blast intro: last_in_set hd_in_set)+
  then show thesis
    using that [OF h'(1)] h'(2) fr by (auto simp: represents_def)
qed

lemma list_remove_represents:
  assumes "represents h l (us @ e # vs)"
  obtains h' where "list_remove h e = Some (hd (vs @ [tail_of l]), h')" "represents h' l (us @ vs)"
    "\<And>x. x \<notin> set (us @ vs) \<union> {head_of l, tail_of l} \<Longrightarrow> h' x = h x"
proof -
  have "wf_chain h ((head_of l # us) @ e # (vs @ [tail_of l]))"
    using assms by (auto simp: represents_def)
  from list_remove_chain [OF this] obtain h' where
    h': "list_remove h e = Some (hd (vs @ [tail_of l]), h')" "wf_chain h' ((head_of l # us) @ vs @ [tail_of l])"
    and fr: "\<And>x. x \<notin> {last (head_of l # us), hd (vs @ [tail_of l])} \<Longrightarrow> h' x = h x"
    by auto
  have ends: "last (head_of l # us) \<in> set (head_of l # us)" "hd (vs @ [tail_of l]) \<in> set (vs @ [tail_of l])"
    by (blast intro: last_in_set hd_in_set)+
  have "h' x = h x" if "x \<notin> set (us @ vs) \<union> {head_of l, tail_of l}" for x
    by (rule fr) (use ends that in \<open>auto simp del: last.simps\<close>)
  then show thesis
    using that [OF h'(1)] h'(2) by (auto simp: represents_def)
qed

lemma list_next_represents:
  assumes "represents h l (us @ x # vs)"
  shows "list_next h x = Some (hd (vs @ [tail_of l]))"
proof -
  have c: "wf_chain h ((head_of l # us) @ [x] @ (vs @ [tail_of l]))" using assms by (simp add: represents_def)
  then have "linked h ((head_of l # us) @ [x] @ (vs @ [tail_of l]))" unfolding wf_chain_def by blast
  then have "next_ptr (h x) = hd (vs @ [tail_of l])"
    by (simp add: linked_append linked_Cons del: append_Cons)
  moreover have "is_interior h x" by (rule wf_chain_interior [OF c]) auto
  ultimately show ?thesis by (simp add: list_next_def)
qed

lemma list_prev_represents:
  assumes "represents h l (us @ vs)" "us \<noteq> []"
  shows "list_prev h (hd (vs @ [tail_of l])) = Some (last us)"
proof -
  let ?b = "hd (vs @ [tail_of l])"
  have c: "wf_chain h ((head_of l # us) @ (vs @ [tail_of l]))" using assms by (simp add: represents_def)
  then have "linked h ((head_of l # us) @ (vs @ [tail_of l]))" "NULL \<notin> set ((head_of l # us) @ (vs @ [tail_of l]))"
    unfolding wf_chain_def by blast+
  then have p: "prev_ptr (h ?b) = last us" and nz: "NULL \<notin> set us" "NULL \<notin> set (vs @ [tail_of l])"
    using assms(2) by (auto simp: linked_append simp del: append_Cons)
  have "last us \<noteq> NULL" "?b \<noteq> NULL"
    using nz(1) assms(2) last_in_set [of us] by metis
      (use nz(2) hd_in_set [of "vs @ [tail_of l]"] in \<open>metis append_is_Nil_conv list.distinct(1)\<close>)
  with p show ?thesis by (auto simp: list_prev_def is_interior_def is_tail_def ASSERT_def)
qed

lemma list_front_represents: "represents h l (x # xs) \<Longrightarrow> list_front h l = Some x"
  using represents_simps(2) [of h l "x # xs"] by (simp add: list_front_def list_empty_represents)

lemma list_back_represents: "represents h l (xs @ [x]) \<Longrightarrow> list_back h l = Some x"
  using represents_simps(3) [of h l "xs @ [x]"] by (simp add: list_back_def list_empty_represents)

lemma list_push_front_represents:
  assumes "represents h l xs" "e \<noteq> NULL" "e \<notin> set xs \<union> {head_of l, tail_of l}"
  obtains h' where "list_push_front h l e = Some h'" "represents h' l (e # xs)"
    "\<And>x. x \<notin> set (e # xs) \<union> {head_of l, tail_of l} \<Longrightarrow> h' x = h x"
  using list_insert_represents [of h l "[]" xs e] assms
  by (auto simp: list_push_front_def list_begin_represents)

lemma list_push_back_represents:
  assumes "represents h l xs" "e \<noteq> NULL" "e \<notin> set xs \<union> {head_of l, tail_of l}"
  obtains h' where "list_push_back h l e = Some h'" "represents h' l (xs @ [e])"
    "\<And>x. x \<notin> set (e # xs) \<union> {head_of l, tail_of l} \<Longrightarrow> h' x = h x"
  using list_insert_represents [of h l xs "[]" e] assms represents_simps(1) [OF assms(1)]
  by (auto simp: list_push_back_def)

lemma list_pop_front_represents:
  assumes "represents h l (x # xs)"
  obtains h' where "list_pop_front h l = Some (x, h')" "represents h' l xs"
    "\<And>y. y \<notin> set xs \<union> {head_of l, tail_of l} \<Longrightarrow> h' y = h y"
proof (rule list_remove_represents [of h l "[]" x xs])
  show "represents h l ([] @ x # xs)" using assms by simp
next
  fix h'
  assume h': "list_remove h x = Some (hd (xs @ [tail_of l]), h')" "represents h' l ([] @ xs)"
    "\<And>y. y \<notin> set ([] @ xs) \<union> {head_of l, tail_of l} \<Longrightarrow> h' y = h y"
  have "list_pop_front h l = Some (x, h')"
    using assms h'(1) by (simp add: list_pop_front_def list_front_represents)
  then show thesis by (rule that) (use h' in auto)
qed

lemma list_pop_back_represents:
  assumes "represents h l (xs @ [x])"
  obtains h' where "list_pop_back h l = Some (x, h')" "represents h' l xs"
    "\<And>y. y \<notin> set xs \<union> {head_of l, tail_of l} \<Longrightarrow> h' y = h y"
proof (rule list_remove_represents [of h l xs x "[]"])
  show "represents h l (xs @ x # [])" using assms by simp
next
  fix h'
  assume h': "list_remove h x = Some (hd ([] @ [tail_of l]), h')" "represents h' l (xs @ [])"
    "\<And>y. y \<notin> set (xs @ []) \<union> {head_of l, tail_of l} \<Longrightarrow> h' y = h y"
  have "list_pop_back h l = Some (x, h')"
    using assms h'(1) by (simp add: list_pop_back_def list_back_represents)
  then show thesis by (rule that) (use h' in auto)
qed

lemma list_pop_empty:
  "represents h l [] \<Longrightarrow> list_pop_front h l = None \<and> list_pop_back h l = None"
  by (simp add: list_pop_front_def list_pop_back_def list_front_def list_back_def list_empty_represents)

section \<open>The interface the kernel's queues rely on\<close>

text \<open>Pushing a list of elements one at a time, and popping a number of them.\<close>

fun push_many :: "('h \<Rightarrow> 'l \<Rightarrow> 'e \<Rightarrow> 'h option) \<Rightarrow> 'h \<Rightarrow> 'l \<Rightarrow> 'e list \<Rightarrow> 'h option" where
  "push_many push h l [] = Some h"
| "push_many push h l (e # es) = do { h \<leftarrow> push h l e; push_many push h l es }"

fun pop_many :: "('h \<Rightarrow> 'l \<Rightarrow> ('e \<times> 'h) option) \<Rightarrow> nat \<Rightarrow> 'h \<Rightarrow> 'l \<Rightarrow> ('e list \<times> 'h) option" where
  "pop_many pop 0 h l = Some ([], h)"
| "pop_many pop (Suc n) h l =
     do { (e, h) \<leftarrow> pop h l; (es, h) \<leftarrow> pop_many pop n h l; Some (e # es, h) }"

locale intrusive_list =
  fixes repr :: "'h \<Rightarrow> 'l \<Rightarrow> 'e list \<Rightarrow> bool"
    and elem_ok :: "'l \<Rightarrow> 'e \<Rightarrow> bool"
    and push_front push_back :: "'h \<Rightarrow> 'l \<Rightarrow> 'e \<Rightarrow> 'h option"
    and pop_front pop_back :: "'h \<Rightarrow> 'l \<Rightarrow> ('e \<times> 'h) option"
  assumes push_front_law:
      "repr h l xs \<Longrightarrow> elem_ok l e \<Longrightarrow> e \<notin> set xs \<Longrightarrow> \<exists>h'. push_front h l e = Some h' \<and> repr h' l (e # xs)"
    and push_back_law:
      "repr h l xs \<Longrightarrow> elem_ok l e \<Longrightarrow> e \<notin> set xs \<Longrightarrow> \<exists>h'. push_back h l e = Some h' \<and> repr h' l (xs @ [e])"
    and pop_front_law: "repr h l (e # xs) \<Longrightarrow> \<exists>h'. pop_front h l = Some (e, h') \<and> repr h' l xs"
    and pop_back_law: "repr h l (xs @ [e]) \<Longrightarrow> \<exists>h'. pop_back h l = Some (e, h') \<and> repr h' l xs"
begin

lemma push_back_many:
  "repr h l xs \<Longrightarrow> \<forall>e \<in> set es. elem_ok l e \<Longrightarrow> distinct (xs @ es) \<Longrightarrow>
     \<exists>h'. push_many push_back h l es = Some h' \<and> repr h' l (xs @ es)"
proof (induction es arbitrary: h xs)
  case (Cons e es)
  then obtain h1 where h1: "push_back h l e = Some h1" "repr h1 l (xs @ [e])"
    using push_back_law [of h l xs e] by auto
  moreover have "\<exists>h'. push_many push_back h1 l es = Some h' \<and> repr h' l ((xs @ [e]) @ es)"
    by (rule Cons.IH) (use Cons.prems h1 in auto)
  ultimately show ?case by auto
qed auto

lemma push_front_many:
  "repr h l xs \<Longrightarrow> \<forall>e \<in> set es. elem_ok l e \<Longrightarrow> distinct (rev es @ xs) \<Longrightarrow>
     \<exists>h'. push_many push_front h l es = Some h' \<and> repr h' l (rev es @ xs)"
proof (induction es arbitrary: h xs)
  case (Cons e es)
  then obtain h1 where h1: "push_front h l e = Some h1" "repr h1 l (e # xs)"
    using push_front_law [of h l xs e] by auto
  moreover have "\<exists>h'. push_many push_front h1 l es = Some h' \<and> repr h' l (rev es @ (e # xs))"
    by (rule Cons.IH) (use Cons.prems h1 in auto)
  ultimately show ?case by auto
qed auto

lemma pop_front_many:
  "repr h l (es @ xs) \<Longrightarrow> \<exists>h'. pop_many pop_front (length es) h l = Some (es, h') \<and> repr h' l xs"
proof (induction es arbitrary: h)
  case (Cons e es)
  then obtain h1 where h1: "pop_front h l = Some (e, h1)" "repr h1 l (es @ xs)"
    using pop_front_law [of h l e "es @ xs"] by auto
  from Cons.IH [OF h1(2)] h1(1) show ?case by auto
qed auto

text \<open>First in, first out; last in, first out.\<close>

lemma fifo_order:
  assumes "repr h l []" "\<forall>e \<in> set es. elem_ok l e" "distinct es"
  shows "\<exists>h1 h2. push_many push_back h l es = Some h1 \<and> pop_many pop_front (length es) h1 l = Some (es, h2) \<and> repr h2 l []"
  using push_back_many [OF assms(1,2)] assms(3) pop_front_many [of _ l es "[]"] by fastforce

lemma lifo_order:
  assumes "repr h l []" "\<forall>e \<in> set es. elem_ok l e" "distinct es"
  shows "\<exists>h1 h2. push_many push_front h l es = Some h1 \<and> pop_many pop_front (length es) h1 l = Some (rev es, h2) \<and> repr h2 l []"
  using push_front_many [OF assms(1,2)] assms(3) pop_front_many [of _ l "rev es" "[]"] by fastforce

end

definition elem_ok :: "addr \<Rightarrow> addr \<Rightarrow> bool" where
  "elem_ok l e \<longleftrightarrow> e \<noteq> NULL \<and> e \<noteq> head_of l \<and> e \<noteq> tail_of l"

interpretation klist: intrusive_list represents elem_ok list_push_front list_push_back list_pop_front list_pop_back
proof
  fix h l xs e
  assume "represents h l xs" "elem_ok l e" "e \<notin> set xs"
  then have r: "represents h l xs" "e \<noteq> NULL" "e \<notin> set xs \<union> {head_of l, tail_of l}"
    by (auto simp: elem_ok_def)
  show "\<exists>h'. list_push_front h l e = Some h' \<and> represents h' l (e # xs)"
    by (rule list_push_front_represents [OF r]) blast
  show "\<exists>h'. list_push_back h l e = Some h' \<and> represents h' l (xs @ [e])"
    by (rule list_push_back_represents [OF r]) blast
next
  fix h l xs e
  show "\<exists>h'. list_pop_front h l = Some (e, h') \<and> represents h' l xs" if "represents h l (e # xs)"
    by (rule list_pop_front_represents [OF that]) blast
  show "\<exists>h'. list_pop_back h l = Some (e, h') \<and> represents h' l xs" if "represents h l (xs @ [e])"
    by (rule list_pop_back_represents [OF that]) blast
qed

end
