(* ===== verification/Kernel_List_Ordered.thy ===== *)
theory Kernel_List_Ordered
  imports Kernel_List
begin

text \<open>
  The loops of \<^verbatim>\<open>lib/kernel/list.c\<close>: size, reversal, and the operations on ordered lists (sorted
  insertion, duplicate removal, maximum and minimum).

  The comparison function is a parameter \<open>lt\<close> (\<^verbatim>\<open>less\<close> in the source) on elements.  It stands for the C callback with
  its auxiliary data fixed; the callbacks of the kernel read fields of the enclosing structures,
  which no list operation writes.
\<close>

section \<open>Operations\<close>

partial_function (option) list_size_loop :: "heap \<Rightarrow> addr \<Rightarrow> addr \<Rightarrow> nat \<Rightarrow> nat option" where
  "list_size_loop h l e cnt = do {
     en \<leftarrow> list_end l;
     if e \<noteq> en then do { e \<leftarrow> list_next h e; list_size_loop h l e (cnt + 1) } else Some cnt
   }"

definition list_size :: "heap \<Rightarrow> addr \<Rightarrow> nat option" where
  "list_size h l = do { e \<leftarrow> list_begin h l; list_size_loop h l e 0 }"

text \<open>\<open>swap (&e->prev, &e->next)\<close> on one element.\<close>

definition swap_links :: "heap \<Rightarrow> addr \<Rightarrow> heap" where
  "swap_links h e = h(e := \<lparr>prev_ptr = next_ptr (h e), next_ptr = prev_ptr (h e)\<rparr>)"

partial_function (option) list_reverse_loop :: "heap \<Rightarrow> addr \<Rightarrow> addr \<Rightarrow> heap option" where
  "list_reverse_loop h l e = do {
     en \<leftarrow> list_end l;
     if e \<noteq> en then do {
       ASSERT (e \<noteq> NULL);
       let h = swap_links h e;
       list_reverse_loop h l (prev_ptr (h e))
     } else Some h
   }"

definition list_reverse :: "heap \<Rightarrow> addr \<Rightarrow> heap option" where
  "list_reverse h l = do {
     em \<leftarrow> list_empty h l;
     if \<not> em then do {
       e \<leftarrow> list_begin h l;
       h \<leftarrow> list_reverse_loop h l e;
       let t = next_ptr (h (head_of l));
       let h = set_next h (head_of l) (prev_ptr (h (tail_of l)));
       let h = set_prev h (tail_of l) t;
       let a = next_ptr (h (head_of l));
       let b = prev_ptr (h (tail_of l));
       ASSERT (a \<noteq> NULL \<and> b \<noteq> NULL);
       let t = prev_ptr (h a);
       let h = set_prev h a (next_ptr (h b));
       Some (set_next h b t)
     } else Some h
   }"

partial_function (option) insert_ordered_loop :: "(addr \<Rightarrow> addr \<Rightarrow> bool) \<Rightarrow> heap \<Rightarrow> addr \<Rightarrow> addr \<Rightarrow> addr \<Rightarrow> addr option" where
  "insert_ordered_loop lt h l elem e = do {
     en \<leftarrow> list_end l;
     if e \<noteq> en \<and> \<not> lt elem e then do { e \<leftarrow> list_next h e; insert_ordered_loop lt h l elem e }
     else Some e
   }"

definition list_insert_ordered :: "(addr \<Rightarrow> addr \<Rightarrow> bool) \<Rightarrow> heap \<Rightarrow> addr \<Rightarrow> addr \<Rightarrow> heap option" where
  "list_insert_ordered lt h l elem = do {
     ASSERT (l \<noteq> NULL);
     ASSERT (elem \<noteq> NULL);
     e \<leftarrow> list_begin h l;
     e \<leftarrow> insert_ordered_loop lt h l elem e;
     list_insert h e elem
   }"

partial_function (option) unique_loop :: "(addr \<Rightarrow> addr \<Rightarrow> bool) \<Rightarrow> heap \<Rightarrow> addr \<Rightarrow> addr \<Rightarrow> addr \<Rightarrow> heap option" where
  "unique_loop lt h l duplicates elem = do {
     nxt \<leftarrow> list_next h elem;
     en \<leftarrow> list_end l;
     if nxt \<noteq> en then
       if \<not> lt elem nxt \<and> \<not> lt nxt elem then do {
         (_, h) \<leftarrow> list_remove h nxt;
         h \<leftarrow> (if duplicates \<noteq> NULL then list_push_back h duplicates nxt else Some h);
         unique_loop lt h l duplicates elem
       } else unique_loop lt h l duplicates nxt
     else Some h
   }"

definition list_unique :: "(addr \<Rightarrow> addr \<Rightarrow> bool) \<Rightarrow> heap \<Rightarrow> addr \<Rightarrow> addr \<Rightarrow> heap option" where
  "list_unique lt h l duplicates = do {
     ASSERT (l \<noteq> NULL);
     em \<leftarrow> list_empty h l;
     if em then Some h
     else do { elem \<leftarrow> list_begin h l; unique_loop lt h l duplicates elem }
   }"

partial_function (option) max_loop :: "(addr \<Rightarrow> addr \<Rightarrow> bool) \<Rightarrow> heap \<Rightarrow> addr \<Rightarrow> addr \<Rightarrow> addr \<Rightarrow> addr option" where
  "max_loop lt h l mx e = do {
     en \<leftarrow> list_end l;
     if e \<noteq> en then do {
       let mx = (if lt mx e then e else mx);
       e \<leftarrow> list_next h e;
       max_loop lt h l mx e
     } else Some mx
   }"

definition list_max :: "(addr \<Rightarrow> addr \<Rightarrow> bool) \<Rightarrow> heap \<Rightarrow> addr \<Rightarrow> addr option" where
  "list_max lt h l = do {
     mx \<leftarrow> list_begin h l;
     en \<leftarrow> list_end l;
     if mx \<noteq> en then do { e \<leftarrow> list_next h mx; max_loop lt h l mx e } else Some mx
   }"

partial_function (option) min_loop :: "(addr \<Rightarrow> addr \<Rightarrow> bool) \<Rightarrow> heap \<Rightarrow> addr \<Rightarrow> addr \<Rightarrow> addr \<Rightarrow> addr option" where
  "min_loop lt h l mn e = do {
     en \<leftarrow> list_end l;
     if e \<noteq> en then do {
       let mn = (if lt e mn then e else mn);
       e \<leftarrow> list_next h e;
       min_loop lt h l mn e
     } else Some mn
   }"

definition list_min :: "(addr \<Rightarrow> addr \<Rightarrow> bool) \<Rightarrow> heap \<Rightarrow> addr \<Rightarrow> addr option" where
  "list_min lt h l = do {
     mn \<leftarrow> list_begin h l;
     en \<leftarrow> list_end l;
     if mn \<noteq> en then do { e \<leftarrow> list_next h mn; min_loop lt h l mn e } else Some mn
   }"

section \<open>Traversal\<close>

text \<open>The position of an element that is not the sentinel, and one step of a traversal.\<close>

lemma cursor_at_end: "represents h l xs \<Longrightarrow> hd (vs @ [tail_of l]) = tail_of l \<longleftrightarrow> vs = []"
  if "set vs \<subseteq> set xs" for vs
  using that represents_simps(7) [of h l xs] by (cases vs) auto

lemma cursor_step:
  assumes "represents h l (us @ v # vs)"
  shows "v \<noteq> tail_of l" "list_next h v = Some (hd (vs @ [tail_of l]))" "list_end l = Some (tail_of l)"
  using assms represents_simps [OF assms] list_next_represents [OF assms] by auto

lemma list_size_loop_represents:
  "represents h l (us @ vs) \<Longrightarrow> list_size_loop h l (hd (vs @ [tail_of l])) cnt = Some (cnt + length vs)"
proof (induction vs arbitrary: us cnt)
  case Nil
  then show ?case
    using represents_simps(1) [OF Nil] by (simp add: list_size_loop.simps)
next
  case (Cons v vs)
  have "list_size_loop h l (hd (vs @ [tail_of l])) (cnt + 1) = Some (cnt + 1 + length vs)"
    by (rule Cons.IH [of "us @ [v]"]) (use Cons.prems in simp)
  then show ?case
    using cursor_step [OF Cons.prems] by (simp add: list_size_loop.simps [of h l v])
qed

lemma list_size_represents: "represents h l xs \<Longrightarrow> list_size h l = Some (length xs)"
  using list_size_loop_represents [of h l "[]" xs 0]
  by (simp add: list_size_def list_begin_represents)

lemma insert_ordered_loop_represents:
  "represents h l (us @ vs) \<Longrightarrow>
     insert_ordered_loop lt h l e (hd (vs @ [tail_of l])) =
       Some (hd (dropWhile (\<lambda>y. \<not> lt e y) vs @ [tail_of l]))"
proof (induction vs arbitrary: us)
  case Nil
  then show ?case
    using represents_simps(1) [OF Nil] by (simp add: insert_ordered_loop.simps)
next
  case (Cons v vs)
  have "insert_ordered_loop lt h l e (hd (vs @ [tail_of l])) = Some (hd (dropWhile (\<lambda>y. \<not> lt e y) vs @ [tail_of l]))"
    by (rule Cons.IH [of "us @ [v]"]) (use Cons.prems in simp)
  then show ?case
    using cursor_step [OF Cons.prems] by (simp add: insert_ordered_loop.simps [of lt h l e v])
qed

text \<open>The abstract operation: insert before the first element that is greater.\<close>

definition insert_before_greater :: "('a \<Rightarrow> 'a \<Rightarrow> bool) \<Rightarrow> 'a \<Rightarrow> 'a list \<Rightarrow> 'a list" where
  "insert_before_greater lt e xs = takeWhile (\<lambda>y. \<not> lt e y) xs @ e # dropWhile (\<lambda>y. \<not> lt e y) xs"

lemma list_insert_ordered_represents:
  assumes "represents h l xs" "e \<noteq> NULL" "e \<notin> set xs \<union> {head_of l, tail_of l}"
  obtains h' where "list_insert_ordered lt h l e = Some h'" "represents h' l (insert_before_greater lt e xs)"
    "\<And>x. x \<notin> set (e # xs) \<union> {head_of l, tail_of l} \<Longrightarrow> h' x = h x"
proof -
  let ?P = "\<lambda>y. \<not> lt e y"
  have r: "represents h l (takeWhile ?P xs @ dropWhile ?P xs)" using assms(1) by simp
  obtain h' where h': "list_insert h (hd (dropWhile ?P xs @ [tail_of l])) e = Some h'"
    "represents h' l (takeWhile ?P xs @ e # dropWhile ?P xs)"
    "\<And>x. x \<notin> set (takeWhile ?P xs @ e # dropWhile ?P xs) \<union> {head_of l, tail_of l} \<Longrightarrow> h' x = h x"
    by (rule list_insert_represents [OF r assms(2)]) (use assms(3) in \<open>auto simp del: takeWhile_dropWhile_id simp: takeWhile_dropWhile_id\<close>)
  have "list_insert_ordered lt h l e = Some h'"
    using represents_simps(1) [OF assms(1)] insert_ordered_loop_represents [of h l "[]" xs lt e] assms(1,2) h'(1)
    by (simp add: list_insert_ordered_def list_begin_represents)
  moreover have "set (takeWhile ?P xs @ e # dropWhile ?P xs) = set (e # xs)"
    by (metis (no_types, lifting) Un_insert_right list.simps(15) set_append takeWhile_dropWhile_id)
  ultimately show thesis
    using that [of h'] h' unfolding insert_before_greater_def by metis
qed

section \<open>Maximum and minimum\<close>

definition first_max :: "('a \<Rightarrow> 'a \<Rightarrow> bool) \<Rightarrow> 'a \<Rightarrow> 'a list \<Rightarrow> 'a" where
  "first_max lt x xs = foldl (\<lambda>m e. if lt m e then e else m) x xs"

lemma max_loop_represents:
  "represents h l (us @ vs) \<Longrightarrow> max_loop lt h l m (hd (vs @ [tail_of l])) = Some (first_max lt m vs)"
proof (induction vs arbitrary: us m)
  case Nil
  then show ?case
    using represents_simps(1) [OF Nil] by (simp add: max_loop.simps first_max_def)
next
  case (Cons v vs)
  have "max_loop lt h l m' (hd (vs @ [tail_of l])) = Some (first_max lt m' vs)" for m'
    by (rule Cons.IH [of "us @ [v]"]) (use Cons.prems in simp)
  then show ?case
    using cursor_step [OF Cons.prems] by (simp add: max_loop.simps [of lt h l m v] first_max_def Let_def)
qed

lemma list_max_represents:
  "represents h l [] \<Longrightarrow> list_max lt h l = Some (tail_of l)"
  "represents h l (x # xs) \<Longrightarrow> list_max lt h l = Some (first_max lt x xs)"
proof -
  show "represents h l [] \<Longrightarrow> list_max lt h l = Some (tail_of l)"
    using represents_simps(1) [of h l "[]"] by (simp add: list_max_def list_begin_represents)
  assume r: "represents h l (x # xs)"
  then show "list_max lt h l = Some (first_max lt x xs)"
    using cursor_step [of h l "[]" x xs] max_loop_represents [of h l "[x]" xs lt x]
    by (simp add: list_max_def list_begin_represents)
qed

lemma min_loop_represents:
  "represents h l (us @ vs) \<Longrightarrow> min_loop lt h l m (hd (vs @ [tail_of l])) = Some (first_max (\<lambda>a b. lt b a) m vs)"
proof (induction vs arbitrary: us m)
  case Nil
  then show ?case
    using represents_simps(1) [OF Nil] by (simp add: min_loop.simps first_max_def)
next
  case (Cons v vs)
  have "min_loop lt h l m' (hd (vs @ [tail_of l])) = Some (first_max (\<lambda>a b. lt b a) m' vs)" for m'
    by (rule Cons.IH [of "us @ [v]"]) (use Cons.prems in simp)
  then show ?case
    using cursor_step [OF Cons.prems] by (simp add: min_loop.simps [of lt h l m v] first_max_def Let_def)
qed

lemma list_min_represents:
  "represents h l [] \<Longrightarrow> list_min lt h l = Some (tail_of l)"
  "represents h l (x # xs) \<Longrightarrow> list_min lt h l = Some (first_max (\<lambda>a b. lt b a) x xs)"
proof -
  show "represents h l [] \<Longrightarrow> list_min lt h l = Some (tail_of l)"
    using represents_simps(1) [of h l "[]"] by (simp add: list_min_def list_begin_represents)
  assume r: "represents h l (x # xs)"
  then show "list_min lt h l = Some (first_max (\<lambda>a b. lt b a) x xs)"
    using cursor_step [of h l "[]" x xs] min_loop_represents [of h l "[x]" xs lt x]
    by (simp add: list_min_def list_begin_represents)
qed

section \<open>Duplicate removal\<close>

text \<open>What remains and what is removed, from the current element \<open>x\<close> on.\<close>

fun uniq :: "('a \<Rightarrow> 'a \<Rightarrow> bool) \<Rightarrow> 'a \<Rightarrow> 'a list \<Rightarrow> 'a list \<times> 'a list" where
  "uniq lt x [] = ([x], [])"
| "uniq lt x (y # ys) =
     (if \<not> lt x y \<and> \<not> lt y x then (fst (uniq lt x ys), y # snd (uniq lt x ys))
      else (x # fst (uniq lt y ys), snd (uniq lt y ys)))"

definition footprint :: "addr \<Rightarrow> addr list \<Rightarrow> addr set" where
  "footprint l xs = insert (head_of l) (insert (tail_of l) (set xs))"

lemma unique_loop_represents:
  assumes "represents h l (us @ x # vs)"
    and "d \<noteq> NULL \<Longrightarrow> represents h d ds \<and> footprint l (us @ x # vs) \<inter> footprint d ds = {}"
  shows "\<exists>h'. unique_loop lt h l d x = Some h' \<and> represents h' l (us @ fst (uniq lt x vs)) \<and>
    (d \<noteq> NULL \<longrightarrow> represents h' d (ds @ snd (uniq lt x vs)))"
  using assms
proof (induction vs arbitrary: h us x ds)
  case Nil
  then show ?case
    using list_next_represents [OF Nil(1)] represents_simps(1) [OF Nil(1)] by (simp add: unique_loop.simps)
next
  case (Cons y vs)
  note r = Cons.prems(1)
  have nx: "list_next h x = Some y" "list_end l = Some (tail_of l)" "y \<noteq> tail_of l" "y \<noteq> NULL"
    using list_next_represents [OF r] represents_simps [OF r] by auto
  show ?case
  proof (cases "\<not> lt x y \<and> \<not> lt y x")
    case True
    obtain h1 where h1: "list_remove h y = Some (hd (vs @ [tail_of l]), h1)" "represents h1 l ((us @ [x]) @ vs)"
      "\<And>z. z \<notin> set ((us @ [x]) @ vs) \<union> {head_of l, tail_of l} \<Longrightarrow> h1 z = h z"
      by (rule list_remove_represents [of h l "us @ [x]" y vs]) (use r in auto)
    show ?thesis
    proof (cases "d = NULL")
      case True
      with Cons.IH [of h1 us x "[]"] h1 nx \<open>\<not> lt x y \<and> \<not> lt y x\<close> show ?thesis
        by (simp add: unique_loop.simps [of lt h l 0 x])
    next
      case False
      then have rd: "represents h d ds" and dj: "footprint l (us @ x # y # vs) \<inter> footprint d ds = {}"
        using Cons.prems(2) by auto
      have rd1: "represents h1 d ds"
        by (rule represents_frame [OF rd], rule h1(3)) (use dj in \<open>auto simp: footprint_def\<close>)
      obtain h2 where h2: "list_push_back h1 d y = Some h2" "represents h2 d (ds @ [y])"
        "\<And>z. z \<notin> set (y # ds) \<union> {head_of d, tail_of d} \<Longrightarrow> h2 z = h1 z"
        by (rule list_push_back_represents [OF rd1 nx(4)]) (use dj in \<open>auto simp: footprint_def\<close>)
      have "y \<notin> set (us @ x # vs) \<union> {head_of l, tail_of l}" using represents_simps [OF r] by auto
      then have "represents h2 l ((us @ [x]) @ vs)"
        by (intro represents_frame [OF h1(2)] h2(3)) (use dj in \<open>auto simp: footprint_def\<close>)
      then have r2: "represents h2 l (us @ x # vs)" by simp
      have "\<exists>h'. unique_loop lt h2 l d x = Some h' \<and> represents h' l (us @ fst (uniq lt x vs)) \<and>
        (d \<noteq> NULL \<longrightarrow> represents h' d ((ds @ [y]) @ snd (uniq lt x vs)))"
        by (rule Cons.IH [OF r2]) (use h2(2) dj represents_simps [OF r] in \<open>auto simp: footprint_def\<close>)
      with h1 h2 nx False \<open>\<not> lt x y \<and> \<not> lt y x\<close> show ?thesis
        by (auto simp: unique_loop.simps [of lt h l d x])
    qed
  next
    case False
    have "\<exists>h'. unique_loop lt h l d y = Some h' \<and> represents h' l ((us @ [x]) @ fst (uniq lt y vs)) \<and>
      (d \<noteq> NULL \<longrightarrow> represents h' d (ds @ snd (uniq lt y vs)))"
      by (rule Cons.IH) (use Cons.prems in auto)
    with nx False show ?thesis
      by (auto simp: unique_loop.simps [of lt h l d x])
  qed
qed

lemma list_unique_represents:
  assumes r: "represents h l (x # xs)"
    and d: "d \<noteq> NULL \<Longrightarrow> represents h d ds \<and> footprint l (x # xs) \<inter> footprint d ds = {}"
  shows "\<exists>h'. list_unique lt h l d = Some h' \<and> represents h' l (fst (uniq lt x xs)) \<and>
    (d \<noteq> NULL \<longrightarrow> represents h' d (ds @ snd (uniq lt x xs)))"
  using unique_loop_represents [of h l "[]" x xs d ds lt] assms represents_simps(1) [OF r]
  by (simp add: list_unique_def list_empty_represents list_begin_represents)

lemma mset_uniq: "mset (fst (uniq lt x xs)) + mset (snd (uniq lt x xs)) = add_mset x (mset xs)"
  by (induction lt x xs rule: uniq.induct) auto

section \<open>Reversal\<close>

text \<open>The heap in which the elements of \<open>S\<close> have their two links exchanged.\<close>

definition flip :: "heap \<Rightarrow> addr set \<Rightarrow> heap" where
  "flip h S = (\<lambda>x. if x \<in> S then \<lparr>prev_ptr = next_ptr (h x), next_ptr = prev_ptr (h x)\<rparr> else h x)"

lemma swap_links_flip: "e \<notin> S \<Longrightarrow> swap_links (flip h S) e = flip h (insert e S)"
  by (auto simp: swap_links_def flip_def fun_eq_iff)

lemma list_reverse_loop_represents:
  assumes "represents h l (us @ vs)"
  shows "list_reverse_loop (flip h (set us)) l (hd (vs @ [tail_of l])) = Some (flip h (set (us @ vs)))"
  using assms
proof (induction vs arbitrary: us)
  case Nil
  then show ?case
    using represents_simps(1) [OF Nil] by (simp add: list_reverse_loop.simps)
next
  case (Cons v vs)
  note r = represents_simps [OF Cons.prems]
  have "next_ptr (h v) = hd (vs @ [tail_of l])"
    using list_next_represents [OF Cons.prems] by (auto simp: list_next_def monad_simps)
  then have "prev_ptr (flip h (insert v (set us)) v) = hd (vs @ [tail_of l])" by (simp add: flip_def)
  moreover have "v \<notin> set us" "v \<noteq> tail_of l" "v \<noteq> NULL" using r by auto
  moreover have "list_reverse_loop (flip h (set (us @ [v]))) l (hd (vs @ [tail_of l])) = Some (flip h (set ((us @ [v]) @ vs)))"
    by (rule Cons.IH) (use Cons.prems in simp)
  ultimately show ?case
    using r(1) by (simp add: list_reverse_loop.simps [of "flip h (set us)" l v] swap_links_flip Let_def)
qed

lemma linked_flip_rev: "linked h xs \<Longrightarrow> set xs \<subseteq> S \<Longrightarrow> linked (flip h S) (rev xs)"
proof (induction xs)
  case (Cons x xs)
  show ?case
  proof (cases "xs = []")
    case False
    with Cons.prems have "linked h xs" "next_ptr (h x) = hd xs" "prev_ptr (h (hd xs)) = x" "hd xs \<in> S"
      by (auto simp: linked_Cons)
    with Cons False show ?thesis
      by (auto simp: linked_append last_rev flip_def)
  qed simp
qed simp

lemma list_reverse_represents:
  assumes r: "represents h l xs"
  shows "\<exists>h'. list_reverse h l = Some h' \<and> represents h' l (rev xs) \<and>
    (\<forall>y. y \<notin> footprint l xs \<longrightarrow> h' y = h y)"
proof (cases "xs = []")
  case True
  with r show ?thesis by (simp add: list_reverse_def list_empty_represents)
next
  case False
  note rs = represents_simps [OF r]
  let ?a = "last xs" and ?b = "hd xs" and ?H = "head_of l" and ?T = "tail_of l"
  let ?f = "flip h (set xs)"
  have mem: "?a \<in> set xs" "?b \<in> set xs" using False by auto
  have nn: "?a \<noteq> NULL" "?b \<noteq> NULL" "?a \<noteq> ?H" "?a \<noteq> ?T" "?b \<noteq> ?H" "?b \<noteq> ?T" using mem rs by metis+
  have c: "wf_chain h ([?H] @ xs @ [?T])" using r by (simp add: represents_def)
  then have lk: "linked h xs" "prev_ptr (h ?b) = ?H" "next_ptr (h ?a) = ?T" "prev_ptr (h ?H) = NULL" "next_ptr (h ?T) = NULL"
    "next_ptr (h ?H) = ?b" "prev_ptr (h ?T) = ?a"
    using False by (auto simp: wf_chain_def linked_append linked_Cons)
  define h' where "h' = set_next (set_prev (set_prev (set_next ?f ?H ?a) ?T ?b) ?a ?H) ?b ?T"
  have ff: "next_ptr (?f ?H) = ?b" "prev_ptr (?f ?T) = ?a" "prev_ptr (?f ?a) = ?T" "next_ptr (?f ?b) = ?H"
    "prev_ptr (?f ?H) = NULL" "next_ptr (?f ?T) = NULL"
    using lk mem rs by (auto simp: flip_def)
  have 1: "list_reverse h l = Some h'"
    using list_reverse_loop_represents [of h l "[]" xs] r False nn ff
    by (simp add: list_reverse_def list_empty_represents list_begin_represents Let_def heap_simps flip_def [of h "{}"] h'_def)
  have "linked h' (rev xs)"
    using linked_flip_rev [OF lk(1) subset_refl] distinct_ends [of "rev xs"] rs(4,6,7) False
    by (simp add: h'_def heap_simps hd_rev last_rev)
  moreover have "next_ptr (h' ?H) = ?a" "prev_ptr (h' ?a) = ?H" "next_ptr (h' ?b) = ?T" "prev_ptr (h' ?T) = ?b"
    "prev_ptr (h' ?H) = NULL" "next_ptr (h' ?T) = NULL"
    using nn nn [symmetric] ff by (auto simp: h'_def heap_simps)
  ultimately have 2: "represents h' l (rev xs)"
    using c False by (auto simp: represents_def wf_chain_def linked_append linked_Cons hd_rev last_rev)
  have 3: "h' y = h y" if "y \<notin> footprint l xs" for y
    using that mem by (auto simp: h'_def footprint_def flip_def heap_simps set_next_def set_prev_def)
  from 1 2 3 show ?thesis by auto
qed

section \<open>Strict weak orders\<close>

text \<open>What \<^verbatim>\<open>list_less_func\<close> has to satisfy for the ordered operations to make sense.\<close>

locale weak_order =
  fixes lt :: "'a \<Rightarrow> 'a \<Rightarrow> bool"
  assumes asym: "lt x y \<Longrightarrow> \<not> lt y x"
    and neg_trans: "\<not> lt x y \<Longrightarrow> \<not> lt y z \<Longrightarrow> \<not> lt x z"
begin

abbreviation leq :: "'a \<Rightarrow> 'a \<Rightarrow> bool" where
  "leq x y \<equiv> \<not> lt y x"

lemma leq_refl: "leq x x"
  using asym by blast

lemma leq_total: "leq x y \<or> leq y x"
  using asym by blast

lemma leq_trans: "leq x y \<Longrightarrow> leq y z \<Longrightarrow> leq x z"
  using neg_trans by blast

lemma insert_before_greater_sorted:
  assumes "sorted_wrt leq xs"
  shows "sorted_wrt leq (insert_before_greater lt e xs)"
  using assms
proof (induction xs)
  case (Cons x xs)
  show ?case
  proof (cases "lt e x")
    case True
    with Cons.prems have "\<forall>y \<in> set (x # xs). leq e y" using asym neg_trans by (metis list.set_intros(1) set_ConsD sorted_wrt.simps(2))
    with Cons.prems True show ?thesis by (simp add: insert_before_greater_def)
  next
    case False
    have "set (insert_before_greater lt e xs) = insert e (set xs)"
      by (metis insert_before_greater_def Un_insert_right list.simps(15) set_append takeWhile_dropWhile_id)
    with Cons False show ?thesis by (auto simp: insert_before_greater_def)
  qed
qed (simp add: insert_before_greater_def)

lemma first_max_is_max: "y \<in> set (x # xs) \<Longrightarrow> leq y (first_max lt x xs)"
proof (induction xs arbitrary: x y)
  case Nil
  then show ?case using leq_refl by (simp add: first_max_def)
next
  case (Cons z zs)
  let ?m = "if lt x z then z else x"
  have IH: "w \<in> set (?m # zs) \<Longrightarrow> leq w (first_max lt ?m zs)" for w by (rule Cons.IH)
  have "leq x ?m" and "leq z ?m" using asym leq_refl by auto
  moreover have m: "leq ?m (first_max lt ?m zs)" by (rule IH) simp
  ultimately have "leq x (first_max lt ?m zs)" and "leq z (first_max lt ?m zs)"
    using leq_trans [OF _ m] by blast+
  moreover have "first_max lt x (z # zs) = first_max lt ?m zs" by (simp add: first_max_def)
  ultimately show ?case using IH [of y] Cons.prems by auto
qed

end

end
