(* ===== verification/Kernel_List_Sort.thy ===== *)
theory Kernel_List_Sort
  imports Kernel_List_Ordered
begin

text \<open>
  \<^verbatim>\<open>list_sort()\<close> of \<^verbatim>\<open>lib/kernel/list.c\<close>: the in-place natural merge sort, with its helpers
  \<^verbatim>\<open>is_sorted\<close>, \<^verbatim>\<open>find_end_of_run\<close> and \<^verbatim>\<open>inplace_merge\<close>, on the heap.

  The functions are first shown to refine list-level counterparts (\<open>ascending\<close>, \<open>run\<close>,
  \<open>merge_runs\<close>, \<open>merge_pass\<close>); the sorting theorem then says that the C loop terminates without
  a failed assertion and leaves a sorted, stable permutation of the list.
\<close>

section \<open>Operations\<close>

partial_function (option) is_sorted_loop :: "(addr \<Rightarrow> addr \<Rightarrow> bool) \<Rightarrow> heap \<Rightarrow> addr \<Rightarrow> addr \<Rightarrow> bool option" where
  "is_sorted_loop lt h a b = do {
     a \<leftarrow> list_next h a;
     if a \<noteq> b then do {
       p \<leftarrow> list_prev h a;
       if lt a p then Some False else is_sorted_loop lt h a b
     } else Some True
   }"

definition is_sorted :: "(addr \<Rightarrow> addr \<Rightarrow> bool) \<Rightarrow> heap \<Rightarrow> addr \<Rightarrow> addr \<Rightarrow> bool option" where
  "is_sorted lt h a b = (if a \<noteq> b then is_sorted_loop lt h a b else Some True)"

partial_function (option) end_of_run_loop :: "(addr \<Rightarrow> addr \<Rightarrow> bool) \<Rightarrow> heap \<Rightarrow> addr \<Rightarrow> addr \<Rightarrow> addr option" where
  "end_of_run_loop lt h a b = do {
     a \<leftarrow> list_next h a;
     if a \<noteq> b then do {
       p \<leftarrow> list_prev h a;
       if \<not> lt a p then end_of_run_loop lt h a b else Some a
     } else Some a
   }"

definition find_end_of_run :: "(addr \<Rightarrow> addr \<Rightarrow> bool) \<Rightarrow> heap \<Rightarrow> addr \<Rightarrow> addr \<Rightarrow> addr option" where
  "find_end_of_run lt h a b = do {
     ASSERT (a \<noteq> NULL);
     ASSERT (b \<noteq> NULL);
     ASSERT (a \<noteq> b);
     end_of_run_loop lt h a b
   }"

partial_function (option) merge_loop :: "(addr \<Rightarrow> addr \<Rightarrow> bool) \<Rightarrow> heap \<Rightarrow> addr \<Rightarrow> addr \<Rightarrow> addr \<Rightarrow> heap option" where
  "merge_loop lt h a0 a1b0 b1 =
     (if a0 \<noteq> a1b0 \<and> a1b0 \<noteq> b1 then
        if \<not> lt a1b0 a0 then do {
          a0 \<leftarrow> list_next h a0;
          merge_loop lt h a0 a1b0 b1
        } else do {
          a1b0 \<leftarrow> list_next h a1b0;
          p \<leftarrow> list_prev h a1b0;
          h \<leftarrow> list_splice h a0 p a1b0;
          merge_loop lt h a0 a1b0 b1
        }
      else Some h)"

definition inplace_merge :: "(addr \<Rightarrow> addr \<Rightarrow> bool) \<Rightarrow> heap \<Rightarrow> addr \<Rightarrow> addr \<Rightarrow> addr \<Rightarrow> heap option" where
  "inplace_merge lt h a0 a1b0 b1 = do {
     ASSERT (a0 \<noteq> NULL);
     ASSERT (a1b0 \<noteq> NULL);
     ASSERT (b1 \<noteq> NULL);
     s \<leftarrow> is_sorted lt h a0 a1b0;
     ASSERT s;
     s \<leftarrow> is_sorted lt h a1b0 b1;
     ASSERT s;
     merge_loop lt h a0 a1b0 b1
   }"

text \<open>One pass of the outer \<^verbatim>\<open>do\<close> loop; the result carries \<^verbatim>\<open>output_run_cnt\<close>.\<close>

partial_function (option) sort_pass_loop :: "(addr \<Rightarrow> addr \<Rightarrow> bool) \<Rightarrow> heap \<Rightarrow> addr \<Rightarrow> addr \<Rightarrow> nat \<Rightarrow> (heap \<times> nat) option" where
  "sort_pass_loop lt h l a0 output_run_cnt = do {
     en \<leftarrow> list_end l;
     if a0 \<noteq> en then do {
       let output_run_cnt = output_run_cnt + 1;
       a1b0 \<leftarrow> find_end_of_run lt h a0 en;
       if a1b0 = en then Some (h, output_run_cnt)
       else do {
         b1 \<leftarrow> find_end_of_run lt h a1b0 en;
         h \<leftarrow> inplace_merge lt h a0 a1b0 b1;
         sort_pass_loop lt h l b1 output_run_cnt
       }
     } else Some (h, output_run_cnt)
   }"

partial_function (option) sort_loop :: "(addr \<Rightarrow> addr \<Rightarrow> bool) \<Rightarrow> heap \<Rightarrow> addr \<Rightarrow> heap option" where
  "sort_loop lt h l = do {
     a0 \<leftarrow> list_begin h l;
     (h, output_run_cnt) \<leftarrow> sort_pass_loop lt h l a0 0;
     if output_run_cnt > 1 then sort_loop lt h l else Some h
   }"

definition list_sort :: "(addr \<Rightarrow> addr \<Rightarrow> bool) \<Rightarrow> heap \<Rightarrow> addr \<Rightarrow> heap option" where
  "list_sort lt h l = do {
     ASSERT (l \<noteq> NULL);
     h \<leftarrow> sort_loop lt h l;
     b \<leftarrow> list_begin h l;
     e \<leftarrow> list_end l;
     s \<leftarrow> is_sorted lt h b e;
     ASSERT s;
     Some h
   }"

section \<open>The algorithm on lists\<close>

fun ascending :: "('a \<Rightarrow> 'a \<Rightarrow> bool) \<Rightarrow> 'a list \<Rightarrow> bool" where
  "ascending lt (x # y # zs) \<longleftrightarrow> \<not> lt y x \<and> ascending lt (y # zs)"
| "ascending lt _ \<longleftrightarrow> True"

text \<open>The first run and the rest.\<close>

fun run :: "('a \<Rightarrow> 'a \<Rightarrow> bool) \<Rightarrow> 'a list \<Rightarrow> 'a list \<times> 'a list" where
  "run lt (x # y # zs) = (if lt y x then ([x], y # zs) else (x # fst (run lt (y # zs)), snd (run lt (y # zs))))"
| "run lt xs = (xs, [])"

fun merge_runs :: "('a \<Rightarrow> 'a \<Rightarrow> bool) \<Rightarrow> 'a list \<Rightarrow> 'a list \<Rightarrow> 'a list" where
  "merge_runs lt (a # as) (b # bs) =
     (if \<not> lt b a then a # merge_runs lt as (b # bs) else b # merge_runs lt (a # as) bs)"
| "merge_runs lt [] bs = bs"
| "merge_runs lt as [] = as"

lemma run_append: "fst (run lt xs) @ snd (run lt xs) = xs"
  by (induction lt xs rule: run.induct) auto

lemma run_ascending: "ascending lt (fst (run lt xs))"
proof (induction lt xs rule: run.induct)
  case (1 lt x y zs)
  then show ?case by (cases zs) auto
qed auto

lemma run_Nil_iff [simp]: "fst (run lt xs) = [] \<longleftrightarrow> xs = []"
  by (induction lt xs rule: run.induct) auto

lemma run_subset: "set (snd (run lt xs)) \<subseteq> set xs"
  by (induction lt xs rule: run.induct) auto

lemma run_length: "xs \<noteq> [] \<Longrightarrow> length (snd (run lt xs)) < length xs"
  by (induction lt xs rule: run.induct) auto

lemma run_length_le: "length (snd (run lt xs)) \<le> length xs"
  by (cases "xs = []") (use run_length [of xs lt] in auto)

function merge_pass :: "('a \<Rightarrow> 'a \<Rightarrow> bool) \<Rightarrow> 'a list \<Rightarrow> 'a list list" where
  "merge_pass lt xs =
     (if xs = [] then []
      else if snd (run lt xs) = [] then [xs]
      else merge_runs lt (fst (run lt xs)) (fst (run lt (snd (run lt xs)))) #
           merge_pass lt (snd (run lt (snd (run lt xs)))))"
  by pat_completeness auto
termination
  by (relation "measure (length \<circ> snd)")
     (auto intro: le_less_trans [OF run_length_le run_length])

declare merge_pass.simps [simp del]

text \<open>The number of places where the list goes down.\<close>

fun descents :: "('a \<Rightarrow> 'a \<Rightarrow> bool) \<Rightarrow> 'a list \<Rightarrow> nat" where
  "descents lt (x # y # zs) = (if lt y x then 1 else 0) + descents lt (y # zs)"
| "descents lt _ = 0"

lemma descents_ascending: "descents lt xs = 0 \<longleftrightarrow> ascending lt xs"
  by (induction lt xs rule: descents.induct) auto

lemma descents_append: "descents lt (xs @ ys) \<le> descents lt xs + 1 + descents lt ys"
  by (induction lt xs rule: descents.induct; cases ys; auto)

lemma descents_run: "snd (run lt xs) \<noteq> [] \<Longrightarrow> descents lt xs = Suc (descents lt (snd (run lt xs)))"
  by (induction lt xs rule: run.induct) (auto split: if_splits)

lemma mset_merge_runs: "mset (merge_runs lt xs ys) = mset xs + mset ys"
  by (induction lt xs ys rule: merge_runs.induct) auto

lemma set_merge_runs: "set (merge_runs lt xs ys) = set xs \<union> set ys"
  by (induction lt xs ys rule: merge_runs.induct) auto

lemma mset_merge_pass: "mset (concat (merge_pass lt xs)) = mset xs"
proof (induction lt xs rule: merge_pass.induct)
  case (1 lt xs)
  let ?r1 = "fst (run lt xs)" and ?t1 = "snd (run lt xs)"
  let ?r2 = "fst (run lt ?t1)" and ?t2 = "snd (run lt ?t1)"
  have "mset ?r1 + mset ?t1 = mset xs" "mset ?r2 + mset ?t2 = mset ?t1"
    using run_append [of lt xs] run_append [of lt ?t1] mset_append by metis+
  with 1 show ?case
    by (auto simp: merge_pass.simps [of lt xs] mset_merge_runs add.assoc)
qed

text \<open>A pass at least halves the number of runs.\<close>

lemma merge_pass_halves: "2 * length (merge_pass lt xs) \<le> descents lt xs + 2"
proof (induction lt xs rule: merge_pass.induct)
  case (1 lt xs)
  let ?t1 = "snd (run lt xs)"
  let ?t2 = "snd (run lt ?t1)"
  show ?case
  proof (cases "xs = [] \<or> ?t1 = []")
    case True
    then show ?thesis by (auto simp: merge_pass.simps [of lt xs])
  next
    case False
    have d1: "descents lt xs = Suc (descents lt ?t1)" using False descents_run by blast
    have "2 * length (merge_pass lt ?t2) \<le> (if ?t2 = [] then 0 else Suc (descents lt ?t2) + 1)"
      using 1 False by (auto simp: merge_pass.simps [of lt "[]"])
    moreover have "?t2 \<noteq> [] \<Longrightarrow> descents lt ?t1 = Suc (descents lt ?t2)" using descents_run by blast
    ultimately show ?thesis
      using False d1 by (auto simp: merge_pass.simps [of lt xs] split: if_splits)
  qed
qed

lemma descents_concat:
  "(\<And>r. r \<in> set rs \<Longrightarrow> ascending lt r) \<Longrightarrow> rs \<noteq> [] \<Longrightarrow> descents lt (concat rs) < length rs"
proof (induction rs)
  case (Cons r rs)
  show ?case
  proof (cases "rs = []")
    case True
    with Cons.prems show ?thesis by (simp add: descents_ascending)
  next
    case False
    have "descents lt r = 0" using Cons.prems by (simp add: descents_ascending)
    with Cons False show ?thesis using descents_append [of lt r "concat rs"] by fastforce
  qed
qed simp

context weak_order
begin

lemma ascending_sorted: "ascending lt xs \<longleftrightarrow> sorted_wrt leq xs"
  by (induction xs rule: induct_list012) (auto dest: leq_trans)

lemma merge_runs_sorted:
  "sorted_wrt leq xs \<Longrightarrow> sorted_wrt leq ys \<Longrightarrow> sorted_wrt leq (merge_runs lt xs ys)"
proof (induction xs arbitrary: ys)
  case (Cons a as)
  note outer = Cons
  from outer(3) show ?case
  proof (induction ys)
    case Nil
    with outer show ?case by simp
  next
    case (Cons b bs)
    have "sorted_wrt leq (merge_runs lt as (b # bs))" using outer(1,2) Cons.prems by simp
    moreover have "sorted_wrt leq (merge_runs lt (a # as) bs)" using Cons by simp
    moreover have "lt b a \<Longrightarrow> y \<in> set (a # as) \<Longrightarrow> leq b y" for y
      using outer(2) asym neg_trans by (metis set_ConsD sorted_wrt.simps(2))
    moreover have "leq a b \<Longrightarrow> y \<in> set (b # bs) \<Longrightarrow> leq a y" for y
      using Cons.prems neg_trans by (metis set_ConsD sorted_wrt.simps(2))
    ultimately show ?case using outer(2) Cons.prems by (auto simp: set_merge_runs)
  qed
qed simp

text \<open>Equivalent elements keep their order.\<close>

abbreviation equiv :: "'a \<Rightarrow> 'a \<Rightarrow> bool" where
  "equiv x y \<equiv> leq x y \<and> leq y x"

lemma merge_runs_stable:
  "sorted_wrt leq xs \<Longrightarrow> filter (equiv x) (merge_runs lt xs ys) = filter (equiv x) xs @ filter (equiv x) ys"
proof (induction xs arbitrary: ys)
  case (Cons a as)
  note outer = Cons
  show ?case
  proof (induction ys)
    case (Cons b bs)
    have "\<not> equiv x z" if "lt b a" "equiv x b" "z \<in> set (a # as)" for z
    proof -
      have "leq a z" using that(3) outer(2) leq_refl by auto
      with that(1,2) show ?thesis using neg_trans by blast
    qed
    then have "lt b a \<Longrightarrow> equiv x b \<Longrightarrow> filter (equiv x) (a # as) = []"
      by (auto simp: filter_empty_conv)
    with outer Cons show ?case by auto
  qed simp
qed simp

lemma merge_pass_step:
  assumes "xs \<noteq> []" "snd (run lt xs) \<noteq> []"
  shows "length (snd (run lt (snd (run lt xs)))) < length xs"
  using le_less_trans [OF run_length_le run_length] assms by blast

lemma merge_pass_sorted: "r \<in> set (merge_pass lt xs) \<Longrightarrow> ascending lt r"
proof (induction xs rule: length_induct)
  case (1 xs)
  let ?t1 = "snd (run lt xs)"
  show ?case
  proof (cases "xs = [] \<or> ?t1 = []")
    case True
    with 1 run_append [of lt xs] run_ascending [of lt xs] show ?thesis
      by (auto simp: merge_pass.simps [of lt xs] split: if_splits)
  next
    case False
    then have "r = merge_runs lt (fst (run lt xs)) (fst (run lt ?t1)) \<or> r \<in> set (merge_pass lt (snd (run lt ?t1)))"
      using 1 by (auto simp: merge_pass.simps [of lt xs])
    then show ?thesis
      using 1 False merge_pass_step [of xs] merge_runs_sorted run_ascending [of lt xs] run_ascending [of lt ?t1]
      by (auto simp: ascending_sorted)
  qed
qed

lemma merge_pass_stable: "filter (equiv x) (concat (merge_pass lt xs)) = filter (equiv x) xs"
proof (induction xs rule: length_induct)
  case (1 xs)
  let ?r1 = "fst (run lt xs)" and ?t1 = "snd (run lt xs)"
  let ?r2 = "fst (run lt ?t1)" and ?t2 = "snd (run lt ?t1)"
  show ?case
  proof (cases "xs = [] \<or> ?t1 = []")
    case True
    then show ?thesis by (auto simp: merge_pass.simps [of lt xs])
  next
    case False
    have IH: "filter (equiv x) (concat (merge_pass lt ?t2)) = filter (equiv x) ?t2"
      using 1 merge_pass_step [of xs] False by blast
    have xs: "filter (equiv x) xs = filter (equiv x) (?r1 @ ?r2 @ ?t2)"
      using run_append [of lt xs] run_append [of lt ?t1] by metis
    have "sorted_wrt leq ?r1" using run_ascending ascending_sorted by blast
    then show ?thesis
      unfolding xs using False IH by (simp add: merge_pass.simps [of lt xs] merge_runs_stable)
  qed
qed

end

section \<open>Refinement\<close>

lemma is_sorted_loop_represents:
  "represents h l (us @ x # vs @ ws) \<Longrightarrow>
     is_sorted_loop lt h x (hd (ws @ [tail_of l])) = Some (ascending lt (x # vs))"
proof (induction vs arbitrary: us x)
  case Nil
  then show ?case
    using list_next_represents [of h l us x ws] by (simp add: is_sorted_loop.simps)
next
  case (Cons y vs)
  have nx: "list_next h x = Some y" using list_next_represents [OF Cons.prems] by simp
  have pv: "list_prev h y = Some x" using list_prev_represents [of h l "us @ [x]" "y # vs @ ws"] Cons.prems by simp
  have ne: "y \<noteq> hd (ws @ [tail_of l])"
    using represents_simps [OF Cons.prems] by (cases ws) auto
  have "is_sorted_loop lt h y (hd (ws @ [tail_of l])) = Some (ascending lt (y # vs))"
    by (rule Cons.IH [of "us @ [x]"]) (use Cons.prems in simp)
  with nx pv ne show ?case by (simp add: is_sorted_loop.simps [of lt h x])
qed

lemma is_sorted_represents:
  assumes "represents h l (us @ vs @ ws)"
  shows "is_sorted lt h (hd (vs @ ws @ [tail_of l])) (hd (ws @ [tail_of l])) = Some (ascending lt vs)"
proof (cases vs)
  case (Cons x xs)
  with assms represents_simps [OF assms] have "x \<noteq> hd (ws @ [tail_of l])" by (cases ws) auto
  with Cons assms is_sorted_loop_represents [of h l us x xs ws lt] show ?thesis by (simp add: is_sorted_def)
qed (simp add: is_sorted_def)

lemma end_of_run_loop_represents:
  "represents h l (us @ x # vs) \<Longrightarrow>
     end_of_run_loop lt h x (tail_of l) = Some (hd (snd (run lt (x # vs)) @ [tail_of l]))"
proof (induction vs arbitrary: us x)
  case Nil
  then show ?case
    using list_next_represents [of h l us x "[]"] by (simp add: end_of_run_loop.simps)
next
  case (Cons y vs)
  have nx: "list_next h x = Some y" using list_next_represents [OF Cons.prems] by simp
  have pv: "list_prev h y = Some x" using list_prev_represents [of h l "us @ [x]" "y # vs"] Cons.prems by simp
  have ne: "y \<noteq> tail_of l" using represents_simps [OF Cons.prems] by auto
  have "end_of_run_loop lt h y (tail_of l) = Some (hd (snd (run lt (y # vs)) @ [tail_of l]))"
    by (rule Cons.IH [of "us @ [x]"]) (use Cons.prems in simp)
  with nx pv ne show ?case by (simp add: end_of_run_loop.simps [of lt h x])
qed

lemma tail_of_neq_NULL [simp]: "tail_of l \<noteq> NULL"
  by (simp add: tail_of_def)

lemma find_end_of_run_represents:
  "represents h l (us @ xs) \<Longrightarrow> xs \<noteq> [] \<Longrightarrow>
     find_end_of_run lt h (hd (xs @ [tail_of l])) (tail_of l) = Some (hd (snd (run lt xs) @ [tail_of l]))"
  using end_of_run_loop_represents [of h l us "hd xs" "tl xs" lt] represents_simps [of h l "us @ xs"]
  by (cases xs) (auto simp: find_end_of_run_def)

lemma merge_loop_represents:
  assumes "represents h l (us @ as @ bs @ ws)"
  shows "\<exists>h'. merge_loop lt h (hd (as @ bs @ ws @ [tail_of l])) (hd (bs @ ws @ [tail_of l])) (hd (ws @ [tail_of l])) = Some h' \<and>
    represents h' l (us @ merge_runs lt as bs @ ws) \<and> (\<forall>x. x \<notin> footprint l (us @ as @ bs @ ws) \<longrightarrow> h' x = h x)"
  using assms
proof (induction lt as bs arbitrary: h us rule: merge_runs.induct)
  case (1 lt a as b bs)
  note r = 1(3)
  have ne: "a \<noteq> b" "b \<noteq> hd (ws @ [tail_of l])" using represents_simps [OF r] by (auto, cases ws) auto
  show ?case
  proof (cases "lt b a")
    case False
    have nx: "list_next h a = Some (hd (as @ b # bs @ ws @ [tail_of l]))"
      using list_next_represents [of h l us a "as @ b # bs @ ws"] r by simp
    have fp: "footprint l ((us @ [a]) @ as @ (b # bs) @ ws) = footprint l (us @ (a # as) @ (b # bs) @ ws)" by simp
    have "\<exists>h'. merge_loop lt h (hd (as @ (b # bs) @ ws @ [tail_of l])) (hd ((b # bs) @ ws @ [tail_of l])) (hd (ws @ [tail_of l])) = Some h' \<and>
      represents h' l ((us @ [a]) @ merge_runs lt as (b # bs) @ ws) \<and>
      (\<forall>x. x \<notin> footprint l ((us @ [a]) @ as @ (b # bs) @ ws) \<longrightarrow> h' x = h x)"
      by (rule 1(1)) (use False r in auto)
    with False ne nx fp show ?thesis
      by (simp add: merge_loop.simps [of lt h a])
  next
    case True
    have nx: "list_next h b = Some (hd (bs @ ws @ [tail_of l]))"
      using list_next_represents [of h l "us @ a # as" b "bs @ ws"] r by simp
    have pv: "list_prev h (hd (bs @ ws @ [tail_of l])) = Some b"
      using list_prev_represents [of h l "us @ a # as @ [b]" "bs @ ws"] r by simp
    have c: "wf_chain h ((head_of l # us) @ (a # as) @ [b] @ (bs @ ws @ [tail_of l]))"
      using r by (simp add: represents_def)
    obtain h1 where h1: "list_splice h a b (hd (bs @ ws @ [tail_of l])) = Some h1"
      "wf_chain h1 ((head_of l # us) @ [b] @ (a # as) @ (bs @ ws @ [tail_of l]))"
      "\<And>x. x \<notin> set ((head_of l # us) @ (a # as) @ [b] @ (bs @ ws @ [tail_of l])) \<Longrightarrow> h1 x = h x"
      by (rule list_splice_chain [OF c]) auto
    have r1: "represents h1 l ((us @ [b]) @ (a # as) @ bs @ ws)" using h1(2) by (simp add: represents_def)
    obtain h2 where h2: "merge_loop lt h1 (hd ((a # as) @ bs @ ws @ [tail_of l])) (hd (bs @ ws @ [tail_of l])) (hd (ws @ [tail_of l])) = Some h2"
      "represents h2 l ((us @ [b]) @ merge_runs lt (a # as) bs @ ws)"
      "\<forall>x. x \<notin> footprint l ((us @ [b]) @ (a # as) @ bs @ ws) \<longrightarrow> h2 x = h1 x"
      using 1(2) [OF _ r1] True by blast
    have "\<forall>x. x \<notin> footprint l (us @ (a # as) @ (b # bs) @ ws) \<longrightarrow> h2 x = h x"
      using h1(3) h2(3) by (auto simp: footprint_def)
    with True ne nx pv h1(1) h2 show ?thesis
      by (simp add: merge_loop.simps [of lt h a])
  qed
qed (auto simp: merge_loop.simps)

lemma inplace_merge_represents:
  assumes r: "represents h l (us @ as @ bs @ ws)" and ne: "as \<noteq> []" "bs \<noteq> []"
    and asc: "ascending lt as" "ascending lt bs"
  shows "\<exists>h'. inplace_merge lt h (hd as) (hd bs) (hd (ws @ [tail_of l])) = Some h' \<and>
    represents h' l (us @ merge_runs lt as bs @ ws) \<and> (\<forall>x. x \<notin> footprint l (us @ as @ bs @ ws) \<longrightarrow> h' x = h x)"
proof -
  have nz: "hd as \<noteq> NULL" "hd bs \<noteq> NULL" "hd (ws @ [tail_of l]) \<noteq> NULL"
    using represents_simps(5) [OF r] ne tail_of_neq_NULL [of l] by (cases as; cases bs; cases ws; auto)+
  have "is_sorted lt h (hd as) (hd bs) = Some True"
    using is_sorted_represents [of h l us as "bs @ ws" lt] r asc ne by simp
  moreover have "is_sorted lt h (hd bs) (hd (ws @ [tail_of l])) = Some True"
    using is_sorted_represents [of h l "us @ as" bs ws lt] r asc ne by simp
  ultimately show ?thesis
    using merge_loop_represents [OF r, of lt] nz ne by (simp add: inplace_merge_def)
qed

lemma footprint_cong: "set xs = set ys \<Longrightarrow> footprint l xs = footprint l ys"
  by (simp add: footprint_def)

lemma sort_pass_loop_represents:
  "represents h l (us @ xs) \<Longrightarrow>
     \<exists>h'. sort_pass_loop lt h l (hd (xs @ [tail_of l])) cnt = Some (h', cnt + length (merge_pass lt xs)) \<and>
       represents h' l (us @ concat (merge_pass lt xs)) \<and> (\<forall>x. x \<notin> footprint l (us @ xs) \<longrightarrow> h' x = h x)"
proof (induction lt xs arbitrary: h us cnt rule: merge_pass.induct)
  case (1 lt xs)
  note r = 1(2)
  note rs = represents_simps [OF r]
  let ?r1 = "fst (run lt xs)" and ?t1 = "snd (run lt xs)"
  let ?r2 = "fst (run lt ?t1)" and ?t2 = "snd (run lt ?t1)"
  consider (empty) "xs = []" | (one) "xs \<noteq> []" "?t1 = []" | (two) "xs \<noteq> []" "?t1 \<noteq> []" by blast
  then show ?case
  proof cases
    case empty
    with r rs(1) show ?thesis by (simp add: merge_pass.simps [of lt] sort_pass_loop.simps)
  next
    case one
    have "hd (xs @ [tail_of l]) \<noteq> tail_of l" using rs one by (cases xs) auto
    with one r rs(1) find_end_of_run_represents [OF r one(1), of lt] show ?thesis
      by (simp add: merge_pass.simps [of lt] sort_pass_loop.simps Let_def)
  next
    case two
    have xs: "xs = ?r1 @ ?r2 @ ?t2" using run_append [of lt xs] run_append [of lt ?t1] by simp
    have r': "represents h l (us @ ?r1 @ ?r2 @ ?t2)" using r xs by simp
    have ne: "hd (xs @ [tail_of l]) \<noteq> tail_of l" "hd (?t1 @ [tail_of l]) \<noteq> tail_of l"
      using cursor_at_end [of xs "us @ xs" h l] cursor_at_end [of ?t1 "us @ xs" h l] r two run_subset [of lt xs] by auto
    have hds: "hd (xs @ [tail_of l]) = hd ?r1" "hd (?t1 @ [tail_of l]) = hd ?r2"
      using two run_append [of lt xs] run_append [of lt ?t1] run_Nil_iff [of lt xs] run_Nil_iff [of lt ?t1]
      by (metis hd_append2 append_is_Nil_conv)+
    have e1: "find_end_of_run lt h (hd ?r1) (tail_of l) = Some (hd ?r2)"
      using find_end_of_run_represents [OF r two(1), of lt] hds by simp
    have "represents h l ((us @ ?r1) @ ?t1)" using r run_append [of lt xs] by simp
    from find_end_of_run_represents [OF this two(2), of lt]
    have e2: "find_end_of_run lt h (hd ?r2) (tail_of l) = Some (hd (?t2 @ [tail_of l]))" using hds by simp
    obtain h1 where h1: "inplace_merge lt h (hd ?r1) (hd ?r2) (hd (?t2 @ [tail_of l])) = Some h1"
      "represents h1 l (us @ merge_runs lt ?r1 ?r2 @ ?t2)"
      "\<forall>x. x \<notin> footprint l (us @ ?r1 @ ?r2 @ ?t2) \<longrightarrow> h1 x = h x"
      using inplace_merge_represents [OF r' _ _ run_ascending run_ascending] two by auto
    have r1: "represents h1 l ((us @ merge_runs lt ?r1 ?r2) @ ?t2)" using h1(2) by simp
    obtain h2 where h2: "sort_pass_loop lt h1 l (hd (?t2 @ [tail_of l])) (cnt + 1) = Some (h2, cnt + 1 + length (merge_pass lt ?t2))"
      "represents h2 l ((us @ merge_runs lt ?r1 ?r2) @ concat (merge_pass lt ?t2))"
      "\<forall>x. x \<notin> footprint l ((us @ merge_runs lt ?r1 ?r2) @ ?t2) \<longrightarrow> h2 x = h1 x"
      using 1(1) [OF two r1] by blast
    have fp: "footprint l ((us @ merge_runs lt ?r1 ?r2) @ ?t2) = footprint l (us @ ?r1 @ ?r2 @ ?t2)"
      by (rule footprint_cong) (auto simp: set_merge_runs)
    have "sort_pass_loop lt h l (hd (xs @ [tail_of l])) cnt = Some (h2, cnt + length (merge_pass lt xs))"
      using two ne hds e1 e2 h1(1) h2(1) rs(1)
      by (simp add: merge_pass.simps [of lt xs] sort_pass_loop.simps [of lt h l] Let_def)
    moreover have "represents h2 l (us @ concat (merge_pass lt xs))"
      using h2(2) two by (simp add: merge_pass.simps [of lt xs])
    moreover have "\<forall>x. x \<notin> footprint l (us @ xs) \<longrightarrow> h2 x = h x"
      using h1(3) h2(3) fp xs by metis
    ultimately show ?thesis by blast
  qed
qed

lemma set_merge_pass: "set (concat (merge_pass lt xs)) = set xs"
  using mset_merge_pass [of lt xs] by (metis set_mset_mset)

text \<open>A pass that reports more than one run leaves fewer descents; one that reports at most one run
  leaves a sorted list.\<close>

lemma merge_pass_descents:
  assumes "weak_order lt" "length (merge_pass lt xs) > 1"
  shows "descents lt (concat (merge_pass lt xs)) < descents lt xs"
  using descents_concat [of "merge_pass lt xs" lt] weak_order.merge_pass_sorted [OF assms(1)]
    merge_pass_halves [of lt xs] assms(2) by fastforce

lemma merge_pass_final:
  assumes "weak_order lt" "\<not> length (merge_pass lt xs) > 1"
  shows "ascending lt (concat (merge_pass lt xs))"
proof (cases "merge_pass lt xs")
  case (Cons r rs)
  with assms have "rs = []" by simp
  with Cons weak_order.merge_pass_sorted [OF assms(1), of r xs] show ?thesis by simp
qed simp

lemma sort_loop_represents:
  assumes wo: "weak_order lt" and r: "represents h l xs"
  shows "\<exists>h' ys. sort_loop lt h l = Some h' \<and> represents h' l ys \<and> mset ys = mset xs \<and> ascending lt ys \<and>
    (\<forall>x. filter (\<lambda>y. \<not> lt y x \<and> \<not> lt x y) ys = filter (\<lambda>y. \<not> lt y x \<and> \<not> lt x y) xs) \<and>
    (\<forall>x. x \<notin> footprint l xs \<longrightarrow> h' x = h x)"
  using r
proof (induction "descents lt xs" arbitrary: h xs rule: less_induct)
  case less
  let ?zs = "concat (merge_pass lt xs)"
  obtain h1 where h1: "sort_pass_loop lt h l (hd (xs @ [tail_of l])) 0 = Some (h1, length (merge_pass lt xs))"
    "represents h1 l ?zs" "\<forall>x. x \<notin> footprint l xs \<longrightarrow> h1 x = h x"
    using sort_pass_loop_represents [of h l "[]" xs lt 0] less.prems by auto
  have fp: "footprint l ?zs = footprint l xs" by (rule footprint_cong, rule set_merge_pass)
  note st = weak_order.merge_pass_stable [OF wo] and ms = mset_merge_pass [of lt xs]
  show ?case
  proof (cases "length (merge_pass lt xs) > 1")
    case True
    from less.hyps [OF merge_pass_descents [OF wo True] h1(2)] h1(1) less.prems True fp ms st h1(3) show ?thesis
      by (subst sort_loop.simps) (auto simp: list_begin_represents)
  next
    case False
    with h1 less.prems ms st merge_pass_final [OF wo False] show ?thesis
      by (subst sort_loop.simps) (auto simp: list_begin_represents)
  qed
qed

end
