(* ===== verification/List_Properties.thy ===== *)
theory List_Properties
  imports Kernel_List_Sort
begin

text \<open>
  The properties of \<^verbatim>\<open>lib/kernel/list.c\<close> that its clients rely on, stated for lists of any length and
  any heap in which the list is well formed, with the small heaps that show the hypotheses can hold.
\<close>

section \<open>Moving elements between two lists\<close>

text \<open>
  \<^verbatim>\<open>list_splice\<close> from one chain into another, disjoint one.  The case of a single chain is
  \<open>list_splice_chain\<close>.
\<close>

lemma list_splice_two_chains:
  assumes c1: "wf_chain h (us @ vs)" and c2: "wf_chain h (xs @ fs @ ys)"
    and dis: "set (us @ vs) \<inter> set (xs @ fs @ ys) = {}"
    and ne: "us \<noteq> []" "vs \<noteq> []" "xs \<noteq> []" "fs \<noteq> []" "ys \<noteq> []"
  obtains h' where "list_splice h (hd vs) (hd fs) (hd ys) = Some h'" "wf_chain h' (us @ fs @ vs)" "wf_chain h' (xs @ ys)"
    "\<And>x. x \<notin> set (us @ vs @ xs @ fs @ ys) \<Longrightarrow> h' x = h x"
proof -
  let ?p = "last us" and ?b = "hd vs" and ?q = "last xs" and ?f = "hd fs" and ?l = "last fs" and ?n = "hd ys"
  have d: "distinct us" "distinct vs" "distinct xs" "distinct fs" "distinct ys"
    and nz: "NULL \<notin> set us" "NULL \<notin> set vs" "NULL \<notin> set xs" "NULL \<notin> set fs" "NULL \<notin> set ys"
    and dj: "set us \<inter> set vs = {}" "set xs \<inter> set fs = {}" "set xs \<inter> set ys = {}" "set fs \<inter> set ys = {}"
    and lk: "linked h us" "linked h vs" "linked h xs" "linked h fs" "linked h ys"
      "prev_ptr (h ?b) = ?p" "next_ptr (h ?q) = ?f" "prev_ptr (h ?f) = ?q" "next_ptr (h ?l) = ?n" "prev_ptr (h ?n) = ?l"
    and ends: "prev_ptr (h (hd us)) = NULL" "next_ptr (h (last vs)) = NULL"
      "prev_ptr (h (hd xs)) = NULL" "next_ptr (h (last ys)) = NULL"
    using c1 c2 ne by (auto simp: wf_chain_def linked_append)
  have mem: "?p \<in> set us" "hd us \<in> set us" "?b \<in> set vs" "last vs \<in> set vs" "?q \<in> set xs" "hd xs \<in> set xs"
    "?f \<in> set fs" "?l \<in> set fs" "?n \<in> set ys" "last ys \<in> set ys"
    using ne by auto
  have nn: "?p \<noteq> NULL" "?b \<noteq> NULL" "?l \<noteq> NULL" "?n \<noteq> NULL" using mem nz by metis+
  have dn: "?p \<notin> set vs" "?p \<notin> set xs" "?p \<notin> set fs" "?p \<notin> set ys"
    "?b \<notin> set us" "?b \<notin> set xs" "?b \<notin> set fs" "?b \<notin> set ys"
    "?q \<notin> set us" "?q \<notin> set vs" "?q \<notin> set fs" "?q \<notin> set ys"
    "?f \<notin> set us" "?f \<notin> set vs" "?f \<notin> set xs" "?f \<notin> set ys"
    "?l \<notin> set us" "?l \<notin> set vs" "?l \<notin> set xs" "?l \<notin> set ys"
    "?n \<notin> set us" "?n \<notin> set vs" "?n \<notin> set xs" "?n \<notin> set fs"
    using mem dj dis by auto
  have neq: "?p \<noteq> ?b" "?p \<noteq> ?q" "?p \<noteq> ?f" "?p \<noteq> ?l" "?p \<noteq> ?n" "?b \<noteq> ?q" "?b \<noteq> ?f" "?b \<noteq> ?l" "?b \<noteq> ?n"
    "?q \<noteq> ?f" "?q \<noteq> ?l" "?q \<noteq> ?n" "?f \<noteq> ?n" "?l \<noteq> ?n"
    "hd us \<noteq> ?b" "hd us \<noteq> ?f" "hd us \<noteq> ?n" "hd xs \<noteq> ?b" "hd xs \<noteq> ?f" "hd xs \<noteq> ?n"
    "last vs \<noteq> ?p" "last vs \<noteq> ?l" "last vs \<noteq> ?q" "last ys \<noteq> ?p" "last ys \<noteq> ?l" "last ys \<noteq> ?q"
    using mem dn by metis+
  let ?h = "set_prev (set_next (set_next (set_prev (set_prev (set_next h ?q ?n) ?n ?q) ?f ?p) ?l ?b) ?p ?f) ?b ?l"
  have int: "is_interior h ?f" "is_interior h ?l"
    using wf_chain_interior [OF c2 ne(3,5)] mem by auto
  have pre: "is_interior h ?b \<or> is_tail h ?b" "is_interior h ?n \<or> is_tail h ?n"
    using lk nn by (auto simp: is_interior_def is_tail_def)
  have 1: "list_splice h ?b ?f ?n = Some ?h"
    using int pre lk neq by (simp add: list_splice_def list_prev_def Let_def heap_simps)
  have lk': "linked ?h us" "linked ?h vs" "linked ?h xs" "linked ?h fs" "linked ?h ys"
    using lk dn d [THEN distinct_ends(1)] d [THEN distinct_ends(2)] by (simp_all add: heap_simps)
  have ptrs: "next_ptr (?h ?p) = ?f" "prev_ptr (?h ?f) = ?p" "next_ptr (?h ?l) = ?b" "prev_ptr (?h ?b) = ?l"
    "next_ptr (?h ?q) = ?n" "prev_ptr (?h ?n) = ?q" "prev_ptr (?h (hd us)) = NULL" "next_ptr (?h (last vs)) = NULL"
    "prev_ptr (?h (hd xs)) = NULL" "next_ptr (?h (last ys)) = NULL"
    using neq neq [symmetric] ends by (simp_all add: heap_simps)
  have len: "2 \<le> length (xs @ ys)" using ne by (cases xs; cases ys) auto
  have 2: "wf_chain ?h (us @ fs @ vs)" "wf_chain ?h (xs @ ys)"
    using c1 c2 dis ne len lk' ptrs by (auto simp: wf_chain_def linked_append)
  have "?h x = h x" if "x \<notin> set (us @ vs @ xs @ fs @ ys)" for x
  proof -
    have "x \<noteq> ?p" "x \<noteq> ?b" "x \<noteq> ?q" "x \<noteq> ?f" "x \<noteq> ?l" "x \<noteq> ?n" using mem that by auto
    then show ?thesis by (simp add: heap_simps)
  qed
  then show thesis
    by (rule that [OF 1 2])
qed

text \<open>Every position of a list, its end included, is one to insert before.\<close>

lemma cursor_insertable:
  assumes "represents h l (us @ vs)"
  shows "is_interior h (hd (vs @ [tail_of l])) \<or> is_tail h (hd (vs @ [tail_of l]))"
proof -
  let ?us = "head_of l # us" and ?vs = "vs @ [tail_of l]"
  have "linked h (?us @ ?vs)" "NULL \<notin> set (?us @ ?vs)" using assms by (auto simp: represents_def wf_chain_def)
  moreover have "last ?us \<in> set ?us" "hd ?vs \<in> set ?vs" by (blast intro: last_in_set hd_in_set)+
  ultimately show ?thesis
    using linked_append [of ?us ?vs h] unfolding is_interior_def is_tail_def
    by (metis UnCI append_is_Nil_conv list.distinct(1) set_append)
qed

section \<open>A heap with two lists\<close>

text \<open>The list at 16 holds three elements, the one at 32 two.\<close>

definition sample_heap :: heap where
  "sample_heap = (\<lambda>_. \<lparr>prev_ptr = 0, next_ptr = 0\<rparr>)
     (16 := \<lparr>prev_ptr = 0, next_ptr = 100\<rparr>, 100 := \<lparr>prev_ptr = 16, next_ptr = 200\<rparr>,
      200 := \<lparr>prev_ptr = 100, next_ptr = 300\<rparr>, 300 := \<lparr>prev_ptr = 200, next_ptr = 24\<rparr>,
      24 := \<lparr>prev_ptr = 300, next_ptr = 0\<rparr>,
      32 := \<lparr>prev_ptr = 0, next_ptr = 400\<rparr>, 400 := \<lparr>prev_ptr = 32, next_ptr = 500\<rparr>,
      500 := \<lparr>prev_ptr = 400, next_ptr = 40\<rparr>, 40 := \<lparr>prev_ptr = 500, next_ptr = 0\<rparr>)"

lemma sample_heap_lists:
  "represents sample_heap 16 [100, 200, 300]" "represents sample_heap 32 [400, 500]"
  "footprint 16 [100, 200, 300] \<inter> footprint 32 [400, 500] = {}"
  by (simp_all add: represents_def wf_chain_def head_of_def tail_of_def sample_heap_def footprint_def)

text \<open>Comparison by a key, as the kernel's comparison functions do it.\<close>

lemma weak_order_key: "weak_order (\<lambda>a b. (key a :: 'k :: linorder) < key b)"
  by unfold_locales auto

text \<open>After duplicate removal no two neighbours are equivalent.\<close>

lemma uniq_successively: "successively (\<lambda>a b. lt a b \<or> lt b a) (fst (uniq lt x xs)) \<and> hd (fst (uniq lt x xs)) = x"
proof (induction lt x xs rule: uniq.induct)
  case (2 lt x y ys)
  then show ?case by (cases "fst (uniq lt y ys)") auto
qed simp

section \<open>Properties\<close>

text \<open>
  C4: \<^verbatim>\<open>list_sort\<close> terminates on every well-formed list without failing an assertion; the result is a
  well-formed list of the same elements in ascending order, elements that compare equal keep their
  relative order (the sort is stable), and no memory outside the list is written.
\<close>

theorem list_sort_correct:
  assumes wo: "weak_order lt" and r: "represents h l xs"
  shows "\<exists>h' ys. list_sort lt h l = Some h' \<and> represents h' l ys \<and> mset ys = mset xs \<and>
    sorted_wrt (\<lambda>a b. \<not> lt b a) ys \<and>
    (\<forall>x. filter (\<lambda>y. \<not> lt y x \<and> \<not> lt x y) ys = filter (\<lambda>y. \<not> lt y x \<and> \<not> lt x y) xs) \<and>
    (\<forall>x. x \<notin> footprint l xs \<longrightarrow> h' x = h x)"
proof -
  obtain h' ys where h': "sort_loop lt h l = Some h'" "represents h' l ys" "ascending lt ys" "mset ys = mset xs"
    "\<forall>x. filter (\<lambda>y. \<not> lt y x \<and> \<not> lt x y) ys = filter (\<lambda>y. \<not> lt y x \<and> \<not> lt x y) xs"
    "\<forall>x. x \<notin> footprint l xs \<longrightarrow> h' x = h x"
    using sort_loop_represents [OF assms] by blast
  have "is_sorted lt h' (hd (ys @ [tail_of l])) (tail_of l) = Some True"
    using is_sorted_represents [of h' l "[]" ys "[]" lt] h'(2,3) by simp
  then have "list_sort lt h l = Some h'"
    using h'(1,2) represents_simps(1) [OF r] by (simp add: list_sort_def list_begin_represents)
  with h' weak_order.ascending_sorted [OF wo] show ?thesis by blast
qed

theorem list_sort_correct_witness:
  "\<exists>h' ys. list_sort (\<lambda>a b. a mod 200 < b mod 200) sample_heap 16 = Some h' \<and> represents h' 16 ys \<and>
    mset ys = {#100, 200, 300#} \<and> sorted_wrt (\<lambda>a b. a mod 200 \<le> b mod 200) ys"
  using list_sort_correct [OF weak_order_key [of "\<lambda>a. a mod 200"] sample_heap_lists(1)]
  by (auto simp: not_less)

text \<open>
  \<^verbatim>\<open>list_insert_ordered\<close> on a list in ascending order returns; the new element stands behind
  everything that is not greater and in front of the rest, so that the list stays in ascending order, and
  only the list and the element are written.
\<close>

theorem list_insert_ordered_sorted:
  assumes "weak_order lt" "represents h l xs" "sorted_wrt (\<lambda>a b. \<not> lt b a) xs"
    "e \<noteq> NULL" "e \<notin> footprint l xs"
  shows "\<exists>h' us vs. list_insert_ordered lt h l e = Some h' \<and> xs = us @ vs \<and> represents h' l (us @ e # vs) \<and>
    (\<forall>u \<in> set us. \<not> lt e u) \<and> (\<forall>v \<in> set vs. lt e v) \<and> sorted_wrt (\<lambda>a b. \<not> lt b a) (us @ e # vs) \<and>
    (\<forall>x. x \<notin> footprint l (e # xs) \<longrightarrow> h' x = h x)"
proof -
  let ?P = "\<lambda>y. \<not> lt e y"
  obtain h' where h': "list_insert_ordered lt h l e = Some h'" "represents h' l (insert_before_greater lt e xs)"
    "\<And>x. x \<notin> set (e # xs) \<union> {head_of l, tail_of l} \<Longrightarrow> h' x = h x"
    by (rule list_insert_ordered_represents [OF assms(2,4)]) (use assms(5) in \<open>auto simp: footprint_def\<close>)
  have greater: "lt e v" if v: "v \<in> set (dropWhile ?P xs)" for v
  proof (rule ccontr)
    obtain w ws where dw: "dropWhile ?P xs = w # ws" by (rule list.set_cases [OF v]) blast+
    then have "lt e w" using hd_dropWhile [of ?P xs] by auto
    moreover have "sorted_wrt (\<lambda>a b. \<not> lt b a) (w # ws)" unfolding dw [symmetric] by (rule sorted_wrt_dropWhile [OF assms(3)])
    moreover assume "\<not> lt e v"
    ultimately show False
      using v dw weak_order.asym [OF assms(1)] weak_order.neg_trans [OF assms(1)]
      by (metis set_ConsD sorted_wrt.simps(2))
  qed
  note new = insert_before_greater_def [of lt e xs]
  show ?thesis
  proof (intro exI conjI)
    show "list_insert_ordered lt h l e = Some h'" by (fact h'(1))
    show "xs = takeWhile ?P xs @ dropWhile ?P xs" by simp
    show "represents h' l (takeWhile ?P xs @ e # dropWhile ?P xs)" using h'(2) unfolding new .
    show "\<forall>u \<in> set (takeWhile ?P xs). \<not> lt e u" by (auto dest: set_takeWhileD)
    show "\<forall>v \<in> set (dropWhile ?P xs). lt e v" using greater by blast
    show "sorted_wrt (\<lambda>a b. \<not> lt b a) (takeWhile ?P xs @ e # dropWhile ?P xs)"
      using weak_order.insert_before_greater_sorted [OF assms(1,3), of e] unfolding new .
    show "\<forall>x. x \<notin> footprint l (e # xs) \<longrightarrow> h' x = h x" using h'(3) by (simp add: footprint_def)
  qed
qed

theorem list_insert_ordered_sorted_witness:
  "\<exists>h' us vs. list_insert_ordered (<) sample_heap 16 (250 :: nat) = Some h' \<and> [100, 200, 300] = us @ vs \<and>
    represents h' 16 (us @ 250 # vs) \<and> (\<forall>v \<in> set vs. 250 < v)"
proof -
  have "sorted_wrt (\<lambda>a b. \<not> b < a) [100, 200, 300 :: nat]" "(250 :: nat) \<notin> footprint 16 [100, 200, 300]"
    by (simp_all add: footprint_def head_of_def tail_of_def)
  with list_insert_ordered_sorted [OF weak_order_key [of "\<lambda>a. a"] sample_heap_lists(1), of 250]
  show ?thesis by fastforce
qed

text \<open>
  \<^verbatim>\<open>list_push_back\<close> and \<^verbatim>\<open>list_pop_front\<close> make a first-in first-out queue: any number of distinct
  elements pushed at the back of an empty list come out at the front in the order of their arrival,
  and leave the list empty.
\<close>

theorem list_fifo:
  assumes "represents h l []" "\<forall>e \<in> set es. elem_ok l e" "distinct es"
  shows "\<exists>h1 h2. push_many list_push_back h l es = Some h1 \<and>
    pop_many list_pop_front (length es) h1 l = Some (es, h2) \<and> represents h2 l []"
  using assms by (rule klist.fifo_order)

theorem list_fifo_witness:
  "\<exists>h h1 h2. list_init sample_heap 64 = Some h \<and> push_many list_push_back h 64 [600, 700] = Some h1 \<and>
    pop_many list_pop_front 2 h1 64 = Some ([600, 700], h2) \<and> represents h2 64 []"
proof -
  obtain h where "list_init sample_heap 64 = Some h" "represents h 64 []"
    by (rule list_init_represents [of 64 sample_heap]) auto
  with list_fifo [of h 64 "[600, 700]"] show ?thesis
    by (auto simp: elem_ok_def head_of_def tail_of_def numeral_2_eq_2)
qed

text \<open>
  \<^verbatim>\<open>list_splice\<close> moves a run of elements (possibly empty) out of one list to any position of
  another: both lists stay well formed and nothing else in memory changes.
\<close>

theorem list_splice_moves:
  assumes "represents h l (us @ vs)" "represents h m (xs @ fs @ ys)"
    "footprint l (us @ vs) \<inter> footprint m (xs @ fs @ ys) = {}"
  shows "\<exists>h'. list_splice h (hd (vs @ [tail_of l])) (hd (fs @ ys @ [tail_of m])) (hd (ys @ [tail_of m])) = Some h' \<and>
    represents h' l (us @ fs @ vs) \<and> represents h' m (xs @ ys) \<and>
    (\<forall>x. x \<notin> footprint l (us @ vs) \<union> footprint m (xs @ fs @ ys) \<longrightarrow> h' x = h x)"
proof (cases "fs = []")
  case True
  have "is_interior h (hd (vs @ [tail_of l])) \<or> is_tail h (hd (vs @ [tail_of l]))"
    by (rule cursor_insertable [OF assms(1)])
  with True assms show ?thesis by (simp add: list_splice_def)
next
  case False
  have "wf_chain h ((head_of l # us) @ (vs @ [tail_of l]))" "wf_chain h ((head_of m # xs) @ fs @ (ys @ [tail_of m]))"
    "set ((head_of l # us) @ (vs @ [tail_of l])) \<inter> set ((head_of m # xs) @ fs @ (ys @ [tail_of m])) = {}"
    using assms by (auto simp: represents_def footprint_def)
  from list_splice_two_chains [OF this] False obtain h' where
    "list_splice h (hd (vs @ [tail_of l])) (hd fs) (hd (ys @ [tail_of m])) = Some h'"
    "wf_chain h' ((head_of l # us) @ fs @ vs @ [tail_of l])" "wf_chain h' ((head_of m # xs) @ ys @ [tail_of m])"
    "\<And>x. x \<notin> set ((head_of l # us) @ (vs @ [tail_of l]) @ (head_of m # xs) @ fs @ ys @ [tail_of m]) \<Longrightarrow> h' x = h x"
    by auto
  with False show ?thesis by (intro exI [of _ h']) (auto simp: represents_def footprint_def)
qed

theorem list_splice_moves_witness:
  "\<exists>h'. list_splice sample_heap 200 400 40 = Some h' \<and> represents h' 16 [100, 400, 500, 200, 300] \<and> represents h' 32 []"
  using list_splice_moves [of sample_heap 16 "[100]" "[200, 300]" 32 "[]" "[400, 500]" "[]"] sample_heap_lists
  by (auto simp: tail_of_def)

text \<open>
  \<^verbatim>\<open>list_unique\<close> on a well-formed list, sorted or not, leaves a list in which neighbours never
  compare equal; what it removes is appended to the second list when one is given, so that no element
  is lost or duplicated.
\<close>

theorem list_unique_correct:
  assumes "represents h l xs" "represents h d ds" "footprint l xs \<inter> footprint d ds = {}"
  shows "\<exists>h' ys ds'. list_unique lt h l d = Some h' \<and> represents h' l ys \<and> represents h' d (ds @ ds') \<and>
    mset ys + mset ds' = mset xs \<and> successively (\<lambda>a b. lt a b \<or> lt b a) ys"
proof (cases xs)
  case Nil
  with assms show ?thesis
    using represents_simps(1) [OF assms(1)]
    by (intro exI [of _ h] exI [of _ "[]"]) (simp add: list_unique_def list_empty_represents)
next
  case (Cons x xs')
  then show ?thesis
    using list_unique_represents [of h l x xs' d ds lt] assms represents_simps(1) [OF assms(2)]
      mset_uniq [of lt x xs'] uniq_successively [of lt x xs'] by auto
qed

theorem list_unique_correct_witness:
  "\<exists>h' ys ds'. list_unique (\<lambda>a b. a div 200 < b div 200) sample_heap 16 32 = Some h' \<and> represents h' 16 ys \<and>
    represents h' 32 ([400, 500] @ ds') \<and> mset ys + mset ds' = {#100, 200, 300#}"
  using list_unique_correct [OF sample_heap_lists] by fastforce

text \<open>
  \<^verbatim>\<open>list_reverse\<close> terminates and turns the represented list around, writing nothing but the list
  itself; doing it twice restores the list.
\<close>

theorem list_reverse_correct:
  assumes "represents h l xs"
  shows "\<exists>h1 h2. list_reverse h l = Some h1 \<and> represents h1 l (rev xs) \<and>
    list_reverse h1 l = Some h2 \<and> represents h2 l xs \<and> (\<forall>y. y \<notin> footprint l xs \<longrightarrow> h2 y = h y)"
proof -
  obtain h1 where h1: "list_reverse h l = Some h1" "represents h1 l (rev xs)" "\<forall>y. y \<notin> footprint l xs \<longrightarrow> h1 y = h y"
    using list_reverse_represents [OF assms] by blast
  with list_reverse_represents [OF h1(2)] show ?thesis by (auto simp: footprint_def)
qed

theorem list_reverse_correct_witness:
  "\<exists>h1 h2. list_reverse sample_heap 16 = Some h1 \<and> represents h1 16 [300, 200, 100] \<and>
    list_reverse h1 16 = Some h2 \<and> represents h2 16 [100, 200, 300]"
  using list_reverse_correct [OF sample_heap_lists(1)] by auto

end
