(* ===== verification/Bitmap.thy ===== *)
theory Bitmap
  imports Pintos_Prelude
begin

text \<open>
  \<^verbatim>\<open>lib/kernel/bitmap.c\<close>: a bitmap is a bit count and an array of 32-bit elements.

  \<^verbatim>\<open>size_t\<close> values are natural numbers below \<open>2 ^ 32\<close>; the sums \<^verbatim>\<open>start + cnt\<close> and
  \<^verbatim>\<open>start + i\<close> are reduced modulo \<open>2 ^ 32\<close> as in C.  An access outside the element array is the
  halted kernel.  \<open>bitmap_bits\<close> is the abstraction to a list of booleans that the lemmas of
  this theory refine every operation to.
\<close>

unbundle bit_operations_syntax

section \<open>Representation\<close>

type_synonym elem_type = u32

definition ELEM_BITS :: nat where
  "ELEM_BITS = 32"

definition SIZE_WRAP :: nat where
  "SIZE_WRAP = 2 ^ 32"

definition BITMAP_ERROR :: nat where
  "BITMAP_ERROR = SIZE_WRAP - 1"

record bitmap =
  bit_cnt :: nat
  bits :: "elem_type list"

definition elem_idx :: "nat \<Rightarrow> nat" where
  "elem_idx bit_idx = bit_idx div ELEM_BITS"

definition bit_mask :: "nat \<Rightarrow> elem_type" where
  "bit_mask bit_idx = push_bit (bit_idx mod ELEM_BITS) 1"

definition elem_cnt :: "nat \<Rightarrow> nat" where
  "elem_cnt n = ((n + ELEM_BITS - 1) mod SIZE_WRAP) div ELEM_BITS"

definition byte_cnt :: "nat \<Rightarrow> nat" where
  "byte_cnt n = 4 * elem_cnt n"

definition last_mask :: "bitmap \<Rightarrow> elem_type" where
  "last_mask b = (let last_bits = bit_cnt b mod ELEM_BITS in
     if last_bits \<noteq> 0 then push_bit last_bits 1 - 1 else - 1)"

text \<open>Loads and stores of \<^verbatim>\<open>b->bits[idx]\<close>.\<close>

definition load_elem :: "bitmap \<Rightarrow> nat \<Rightarrow> elem_type option" where
  "load_elem b idx = (if idx < length (bits b) then Some (bits b ! idx) else None)"

definition store_elem :: "bitmap \<Rightarrow> nat \<Rightarrow> elem_type \<Rightarrow> bitmap option" where
  "store_elem b idx w = (if idx < length (bits b) then Some (b\<lparr>bits := (bits b)[idx := w]\<rparr>) else None)"

section \<open>Single bits\<close>

definition bitmap_size :: "bitmap \<Rightarrow> nat" where
  "bitmap_size b = bit_cnt b"

definition bitmap_mark :: "bitmap \<Rightarrow> nat \<Rightarrow> bitmap option" where
  "bitmap_mark b bit_idx = do {
     let idx = elem_idx bit_idx;
     let mask = bit_mask bit_idx;
     w \<leftarrow> load_elem b idx;
     store_elem b idx (w OR mask)
   }"

definition bitmap_reset :: "bitmap \<Rightarrow> nat \<Rightarrow> bitmap option" where
  "bitmap_reset b bit_idx = do {
     let idx = elem_idx bit_idx;
     let mask = bit_mask bit_idx;
     w \<leftarrow> load_elem b idx;
     store_elem b idx (w AND NOT mask)
   }"

definition bitmap_flip :: "bitmap \<Rightarrow> nat \<Rightarrow> bitmap option" where
  "bitmap_flip b bit_idx = do {
     let idx = elem_idx bit_idx;
     let mask = bit_mask bit_idx;
     w \<leftarrow> load_elem b idx;
     store_elem b idx (w XOR mask)
   }"

definition bitmap_set :: "bitmap \<Rightarrow> nat \<Rightarrow> bool \<Rightarrow> bitmap option" where
  "bitmap_set b idx v = do {
     ASSERT (idx < bit_cnt b);
     if v then bitmap_mark b idx else bitmap_reset b idx
   }"

definition bitmap_test :: "bitmap \<Rightarrow> nat \<Rightarrow> bool option" where
  "bitmap_test b idx = do {
     ASSERT (idx < bit_cnt b);
     w \<leftarrow> load_elem b (elem_idx idx);
     Some (w AND bit_mask idx \<noteq> 0)
   }"

section \<open>Ranges of bits\<close>

text \<open>The \<^verbatim>\<open>for\<close> loops count \<open>i\<close> up; the recursion counts the iterations that are left.\<close>

fun set_multiple_loop :: "bitmap \<Rightarrow> nat \<Rightarrow> nat \<Rightarrow> bool \<Rightarrow> nat \<Rightarrow> bitmap option" where
  "set_multiple_loop b start i v 0 = Some b"
| "set_multiple_loop b start i v (Suc left) = do {
     b \<leftarrow> bitmap_set b ((start + i) mod SIZE_WRAP) v;
     set_multiple_loop b start (i + 1) v left
   }"

definition bitmap_set_multiple :: "bitmap \<Rightarrow> nat \<Rightarrow> nat \<Rightarrow> bool \<Rightarrow> bitmap option" where
  "bitmap_set_multiple b start cnt v = do {
     ASSERT (start \<le> bit_cnt b);
     ASSERT ((start + cnt) mod SIZE_WRAP \<le> bit_cnt b);
     set_multiple_loop b start 0 v cnt
   }"

definition bitmap_set_all :: "bitmap \<Rightarrow> bool \<Rightarrow> bitmap option" where
  "bitmap_set_all b v = bitmap_set_multiple b 0 (bitmap_size b) v"

fun count_loop :: "bitmap \<Rightarrow> nat \<Rightarrow> nat \<Rightarrow> bool \<Rightarrow> nat \<Rightarrow> nat \<Rightarrow> nat option" where
  "count_loop b start i v value_cnt 0 = Some value_cnt"
| "count_loop b start i v value_cnt (Suc left) = do {
     t \<leftarrow> bitmap_test b ((start + i) mod SIZE_WRAP);
     count_loop b start (i + 1) v (if t = v then value_cnt + 1 else value_cnt) left
   }"

definition bitmap_count :: "bitmap \<Rightarrow> nat \<Rightarrow> nat \<Rightarrow> bool \<Rightarrow> nat option" where
  "bitmap_count b start cnt v = do {
     ASSERT (start \<le> bit_cnt b);
     ASSERT ((start + cnt) mod SIZE_WRAP \<le> bit_cnt b);
     count_loop b start 0 v 0 cnt
   }"

fun contains_loop :: "bitmap \<Rightarrow> nat \<Rightarrow> nat \<Rightarrow> bool \<Rightarrow> nat \<Rightarrow> bool option" where
  "contains_loop b start i v 0 = Some False"
| "contains_loop b start i v (Suc left) = do {
     t \<leftarrow> bitmap_test b ((start + i) mod SIZE_WRAP);
     if t = v then Some True else contains_loop b start (i + 1) v left
   }"

definition bitmap_contains :: "bitmap \<Rightarrow> nat \<Rightarrow> nat \<Rightarrow> bool \<Rightarrow> bool option" where
  "bitmap_contains b start cnt v = do {
     ASSERT (start \<le> bit_cnt b);
     ASSERT ((start + cnt) mod SIZE_WRAP \<le> bit_cnt b);
     contains_loop b start 0 v cnt
   }"

definition bitmap_any :: "bitmap \<Rightarrow> nat \<Rightarrow> nat \<Rightarrow> bool option" where
  "bitmap_any b start cnt = bitmap_contains b start cnt True"

definition bitmap_none :: "bitmap \<Rightarrow> nat \<Rightarrow> nat \<Rightarrow> bool option" where
  "bitmap_none b start cnt = map_option Not (bitmap_contains b start cnt True)"

definition bitmap_all :: "bitmap \<Rightarrow> nat \<Rightarrow> nat \<Rightarrow> bool option" where
  "bitmap_all b start cnt = map_option Not (bitmap_contains b start cnt False)"

text \<open>\<^verbatim>\<open>for (i = start; i <= last; i++)\<close>: \<open>left\<close> is \<open>last + 1 - i\<close>.\<close>

fun scan_loop :: "bitmap \<Rightarrow> nat \<Rightarrow> bool \<Rightarrow> nat \<Rightarrow> nat \<Rightarrow> nat option" where
  "scan_loop b cnt v i 0 = Some BITMAP_ERROR"
| "scan_loop b cnt v i (Suc left) = do {
     c \<leftarrow> bitmap_contains b i cnt (\<not> v);
     if \<not> c then Some i else scan_loop b cnt v (i + 1) left
   }"

definition bitmap_scan :: "bitmap \<Rightarrow> nat \<Rightarrow> nat \<Rightarrow> bool \<Rightarrow> nat option" where
  "bitmap_scan b start cnt v = do {
     ASSERT (start \<le> bit_cnt b);
     if cnt \<le> bit_cnt b then scan_loop b cnt v start (bit_cnt b - cnt + 1 - start)
     else Some BITMAP_ERROR
   }"

definition bitmap_scan_and_flip :: "bitmap \<Rightarrow> nat \<Rightarrow> nat \<Rightarrow> bool \<Rightarrow> (nat \<times> bitmap) option" where
  "bitmap_scan_and_flip b start cnt v = do {
     idx \<leftarrow> bitmap_scan b start cnt v;
     if idx \<noteq> BITMAP_ERROR then do {
       b \<leftarrow> bitmap_set_multiple b idx cnt (\<not> v);
       Some (idx, b)
     } else Some (idx, b)
   }"

section \<open>Creation\<close>

text \<open>
  \<open>alloc n\<close> says whether \<^verbatim>\<open>malloc (n)\<close> finds memory; \<^verbatim>\<open>malloc (0)\<close> is always a null pointer
  (\<^verbatim>\<open>threads/malloc.c\<close>).  \<open>junk\<close> is the content of the fresh memory.  The inner \<open>None\<close> is the null
  pointer the C function returns.
\<close>

definition bitmap_create :: "(nat \<Rightarrow> bool) \<Rightarrow> (nat \<Rightarrow> elem_type) \<Rightarrow> nat \<Rightarrow> bitmap option option" where
  "bitmap_create alloc junk n =
     (if alloc 8 then
        let got = byte_cnt n \<noteq> 0 \<and> alloc (byte_cnt n);
            b = \<lparr>bit_cnt = n, bits = (if got then map junk [0..<elem_cnt n] else [])\<rparr>
        in if got \<or> n = 0 then do { b \<leftarrow> bitmap_set_all b False; Some (Some b) }
           else Some None
      else Some None)"

definition bitmap_buf_size :: "nat \<Rightarrow> nat" where
  "bitmap_buf_size n = 8 + byte_cnt n"

definition bitmap_create_in_buf :: "(nat \<Rightarrow> elem_type) \<Rightarrow> nat \<Rightarrow> nat \<Rightarrow> bitmap option" where
  "bitmap_create_in_buf block n block_size = do {
     ASSERT (block_size \<ge> bitmap_buf_size n);
     bitmap_set_all \<lparr>bit_cnt = n, bits = map block [0..<(block_size - 8) div 4]\<rparr> False
   }"

definition bitmap_file_size :: "bitmap \<Rightarrow> nat" where
  "bitmap_file_size b = byte_cnt (bit_cnt b)"

section \<open>Abstraction\<close>

definition bitmap_bits :: "bitmap \<Rightarrow> bool list" where
  "bitmap_bits b = map (\<lambda>i. bit (bits b ! elem_idx i) (i mod ELEM_BITS)) [0..<bit_cnt b]"

definition wf_bitmap :: "bitmap \<Rightarrow> bool" where
  "wf_bitmap b \<longleftrightarrow> bit_cnt b \<le> ELEM_BITS * length (bits b) \<and> bit_cnt b < SIZE_WRAP"

lemma length_bitmap_bits [simp]: "length (bitmap_bits b) = bit_cnt b"
  by (simp add: bitmap_bits_def)

lemma bitmap_bits_nth: "i < bit_cnt b \<Longrightarrow> bitmap_bits b ! i = bit (bits b ! elem_idx i) (i mod ELEM_BITS)"
  by (simp add: bitmap_bits_def)

lemma elem_idx_in_range: "wf_bitmap b \<Longrightarrow> i < bit_cnt b \<Longrightarrow> elem_idx i < length (bits b)"
  unfolding wf_bitmap_def elem_idx_def ELEM_BITS_def by (auto simp: less_mult_imp_div_less mult.commute)

lemma bit_mask_bit: "bit (bit_mask i) j \<longleftrightarrow> j = i mod ELEM_BITS"
proof -
  have "i mod 32 < LENGTH(32)" by simp
  then show ?thesis
    by (auto simp: bit_mask_def ELEM_BITS_def push_bit_eq_mult bit_exp_iff possible_bit_def)
qed

lemma and_bit_mask: "w AND bit_mask i \<noteq> 0 \<longleftrightarrow> bit w (i mod ELEM_BITS)"
  using and_exp_eq_0_iff_not_bit [of w "i mod ELEM_BITS"] by (simp add: bit_mask_def push_bit_eq_mult)

lemma bitmap_test_bits:
  assumes "wf_bitmap b" "i < bit_cnt b"
  shows "bitmap_test b i = Some (bitmap_bits b ! i)"
  using assms elem_idx_in_range [OF assms]
  by (simp add: bitmap_test_def load_elem_def and_bit_mask bitmap_bits_nth)

text \<open>Storing an element that differs from the old one in one bit only updates that bit.\<close>

lemma store_elem_bits:
  assumes wf: "wf_bitmap b" and i: "i < bit_cnt b"
    and w: "\<And>j. j < ELEM_BITS \<Longrightarrow> bit w j = (if j = i mod ELEM_BITS then v else bit (bits b ! elem_idx i) j)"
  obtains b' where "store_elem b (elem_idx i) w = Some b'" "bitmap_bits b' = (bitmap_bits b)[i := v]"
    "wf_bitmap b'" "bit_cnt b' = bit_cnt b" "length (bits b') = length (bits b)"
proof -
  let ?b = "b\<lparr>bits := (bits b)[elem_idx i := w]\<rparr>"
  have r: "elem_idx i < length (bits b)" by (rule elem_idx_in_range [OF wf i])
  have "bitmap_bits ?b ! k = (bitmap_bits b)[i := v] ! k" if "k < bit_cnt b" for k
  proof (cases "elem_idx k = elem_idx i")
    case True
    have "k = i \<longleftrightarrow> k mod ELEM_BITS = i mod ELEM_BITS"
      using True unfolding elem_idx_def by (metis div_mult_mod_eq)
    with True that i r w [of "k mod ELEM_BITS"] show ?thesis
      by (simp add: bitmap_bits_nth nth_list_update_if ELEM_BITS_def)
  next
    case False
    with that i show ?thesis by (auto simp: bitmap_bits_nth nth_list_update_if)
  qed
  then have "bitmap_bits ?b = (bitmap_bits b)[i := v]" by (intro nth_equalityI) auto
  with r wf show thesis by (intro that [of ?b]) (auto simp: store_elem_def wf_bitmap_def)
qed


section \<open>The operations on the list of booleans\<close>

lemma bitmap_mark_bits:
  assumes "wf_bitmap b" "i < bit_cnt b"
  obtains b' where "bitmap_mark b i = Some b'" "bitmap_bits b' = (bitmap_bits b)[i := True]"
    "wf_bitmap b'" "bit_cnt b' = bit_cnt b"
  using assms elem_idx_in_range [OF assms]
  by (rule_tac store_elem_bits [OF assms, where w = "bits b ! elem_idx i OR bit_mask i" and v = True])
    (auto simp: bit_or_iff bit_mask_bit bitmap_mark_def load_elem_def)

lemma bitmap_reset_bits:
  assumes "wf_bitmap b" "i < bit_cnt b"
  obtains b' where "bitmap_reset b i = Some b'" "bitmap_bits b' = (bitmap_bits b)[i := False]"
    "wf_bitmap b'" "bit_cnt b' = bit_cnt b"
  using assms elem_idx_in_range [OF assms]
  by (rule_tac store_elem_bits [OF assms, where w = "bits b ! elem_idx i AND NOT (bit_mask i)" and v = False])
    (auto simp: bit_and_iff bit_not_iff bit_mask_bit bitmap_reset_def load_elem_def possible_bit_def ELEM_BITS_def)

lemma bitmap_flip_bits:
  assumes "wf_bitmap b" "i < bit_cnt b"
  obtains b' where "bitmap_flip b i = Some b'" "bitmap_bits b' = (bitmap_bits b)[i := \<not> bitmap_bits b ! i]"
    "wf_bitmap b'" "bit_cnt b' = bit_cnt b"
  using assms elem_idx_in_range [OF assms]
  by (rule_tac store_elem_bits [OF assms, where w = "bits b ! elem_idx i XOR bit_mask i" and v = "\<not> bitmap_bits b ! i"])
    (auto simp: bit_xor_iff bit_mask_bit bitmap_flip_def load_elem_def bitmap_bits_nth)

lemma bitmap_set_bits:
  assumes "wf_bitmap b" "i < bit_cnt b"
  obtains b' where "bitmap_set b i v = Some b'" "bitmap_bits b' = (bitmap_bits b)[i := v]"
    "wf_bitmap b'" "bit_cnt b' = bit_cnt b"
proof (cases v)
  case True
  with assms that show ?thesis
    by (auto simp: bitmap_set_def elim: bitmap_mark_bits [OF assms])
next
  case False
  with assms that show ?thesis
    by (auto simp: bitmap_set_def elim: bitmap_reset_bits [OF assms])
qed

lemma bitmap_set_out_of_range: "bit_cnt b \<le> i \<Longrightarrow> bitmap_set b i v = None"
  by (simp add: bitmap_set_def ASSERT_def)

lemma bitmap_test_out_of_range: "bit_cnt b \<le> i \<Longrightarrow> bitmap_test b i = None"
  by (simp add: bitmap_test_def ASSERT_def)

text \<open>The abstract effect of setting \<open>n\<close> entries from \<open>s\<close> on.\<close>

definition set_range :: "bool list \<Rightarrow> nat \<Rightarrow> nat \<Rightarrow> bool \<Rightarrow> bool list" where
  "set_range xs s n v = take s xs @ replicate n v @ drop (s + n) xs"

lemma set_range_0 [simp]: "set_range xs s 0 v = xs"
  by (simp add: set_range_def)

lemma length_set_range [simp]: "s + n \<le> length xs \<Longrightarrow> length (set_range xs s n v) = length xs"
  by (simp add: set_range_def)

lemma nth_set_range:
  "s + n \<le> length xs \<Longrightarrow> k < length xs \<Longrightarrow>
   set_range xs s n v ! k = (if s \<le> k \<and> k < s + n then v else xs ! k)"
  by (auto simp: set_range_def nth_append)

lemma set_range_Suc:
  "s + Suc n \<le> length xs \<Longrightarrow> set_range (xs[s := v]) (Suc s) n v = set_range xs s (Suc n) v"
  by (rule nth_equalityI) (auto simp: nth_set_range nth_list_update_if)

lemma set_range_all: "set_range xs 0 (length xs) v = replicate (length xs) v"
  by (simp add: set_range_def)

lemma set_multiple_loop_bits:
  assumes "wf_bitmap b" "start + i + left \<le> bit_cnt b"
  shows "\<exists>b'. set_multiple_loop b start i v left = Some b' \<and> wf_bitmap b' \<and> bit_cnt b' = bit_cnt b \<and>
    bitmap_bits b' = set_range (bitmap_bits b) (start + i) left v"
  using assms
proof (induction left arbitrary: b i)
  case (Suc left)
  have r: "start + i < bit_cnt b" "(start + i) mod SIZE_WRAP = start + i"
    using Suc.prems by (auto simp: wf_bitmap_def)
  obtain b1 where b1: "bitmap_set b (start + i) v = Some b1"
    "bitmap_bits b1 = (bitmap_bits b)[start + i := v]" "wf_bitmap b1" "bit_cnt b1 = bit_cnt b"
    by (rule bitmap_set_bits [OF Suc.prems(1) r(1)])
  from Suc.IH [OF b1(3), of "i + 1"] Suc.prems(2) b1 r show ?case
    by (auto simp: set_range_Suc)
qed simp

lemma bitmap_set_multiple_bits:
  assumes "wf_bitmap b" "start + cnt \<le> bit_cnt b"
  obtains b' where "bitmap_set_multiple b start cnt v = Some b'" "wf_bitmap b'" "bit_cnt b' = bit_cnt b"
    "bitmap_bits b' = set_range (bitmap_bits b) start cnt v"
proof -
  have "(start + cnt) mod SIZE_WRAP = start + cnt" using assms by (simp add: wf_bitmap_def)
  with assms set_multiple_loop_bits [OF assms(1), of start 0 cnt v] that show thesis
    by (auto simp: bitmap_set_multiple_def)
qed

text \<open>
  A sum \<^verbatim>\<open>start + cnt\<close> that wraps around passes the second assertion; the loop then reaches the
  end of the bitmap and stops at the assertion of \<^verbatim>\<open>bitmap_set\<close>.
\<close>

lemma set_multiple_loop_overrun:
  assumes "wf_bitmap b" "start + i \<le> bit_cnt b" "bit_cnt b < start + i + left"
  shows "set_multiple_loop b start i v left = None"
  using assms
proof (induction left arbitrary: b i)
  case (Suc left)
  have m: "(start + i) mod SIZE_WRAP = start + i" using Suc.prems by (simp add: wf_bitmap_def)
  show ?case
  proof (cases "start + i < bit_cnt b")
    case True
    then obtain b1 where b1: "bitmap_set b (start + i) v = Some b1" "wf_bitmap b1" "bit_cnt b1 = bit_cnt b"
      by (rule bitmap_set_bits [OF Suc.prems(1)])
    with Suc.IH [OF b1(2), of "i + 1"] Suc.prems True m show ?thesis by simp
  qed (simp add: m bitmap_set_out_of_range)
qed simp

lemma bitmap_set_multiple_overrun:
  assumes "wf_bitmap b" "bit_cnt b < start + cnt"
  shows "bitmap_set_multiple b start cnt v = None"
  using assms set_multiple_loop_overrun [of b start 0 cnt v]
  by (auto simp: bitmap_set_multiple_def ASSERT_def)

lemma bitmap_set_all_bits:
  assumes "wf_bitmap b"
  obtains b' where "bitmap_set_all b v = Some b'" "wf_bitmap b'" "bit_cnt b' = bit_cnt b"
    "bitmap_bits b' = replicate (bit_cnt b) v"
  using bitmap_set_multiple_bits [OF assms, of 0 "bit_cnt b" v] that
  by (auto simp: bitmap_set_all_def bitmap_size_def set_range_all [of "bitmap_bits b", simplified])

text \<open>The \<open>n\<close> bits from \<open>s\<close> on.\<close>

definition range_of :: "bool list \<Rightarrow> nat \<Rightarrow> nat \<Rightarrow> bool list" where
  "range_of xs s n = take n (drop s xs)"

lemma range_of_0 [simp]: "range_of xs s 0 = []"
  by (simp add: range_of_def)

lemma range_of_Suc: "s < length xs \<Longrightarrow> range_of xs s (Suc n) = xs ! s # range_of xs (Suc s) n"
  by (simp add: range_of_def Cons_nth_drop_Suc [symmetric])

lemma set_range_of: "s + n \<le> length xs \<Longrightarrow> set (range_of xs s n) = {xs ! k | k. s \<le> k \<and> k < s + n}"
proof (induction n arbitrary: s)
  case (Suc n)
  then have "set (range_of xs s (Suc n)) = insert (xs ! s) {xs ! k | k. Suc s \<le> k \<and> k < Suc s + n}"
    by (simp add: range_of_Suc)
  also have "\<dots> = {xs ! k | k. s \<le> k \<and> k < s + Suc n}"
  proof -
    have "{k. s \<le> k \<and> k < s + Suc n} = insert s {k. Suc s \<le> k \<and> k < Suc s + n}" by auto
    then have "(!) xs ` {k. s \<le> k \<and> k < s + Suc n} = insert (xs ! s) ((!) xs ` {k. Suc s \<le> k \<and> k < Suc s + n})"
      by (simp only: image_insert)
    then show ?thesis by (simp only: image_Collect)
  qed
  finally show ?case .
qed auto

lemma count_loop_bits:
  assumes "wf_bitmap b" "start + i + left \<le> bit_cnt b"
  shows "count_loop b start i v c left = Some (c + count_list (range_of (bitmap_bits b) (start + i) left) v)"
  using assms
proof (induction left arbitrary: i c)
  case (Suc left)
  have "start + i < bit_cnt b" "(start + i) mod SIZE_WRAP = start + i"
    using Suc.prems by (auto simp: wf_bitmap_def)
  with Suc.IH [OF Suc.prems(1), of "i + 1"] Suc.prems show ?case
    by (auto simp: bitmap_test_bits range_of_Suc)
qed simp

lemma bitmap_count_bits:
  assumes "wf_bitmap b" "start + cnt \<le> bit_cnt b"
  shows "bitmap_count b start cnt v = Some (count_list (range_of (bitmap_bits b) start cnt) v)"
  using assms count_loop_bits [of b start 0 cnt v 0] by (simp add: bitmap_count_def wf_bitmap_def)

lemma contains_loop_bits:
  assumes "wf_bitmap b" "start + i + left \<le> bit_cnt b"
  shows "contains_loop b start i v left = Some (v \<in> set (range_of (bitmap_bits b) (start + i) left))"
  using assms
proof (induction left arbitrary: i)
  case (Suc left)
  have "start + i < bit_cnt b" "(start + i) mod SIZE_WRAP = start + i"
    using Suc.prems by (auto simp: wf_bitmap_def)
  with Suc.IH [OF Suc.prems(1), of "i + 1"] Suc.prems show ?case
    by (auto simp: bitmap_test_bits range_of_Suc)
qed simp

lemma bitmap_contains_bits:
  assumes "wf_bitmap b" "start + cnt \<le> bit_cnt b"
  shows "bitmap_contains b start cnt v = Some (v \<in> set (range_of (bitmap_bits b) start cnt))"
  using assms contains_loop_bits [of b start 0 cnt v] by (simp add: bitmap_contains_def wf_bitmap_def)

text \<open>\<open>group_at xs s n v\<close>: \<open>n\<close> consecutive entries equal to \<open>v\<close> start at \<open>s\<close>.\<close>

definition group_at :: "bool list \<Rightarrow> nat \<Rightarrow> nat \<Rightarrow> bool \<Rightarrow> bool" where
  "group_at xs s n v \<longleftrightarrow> s + n \<le> length xs \<and> (\<forall>k<n. xs ! (s + k) = v)"

lemma group_at_contains:
  assumes "wf_bitmap b" "s + n \<le> bit_cnt b"
  shows "bitmap_contains b s n (\<not> v) = Some (\<not> group_at (bitmap_bits b) s n v)"
proof -
  have "(\<not> v) \<in> set (range_of (bitmap_bits b) s n) \<longleftrightarrow> (\<exists>k. s \<le> k \<and> k < s + n \<and> bitmap_bits b ! k = (\<not> v))"
    using assms by (auto simp: set_range_of)
  also have "\<dots> \<longleftrightarrow> (\<exists>k<n. bitmap_bits b ! (s + k) \<noteq> v)"
    by (auto simp: le_iff_add)
  finally show ?thesis using assms by (simp add: bitmap_contains_bits group_at_def)
qed

text \<open>The index of the first group at or after \<open>start\<close>.\<close>

definition first_group :: "bool list \<Rightarrow> nat \<Rightarrow> nat \<Rightarrow> bool \<Rightarrow> nat option" where
  "first_group xs start n v = find (\<lambda>i. group_at xs i n v) [start..<length xs + 1 - n]"

lemma first_group_Some_iff:
  "first_group xs start n v = Some i \<longleftrightarrow>
   start \<le> i \<and> group_at xs i n v \<and> (\<forall>j. start \<le> j \<and> j < i \<longrightarrow> \<not> group_at xs j n v)"
proof -
  have lt: "i < length xs + 1 - n" if "group_at xs i n v" for i
    using that by (auto simp: group_at_def)
  have "first_group xs start n v = Some i \<longleftrightarrow>
    (\<exists>k<length xs + 1 - n - start. group_at xs (start + k) n v \<and> i = start + k \<and>
       (\<forall>j<k. \<not> group_at xs (start + j) n v))"
    by (auto simp: first_group_def find_Some_iff)
  also have "\<dots> \<longleftrightarrow> start \<le> i \<and> group_at xs i n v \<and> (\<forall>j. start \<le> j \<and> j < i \<longrightarrow> \<not> group_at xs j n v)"
    using lt [of i] by (auto simp: le_iff_add less_diff_conv add.commute add.left_commute)
  finally show ?thesis .
qed

lemma first_group_None_iff:
  "first_group xs start n v = None \<longleftrightarrow> (\<forall>i. start \<le> i \<longrightarrow> \<not> group_at xs i n v)"
  by (auto simp: first_group_def find_None_iff group_at_def)

lemma scan_loop_bits:
  assumes "wf_bitmap b" "cnt \<le> bit_cnt b"
  shows "scan_loop b cnt v i (bit_cnt b - cnt + 1 - i) =
    Some (case first_group (bitmap_bits b) i cnt v of None \<Rightarrow> BITMAP_ERROR | Some j \<Rightarrow> j)"
  using assms
proof (induction "bit_cnt b - cnt + 1 - i" arbitrary: i)
  case 0
  then have "first_group (bitmap_bits b) i cnt v = None" by (simp add: first_group_def)
  with 0 show ?case by simp
next
  case (Suc left)
  from Suc.hyps(2) Suc.prems(2) have i: "i + cnt \<le> bit_cnt b" "left = bit_cnt b - cnt + 1 - (i + 1)" by linarith+
  have "first_group (bitmap_bits b) i cnt v =
      (if group_at (bitmap_bits b) i cnt v then Some i else first_group (bitmap_bits b) (i + 1) cnt v)"
    using i(1) by (simp add: first_group_def upt_rec [of i] less_diff_conv)
  moreover have "bit_cnt b - cnt + 1 - i = Suc (bit_cnt b - cnt + 1 - (i + 1))" using Suc.hyps(2) i(2) by simp
  ultimately show ?case
    using Suc.hyps(1) [OF i(2) Suc.prems] Suc.prems(1) i by (simp add: group_at_contains)
qed

lemma bitmap_scan_bits:
  assumes "wf_bitmap b" "start \<le> bit_cnt b"
  shows "bitmap_scan b start cnt v =
    Some (case first_group (bitmap_bits b) start cnt v of None \<Rightarrow> BITMAP_ERROR | Some j \<Rightarrow> j)"
proof (cases "cnt \<le> bit_cnt b")
  case True
  then show ?thesis using assms scan_loop_bits [OF assms(1) True, of v start] by (simp add: bitmap_scan_def)
next
  case False
  then have "first_group (bitmap_bits b) start cnt v = None"
    by (auto simp: first_group_None_iff group_at_def)
  with False assms show ?thesis by (simp add: bitmap_scan_def)
qed

lemma group_at_not_error:
  "wf_bitmap b \<Longrightarrow> 0 < cnt \<Longrightarrow> group_at (bitmap_bits b) i cnt v \<Longrightarrow> i \<noteq> BITMAP_ERROR"
  by (auto simp: group_at_def wf_bitmap_def BITMAP_ERROR_def)

lemma bitmap_scan_and_flip_Some:
  assumes wf: "wf_bitmap b" and start: "start \<le> bit_cnt b" and cnt: "0 < cnt"
    and fg: "first_group (bitmap_bits b) start cnt v = Some i"
  obtains b' where "bitmap_scan_and_flip b start cnt v = Some (i, b')" "wf_bitmap b'" "bit_cnt b' = bit_cnt b"
    "bitmap_bits b' = set_range (bitmap_bits b) i cnt (\<not> v)" "i + cnt \<le> bit_cnt b"
proof -
  from fg have g: "group_at (bitmap_bits b) i cnt v" by (simp add: first_group_Some_iff)
  then have r: "i + cnt \<le> bit_cnt b" by (simp add: group_at_def)
  obtain b' where "bitmap_set_multiple b i cnt (\<not> v) = Some b'" "wf_bitmap b'" "bit_cnt b' = bit_cnt b"
    "bitmap_bits b' = set_range (bitmap_bits b) i cnt (\<not> v)"
    by (rule bitmap_set_multiple_bits [OF wf r])
  with group_at_not_error [OF wf cnt g] bitmap_scan_bits [OF wf start, of cnt v] fg r show thesis
    by (intro that) (auto simp: bitmap_scan_and_flip_def)
qed

lemma bitmap_scan_and_flip_None:
  assumes "wf_bitmap b" "start \<le> bit_cnt b" "first_group (bitmap_bits b) start cnt v = None"
  shows "bitmap_scan_and_flip b start cnt v = Some (BITMAP_ERROR, b)"
  using assms by (simp add: bitmap_scan_and_flip_def bitmap_scan_bits)

section \<open>Created bitmaps\<close>

lemma elem_cnt_enough:
  assumes "n + 31 < SIZE_WRAP"
  shows "n \<le> ELEM_BITS * elem_cnt n"
  using assms DIV_ROUND_UP_ge [of ELEM_BITS n]
  by (simp add: elem_cnt_def ELEM_BITS_def DIV_ROUND_UP_def mult.commute)

lemma bitmap_create_bits:
  assumes n: "n + 31 < SIZE_WRAP" and mem: "alloc 8" "n = 0 \<or> alloc (byte_cnt n)"
  obtains b where "bitmap_create alloc junk n = Some (Some b)" "wf_bitmap b" "bitmap_bits b = replicate n False"
proof -
  let ?got = "byte_cnt n \<noteq> 0 \<and> alloc (byte_cnt n)"
  let ?b = "\<lparr>bit_cnt = n, bits = (if ?got then map junk [0..<elem_cnt n] else [])\<rparr>"
  have pos: "byte_cnt n \<noteq> 0" if "n \<noteq> 0"
    using that elem_cnt_enough [OF n] by (cases "elem_cnt n") (auto simp: byte_cnt_def)
  then have ok: "?got \<or> n = 0" using mem by auto
  then have wf: "wf_bitmap ?b" using elem_cnt_enough [OF n] n by (auto simp: wf_bitmap_def)
  obtain b where "bitmap_set_all ?b False = Some b" "wf_bitmap b" "bitmap_bits b = replicate n False"
    by (rule bitmap_set_all_bits [OF wf]) auto
  with ok mem(1) show thesis by (intro that) (auto simp: bitmap_create_def Let_def)
qed

lemma bitmap_create_in_buf_bits:
  assumes n: "n + 31 < SIZE_WRAP" and size: "bitmap_buf_size n \<le> block_size"
  obtains b where "bitmap_create_in_buf block n block_size = Some b" "wf_bitmap b"
    "bitmap_bits b = replicate n False"
proof -
  let ?b = "\<lparr>bit_cnt = n, bits = map block [0..<(block_size - 8) div 4]\<rparr>"
  have "elem_cnt n \<le> (block_size - 8) div 4" using size by (simp add: bitmap_buf_size_def byte_cnt_def)
  with elem_cnt_enough [OF n] have "n \<le> ELEM_BITS * ((block_size - 8) div 4)"
    by (meson le_trans mult_le_mono2)
  then have wf: "wf_bitmap ?b" using n by (simp add: wf_bitmap_def)
  obtain b where "bitmap_set_all ?b False = Some b" "wf_bitmap b" "bitmap_bits b = replicate n False"
    by (rule bitmap_set_all_bits [OF wf]) auto
  with size show thesis by (intro that) (auto simp: bitmap_create_in_buf_def)
qed

end
