(* ===== verification/Block_Device.thy ===== *)
theory Block_Device
  imports Pintos_Prelude
begin

text \<open>
  \<^verbatim>\<open>devices/block.c\<close> and \<^verbatim>\<open>devices/partition.c\<close>: the registry of block devices, sector input and
  output with its bounds checks, and the partition driver that forwards to the device it is on.

  A \<^verbatim>\<open>struct block\<close> lives at an address of \<open>blocks\<close>; \<^verbatim>\<open>ops\<close> and \<^verbatim>\<open>aux\<close> together are a \<open>driver\<close>:
  a disk of the ATA driver (whose medium is the array of sectors that the driver promises to read
  and write) or a partition.  \<^verbatim>\<open>block_read\<close> and \<^verbatim>\<open>partition_read\<close> call each other; the depth of that
  recursion is a parameter of the \<open>_n\<close> functions, and one more than the number of registered
  devices in \<open>block_read\<close> and \<open>block_write\<close>.
\<close>

section \<open>Devices\<close>

definition BLOCK_SECTOR_SIZE :: nat where
  "BLOCK_SECTOR_SIZE = 512"

text \<open>\<^verbatim>\<open>block_sector_t\<close> is 32 bits wide.\<close>

definition SECTOR_WRAP :: nat where
  "SECTOR_WRAP = 2 ^ 32"

datatype block_type = BLOCK_KERNEL | BLOCK_FILESYS | BLOCK_SCRATCH | BLOCK_SWAP | BLOCK_RAW | BLOCK_FOREIGN

text \<open>The types below \<^verbatim>\<open>BLOCK_ROLE_CNT\<close>.\<close>

definition is_role :: "block_type \<Rightarrow> bool" where
  "is_role t \<longleftrightarrow> t \<in> {BLOCK_KERNEL, BLOCK_FILESYS, BLOCK_SCRATCH, BLOCK_SWAP}"

record partition =
  part_block :: addr
  part_start :: nat

datatype driver = Disk nat | Partition partition

record block =
  block_nm :: string
  btype :: block_type
  bsize :: nat
  ops :: driver
  read_cnt :: nat
  write_cnt :: nat

record block_layer =
  all_blocks :: "addr list"
  blocks :: "addr \<Rightarrow> block option"
  block_by_role :: "block_type \<Rightarrow> addr"
  medium :: "nat \<Rightarrow> nat \<Rightarrow> byte list"

definition block_type_name :: "block_type \<Rightarrow> string" where
  "block_type_name t = (case t of
     BLOCK_KERNEL \<Rightarrow> ''kernel'' | BLOCK_FILESYS \<Rightarrow> ''filesys'' | BLOCK_SCRATCH \<Rightarrow> ''scratch''
   | BLOCK_SWAP \<Rightarrow> ''swap'' | BLOCK_RAW \<Rightarrow> ''raw'' | BLOCK_FOREIGN \<Rightarrow> ''foreign'')"

definition block_get_role :: "block_layer \<Rightarrow> block_type \<Rightarrow> addr option" where
  "block_get_role L role = do { ASSERT (is_role role); Some (block_by_role L role) }"

definition block_set_role :: "block_layer \<Rightarrow> block_type \<Rightarrow> addr \<Rightarrow> block_layer option" where
  "block_set_role L role b = do {
     ASSERT (is_role role);
     Some (L\<lparr>block_by_role := (block_by_role L)(role := b)\<rparr>) }"

definition block_first :: "block_layer \<Rightarrow> addr" where
  "block_first L = (case all_blocks L of [] \<Rightarrow> NULL | b # _ \<Rightarrow> b)"

fun next_in :: "addr list \<Rightarrow> addr \<Rightarrow> addr" where
  "next_in (x # y # xs) b = (if x = b then y else next_in (y # xs) b)"
| "next_in _ b = NULL"

definition block_next :: "block_layer \<Rightarrow> addr \<Rightarrow> addr" where
  "block_next L b = next_in (all_blocks L) b"

fun get_by_name_loop :: "block_layer \<Rightarrow> string \<Rightarrow> addr list \<Rightarrow> addr option" where
  "get_by_name_loop L nm [] = Some NULL"
| "get_by_name_loop L nm (b # bs) = do {
     blk \<leftarrow> blocks L b;
     if nm = block_nm blk then Some b else get_by_name_loop L nm bs }"

definition block_get_by_name :: "block_layer \<Rightarrow> string \<Rightarrow> addr option" where
  "block_get_by_name L nm = get_by_name_loop L nm (all_blocks L)"

definition block_size :: "block_layer \<Rightarrow> addr \<Rightarrow> nat option" where
  "block_size L b = map_option bsize (blocks L b)"

text \<open>
  \<open>fresh\<close> is what \<^verbatim>\<open>malloc\<close> returns.  \<^verbatim>\<open>strlcpy\<close> into \<^verbatim>\<open>name[16]\<close> keeps 15 characters.
\<close>

definition block_register :: "block_layer \<Rightarrow> addr \<Rightarrow> string \<Rightarrow> block_type \<Rightarrow> nat \<Rightarrow> driver \<Rightarrow> (addr \<times> block_layer) option" where
  "block_register L fresh nm t sz drv =
     (if fresh = NULL then PANIC
      else let blk = \<lparr>block_nm = take 15 nm, btype = t, bsize = sz, ops = drv, read_cnt = 0, write_cnt = 0\<rparr>
           in Some (fresh, L\<lparr>all_blocks := all_blocks L @ [fresh], blocks := (blocks L)(fresh \<mapsto> blk)\<rparr>))"

section \<open>Sector input and output\<close>

definition check_sector :: "block \<Rightarrow> nat \<Rightarrow> unit option" where
  "check_sector blk sector = (if sector \<ge> bsize blk then PANIC else Some ())"

definition update_block :: "block_layer \<Rightarrow> addr \<Rightarrow> (block \<Rightarrow> block) \<Rightarrow> block_layer" where
  "update_block L b f = L\<lparr>blocks := (blocks L)(b := map_option f (blocks L b))\<rparr>"

fun block_read_n :: "nat \<Rightarrow> block_layer \<Rightarrow> addr \<Rightarrow> nat \<Rightarrow> (byte list \<times> block_layer) option" where
  "block_read_n 0 L b sector = None"
| "block_read_n (Suc n) L b sector = do {
     blk \<leftarrow> blocks L b;
     check_sector blk sector;
     (buffer, L) \<leftarrow> (case ops blk of
         Disk d \<Rightarrow> Some (medium L d sector, L)
       | Partition p \<Rightarrow> block_read_n n L (part_block p) ((part_start p + sector) mod SECTOR_WRAP));
     Some (buffer, update_block L b (\<lambda>blk. blk\<lparr>read_cnt := read_cnt blk + 1\<rparr>))
   }"

fun block_write_n :: "nat \<Rightarrow> block_layer \<Rightarrow> addr \<Rightarrow> nat \<Rightarrow> byte list \<Rightarrow> block_layer option" where
  "block_write_n 0 L b sector buffer = None"
| "block_write_n (Suc n) L b sector buffer = do {
     blk \<leftarrow> blocks L b;
     check_sector blk sector;
     ASSERT (btype blk \<noteq> BLOCK_FOREIGN);
     L \<leftarrow> (case ops blk of
         Disk d \<Rightarrow> Some (L\<lparr>medium := (medium L)(d := (medium L d)(sector := buffer))\<rparr>)
       | Partition p \<Rightarrow> block_write_n n L (part_block p) ((part_start p + sector) mod SECTOR_WRAP) buffer);
     Some (update_block L b (\<lambda>blk. blk\<lparr>write_cnt := write_cnt blk + 1\<rparr>))
   }"

definition nesting :: "block_layer \<Rightarrow> nat" where
  "nesting L = Suc (length (all_blocks L))"

definition block_read :: "block_layer \<Rightarrow> addr \<Rightarrow> nat \<Rightarrow> (byte list \<times> block_layer) option" where
  "block_read L b sector = block_read_n (nesting L) L b sector"

definition block_write :: "block_layer \<Rightarrow> addr \<Rightarrow> nat \<Rightarrow> byte list \<Rightarrow> block_layer option" where
  "block_write L b sector buffer = block_write_n (nesting L) L b sector buffer"

definition partition_read :: "block_layer \<Rightarrow> partition \<Rightarrow> nat \<Rightarrow> (byte list \<times> block_layer) option" where
  "partition_read L p sector = block_read L (part_block p) ((part_start p + sector) mod SECTOR_WRAP)"

definition partition_write :: "block_layer \<Rightarrow> partition \<Rightarrow> nat \<Rightarrow> byte list \<Rightarrow> block_layer option" where
  "partition_write L p sector buffer = block_write L (part_block p) ((part_start p + sector) mod SECTOR_WRAP) buffer"

section \<open>Where a sector of a device lies\<close>

text \<open>The disk and the sector on it that a device sector is stored in, when every device on the way
  passes its checks (\<open>w\<close> asks for the check of writes too).\<close>

fun locate :: "bool \<Rightarrow> nat \<Rightarrow> block_layer \<Rightarrow> addr \<Rightarrow> nat \<Rightarrow> (nat \<times> nat) option" where
  "locate w 0 L b sector = None"
| "locate w (Suc n) L b sector = (case blocks L b of
     None \<Rightarrow> None
   | Some blk \<Rightarrow>
       if sector < bsize blk \<and> (w \<longrightarrow> btype blk \<noteq> BLOCK_FOREIGN) then
         (case ops blk of
            Disk d \<Rightarrow> Some (d, sector)
          | Partition p \<Rightarrow> locate w n L (part_block p) ((part_start p + sector) mod SECTOR_WRAP))
       else None)"

text \<open>What input and output never change: everything but the counters and the media.\<close>

definition same_devices :: "block_layer \<Rightarrow> block_layer \<Rightarrow> bool" where
  "same_devices L L' \<longleftrightarrow> all_blocks L' = all_blocks L \<and> block_by_role L' = block_by_role L \<and>
     (\<forall>b. map_option (\<lambda>k. (block_nm k, btype k, bsize k, ops k)) (blocks L' b) =
          map_option (\<lambda>k. (block_nm k, btype k, bsize k, ops k)) (blocks L b))"

lemma same_devices_refl [simp]: "same_devices L L"
  by (simp add: same_devices_def)

lemma same_devices_trans: "same_devices L L' \<Longrightarrow> same_devices L' L'' \<Longrightarrow> same_devices L L''"
  by (simp add: same_devices_def)

lemma same_devices_update:
  assumes "\<And>k. (block_nm (f k), btype (f k), bsize (f k), ops (f k)) = (block_nm k, btype k, bsize k, ops k)"
  shows "same_devices L (update_block L b f)"
  using assms by (auto simp: same_devices_def update_block_def option.map_comp o_def cong: option.map_cong)

lemma medium_update_block [simp]: "medium (update_block L b f) = medium L"
  by (cases L) (simp add: update_block_def)

lemma same_devices_block:
  assumes "same_devices L L'" "blocks L b = Some blk"
  obtains blk' where "blocks L' b = Some blk'" "btype blk' = btype blk" "bsize blk' = bsize blk" "ops blk' = ops blk"
  using assms by (auto simp: same_devices_def map_option_eq_Some dest!: spec [of _ b])

lemma same_devices_bsize: "same_devices L L' \<Longrightarrow> block_size L' b = block_size L b"
  by (cases "blocks L b"; cases "blocks L' b") (auto simp: same_devices_def block_size_def dest!: spec [of _ b])

lemma same_devices_nesting: "same_devices L L' \<Longrightarrow> nesting L' = nesting L"
  by (simp add: same_devices_def nesting_def)

lemma same_devices_locate: "same_devices L L' \<Longrightarrow> locate w n L' b s = locate w n L b s"
proof (induction n arbitrary: b s)
  case (Suc n)
  show ?case
  proof (cases "blocks L b")
    case None
    then have "blocks L' b = None" using Suc.prems by (auto simp: same_devices_def dest!: spec [of _ b])
    with None show ?thesis by simp
  next
    case (Some blk)
    then obtain blk' where "blocks L' b = Some blk'" "btype blk' = btype blk" "bsize blk' = bsize blk" "ops blk' = ops blk"
      by (rule same_devices_block [OF Suc.prems])
    with Some Suc show ?thesis by (auto split: driver.split)
  qed
qed simp

lemma block_read_n_locate:
  assumes "locate False n L b s = Some (d, t)"
  shows "\<exists>L'. block_read_n n L b s = Some (medium L d t, L') \<and> same_devices L L' \<and> medium L' = medium L"
  using assms
proof (induction n arbitrary: b s)
  case (Suc n)
  then obtain blk where blk: "blocks L b = Some blk" "s < bsize blk"
    by (auto split: option.splits if_splits)
  show ?case
  proof (cases "ops blk")
    case (Disk k)
    with Suc.prems blk show ?thesis
      by (auto simp: check_sector_def intro!: same_devices_update)
  next
    case (Partition p)
    with Suc.prems blk have "locate False n L (part_block p) ((part_start p + s) mod SECTOR_WRAP) = Some (d, t)"
      by simp
    from Suc.IH [OF this] obtain L' where "block_read_n n L (part_block p) ((part_start p + s) mod SECTOR_WRAP) =
        Some (medium L d t, L')" "same_devices L L'" "medium L' = medium L" by blast
    with Partition blk show ?thesis
      by (auto simp: check_sector_def intro: same_devices_trans [OF _ same_devices_update])
  qed
qed simp

lemma block_write_n_locate:
  assumes "locate True n L b s = Some (d, t)"
  shows "\<exists>L'. block_write_n n L b s buf = Some L' \<and> same_devices L L' \<and>
    medium L' = (medium L)(d := (medium L d)(t := buf))"
  using assms
proof (induction n arbitrary: b s)
  case (Suc n)
  then obtain blk where blk: "blocks L b = Some blk" "s < bsize blk" "btype blk \<noteq> BLOCK_FOREIGN"
    by (auto split: option.splits if_splits)
  show ?case
  proof (cases "ops blk")
    case (Disk k)
    have "same_devices L (L\<lparr>medium := m\<rparr>)" for m by (simp add: same_devices_def)
    with Disk Suc.prems blk show ?thesis
      by (auto simp: check_sector_def fun_eq_iff intro!: same_devices_trans [OF _ same_devices_update])
  next
    case (Partition p)
    with Suc.prems blk have "locate True n L (part_block p) ((part_start p + s) mod SECTOR_WRAP) = Some (d, t)"
      by simp
    from Suc.IH [OF this] obtain L' where "block_write_n n L (part_block p) ((part_start p + s) mod SECTOR_WRAP) buf =
        Some L'" "same_devices L L'" "medium L' = (medium L)(d := (medium L d)(t := buf))" by blast
    with Partition blk show ?thesis
      by (auto simp: check_sector_def fun_eq_iff intro: same_devices_trans [OF _ same_devices_update])
  qed
qed simp

lemma locate_write_read: "locate True n L b s = Some r \<Longrightarrow> locate False n L b s = Some r"
  by (induction n arbitrary: b s) (auto split: option.splits if_splits driver.splits)

text \<open>Access past the end of a device halts the kernel.\<close>

lemma block_read_past_end: "blocks L b = Some blk \<Longrightarrow> bsize blk \<le> s \<Longrightarrow> block_read L b s = None"
  by (simp add: block_read_def nesting_def check_sector_def)

lemma block_write_past_end: "blocks L b = Some blk \<Longrightarrow> bsize blk \<le> s \<Longrightarrow> block_write L b s buf = None"
  by (simp add: block_write_def nesting_def check_sector_def)

section \<open>The sectors of one device\<close>

definition sector_of :: "block_layer \<Rightarrow> addr \<Rightarrow> nat \<Rightarrow> byte list" where
  "sector_of L b s = (case locate True (nesting L) L b s of Some (d, t) \<Rightarrow> medium L d t | None \<Rightarrow> [])"

text \<open>All sectors of the device can be read and written, are apart from each other and are 512 bytes.\<close>

definition device_ok :: "block_layer \<Rightarrow> addr \<Rightarrow> nat \<Rightarrow> bool" where
  "device_ok L b sz \<longleftrightarrow> block_size L b = Some sz \<and>
     (\<forall>s< sz. locate True (nesting L) L b s \<noteq> None \<and> length (sector_of L b s) = BLOCK_SECTOR_SIZE) \<and>
     inj_on (locate True (nesting L) L b) {..< sz}"

lemma device_ok_locate:
  assumes "device_ok L b sz" "s < sz"
  obtains d t where "locate True (nesting L) L b s = Some (d, t)" "sector_of L b s = medium L d t"
  using assms by (fastforce simp: device_ok_def sector_of_def)

lemma sector_of_past_end: "device_ok L b sz \<Longrightarrow> sz \<le> s \<Longrightarrow> sector_of L b s = []"
  by (auto simp: device_ok_def sector_of_def block_size_def nesting_def)

lemma same_devices_sector_of:
  "same_devices L L' \<Longrightarrow> medium L' = medium L \<Longrightarrow> sector_of L' b s = sector_of L b s"
  by (auto simp: sector_of_def same_devices_locate same_devices_nesting split: option.split)

lemma same_devices_ok:
  assumes "same_devices L L'" "device_ok L b sz" "\<And>s. s < sz \<Longrightarrow> length (sector_of L' b s) = BLOCK_SECTOR_SIZE"
  shows "device_ok L' b sz"
  using assms same_devices_bsize [OF assms(1)] same_devices_locate [OF assms(1)] same_devices_nesting [OF assms(1)]
  by (auto simp: device_ok_def inj_on_def)

lemma block_read_sector:
  assumes ok: "device_ok L b sz" and s: "s < sz"
  obtains L' where "block_read L b s = Some (sector_of L b s, L')" "device_ok L' b sz"
    "sector_of L' b = sector_of L b" "same_devices L L'"
proof -
  obtain d t where loc: "locate True (nesting L) L b s = Some (d, t)" "sector_of L b s = medium L d t"
    by (rule device_ok_locate [OF ok s])
  from block_read_n_locate [OF locate_write_read [OF loc(1)]] obtain L' where
    L': "block_read L b s = Some (medium L d t, L')" "same_devices L L'" "medium L' = medium L"
    by (auto simp: block_read_def)
  then have same: "sector_of L' b = sector_of L b" by (intro ext same_devices_sector_of) auto
  show thesis
  proof (rule that)
    show "block_read L b s = Some (sector_of L b s, L')" using L' loc by simp
    show "device_ok L' b sz"
      by (rule same_devices_ok [OF L'(2) ok]) (use ok same in \<open>auto simp: device_ok_def\<close>)
  qed (use L' same in auto)
qed

lemma block_write_sector:
  assumes ok: "device_ok L b sz" and s: "s < sz" and len: "length buf = BLOCK_SECTOR_SIZE"
  obtains L' where "block_write L b s buf = Some L'" "device_ok L' b sz"
    "\<And>s'. s' < sz \<Longrightarrow> sector_of L' b s' = (if s' = s then buf else sector_of L b s')" "same_devices L L'"
proof -
  obtain d t where loc: "locate True (nesting L) L b s = Some (d, t)" "sector_of L b s = medium L d t"
    by (rule device_ok_locate [OF ok s])
  from block_write_n_locate [OF loc(1)] obtain L' where
    L': "block_write L b s buf = Some L'" "same_devices L L'" "medium L' = (medium L)(d := (medium L d)(t := buf))"
    by (auto simp: block_write_def)
  have sec: "sector_of L' b s' = (if s' = s then buf else sector_of L b s')" if s': "s' < sz" for s'
  proof -
    obtain d' t' where loc': "locate True (nesting L) L b s' = Some (d', t')" "sector_of L b s' = medium L d' t'"
      by (rule device_ok_locate [OF ok s'])
    have "(d', t') = (d, t) \<longleftrightarrow> s' = s"
      using ok s s' loc loc' by (auto simp: device_ok_def inj_on_def)
    then show ?thesis
      using loc' L' by (auto simp: sector_of_def same_devices_locate [OF L'(2)] same_devices_nesting [OF L'(2)])
  qed
  show thesis
  proof (rule that)
    show "device_ok L' b sz"
      by (rule same_devices_ok [OF L'(2) ok]) (use ok sec len in \<open>auto simp: device_ok_def\<close>)
  qed (use L' sec in auto)
qed

end
