(* ===== verification/Buffer_Cache.thy ===== *)
theory Buffer_Cache
  imports Block_Device
begin

text \<open>
  \<^verbatim>\<open>filesys/cache.c\<close>: the buffer cache of 64 sectors with clock replacement and write-back.

  A cache entry pointer is its index in \<open>cache\<close>; \<open>clock\<close> is the static variable of
  \<^verbatim>\<open>cache_replace_find\<close>; \<open>cache_lock\<close> says whether the current thread holds the lock (the lock
  serialises the operations, so that each runs as one step).  \<open>view\<close> is the abstraction: the
  content of a sector as the file system sees it, in the cache or on the device.
\<close>

section \<open>State and operations\<close>

definition CACHE_SIZE :: nat where
  "CACHE_SIZE = 64"

record cache_entry =
  valid :: bool
  disk_sector :: nat
  buffer :: "byte list"
  dirty :: bool
  access :: bool

record cache_state =
  cache :: "cache_entry list"
  clock :: nat
  cache_lock :: bool
  device :: block_layer
  fs_device :: addr

definition acquire :: "cache_state \<Rightarrow> cache_state option" where
  "acquire c = do { ASSERT (\<not> cache_lock c); Some (c\<lparr>cache_lock := True\<rparr>) }"

definition release :: "cache_state \<Rightarrow> cache_state option" where
  "release c = do { ASSERT (cache_lock c); Some (c\<lparr>cache_lock := False\<rparr>) }"

definition put_entry :: "cache_state \<Rightarrow> nat \<Rightarrow> cache_entry \<Rightarrow> cache_state" where
  "put_entry c i e = c\<lparr>cache := (cache c)[i := e]\<rparr>"

definition cache_flush :: "cache_state \<Rightarrow> nat \<Rightarrow> cache_state option" where
  "cache_flush c ce = do {
     ASSERT (cache_lock c);
     ASSERT (ce < length (cache c) \<and> valid (cache c ! ce));
     let e = cache c ! ce;
     if dirty e then do {
       L \<leftarrow> block_write (device c) (fs_device c) (disk_sector e) (buffer e);
       Some (put_entry (c\<lparr>device := L\<rparr>) ce (e\<lparr>dirty := False\<rparr>))
     } else Some c
   }"

fun find_loop :: "cache_entry list \<Rightarrow> nat \<Rightarrow> nat \<Rightarrow> nat option" where
  "find_loop [] sector i = None"
| "find_loop (e # es) sector i =
     (if \<not> valid e then find_loop es sector (i + 1)
      else if disk_sector e = sector then Some i
      else find_loop es sector (i + 1))"

text \<open>\<open>None\<close> is the null pointer.\<close>

definition cache_find :: "cache_state \<Rightarrow> nat \<Rightarrow> nat option" where
  "cache_find c sector = find_loop (cache c) sector 0"

text \<open>The \<^verbatim>\<open>while (true)\<close> loop of \<^verbatim>\<open>cache_replace_find\<close>; the flag tells a return from inside the
  loop (an unused entry) from the \<^verbatim>\<open>break\<close>.\<close>

function replace_loop :: "cache_entry list \<Rightarrow> nat \<Rightarrow> (cache_entry list \<times> nat \<times> bool) option" where
  "replace_loop es k =
     (if k < length es then
        if \<not> valid (es ! k) then Some (es, k, True)
        else if access (es ! k) then replace_loop (es[k := (es ! k)\<lparr>access := False\<rparr>]) ((k + 1) mod CACHE_SIZE)
        else Some (es, k, False)
      else None)"
  by pat_completeness auto
termination
  by (relation "measure (\<lambda>(es, k). length (filter access es))")
    (auto intro: length_filter_list_update_less)

declare replace_loop.simps [simp del]

definition cache_replace_find :: "cache_state \<Rightarrow> (nat \<times> cache_state) option" where
  "cache_replace_find c = do {
     ASSERT (cache_lock c);
     (es, k, unused) \<leftarrow> replace_loop (cache c) (clock c);
     let c = c\<lparr>cache := es, clock := k\<rparr>;
     if unused then Some (k, c)
     else do {
       c \<leftarrow> (if dirty (cache c ! k) then cache_flush c k else Some c);
       Some (k, put_entry c k ((cache c ! k)\<lparr>valid := False\<rparr>))
     }
   }"

definition cache_init :: "cache_state \<Rightarrow> cache_state" where
  "cache_init c = c\<lparr>cache_lock := False, cache := map (\<lambda>e. e\<lparr>valid := False\<rparr>) (cache c)\<rparr>"

fun close_loop :: "cache_state \<Rightarrow> nat \<Rightarrow> nat \<Rightarrow> cache_state option" where
  "close_loop c i 0 = Some c"
| "close_loop c i (Suc left) =
     (if i < length (cache c) then
        if \<not> valid (cache c ! i) then close_loop c (i + 1) left
        else do { c \<leftarrow> cache_flush c i; close_loop c (i + 1) left }
      else None)"

definition cache_close :: "cache_state \<Rightarrow> cache_state option" where
  "cache_close c = do {
     c \<leftarrow> acquire c;
     c \<leftarrow> close_loop c 0 CACHE_SIZE;
     release c
   }"

text \<open>The common first half of \<^verbatim>\<open>cache_read\<close> and \<^verbatim>\<open>cache_write\<close>: find the entry or load it.\<close>

definition cache_fetch :: "cache_state \<Rightarrow> nat \<Rightarrow> (nat \<times> cache_state) option" where
  "cache_fetch c sector = (case cache_find c sector of
     Some i \<Rightarrow> Some (i, c)
   | None \<Rightarrow> do {
       (i, c) \<leftarrow> cache_replace_find c;
       ASSERT (\<not> valid (cache c ! i));
       let c = put_entry c i ((cache c ! i)\<lparr>valid := True, disk_sector := sector, dirty := False\<rparr>);
       (buf, L) \<leftarrow> block_read (device c) (fs_device c) sector;
       Some (i, put_entry (c\<lparr>device := L\<rparr>) i ((cache c ! i)\<lparr>buffer := buf\<rparr>))
     })"

definition cache_read :: "cache_state \<Rightarrow> nat \<Rightarrow> (byte list \<times> cache_state) option" where
  "cache_read c sector = do {
     c \<leftarrow> acquire c;
     (i, c) \<leftarrow> cache_fetch c sector;
     let c = put_entry c i ((cache c ! i)\<lparr>access := True\<rparr>);
     let target = buffer (cache c ! i);
     c \<leftarrow> release c;
     Some (target, c)
   }"

definition cache_write :: "cache_state \<Rightarrow> nat \<Rightarrow> byte list \<Rightarrow> cache_state option" where
  "cache_write c sector source = do {
     c \<leftarrow> acquire c;
     (i, c) \<leftarrow> cache_fetch c sector;
     let c = put_entry c i ((cache c ! i)\<lparr>access := True, dirty := True, buffer := take BLOCK_SECTOR_SIZE source\<rparr>);
     release c
   }"

section \<open>Invariant and abstraction\<close>

definition cached :: "cache_state \<Rightarrow> nat \<Rightarrow> nat \<Rightarrow> bool" where
  "cached c i s \<longleftrightarrow> i < length (cache c) \<and> valid (cache c ! i) \<and> disk_sector (cache c ! i) = s"

definition stored :: "cache_state \<Rightarrow> nat \<Rightarrow> byte list" where
  "stored c s = sector_of (device c) (fs_device c) s"

definition view :: "cache_state \<Rightarrow> nat \<Rightarrow> byte list" where
  "view c s = (case cache_find c s of Some i \<Rightarrow> buffer (cache c ! i) | None \<Rightarrow> stored c s)"

definition cache_inv :: "nat \<Rightarrow> cache_state \<Rightarrow> bool" where
  "cache_inv sz c \<longleftrightarrow>
     length (cache c) = CACHE_SIZE \<and> clock c < CACHE_SIZE \<and>
     device_ok (device c) (fs_device c) sz \<and>
     (\<forall>i s. cached c i s \<longrightarrow> s < sz \<and> length (buffer (cache c ! i)) = BLOCK_SECTOR_SIZE \<and>
        (\<not> dirty (cache c ! i) \<longrightarrow> buffer (cache c ! i) = stored c s)) \<and>
     (\<forall>i j s. cached c i s \<longrightarrow> cached c j s \<longrightarrow> i = j)"

lemma find_loop_Some:
  "find_loop es s k = Some i \<Longrightarrow> \<exists>j<length es. i = k + j \<and> valid (es ! j) \<and> disk_sector (es ! j) = s"
proof (induction es s k rule: find_loop.induct)
  case (2 e es s k)
  show ?case
  proof (cases "valid e \<and> disk_sector e = s")
    case True
    with "2.prems" show ?thesis by auto
  next
    case False
    with 2 obtain j where "j < length es" "i = k + 1 + j" "valid (es ! j)" "disk_sector (es ! j) = s"
      by (auto split: if_splits)
    then show ?thesis by (intro exI [of _ "Suc j"]) auto
  qed
qed simp

lemma find_loop_None: "find_loop es s k = None \<Longrightarrow> e \<in> set es \<Longrightarrow> valid e \<Longrightarrow> disk_sector e \<noteq> s"
  by (induction es s k rule: find_loop.induct) (auto split: if_splits)

lemma cache_find_Some: "cache_find c s = Some i \<Longrightarrow> cached c i s"
  using find_loop_Some [of "cache c" s 0 i] by (simp add: cache_find_def cached_def)

lemma cache_find_None: "cache_find c s = None \<Longrightarrow> \<not> cached c i s"
  using find_loop_None [of "cache c" s 0 "cache c ! i"] by (auto simp: cache_find_def cached_def)

lemma view_cached:
  assumes "cache_inv sz c" "cached c i s"
  shows "view c s = buffer (cache c ! i)"
proof (cases "cache_find c s")
  case None
  with assms show ?thesis using cache_find_None by blast
next
  case (Some j)
  with assms have "j = i" using cache_find_Some by (fastforce simp: cache_inv_def)
  with Some show ?thesis by (simp add: view_def)
qed

lemma view_uncached: "(\<And>i. \<not> cached c i s) \<Longrightarrow> view c s = stored c s"
  using cache_find_Some by (fastforce simp: view_def split: option.split)

lemma view_length:
  assumes "cache_inv sz c" "s < sz"
  shows "length (view c s) = BLOCK_SECTOR_SIZE"
proof (cases "\<exists>i. cached c i s")
  case True
  then obtain i where i: "cached c i s" by blast
  with assms show ?thesis by (simp add: view_cached [OF assms(1) i] cache_inv_def)
next
  case False
  with assms show ?thesis by (simp add: view_uncached stored_def cache_inv_def device_ok_def)
qed

text \<open>
  Two states that agree on the parts the abstraction looks at: the lock, the clock and the
  access bits do not matter.
\<close>

definition same_content :: "cache_state \<Rightarrow> cache_state \<Rightarrow> bool" where
  "same_content c c' \<longleftrightarrow> length (cache c') = length (cache c) \<and> fs_device c' = fs_device c \<and>
     device c' = device c \<and> (\<forall>i<length (cache c). cache c' ! i = (cache c ! i)\<lparr>access := access (cache c' ! i)\<rparr>)"

lemma same_content_fields:
  assumes "same_content c c'" "i < length (cache c)"
  shows "valid (cache c' ! i) = valid (cache c ! i)" "disk_sector (cache c' ! i) = disk_sector (cache c ! i)"
    "buffer (cache c' ! i) = buffer (cache c ! i)" "dirty (cache c' ! i) = dirty (cache c ! i)"
proof -
  have "cache c' ! i = (cache c ! i)\<lparr>access := access (cache c' ! i)\<rparr>"
    using assms by (simp add: same_content_def)
  from arg_cong [OF this, of valid] arg_cong [OF this, of disk_sector] arg_cong [OF this, of buffer]
    arg_cong [OF this, of dirty]
  show "valid (cache c' ! i) = valid (cache c ! i)" "disk_sector (cache c' ! i) = disk_sector (cache c ! i)"
    "buffer (cache c' ! i) = buffer (cache c ! i)" "dirty (cache c' ! i) = dirty (cache c ! i)" by simp_all
qed

lemma same_content_cached: "same_content c c' \<Longrightarrow> cached c' i s = cached c i s"
  using same_content_fields [of c c' i] by (auto simp: cached_def same_content_def)

lemma same_content_stored: "same_content c c' \<Longrightarrow> stored c' = stored c"
  by (auto simp: stored_def same_content_def)

lemma same_content_inv:
  assumes "same_content c c'" "cache_inv sz c" "clock c' < CACHE_SIZE"
  shows "cache_inv sz c'"
proof -
  have "length (cache c') = length (cache c)" "device c' = device c" "fs_device c' = fs_device c"
    using assms by (auto simp: same_content_def)
  with assms show ?thesis
    using same_content_fields [OF assms(1)] unfolding cache_inv_def same_content_cached [OF assms(1)]
      same_content_stored [OF assms(1)] by (auto simp: cached_def)
qed

lemma same_content_view:
  assumes "same_content c c'" "cache_inv sz c" "clock c' < CACHE_SIZE"
  shows "view c' s = view c s"
proof (cases "\<exists>i. cached c i s")
  case True
  then obtain i where i: "cached c i s" by blast
  then have "i < length (cache c)" "cached c' i s"
    using same_content_cached [OF assms(1)] by (auto simp: cached_def)
  then show ?thesis
    using view_cached [OF assms(2) i] view_cached [OF same_content_inv [OF assms]] same_content_fields [OF assms(1)]
    by metis
next
  case False
  then show ?thesis
    using same_content_cached [OF assms(1)] same_content_stored [OF assms(1)] by (simp add: view_uncached)
qed

section \<open>Replacement\<close>

text \<open>The clock loop returns, and changes access bits only.\<close>

lemma replace_loop_returns:
  assumes "length es = CACHE_SIZE" "k < CACHE_SIZE"
  shows "\<exists>es' k' u. replace_loop es k = Some (es', k', u) \<and> length es' = CACHE_SIZE \<and> k' < CACHE_SIZE \<and>
    u = (\<not> valid (es' ! k')) \<and> (\<forall>i<CACHE_SIZE. es' ! i = (es ! i)\<lparr>access := access (es' ! i)\<rparr>)"
  using assms
proof (induction es k rule: replace_loop.induct)
  case (1 es k)
  show ?case
  proof (cases "valid (es ! k) \<and> access (es ! k)")
    case False
    then show ?thesis using "1.prems" by (auto simp: replace_loop.simps [of es k])
  next
    case True
    let ?es = "es[k := (es ! k)\<lparr>access := False\<rparr>]"
    have "length ?es = CACHE_SIZE" "(k + 1) mod CACHE_SIZE < CACHE_SIZE"
      using "1.prems" by (auto simp: CACHE_SIZE_def)
    from "1.IH" [OF _ _ _ this] True "1.prems" obtain es' k' u where
      r: "replace_loop ?es ((k + 1) mod CACHE_SIZE) = Some (es', k', u)" "length es' = CACHE_SIZE" "k' < CACHE_SIZE"
        "u = (\<not> valid (es' ! k'))" "\<forall>i<CACHE_SIZE. es' ! i = (?es ! i)\<lparr>access := access (es' ! i)\<rparr>" by auto
    have "es' ! i = (es ! i)\<lparr>access := access (es' ! i)\<rparr>" if "i < CACHE_SIZE" for i
      using r(5) that "1.prems" by (cases "i = k") auto
    with r True "1.prems" show ?thesis by (auto simp: replace_loop.simps [of es k])
  qed
qed

lemma cache_replace_find_loop:
  assumes "cache_inv sz c"
  obtains es k u where "replace_loop (cache c) (clock c) = Some (es, k, u)"
    "same_content c (c\<lparr>cache := es, clock := k\<rparr>)" "cache_inv sz (c\<lparr>cache := es, clock := k\<rparr>)"
    "view (c\<lparr>cache := es, clock := k\<rparr>) = view c" "k < CACHE_SIZE" "u = (\<not> valid (es ! k))"
proof -
  from assms have "length (cache c) = CACHE_SIZE" "clock c < CACHE_SIZE" by (auto simp: cache_inv_def)
  from replace_loop_returns [OF this] obtain es k u where
    r: "replace_loop (cache c) (clock c) = Some (es, k, u)" "length es = CACHE_SIZE" "k < CACHE_SIZE"
      "u = (\<not> valid (es ! k))" "\<forall>i<CACHE_SIZE. es ! i = (cache c ! i)\<lparr>access := access (es ! i)\<rparr>" by blast
  have same: "same_content c (c\<lparr>cache := es, clock := k\<rparr>)"
    using r assms by (auto simp: same_content_def cache_inv_def)
  show thesis
    by (rule that [OF r(1) same])
      (use r same_content_inv [OF same assms] same_content_view [OF same assms] in \<open>auto simp: fun_eq_iff\<close>)
qed

text \<open>Writing a dirty entry back: what the device stores changes, what the file system sees does not.\<close>

lemma cached_put_entry_same_key:
  assumes "i < length (cache c)" "valid e = valid (cache c ! i)" "disk_sector e = disk_sector (cache c ! i)"
  shows "cached (put_entry c i e) j s = cached c j s"
  using assms by (cases "j = i") (auto simp: cached_def put_entry_def)

lemma cache_flush_ok:
  assumes inv: "cache_inv sz c" and lock: "cache_lock c" and i: "i < CACHE_SIZE" "valid (cache c ! i)"
  obtains c' where "cache_flush c i = Some c'" "cache_inv sz c'" "view c' = view c" "cache_lock c'"
    "\<not> dirty (cache c' ! i)" "valid (cache c' ! i)"
    "\<And>j. j < CACHE_SIZE \<Longrightarrow> j \<noteq> i \<Longrightarrow> cache c' ! j = cache c ! j" "clock c' = clock c"
    "fs_device c' = fs_device c"
proof (cases "dirty (cache c ! i)")
  case False
  with assms that [of c] show thesis by (simp add: cache_flush_def cache_inv_def)
next
  case True
  let ?e = "cache c ! i"
  have len: "i < length (cache c)" and ok: "device_ok (device c) (fs_device c) sz"
    and c_i: "cached c i (disk_sector ?e)" and lt: "disk_sector ?e < sz"
    and buf: "length (buffer ?e) = BLOCK_SECTOR_SIZE"
    using inv i unfolding cache_inv_def by (auto simp: cached_def)
  obtain L where L: "block_write (device c) (fs_device c) (disk_sector ?e) (buffer ?e) = Some L"
    "device_ok L (fs_device c) sz"
    "\<And>s. s < sz \<Longrightarrow> sector_of L (fs_device c) s = (if s = disk_sector ?e then buffer ?e else sector_of (device c) (fs_device c) s)"
    by (rule block_write_sector [OF ok lt buf]) blast
  define c' where "c' = put_entry (c\<lparr>device := L\<rparr>) i (?e\<lparr>dirty := False\<rparr>)"
  have entry: "cache c' ! j = (if j = i then ?e\<lparr>dirty := False\<rparr> else cache c ! j)" if "j < CACHE_SIZE" for j
    using that inv len by (simp add: c'_def put_entry_def nth_list_update_if cache_inv_def)
  have keys: "cached c' j s = cached c j s" for j s
    using cached_put_entry_same_key [of i "c\<lparr>device := L\<rparr>" "?e\<lparr>dirty := False\<rparr>" j s] len
    by (simp add: c'_def cached_def)
  have st: "stored c' s = (if s = disk_sector ?e then buffer ?e else stored c s)" if "s < sz" for s
    using L(3) [OF that] by (simp add: c'_def put_entry_def stored_def)
  have buf': "buffer (cache c' ! j) = buffer (cache c ! j)" if "j < CACHE_SIZE" for j
    using entry [OF that] by simp
  have uniq: "j = i" if "cached c j (disk_sector ?e)" for j
    using inv c_i that by (auto simp: cache_inv_def)
  have inv': "cache_inv sz c'"
    unfolding cache_inv_def keys
  proof (intro conjI allI impI)
    fix j s assume js: "cached c j s"
    then have j: "j < CACHE_SIZE" "s < sz" using inv by (auto simp: cache_inv_def cached_def)
    then show "s < sz" "length (buffer (cache c' ! j)) = BLOCK_SECTOR_SIZE"
      using inv js buf' by (auto simp: cache_inv_def)
    assume "\<not> dirty (cache c' ! j)"
    with js j entry [OF j(1)] uniq [of j] inv show "buffer (cache c' ! j) = stored c' s"
      by (auto simp: st buf' cache_inv_def cached_def split: if_splits)
  qed (use inv L(2) in \<open>auto simp: c'_def put_entry_def cache_inv_def\<close>)
  have "view c' s = view c s" for s
  proof (cases "\<exists>j. cached c j s")
    case True
    then obtain j where j: "cached c j s" by blast
    then have "j < CACHE_SIZE" using inv by (auto simp: cached_def cache_inv_def)
    with j show ?thesis
      using view_cached [OF inv j] view_cached [OF inv', of j s] keys buf' by simp
  next
    case False
    then have "s \<noteq> disk_sector ?e" using c_i by auto
    moreover have "stored c' s = stored c s" if "\<not> s < sz"
      using sector_of_past_end [OF ok, of s] sector_of_past_end [OF L(2), of s] that
      by (simp add: stored_def c'_def put_entry_def)
    ultimately show ?thesis using False
      by (cases "s < sz") (auto simp: view_uncached keys st)
  qed
  then have "view c' = view c" ..
  with inv' L(1) True lock len i entry show thesis
    by (intro that [of c']) (auto simp: cache_flush_def c'_def put_entry_def Let_def)
qed

text \<open>Dropping a clean entry changes nothing the file system sees.\<close>

lemma drop_clean_ok:
  assumes inv: "cache_inv sz c" and i: "i < CACHE_SIZE" and clean: "valid (cache c ! i) \<longrightarrow> \<not> dirty (cache c ! i)"
    and e: "\<not> valid e"
  defines "c' \<equiv> put_entry c i e"
  shows "cache_inv sz c'" "view c' = view c"
proof -
  have len: "length (cache c) = CACHE_SIZE" using inv by (simp add: cache_inv_def)
  have keys: "cached c' j s \<longleftrightarrow> cached c j s \<and> j \<noteq> i" for j s
    using len i e by (cases "j = i") (auto simp: cached_def c'_def put_entry_def)
  have same: "cache c' ! j = cache c ! j" if "j \<noteq> i" for j using that by (simp add: c'_def put_entry_def)
  have st: "stored c' = stored c" by (rule ext) (simp add: stored_def c'_def put_entry_def)
  show inv': "cache_inv sz c'"
    unfolding cache_inv_def keys st
    using inv same by (auto simp: c'_def put_entry_def cache_inv_def)
  show "view c' = view c"
  proof
    fix s
    consider (other) j where "cached c j s" "j \<noteq> i" | (here) "cached c i s" | (none) "\<And>j. \<not> cached c j s" by blast
    then show "view c' s = view c s"
    proof cases
      case other
      then show ?thesis using view_cached [OF inv other(1)] view_cached [OF inv', of j s] keys same by simp
    next
      case here
      then have "view c s = stored c s"
        using inv clean view_cached [OF inv here] by (auto simp: cache_inv_def cached_def)
      moreover have "\<not> cached c' j s" for j using here keys inv by (auto simp: cache_inv_def)
      ultimately show ?thesis by (simp add: view_uncached st)
    qed (simp add: view_uncached keys st)
  qed
qed

lemma cache_replace_find_ok:
  assumes inv: "cache_inv sz c" and lock: "cache_lock c"
  obtains i c' where "cache_replace_find c = Some (i, c')" "i < CACHE_SIZE" "\<not> valid (cache c' ! i)"
    "cache_inv sz c'" "view c' = view c" "cache_lock c'"
    "\<And>j s. cached c' j s \<Longrightarrow> cached c j s" "fs_device c' = fs_device c"
proof -
  obtain es k u where r: "replace_loop (cache c) (clock c) = Some (es, k, u)"
    "same_content c (c\<lparr>cache := es, clock := k\<rparr>)" "cache_inv sz (c\<lparr>cache := es, clock := k\<rparr>)"
    "view (c\<lparr>cache := es, clock := k\<rparr>) = view c" "k < CACHE_SIZE" "u = (\<not> valid (es ! k))"
    by (rule cache_replace_find_loop [OF inv])
  let ?c = "c\<lparr>cache := es, clock := k\<rparr>"
  have keys: "cached ?c j s = cached c j s" for j s by (rule same_content_cached [OF r(2)])
  show thesis
  proof (cases u)
    case True
    then show thesis
      using r lock keys by (intro that [of k ?c]) (auto simp: cache_replace_find_def)
  next
    case False
    then have v: "valid (cache ?c ! k)" using r(6) by simp
    obtain c1 where c1: "cache_flush ?c k = Some c1" "cache_inv sz c1" "view c1 = view ?c" "cache_lock c1"
      "\<not> dirty (cache c1 ! k)" "valid (cache c1 ! k)"
      "\<And>j. j < CACHE_SIZE \<Longrightarrow> j \<noteq> k \<Longrightarrow> cache c1 ! j = cache ?c ! j" "fs_device c1 = fs_device ?c"
      by (rule cache_flush_ok [OF r(3) _ r(5) v]) (use lock in auto)
    have "\<exists>c2. (if dirty (cache ?c ! k) then cache_flush ?c k else Some ?c) = Some c2 \<and> cache_inv sz c2 \<and>
        view c2 = view c \<and> cache_lock c2 \<and> \<not> dirty (cache c2 ! k) \<and>
        (\<forall>j<CACHE_SIZE. j \<noteq> k \<longrightarrow> cache c2 ! j = cache ?c ! j) \<and> fs_device c2 = fs_device c"
      using c1 r lock by auto
    then obtain c2 where c2: "(if dirty (cache ?c ! k) then cache_flush ?c k else Some ?c) = Some c2" "cache_inv sz c2"
        "view c2 = view c" "cache_lock c2" "\<not> dirty (cache c2 ! k)"
        "\<forall>j<CACHE_SIZE. j \<noteq> k \<longrightarrow> cache c2 ! j = cache ?c ! j" "fs_device c2 = fs_device c" by blast
    let ?e = "(cache c2 ! k)\<lparr>valid := False\<rparr>"
    have len: "length (cache c2) = CACHE_SIZE" using c2(2) by (simp add: cache_inv_def)
    have drop: "cache_inv sz (put_entry c2 k ?e)" "view (put_entry c2 k ?e) = view c2"
      using drop_clean_ok [OF c2(2) r(5)] c2(5) by auto
    have keys': "cached c j s" if "cached (put_entry c2 k ?e) j s" for j s
    proof -
      from that len have "j < CACHE_SIZE" "j \<noteq> k" by (auto simp: cached_def put_entry_def nth_list_update)
      with that c2(6) r(3) keys [of j s] show ?thesis by (auto simp: cached_def put_entry_def cache_inv_def)
    qed
    show thesis
      by (rule that [of k "put_entry c2 k ?e"])
        (use r lock False c2 drop len keys' in \<open>auto simp: cache_replace_find_def put_entry_def Let_def split: prod.split\<close>)
  qed
qed

section \<open>Reading and writing\<close>

text \<open>Filling an unused entry with a sector that no other entry holds.\<close>

lemma fill_entry_ok:
  assumes inv: "cache_inv sz c" and i: "i < CACHE_SIZE" "\<not> valid (cache c ! i)"
    and s: "s < sz" "\<And>j. \<not> cached c j s"
    and e: "valid e" "disk_sector e = s" "buffer e = stored c s"
    and c': "cache c' = (cache c)[i := e]" "fs_device c' = fs_device c" "clock c' = clock c"
      "device_ok (device c') (fs_device c) sz" "stored c' = stored c"
  shows "cache_inv sz c'" "view c' = view c" "cached c' i s"
proof -
  have len: "length (cache c) = CACHE_SIZE" using inv by (simp add: cache_inv_def)
  have keys: "cached c' j t \<longleftrightarrow> (if j = i then t = s else cached c j t)" for j t
    using len i e c' by (auto simp: cached_def nth_list_update_if)
  have entry: "cache c' ! j = (if j = i then e else cache c ! j)" if "j < CACHE_SIZE" for j
    using that len c' by (simp add: nth_list_update_if)
  have bufs: "length (stored c s) = BLOCK_SECTOR_SIZE"
    using inv s by (simp add: cache_inv_def device_ok_def stored_def)
  have lt: "j < CACHE_SIZE" if "cached c' j t" for j t using that len c' by (simp add: cached_def)
  show inv': "cache_inv sz c'"
    unfolding cache_inv_def
  proof (intro conjI allI impI)
    fix j t assume jt: "cached c' j t"
    from jt lt [OF jt] inv s keys show "t < sz" by (auto simp: cache_inv_def split: if_splits)
    from jt inv e keys bufs entry [OF lt [OF jt]] show "length (buffer (cache c' ! j)) = BLOCK_SECTOR_SIZE"
      by (auto simp: cache_inv_def split: if_splits)
    assume "\<not> dirty (cache c' ! j)"
    with jt inv e keys c' entry [OF lt [OF jt]] show "buffer (cache c' ! j) = stored c' t"
      by (auto simp: cache_inv_def split: if_splits)
  next
    fix j k t assume "cached c' j t" "cached c' k t"
    then show "j = k" using inv s keys by (auto simp: cache_inv_def split: if_splits)
  qed (use inv c' in \<open>auto simp: cache_inv_def\<close>)
  show i': "cached c' i s" by (simp add: keys)
  show "view c' = view c"
  proof
    fix t
    show "view c' t = view c t"
    proof (cases "t = s")
      case True
      then show ?thesis
        using view_cached [OF inv' i'] entry [OF i(1)] e view_uncached [OF s(2)] by simp
    next
      case False
      show ?thesis
      proof (cases "\<exists>j. cached c j t")
        case True
        then obtain j where j: "cached c j t" by blast
        then have "j < CACHE_SIZE" "j \<noteq> i" using len i by (auto simp: cached_def)
        then show ?thesis using view_cached [OF inv j] view_cached [OF inv', of j t] j keys entry by simp
      next
        case no: False
        then have "\<not> cached c' j t" for j using False keys by auto
        with no show ?thesis using c' by (simp add: view_uncached)
      qed
    qed
  qed
qed

lemma cache_fetch_ok:
  assumes inv: "cache_inv sz c" and lock: "cache_lock c" and s: "s < sz"
  obtains i c' where "cache_fetch c s = Some (i, c')" "cache_inv sz c'" "view c' = view c" "cached c' i s"
    "cache_lock c'" "fs_device c' = fs_device c"
proof (cases "cache_find c s")
  case (Some i)
  with assms show thesis by (intro that [of i c]) (auto simp: cache_fetch_def cache_find_Some)
next
  case None
  obtain i c1 where c1: "cache_replace_find c = Some (i, c1)" "i < CACHE_SIZE" "\<not> valid (cache c1 ! i)"
    "cache_inv sz c1" "view c1 = view c" "cache_lock c1"
    "\<And>j s. cached c1 j s \<Longrightarrow> cached c j s" "fs_device c1 = fs_device c"
    by (rule cache_replace_find_ok [OF inv lock]) blast
  have free: "\<not> cached c1 j s" for j using c1(7) cache_find_None [OF None] by blast
  have ok: "device_ok (device c1) (fs_device c1) sz" and len: "length (cache c1) = CACHE_SIZE"
    using c1(4) by (auto simp: cache_inv_def)
  obtain L where L: "block_read (device c1) (fs_device c1) s = Some (sector_of (device c1) (fs_device c1) s, L)"
    "device_ok L (fs_device c1) sz" "sector_of L (fs_device c1) = sector_of (device c1) (fs_device c1)"
    by (rule block_read_sector [OF ok s])
  let ?e = "(cache c1 ! i)\<lparr>valid := True, disk_sector := s, dirty := False, buffer := stored c1 s\<rparr>"
  let ?c = "put_entry (c1\<lparr>device := L\<rparr>) i ?e"
  have "cache_inv sz ?c" "view ?c = view c1" "cached ?c i s"
    using fill_entry_ok [OF c1(4,2,3) s free, of ?e ?c] L
    by (auto simp: put_entry_def stored_def fun_eq_iff)
  moreover have "cache_fetch c s = Some (i, ?c)"
    using None c1 L len by (simp add: cache_fetch_def put_entry_def Let_def stored_def)
  ultimately show thesis using c1 by (intro that [of i ?c]) (auto simp: put_entry_def)
qed

lemma lock_fields_inv:
  "cache_inv sz (c\<lparr>cache_lock := b\<rparr>) = cache_inv sz c" "view (c\<lparr>cache_lock := b\<rparr>) = view c"
  by (auto simp: cache_inv_def cached_def stored_def view_def cache_find_def fun_eq_iff split: option.split)

text \<open>Between operations the lock is free.\<close>

definition cache_ok :: "nat \<Rightarrow> cache_state \<Rightarrow> bool" where
  "cache_ok sz c \<longleftrightarrow> cache_inv sz c \<and> \<not> cache_lock c"

lemma cache_read_ok:
  assumes ok: "cache_ok sz c" and s: "s < sz"
  obtains c' where "cache_read c s = Some (view c s, c')" "cache_ok sz c'" "view c' = view c"
proof -
  let ?c = "c\<lparr>cache_lock := True\<rparr>"
  have inv: "cache_inv sz ?c" using ok by (simp add: cache_ok_def lock_fields_inv)
  obtain i c1 where c1: "cache_fetch ?c s = Some (i, c1)" "cache_inv sz c1" "view c1 = view ?c" "cached c1 i s"
    "cache_lock c1" by (rule cache_fetch_ok [OF inv _ s]) auto
  let ?c1 = "put_entry c1 i ((cache c1 ! i)\<lparr>access := True\<rparr>)"
  have i: "i < length (cache c1)" using c1(4) by (simp add: cached_def)
  have same: "same_content c1 ?c1"
    using i by (auto simp: same_content_def put_entry_def nth_list_update_if)
  have clk: "clock ?c1 < CACHE_SIZE" using c1(2) by (simp add: put_entry_def cache_inv_def)
  have inv1: "cache_inv sz ?c1" and view1: "view ?c1 = view c"
    using same_content_inv [OF same c1(2) clk] same_content_view [OF same c1(2) clk] c1(3)
    by (auto simp: lock_fields_inv fun_eq_iff)
  have "buffer (cache ?c1 ! i) = view c s"
    using view_cached [OF c1(2,4)] c1(3) i by (simp add: put_entry_def lock_fields_inv)
  with ok c1 inv1 view1 show thesis
    by (intro that [of "?c1\<lparr>cache_lock := False\<rparr>"])
      (auto simp: cache_read_def cache_ok_def acquire_def release_def lock_fields_inv put_entry_def Let_def)
qed

lemma dirty_entry_ok:
  assumes inv: "cache_inv sz c" and i: "cached c i s" and b: "length b = BLOCK_SECTOR_SIZE"
    and e: "valid e" "disk_sector e = s" "buffer e = b" "dirty e"
  shows "cache_inv sz (put_entry c i e)" "view (put_entry c i e) = (view c)(s := b)"
proof -
  let ?c = "put_entry c i e"
  have len: "length (cache c) = CACHE_SIZE" "i < CACHE_SIZE" using inv i by (auto simp: cache_inv_def cached_def)
  have keys: "cached ?c j t = cached c j t" for j t
    by (rule cached_put_entry_same_key) (use i e in \<open>auto simp: cached_def\<close>)
  have entry: "cache ?c ! j = (if j = i then e else cache c ! j)" if "j < CACHE_SIZE" for j
    using that len by (simp add: put_entry_def nth_list_update_if)
  have st: "stored ?c = stored c" by (rule ext) (simp add: stored_def put_entry_def)
  have lt: "j < CACHE_SIZE" if "cached c j t" for j t using that len by (simp add: cached_def)
  show inv': "cache_inv sz ?c"
    unfolding cache_inv_def keys st
  proof (intro conjI allI impI)
    fix j t assume jt: "cached c j t"
    then show "t < sz" using inv by (auto simp: cache_inv_def)
    show "length (buffer (cache ?c ! j)) = BLOCK_SECTOR_SIZE"
      using jt inv b e entry [OF lt [OF jt]] by (auto simp: cache_inv_def)
    assume "\<not> dirty (cache ?c ! j)"
    then show "buffer (cache ?c ! j) = stored c t"
      using jt inv b e entry [OF lt [OF jt]] by (auto simp: cache_inv_def split: if_splits)
  qed (use inv in \<open>auto simp: cache_inv_def put_entry_def\<close>)
  show "view ?c = (view c)(s := b)"
  proof
    fix t
    consider (cached) j where "cached c j t" | (none) "\<And>j. \<not> cached c j t" by blast
    then show "view ?c t = ((view c)(s := b)) t"
    proof cases
      case cached
      have "j = i \<longleftrightarrow> t = s" using cached i inv by (auto simp: cache_inv_def cached_def)
      then show ?thesis
        using view_cached [OF inv cached] view_cached [OF inv', of j t] keys entry [OF lt [OF cached]] cached e by auto
    next
      case none
      then have "t \<noteq> s" using i by auto
      with none show ?thesis by (simp add: view_uncached keys st)
    qed
  qed
qed

lemma cache_write_ok:
  assumes ok: "cache_ok sz c" and s: "s < sz" and b: "length b = BLOCK_SECTOR_SIZE"
  obtains c' where "cache_write c s b = Some c'" "cache_ok sz c'" "view c' = (view c)(s := b)"
proof -
  let ?c = "c\<lparr>cache_lock := True\<rparr>"
  have inv: "cache_inv sz ?c" using ok by (simp add: cache_ok_def lock_fields_inv)
  obtain i c1 where c1: "cache_fetch ?c s = Some (i, c1)" "cache_inv sz c1" "view c1 = view ?c" "cached c1 i s"
    "cache_lock c1" by (rule cache_fetch_ok [OF inv _ s]) auto
  let ?e = "(cache c1 ! i)\<lparr>access := True, dirty := True, buffer := b\<rparr>"
  have "cache_inv sz (put_entry c1 i ?e)" "view (put_entry c1 i ?e) = (view c1)(s := b)"
    using dirty_entry_ok [OF c1(2,4) b, of ?e] c1(4) by (auto simp: cached_def)
  with ok c1 b show thesis
    by (intro that [of "(put_entry c1 i ?e)\<lparr>cache_lock := False\<rparr>"])
      (auto simp: cache_write_def cache_ok_def acquire_def release_def lock_fields_inv put_entry_def Let_def)
qed

section \<open>Shutdown\<close>

lemma close_loop_ok:
  assumes "cache_inv sz c" "cache_lock c" "i + left = CACHE_SIZE"
    "\<And>j. j < i \<Longrightarrow> valid (cache c ! j) \<Longrightarrow> \<not> dirty (cache c ! j)"
  shows "\<exists>c'. close_loop c i left = Some c' \<and> cache_inv sz c' \<and> cache_lock c' \<and> view c' = view c \<and>
    (\<forall>j<CACHE_SIZE. valid (cache c' ! j) \<longrightarrow> \<not> dirty (cache c' ! j))"
  using assms
proof (induction left arbitrary: c i)
  case 0
  then show ?case by auto
next
  case (Suc left)
  have i: "i < CACHE_SIZE" "i < length (cache c)" using Suc.prems by (auto simp: cache_inv_def)
  show ?case
  proof (cases "valid (cache c ! i)")
    case False
    with Suc.prems i show ?thesis
      using Suc.IH [OF Suc.prems(1,2), of "i + 1"] by (auto simp: less_Suc_eq)
  next
    case True
    obtain c1 where c1: "cache_flush c i = Some c1" "cache_inv sz c1" "view c1 = view c" "cache_lock c1"
      "\<not> dirty (cache c1 ! i)" "\<And>j. j < CACHE_SIZE \<Longrightarrow> j \<noteq> i \<Longrightarrow> cache c1 ! j = cache c ! j"
      by (rule cache_flush_ok [OF Suc.prems(1,2) i(1) True]) blast
    have "\<not> dirty (cache c1 ! j)" if "j < i + 1" "valid (cache c1 ! j)" for j
      using that c1(5) c1(6) [of j] Suc.prems(4) [of j] i by (cases "j = i") auto
    with Suc.IH [OF c1(2,4), of "i + 1"] Suc.prems(3) c1(1,3) True i show ?thesis by auto
  qed
qed

lemma clean_view_stored:
  assumes "cache_inv sz c" "\<forall>j<CACHE_SIZE. valid (cache c ! j) \<longrightarrow> \<not> dirty (cache c ! j)"
  shows "stored c s = view c s"
proof (cases "\<exists>i. cached c i s")
  case True
  then obtain i where i: "cached c i s" by blast
  then show ?thesis using assms view_cached [OF assms(1) i] by (auto simp: cache_inv_def cached_def)
qed (simp add: view_uncached)

lemma cache_close_ok:
  assumes "cache_ok sz c"
  obtains c' where "cache_close c = Some c'" "cache_ok sz c'" "view c' = view c" "stored c' = view c"
proof -
  have "cache_inv sz (c\<lparr>cache_lock := True\<rparr>)" using assms by (simp add: cache_ok_def lock_fields_inv)
  from close_loop_ok [OF this, of 0 CACHE_SIZE] obtain c1 where
    c1: "close_loop (c\<lparr>cache_lock := True\<rparr>) 0 CACHE_SIZE = Some c1" "cache_inv sz c1" "cache_lock c1" "view c1 = view c"
      "\<forall>j<CACHE_SIZE. valid (cache c1 ! j) \<longrightarrow> \<not> dirty (cache c1 ! j)"
    by (auto simp: lock_fields_inv)
  have "stored (c1\<lparr>cache_lock := False\<rparr>) = view c"
    using clean_view_stored [OF c1(2,5)] c1(4) by (auto simp: stored_def fun_eq_iff)
  with assms c1 show thesis
    by (intro that [of "c1\<lparr>cache_lock := False\<rparr>"])
      (auto simp: cache_close_def cache_ok_def acquire_def release_def lock_fields_inv)
qed

lemma cache_init_ok:
  assumes "length (cache c) = CACHE_SIZE" "clock c < CACHE_SIZE" "device_ok (device c) (fs_device c) sz"
  shows "cache_ok sz (cache_init c)" "view (cache_init c) s = stored c s"
proof -
  have none: "\<not> cached (cache_init c) i s" for i s
    by (auto simp: cached_def cache_init_def)
  show "cache_ok sz (cache_init c)"
    using assms by (auto simp: cache_ok_def cache_inv_def none) (auto simp: cache_init_def)
  show "view (cache_init c) s = stored c s"
    using none by (simp add: view_uncached) (simp add: stored_def cache_init_def)
qed

section \<open>The interface to the file system\<close>

text \<open>
  A sector store: an array of sectors that reads do not change and writes update one entry of.
  The raw block device and the buffer cache are both sector stores, which makes them
  indistinguishable to any sequence of sector operations.
\<close>

datatype sector_op = SRead nat | SWrite nat "byte list"

text \<open>Running a sequence of operations, with the data of the reads.\<close>

fun run_ops :: "('s \<Rightarrow> nat \<Rightarrow> (byte list \<times> 's) option) \<Rightarrow> ('s \<Rightarrow> nat \<Rightarrow> byte list \<Rightarrow> 's option) \<Rightarrow>
    's \<Rightarrow> sector_op list \<Rightarrow> (byte list list \<times> 's) option" where
  "run_ops rd wr c [] = Some ([], c)"
| "run_ops rd wr c (SRead s # rest) = do { (b, c) \<leftarrow> rd c s; (bs, c) \<leftarrow> run_ops rd wr c rest; Some (b # bs, c) }"
| "run_ops rd wr c (SWrite s b # rest) = do { c \<leftarrow> wr c s b; run_ops rd wr c rest }"

locale sector_store =
  fixes rd :: "'s \<Rightarrow> nat \<Rightarrow> (byte list \<times> 's) option"
    and wr :: "'s \<Rightarrow> nat \<Rightarrow> byte list \<Rightarrow> 's option"
    and ok :: "nat \<Rightarrow> 's \<Rightarrow> bool"
    and sectors :: "'s \<Rightarrow> nat \<Rightarrow> byte list"
  assumes read_law: "ok n c \<Longrightarrow> s < n \<Longrightarrow>
      \<exists>c'. rd c s = Some (sectors c s, c') \<and> ok n c' \<and> (\<forall>t<n. sectors c' t = sectors c t)"
    and write_law: "ok n c \<Longrightarrow> s < n \<Longrightarrow> length b = BLOCK_SECTOR_SIZE \<Longrightarrow>
      \<exists>c'. wr c s b = Some c' \<and> ok n c' \<and> (\<forall>t<n. sectors c' t = (if t = s then b else sectors c t))"
begin

lemma read_after_write:
  assumes "ok n c" "s < n" "t < n" "length b = BLOCK_SECTOR_SIZE"
  obtains c1 c2 where "wr c s b = Some c1" "rd c1 t = Some (if t = s then b else sectors c t, c2)" "ok n c2"
proof -
  from write_law [OF assms(1,2,4)] obtain c1 where
    c1: "wr c s b = Some c1" "ok n c1" "\<forall>t<n. sectors c1 t = (if t = s then b else sectors c t)" by blast
  with read_law [OF c1(2) assms(3)] assms(3) that show thesis by auto
qed

end

text \<open>What an array of sectors answers to the same sequence.\<close>

fun array_run :: "(nat \<Rightarrow> byte list) \<Rightarrow> sector_op list \<Rightarrow> byte list list \<times> (nat \<Rightarrow> byte list)" where
  "array_run a [] = ([], a)"
| "array_run a (SRead s # rest) = (let (bs, a') = array_run a rest in (a s # bs, a'))"
| "array_run a (SWrite s b # rest) = array_run (a(s := b)) rest"

fun ops_within :: "nat \<Rightarrow> sector_op list \<Rightarrow> bool" where
  "ops_within n [] = True"
| "ops_within n (SRead s # rest) = (s < n \<and> ops_within n rest)"
| "ops_within n (SWrite s b # rest) = (s < n \<and> length b = BLOCK_SECTOR_SIZE \<and> ops_within n rest)"

context sector_store
begin

lemma run_array:
  assumes "ok n c" "ops_within n rest" "\<forall>t<n. a t = sectors c t"
  shows "\<exists>c'. run_ops rd wr c rest = Some (fst (array_run a rest), c') \<and> ok n c' \<and>
    (\<forall>t<n. sectors c' t = snd (array_run a rest) t)"
  using assms
proof (induction rest arbitrary: c a)
  case (Cons oper rest)
  show ?case
  proof (cases oper)
    case (SRead s)
    then have s: "s < n" "ops_within n rest" using Cons.prems by auto
    from read_law [OF Cons.prems(1) s(1)] obtain c1 where
      c1: "rd c s = Some (sectors c s, c1)" "ok n c1" "\<forall>t<n. sectors c1 t = sectors c t" by blast
    from Cons.IH [OF c1(2) s(2), of a] c1 Cons.prems(3) SRead s show ?thesis
      by (auto split: prod.split)
  next
    case (SWrite s b)
    then have s: "s < n" "length b = BLOCK_SECTOR_SIZE" "ops_within n rest" using Cons.prems by auto
    from write_law [OF Cons.prems(1) s(1,2)] obtain c1 where
      c1: "wr c s b = Some c1" "ok n c1" "\<forall>t<n. sectors c1 t = (if t = s then b else sectors c t)" by blast
    have "\<forall>t<n. (a(s := b)) t = sectors c1 t" using c1(3) Cons.prems(3) by simp
    from Cons.IH [where a = "a(s := b)", OF c1(2) s(3) this] c1(1) SWrite show ?thesis by (simp del: fun_upd_apply)
  qed
qed simp

end

text \<open>A device as a state of its own: the registry and the device's address.\<close>

type_synonym raw_device = "block_layer \<times> addr"

definition raw_read :: "raw_device \<Rightarrow> nat \<Rightarrow> (byte list \<times> raw_device) option" where
  "raw_read d s = do { (buf, L) \<leftarrow> block_read (fst d) (snd d) s; Some (buf, (L, snd d)) }"

definition raw_write :: "raw_device \<Rightarrow> nat \<Rightarrow> byte list \<Rightarrow> raw_device option" where
  "raw_write d s buf = do { L \<leftarrow> block_write (fst d) (snd d) s buf; Some (L, snd d) }"

interpretation disk: sector_store raw_read raw_write "\<lambda>n d. device_ok (fst d) (snd d) n" "\<lambda>d. sector_of (fst d) (snd d)"
proof unfold_locales
  fix n s and d :: raw_device
  assume "device_ok (fst d) (snd d) n" "s < n"
  then show "\<exists>d'. raw_read d s = Some (sector_of (fst d) (snd d) s, d') \<and> device_ok (fst d') (snd d') n \<and>
      (\<forall>t<n. sector_of (fst d') (snd d') t = sector_of (fst d) (snd d) t)"
    by (rule block_read_sector) (auto simp: raw_read_def)
next
  fix n s and d :: raw_device and b :: "byte list"
  assume "device_ok (fst d) (snd d) n" "s < n" "length b = BLOCK_SECTOR_SIZE"
  then show "\<exists>d'. raw_write d s b = Some d' \<and> device_ok (fst d') (snd d') n \<and>
      (\<forall>t<n. sector_of (fst d') (snd d') t = (if t = s then b else sector_of (fst d) (snd d) t))"
    by (rule block_write_sector) (auto simp: raw_write_def)
qed

interpretation bcache: sector_store cache_read cache_write cache_ok view
proof unfold_locales
  fix n s and c :: cache_state
  assume "cache_ok n c" "s < n"
  then show "\<exists>c'. cache_read c s = Some (view c s, c') \<and> cache_ok n c' \<and> (\<forall>t<n. view c' t = view c t)"
    by (rule cache_read_ok) auto
next
  fix n s and c :: cache_state and b :: "byte list"
  assume "cache_ok n c" "s < n" "length b = BLOCK_SECTOR_SIZE"
  then show "\<exists>c'. cache_write c s b = Some c' \<and> cache_ok n c' \<and> (\<forall>t<n. view c' t = (if t = s then b else view c t))"
    by (rule cache_write_ok) auto
qed

end
