(* ===== verification/Fs_Layout.thy ===== *)
theory Fs_Layout
  imports Buffer_Cache Bitmap
begin

text \<open>
  The on-disk and in-memory structures of \<^verbatim>\<open>filesys/inode.c\<close>, \<^verbatim>\<open>file.c\<close> and \<^verbatim>\<open>free-map.c\<close>: the
  byte layout of a sector as 128 little-endian words, of \<^verbatim>\<open>struct inode_disk\<close> in it, and the
  state of the file system.
\<close>

section \<open>Integers of the file system\<close>

text \<open>\<^verbatim>\<open>off_t\<close> is a signed 32-bit integer; arithmetic on it wraps around.\<close>

definition off_t :: "int \<Rightarrow> int" where
  "off_t x = (x + 2 ^ 31) mod 2 ^ 32 - 2 ^ 31"

lemma off_t_id [simp]: "- (2 ^ 31) \<le> x \<Longrightarrow> x < 2 ^ 31 \<Longrightarrow> off_t x = x"
  unfolding off_t_def by simp

text \<open>The value \<^verbatim>\<open>-1\<close> as a \<^verbatim>\<open>block_sector_t\<close>.\<close>

definition SECTOR_NONE :: nat where
  "SECTOR_NONE = 2 ^ 32 - 1"

section \<open>Words in bytes\<close>

definition le32 :: "nat \<Rightarrow> byte list" where
  "le32 n = [word_of_nat n, word_of_nat (n div 256), word_of_nat (n div 256 div 256), word_of_nat (n div 256 div 256 div 256)]"

definition un_le32 :: "byte list \<Rightarrow> nat" where
  "un_le32 bs = unat (bs ! 0) + 256 * (unat (bs ! 1) + 256 * (unat (bs ! 2) + 256 * unat (bs ! 3)))"

lemma length_le32 [simp]: "length (le32 n) = 4"
  by (simp add: le32_def)

lemma unat_byte: "unat (word_of_nat n :: byte) = n mod 256"
  by (simp add: unat_of_nat)

lemma unat_byte_less: "unat (b :: byte) < 256"
  using unsigned_less [of b] by simp

lemma un_le32_le32 [simp]:
  assumes "n < 2 ^ 32"
  shows "un_le32 (le32 n) = n"
proof -
  define a where "a = n div 256"
  define b where "b = a div 256"
  define c where "c = b div 256"
  have "n = 256 * a + n mod 256" "a = 256 * b + a mod 256" "b = 256 * c + b mod 256"
    by (simp_all add: a_def b_def c_def)
  moreover from this assms have "c < 256" by simp
  ultimately show ?thesis
    unfolding un_le32_def le32_def a_def [symmetric] b_def [symmetric] c_def [symmetric]
    by (simp add: unat_byte)
qed

lemma un_le32_less: "un_le32 bs < 2 ^ 32"
  using unat_byte_less [of "bs ! 0"] unat_byte_less [of "bs ! 1"] unat_byte_less [of "bs ! 2"]
    unat_byte_less [of "bs ! 3"] by (simp add: un_le32_def)

fun words_of :: "byte list \<Rightarrow> nat list" where
  "words_of (a # b # c # d # bs) = un_le32 [a, b, c, d] # words_of bs"
| "words_of _ = []"

definition bytes_of :: "nat list \<Rightarrow> byte list" where
  "bytes_of ws = concat (map le32 ws)"

lemma length_bytes_of [simp]: "length (bytes_of ws) = 4 * length ws"
  by (induction ws) (auto simp: bytes_of_def)

lemma length_words_of [simp]: "length (words_of bs) = length bs div 4"
  by (induction bs rule: words_of.induct) auto

lemma words_of_bytes_of: "\<forall>w\<in>set ws. w < 2 ^ 32 \<Longrightarrow> words_of (bytes_of ws) = ws"
proof (induction ws)
  case (Cons w ws)
  have "un_le32 (le32 w) = w" using Cons.prems by (intro un_le32_le32) simp
  with Cons show ?case by (simp add: bytes_of_def le32_def)
qed (simp add: bytes_of_def)

lemma words_of_less: "w \<in> set (words_of bs) \<Longrightarrow> w < 2 ^ 32"
  by (induction bs rule: words_of.induct) (use un_le32_less in auto)

section \<open>Structures\<close>

definition DIRECT_INDEX_NUM :: nat where
  "DIRECT_INDEX_NUM = 124"

definition INDIRECT_INDEX_SECTOR_NUM :: nat where
  "INDIRECT_INDEX_SECTOR_NUM = 128"

definition DOUBLY_INDIRECT_INDEX_SECTOR_NUM :: nat where
  "DOUBLY_INDIRECT_INDEX_SECTOR_NUM = 128 * 128"

definition INODE_MAGIC :: nat where
  "INODE_MAGIC = 0x494e4f44"

record inode_disk =
  file_len :: int
  direct_index :: "nat list"
  indirect_index :: nat
  doubly_indirect_index :: nat
  magic :: nat

record inode =
  sector :: nat
  open_cnt :: int
  removed :: bool
  deny_write_cnt :: int
  data :: inode_disk

record file_t =
  file_inode :: addr
  pos :: int
  deny_write :: bool

text \<open>
  The image of \<^verbatim>\<open>struct inode_disk\<close> in a sector.  The code copies the bytes of the struct; the two functions
  are the layout that the compiler gives the struct (no padding, little endian), not code of the file.
\<close>

definition inode_disk_bytes :: "inode_disk \<Rightarrow> byte list" where
  "inode_disk_bytes d = bytes_of (nat (file_len d mod 2 ^ 32) # direct_index d @
     [indirect_index d, doubly_indirect_index d, magic d])"

definition bytes_inode_disk :: "byte list \<Rightarrow> inode_disk" where
  "bytes_inode_disk bs = (let ws = words_of bs in
     \<lparr>file_len = off_t (int (ws ! 0)), direct_index = take DIRECT_INDEX_NUM (drop 1 ws),
      indirect_index = ws ! 125, doubly_indirect_index = ws ! 126, magic = ws ! 127\<rparr>)"

definition wf_inode_disk :: "inode_disk \<Rightarrow> bool" where
  "wf_inode_disk d \<longleftrightarrow> length (direct_index d) = DIRECT_INDEX_NUM \<and> - (2 ^ 31) \<le> file_len d \<and> file_len d < 2 ^ 31 \<and>
     (\<forall>w\<in>set (direct_index d). w < 2 ^ 32) \<and> indirect_index d < 2 ^ 32 \<and> doubly_indirect_index d < 2 ^ 32 \<and>
     magic d < 2 ^ 32"

lemma length_inode_disk_bytes: "wf_inode_disk d \<Longrightarrow> length (inode_disk_bytes d) = BLOCK_SECTOR_SIZE"
  by (simp add: inode_disk_bytes_def wf_inode_disk_def DIRECT_INDEX_NUM_def BLOCK_SECTOR_SIZE_def)

section \<open>State of the file system\<close>

text \<open>
  The structures that \<^verbatim>\<open>malloc\<close> returned live in \<open>inodes\<close> and \<open>files\<close>.  \<open>mem_avail n\<close> says whether
  the \<open>n\<close>-th request for memory finds some, and \<open>mem_cnt\<close> counts the requests; the address of a
  new object is one that was not handed out before.  \<open>open_inodes\<close> is the sequence of the list
  elements of the list of that name (the theory \<open>Kernel_List\<close> has the linked list itself).
\<close>

record fs =
  bc :: cache_state
  free_map :: bitmap
  free_map_file :: addr
  inodes :: "addr \<Rightarrow> inode option"
  open_inodes :: "addr list"
  files :: "addr \<Rightarrow> file_t option"
  mem_avail :: "nat \<Rightarrow> bool"
  mem_cnt :: nat

definition malloc :: "fs \<Rightarrow> addr \<times> fs" where
  "malloc f = (if mem_avail f (mem_cnt f) then Suc (mem_cnt f) else NULL, f\<lparr>mem_cnt := Suc (mem_cnt f)\<rparr>)"

definition fs_read :: "fs \<Rightarrow> nat \<Rightarrow> (byte list \<times> fs) option" where
  "fs_read f s = do { (b, c) \<leftarrow> cache_read (bc f) s; Some (b, f\<lparr>bc := c\<rparr>) }"

definition fs_write :: "fs \<Rightarrow> nat \<Rightarrow> byte list \<Rightarrow> fs option" where
  "fs_write f s b = do { c \<leftarrow> cache_write (bc f) s b; Some (f\<lparr>bc := c\<rparr>) }"

definition update_inode :: "fs \<Rightarrow> addr \<Rightarrow> (inode \<Rightarrow> inode) \<Rightarrow> fs option" where
  "update_inode f p g = (case inodes f p of None \<Rightarrow> None | Some i \<Rightarrow> Some (f\<lparr>inodes := (inodes f)(p \<mapsto> g i)\<rparr>))"

end
