(* ===== verification/Partition_Table.thy ===== *)
theory Partition_Table
  imports Fs_Layout
begin

text \<open>
  \<^verbatim>\<open>devices/partition.c\<close>: scanning a disk for partitions and registering them as block devices.

  \<open>fresh k\<close> is what the \<open>k\<close>-th call of \<^verbatim>\<open>malloc\<close> returns.  The recursion of \<^verbatim>\<open>read_partition_table\<close>
  has a bound on its depth; \<open>None\<close> is the halted kernel, also when the bound is reached (the kernel
  stack is one page).
\<close>

section \<open>Partition table sectors\<close>

record part_entry =
  part_type :: nat
  part_offset :: nat
  part_size :: nat

definition get_entry :: "byte list \<Rightarrow> nat \<Rightarrow> part_entry" where
  "get_entry pt i = (let e = drop (446 + 16 * i) pt in
     \<lparr>part_type = unat (e ! 4), part_offset = un_le32 (drop 8 e), part_size = un_le32 (drop 12 e)\<rparr>)"

definition signature :: "byte list \<Rightarrow> nat" where
  "signature pt = unat (pt ! 510) + 256 * unat (pt ! 511)"

record scan_state =
  layer :: block_layer
  part_nr :: nat
  mallocs :: nat

fun decimal :: "nat \<Rightarrow> string" where
  "decimal n = (if n < 10 then [char_of (48 + n)] else decimal (n div 10) @ [char_of (48 + n mod 10)])"

declare decimal.simps [simp del]

definition partition_block_type :: "nat \<Rightarrow> block_type" where
  "partition_block_type t = (if t = 0x20 then BLOCK_KERNEL else if t = 0x21 then BLOCK_FILESYS
     else if t = 0x22 then BLOCK_SCRATCH else if t = 0x23 then BLOCK_SWAP else BLOCK_FOREIGN)"

definition found_partition :: "(nat \<Rightarrow> addr) \<Rightarrow> scan_state \<Rightarrow> addr \<Rightarrow> nat \<Rightarrow> nat \<Rightarrow> nat \<Rightarrow> nat \<Rightarrow> scan_state option" where
  "found_partition fresh st b ptype start sz nr = do {
     bsz \<leftarrow> block_size (layer st) b;
     if start \<ge> bsz then Some st
     else if (start + sz) mod SECTOR_WRAP < start \<or> (start + sz) mod SECTOR_WRAP > bsz then Some st
     else do {
       let p = fresh (mallocs st);
       ASSERT (p \<noteq> NULL);
       blk \<leftarrow> blocks (layer st) b;
       let nm = take 15 (block_nm blk @ decimal nr);
       (_, L) \<leftarrow> block_register (layer st) (fresh (mallocs st + 1)) nm (partition_block_type ptype) sz
                  (Partition \<lparr>part_block = b, part_start = start\<rparr>);
       Some (st\<lparr>layer := L, mallocs := mallocs st + 2\<rparr>)
     }
   }"

definition is_extended :: "nat \<Rightarrow> bool" where
  "is_extended t \<longleftrightarrow> t \<in> {0x05, 0x0f, 0x85, 0xc5}"

text \<open>The loop over the four entries; \<open>rec\<close> is the recursive call.\<close>

fun entries_loop :: "(scan_state \<Rightarrow> nat \<Rightarrow> nat \<Rightarrow> scan_state option) \<Rightarrow> (nat \<Rightarrow> addr) \<Rightarrow> addr \<Rightarrow> nat \<Rightarrow> nat \<Rightarrow>
    part_entry list \<Rightarrow> scan_state \<Rightarrow> scan_state option" where
  "entries_loop rec fresh b sec primary [] st = Some st"
| "entries_loop rec fresh b sec primary (e # es) st = do {
     st \<leftarrow> (if part_size e = 0 \<or> part_type e = 0 then Some st
            else if is_extended (part_type e) then
              if sec = 0 then rec st (part_offset e) (part_offset e)
              else rec st ((part_offset e + primary) mod SECTOR_WRAP) primary
            else do {
              let st = st\<lparr>part_nr := part_nr st + 1\<rparr>;
              found_partition fresh st b (part_type e) ((part_offset e + sec) mod SECTOR_WRAP) (part_size e) (part_nr st)
            });
     entries_loop rec fresh b sec primary es st
   }"

primrec read_partition_table :: "nat \<Rightarrow> (nat \<Rightarrow> addr) \<Rightarrow> addr \<Rightarrow> scan_state \<Rightarrow> nat \<Rightarrow> nat \<Rightarrow> scan_state option" where
  "read_partition_table 0 fresh b st sec primary = None"
| "read_partition_table (Suc depth) fresh b st sec primary = do {
     bsz \<leftarrow> block_size (layer st) b;
     if sec \<ge> bsz then Some st
     else do {
       ASSERT (fresh (mallocs st) \<noteq> NULL);
       let st = st\<lparr>mallocs := mallocs st + 1\<rparr>;
       (pt, L) \<leftarrow> block_read (layer st) b 0;
       let st = st\<lparr>layer := L\<rparr>;
       if signature pt \<noteq> 0xaa55 then Some st
       else entries_loop (read_partition_table depth fresh b) fresh b sec primary (map (get_entry pt) [0..<4]) st
     }
   }"

definition partition_scan :: "nat \<Rightarrow> (nat \<Rightarrow> addr) \<Rightarrow> addr \<Rightarrow> block_layer \<Rightarrow> nat \<Rightarrow> (block_layer \<times> nat) option" where
  "partition_scan depth fresh b L k = do {
     st \<leftarrow> read_partition_table depth fresh b \<lparr>layer = L, part_nr = 0, mallocs = k\<rparr> 0 0;
     Some (layer st, part_nr st)
   }"

section \<open>Extended partitions\<close>

text \<open>
  \<^verbatim>\<open>read_partition_table\<close> reads sector 0 whatever sector it is called for.  A disk whose master boot
  record has an extended partition in its first entry is therefore scanned for ever.
\<close>

lemma read_partition_table_loops:
  assumes blk: "block_size L b = Some bsz" and ok: "device_ok L b bsz"
    and pt: "signature (sector_of L b 0) = 0xaa55" "part_size (get_entry (sector_of L b 0) 0) \<noteq> 0"
      "is_extended (part_type (get_entry (sector_of L b 0) 0))"
    and o1: "part_offset (get_entry (sector_of L b 0) 0) = o1" "0 < o1" "2 * o1 < bsz" "2 * o1 < SECTOR_WRAP"
    and sec: "sec = 0 \<or> sec \<noteq> 0 \<and> sec < bsz \<and> primary = o1"
    and st: "layer st = L" "\<And>k. fresh k \<noteq> NULL"
  shows "read_partition_table depth fresh b st sec primary = None"
  using blk ok pt o1 sec st
proof (induction depth arbitrary: L st sec primary)
  case (Suc depth)
  have pos: "0 < bsz" using Suc.prems by linarith
  obtain L' where L': "block_read L b 0 = Some (sector_of L b 0, L')" "device_ok L' b bsz"
    "sector_of L' b = sector_of L b" "same_devices L L'"
    by (rule block_read_sector [OF Suc.prems(2) pos])
  let ?pt = "sector_of L b 0" and ?st = "st\<lparr>mallocs := mallocs st + 1, layer := L'\<rparr>"
  have secok: "\<not> bsz \<le> sec" using Suc.prems(10) pos by auto
  have IH: "read_partition_table depth fresh b st' s q = None"
    if "layer st' = L'" "s = 0 \<or> s \<noteq> 0 \<and> s < bsz \<and> q = o1" for st' s q
    by (rule Suc.IH [of L']) (use that L' Suc.prems same_devices_bsize [OF L'(4)] in auto)
  have "entries_loop (read_partition_table depth fresh b) fresh b sec primary (map (get_entry ?pt) [0..<4]) ?st = None"
  proof -
    have four: "[0..<4] = [0, 1, 2, 3 :: nat]" by (simp add: upt_rec)
    have "part_type (get_entry ?pt 0) \<noteq> 0" using Suc.prems(5) by (auto simp: is_extended_def)
    moreover have "(o1 + o1) mod SECTOR_WRAP = 2 * o1" using Suc.prems(9) by (simp add: mult_2 [symmetric])
    moreover have "sec = 0 \<or> primary = o1" using Suc.prems(10) by auto
    ultimately show ?thesis unfolding four using Suc.prems IH by auto
  qed
  moreover have "block_size (layer st) b = Some bsz" "block_read (layer st) b 0 = Some (?pt, L')"
    using Suc.prems(1,11) L'(1) by simp_all
  ultimately show ?case
    using secok Suc.prems(3,12) by (simp add: Let_def)
qed simp

end
