(* ===== verification/Storage_Properties.thy ===== *)
theory Storage_Properties
  imports Bitmap Buffer_Cache Partition_Table
begin

text \<open>
  The properties of the storage layers below the file system: bitmaps, block devices and partitions,
  and the buffer cache.  A plain disk of eight sectors serves as the example.
\<close>

section \<open>A plain disk and an empty cache\<close>

definition sample_layer :: "(nat \<Rightarrow> byte list) \<Rightarrow> block_layer" where
  "sample_layer content = \<lparr>all_blocks = [4],
     blocks = [4 \<mapsto> \<lparr>block_nm = ''hda'', btype = BLOCK_FILESYS, bsize = 8, ops = Disk 0, read_cnt = 0, write_cnt = 0\<rparr>],
     block_by_role = (\<lambda>_. NULL)(BLOCK_FILESYS := 4), medium = (\<lambda>_. content)\<rparr>"

definition sample_cache :: "(nat \<Rightarrow> byte list) \<Rightarrow> cache_state" where
  "sample_cache content = \<lparr>
     cache = replicate CACHE_SIZE \<lparr>valid = False, disk_sector = 0, buffer = [], dirty = False, access = False\<rparr>,
     clock = 0, cache_lock = False, device = sample_layer content, fs_device = 4\<rparr>"

lemma sample_locate: "s < 8 \<Longrightarrow> locate True (nesting (sample_layer content)) (sample_layer content) 4 s = Some (0, s)"
  by (simp add: sample_layer_def nesting_def)

lemma sample_sector_of: "s < 8 \<Longrightarrow> sector_of (sample_layer content) 4 s = content s"
  by (simp add: sector_of_def sample_locate) (simp add: sample_layer_def)

lemma sample_device_ok:
  assumes "\<And>s. s < 8 \<Longrightarrow> length (content s) = BLOCK_SECTOR_SIZE"
  shows "device_ok (sample_layer content) 4 8"
proof -
  have "inj_on (locate True (nesting (sample_layer content)) (sample_layer content) 4) {..<8}"
    by (rule inj_onI) (auto simp: sample_locate)
  then show ?thesis
    using assms by (simp add: device_ok_def sample_locate sample_sector_of) (simp add: block_size_def sample_layer_def)
qed

lemma sample_cache_fields [simp]:
  "device (sample_cache content) = sample_layer content" "fs_device (sample_cache content) = 4"
  "length (cache (sample_cache content)) = CACHE_SIZE" "clock (sample_cache content) = 0"
  by (simp_all add: sample_cache_def)

lemma sample_cache_init: "cache_init (sample_cache content) = sample_cache content"
  by (simp add: cache_init_def sample_cache_def)

lemma sample_cache_ok:
  assumes "\<And>s. s < 8 \<Longrightarrow> length (content s) = BLOCK_SECTOR_SIZE"
  shows "cache_ok 8 (sample_cache content)" "s < 8 \<Longrightarrow> view (sample_cache content) s = content s"
  using cache_init_ok [of "sample_cache content" 8] sample_device_ok [OF assms] sample_sector_of [of s content]
  by (simp_all add: sample_cache_init CACHE_SIZE_def stored_def)

definition blank :: "nat \<Rightarrow> byte list" where
  "blank s = replicate BLOCK_SECTOR_SIZE 0"

lemma length_blank: "length (blank s) = BLOCK_SECTOR_SIZE"
  by (simp add: blank_def)

lemmas blank_disk = sample_device_ok [of blank, OF length_blank] sample_cache_ok [of blank, OF length_blank]

section \<open>Bitmaps\<close>

text \<open>
  C22: \<^verbatim>\<open>bitmap_scan_and_flip\<close> is first fit: it returns the lowest index at or after \<^verbatim>\<open>start\<close> at which
  \<^verbatim>\<open>cnt\<close> consecutive bits have the wanted value and inverts exactly those bits, and when there is no
  such group it returns \<^verbatim>\<open>BITMAP_ERROR\<close> and changes nothing.
\<close>

theorem bitmap_scan_and_flip_first_fit:
  assumes "wf_bitmap b" "start \<le> bit_cnt b" "0 < cnt"
  shows "(\<exists>i b'. bitmap_scan_and_flip b start cnt v = Some (i, b') \<and> start \<le> i \<and> i + cnt \<le> bit_cnt b \<and>
      wf_bitmap b' \<and> bit_cnt b' = bit_cnt b \<and>
      (\<forall>k < bit_cnt b. bitmap_bits b' ! k = (if i \<le> k \<and> k < i + cnt then \<not> v else bitmap_bits b ! k)) \<and>
      group_at (bitmap_bits b) i cnt v \<and> (\<forall>j. start \<le> j \<and> j < i \<longrightarrow> \<not> group_at (bitmap_bits b) j cnt v)) \<or>
    (bitmap_scan_and_flip b start cnt v = Some (BITMAP_ERROR, b) \<and>
      (\<forall>j \<ge> start. \<not> group_at (bitmap_bits b) j cnt v))"
proof (cases "first_group (bitmap_bits b) start cnt v")
  case None
  with bitmap_scan_and_flip_None [OF assms(1,2) None] show ?thesis by (simp add: first_group_None_iff)
next
  case (Some i)
  obtain b' where b': "bitmap_scan_and_flip b start cnt v = Some (i, b')" "wf_bitmap b'" "bit_cnt b' = bit_cnt b"
    "bitmap_bits b' = set_range (bitmap_bits b) i cnt (\<not> v)" "i + cnt \<le> bit_cnt b"
    by (rule bitmap_scan_and_flip_Some [OF assms Some])
  then have "\<forall>k < bit_cnt b. bitmap_bits b' ! k = (if i \<le> k \<and> k < i + cnt then \<not> v else bitmap_bits b ! k)"
    by (simp add: nth_set_range)
  with b' Some show ?thesis by (auto simp: first_group_Some_iff)
qed

definition sample_bitmap :: bitmap where
  "sample_bitmap = \<lparr>bit_cnt = 40, bits = [0xFFFFFFF7, 0]\<rparr>"

lemma sample_bitmap_wf: "wf_bitmap sample_bitmap"
  by (simp add: wf_bitmap_def sample_bitmap_def ELEM_BITS_def SIZE_WRAP_def)

theorem bitmap_scan_and_flip_first_fit_witness:
  "\<exists>i b'. bitmap_scan_and_flip sample_bitmap 1 2 False = Some (i, b') \<and>
    (i = BITMAP_ERROR \<or> (1 \<le> i \<and> i + 2 \<le> 40 \<and> group_at (bitmap_bits sample_bitmap) i 2 False))"
  using bitmap_scan_and_flip_first_fit [OF sample_bitmap_wf, of 1 2 False] by (auto simp: sample_bitmap_def)

text \<open>
  \<^verbatim>\<open>bitmap_set_multiple\<close> sets exactly the bits of the range when the range lies inside the bitmap,
  and halts the kernel whenever it does not, also when \<^verbatim>\<open>start + cnt\<close> wraps around 32 bits and passes
  the range assertion.
\<close>

theorem bitmap_set_multiple_range:
  assumes "wf_bitmap b"
  shows "(bitmap_set_multiple b start cnt v = None \<longleftrightarrow> bit_cnt b < start + cnt) \<and>
    (\<forall>b'. bitmap_set_multiple b start cnt v = Some b' \<longrightarrow>
      wf_bitmap b' \<and> bit_cnt b' = bit_cnt b \<and>
      (\<forall>k < bit_cnt b. bitmap_bits b' ! k = (if start \<le> k \<and> k < start + cnt then v else bitmap_bits b ! k)))"
proof (cases "bit_cnt b < start + cnt")
  case True
  with bitmap_set_multiple_overrun [OF assms, of start cnt v] show ?thesis by simp
next
  case False
  then have r: "start + cnt \<le> bit_cnt b" by simp
  show ?thesis by (rule bitmap_set_multiple_bits [OF assms r, of v]) (use r in \<open>auto simp: nth_set_range\<close>)
qed

theorem bitmap_set_multiple_range_witness:
  "bitmap_set_multiple sample_bitmap 5 (2 ^ 32 - 2) True = None \<and>
   (\<exists>b'. bitmap_set_multiple sample_bitmap 5 10 True = Some b' \<and> bitmap_bits b' ! 7)"
  using bitmap_set_multiple_range [OF sample_bitmap_wf, of 5 "2 ^ 32 - 2" True]
    bitmap_set_multiple_range [OF sample_bitmap_wf, of 5 10 True]
  by (auto simp: sample_bitmap_def)

section \<open>Partitions\<close>

text \<open>Registering a device at a fresh address changes the place of no sector of the others.\<close>

lemma locate_register:
  assumes "locate w n L b s = Some r" "blocks L p = None"
  shows "locate w n (L\<lparr>all_blocks := bs, blocks := (blocks L)(p \<mapsto> blk)\<rparr>) b s = Some r"
  using assms by (induction n arbitrary: b s) (auto split: option.splits if_splits driver.splits)

lemma locate_mono: "locate w n L b s = Some r \<Longrightarrow> locate w (Suc n) L b s = Some r"
proof (induction n arbitrary: b s)
  case (Suc n)
  then obtain blk where blk: "blocks L b = Some blk" "s < bsize blk" "w \<longrightarrow> btype blk \<noteq> BLOCK_FOREIGN"
    by (auto split: option.splits if_splits)
  with Suc show ?case by (cases "ops blk") auto
qed simp

definition with_partition :: "block_layer \<Rightarrow> addr \<Rightarrow> string \<Rightarrow> block_type \<Rightarrow> nat \<Rightarrow> addr \<Rightarrow> nat \<Rightarrow> block_layer" where
  "with_partition L p nm t sz b start = L\<lparr>all_blocks := all_blocks L @ [p], blocks := (blocks L)(p \<mapsto>
     \<lparr>block_nm = nm, btype = t, bsize = sz, ops = Partition \<lparr>part_block = b, part_start = start\<rparr>, read_cnt = 0, write_cnt = 0\<rparr>)\<rparr>"

lemma with_partition_locate:
  fixes nm
  assumes ok: "device_ok L b bsz" and p: "blocks L p = None" and t: "t \<noteq> BLOCK_FOREIGN"
    and fit: "start + sz \<le> bsz" "bsz < SECTOR_WRAP"
  defines "L' \<equiv> with_partition L p nm t sz b start"
  shows "k < bsz \<Longrightarrow> locate True (nesting L') L' b k = locate True (nesting L) L b k"
    "s < sz \<Longrightarrow> locate True (nesting L') L' p s = locate True (nesting L) L b (start + s)"
proof -
  have n: "nesting L' = Suc (nesting L)" by (simp add: L'_def with_partition_def nesting_def)
  have old: "locate True (nesting L) L' b k = locate True (nesting L) L b k" "locate True (nesting L) L b k \<noteq> None"
    if "k < bsz" for k
  proof -
    show nn: "locate True (nesting L) L b k \<noteq> None" using ok that by (simp add: device_ok_def)
    then obtain r where "locate True (nesting L) L b k = Some r" by blast
    then show "locate True (nesting L) L' b k = locate True (nesting L) L b k"
      using locate_register [OF _ p] by (simp add: L'_def with_partition_def)
  qed
  then show "k < bsz \<Longrightarrow> locate True (nesting L') L' b k = locate True (nesting L) L b k"
    unfolding n using locate_mono [of True "nesting L" L' b k] by fastforce
  assume s: "s < sz"
  then have "(start + s) mod SECTOR_WRAP = start + s" using fit by simp
  then show "locate True (nesting L') L' p s = locate True (nesting L) L b (start + s)"
    unfolding n using s t fit old(1) [of "start + s"] by (simp add: L'_def with_partition_def)
qed

text \<open>
  C7: For a partition type whose devices are not write-protected (not \<^verbatim>\<open>BLOCK_FOREIGN\<close>), \<^verbatim>\<open>found_partition\<close>
  registers a partition only when it lies inside its disk (the test is immune to 32-bit wrap-around); then sector \<open>s\<close> of the new device is sector \<open>start + s\<close> of the disk, for reading
  and for writing, and a write through the partition changes no other sector of the disk.
\<close>

theorem found_partition_window:
  assumes ok: "device_ok (layer st) b bsz" and r: "bsz < SECTOR_WRAP" "start < SECTOR_WRAP" "sz < SECTOR_WRAP"
    and mem: "fresh (mallocs st) \<noteq> NULL" "fresh (mallocs st + 1) = p" "p \<noteq> NULL" "blocks (layer st) p = None"
    and t: "partition_block_type t \<noteq> BLOCK_FOREIGN"
  shows "if start < bsz \<and> start + sz \<le> bsz then
      \<exists>st'. found_partition fresh st b t start sz nr = Some st' \<and> block_size (layer st') p = Some sz \<and>
        (\<forall>s < sz. \<forall>buf. (\<exists>L1. block_read (layer st') p s = Some (sector_of (layer st) b (start + s), L1)) \<and>
          (\<exists>L2. block_write (layer st') p s buf = Some L2 \<and>
             (\<forall>k < bsz. sector_of L2 b k = (if k = start + s then buf else sector_of (layer st) b k))))
    else found_partition fresh st b t start sz nr = Some st"
proof (cases "start < bsz \<and> start + sz \<le> bsz")
  case False
  have "(start + sz) mod SECTOR_WRAP = (if start + sz < SECTOR_WRAP then start + sz else start + sz - SECTOR_WRAP)"
    using r by (simp add: mod_if)
  with False ok r show ?thesis by (auto simp: found_partition_def device_ok_def)
next
  case True
  let ?L = "layer st"
  obtain blk where blk: "blocks ?L b = Some blk" "bsize blk = bsz" using ok by (auto simp: device_ok_def block_size_def)
  define L' where "L' = with_partition ?L p (take 15 (block_nm blk @ decimal nr)) (partition_block_type t) sz b start"
  let ?st = "st\<lparr>layer := L', mallocs := mallocs st + 2\<rparr>"
  have fp: "found_partition fresh st b t start sz nr = Some ?st"
    using True r mem blk by (simp add: found_partition_def block_size_def block_register_def L'_def with_partition_def Let_def
        del: take_append)
  have fit: "start + sz \<le> bsz" using True by simp
  note loc = with_partition_locate [OF ok mem(4) t fit r(1), where nm = "take 15 (block_nm blk @ decimal nr)", folded L'_def]
  have io: "(\<exists>L1. block_read L' p s = Some (sector_of ?L b (start + s), L1)) \<and>
      (\<exists>L2. block_write L' p s buf = Some L2 \<and>
         (\<forall>k < bsz. sector_of L2 b k = (if k = start + s then buf else sector_of ?L b k)))" if s: "s < sz" for s buf
  proof -
    have in_disk: "start + s < bsz" using True s by simp
    obtain d c where dc: "locate True (nesting ?L) ?L b (start + s) = Some (d, c)" "sector_of ?L b (start + s) = medium ?L d c"
      by (rule device_ok_locate [OF ok in_disk])
    have m: "medium L' = medium ?L" by (simp add: L'_def with_partition_def)
    have l: "locate True (nesting L') L' p s = Some (d, c)" using loc(2) [OF s] True s dc(1) by simp
    from block_read_n_locate [OF locate_write_read [OF l]] dc m
    have rd: "\<exists>L1. block_read L' p s = Some (sector_of ?L b (start + s), L1)" by (auto simp: block_read_def)
    from block_write_n_locate [OF l, of buf] obtain L2 where
      L2: "block_write L' p s buf = Some L2" "same_devices L' L2" "medium L2 = (medium ?L)(d := (medium ?L d)(c := buf))"
      by (auto simp: block_write_def m)
    have "sector_of L2 b k = (if k = start + s then buf else sector_of ?L b k)" if k: "k < bsz" for k
    proof -
      obtain d' c' where dc': "locate True (nesting ?L) ?L b k = Some (d', c')" "sector_of ?L b k = medium ?L d' c'"
        by (rule device_ok_locate [OF ok k])
      have "(d', c') = (d, c) \<longleftrightarrow> k = start + s"
        using ok k in_disk dc(1) dc'(1) by (auto simp: device_ok_def inj_on_def)
      moreover have "locate True (nesting L2) L2 b k = Some (d', c')"
        using loc(1) [OF k] True k dc'(1) by (simp add: same_devices_locate [OF L2(2)] same_devices_nesting [OF L2(2)])
      ultimately show ?thesis using dc' L2(3) by (auto simp: sector_of_def)
    qed
    with rd L2(1) show ?thesis by blast
  qed
  have "block_size L' p = Some sz" by (simp add: L'_def with_partition_def block_size_def)
  with True fp io show ?thesis by auto
qed

theorem found_partition_window_witness:
  "\<exists>st'. found_partition (\<lambda>k. 100 + k) \<lparr>layer = sample_layer blank, part_nr = 0, mallocs = 0\<rparr> 4 0x21 2 5 1 = Some st' \<and>
     block_size (layer st') 101 = Some 5 \<and>
     (\<exists>L2. block_write (layer st') 101 3 [7] = Some L2 \<and> sector_of L2 4 5 = [7] \<and> sector_of L2 4 3 = blank 3)"
proof -
  let ?st = "\<lparr>layer = sample_layer blank, part_nr = 0, mallocs = 0\<rparr>"
  have "device_ok (layer ?st) 4 8" "8 < SECTOR_WRAP" "2 < SECTOR_WRAP" "5 < SECTOR_WRAP"
    "partition_block_type 0x21 \<noteq> BLOCK_FOREIGN" "blocks (layer ?st) 101 = None"
    using blank_disk(1) by (simp_all add: SECTOR_WRAP_def partition_block_type_def sample_layer_def)
  note pre = this
  let ?io = "\<lambda>st' s buf. (\<exists>L1. block_read (layer st') 101 s = Some (sector_of (layer ?st) 4 (2 + s), L1)) \<and>
          (\<exists>L2. block_write (layer st') 101 s buf = Some L2 \<and>
             (\<forall>k < 8. sector_of L2 4 k = (if k = 2 + s then buf else sector_of (layer ?st) 4 k)))"
  have "if (2::nat) < 8 \<and> 2 + 5 \<le> (8::nat) then
      \<exists>st'. found_partition (\<lambda>k. 100 + k) ?st 4 0x21 2 5 1 = Some st' \<and> block_size (layer st') 101 = Some 5 \<and>
        (\<forall>s < 5. \<forall>buf. ?io st' s buf)
    else found_partition (\<lambda>k. 100 + k) ?st 4 0x21 2 5 1 = Some ?st"
    by (rule found_partition_window [OF pre(1-4) _ _ _ pre(6,5)]) simp_all
  then have "\<exists>st'. found_partition (\<lambda>k. 100 + k) ?st 4 0x21 2 5 1 = Some st' \<and> block_size (layer st') 101 = Some 5 \<and>
        (\<forall>s < 5. \<forall>buf. ?io st' s buf)" by (rule if_P [THEN iffD1, rotated]) simp
  then obtain st' where st': "found_partition (\<lambda>k. 100 + k) ?st 4 0x21 2 5 1 = Some st'" "block_size (layer st') 101 = Some 5"
    and io: "\<forall>s < 5. \<forall>buf. ?io st' s buf" by blast
  have "?io st' 3 [7]" by (rule io [rule_format]) simp
  then obtain L2 where "block_write (layer st') 101 3 [7] = Some L2"
    "\<forall>k < 8. sector_of L2 4 k = (if k = 5 then [7] else sector_of (sample_layer blank) 4 k)" by auto
  with st' sample_sector_of [of 3 blank] show ?thesis by auto
qed

text \<open>
  Reading a partition table that has an extended partition in its first entry never returns:
  \<^verbatim>\<open>read_partition_table\<close> reads sector 0 again at every level instead of the sector it was asked for, so
  no recursion depth is enough.
\<close>

theorem partition_scan_diverges:
  assumes "block_size L b = Some bsz" "device_ok L b bsz" "signature (sector_of L b 0) = 0xaa55"
    "part_size (get_entry (sector_of L b 0) 0) \<noteq> 0" "is_extended (part_type (get_entry (sector_of L b 0) 0))"
    "part_offset (get_entry (sector_of L b 0) 0) = o1" "0 < o1" "2 * o1 < bsz" "2 * o1 < SECTOR_WRAP"
    "\<And>k. fresh k \<noteq> NULL"
  shows "partition_scan depth fresh b L m = None"
proof -
  have "read_partition_table depth fresh b \<lparr>layer = L, part_nr = 0, mallocs = m\<rparr> 0 0 = None"
    by (rule read_partition_table_loops [OF assms(1-9)]) (use assms(10) in auto)
  then show ?thesis by (simp add: partition_scan_def)
qed

definition extended_mbr :: "byte list" where
  "extended_mbr = replicate 450 0 @ [5, 0, 0, 0, 1, 0, 0, 0, 4, 0, 0, 0] @ replicate 48 0 @ [0x55, 0xaa]"

theorem partition_scan_diverges_witness:
  "partition_scan 1000 (\<lambda>k. 100 + k) 4 (sample_layer (\<lambda>s. extended_mbr)) 0 = None"
proof -
  let ?L = "sample_layer (\<lambda>s. extended_mbr)"
  have ok: "device_ok ?L 4 8" by (rule sample_device_ok) (simp add: extended_mbr_def BLOCK_SECTOR_SIZE_def)
  have sec: "sector_of ?L 4 0 = extended_mbr" by (simp add: sample_sector_of)
  have e: "get_entry extended_mbr 0 = \<lparr>part_type = 5, part_offset = 1, part_size = 4\<rparr>"
    by (simp add: get_entry_def extended_mbr_def un_le32_def nth_append)
  have sig: "signature extended_mbr = 0xaa55" by (simp add: signature_def extended_mbr_def nth_append)
  have "block_size ?L 4 = Some 8" using ok by (simp add: device_ok_def)
  then show ?thesis
    by (rule partition_scan_diverges [OF _ ok, where ?o1.0 = 1]) (simp_all add: sec e sig is_extended_def SECTOR_WRAP_def)
qed

section \<open>The buffer cache\<close>

definition sevens :: "byte list" where
  "sevens = replicate BLOCK_SECTOR_SIZE 7"

definition sample_ops :: "sector_op list" where
  "sample_ops = [SWrite 3 sevens, SRead 3, SRead 2]"

lemma sample_ops_within: "ops_within 8 sample_ops"
  by (simp add: sample_ops_def sevens_def)

text \<open>
  C1: The buffer cache is invisible: for every sequence of sector reads and writes, \<^verbatim>\<open>cache_read\<close> and
  \<^verbatim>\<open>cache_write\<close> return what \<^verbatim>\<open>block_read\<close> and \<^verbatim>\<open>block_write\<close> on the bare device return, which is what an
  array of sectors returns, whatever is evicted on the way.
\<close>

theorem cache_equiv_device:
  assumes "cache_ok n c" "device_ok L b n" "\<forall>t < n. view c t = sector_of L b t" "ops_within n rest"
  shows "\<exists>out c' d'. run_ops cache_read cache_write c rest = Some (out, c') \<and>
    run_ops raw_read raw_write (L, b) rest = Some (out, d') \<and> out = fst (array_run (view c) rest) \<and>
    cache_ok n c' \<and> (\<forall>t < n. view c' t = sector_of (fst d') (snd d') t)"
  using bcache.run_array [OF assms(1,4), of "view c"] disk.run_array [where n = n and c = "(L, b)" and rest = rest and a = "view c"] assms by auto

theorem cache_equiv_device_witness:
  "\<exists>c' d'. run_ops cache_read cache_write (sample_cache blank) sample_ops = Some ([sevens, blank 2], c') \<and>
    run_ops raw_read raw_write (sample_layer blank, 4) sample_ops = Some ([sevens, blank 2], d')"
proof -
  have "\<forall>t < 8. view (sample_cache blank) t = sector_of (sample_layer blank) 4 t"
    by (simp add: blank_disk(3) sample_sector_of)
  from cache_equiv_device [OF blank_disk(2,1) this sample_ops_within] show ?thesis
    by (auto simp: sample_ops_def blank_disk(3))
qed

text \<open>
  C5: A shutdown makes everything durable: after any sequence of operations \<^verbatim>\<open>cache_close\<close> returns and
  leaves on the device exactly the sectors that an array of sectors would hold after the same sequence.
\<close>

theorem cache_close_durable:
  assumes "cache_ok n c" "ops_within n rest"
  shows "\<exists>out c1 c2. run_ops cache_read cache_write c rest = Some (out, c1) \<and> cache_close c1 = Some c2 \<and>
    (\<forall>t < n. sector_of (device c2) (fs_device c2) t = snd (array_run (view c) rest) t)"
proof -
  from bcache.run_array [OF assms, of "view c"] obtain c1 where
    c1: "run_ops cache_read cache_write c rest = Some (fst (array_run (view c) rest), c1)" "cache_ok n c1"
      "\<forall>t < n. view c1 t = snd (array_run (view c) rest) t" by blast
  obtain c2 where "cache_close c1 = Some c2" "stored c2 = view c1" by (rule cache_close_ok [OF c1(2)])
  with c1 show ?thesis by (auto simp: stored_def fun_eq_iff)
qed

theorem cache_close_durable_witness:
  "\<exists>out c1 c2. run_ops cache_read cache_write (sample_cache blank) sample_ops = Some (out, c1) \<and> cache_close c1 = Some c2 \<and>
    sector_of (device c2) (fs_device c2) 3 = sevens \<and> sector_of (device c2) (fs_device c2) 2 = blank 2"
  using cache_close_durable [OF blank_disk(2) sample_ops_within]
  by (fastforce simp: sample_ops_def blank_disk(3))

text \<open>
  C23: The clock algorithm of \<^verbatim>\<open>cache_replace_find\<close> ends for every state of the 64 entries that keeps the
  invariant of the cache (different sectors of the device in the valid entries) and any hand position, yields an entry that is free to use, and evicts without loss: the content of every sector
  as seen through the cache is unchanged.
\<close>

theorem cache_replace_find_safe:
  assumes "cache_inv n c" "cache_lock c"
  shows "\<exists>i c'. cache_replace_find c = Some (i, c') \<and> i < CACHE_SIZE \<and> \<not> valid (cache c' ! i) \<and>
    cache_inv n c' \<and> view c' = view c \<and> (\<forall>j s. cached c' j s \<longrightarrow> cached c j s)"
  by (rule cache_replace_find_ok [OF assms]) blast

theorem cache_replace_find_safe_witness:
  "\<exists>i c'. cache_replace_find ((sample_cache blank)\<lparr>cache_lock := True\<rparr>) = Some (i, c') \<and> i < 64 \<and> \<not> valid (cache c' ! i)"
proof -
  have "cache_inv 8 ((sample_cache blank)\<lparr>cache_lock := True\<rparr>)"
    using blank_disk(2) by (simp add: cache_ok_def lock_fields_inv)
  from cache_replace_find_safe [OF this] show ?thesis by (auto simp: CACHE_SIZE_def)
qed

end
