(* ===== verification/Inode.thy ===== *)
theory Inode
  imports Fs_Layout "HOL-Library.Signed_Division"
begin

text \<open>
  \<^verbatim>\<open>filesys/inode.c\<close> with the parts of \<^verbatim>\<open>filesys/free-map.c\<close>, \<^verbatim>\<open>filesys/file.c\<close> and
  \<^verbatim>\<open>lib/kernel/bitmap.c\<close> it is mutually recursive with: growing a file allocates sectors, which
  writes the free map to its file, which is a file again.

  Every function on that cycle takes the \<open>inode_write_at\<close> it calls as its argument \<open>wr\<close>, and
  \<open>inode_write_at\<close> itself recurses on the depth of the cycle.  \<^verbatim>\<open>inode_allocate\<close> works on a copy of
  \<^verbatim>\<open>inode->data\<close> that its caller stores back; the writes it causes are to the free map's inode.
\<close>

type_synonym writer = "fs \<Rightarrow> addr \<Rightarrow> byte list \<Rightarrow> int \<Rightarrow> int \<Rightarrow> (int \<times> fs) option"

section \<open>From byte offsets to sectors\<close>

definition bytes_to_sectors :: "int \<Rightarrow> nat \<Rightarrow> nat" where
  "bytes_to_sectors sz unit = ((nat (sz mod 2 ^ 32) + unit - 1) mod SECTOR_WRAP) div unit"

definition byte_to_sector :: "fs \<Rightarrow> addr \<Rightarrow> int \<Rightarrow> (nat \<times> fs) option" where
  "byte_to_sector f p ps = do {
     inode \<leftarrow> inodes f p;
     let di = data inode;
     if 0 \<le> ps \<and> ps < file_len di then do {
       let offset = nat ps div BLOCK_SECTOR_SIZE;
       if offset < DIRECT_INDEX_NUM then Some (direct_index di ! offset, f)
       else if offset < DIRECT_INDEX_NUM + INDIRECT_INDEX_SECTOR_NUM then do {
         let index_level_1 = offset - DIRECT_INDEX_NUM;
         let (iis, f) = malloc f;
         ASSERT (iis \<noteq> NULL);
         (b, f) \<leftarrow> fs_read f (indirect_index di);
         Some (words_of b ! index_level_1, f)
       }
       else if offset < DIRECT_INDEX_NUM + INDIRECT_INDEX_SECTOR_NUM + DOUBLY_INDIRECT_INDEX_SECTOR_NUM then do {
         let base_index = DIRECT_INDEX_NUM + INDIRECT_INDEX_SECTOR_NUM;
         let index_level_1 = (offset - base_index) div INDIRECT_INDEX_SECTOR_NUM;
         let index_level_2 = (offset - base_index) mod INDIRECT_INDEX_SECTOR_NUM;
         let (iis, f) = malloc f;
         ASSERT (iis \<noteq> NULL);
         (b, f) \<leftarrow> fs_read f (doubly_indirect_index di);
         (b, f) \<leftarrow> fs_read f (words_of b ! index_level_1);
         Some (words_of b ! index_level_2, f)
       }
       else Some (SECTOR_NONE, f)
     }
     else Some (SECTOR_NONE, f)
   }"

definition inode_length :: "fs \<Rightarrow> addr \<Rightarrow> int option" where
  "inode_length f p = map_option (\<lambda>i. file_len (data i)) (inodes f p)"

definition inode_get_inumber :: "fs \<Rightarrow> addr \<Rightarrow> nat option" where
  "inode_get_inumber f p = map_option sector (inodes f p)"

section \<open>Reading and writing data\<close>

text \<open>The number of bytes that one round of the loops copies.\<close>

definition chunk_size :: "int \<Rightarrow> int \<Rightarrow> int \<Rightarrow> int" where
  "chunk_size len sz offset =
     (let sector_ofs = offset smod int BLOCK_SECTOR_SIZE;
          inode_left = off_t (len - offset);
          sector_left = int BLOCK_SECTOR_SIZE - sector_ofs;
          min_left = (if inode_left < sector_left then inode_left else sector_left)
      in if sz < min_left then sz else min_left)"

text \<open>\<open>bounce\<close> says whether the bounce buffer was allocated in an earlier round.\<close>

definition get_bounce :: "fs \<Rightarrow> bool \<Rightarrow> bool \<times> fs" where
  "get_bounce f bounce = (if bounce then (True, f) else let (p, f) = malloc f in (p \<noteq> NULL, f))"

function read_loop :: "fs \<Rightarrow> addr \<Rightarrow> bool \<Rightarrow> int \<Rightarrow> int \<Rightarrow> byte list \<Rightarrow> (byte list \<times> fs) option" where
  "read_loop f p bounce sz offset got =
     (if sz > 0 then do {
        (sector_idx, f) \<leftarrow> byte_to_sector f p offset;
        len \<leftarrow> inode_length f p;
        let sector_ofs = offset smod int BLOCK_SECTOR_SIZE;
        let chunk = chunk_size len sz offset;
        if chunk \<le> 0 then Some (got, f)
        else if sector_ofs = 0 \<and> chunk = int BLOCK_SECTOR_SIZE then do {
          (b, f) \<leftarrow> fs_read f sector_idx;
          read_loop f p bounce (sz - chunk) (offset + chunk) (got @ b)
        }
        else do {
          let (ok, f) = get_bounce f bounce;
          if \<not> ok then Some (got, f)
          else do {
            (b, f) \<leftarrow> fs_read f sector_idx;
            read_loop f p True (sz - chunk) (offset + chunk) (got @ take (nat chunk) (drop (nat sector_ofs) b))
          }
        }
      } else Some (got, f))"
  by pat_completeness auto
termination
  by (relation "measure (\<lambda>(f, p, bounce, sz, offset, got). nat sz)") (auto simp: chunk_size_def)

declare read_loop.simps [simp del]

text \<open>The result is the bytes that were stored in the caller's buffer; their number is the return value.\<close>

definition inode_read_at :: "fs \<Rightarrow> addr \<Rightarrow> int \<Rightarrow> int \<Rightarrow> (byte list \<times> fs) option" where
  "inode_read_at f p sz offset = read_loop f p False sz offset []"

text \<open>\<^verbatim>\<open>memcpy (bounce + ofs, src, n)\<close>.\<close>

definition overwrite :: "'a list \<Rightarrow> nat \<Rightarrow> 'a list \<Rightarrow> 'a list" where
  "overwrite xs ofs src = take ofs xs @ src @ drop (ofs + length src) xs"

definition zeros :: "byte list" where
  "zeros = replicate BLOCK_SECTOR_SIZE 0"

function write_loop :: "fs \<Rightarrow> addr \<Rightarrow> byte list \<Rightarrow> bool \<Rightarrow> int \<Rightarrow> int \<Rightarrow> int \<Rightarrow> (int \<times> fs) option" where
  "write_loop f p buf bounce sz offset bytes_written =
     (if sz > 0 then do {
        (sector_idx, f) \<leftarrow> byte_to_sector f p offset;
        len \<leftarrow> inode_length f p;
        let sector_ofs = offset smod int BLOCK_SECTOR_SIZE;
        let sector_left = int BLOCK_SECTOR_SIZE - sector_ofs;
        let chunk = chunk_size len sz offset;
        let src = take (nat chunk) (drop (nat bytes_written) buf);
        if chunk \<le> 0 then Some (bytes_written, f)
        else if sector_ofs = 0 \<and> chunk = int BLOCK_SECTOR_SIZE then do {
          f \<leftarrow> fs_write f sector_idx src;
          write_loop f p buf bounce (sz - chunk) (offset + chunk) (bytes_written + chunk)
        }
        else do {
          let (ok, f) = get_bounce f bounce;
          if \<not> ok then Some (bytes_written, f)
          else do {
            (b, f) \<leftarrow> (if sector_ofs > 0 \<or> chunk < sector_left then fs_read f sector_idx else Some (zeros, f));
            f \<leftarrow> fs_write f sector_idx (overwrite b (nat sector_ofs) src);
            write_loop f p buf True (sz - chunk) (offset + chunk) (bytes_written + chunk)
          }
        }
      } else Some (bytes_written, f))"
  by pat_completeness auto
termination
  by (relation "measure (\<lambda>(f, p, buf, bounce, sz, offset, w). nat sz)") (auto simp: chunk_size_def)

declare write_loop.simps [simp del]

section \<open>The free map\<close>

definition file_write_at :: "writer \<Rightarrow> fs \<Rightarrow> addr \<Rightarrow> byte list \<Rightarrow> int \<Rightarrow> int \<Rightarrow> (int \<times> fs) option" where
  "file_write_at wr f fp buf sz file_ofs = do {
     fl \<leftarrow> files f fp;
     wr f (file_inode fl) buf sz file_ofs
   }"

text \<open>The elements of a bitmap in memory order.\<close>

definition bitmap_bytes :: "bitmap \<Rightarrow> byte list" where
  "bitmap_bytes b = bytes_of (map unat (bits b))"

definition bitmap_write :: "writer \<Rightarrow> fs \<Rightarrow> bitmap \<Rightarrow> addr \<Rightarrow> (bool \<times> fs) option" where
  "bitmap_write wr f b fp = do {
     let sz = off_t (int (byte_cnt (bit_cnt b)));
     (n, f) \<leftarrow> file_write_at wr f fp (bitmap_bytes b) sz 0;
     Some (n = sz, f)
   }"

text \<open>\<open>old\<close> is the value of \<^verbatim>\<open>*sectorp\<close> before the call; the result has the value after it.\<close>

definition free_map_allocate :: "writer \<Rightarrow> fs \<Rightarrow> nat \<Rightarrow> nat \<Rightarrow> (bool \<times> nat \<times> fs) option" where
  "free_map_allocate wr f cnt old = do {
     (sec, b) \<leftarrow> bitmap_scan_and_flip (free_map f) 0 cnt False;
     let f = f\<lparr>free_map := b\<rparr>;
     (sec, f) \<leftarrow> (if sec \<noteq> BITMAP_ERROR \<and> free_map_file f \<noteq> NULL then do {
         (ok, f) \<leftarrow> bitmap_write wr f (free_map f) (free_map_file f);
         if \<not> ok then do {
           b \<leftarrow> bitmap_set_multiple (free_map f) sec cnt False;
           Some (BITMAP_ERROR, f\<lparr>free_map := b\<rparr>)
         } else Some (sec, f)
       } else Some (sec, f));
     Some (sec \<noteq> BITMAP_ERROR, if sec \<noteq> BITMAP_ERROR then sec else old, f)
   }"

definition free_map_release :: "writer \<Rightarrow> fs \<Rightarrow> nat \<Rightarrow> nat \<Rightarrow> fs option" where
  "free_map_release wr f sec cnt = do {
     a \<leftarrow> bitmap_all (free_map f) sec cnt;
     ASSERT a;
     b \<leftarrow> bitmap_set_multiple (free_map f) sec cnt False;
     let f = f\<lparr>free_map := b\<rparr>;
     (_, f) \<leftarrow> bitmap_write wr f b (free_map_file f);
     Some f
   }"

section \<open>Allocation of the sectors of an inode\<close>

text \<open>The code that gives a block pointer a zeroed sector when it has none; the return value of
  \<^verbatim>\<open>free_map_allocate\<close> is not looked at.\<close>

definition alloc_entry :: "writer \<Rightarrow> fs \<Rightarrow> nat \<Rightarrow> (nat \<times> fs) option" where
  "alloc_entry wr f entry =
     (if entry = 0 then do {
        (_, entry, f) \<leftarrow> free_map_allocate wr f 1 entry;
        f \<leftarrow> fs_write f entry zeros;
        Some (entry, f)
      } else Some (entry, f))"

fun alloc_children :: "(fs \<Rightarrow> nat \<Rightarrow> nat \<Rightarrow> (nat \<times> fs) option) \<Rightarrow> nat \<Rightarrow> nat list \<Rightarrow> nat \<Rightarrow> nat \<Rightarrow> nat \<Rightarrow> fs \<Rightarrow> (nat list \<times> nat \<times> fs) option" where
  "alloc_children child unit blks i 0 num_sectors f = Some (blks, num_sectors, f)"
| "alloc_children child unit blks i (Suc left) num_sectors f =
     (if i < length blks then do {
        let per_size = (if num_sectors < unit then num_sectors else unit);
        (entry, f) \<leftarrow> child f (blks ! i) per_size;
        alloc_children child unit (blks[i := entry]) (i + 1) left (num_sectors - per_size) f
      } else None)"

primrec inode_allocate_indirect :: "nat \<Rightarrow> writer \<Rightarrow> fs \<Rightarrow> nat \<Rightarrow> nat \<Rightarrow> (nat \<times> fs) option" where
  "inode_allocate_indirect 0 wr f entry num_sectors = alloc_entry wr f entry"
| "inode_allocate_indirect (Suc level) wr f entry num_sectors = do {
     ASSERT (Suc level \<le> 2);
     (entry, f) \<leftarrow> alloc_entry wr f entry;
     (iis, f) \<leftarrow> fs_read f entry;
     let unit = (if Suc level = 1 then 1 else INDIRECT_INDEX_SECTOR_NUM);
     let l = bytes_to_sectors (int num_sectors) unit;
     (blks, num_sectors, f) \<leftarrow> alloc_children (inode_allocate_indirect level wr) unit (words_of iis) 0 l num_sectors f;
     ASSERT (num_sectors = 0);
     f \<leftarrow> fs_write f entry (bytes_of blks);
     Some (entry, f)
   }"

fun alloc_direct :: "writer \<Rightarrow> fs \<Rightarrow> inode_disk \<Rightarrow> nat \<Rightarrow> nat \<Rightarrow> (inode_disk \<times> fs) option" where
  "alloc_direct wr f di i 0 = Some (di, f)"
| "alloc_direct wr f di i (Suc left) = do {
     (entry, f) \<leftarrow> alloc_entry wr f (direct_index di ! i);
     alloc_direct wr f (di\<lparr>direct_index := (direct_index di)[i := entry]\<rparr>) (i + 1) left
   }"

definition inode_allocate :: "writer \<Rightarrow> fs \<Rightarrow> inode_disk \<Rightarrow> (bool \<times> inode_disk \<times> fs) option" where
  "inode_allocate wr f di =
     (if file_len di < 0 then Some (False, di, f)
      else do {
        let num_sectors = bytes_to_sectors (file_len di) BLOCK_SECTOR_SIZE;
        let l = min num_sectors DIRECT_INDEX_NUM;
        (di, f) \<leftarrow> alloc_direct wr f di 0 l;
        let num_sectors = num_sectors - l;
        if num_sectors = 0 then Some (True, di, f)
        else do {
          let l = min num_sectors INDIRECT_INDEX_SECTOR_NUM;
          (entry, f) \<leftarrow> inode_allocate_indirect 1 wr f (indirect_index di) l;
          let di = di\<lparr>indirect_index := entry\<rparr>;
          let num_sectors = num_sectors - l;
          if num_sectors = 0 then Some (True, di, f)
          else do {
            let l = min num_sectors DOUBLY_INDIRECT_INDEX_SECTOR_NUM;
            (entry, f) \<leftarrow> inode_allocate_indirect 2 wr f (doubly_indirect_index di) l;
            let di = di\<lparr>doubly_indirect_index := entry\<rparr>;
            let num_sectors = num_sectors - l;
            if num_sectors = 0 then Some (True, di, f)
            else do { ASSERT (num_sectors = 0); Some (False, di, f) }
          }
        }
      })"

fun dealloc_children :: "(fs \<Rightarrow> nat \<Rightarrow> nat \<Rightarrow> fs option) \<Rightarrow> nat \<Rightarrow> nat list \<Rightarrow> nat \<Rightarrow> nat \<Rightarrow> nat \<Rightarrow> fs \<Rightarrow> (nat \<times> fs) option" where
  "dealloc_children child unit blks i 0 num_sectors f = Some (num_sectors, f)"
| "dealloc_children child unit blks i (Suc left) num_sectors f =
     (if i < length blks then do {
        let subsize = (if num_sectors < unit then num_sectors else unit);
        f \<leftarrow> child f (blks ! i) subsize;
        dealloc_children child unit blks (i + 1) left (num_sectors - subsize) f
      } else None)"

primrec inode_deallocate_indirect :: "nat \<Rightarrow> writer \<Rightarrow> fs \<Rightarrow> nat \<Rightarrow> nat \<Rightarrow> fs option" where
  "inode_deallocate_indirect 0 wr f entry num_sectors = free_map_release wr f entry 1"
| "inode_deallocate_indirect (Suc level) wr f entry num_sectors = do {
     ASSERT (Suc level \<le> 2);
     (iis, f) \<leftarrow> fs_read f entry;
     let unit = (if Suc level = 1 then 1 else INDIRECT_INDEX_SECTOR_NUM);
     let l = bytes_to_sectors (int num_sectors) unit;
     (num_sectors, f) \<leftarrow> dealloc_children (inode_deallocate_indirect level wr) unit (words_of iis) 0 l num_sectors f;
     ASSERT (num_sectors = 0);
     free_map_release wr f entry 1
   }"

fun dealloc_direct :: "writer \<Rightarrow> fs \<Rightarrow> nat list \<Rightarrow> nat \<Rightarrow> nat \<Rightarrow> fs option" where
  "dealloc_direct wr f entries i 0 = Some f"
| "dealloc_direct wr f entries i (Suc left) = do {
     f \<leftarrow> free_map_release wr f (entries ! i) 1;
     dealloc_direct wr f entries (i + 1) left
   }"

definition inode_deallocate :: "writer \<Rightarrow> fs \<Rightarrow> addr \<Rightarrow> (bool \<times> fs) option" where
  "inode_deallocate wr f p = do {
     inode \<leftarrow> inodes f p;
     let di = data inode;
     if file_len di < 0 then Some (False, f)
     else do {
       let num_sectors = bytes_to_sectors (file_len di) BLOCK_SECTOR_SIZE;
       let l = min num_sectors DIRECT_INDEX_NUM;
       f \<leftarrow> dealloc_direct wr f (direct_index di) 0 l;
       let num_sectors = num_sectors - l;
       let l = min num_sectors INDIRECT_INDEX_SECTOR_NUM;
       f \<leftarrow> (if l > 0 then inode_deallocate_indirect 1 wr f (indirect_index di) l else Some f);
       let num_sectors = num_sectors - l;
       let l = min num_sectors DOUBLY_INDIRECT_INDEX_SECTOR_NUM;
       f \<leftarrow> (if l > 0 then inode_deallocate_indirect 2 wr f (doubly_indirect_index di) l else Some f);
       let num_sectors = num_sectors - l;
       ASSERT (num_sectors = 0);
       Some (True, f)
     }
   }"

section \<open>Writing, with growth\<close>

text \<open>\<open>set_data p d\<close>: assignment to \<^verbatim>\<open>inode->data\<close>.\<close>

definition set_data :: "fs \<Rightarrow> addr \<Rightarrow> inode_disk \<Rightarrow> fs option" where
  "set_data f p d = update_inode f p (\<lambda>i. i\<lparr>data := d\<rparr>)"

primrec inode_write_at_n :: "nat \<Rightarrow> writer" where
  "inode_write_at_n 0 = (\<lambda>f p buf sz offset. None)"
| "inode_write_at_n (Suc depth) = (\<lambda>f p buf sz offset. do {
     inode \<leftarrow> inodes f p;
     if deny_write_cnt inode \<noteq> 0 then Some (0, f)
     else do {
       (lst, f) \<leftarrow> byte_to_sector f p (off_t (offset + sz - 1));
       (success, f) \<leftarrow> (if lst = SECTOR_NONE then do {
           let di = (data inode)\<lparr>file_len := off_t (offset + sz)\<rparr>;
           f \<leftarrow> set_data f p di;
           (success, di, f) \<leftarrow> inode_allocate (inode_write_at_n depth) f di;
           f \<leftarrow> set_data f p di;
           if \<not> success then Some (False, f)
           else do {
             let di = di\<lparr>file_len := off_t (offset + sz)\<rparr>;
             f \<leftarrow> set_data f p di;
             f \<leftarrow> fs_write f (sector inode) (inode_disk_bytes di);
             Some (True, f)
           }
         } else Some (True, f));
       if \<not> success then Some (0, f)
       else write_loop f p buf False sz offset 0
     }
   })"

text \<open>The write of the free map does not grow it, so that two levels are used; see \<open>inode_write_at_depth\<close>.\<close>

definition WRITE_DEPTH :: nat where
  "WRITE_DEPTH = 4"

definition inode_write_at :: writer where
  "inode_write_at = inode_write_at_n WRITE_DEPTH"

section \<open>Life cycle\<close>

definition inode_init :: "fs \<Rightarrow> fs" where
  "inode_init f = f\<lparr>open_inodes := []\<rparr>"

definition inode_create :: "fs \<Rightarrow> nat \<Rightarrow> int \<Rightarrow> (bool \<times> fs) option" where
  "inode_create f sec len = do {
     ASSERT (len \<ge> 0);
     let (disk_inode, f) = malloc f;
     if disk_inode \<noteq> NULL then do {
       let di = \<lparr>file_len = len, direct_index = replicate DIRECT_INDEX_NUM 0, indirect_index = 0,
                 doubly_indirect_index = 0, magic = INODE_MAGIC\<rparr>;
       (ok, di, f) \<leftarrow> inode_allocate inode_write_at f di;
       if ok then do { f \<leftarrow> fs_write f sec (inode_disk_bytes di); Some (True, f) }
       else Some (False, f)
     } else Some (False, f)
   }"

definition inode_reopen :: "fs \<Rightarrow> addr \<Rightarrow> (addr \<times> fs) option" where
  "inode_reopen f p =
     (if p \<noteq> NULL then do { f \<leftarrow> update_inode f p (\<lambda>i. i\<lparr>open_cnt := open_cnt i + 1\<rparr>); Some (p, f) }
      else Some (p, f))"

fun find_open :: "fs \<Rightarrow> addr list \<Rightarrow> nat \<Rightarrow> addr option option" where
  "find_open f [] sec = Some None"
| "find_open f (p # ps) sec = do {
     inode \<leftarrow> inodes f p;
     if sector inode = sec then Some (Some p) else find_open f ps sec
   }"

definition inode_open :: "fs \<Rightarrow> nat \<Rightarrow> (addr \<times> fs) option" where
  "inode_open f sec = do {
     r \<leftarrow> find_open f (open_inodes f) sec;
     case r of
       Some p \<Rightarrow> inode_reopen f p
     | None \<Rightarrow> do {
         let (p, f) = malloc f;
         if p = NULL then Some (NULL, f)
         else do {
           let f = f\<lparr>open_inodes := p # open_inodes f\<rparr>;
           (b, f) \<leftarrow> fs_read f sec;
           let inode = \<lparr>sector = sec, open_cnt = 1, removed = False, deny_write_cnt = 0, data = bytes_inode_disk b\<rparr>;
           Some (p, f\<lparr>inodes := (inodes f)(p \<mapsto> inode)\<rparr>)
         }
       }
   }"

definition inode_close :: "fs \<Rightarrow> addr \<Rightarrow> fs option" where
  "inode_close f p =
     (if p = NULL then Some f
      else do {
        inode \<leftarrow> inodes f p;
        let inode = inode\<lparr>open_cnt := open_cnt inode - 1\<rparr>;
        let f = f\<lparr>inodes := (inodes f)(p \<mapsto> inode)\<rparr>;
        if open_cnt inode = 0 then do {
          let f = f\<lparr>open_inodes := remove1 p (open_inodes f)\<rparr>;
          f \<leftarrow> (if removed inode then do {
              f \<leftarrow> free_map_release inode_write_at f (sector inode) 1;
              (_, f) \<leftarrow> inode_deallocate inode_write_at f p;
              Some f
            } else Some f);
          Some (f\<lparr>inodes := (inodes f)(p := None)\<rparr>)
        } else Some f
      })"

definition inode_remove :: "fs \<Rightarrow> addr \<Rightarrow> fs option" where
  "inode_remove f p = update_inode f p (\<lambda>i. i\<lparr>removed := True\<rparr>)"

definition inode_deny_write :: "fs \<Rightarrow> addr \<Rightarrow> fs option" where
  "inode_deny_write f p = do {
     inode \<leftarrow> inodes f p;
     let inode = inode\<lparr>deny_write_cnt := deny_write_cnt inode + 1\<rparr>;
     ASSERT (deny_write_cnt inode \<le> open_cnt inode);
     Some (f\<lparr>inodes := (inodes f)(p \<mapsto> inode)\<rparr>)
   }"

definition inode_allow_write :: "fs \<Rightarrow> addr \<Rightarrow> fs option" where
  "inode_allow_write f p = do {
     inode \<leftarrow> inodes f p;
     ASSERT (deny_write_cnt inode > 0);
     ASSERT (deny_write_cnt inode \<le> open_cnt inode);
     Some (f\<lparr>inodes := (inodes f)(p \<mapsto> inode\<lparr>deny_write_cnt := deny_write_cnt inode - 1\<rparr>)\<rparr>)
   }"

end
