(* ===== verification/Inode_Data.thy ===== *)
theory Inode_Data
  imports Inode
begin

text \<open>
  What \<^verbatim>\<open>byte_to_sector\<close>, \<^verbatim>\<open>inode_read_at\<close> and \<^verbatim>\<open>inode_write_at\<close> mean for the bytes of a file.  The
  content of a file is a function of the sectors as the buffer cache shows them and of the inode:
  \<open>block_of\<close> follows the direct, indirect and doubly indirect pointers, \<open>file_bytes\<close> is the content.
\<close>

section \<open>Content of a file\<close>

definition MAX_SECTORS :: nat where
  "MAX_SECTORS = DIRECT_INDEX_NUM + INDIRECT_INDEX_SECTOR_NUM + DOUBLY_INDIRECT_INDEX_SECTOR_NUM"

lemmas index_sizes = DIRECT_INDEX_NUM_def INDIRECT_INDEX_SECTOR_NUM_def DOUBLY_INDIRECT_INDEX_SECTOR_NUM_def

definition block_of :: "(nat \<Rightarrow> byte list) \<Rightarrow> inode_disk \<Rightarrow> nat \<Rightarrow> nat" where
  "block_of v d k =
     (if k < DIRECT_INDEX_NUM then direct_index d ! k
      else if k < DIRECT_INDEX_NUM + INDIRECT_INDEX_SECTOR_NUM then words_of (v (indirect_index d)) ! (k - DIRECT_INDEX_NUM)
      else let k' = k - (DIRECT_INDEX_NUM + INDIRECT_INDEX_SECTOR_NUM) in
        words_of (v (words_of (v (doubly_indirect_index d)) ! (k' div INDIRECT_INDEX_SECTOR_NUM))) ! (k' mod INDIRECT_INDEX_SECTOR_NUM))"

text \<open>The index sectors on the way to block \<open>k\<close>.\<close>

definition index_of :: "(nat \<Rightarrow> byte list) \<Rightarrow> inode_disk \<Rightarrow> nat \<Rightarrow> nat list" where
  "index_of v d k =
     (if k < DIRECT_INDEX_NUM then []
      else if k < DIRECT_INDEX_NUM + INDIRECT_INDEX_SECTOR_NUM then [indirect_index d]
      else let k' = k - (DIRECT_INDEX_NUM + INDIRECT_INDEX_SECTOR_NUM) in
        [doubly_indirect_index d, words_of (v (doubly_indirect_index d)) ! (k' div INDIRECT_INDEX_SECTOR_NUM)])"

definition block_cnt :: "inode_disk \<Rightarrow> nat" where
  "block_cnt d = DIV_ROUND_UP (nat (file_len d)) BLOCK_SECTOR_SIZE"

definition file_byte :: "(nat \<Rightarrow> byte list) \<Rightarrow> inode_disk \<Rightarrow> nat \<Rightarrow> byte" where
  "file_byte v d j = v (block_of v d (j div BLOCK_SECTOR_SIZE)) ! (j mod BLOCK_SECTOR_SIZE)"

definition file_bytes :: "(nat \<Rightarrow> byte list) \<Rightarrow> inode_disk \<Rightarrow> byte list" where
  "file_bytes v d = map (file_byte v d) [0..<nat (file_len d)]"

text \<open>All pointers of the inode up to its length designate sectors of the device.\<close>

definition mapped :: "nat \<Rightarrow> (nat \<Rightarrow> byte list) \<Rightarrow> inode_disk \<Rightarrow> bool" where
  "mapped n v d \<longleftrightarrow> 0 \<le> file_len d \<and> file_len d < 2 ^ 31 \<and> block_cnt d \<le> MAX_SECTORS \<and>
     (\<forall>k<block_cnt d. block_of v d k < n \<and> (\<forall>x\<in>set (index_of v d k). x < n))"

lemma length_file_bytes [simp]: "length (file_bytes v d) = nat (file_len d)"
  by (simp add: file_bytes_def)

lemma block_in_range:
  assumes "0 \<le> ps" "ps < file_len d"
  shows "nat ps div BLOCK_SECTOR_SIZE < block_cnt d"
  unfolding block_cnt_def using assms by (intro DIV_ROUND_UP_less) (auto simp: BLOCK_SECTOR_SIZE_def)

section \<open>Steps that only read\<close>

definition quiet :: "nat \<Rightarrow> fs \<Rightarrow> fs \<Rightarrow> bool" where
  "quiet n f f' \<longleftrightarrow> cache_ok n (bc f') \<and> view (bc f') = view (bc f) \<and> f' = f\<lparr>bc := bc f', mem_cnt := mem_cnt f'\<rparr>"

lemma quiet_refl: "cache_ok n (bc f) \<Longrightarrow> quiet n f f"
  by (simp add: quiet_def)

lemma quiet_trans: "quiet n f f' \<Longrightarrow> quiet n f' f'' \<Longrightarrow> quiet n f f''"
  unfolding quiet_def by (metis fs.surjective fs.update_convs(1) fs.update_convs(8) fs.select_convs)

lemma quiet_fields:
  assumes "quiet n f f'"
  shows "cache_ok n (bc f')" "view (bc f') = view (bc f)" "inodes f' = inodes f" "mem_avail f' = mem_avail f"
    "free_map f' = free_map f" "free_map_file f' = free_map_file f" "files f' = files f" "open_inodes f' = open_inodes f"
proof -
  have f': "f' = f\<lparr>bc := bc f', mem_cnt := mem_cnt f'\<rparr>" using assms by (simp add: quiet_def)
  from arg_cong [OF f', of inodes] arg_cong [OF f', of mem_avail] arg_cong [OF f', of free_map]
    arg_cong [OF f', of free_map_file] arg_cong [OF f', of files] arg_cong [OF f', of open_inodes]
  show "inodes f' = inodes f" "mem_avail f' = mem_avail f" "free_map f' = free_map f"
    "free_map_file f' = free_map_file f" "files f' = files f" "open_inodes f' = open_inodes f" by simp_all
qed (use assms in \<open>auto simp: quiet_def\<close>)

lemma fs_read_ok:
  assumes "cache_ok n (bc f)" "s < n"
  obtains f' where "fs_read f s = Some (view (bc f) s, f')" "quiet n f f'"
  by (rule cache_read_ok [OF assms]) (auto simp: fs_read_def quiet_def intro!: that)

lemma malloc_ok:
  assumes "\<forall>k. mem_avail f k" "cache_ok n (bc f)"
  obtains p f' where "malloc f = (p, f')" "p \<noteq> NULL" "quiet n f f'"
  using assms by (auto simp: malloc_def quiet_def intro!: that)

lemma get_bounce_ok:
  assumes "\<forall>k. mem_avail f k" "cache_ok n (bc f)"
  obtains f' where "get_bounce f b = (True, f')" "quiet n f f'"
  using assms by (cases b) (auto simp: get_bounce_def malloc_def quiet_def intro!: that)

section \<open>Following the pointers\<close>

lemma byte_to_sector_outside:
  assumes "inodes f p = Some i" "\<not> (0 \<le> ps \<and> ps < file_len (data i))"
  shows "byte_to_sector f p ps = Some (SECTOR_NONE, f)"
  using assms by (auto simp: byte_to_sector_def Let_def)

lemma byte_to_sector_inside:
  assumes i: "inodes f p = Some i" and ok: "cache_ok n (bc f)" and mem: "\<forall>k. mem_avail f k"
    and m: "mapped n (view (bc f)) (data i)" and ps: "0 \<le> ps" "ps < file_len (data i)"
  obtains f' where "byte_to_sector f p ps = Some (block_of (view (bc f)) (data i) (nat ps div BLOCK_SECTOR_SIZE), f')"
    "quiet n f f'"
proof -
  let ?v = "view (bc f)" and ?d = "data i"
  define k where "k = nat ps div BLOCK_SECTOR_SIZE"
  have k: "k < block_cnt ?d" unfolding k_def by (rule block_in_range [OF ps])
  then have kmax: "k < MAX_SECTORS" and idx: "\<forall>x\<in>set (index_of ?v ?d k). x < n" using m by (auto simp: mapped_def)
  consider (direct) "k < DIRECT_INDEX_NUM"
    | (indirect) "\<not> k < DIRECT_INDEX_NUM" "k < DIRECT_INDEX_NUM + INDIRECT_INDEX_SECTOR_NUM"
    | (doubly) "\<not> k < DIRECT_INDEX_NUM" "\<not> k < DIRECT_INDEX_NUM + INDIRECT_INDEX_SECTOR_NUM" by blast
  then show thesis
  proof cases
    case direct
    then show thesis using i ps quiet_refl [OF ok]
      by (intro that [of f]) (auto simp: byte_to_sector_def k_def block_of_def Let_def)
  next
    case indirect
    obtain q f1 where f1: "malloc f = (q, f1)" "q \<noteq> NULL" "quiet n f f1" by (rule malloc_ok [OF mem ok])
    have lt: "indirect_index ?d < n" using idx indirect by (simp add: index_of_def)
    obtain f2 where f2: "fs_read f1 (indirect_index ?d) = Some (view (bc f1) (indirect_index ?d), f2)" "quiet n f1 f2"
      by (rule fs_read_ok [OF quiet_fields(1) [OF f1(3)] lt])
    with indirect f1 i ps quiet_trans [OF f1(3) f2(2)] show thesis
      by (intro that [of f2]) (auto simp: byte_to_sector_def k_def block_of_def Let_def quiet_fields(2) [OF f1(3)])
  next
    case doubly
    let ?j = "(k - (DIRECT_INDEX_NUM + INDIRECT_INDEX_SECTOR_NUM)) div INDIRECT_INDEX_SECTOR_NUM"
    let ?s = "words_of (?v (doubly_indirect_index ?d)) ! ?j"
    obtain q f1 where f1: "malloc f = (q, f1)" "q \<noteq> NULL" "quiet n f f1" by (rule malloc_ok [OF mem ok])
    have lt: "doubly_indirect_index ?d < n" "?s < n" using idx doubly by (simp_all add: index_of_def Let_def)
    obtain f2 where f2: "fs_read f1 (doubly_indirect_index ?d) = Some (view (bc f1) (doubly_indirect_index ?d), f2)"
      "quiet n f1 f2" by (rule fs_read_ok [OF quiet_fields(1) [OF f1(3)] lt(1)])
    obtain f3 where f3: "fs_read f2 ?s = Some (view (bc f2) ?s, f3)" "quiet n f2 f3"
      by (rule fs_read_ok [OF quiet_fields(1) [OF f2(2)] lt(2)])
    have "view (bc f1) = ?v" "view (bc f2) = ?v" using f1(3) f2(2) by (simp_all add: quiet_fields(2))
    with doubly f1 f2 f3 i ps kmax quiet_trans [OF quiet_trans [OF f1(3) f2(2)] f3(2)] show thesis
      by (intro that [of f3]) (auto simp: byte_to_sector_def k_def block_of_def Let_def MAX_SECTORS_def)
  qed
qed

section \<open>Reading\<close>

lemma chunk_size_eq:
  assumes "0 \<le> offset" "0 \<le> len" "len < 2 ^ 31" "offset < 2 ^ 31"
  shows "chunk_size len sz offset =
    min sz (min (len - offset) (int BLOCK_SECTOR_SIZE - offset mod int BLOCK_SECTOR_SIZE))"
proof -
  have "offset smod int BLOCK_SECTOR_SIZE = offset mod int BLOCK_SECTOR_SIZE"
    using assms by (simp add: signed_modulo_int_def signed_divide_int_def BLOCK_SECTOR_SIZE_def
        mod_eq_0_iff_dvd minus_mult_div_eq_mod sgn_if)
  with assms show ?thesis by (auto simp: chunk_size_def Let_def)
qed

lemma smod_sector: "0 \<le> offset \<Longrightarrow> offset smod int BLOCK_SECTOR_SIZE = offset mod int BLOCK_SECTOR_SIZE"
  by (simp add: signed_modulo_int_def signed_divide_int_def BLOCK_SECTOR_SIZE_def minus_mult_div_eq_mod sgn_if)

lemma div_mod_within_sector:
  fixes ofs :: nat
  assumes "ofs mod BLOCK_SECTOR_SIZE + c \<le> BLOCK_SECTOR_SIZE" "j < c"
  shows "(ofs + j) div BLOCK_SECTOR_SIZE = ofs div BLOCK_SECTOR_SIZE"
    "(ofs + j) mod BLOCK_SECTOR_SIZE = ofs mod BLOCK_SECTOR_SIZE + j"
proof -
  let ?q = "ofs div BLOCK_SECTOR_SIZE" and ?r = "ofs mod BLOCK_SECTOR_SIZE"
  have "ofs + j = ?q * BLOCK_SECTOR_SIZE + (?r + j)" by simp
  moreover have "?r + j < BLOCK_SECTOR_SIZE" using assms by simp
  ultimately show "(ofs + j) div BLOCK_SECTOR_SIZE = ?q" "(ofs + j) mod BLOCK_SECTOR_SIZE = ?r + j"
    by (metis add.commute div_mult_self1 div_less add.right_neutral BLOCK_SECTOR_SIZE_def zero_neq_numeral add_0,
        metis mod_mult_self3 mod_less)
qed

lemma sector_slice:
  assumes "length (v (block_of v d (ofs div BLOCK_SECTOR_SIZE))) = BLOCK_SECTOR_SIZE"
    "ofs mod BLOCK_SECTOR_SIZE + c \<le> BLOCK_SECTOR_SIZE"
  shows "take c (drop (ofs mod BLOCK_SECTOR_SIZE) (v (block_of v d (ofs div BLOCK_SECTOR_SIZE)))) =
    map (file_byte v d) [ofs..<ofs + c]"
  by (rule nth_equalityI) (use assms in \<open>auto simp: file_byte_def div_mod_within_sector\<close>)

lemma read_loop_ok:
  assumes "inodes f p = Some i" "cache_ok n (bc f)" "\<forall>k. mem_avail f k"
    "mapped n (view (bc f)) (data i)" "0 \<le> offset" "offset < 2 ^ 31"
  shows "\<exists>f'. read_loop f p bounce sz offset got = Some (got @ map (file_byte (view (bc f)) (data i))
      [nat offset..<nat offset + nat (min sz (file_len (data i) - offset))], f') \<and> quiet n f f'"
  using assms
proof (induction "nat sz" arbitrary: f sz offset got bounce rule: less_induct)
  case less
  let ?v = "view (bc f)" and ?d = "data i" and ?B = BLOCK_SECTOR_SIZE
  let ?len = "file_len ?d"
  note i = less.prems(1) and ok = less.prems(2) and mem = less.prems(3) and m = less.prems(4)
    and ofs = less.prems(5,6)
  have len: "0 \<le> ?len" "?len < 2 ^ 31" using m by (auto simp: mapped_def)
  show ?case
  proof (cases "sz > 0 \<and> offset < ?len")
    case False
    show ?thesis
    proof (cases "sz > 0")
      case True
      with False have out: "\<not> (0 \<le> offset \<and> offset < ?len)" by simp
      have "chunk_size ?len sz offset \<le> 0" using True False ofs len by (simp add: chunk_size_eq)
      with True False out i ok ofs show ?thesis
        by (auto simp: read_loop.simps [of f] byte_to_sector_outside [OF i out] inode_length_def Let_def
            intro: quiet_refl)
    qed (use ok in \<open>auto simp: read_loop.simps [of f] intro: quiet_refl\<close>)
  next
    case True
    define c where "c = min sz (min (?len - offset) (int ?B - offset mod int ?B))"
    have c: "chunk_size ?len sz offset = c" unfolding c_def using ofs len by (simp add: chunk_size_eq)
    have cpos: "0 < c" using True unfolding c_def by (simp add: BLOCK_SECTOR_SIZE_def)
    have sofs: "nat (offset mod int ?B) = nat offset mod ?B" using ofs by (simp add: nat_mod_distrib)
    have "int (nat offset mod ?B) = offset mod int ?B" using ofs by (simp add: of_nat_mod)
    moreover have "c \<le> int ?B - offset mod int ?B" unfolding c_def by simp
    ultimately have fits: "nat offset mod ?B + nat c \<le> ?B" using cpos by linarith
    let ?s = "block_of ?v ?d (nat offset div ?B)"
    obtain f1 where f1: "byte_to_sector f p offset = Some (?s, f1)" "quiet n f f1"
      by (rule byte_to_sector_inside [OF i ok mem m ofs(1)]) (use True in auto)
    note q1 = quiet_fields [OF f1(2)]
    have sn: "?s < n" using m block_in_range [of offset ?d] ofs(1) True by (simp add: mapped_def)
    have blen: "length (?v ?s) = ?B" using view_length sn ok by (auto simp: cache_ok_def)
    have l1: "inode_length f1 p = Some ?len" by (simp add: inode_length_def q1 i)
    obtain f2 where f2: "get_bounce f1 bounce = (True, f2)" "quiet n f1 f2"
      by (rule get_bounce_ok [of f1 n bounce]) (use mem q1 in auto)
    define full where "full \<longleftrightarrow> offset mod int ?B = 0 \<and> c = int ?B"
    define g where "g = (if full then f1 else f2)"
    have qg: "quiet n f g" using f1(2) f2(2) quiet_trans by (auto simp: g_def)
    note qgf = quiet_fields [OF qg]
    obtain f3 where f3: "fs_read g ?s = Some (view (bc g) ?s, f3)" "quiet n g f3"
      by (rule fs_read_ok [OF qgf(1) sn])
    have q3: "quiet n f f3" using qg f3(2) quiet_trans by blast
    note q3f = quiet_fields [OF q3]
    let ?part = "map (file_byte ?v ?d) [nat offset..<nat offset + nat c]"
    have part: "take (nat c) (drop (nat (offset mod int ?B)) (?v ?s)) = ?part"
      unfolding sofs by (rule sector_slice [where v = "view (bc f)", OF blen fits])
    have whole: "?v ?s = ?part" if full
      using part that blen unfolding full_def by simp
    have step: "read_loop f p bounce sz offset got =
        read_loop f3 p (bounce \<or> \<not> full) (sz - c) (offset + c) (got @ ?part)"
      using True cpos f1(1) l1 f2(1) f3(1) part whole qgf(2) smod_sector [OF ofs(1)]
      by (cases full) (auto simp: read_loop.simps [of f] c Let_def g_def full_def)
    have "\<exists>f'. read_loop f3 p (bounce \<or> \<not> full) (sz - c) (offset + c) (got @ ?part) =
        Some ((got @ ?part) @ map (file_byte (view (bc f3)) ?d) [nat (offset + c)..<nat (offset + c) +
          nat (min (sz - c) (?len - (offset + c)))], f') \<and> quiet n f3 f'"
      by (rule less.hyps) (use True cpos i q3f mem m ofs len c_def in auto)
    then obtain f' where f': "read_loop f3 p (bounce \<or> \<not> full) (sz - c) (offset + c) (got @ ?part) =
        Some ((got @ ?part) @ map (file_byte ?v ?d) [nat (offset + c)..<nat (offset + c) +
          nat (min (sz - c) (?len - (offset + c)))], f')" "quiet n f3 f'" by (auto simp: q3f)
    have "c \<le> sz" "c \<le> ?len - offset" unfolding c_def by auto
    then have split: "[nat offset..<nat offset + nat (min sz (?len - offset))] =
        [nat offset..<nat offset + nat c] @ [nat (offset + c)..<nat (offset + c) + nat (min (sz - c) (?len - (offset + c)))]"
    proof -
      have e: "nat (offset + c) = nat offset + nat c" using ofs cpos by simp
      have "nat (min sz (?len - offset)) = nat c + nat (min (sz - c) (?len - (offset + c)))"
        using \<open>c \<le> sz\<close> \<open>c \<le> ?len - offset\<close> cpos by (auto simp: min_def nat_add_distrib [symmetric])
      then show ?thesis unfolding e
        using upt_add_eq_append [of "nat offset" "nat offset + nat c" "nat (min (sz - c) (?len - (offset + c)))"]
        by (simp only: add.assoc le_add1 simp_thms)
    qed
    show ?thesis
      unfolding step f'(1) using split quiet_trans [OF q3 f'(2)] by auto
  qed
qed

lemma take_drop_file_bytes:
  "take c (drop ofs (file_bytes v d)) = map (file_byte v d) [ofs..<ofs + min c (nat (file_len d) - ofs)]"
  by (rule nth_equalityI) (auto simp: file_bytes_def)

lemma inode_read_at_ok:
  assumes "inodes f p = Some i" "cache_ok n (bc f)" "\<forall>k. mem_avail f k"
    "mapped n (view (bc f)) (data i)" "0 \<le> offset" "offset < 2 ^ 31"
  obtains f' where "inode_read_at f p sz offset =
      Some (take (nat sz) (drop (nat offset) (file_bytes (view (bc f)) (data i))), f')" "quiet n f f'"
proof -
  have "nat (min sz (file_len (data i) - offset)) = min (nat sz) (nat (file_len (data i)) - nat offset)"
    using assms(5) by (auto simp: min_def nat_diff_distrib')
  with read_loop_ok [OF assms, of False sz "[]"] that show thesis
    by (auto simp: inode_read_at_def take_drop_file_bytes)
qed

section \<open>Writing in place\<close>

lemma length_overwrite [simp]: "ofs + length src \<le> length xs \<Longrightarrow> length (overwrite xs ofs src) = length xs"
  by (simp add: overwrite_def)

lemma nth_overwrite:
  "ofs + length src \<le> length xs \<Longrightarrow> j < length xs \<Longrightarrow>
   overwrite xs ofs src ! j = (if ofs \<le> j \<and> j < ofs + length src then src ! (j - ofs) else xs ! j)"
  by (auto simp: overwrite_def nth_append)

lemma overwrite_append:
  "ofs + length a + length b \<le> length xs \<Longrightarrow>
   overwrite (overwrite xs ofs a) (ofs + length a) b = overwrite xs ofs (a @ b)"
  by (rule nth_equalityI) (auto simp: nth_overwrite nth_append)

lemma overwrite_Nil [simp]: "overwrite xs ofs [] = xs"
  by (simp add: overwrite_def)

lemma overwrite_whole: "length src = length xs \<Longrightarrow> overwrite xs 0 src = src"
  by (simp add: overwrite_def)

text \<open>The data sectors of the file are different sectors, and none of them is an index sector.\<close>

definition apart :: "(nat \<Rightarrow> byte list) \<Rightarrow> inode_disk \<Rightarrow> bool" where
  "apart v d \<longleftrightarrow> inj_on (block_of v d) {..<block_cnt d} \<and>
     (\<forall>j<block_cnt d. \<forall>k<block_cnt d. block_of v d k \<notin> set (index_of v d j))"

definition data_sectors :: "(nat \<Rightarrow> byte list) \<Rightarrow> inode_disk \<Rightarrow> nat set" where
  "data_sectors v d = block_of v d ` {..<block_cnt d}"

lemma same_index:
  assumes "\<forall>x\<in>set (index_of v d k). v' x = v x"
  shows "block_of v' d k = block_of v d k" "index_of v' d k = index_of v d k"
  using assms by (auto simp: block_of_def index_of_def Let_def split: if_splits)

lemma write_sector_content:
  fixes b
  assumes "apart v d" "k < block_cnt d"
  defines "v' \<equiv> v(block_of v d k := b)"
  shows "\<And>j. j < block_cnt d \<Longrightarrow> block_of v' d j = block_of v d j"
    and "mapped n v d \<Longrightarrow> mapped n v' d" and "apart v' d" and "data_sectors v' d = data_sectors v d"
    and "\<And>j. int j < file_len d \<Longrightarrow>
      file_byte v' d j = (if j div BLOCK_SECTOR_SIZE = k then b ! (j mod BLOCK_SECTOR_SIZE) else file_byte v d j)"
proof -
  have idx: "\<forall>x\<in>set (index_of v d j). v' x = v x" if "j < block_cnt d" for j
    using assms that by (auto simp: apart_def)
  then show blk: "block_of v' d j = block_of v d j" if "j < block_cnt d" for j
    using that by (intro same_index) auto
  have ind: "index_of v' d j = index_of v d j" if "j < block_cnt d" for j
    using that idx by (intro same_index) auto
  show "mapped n v d \<Longrightarrow> mapped n v' d" using blk ind by (auto simp: mapped_def)
  show "apart v' d" using assms(1) blk ind by (auto simp: apart_def inj_on_def)
  show "data_sectors v' d = data_sectors v d" using blk by (simp add: data_sectors_def)
  fix j assume "int j < file_len d"
  then have j: "j div BLOCK_SECTOR_SIZE < block_cnt d" using block_in_range [of "int j" d] by simp
  have "block_of v d (j div BLOCK_SECTOR_SIZE) = block_of v d k \<longleftrightarrow> j div BLOCK_SECTOR_SIZE = k"
    using assms(1,2) j by (auto simp: apart_def inj_on_def)
  then show "file_byte v' d j = (if j div BLOCK_SECTOR_SIZE = k then b ! (j mod BLOCK_SECTOR_SIZE) else file_byte v d j)"
    using blk [OF j] by (simp add: file_byte_def v'_def)
qed

lemma write_chunk_content:
  assumes ap: "apart v d" and ofs: "ofs + length src \<le> nat (file_len d)" "src \<noteq> []"
    and fits: "ofs mod BLOCK_SECTOR_SIZE + length src \<le> BLOCK_SECTOR_SIZE"
    and len: "length (v (block_of v d (ofs div BLOCK_SECTOR_SIZE))) = BLOCK_SECTOR_SIZE"
  defines "s \<equiv> block_of v d (ofs div BLOCK_SECTOR_SIZE)"
  shows "file_bytes (v(s := overwrite (v s) (ofs mod BLOCK_SECTOR_SIZE) src)) d = overwrite (file_bytes v d) ofs src"
    (is "file_bytes ?v' d = _")
proof (rule nth_equalityI)
  have k: "ofs div BLOCK_SECTOR_SIZE < block_cnt d"
    using block_in_range [of "int ofs" d] ofs by (cases src) auto
  show "length (file_bytes ?v' d) = length (overwrite (file_bytes v d) ofs src)" using ofs by simp
  fix j assume "j < length (file_bytes ?v' d)"
  then have j: "j < nat (file_len d)" by simp
  then have lhs: "file_bytes ?v' d ! j = (if j div BLOCK_SECTOR_SIZE = ofs div BLOCK_SECTOR_SIZE
      then overwrite (v s) (ofs mod BLOCK_SECTOR_SIZE) src ! (j mod BLOCK_SECTOR_SIZE) else file_byte v d j)"
    unfolding s_def using write_sector_content(5) [OF ap k, of j] by (simp add: file_bytes_def)
  have rhs: "overwrite (file_bytes v d) ofs src ! j =
      (if ofs \<le> j \<and> j < ofs + length src then src ! (j - ofs) else file_byte v d j)"
    using ofs j by (simp add: nth_overwrite file_bytes_def)
  show "file_bytes ?v' d ! j = overwrite (file_bytes v d) ofs src ! j"
  proof (cases "j div BLOCK_SECTOR_SIZE = ofs div BLOCK_SECTOR_SIZE")
    case True
    have "j = ofs div BLOCK_SECTOR_SIZE * BLOCK_SECTOR_SIZE + j mod BLOCK_SECTOR_SIZE"
      "ofs = ofs div BLOCK_SECTOR_SIZE * BLOCK_SECTOR_SIZE + ofs mod BLOCK_SECTOR_SIZE"
      using True by (metis div_mult_mod_eq)+
    then have rel: "ofs \<le> j \<longleftrightarrow> ofs mod BLOCK_SECTOR_SIZE \<le> j mod BLOCK_SECTOR_SIZE"
      "j < ofs + length src \<longleftrightarrow> j mod BLOCK_SECTOR_SIZE < ofs mod BLOCK_SECTOR_SIZE + length src"
      "j - ofs = j mod BLOCK_SECTOR_SIZE - ofs mod BLOCK_SECTOR_SIZE" by linarith+
    have "file_byte v d j = v s ! (j mod BLOCK_SECTOR_SIZE)" using True by (simp add: file_byte_def s_def)
    moreover have "j mod BLOCK_SECTOR_SIZE < length (v s)" using len by (simp add: s_def BLOCK_SECTOR_SIZE_def)
    ultimately show ?thesis
      unfolding lhs rhs rel using True fits len by (simp add: nth_overwrite s_def)
  next
    case False
    have "\<not> (ofs \<le> j \<and> j < ofs + length src)"
    proof
      assume a: "ofs \<le> j \<and> j < ofs + length src"
      then have "(ofs + (j - ofs)) div BLOCK_SECTOR_SIZE = ofs div BLOCK_SECTOR_SIZE"
        by (intro div_mod_within_sector [OF fits]) auto
      with a False show False by simp
    qed
    with False show ?thesis unfolding lhs rhs by auto
  qed
qed

text \<open>The effect of a write on the state: only data sectors of the inode \<open>d\<close> change.\<close>

definition wrote :: "nat \<Rightarrow> nat set \<Rightarrow> fs \<Rightarrow> fs \<Rightarrow> bool" where
  "wrote n S f f' \<longleftrightarrow> cache_ok n (bc f') \<and> (\<forall>t. t \<notin> S \<longrightarrow> view (bc f') t = view (bc f) t) \<and>
     f' = f\<lparr>bc := bc f', mem_cnt := mem_cnt f'\<rparr>"

lemma wrote_fields:
  assumes "wrote n S f f'"
  shows "cache_ok n (bc f')" "inodes f' = inodes f" "mem_avail f' = mem_avail f"
    "free_map f' = free_map f" "free_map_file f' = free_map_file f" "files f' = files f" "open_inodes f' = open_inodes f"
proof -
  have f': "f' = f\<lparr>bc := bc f', mem_cnt := mem_cnt f'\<rparr>" using assms by (simp add: wrote_def)
  from arg_cong [OF f', of inodes] arg_cong [OF f', of mem_avail] arg_cong [OF f', of free_map]
    arg_cong [OF f', of free_map_file] arg_cong [OF f', of files] arg_cong [OF f', of open_inodes]
  show "inodes f' = inodes f" "mem_avail f' = mem_avail f" "free_map f' = free_map f"
    "free_map_file f' = free_map_file f" "files f' = files f" "open_inodes f' = open_inodes f" by simp_all
qed (use assms in \<open>auto simp: wrote_def\<close>)

lemma quiet_wrote: "quiet n f f' \<Longrightarrow> wrote n S f f'"
  by (simp add: quiet_def wrote_def)

lemma wrote_trans: "wrote n S f f' \<Longrightarrow> wrote n S f' f'' \<Longrightarrow> wrote n S f f''"
  unfolding wrote_def by (metis fs.surjective fs.update_convs(1) fs.update_convs(8) fs.select_convs)

lemma fs_write_ok:
  assumes "cache_ok n (bc f)" "s < n" "length b = BLOCK_SECTOR_SIZE"
  obtains f' where "fs_write f s b = Some f'" "view (bc f') = (view (bc f))(s := b)" "wrote n {s} f f'"
  by (rule cache_write_ok [OF assms]) (auto simp: fs_write_def wrote_def intro!: that)

lemma wrote_mono: "wrote n S f f' \<Longrightarrow> S \<subseteq> T \<Longrightarrow> wrote n T f f'"
  by (auto simp: wrote_def)

text \<open>One round of the loop: the sector it stores.\<close>

lemma write_round:
  assumes i: "inodes f p = Some i" and ok: "cache_ok n (bc f)" and mem: "\<forall>k. mem_avail f k"
    and m: "mapped n (view (bc f)) (data i)" and ofs: "0 \<le> offset" "offset < file_len (data i)" and sz: "0 < sz"
    and buf: "nat w + nat c \<le> length buf"
    and c: "c = chunk_size (file_len (data i)) sz offset" "0 < c" "nat offset mod BLOCK_SECTOR_SIZE + nat c \<le> BLOCK_SECTOR_SIZE"
  defines "s \<equiv> block_of (view (bc f)) (data i) (nat offset div BLOCK_SECTOR_SIZE)"
  obtains f' b' where "write_loop f p buf bounce sz offset w = write_loop f' p buf b' (sz - c) (offset + c) (w + c)"
    "view (bc f') = (view (bc f))(s := overwrite (view (bc f) s) (nat offset mod BLOCK_SECTOR_SIZE) (take (nat c) (drop (nat w) buf)))"
    "wrote n {s} f f'" "length (view (bc f) s) = BLOCK_SECTOR_SIZE" "s < n"
proof -
  let ?v = "view (bc f)" and ?B = BLOCK_SECTOR_SIZE and ?src = "take (nat c) (drop (nat w) buf)"
  obtain f1 where f1: "byte_to_sector f p offset = Some (s, f1)" "quiet n f f1"
    unfolding s_def by (rule byte_to_sector_inside [OF i ok mem m ofs])
  note q1 = quiet_fields [OF f1(2)]
  have sn: "s < n" using m block_in_range [OF ofs] by (simp add: mapped_def s_def)
  have blen: "length (?v s) = ?B" using view_length sn ok by (auto simp: cache_ok_def)
  have l1: "inode_length f1 p = Some (file_len (data i))" by (simp add: inode_length_def q1 i)
  have srclen: "length ?src = nat c" using buf by simp
  have sofs: "offset smod int ?B = offset mod int ?B" "nat (offset mod int ?B) = nat offset mod ?B"
    using ofs by (simp_all add: smod_sector nat_mod_distrib)
  define new where "new = overwrite (?v s) (nat offset mod ?B) ?src"
  have newlen: "length new = ?B" using blen c(3) srclen by (simp add: new_def)
  show thesis
  proof (cases "offset mod int ?B = 0 \<and> c = int ?B")
    case True
    then have new: "new = ?src"
      unfolding new_def sofs(2) [symmetric] using blen srclen by (simp add: overwrite_whole)
    obtain f2 where f2: "fs_write f1 s ?src = Some f2" "view (bc f2) = (view (bc f1))(s := ?src)" "wrote n {s} f1 f2"
      by (rule fs_write_ok [OF q1(1) sn]) (use newlen new in auto)
    have "write_loop f p buf bounce sz offset w = write_loop f2 p buf bounce (sz - c) (offset + c) (w + c)"
      using sz f1(1) l1 c True sofs f2(1) by (simp add: write_loop.simps [of f] Let_def)
    with that [of f2 bounce] f2 q1(2) new wrote_trans [OF quiet_wrote [OF f1(2)] f2(3)] blen sn show thesis
      by (simp add: new_def)
  next
    case False
    obtain f2 where f2: "get_bounce f1 bounce = (True, f2)" "quiet n f1 f2"
      by (rule get_bounce_ok [of f1 n bounce]) (use mem q1 in auto)
    have q2: "quiet n f f2" using f1(2) f2(2) quiet_trans by blast
    note q2f = quiet_fields [OF q2]
    have "\<exists>b f3. (if offset mod int ?B > 0 \<or> c < int ?B - offset mod int ?B then fs_read f2 s else Some (zeros, f2)) =
        Some (b, f3) \<and> quiet n f f3 \<and> overwrite b (nat offset mod ?B) ?src = new"
    proof (cases "offset mod int ?B > 0 \<or> c < int ?B - offset mod int ?B")
      case True
      obtain f3 where f3: "fs_read f2 s = Some (view (bc f2) s, f3)" "quiet n f2 f3"
        by (rule fs_read_ok [OF q2f(1) sn])
      with True q2f quiet_trans [OF q2 f3(2)] show ?thesis by (auto simp: new_def)
    next
      case no: False
      have "offset mod int ?B \<ge> 0" by (simp add: BLOCK_SECTOR_SIZE_def)
      with no False c(3) sofs have False by linarith
      then show ?thesis ..
    qed
    then obtain b f3 where f3: "(if offset mod int ?B > 0 \<or> c < int ?B - offset mod int ?B then fs_read f2 s else Some (zeros, f2)) =
        Some (b, f3)" "quiet n f f3" "overwrite b (nat offset mod ?B) ?src = new" by blast
    note q3f = quiet_fields [OF f3(2)]
    obtain f4 where f4: "fs_write f3 s new = Some f4" "view (bc f4) = (view (bc f3))(s := new)" "wrote n {s} f3 f4"
      by (rule fs_write_ok [OF q3f(1) sn newlen])
    have "write_loop f p buf bounce sz offset w = write_loop f4 p buf True (sz - c) (offset + c) (w + c)"
      using sz f1(1) l1 c False sofs f2(1) f3(1,3) f4(1) by (auto simp: write_loop.simps [of f] Let_def)
    with that [of f4 True] f4 q3f(2) wrote_trans [OF quiet_wrote [OF f3(2)] f4(3)] blen sn show thesis
      by (simp add: new_def)
  qed
qed

lemma chunk_size_bounds:
  assumes "0 \<le> offset" "offset < len" "len < 2 ^ 31" "0 < sz"
  shows "0 < chunk_size len sz offset" "chunk_size len sz offset \<le> sz" "chunk_size len sz offset \<le> len - offset"
    "nat offset mod BLOCK_SECTOR_SIZE + nat (chunk_size len sz offset) \<le> BLOCK_SECTOR_SIZE"
proof -
  have eq: "chunk_size len sz offset = min sz (min (len - offset) (int BLOCK_SECTOR_SIZE - offset mod int BLOCK_SECTOR_SIZE))"
    using assms by (intro chunk_size_eq) auto
  show pos: "0 < chunk_size len sz offset" using assms by (simp add: eq BLOCK_SECTOR_SIZE_def)
  show "chunk_size len sz offset \<le> sz" "chunk_size len sz offset \<le> len - offset" by (auto simp: eq)
  have "int (nat offset mod BLOCK_SECTOR_SIZE) = offset mod int BLOCK_SECTOR_SIZE"
    using assms by (simp add: of_nat_mod)
  moreover have "chunk_size len sz offset \<le> int BLOCK_SECTOR_SIZE - offset mod int BLOCK_SECTOR_SIZE" by (simp add: eq)
  ultimately show "nat offset mod BLOCK_SECTOR_SIZE + nat (chunk_size len sz offset) \<le> BLOCK_SECTOR_SIZE"
    using pos by linarith
qed

lemma write_loop_ok:
  assumes "inodes f p = Some i" "cache_ok n (bc f)" "\<forall>k. mem_avail f k"
    "mapped n (view (bc f)) (data i)" "apart (view (bc f)) (data i)"
    "0 \<le> offset" "0 \<le> sz" "offset + sz \<le> file_len (data i)" "0 \<le> w" "nat w + nat sz \<le> length buf"
  shows "\<exists>f'. write_loop f p buf bounce sz offset w = Some (w + sz, f') \<and>
    wrote n (data_sectors (view (bc f)) (data i)) f f' \<and>
    mapped n (view (bc f')) (data i) \<and> apart (view (bc f')) (data i) \<and>
    file_bytes (view (bc f')) (data i) =
      overwrite (file_bytes (view (bc f)) (data i)) (nat offset) (take (nat sz) (drop (nat w) buf))"
  using assms
proof (induction "nat sz" arbitrary: f sz offset w bounce rule: less_induct)
  case less
  let ?d = "data i" and ?v = "view (bc f)"
  show ?case
  proof (cases "sz = 0")
    case True
    then show ?thesis using less.prems by (simp add: write_loop.simps [of f] quiet_wrote quiet_refl)
  next
    case False
    then have sz: "0 < sz" using less.prems by simp
    have ofs: "offset < file_len ?d" and len: "file_len ?d < 2 ^ 31" using less.prems sz by (auto simp: mapped_def)
    define c where "c = chunk_size (file_len ?d) sz offset"
    note cb = chunk_size_bounds [OF less.prems(6) ofs len sz, folded c_def]
    let ?k = "nat offset div BLOCK_SECTOR_SIZE"
    let ?s = "block_of ?v ?d ?k" and ?src = "take (nat c) (drop (nat w) buf)"
    have buf: "nat w + nat c \<le> length buf" using less.prems(10) cb(2) by linarith
    obtain f1 b1 where f1: "write_loop f p buf bounce sz offset w = write_loop f1 p buf b1 (sz - c) (offset + c) (w + c)"
      "view (bc f1) = ?v(?s := overwrite (?v ?s) (nat offset mod BLOCK_SECTOR_SIZE) ?src)"
      "wrote n {?s} f f1" "length (?v ?s) = BLOCK_SECTOR_SIZE" "?s < n"
      by (rule write_round [OF less.prems(1-4,6) ofs sz buf c_def cb(1,4)])
    have k: "?k < block_cnt ?d" using block_in_range [OF less.prems(6) ofs] .
    note content = write_sector_content [OF less.prems(5) k, where b = "overwrite (?v ?s) (nat offset mod BLOCK_SECTOR_SIZE) ?src",
        folded f1(2)]
    have srclen: "length ?src = nat c" using buf by simp
    have fit: "nat offset + length ?src \<le> nat (file_len ?d)" "?src \<noteq> []"
      using srclen cb(1,3) less.prems(6) by (linarith, auto)
    have bytes: "file_bytes (view (bc f1)) ?d = overwrite (file_bytes ?v ?d) (nat offset) ?src"
      unfolding f1(2)
      by (rule write_chunk_content [OF less.prems(5) fit]) (use srclen cb(4) f1(4) in auto)
    note w1 = wrote_fields [OF f1(3)]
    have "\<exists>f'. write_loop f1 p buf b1 (sz - c) (offset + c) (w + c) = Some (w + c + (sz - c), f') \<and>
        wrote n (data_sectors (view (bc f1)) ?d) f1 f' \<and> mapped n (view (bc f')) ?d \<and> apart (view (bc f')) ?d \<and>
        file_bytes (view (bc f')) ?d =
          overwrite (file_bytes (view (bc f1)) ?d) (nat (offset + c)) (take (nat (sz - c)) (drop (nat (w + c)) buf))"
      by (rule less.hyps) (use w1 cb less.prems content(2,3) in auto)
    then obtain f' where f': "write_loop f1 p buf b1 (sz - c) (offset + c) (w + c) = Some (w + sz, f')"
      "wrote n (data_sectors ?v ?d) f1 f'" "mapped n (view (bc f')) ?d" "apart (view (bc f')) ?d"
      "file_bytes (view (bc f')) ?d =
          overwrite (file_bytes (view (bc f1)) ?d) (nat (offset + c)) (take (nat (sz - c)) (drop (nat (w + c)) buf))"
      by (auto simp: content(4))
    have "wrote n (data_sectors ?v ?d) f f1"
      using f1(3) k by (rule_tac wrote_mono) (auto simp: data_sectors_def)
    note all = wrote_trans [OF this f'(2)]
    have e: "nat (offset + c) = nat offset + length ?src" "nat (w + c) = nat w + nat c"
      using srclen cb(1) less.prems(6,9) by auto
    have s: "nat sz = nat c + nat (sz - c)" using cb(1,2) by linarith
    have "take (nat sz) (drop (nat w) buf) = ?src @ take (nat (sz - c)) (drop (nat (w + c)) buf)"
      unfolding s e(2) by (simp add: take_add add.commute)
    moreover have "nat offset + length ?src + length (take (nat (sz - c)) (drop (nat (w + c)) buf)) \<le> nat (file_len ?d)"
    proof -
      have "length (take (nat (sz - c)) (drop (nat (w + c)) buf)) \<le> nat (sz - c)" by simp
      moreover have "nat offset + nat sz \<le> nat (file_len ?d)" using less.prems(6-8) by linarith
      ultimately show ?thesis using srclen s by linarith
    qed
    ultimately have "file_bytes (view (bc f')) ?d = overwrite (file_bytes ?v ?d) (nat offset) (take (nat sz) (drop (nat w) buf))"
      unfolding f'(5) bytes e(1) by (simp only: overwrite_append length_file_bytes)
    with f1(1) f' all show ?thesis by auto
  qed
qed

lemma inode_write_at_Suc: "inode_write_at = inode_write_at_n (Suc 3)"
  by (simp add: inode_write_at_def WRITE_DEPTH_def)

text \<open>A write inside the file overwrites exactly the addressed bytes, whatever the depth.\<close>

lemma inode_write_at_inside:
  assumes i: "inodes f p = Some i" and ok: "cache_ok n (bc f)" and n: "n \<le> SECTOR_NONE" and mem: "\<forall>k. mem_avail f k"
    and m: "mapped n (view (bc f)) (data i)" and ap: "apart (view (bc f)) (data i)" and deny: "deny_write_cnt i = 0"
    and r: "0 \<le> offset" "0 < sz" "offset + sz \<le> file_len (data i)" and buf: "nat sz \<le> length buf"
  obtains f' where "inode_write_at_n (Suc depth) f p buf sz offset = Some (sz, f')"
    "wrote n (data_sectors (view (bc f)) (data i)) f f'"
    "mapped n (view (bc f')) (data i)" "apart (view (bc f')) (data i)"
    "file_bytes (view (bc f')) (data i) = overwrite (file_bytes (view (bc f)) (data i)) (nat offset) (take (nat sz) buf)"
proof -
  let ?v = "view (bc f)"
  have len: "file_len (data i) < 2 ^ 31" using m by (simp add: mapped_def)
  have off: "off_t (offset + sz - 1) = offset + sz - 1" using r len by (intro off_t_id) auto
  obtain f1 where f1: "byte_to_sector f p (offset + sz - 1) =
      Some (block_of ?v (data i) (nat (offset + sz - 1) div BLOCK_SECTOR_SIZE), f1)" "quiet n f f1"
    by (rule byte_to_sector_inside [OF i ok mem m, of "offset + sz - 1"]) (use r in auto)
  note q1 = quiet_fields [OF f1(2)]
  have "block_of ?v (data i) (nat (offset + sz - 1) div BLOCK_SECTOR_SIZE) < n"
    using m block_in_range [of "offset + sz - 1" "data i"] r by (simp add: mapped_def)
  with n have ne: "block_of ?v (data i) (nat (offset + sz - 1) div BLOCK_SECTOR_SIZE) \<noteq> SECTOR_NONE" by simp
  have "\<exists>f'. write_loop f1 p buf False sz offset 0 = Some (0 + sz, f') \<and> wrote n (data_sectors (view (bc f1)) (data i)) f1 f' \<and>
      mapped n (view (bc f')) (data i) \<and> apart (view (bc f')) (data i) \<and>
      file_bytes (view (bc f')) (data i) = overwrite (file_bytes (view (bc f1)) (data i)) (nat offset) (take (nat sz) (drop (nat 0) buf))"
    by (rule write_loop_ok) (use q1 i mem m ap r buf in auto)
  then obtain f' where "write_loop f1 p buf False sz offset 0 = Some (sz, f')" "wrote n (data_sectors ?v (data i)) f1 f'"
      "mapped n (view (bc f')) (data i)" "apart (view (bc f')) (data i)"
      "file_bytes (view (bc f')) (data i) = overwrite (file_bytes ?v (data i)) (nat offset) (take (nat sz) buf)"
    by (auto simp: q1)
  with f1 i deny off ne wrote_trans [OF quiet_wrote [OF f1(2)]] show thesis
    by (intro that [of f']) auto
qed

end
