(* ===== verification/File.thy ===== *)
theory File
  imports Inode_Data
begin

text \<open>
  \<^verbatim>\<open>filesys/file.c\<close>, and the rest of \<^verbatim>\<open>filesys/free-map.c\<close> and of the file part of
  \<^verbatim>\<open>lib/kernel/bitmap.c\<close>: open files with a position and a denial flag over the inodes, and the free
  map as a file.
\<close>

section \<open>Open files\<close>

definition update_file :: "fs \<Rightarrow> addr \<Rightarrow> (file_t \<Rightarrow> file_t) \<Rightarrow> fs option" where
  "update_file f p g = (case files f p of None \<Rightarrow> None | Some fl \<Rightarrow> Some (f\<lparr>files := (files f)(p \<mapsto> g fl)\<rparr>))"

definition file_open :: "fs \<Rightarrow> addr \<Rightarrow> (addr \<times> fs) option" where
  "file_open f inode = do {
     let (p, f) = malloc f;
     if inode \<noteq> NULL \<and> p \<noteq> NULL then
       Some (p, f\<lparr>files := (files f)(p \<mapsto> \<lparr>file_inode = inode, pos = 0, deny_write = False\<rparr>)\<rparr>)
     else do { f \<leftarrow> inode_close f inode; Some (NULL, f) }
   }"

definition file_reopen :: "fs \<Rightarrow> addr \<Rightarrow> (addr \<times> fs) option" where
  "file_reopen f p = do {
     fl \<leftarrow> files f p;
     (inode, f) \<leftarrow> inode_reopen f (file_inode fl);
     file_open f inode
   }"

definition file_deny_write :: "fs \<Rightarrow> addr \<Rightarrow> fs option" where
  "file_deny_write f p = do {
     fl \<leftarrow> files f p;
     if \<not> deny_write fl then do {
       f \<leftarrow> update_file f p (\<lambda>fl. fl\<lparr>deny_write := True\<rparr>);
       inode_deny_write f (file_inode fl)
     } else Some f
   }"

definition file_allow_write :: "fs \<Rightarrow> addr \<Rightarrow> fs option" where
  "file_allow_write f p = do {
     fl \<leftarrow> files f p;
     if deny_write fl then do {
       f \<leftarrow> update_file f p (\<lambda>fl. fl\<lparr>deny_write := False\<rparr>);
       inode_allow_write f (file_inode fl)
     } else Some f
   }"

definition file_close :: "fs \<Rightarrow> addr \<Rightarrow> fs option" where
  "file_close f p =
     (if p \<noteq> NULL then do {
        f \<leftarrow> file_allow_write f p;
        fl \<leftarrow> files f p;
        f \<leftarrow> inode_close f (file_inode fl);
        Some (f\<lparr>files := (files f)(p := None)\<rparr>)
      } else Some f)"

definition file_get_inode :: "fs \<Rightarrow> addr \<Rightarrow> addr option" where
  "file_get_inode f p = map_option file_inode (files f p)"

definition file_read :: "fs \<Rightarrow> addr \<Rightarrow> int \<Rightarrow> (byte list \<times> fs) option" where
  "file_read f p sz = do {
     fl \<leftarrow> files f p;
     (bs, f) \<leftarrow> inode_read_at f (file_inode fl) sz (pos fl);
     f \<leftarrow> update_file f p (\<lambda>fl. fl\<lparr>pos := off_t (pos fl + int (length bs))\<rparr>);
     Some (bs, f)
   }"

definition file_read_at :: "fs \<Rightarrow> addr \<Rightarrow> int \<Rightarrow> int \<Rightarrow> (byte list \<times> fs) option" where
  "file_read_at f p sz file_ofs = do {
     fl \<leftarrow> files f p;
     inode_read_at f (file_inode fl) sz file_ofs
   }"

definition file_write :: "fs \<Rightarrow> addr \<Rightarrow> byte list \<Rightarrow> int \<Rightarrow> (int \<times> fs) option" where
  "file_write f p buf sz = do {
     fl \<leftarrow> files f p;
     (bytes_written, f) \<leftarrow> inode_write_at f (file_inode fl) buf sz (pos fl);
     f \<leftarrow> update_file f p (\<lambda>fl. fl\<lparr>pos := off_t (pos fl + bytes_written)\<rparr>);
     Some (bytes_written, f)
   }"

definition file_length :: "fs \<Rightarrow> addr \<Rightarrow> int option" where
  "file_length f p = do { fl \<leftarrow> files f p; inode_length f (file_inode fl) }"

definition file_seek :: "fs \<Rightarrow> addr \<Rightarrow> int \<Rightarrow> fs option" where
  "file_seek f p new_pos = do {
     ASSERT (p \<noteq> NULL);
     ASSERT (new_pos \<ge> 0);
     update_file f p (\<lambda>fl. fl\<lparr>pos := new_pos\<rparr>)
   }"

definition file_tell :: "fs \<Rightarrow> addr \<Rightarrow> int option" where
  "file_tell f p = map_option pos (files f p)"

definition is_deny_write :: "fs \<Rightarrow> addr \<Rightarrow> int option" where
  "is_deny_write f p = map_option (\<lambda>fl. if deny_write fl then 1 else 0) (files f p)"

section \<open>The free map as a file\<close>

definition bitmap_read :: "fs \<Rightarrow> bitmap \<Rightarrow> addr \<Rightarrow> (bool \<times> bitmap \<times> fs) option" where
  "bitmap_read f b fp =
     (if bit_cnt b > 0 then do {
        let sz = off_t (int (byte_cnt (bit_cnt b)));
        (bs, f) \<leftarrow> file_read_at f fp sz 0;
        let elems = map word_of_nat (words_of (overwrite (bitmap_bytes b) 0 bs));
        let k = elem_cnt (bit_cnt b) - 1;
        let b' = b\<lparr>bits := elems\<rparr>;
        w \<leftarrow> load_elem b' k;
        b' \<leftarrow> store_elem b' k (w AND last_mask b');
        Some (int (length bs) = sz, b', f)
      } else Some (True, b, f))"

definition FREE_MAP_SECTOR :: nat where
  "FREE_MAP_SECTOR = 0"

definition ROOT_DIR_SECTOR :: nat where
  "ROOT_DIR_SECTOR = 1"

text \<open>\<open>alloc\<close> and \<open>junk\<close> are as in \<open>bitmap_create\<close>.\<close>

definition free_map_init :: "(nat \<Rightarrow> bool) \<Rightarrow> (nat \<Rightarrow> elem_type) \<Rightarrow> fs \<Rightarrow> fs option" where
  "free_map_init alloc junk f = do {
     n \<leftarrow> block_size (device (bc f)) (fs_device (bc f));
     r \<leftarrow> bitmap_create alloc junk n;
     case r of None \<Rightarrow> PANIC
     | Some b \<Rightarrow> do {
         b \<leftarrow> bitmap_mark b FREE_MAP_SECTOR;
         b \<leftarrow> bitmap_mark b ROOT_DIR_SECTOR;
         Some (f\<lparr>free_map := b\<rparr>)
       }
   }"

definition free_map_open :: "fs \<Rightarrow> fs option" where
  "free_map_open f = do {
     (inode, f) \<leftarrow> inode_open f FREE_MAP_SECTOR;
     (p, f) \<leftarrow> file_open f inode;
     let f = f\<lparr>free_map_file := p\<rparr>;
     if p = NULL then PANIC
     else do {
       (ok, b, f) \<leftarrow> bitmap_read f (free_map f) p;
       let f = f\<lparr>free_map := b\<rparr>;
       if \<not> ok then PANIC else Some f
     }
   }"

definition free_map_close :: "fs \<Rightarrow> fs option" where
  "free_map_close f = file_close f (free_map_file f)"

definition free_map_create :: "fs \<Rightarrow> fs option" where
  "free_map_create f = do {
     (ok, f) \<leftarrow> inode_create f FREE_MAP_SECTOR (off_t (int (bitmap_file_size (free_map f))));
     if \<not> ok then PANIC
     else do {
       (inode, f) \<leftarrow> inode_open f FREE_MAP_SECTOR;
       (p, f) \<leftarrow> file_open f inode;
       let f = f\<lparr>free_map_file := p\<rparr>;
       if p = NULL then PANIC
       else do {
         (ok, f) \<leftarrow> bitmap_write inode_write_at f (free_map f) p;
         if \<not> ok then PANIC else Some f
       }
     }
   }"

section \<open>Reading through the position\<close>

lemma file_read_ok:
  fixes sz
  assumes fl: "files f p = Some fl" and i: "inodes f (file_inode fl) = Some i" and ok: "cache_ok n (bc f)"
    and mem: "\<forall>k. mem_avail f k" and m: "mapped n (view (bc f)) (data i)"
    and ps: "0 \<le> pos fl" "pos fl \<le> file_len (data i)"
  defines "bs \<equiv> take (nat sz) (drop (nat (pos fl)) (file_bytes (view (bc f)) (data i)))"
  obtains f' where "file_read f p sz = Some (bs, f')"
    "files f' = (files f)(p \<mapsto> fl\<lparr>pos := pos fl + int (length bs)\<rparr>)"
    "inodes f' = inodes f" "view (bc f') = view (bc f)" "cache_ok n (bc f')" "mem_avail f' = mem_avail f"
proof -
  have len: "file_len (data i) < 2 ^ 31" using m by (simp add: mapped_def)
  obtain f1 where f1: "inode_read_at f (file_inode fl) sz (pos fl) = Some (bs, f1)" "quiet n f f1"
    unfolding bs_def by (rule inode_read_at_ok [OF i ok mem m ps(1)]) (use ps len in auto)
  note q = quiet_fields [OF f1(2)]
  have "length bs \<le> nat (file_len (data i)) - nat (pos fl)" by (simp add: bs_def)
  then have "off_t (pos fl + int (length bs)) = pos fl + int (length bs)"
    using ps len by (intro off_t_id) linarith+
  with f1 fl q show thesis
    by (intro that [of "f1\<lparr>files := (files f)(p \<mapsto> fl\<lparr>pos := pos fl + int (length bs)\<rparr>)\<rparr>"])
      (auto simp: file_read_def update_file_def)
qed

text \<open>Reading a file piece by piece gives its content in order.\<close>

fun read_pieces :: "fs \<Rightarrow> addr \<Rightarrow> int list \<Rightarrow> (byte list \<times> fs) option" where
  "read_pieces f p [] = Some ([], f)"
| "read_pieces f p (sz # szs) = do {
     (a, f) \<leftarrow> file_read f p sz;
     (b, f) \<leftarrow> read_pieces f p szs;
     Some (a @ b, f)
   }"

section \<open>Denied writes\<close>

text \<open>\<^verbatim>\<open>deny_write_cnt\<close> of an inode counts the open files that deny writes to it.\<close>

definition deniers :: "fs \<Rightarrow> addr set \<Rightarrow> addr \<Rightarrow> nat" where
  "deniers f P ino = card {p \<in> P. \<exists>fl. files f p = Some fl \<and> file_inode fl = ino \<and> deny_write fl}"

definition deny_counts_ok :: "addr set \<Rightarrow> fs \<Rightarrow> bool" where
  "deny_counts_ok P f \<longleftrightarrow> finite P \<and> dom (files f) \<subseteq> P \<and>
     (\<forall>ino i. inodes f ino = Some i \<longrightarrow> deny_write_cnt i = int (deniers f P ino))"

lemma deniers_update:
  assumes P: "finite P" "p \<in> P" and p: "files f p = Some fl" "deny_write fl \<noteq> b"
  shows "int (deniers (f\<lparr>files := (files f)(p \<mapsto> fl\<lparr>deny_write := b\<rparr>)\<rparr>) P ino) =
    int (deniers f P ino) + (if ino = file_inode fl then if b then 1 else -1 else 0)"
proof -
  let ?A = "\<lambda>f. {q \<in> P. \<exists>fl. files f q = Some fl \<and> file_inode fl = ino \<and> deny_write fl}"
  let ?f = "f\<lparr>files := (files f)(p \<mapsto> fl\<lparr>deny_write := b\<rparr>)\<rparr>"
  have fin: "finite (?A f)" using P by simp
  have eq: "?A ?f = (if ino = file_inode fl \<and> b then insert p (?A f) else ?A f - {p})"
    using P p by (auto split: if_splits)
  show ?thesis
  proof (cases "ino = file_inode fl")
    case True
    then have "p \<in> ?A f \<longleftrightarrow> \<not> b" using P p by auto
    moreover have "card (?A f) > 0" if "p \<in> ?A f" using that fin card_gt_0_iff by blast
    ultimately show ?thesis
      using True fin unfolding deniers_def eq by (cases b) (auto simp: card_Diff_singleton)
  next
    case False
    then have "p \<notin> ?A f" using p by auto
    with False show ?thesis unfolding deniers_def eq by simp
  qed
qed

lemma file_deny_write_counts:
  assumes ok: "deny_counts_ok P f" and r: "file_deny_write f p = Some f'"
  shows "deny_counts_ok P f'"
proof -
  obtain fl where fl: "files f p = Some fl" using r by (auto simp: file_deny_write_def monad_simps)
  show ?thesis
  proof (cases "deny_write fl")
    case False
    let ?f = "f\<lparr>files := (files f)(p \<mapsto> fl\<lparr>deny_write := True\<rparr>)\<rparr>"
    have P: "finite P" "p \<in> P" using ok fl by (auto simp: deny_counts_ok_def)
    from r fl False obtain i where i: "inodes f (file_inode fl) = Some i"
      "f' = ?f\<lparr>inodes := (inodes f)(file_inode fl \<mapsto> i\<lparr>deny_write_cnt := deny_write_cnt i + 1\<rparr>)\<rparr>"
      by (auto simp: file_deny_write_def update_file_def inode_deny_write_def Let_def monad_simps)
    have "deniers f' P ino = deniers ?f P ino" for ino using i by (simp add: deniers_def)
    with ok i deniers_update [OF P fl, of True] False fl show ?thesis by (auto simp: deny_counts_ok_def)
  qed (use r fl ok in \<open>auto simp: file_deny_write_def\<close>)
qed

lemma file_allow_write_counts:
  assumes ok: "deny_counts_ok P f" and r: "file_allow_write f p = Some f'"
  shows "deny_counts_ok P f'"
proof -
  obtain fl where fl: "files f p = Some fl" using r by (auto simp: file_allow_write_def monad_simps)
  show ?thesis
  proof (cases "deny_write fl")
    case True
    let ?f = "f\<lparr>files := (files f)(p \<mapsto> fl\<lparr>deny_write := False\<rparr>)\<rparr>"
    have P: "finite P" "p \<in> P" using ok fl by (auto simp: deny_counts_ok_def)
    from r fl True obtain i where i: "inodes f (file_inode fl) = Some i"
      "f' = ?f\<lparr>inodes := (inodes f)(file_inode fl \<mapsto> i\<lparr>deny_write_cnt := deny_write_cnt i - 1\<rparr>)\<rparr>"
      by (auto simp: file_allow_write_def update_file_def inode_allow_write_def Let_def monad_simps)
    have "deniers f' P ino = deniers ?f P ino" for ino using i by (simp add: deniers_def)
    with ok i deniers_update [OF P fl, of False] True fl show ?thesis by (auto simp: deny_counts_ok_def)
  qed (use r fl ok in \<open>auto simp: file_allow_write_def\<close>)
qed

end
