(* ===== verification/Directory.thy ===== *)
theory Directory
  imports File
begin

text \<open>
  \<^verbatim>\<open>filesys/directory.c\<close> and \<^verbatim>\<open>filesys/filesys.c\<close>.  A directory is a file of 20-byte entries; names
  are byte strings without the terminating zero.  The loops over the entries run until a short
  read; they are partial functions, and \<open>scan_entries\<close> shows that they return.  A \<^verbatim>\<open>struct dir\<close> has one
  owner and is passed by value; \<open>None\<close> is the null pointer.
\<close>

section \<open>Directory entries\<close>

definition NAME_MAX :: nat where
  "NAME_MAX = 14"

definition ENTRY_SIZE :: nat where
  "ENTRY_SIZE = 20"

record dir_t =
  dir_inode :: addr
  dir_pos :: int

type_synonym entry = "byte list"

definition inode_sector :: "entry \<Rightarrow> nat" where
  "inode_sector e = un_le32 (take 4 e)"

text \<open>
  The string at \<^verbatim>\<open>e.name\<close>.  If the 15 bytes of the field have no null, it runs on into \<^verbatim>\<open>in_use\<close>, as for
  \<^verbatim>\<open>strcmp\<close>; \<^verbatim>\<open>dir_add\<close> writes no such entry.  Reading on behind the entry is undefined in C, and the string
  of the model ends there.
\<close>

definition entry_name :: "entry \<Rightarrow> byte list" where
  "entry_name e = takeWhile (\<lambda>b. b \<noteq> 0) (drop 4 e)"

definition in_use :: "entry \<Rightarrow> bool" where
  "in_use e \<longleftrightarrow> e ! 19 \<noteq> 0"

text \<open>The assignments to the fields; \<^verbatim>\<open>strlcpy\<close> leaves the bytes after the terminating zero alone.\<close>

definition set_in_use :: "bool \<Rightarrow> entry \<Rightarrow> entry" where
  "set_in_use b e = e[19 := (if b then 1 else 0)]"

definition set_entry_name :: "byte list \<Rightarrow> entry \<Rightarrow> entry" where
  "set_entry_name nm e = overwrite e 4 (take NAME_MAX nm @ [0])"

definition set_inode_sector :: "nat \<Rightarrow> entry \<Rightarrow> entry" where
  "set_inode_sector s e = overwrite e 0 (le32 s)"

section \<open>Operations of directory.c\<close>

definition dir_create :: "fs \<Rightarrow> nat \<Rightarrow> nat \<Rightarrow> (bool \<times> fs) option" where
  "dir_create f sec entry_cnt = inode_create f sec (off_t (int (entry_cnt * ENTRY_SIZE)))"

definition dir_open :: "fs \<Rightarrow> addr \<Rightarrow> (dir_t option \<times> fs) option" where
  "dir_open f inode = do {
     let (p, f) = malloc f;
     if inode \<noteq> NULL \<and> p \<noteq> NULL then Some (Some \<lparr>dir_inode = inode, dir_pos = 0\<rparr>, f)
     else do { f \<leftarrow> inode_close f inode; Some (None, f) }
   }"

definition dir_open_root :: "fs \<Rightarrow> (dir_t option \<times> fs) option" where
  "dir_open_root f = do { (inode, f) \<leftarrow> inode_open f ROOT_DIR_SECTOR; dir_open f inode }"

definition dir_reopen :: "fs \<Rightarrow> dir_t \<Rightarrow> (dir_t option \<times> fs) option" where
  "dir_reopen f d = do { (inode, f) \<leftarrow> inode_reopen f (dir_inode d); dir_open f inode }"

definition dir_close :: "fs \<Rightarrow> dir_t option \<Rightarrow> fs option" where
  "dir_close f d = (case d of None \<Rightarrow> Some f | Some d \<Rightarrow> inode_close f (dir_inode d))"

definition dir_get_inode :: "dir_t \<Rightarrow> addr" where
  "dir_get_inode d = dir_inode d"

text \<open>\<^verbatim>\<open>inode_read_at (inode, &e, sizeof e, ofs)\<close>: whether the read was complete, and \<open>e\<close> after it.\<close>

definition read_entry :: "fs \<Rightarrow> addr \<Rightarrow> entry \<Rightarrow> int \<Rightarrow> (bool \<times> entry \<times> fs) option" where
  "read_entry f inode e ofs = do {
     (bs, f) \<leftarrow> inode_read_at f inode (int ENTRY_SIZE) ofs;
     Some (length bs = ENTRY_SIZE, overwrite e 0 bs, f)
   }"

text \<open>
  \<^verbatim>\<open>for (ofs = 0; inode_read_at (\<dots>) == sizeof e; ofs += sizeof e) if (P e) \<dots>\<close>: the loop of
  \<^verbatim>\<open>lookup\<close> and of \<^verbatim>\<open>dir_add\<close>.  The result says whether an entry with \<open>P\<close> was found, and has \<open>e\<close> and
  \<open>ofs\<close> at the end of the loop.
\<close>

partial_function (option) entry_loop :: "(entry \<Rightarrow> bool) \<Rightarrow> fs \<Rightarrow> addr \<Rightarrow> entry \<Rightarrow> int \<Rightarrow> (bool \<times> entry \<times> int \<times> fs) option" where
  "entry_loop P f inode e ofs = do {
     (full, e, f) \<leftarrow> read_entry f inode e ofs;
     if \<not> full then Some (False, e, ofs, f)
     else if P e then Some (True, e, ofs, f)
     else entry_loop P f inode e (off_t (ofs + int ENTRY_SIZE))
   }"

text \<open>\<open>junk\<close> is the initial content of the local variable \<open>e\<close>.\<close>

definition lookup :: "entry \<Rightarrow> fs \<Rightarrow> dir_t \<Rightarrow> byte list \<Rightarrow> (bool \<times> entry \<times> int \<times> fs) option" where
  "lookup junk f d nm = entry_loop (\<lambda>e. in_use e \<and> nm = entry_name e) f (dir_inode d) junk 0"

definition dir_lookup :: "entry \<Rightarrow> fs \<Rightarrow> dir_t \<Rightarrow> byte list \<Rightarrow> (bool \<times> addr \<times> fs) option" where
  "dir_lookup junk f d nm = do {
     (found, e, ofs, f) \<leftarrow> lookup junk f d nm;
     (inode, f) \<leftarrow> (if found then inode_open f (inode_sector e) else Some (NULL, f));
     Some (inode \<noteq> NULL, inode, f)
   }"

definition dir_add :: "entry \<Rightarrow> fs \<Rightarrow> dir_t \<Rightarrow> byte list \<Rightarrow> nat \<Rightarrow> (bool \<times> fs) option" where
  "dir_add junk f d nm sec =
     (if nm = [] \<or> length nm > NAME_MAX then Some (False, f)
      else do {
        (found, _, _, f) \<leftarrow> lookup junk f d nm;
        if found then Some (False, f)
        else do {
          (_, e, ofs, f) \<leftarrow> entry_loop (\<lambda>e. \<not> in_use e) f (dir_inode d) junk 0;
          let e = set_inode_sector sec (set_entry_name nm (set_in_use True e));
          (n, f) \<leftarrow> inode_write_at f (dir_inode d) e (int ENTRY_SIZE) ofs;
          Some (n = int ENTRY_SIZE, f)
        }
      })"

definition dir_remove :: "entry \<Rightarrow> fs \<Rightarrow> dir_t \<Rightarrow> byte list \<Rightarrow> (bool \<times> fs) option" where
  "dir_remove junk f d nm = do {
     (found, e, ofs, f) \<leftarrow> lookup junk f d nm;
     if \<not> found then Some (False, f)
     else do {
       (inode, f) \<leftarrow> inode_open f (inode_sector e);
       if inode = NULL then Some (False, f)
       else do {
         (n, f) \<leftarrow> inode_write_at f (dir_inode d) (set_in_use False e) (int ENTRY_SIZE) ofs;
         (success, f) \<leftarrow> (if n \<noteq> int ENTRY_SIZE then Some (False, f)
           else do { f \<leftarrow> inode_remove f inode; Some (True, f) });
         f \<leftarrow> inode_close f inode;
         Some (success, f)
       }
     }
   }"

partial_function (option) dir_readdir :: "entry \<Rightarrow> fs \<Rightarrow> dir_t \<Rightarrow> (byte list option \<times> dir_t \<times> fs) option" where
  "dir_readdir junk f d = do {
     (full, e, f) \<leftarrow> read_entry f (dir_inode d) junk (dir_pos d);
     if \<not> full then Some (None, d, f)
     else do {
       let d = d\<lparr>dir_pos := off_t (dir_pos d + int ENTRY_SIZE)\<rparr>;
       if in_use e then Some (Some (take NAME_MAX (entry_name e)), d, f)
       else dir_readdir e f d
     }
   }"

section \<open>Operations of filesys.c\<close>

definition do_format :: "fs \<Rightarrow> fs option" where
  "do_format f = do {
     f \<leftarrow> free_map_create f;
     (ok, f) \<leftarrow> dir_create f ROOT_DIR_SECTOR 16;
     if \<not> ok then PANIC else free_map_close f
   }"

definition filesys_init :: "(nat \<Rightarrow> bool) \<Rightarrow> (nat \<Rightarrow> elem_type) \<Rightarrow> bool \<Rightarrow> fs \<Rightarrow> fs option" where
  "filesys_init alloc junk format f = do {
     dev \<leftarrow> block_get_role (device (bc f)) BLOCK_FILESYS;
     let f = f\<lparr>bc := (bc f)\<lparr>fs_device := dev\<rparr>\<rparr>;
     if dev = NULL then PANIC
     else do {
       let f = inode_init f;
       f \<leftarrow> free_map_init alloc junk f;
       let f = f\<lparr>bc := cache_init (bc f)\<rparr>;
       f \<leftarrow> (if format then do_format f else Some f);
       free_map_open f
     }
   }"

definition filesys_done :: "fs \<Rightarrow> fs option" where
  "filesys_done f = do {
     f \<leftarrow> free_map_close f;
     c \<leftarrow> cache_close (bc f);
     Some (f\<lparr>bc := c\<rparr>)
   }"

definition filesys_create :: "entry \<Rightarrow> fs \<Rightarrow> byte list \<Rightarrow> int \<Rightarrow> (bool \<times> fs) option" where
  "filesys_create junk f nm initial_size = do {
     (dir, f) \<leftarrow> dir_open_root f;
     (success, sec, f) \<leftarrow> (case dir of
         None \<Rightarrow> Some (False, 0, f)
       | Some d \<Rightarrow> do {
           (ok, sec, f) \<leftarrow> free_map_allocate inode_write_at f 1 0;
           (ok, f) \<leftarrow> (if ok then inode_create f sec initial_size else Some (False, f));
           (ok, f) \<leftarrow> (if ok then dir_add junk f d nm sec else Some (False, f));
           Some (ok, sec, f)
         });
     f \<leftarrow> (if \<not> success \<and> sec \<noteq> 0 then free_map_release inode_write_at f sec 1 else Some f);
     f \<leftarrow> dir_close f dir;
     Some (success, f)
   }"

definition filesys_open :: "entry \<Rightarrow> fs \<Rightarrow> byte list \<Rightarrow> (addr \<times> fs) option" where
  "filesys_open junk f nm = do {
     (dir, f) \<leftarrow> dir_open_root f;
     (inode, f) \<leftarrow> (case dir of
         None \<Rightarrow> Some (NULL, f)
       | Some d \<Rightarrow> do { (_, inode, f) \<leftarrow> dir_lookup junk f d nm; Some (inode, f) });
     f \<leftarrow> dir_close f dir;
     file_open f inode
   }"

definition filesys_remove :: "entry \<Rightarrow> fs \<Rightarrow> byte list \<Rightarrow> (bool \<times> fs) option" where
  "filesys_remove junk f nm = do {
     (dir, f) \<leftarrow> dir_open_root f;
     (success, f) \<leftarrow> (case dir of None \<Rightarrow> Some (False, f) | Some d \<Rightarrow> dir_remove junk f d nm);
     f \<leftarrow> dir_close f dir;
     Some (success, f)
   }"

section \<open>The entries of a directory\<close>

text \<open>The complete entries in the content of a directory file.\<close>

definition entries :: "byte list \<Rightarrow> entry list" where
  "entries bs = map (\<lambda>k. take ENTRY_SIZE (drop (k * ENTRY_SIZE) bs)) [0..<length bs div ENTRY_SIZE]"

lemma length_entries [simp]: "length (entries bs) = length bs div ENTRY_SIZE"
  by (simp add: entries_def)

lemma entries_nth: "k < length bs div ENTRY_SIZE \<Longrightarrow> entries bs ! k = take ENTRY_SIZE (drop (k * ENTRY_SIZE) bs)"
  by (simp add: entries_def)

lemma length_entry: "e \<in> set (entries bs) \<Longrightarrow> length e = ENTRY_SIZE"
proof -
  assume "e \<in> set (entries bs)"
  then obtain k where k: "k < length bs div ENTRY_SIZE" "e = take ENTRY_SIZE (drop (k * ENTRY_SIZE) bs)"
    by (auto simp: entries_def)
  have "(Suc k) * ENTRY_SIZE \<le> length bs div ENTRY_SIZE * ENTRY_SIZE"
    using k(1) by (intro mult_le_mono1) simp
  also have "\<dots> \<le> length bs" by (rule div_times_less_eq_dividend)
  finally show ?thesis using k(2) by simp
qed

text \<open>
  Entry \<open>k\<close> as the loop sees it: a complete read returns it, a read past the last entry is short.
\<close>

lemma read_entry_ok:
  assumes i: "inodes f p = Some i" and ok: "cache_ok n (bc f)" and mem: "\<forall>k. mem_avail f k"
    and m: "mapped n (view (bc f)) (data i)" and e: "length e = ENTRY_SIZE"
    and k: "k \<le> length (entries (file_bytes (view (bc f)) (data i)))"
  defines "es \<equiv> entries (file_bytes (view (bc f)) (data i))"
  obtains f' e' where "read_entry f p e (int (k * ENTRY_SIZE)) = Some (k < length es, e', f')" "quiet n f f'"
    "k < length es \<Longrightarrow> e' = es ! k" "length e' = ENTRY_SIZE"
proof -
  let ?bs = "file_bytes (view (bc f)) (data i)"
  have "k * ENTRY_SIZE \<le> length ?bs div ENTRY_SIZE * ENTRY_SIZE" using k by (intro mult_le_mono1) simp
  then have le: "k * ENTRY_SIZE \<le> length ?bs" using div_times_less_eq_dividend order_trans by blast
  have len: "file_len (data i) < 2 ^ 31" using m by (simp add: mapped_def)
  obtain f' where f': "inode_read_at f p (int ENTRY_SIZE) (int (k * ENTRY_SIZE)) =
      Some (take ENTRY_SIZE (drop (k * ENTRY_SIZE) ?bs), f')" "quiet n f f'"
  proof (rule inode_read_at_ok [OF i ok mem m, of "int (k * ENTRY_SIZE)" "int ENTRY_SIZE"])
    show "int (k * ENTRY_SIZE) < 2 ^ 31" using le len by (simp del: of_nat_mult)
  qed (simp_all del: of_nat_mult)
  have full: "length (take ENTRY_SIZE (drop (k * ENTRY_SIZE) ?bs)) = ENTRY_SIZE \<longleftrightarrow> k < length es"
  proof -
    have "k < length ?bs div ENTRY_SIZE \<longleftrightarrow> Suc k * ENTRY_SIZE \<le> length ?bs"
      by (simp add: less_eq_div_iff_mult_less_eq Suc_le_eq [symmetric] ENTRY_SIZE_def)
    then show ?thesis using le by (auto simp: es_def)
  qed
  show thesis
    by (rule that [of "overwrite e 0 (take ENTRY_SIZE (drop (k * ENTRY_SIZE) ?bs))" f'])
      (use f' full e in \<open>auto simp: read_entry_def overwrite_whole es_def entries_nth\<close>)
qed

lemma entry_loop_ok:
  assumes "inodes f p = Some i" "cache_ok n (bc f)" "\<forall>k. mem_avail f k"
    "mapped n (view (bc f)) (data i)" "length e = ENTRY_SIZE"
    "k \<le> length (entries (file_bytes (view (bc f)) (data i)))"
  defines "es \<equiv> entries (file_bytes (view (bc f)) (data i))"
  shows "\<exists>r e' f'. entry_loop P f p e (int (k * ENTRY_SIZE)) = Some (r < length es, e', int (r * ENTRY_SIZE), f') \<and>
    quiet n f f' \<and> length e' = ENTRY_SIZE \<and> k \<le> r \<and> r \<le> length es \<and> (r < length es \<longrightarrow> e' = es ! r \<and> P e') \<and>
    (\<forall>j. k \<le> j \<and> j < r \<longrightarrow> \<not> P (es ! j))"
  using assms(1-6) unfolding es_def
proof (induction "length (entries (file_bytes (view (bc f)) (data i))) - k" arbitrary: k f e)
  case 0
  let ?es = "entries (file_bytes (view (bc f)) (data i))"
  obtain f' e' where r: "read_entry f p e (int (k * ENTRY_SIZE)) = Some (k < length ?es, e', f')" "quiet n f f'"
    "length e' = ENTRY_SIZE" by (rule read_entry_ok [OF "0.prems"]) blast
  have "\<not> k < length ?es" using "0.hyps" by simp
  with r show ?case using "0.prems" "0.hyps" by (intro exI [of _ k]) (auto simp: entry_loop.simps [of P f])
next
  case (Suc m)
  let ?es = "entries (file_bytes (view (bc f)) (data i))"
  obtain f' e' where r: "read_entry f p e (int (k * ENTRY_SIZE)) = Some (k < length ?es, e', f')" "quiet n f f'"
    "k < length ?es \<Longrightarrow> e' = ?es ! k" "length e' = ENTRY_SIZE" by (rule read_entry_ok [OF Suc.prems]) blast
  have k: "k < length ?es" using Suc.hyps(2) by simp
  show ?case
  proof (cases "P (?es ! k)")
    case True
    with r k show ?thesis by (intro exI [of _ k]) (auto simp: entry_loop.simps [of P f])
  next
    case False
    note q = quiet_fields [OF r(2)]
    have len: "file_len (data i) < 2 ^ 31" using Suc.prems(4) by (simp add: mapped_def)
    have "Suc k * ENTRY_SIZE \<le> length ?es * ENTRY_SIZE" using k by (intro mult_le_mono1) simp
    also have "\<dots> \<le> nat (file_len (data i))" using div_times_less_eq_dividend by simp
    finally have "int (Suc k * ENTRY_SIZE) < 2 ^ 31" using len by (simp del: of_nat_mult mult_Suc)
    moreover have "int (k * ENTRY_SIZE) + int ENTRY_SIZE = int (Suc k * ENTRY_SIZE)" by simp
    ultimately have off: "off_t (int (k * ENTRY_SIZE) + int ENTRY_SIZE) = int (Suc k * ENTRY_SIZE)"
      by (simp del: of_nat_mult mult_Suc)
    have step: "entry_loop P f p e (int (k * ENTRY_SIZE)) = entry_loop P f' p e' (int (Suc k * ENTRY_SIZE))"
      using r k False off by (simp add: entry_loop.simps [of P f])
    have "\<exists>r e'' f''. entry_loop P f' p e' (int (Suc k * ENTRY_SIZE)) =
        Some (r < length (entries (file_bytes (view (bc f')) (data i))), e'', int (r * ENTRY_SIZE), f'') \<and>
      quiet n f' f'' \<and> length e'' = ENTRY_SIZE \<and> Suc k \<le> r \<and> r \<le> length (entries (file_bytes (view (bc f')) (data i))) \<and>
      (r < length (entries (file_bytes (view (bc f')) (data i))) \<longrightarrow> e'' = entries (file_bytes (view (bc f')) (data i)) ! r \<and> P e'') \<and>
      (\<forall>j. Suc k \<le> j \<and> j < r \<longrightarrow> \<not> P (entries (file_bytes (view (bc f')) (data i)) ! j))"
      by (rule Suc.hyps(1)) (use Suc.hyps(2) Suc.prems q r(4) k in auto)
    then obtain r' e'' f'' where *: "entry_loop P f' p e' (int (Suc k * ENTRY_SIZE)) = Some (r' < length ?es, e'', int (r' * ENTRY_SIZE), f'')"
      "quiet n f' f''" "length e'' = ENTRY_SIZE" "Suc k \<le> r'" "r' \<le> length ?es" "r' < length ?es \<longrightarrow> e'' = ?es ! r' \<and> P e''"
      "\<forall>j. Suc k \<le> j \<and> j < r' \<longrightarrow> \<not> P (?es ! j)" unfolding q(2) by blast
    have "\<forall>j. k \<le> j \<and> j < r' \<longrightarrow> \<not> P (?es ! j)" using *(7) False by (metis Suc_leI le_neq_implies_less)
    with * step quiet_trans [OF r(2) *(2)] show ?thesis
      by (intro exI [of _ r'] exI [of _ e''] exI [of _ f'']) auto
  qed
qed

text \<open>Reading back the fields that \<^verbatim>\<open>dir_add\<close> stores.\<close>

definition new_entry :: "byte list \<Rightarrow> nat \<Rightarrow> entry \<Rightarrow> entry" where
  "new_entry nm sec e = set_inode_sector sec (set_entry_name nm (set_in_use True e))"

lemma new_entry_fields:
  assumes e: "length e = ENTRY_SIZE" and nm: "length nm \<le> NAME_MAX" "0 \<notin> set nm" and sec: "sec < 2 ^ 32"
  shows "length (new_entry nm sec e) = ENTRY_SIZE" "in_use (new_entry nm sec e)"
    "entry_name (new_entry nm sec e) = nm" "inode_sector (new_entry nm sec e) = sec"
proof -
  let ?e = "e[19 := 1]"
  have new: "new_entry nm sec e = overwrite (overwrite ?e 4 (nm @ [0])) 0 (le32 sec)"
    using nm by (simp add: new_entry_def set_inode_sector_def set_entry_name_def set_in_use_def)
  have l: "length e = 20" "length nm \<le> 14" using e nm by (auto simp: ENTRY_SIZE_def NAME_MAX_def)
  then show "length (new_entry nm sec e) = ENTRY_SIZE" by (simp add: new ENTRY_SIZE_def)
  have new': "new_entry nm sec e = le32 sec @ nm @ [0] @ drop (5 + length nm) ?e"
    unfolding new using l by (simp add: overwrite_def add.commute)
  show "in_use (new_entry nm sec e)"
    unfolding in_use_def new using l by (simp add: nth_overwrite)
  show "inode_sector (new_entry nm sec e) = sec"
    unfolding inode_sector_def new' using sec by simp
  have "takeWhile (\<lambda>b. b \<noteq> 0) (nm @ 0 # xs) = nm" for xs
    using nm(2) by (induction nm) auto
  then show "entry_name (new_entry nm sec e) = nm"
    unfolding entry_name_def new' using l by (simp add: NAME_MAX_def take_Cons')
qed

lemma entries_overwrite:
  assumes r: "r < length (entries bs)" and e: "length e = ENTRY_SIZE"
  shows "entries (overwrite bs (r * ENTRY_SIZE) e) = (entries bs)[r := e]"
proof (rule nth_equalityI)
  have "Suc r * ENTRY_SIZE \<le> length bs div ENTRY_SIZE * ENTRY_SIZE" using r by (intro mult_le_mono1) simp
  also have "\<dots> \<le> length bs" by (rule div_times_less_eq_dividend)
  finally have fit: "r * ENTRY_SIZE + length e \<le> length bs" using e by simp
  then show "length (entries (overwrite bs (r * ENTRY_SIZE) e)) = length ((entries bs)[r := e])" by simp
  fix k assume "k < length (entries (overwrite bs (r * ENTRY_SIZE) e))"
  then have k: "k < length bs div ENTRY_SIZE" using fit by simp
  then have "Suc k * ENTRY_SIZE \<le> length bs div ENTRY_SIZE * ENTRY_SIZE" by (intro mult_le_mono1) simp
  also have "\<dots> \<le> length bs" by (rule div_times_less_eq_dividend)
  finally have kfit: "k * ENTRY_SIZE + ENTRY_SIZE \<le> length bs" by simp
  show "entries (overwrite bs (r * ENTRY_SIZE) e) ! k = (entries bs)[r := e] ! k"
  proof (rule nth_equalityI)
    show len: "length (entries (overwrite bs (r * ENTRY_SIZE) e) ! k) = length ((entries bs)[r := e] ! k)"
      using k r fit kfit e by (cases "k = r") (auto simp: entries_nth)
    fix j assume "j < length (entries (overwrite bs (r * ENTRY_SIZE) e) ! k)"
    then have j: "j < ENTRY_SIZE" using k fit kfit by (simp add: entries_nth)
    have "r * ENTRY_SIZE \<le> k * ENTRY_SIZE + j \<and> k * ENTRY_SIZE + j < r * ENTRY_SIZE + ENTRY_SIZE \<longleftrightarrow> k = r"
    proof
      assume a: "r * ENTRY_SIZE \<le> k * ENTRY_SIZE + j \<and> k * ENTRY_SIZE + j < r * ENTRY_SIZE + ENTRY_SIZE"
      then have "(k * ENTRY_SIZE + j) div ENTRY_SIZE = r"
        by (intro div_nat_eqI) (auto simp: mult.commute)
      then show "k = r" using j by simp
    qed (use j in auto)
    then show "entries (overwrite bs (r * ENTRY_SIZE) e) ! k ! j = (entries bs)[r := e] ! k ! j"
      using k r j fit kfit e
      by (cases "k = r") (auto simp: entries_nth nth_overwrite)
  qed
qed

text \<open>
  What a directory file must satisfy for its operations: a well-formed inode that may be written,
  on a device whose sector numbers stay clear of the error value, and memory.
\<close>

definition dir_ok :: "nat \<Rightarrow> fs \<Rightarrow> dir_t \<Rightarrow> inode \<Rightarrow> bool" where
  "dir_ok n f d i \<longleftrightarrow> inodes f (dir_inode d) = Some i \<and> cache_ok n (bc f) \<and> n \<le> SECTOR_NONE \<and> (\<forall>k. mem_avail f k) \<and>
     mapped n (view (bc f)) (data i) \<and> apart (view (bc f)) (data i) \<and> deny_write_cnt i = 0"

definition dir_list :: "fs \<Rightarrow> inode \<Rightarrow> entry list" where
  "dir_list f i = entries (file_bytes (view (bc f)) (data i))"

definition named :: "byte list \<Rightarrow> entry \<Rightarrow> bool" where
  "named nm e \<longleftrightarrow> in_use e \<and> nm = entry_name e"

lemma quiet_dir:
  assumes "dir_ok n f d i" "quiet n f f'"
  shows "dir_ok n f' d i" "dir_list f' i = dir_list f i"
  using assms(1) quiet_fields [OF assms(2)] by (auto simp: dir_ok_def dir_list_def)

text \<open>The loops of the directory code search the entries in order.\<close>

lemma scan_entries:
  assumes ok: "dir_ok n f d i" and e: "length e = ENTRY_SIZE"
  obtains r e' f' where "entry_loop P f (dir_inode d) e 0 = Some (r < length (dir_list f i), e', int (r * ENTRY_SIZE), f')"
    "quiet n f f'" "length e' = ENTRY_SIZE" "r \<le> length (dir_list f i)"
    "r < length (dir_list f i) \<Longrightarrow> e' = dir_list f i ! r \<and> P e'" "\<And>j. j < r \<Longrightarrow> \<not> P (dir_list f i ! j)"
proof -
  have "\<exists>r e' f'. entry_loop P f (dir_inode d) e (int (0 * ENTRY_SIZE)) =
      Some (r < length (dir_list f i), e', int (r * ENTRY_SIZE), f') \<and>
    quiet n f f' \<and> length e' = ENTRY_SIZE \<and> 0 \<le> r \<and> r \<le> length (dir_list f i) \<and>
    (r < length (dir_list f i) \<longrightarrow> e' = dir_list f i ! r \<and> P e') \<and> (\<forall>j. 0 \<le> j \<and> j < r \<longrightarrow> \<not> P (dir_list f i ! j))"
    unfolding dir_list_def by (rule entry_loop_ok) (use ok e in \<open>auto simp: dir_ok_def\<close>)
  then show thesis using that by auto
qed

lemma lookup_ok:
  assumes ok: "dir_ok n f d i" and e: "length junk = ENTRY_SIZE"
  obtains e f' ofs where "lookup junk f d nm = Some (\<exists>e\<in>set (dir_list f i). named nm e, e, ofs, f')" "quiet n f f'"
    "(\<exists>e\<in>set (dir_list f i). named nm e) \<Longrightarrow> find (named nm) (dir_list f i) = Some e"
proof -
  let ?es = "dir_list f i"
  obtain r e' f' where r: "entry_loop (named nm) f (dir_inode d) junk 0 = Some (r < length ?es, e', int (r * ENTRY_SIZE), f')"
    "quiet n f f'" "r \<le> length ?es" "r < length ?es \<Longrightarrow> e' = ?es ! r \<and> named nm e'"
    "\<And>j. j < r \<Longrightarrow> \<not> named nm (?es ! j)"
    by (rule scan_entries [OF ok e, where P = "named nm"]) blast
  have found: "r < length ?es \<longleftrightarrow> (\<exists>e\<in>set ?es. named nm e)"
    using r(3-5) by (metis in_set_conv_nth le_neq_implies_less nth_mem)
  moreover have "find (named nm) ?es = Some e'" if "r < length ?es"
    using that r(4,5) by (auto simp: find_Some_iff intro!: exI [of _ r])
  ultimately show thesis
    using r(1,2) by (intro that [of e' "int (r * ENTRY_SIZE)" f']) (auto simp: lookup_def named_def [abs_def])
qed

lemma find_update_new:
  assumes "find P xs = None" "r < length xs" "P e"
  shows "find P (xs[r := e]) = Some e"
proof -
  have "\<not> P (xs ! j)" if "j < length xs" for j using assms(1) that by (auto simp: find_None_iff)
  with assms(2,3) show ?thesis by (auto simp: find_Some_iff nth_list_update intro!: exI [of _ r])
qed

lemma dir_add_slot:
  assumes ok: "dir_ok n f d i" and junk: "length junk = ENTRY_SIZE"
    and nm: "nm \<noteq> []" "length nm \<le> NAME_MAX" "0 \<notin> set nm" and sec: "sec < 2 ^ 32"
    and new: "\<not> (\<exists>e\<in>set (dir_list f i). named nm e)" and free: "\<exists>e\<in>set (dir_list f i). \<not> in_use e"
  obtains f' r e where "dir_add junk f d nm sec = Some (True, f')" "dir_ok n f' d i" "r < length (dir_list f i)"
    "\<not> in_use (dir_list f i ! r)" "dir_list f' i = (dir_list f i)[r := e]" "in_use e" "entry_name e = nm" "inode_sector e = sec"
proof -
  obtain e0 f0 ofs0 where l: "lookup junk f d nm = Some (False, e0, ofs0, f0)" "quiet n f f0"
    by (rule lookup_ok [OF ok junk, of nm]) (use new in auto)
  note d0 = quiet_dir [OF ok l(2)]
  let ?es = "dir_list f i"
  obtain r e1 f1 where r: "entry_loop (\<lambda>e. \<not> in_use e) f0 (dir_inode d) junk 0 =
      Some (r < length (dir_list f0 i), e1, int (r * ENTRY_SIZE), f1)"
    "quiet n f0 f1" "length e1 = ENTRY_SIZE" "r \<le> length (dir_list f0 i)"
    "r < length (dir_list f0 i) \<Longrightarrow> e1 = dir_list f0 i ! r \<and> \<not> in_use e1" "\<And>j. j < r \<Longrightarrow> \<not> \<not> in_use (dir_list f0 i ! j)"
    by (rule scan_entries [OF d0(1) junk, where P = "\<lambda>e. \<not> in_use e"]) blast
  note d1 = quiet_dir [OF d0(1) r(2)]
  have rl: "r < length ?es" using free r(4,6) d0(2) by (metis in_set_conv_nth le_neq_implies_less)
  define e where "e = new_entry nm sec e1"
  note e = new_entry_fields [OF r(3) nm(2,3) sec, folded e_def]
  from d1(1) have i: "inodes f1 (dir_inode d) = Some i" "cache_ok n (bc f1)" "n \<le> SECTOR_NONE" "\<forall>k. mem_avail f1 k"
    "mapped n (view (bc f1)) (data i)" "apart (view (bc f1)) (data i)" "deny_write_cnt i = 0"
    by (auto simp: dir_ok_def)
  have "Suc r * ENTRY_SIZE \<le> length ?es * ENTRY_SIZE" using rl by (intro mult_le_mono1) simp
  also have "\<dots> \<le> nat (file_len (data i))" unfolding dir_list_def using div_times_less_eq_dividend by simp
  finally have "r * ENTRY_SIZE + ENTRY_SIZE \<le> nat (file_len (data i))" by simp
  moreover have "0 \<le> file_len (data i)" using i(5) by (simp add: mapped_def)
  ultimately have fit: "int (r * ENTRY_SIZE) + int ENTRY_SIZE \<le> file_len (data i)" by linarith
  obtain f2 where f2: "inode_write_at f1 (dir_inode d) e (int ENTRY_SIZE) (int (r * ENTRY_SIZE)) = Some (int ENTRY_SIZE, f2)"
    "wrote n (data_sectors (view (bc f1)) (data i)) f1 f2" "mapped n (view (bc f2)) (data i)" "apart (view (bc f2)) (data i)"
    "file_bytes (view (bc f2)) (data i) = overwrite (file_bytes (view (bc f1)) (data i)) (r * ENTRY_SIZE) e"
  proof (rule inode_write_at_inside [OF i(1-7) _ _ fit, of e 3])
    show "0 < int ENTRY_SIZE" by (simp add: ENTRY_SIZE_def)
  qed (use e(1) in \<open>simp_all add: inode_write_at_Suc del: of_nat_mult inode_write_at_n.simps\<close>)
  have list: "dir_list f2 i = ?es[r := e]"
    unfolding dir_list_def f2(5) using rl e(1) d0(2) d1(2)
    by (subst entries_overwrite) (auto simp: dir_list_def)
  have ok2: "dir_ok n f2 d i" using i wrote_fields [OF f2(2)] f2(3,4) by (auto simp: dir_ok_def)
  have "\<not> in_use (?es ! r)" using r(5) rl d0(2) by auto
  with l r f2(1) nm list ok2 rl e show thesis
    by (intro that [of f2 r e]) (auto simp: dir_add_def e_def new_entry_def Let_def NAME_MAX_def)
qed

end
