(* ===== verification/Inode_Faults.thy ===== *)
theory Inode_Faults
  imports Inode_Data
begin

text \<open>
  Corner cases of \<^verbatim>\<open>filesys/inode.c\<close>: writes of zero bytes, a full disk, files beyond the doubly
  indirect range, memory exhaustion, and writes to a denied inode.
\<close>

lemma set_data_ok: "inodes f p = Some i \<Longrightarrow> set_data f p d = Some (f\<lparr>inodes := (inodes f)(p \<mapsto> i\<lparr>data := d\<rparr>)\<rparr>)"
  by (simp add: set_data_def update_inode_def)

lemma inode_allocate_empty: "file_len d = 0 \<Longrightarrow> inode_allocate wr f d = Some (True, d, f)"
  by (simp add: inode_allocate_def bytes_to_sectors_def BLOCK_SECTOR_SIZE_def SECTOR_WRAP_def)

text \<open>
  A write of no bytes at position 0 asks \<^verbatim>\<open>byte_to_sector\<close> for the sector of byte \<open>-1\<close>, takes the
  answer for the end of the file and stores the length 0.
\<close>

lemma zero_write_truncates:
  assumes i: "inodes f p = Some i" and ok: "cache_ok n (bc f)" and s: "sector i < n"
    and wf: "wf_inode_disk (data i)" and deny: "deny_write_cnt i = 0"
  defines "d \<equiv> (data i)\<lparr>file_len := 0\<rparr>"
  obtains f' where "inode_write_at f p buf 0 0 = Some (0, f')"
    "inodes f' = (inodes f)(p \<mapsto> i\<lparr>data := d\<rparr>)" "view (bc f') = (view (bc f))(sector i := inode_disk_bytes d)"
proof -
  let ?g = "f\<lparr>inodes := (inodes f)(p \<mapsto> i\<lparr>data := d\<rparr>)\<rparr>"
  have wfd: "wf_inode_disk d" using wf by (simp add: wf_inode_disk_def d_def)
  have okg: "cache_ok n (bc ?g)" using ok by simp
  obtain f' where f': "fs_write ?g (sector i) (inode_disk_bytes d) = Some f'"
    "view (bc f') = (view (bc ?g))(sector i := inode_disk_bytes d)" "wrote n {sector i} ?g f'"
    by (rule fs_write_ok [OF okg s length_inode_disk_bytes [OF wfd]])
  note w = wrote_fields [OF f'(3)]
  have b: "byte_to_sector f p (off_t (0 + 0 - 1)) = Some (SECTOR_NONE, f)"
    by (rule byte_to_sector_outside [OF i]) (simp add: off_t_def)
  have z: "(data i)\<lparr>file_len := off_t (0 + 0)\<rparr> = d" "d\<lparr>file_len := off_t (0 + 0)\<rparr> = d" "file_len d = 0"
    and d0: "d\<lparr>file_len := 0\<rparr> = d"
    by (simp_all add: d_def)
  have same: "?g\<lparr>inodes := (inodes ?g)(p \<mapsto> (i\<lparr>data := d\<rparr>)\<lparr>data := d\<rparr>)\<rparr> = ?g" by simp
  have "inode_write_at f p buf 0 0 = Some (0, f')"
    unfolding inode_write_at_Suc inode_write_at_n.simps using i deny f'(1)
    by (simp only: b z option.simps bind.bind_lunit inode_allocate_empty [OF z(3)] set_data_ok [OF i] Let_def)
      (simp add: z d0 set_data_def update_inode_def inode_allocate_empty write_loop.simps [of f'])
  with f' w show thesis by (intro that) auto
qed

text \<open>
  On a full disk \<^verbatim>\<open>free_map_allocate\<close> leaves the block pointer 0, and the zeros that were meant for
  the new sector go to sector 0, which holds the inode of the free map.
\<close>

lemma full_disk_overwrites_sector_0:
  assumes wf: "wf_bitmap (free_map f)" and full: "first_group (bitmap_bits (free_map f)) 0 1 False = None"
    and ok: "cache_ok n (bc f)" and n: "0 < n"
  obtains f' where "alloc_entry wr f 0 = Some (0, f')" "view (bc f') = (view (bc f))(0 := zeros)"
    "inodes f' = inodes f" "free_map f' = free_map f"
proof -
  have sf: "bitmap_scan_and_flip (free_map f) 0 1 False = Some (BITMAP_ERROR, free_map f)"
    by (rule bitmap_scan_and_flip_None [OF wf _ full]) simp
  obtain f' where f': "fs_write f 0 zeros = Some f'" "view (bc f') = (view (bc f))(0 := zeros)" "wrote n {0} f f'"
    by (rule fs_write_ok [OF ok n, of zeros]) (simp add: zeros_def)
  from wrote_fields [OF f'(3)] f' sf that [of f'] show thesis
    by (simp add: alloc_entry_def free_map_allocate_def)
qed

text \<open>
  A file that needs more sectors than the inode can address stops the kernel: the assertion before
  \<^verbatim>\<open>return false\<close> can only fail there.
\<close>

lemma inode_allocate_too_large:
  assumes "MAX_SECTORS * BLOCK_SECTOR_SIZE < nat (file_len d)" "file_len d < 2 ^ 31"
  shows "inode_allocate wr f d = None"
proof -
  let ?num = "bytes_to_sectors (file_len d) BLOCK_SECTOR_SIZE"
  have "?num = (nat (file_len d) + 511) div 512"
    using assms by (simp add: bytes_to_sectors_def BLOCK_SECTOR_SIZE_def SECTOR_WRAP_def)
  moreover have "MAX_SECTORS < (nat (file_len d) + 511) div 512"
    using assms(1) by (simp add: BLOCK_SECTOR_SIZE_def MAX_SECTORS_def index_sizes)
  ultimately have big: "16636 < ?num" by (simp add: MAX_SECTORS_def index_sizes)
  have "?num - 124 \<noteq> 0" "?num - 124 - 128 \<noteq> 0" "?num - 124 - 128 - 16384 \<noteq> 0" "min ?num 124 = 124"
    "min (?num - 124) 128 = 128" "min (?num - 124 - 128) 16384 = 16384"
    using big by simp_all
  then show ?thesis
    using assms(1) unfolding inode_allocate_def index_sizes Let_def
    by (auto simp: bind_eq_None_conv split: prod.splits)
qed

lemma denied_write: "inodes f p = Some i \<Longrightarrow> deny_write_cnt i \<noteq> 0 \<Longrightarrow> inode_write_at f p buf sz ofs = Some (0, f)"
  unfolding inode_write_at_Suc inode_write_at_n.simps by simp

text \<open>\<^verbatim>\<open>byte_to_sector\<close> uses the result of \<^verbatim>\<open>calloc\<close> unchecked: without memory a read behind the direct
  blocks halts the kernel.\<close>

lemma byte_to_sector_no_memory:
  assumes "inodes f p = Some i" "0 \<le> ps" "ps < file_len (data i)"
    "DIRECT_INDEX_NUM \<le> nat ps div BLOCK_SECTOR_SIZE" "nat ps div BLOCK_SECTOR_SIZE < MAX_SECTORS"
    "\<not> mem_avail f (mem_cnt f)"
  shows "byte_to_sector f p ps = None"
  using assms by (auto simp: byte_to_sector_def Let_def malloc_def MAX_SECTORS_def ASSERT_def)

end
