(* ===== verification/File_System_Properties.thy ===== *)
theory File_System_Properties
  imports Storage_Properties Directory Inode_Faults
begin

text \<open>
  The properties of the file system: inodes on disk, reading and writing file data, positions of open
  files, denied writes, directories, and the fault cases.  The example is a disk of eight sectors with
  one inode of 1000 bytes in the sectors 2 and 3.
\<close>

section \<open>A small file system\<close>

definition sample_inode_disk :: "int \<Rightarrow> inode_disk" where
  "sample_inode_disk len = \<lparr>file_len = len, direct_index = 2 # 3 # replicate 122 0, indirect_index = 0,
     doubly_indirect_index = 0, magic = INODE_MAGIC\<rparr>"

definition sample_inode :: "int \<Rightarrow> inode" where
  "sample_inode len = \<lparr>sector = 1, open_cnt = 1, removed = False, deny_write_cnt = 0, data = sample_inode_disk len\<rparr>"

definition sample_fs :: "int \<Rightarrow> fs" where
  "sample_fs len = \<lparr>bc = sample_cache blank, free_map = sample_bitmap, free_map_file = NULL,
     inodes = [100 \<mapsto> sample_inode len], open_inodes = [100],
     files = [200 \<mapsto> \<lparr>file_inode = 100, pos = 0, deny_write = False\<rparr>], mem_avail = (\<lambda>_. True), mem_cnt = 1000\<rparr>"

lemma sample_fs_fields [simp]:
  "bc (sample_fs len) = sample_cache blank" "inodes (sample_fs len) 100 = Some (sample_inode len)"
  "mem_avail (sample_fs len) k" "data (sample_inode len) = sample_inode_disk len" "deny_write_cnt (sample_inode len) = 0"
  "file_len (sample_inode_disk len) = len"
  "files (sample_fs len) 200 = Some \<lparr>file_inode = 100, pos = 0, deny_write = False\<rparr>"
  by (simp_all add: sample_fs_def sample_inode_def sample_inode_disk_def)

lemma sample_block_cnt: "0 \<le> len \<Longrightarrow> len \<le> 1024 \<Longrightarrow> block_cnt (sample_inode_disk len) \<le> 2"
  by (simp add: block_cnt_def DIV_ROUND_UP_def BLOCK_SECTOR_SIZE_def)

lemma sample_block_of:
  "k < 2 \<Longrightarrow> block_of v (sample_inode_disk len) k = k + 2" "k < 2 \<Longrightarrow> index_of v (sample_inode_disk len) k = []"
  by (auto simp: block_of_def index_of_def sample_inode_disk_def DIRECT_INDEX_NUM_def less_2_cases_iff)

lemma sample_mapped:
  assumes "0 \<le> len" "len \<le> 1024"
  shows "mapped 8 v (sample_inode_disk len)" "apart v (sample_inode_disk len)"
proof -
  note b = sample_block_cnt [OF assms] 
  have k: "k < 2" if "k < block_cnt (sample_inode_disk len)" for k using that b by simp
  show "mapped 8 v (sample_inode_disk len)"
    using assms b k by (auto simp: mapped_def sample_block_of MAX_SECTORS_def index_sizes)
  show "apart v (sample_inode_disk len)"
    using k by (auto simp: apart_def sample_block_of inj_on_def)
qed

lemma sample_file_bytes:
  assumes "0 \<le> len" "len \<le> 1024"
  shows "file_bytes (view (sample_cache blank)) (sample_inode_disk len) = replicate (nat len) 0"
proof (rule nth_equalityI)
  fix j assume "j < length (file_bytes (view (sample_cache blank)) (sample_inode_disk len))"
  then have j: "j < nat len" by simp
  then have k: "j div 512 < 2" using assms by (simp add: less_mult_imp_div_less)
  with j show "file_bytes (view (sample_cache blank)) (sample_inode_disk len) ! j = replicate (nat len) 0 ! j"
    by (simp add: file_bytes_def file_byte_def BLOCK_SECTOR_SIZE_def sample_block_of blank_disk(3))
      (simp add: blank_def BLOCK_SECTOR_SIZE_def)
qed simp

section \<open>Inodes\<close>

text \<open>
  \<^verbatim>\<open>inode_read_at\<close> returns the addressed bytes of the file, cut off at the end of the file, whatever
  mix of direct, indirect and doubly indirect blocks holds them, and changes no sector.
\<close>

theorem inode_read_at_content:
  assumes "inodes f p = Some i" "cache_ok n (bc f)" "\<forall>k. mem_avail f k"
    "mapped n (view (bc f)) (data i)" "0 \<le> offset" "offset < 2 ^ 31"
  shows "\<exists>f'. inode_read_at f p sz offset =
      Some (take (nat sz) (drop (nat offset) (file_bytes (view (bc f)) (data i))), f') \<and>
    view (bc f') = view (bc f) \<and> cache_ok n (bc f') \<and> inodes f' = inodes f"
proof -
  obtain f' where f': "inode_read_at f p sz offset =
      Some (take (nat sz) (drop (nat offset) (file_bytes (view (bc f)) (data i))), f')" "quiet n f f'"
    by (rule inode_read_at_ok [OF assms])
  with quiet_fields [OF f'(2)] show ?thesis by auto
qed

theorem inode_read_at_content_witness:
  "\<exists>f'. inode_read_at (sample_fs 1000) 100 300 900 = Some (replicate 100 0, f')"
  using inode_read_at_content [of "sample_fs 1000" 100 "sample_inode 1000" 8 900 300] blank_disk(2)
    sample_mapped [of 1000] by (auto simp: sample_file_bytes)

text \<open>
  C2: As long as nobody denies writes to the file and memory is available, a write inside a file
  followed by a read of any range returns the file with exactly the written bytes replaced; no sector outside the data blocks of the file changes, in particular no other file,
  index block or inode.
\<close>

theorem inode_write_then_read:
  assumes "inodes f p = Some i" "cache_ok n (bc f)" "n \<le> SECTOR_NONE" "\<forall>k. mem_avail f k"
    "mapped n (view (bc f)) (data i)" "apart (view (bc f)) (data i)" "deny_write_cnt i = 0"
    "0 \<le> offset" "0 < sz" "offset + sz \<le> file_len (data i)" "nat sz \<le> length buf"
    "0 \<le> roffset" "roffset < 2 ^ 31"
  shows "\<exists>f1 f2. inode_write_at f p buf sz offset = Some (sz, f1) \<and>
    (\<forall>t. t \<notin> data_sectors (view (bc f)) (data i) \<longrightarrow> view (bc f1) t = view (bc f) t) \<and>
    inode_read_at f1 p rsz roffset =
      Some (take (nat rsz) (drop (nat roffset)
        (overwrite (file_bytes (view (bc f)) (data i)) (nat offset) (take (nat sz) buf))), f2)"
proof -
  obtain f1 where f1: "inode_write_at f p buf sz offset = Some (sz, f1)" "wrote n (data_sectors (view (bc f)) (data i)) f f1"
    "mapped n (view (bc f1)) (data i)"
    "file_bytes (view (bc f1)) (data i) = overwrite (file_bytes (view (bc f)) (data i)) (nat offset) (take (nat sz) buf)"
    by (rule inode_write_at_inside [OF assms(1-11), of 3, folded inode_write_at_Suc])
  note w = wrote_fields [OF f1(2)]
  obtain f2 where "inode_read_at f1 p rsz roffset =
      Some (take (nat rsz) (drop (nat roffset) (file_bytes (view (bc f1)) (data i))), f2)"
    by (rule inode_read_at_ok [OF _ w(1) _ f1(3) assms(12,13), of p rsz]) (use w assms in auto)
  with f1 show ?thesis by (auto simp: wrote_def)
qed

theorem inode_write_then_read_witness:
  "\<exists>f1 f2. inode_write_at (sample_fs 1000) 100 [1, 2, 3] 3 510 = Some (3, f1) \<and>
    inode_read_at f1 100 5 509 = Some ([0, 1, 2, 3, 0], f2)"
proof -
  have "\<exists>f1 f2. inode_write_at (sample_fs 1000) 100 [1, 2, 3] 3 510 = Some (3, f1) \<and>
    (\<forall>t. t \<notin> data_sectors (view (bc (sample_fs 1000))) (data (sample_inode 1000)) \<longrightarrow> view (bc f1) t = view (bc (sample_fs 1000)) t) \<and>
    inode_read_at f1 100 5 509 = Some (take (nat 5) (drop (nat 509)
      (overwrite (file_bytes (view (bc (sample_fs 1000))) (data (sample_inode 1000))) (nat 510) (take (nat 3) [1, 2, 3]))), f2)"
    by (rule inode_write_then_read [where n = 8])
      (use blank_disk(2) sample_mapped [of 1000] in \<open>simp_all add: SECTOR_NONE_def\<close>)
  then show ?thesis by (auto simp: sample_file_bytes overwrite_def)
qed

section \<open>Open files\<close>

text \<open>
  Reading a file in pieces of any sizes, one \<^verbatim>\<open>file_read\<close> after the other, returns the consecutive
  content of the file from the current position on: no byte is skipped or repeated.
\<close>

theorem file_read_consecutive:
  assumes "files f p = Some fl" "inodes f (file_inode fl) = Some i" "cache_ok n (bc f)"
    "\<forall>k. mem_avail f k" "mapped n (view (bc f)) (data i)" "0 \<le> pos fl" "pos fl \<le> file_len (data i)"
    "\<forall>sz\<in>set szs. 0 \<le> sz"
  shows "\<exists>f'. read_pieces f p szs =
    Some (take (nat (sum_list szs)) (drop (nat (pos fl)) (file_bytes (view (bc f)) (data i))), f')"
  using assms
proof (induction szs arbitrary: f fl)
  case (Cons sz szs)
  let ?all = "file_bytes (view (bc f)) (data i)"
  let ?bs = "take (nat sz) (drop (nat (pos fl)) ?all)"
  obtain f1 where f1: "file_read f p sz = Some (?bs, f1)"
    "files f1 = (files f)(p \<mapsto> fl\<lparr>pos := pos fl + int (length ?bs)\<rparr>)"
    "inodes f1 = inodes f" "view (bc f1) = view (bc f)" "cache_ok n (bc f1)" "mem_avail f1 = mem_avail f"
    by (rule file_read_ok [OF Cons.prems(1-7)])
  let ?fl = "fl\<lparr>pos := pos fl + int (length ?bs)\<rparr>"
  have le: "pos ?fl \<le> file_len (data i)" using Cons.prems(6,7) by (simp add: min_def) linarith
  have "\<exists>f'. read_pieces f1 p szs = Some (take (nat (sum_list szs)) (drop (nat (pos ?fl)) (file_bytes (view (bc f1)) (data i))), f')"
    by (rule Cons.IH) (use f1 Cons.prems le in auto)
  then obtain f' where f': "read_pieces f1 p szs = Some (take (nat (sum_list szs)) (drop (nat (pos ?fl)) ?all), f')"
    using f1 by auto
  have nn: "0 \<le> sz" "0 \<le> sum_list szs" using Cons.prems(8) by (auto intro: sum_list_nonneg)
  have "take (nat (sz + sum_list szs)) (drop (nat (pos fl)) ?all) = ?bs @ take (nat (sum_list szs)) (drop (nat (pos ?fl)) ?all)"
  proof -
    have "nat (pos ?fl) = nat (pos fl) + length ?bs"
      using Cons.prems(6) by (simp add: nat_add_distrib del: of_nat_min)
    then have "drop (nat (pos ?fl)) ?all = drop (length ?bs) (drop (nat (pos fl)) ?all)" by (simp add: add.commute)
    also have "take (nat (sum_list szs)) \<dots> = take (nat (sum_list szs)) (drop (nat sz) (drop (nat (pos fl)) ?all))"
      by (auto simp: min_def)
    finally show ?thesis using nn by (simp add: nat_add_distrib take_add)
  qed
  with f1(1) f' show ?case by auto
qed simp

theorem file_read_consecutive_witness:
  "\<exists>f'. read_pieces (sample_fs 1000) 200 [600, 10, 700] = Some (replicate 1000 0, f')"
proof -
  have "\<exists>f'. read_pieces (sample_fs 1000) 200 [600, 10, 700] = Some (take (nat (sum_list [600, 10, 700]))
      (drop (nat (pos \<lparr>file_inode = 100, pos = 0, deny_write = False\<rparr>))
        (file_bytes (view (bc (sample_fs 1000))) (data (sample_inode 1000)))), f')"
    by (rule file_read_consecutive [where n = 8]) (use blank_disk(2) sample_mapped [of 1000] in simp_all)
  then show ?thesis by (simp add: sample_file_bytes)
qed

text \<open>A sequence of calls of \<^verbatim>\<open>file_deny_write\<close> (\<open>True\<close>) and \<^verbatim>\<open>file_allow_write\<close> (\<open>False\<close>).\<close>

fun deny_calls :: "fs \<Rightarrow> (bool \<times> addr) list \<Rightarrow> fs option" where
  "deny_calls f [] = Some f"
| "deny_calls f ((deny, p) # calls) = do {
     f \<leftarrow> (if deny then file_deny_write f p else file_allow_write f p);
     deny_calls f calls
   }"

text \<open>
  \<^verbatim>\<open>file_deny_write\<close> and \<^verbatim>\<open>file_allow_write\<close> keep the books: in any order and number of calls, the
  \<^verbatim>\<open>deny_write_cnt\<close> of every inode stays the number of open files that deny writes to it.
\<close>

theorem deny_counts_invariant:
  assumes "deny_counts_ok P f" "deny_calls f calls = Some f'"
  shows "deny_counts_ok P f'"
  using assms
  by (induction f calls rule: deny_calls.induct)
    (auto simp: monad_simps split: if_splits dest: file_deny_write_counts file_allow_write_counts)

theorem deny_counts_invariant_witness:
  "\<exists>f'. deny_calls (sample_fs 10) [(True, 200), (True, 200), (False, 200), (True, 200)] = Some f' \<and> deny_counts_ok {200} f'"
proof -
  have "\<exists>f'. deny_calls (sample_fs 10) [(True, 200), (True, 200), (False, 200), (True, 200)] = Some f'"
    by (simp add: file_deny_write_def file_allow_write_def inode_deny_write_def inode_allow_write_def update_file_def
        sample_fs_def sample_inode_def Let_def)
  moreover have "deny_counts_ok {200} (sample_fs 10)"
    by (simp add: deny_counts_ok_def deniers_def sample_fs_def sample_inode_def)
  ultimately show ?thesis using deny_counts_invariant by blast
qed

text \<open>
  Once a file denies writes, every write to its inode, through whatever file and at whatever
  position, writes nothing, returns 0 and leaves the file system as it was.
\<close>

theorem denied_inode_unchanged:
  assumes "files f p = Some fl" "inodes f (file_inode fl) = Some i" "\<not> deny_write fl"
    "0 \<le> deny_write_cnt i" "file_deny_write f p = Some f'"
  shows "inode_write_at f' (file_inode fl) buf sz ofs = Some (0, f')"
  using assms
  by (auto simp: file_deny_write_def update_file_def inode_deny_write_def Let_def inode_write_at_def WRITE_DEPTH_def
      numeral_eq_Suc monad_simps)

theorem denied_inode_unchanged_witness:
  "\<exists>f'. file_deny_write (sample_fs 10) 200 = Some f' \<and> inode_write_at f' 100 [1, 2] 2 0 = Some (0, f')"
proof -
  obtain f' where f': "file_deny_write (sample_fs 10) 200 = Some f'"
    by (simp add: file_deny_write_def inode_deny_write_def update_file_def sample_fs_def sample_inode_def Let_def)
  with denied_inode_unchanged [OF _ _ _ _ f', of "\<lparr>file_inode = 100, pos = 0, deny_write = False\<rparr>" "sample_inode 10" "[1, 2]" 2 0] show ?thesis by auto
qed

section \<open>Directories\<close>

text \<open>Replacing an element that a search does not accept by another such element.\<close>

lemma find_update_other:
  assumes "\<not> P (xs ! r)" "\<not> P e"
  shows "find P (xs[r := e]) = find P xs"
  using assms
proof (induction xs arbitrary: r)
  case (Cons x xs)
  then show ?case by (cases r) auto
qed simp

text \<open>\<^verbatim>\<open>lookup\<close> in terms of the list of entries.\<close>

lemma lookup_find:
  assumes ok: "dir_ok n f d i" and junk: "length junk = ENTRY_SIZE"
  obtains e ofs f' where "lookup junk f d nm = Some (find (named nm) (dir_list f i) \<noteq> None, e, ofs, f')" "quiet n f f'"
    "\<And>x. find (named nm) (dir_list f i) = Some x \<Longrightarrow> e = x"
proof -
  have "(\<exists>e\<in>set (dir_list f i). named nm e) \<longleftrightarrow> find (named nm) (dir_list f i) \<noteq> None" by (auto simp: find_None_iff)
  note iff = this
  show thesis by (rule lookup_ok [OF ok junk, of nm], rule that) (simp_all add: iff)
qed

text \<open>
  C8: \<^verbatim>\<open>dir_add\<close> of a new name into a directory with a free slot succeeds; afterwards \<^verbatim>\<open>lookup\<close> finds the
  name with the given inode sector, and for every other name it finds the entry it found before or
  again none.
\<close>

theorem dir_add_lookup:
  assumes ok: "dir_ok n f d i" and junk: "length junk = ENTRY_SIZE"
    and nm: "nm \<noteq> []" "length nm \<le> NAME_MAX" "0 \<notin> set nm" and sec: "sec < 2 ^ 32"
    and new: "\<not> (\<exists>e\<in>set (dir_list f i). named nm e)" and free: "\<exists>e\<in>set (dir_list f i). \<not> in_use e"
  shows "\<exists>f1. dir_add junk f d nm sec = Some (True, f1) \<and>
    (\<exists>e ofs f2. lookup junk f1 d nm = Some (True, e, ofs, f2) \<and> inode_sector e = sec \<and> entry_name e = nm) \<and>
    (\<forall>nm'. nm' \<noteq> nm \<longrightarrow> (\<exists>found e ofs f2 e1 ofs1 f3. lookup junk f d nm' = Some (found, e, ofs, f2) \<and>
       lookup junk f1 d nm' = Some (found, e1, ofs1, f3) \<and> (found \<longrightarrow> e1 = e)))"
proof -
  obtain f1 r e where f1: "dir_add junk f d nm sec = Some (True, f1)" "dir_ok n f1 d i" "r < length (dir_list f i)"
    "\<not> in_use (dir_list f i ! r)" "dir_list f1 i = (dir_list f i)[r := e]" "in_use e" "entry_name e = nm" "inode_sector e = sec"
    by (rule dir_add_slot [OF assms])
  let ?es = "dir_list f i"
  have "find (named nm) ?es = None" using new by (auto simp: find_None_iff)
  then have found: "find (named nm) (dir_list f1 i) = Some e"
    unfolding f1(5) using f1 by (intro find_update_new) (auto simp: named_def)
  obtain e' ofs f2 where "lookup junk f1 d nm = Some (True, e', ofs, f2)" "e' = e"
    by (rule lookup_find [OF f1(2) junk, of nm]) (use found in simp)
  moreover have "\<exists>found e ofs f2 e1 ofs1 f3. lookup junk f d nm' = Some (found, e, ofs, f2) \<and>
       lookup junk f1 d nm' = Some (found, e1, ofs1, f3) \<and> (found \<longrightarrow> e1 = e)" if "nm' \<noteq> nm" for nm'
  proof -
    have same: "find (named nm') (dir_list f1 i) = find (named nm') ?es"
      unfolding f1(5) by (rule find_update_other) (use that f1 in \<open>auto simp: named_def\<close>)
    obtain a oa fa where a: "lookup junk f d nm' = Some (find (named nm') ?es \<noteq> None, a, oa, fa)"
      "\<And>x. find (named nm') ?es = Some x \<Longrightarrow> a = x" by (rule lookup_find [OF ok junk, of nm']) blast
    obtain b ob fb where b: "lookup junk f1 d nm' = Some (find (named nm') ?es \<noteq> None, b, ob, fb)"
      "\<And>x. find (named nm') ?es = Some x \<Longrightarrow> b = x" by (rule lookup_find [OF f1(2) junk, of nm', unfolded same]) blast
    from a b show ?thesis by (cases "find (named nm') ?es") auto
  qed
  ultimately show ?thesis using f1 by blast
qed

lemma sample_dir:
  "dir_ok 8 (sample_fs 40) \<lparr>dir_inode = 100, dir_pos = 0\<rparr> (sample_inode 40)"
  "dir_list (sample_fs 40) (sample_inode 40) = [replicate 20 0, replicate 20 0]"
  using blank_disk(2) sample_mapped [of 40]
  by (simp_all add: dir_ok_def SECTOR_NONE_def dir_list_def sample_file_bytes entries_def ENTRY_SIZE_def upt_rec)

theorem dir_add_lookup_witness:
  "\<exists>f1. dir_add (replicate 20 0) (sample_fs 40) \<lparr>dir_inode = 100, dir_pos = 0\<rparr> [97, 98] 7 = Some (True, f1) \<and>
    (\<exists>e ofs f2. lookup (replicate 20 0) f1 \<lparr>dir_inode = 100, dir_pos = 0\<rparr> [97, 98] = Some (True, e, ofs, f2) \<and> inode_sector e = 7)"
proof -
  have "length (replicate 20 (0 :: byte)) = ENTRY_SIZE" "[97, 98 :: byte] \<noteq> []" "length [97, 98 :: byte] \<le> NAME_MAX"
    "(0 :: byte) \<notin> set [97, 98]" "7 < (2 :: nat) ^ 32"
    "\<not> (\<exists>e\<in>set (dir_list (sample_fs 40) (sample_inode 40)). named [97, 98] e)"
    "\<exists>e\<in>set (dir_list (sample_fs 40) (sample_inode 40)). \<not> in_use e"
    by (simp_all add: ENTRY_SIZE_def NAME_MAX_def sample_dir(2) named_def in_use_def)
  from dir_add_lookup [OF sample_dir(1) this] show ?thesis by blast
qed

text \<open>
  \<^verbatim>\<open>dir_add\<close> rejects what it should: an empty name, a name of more than 14 characters and a name
  that is already in use make it return false, and the content of the file system stays as it was.
\<close>

theorem dir_add_rejects:
  assumes "dir_ok n f d i" "length junk = ENTRY_SIZE"
    "nm = [] \<or> NAME_MAX < length nm \<or> (\<exists>e\<in>set (dir_list f i). named nm e)"
  shows "\<exists>f1. dir_add junk f d nm sec = Some (False, f1) \<and> view (bc f1) = view (bc f) \<and> inodes f1 = inodes f"
proof (cases "nm = [] \<or> NAME_MAX < length nm")
  case True
  then show ?thesis by (auto simp: dir_add_def)
next
  case False
  obtain e ofs f1 where l: "lookup junk f d nm = Some (True, e, ofs, f1)" "quiet n f f1"
    by (rule lookup_ok [OF assms(1,2), of nm]) (use assms(3) False in auto)
  with False quiet_fields [OF l(2)] show ?thesis by (auto simp: dir_add_def)
qed

theorem dir_add_rejects_witness:
  "\<exists>f1. dir_add (replicate 20 0) (sample_fs 40) \<lparr>dir_inode = 100, dir_pos = 0\<rparr> (replicate 15 97) 7 = Some (False, f1) \<and>
    view (bc f1) = view (bc (sample_fs 40))"
  using dir_add_rejects [OF sample_dir(1), of "replicate 20 0" "replicate 15 97" 7] by (auto simp: ENTRY_SIZE_def NAME_MAX_def)

section \<open>Faults\<close>

text \<open>
  A write of zero bytes at the start of a file is not a no-operation: it sets the length of the
  file to 0, in memory and on disk.
\<close>

theorem inode_write_at_zero_bytes:
  assumes "inodes f p = Some i" "cache_ok n (bc f)" "sector i < n" "wf_inode_disk (data i)" "deny_write_cnt i = 0"
  shows "\<exists>f'. inode_write_at f p buf 0 0 = Some (0, f') \<and>
    inodes f' p = Some (i\<lparr>data := (data i)\<lparr>file_len := 0\<rparr>\<rparr>) \<and>
    view (bc f') (sector i) = inode_disk_bytes ((data i)\<lparr>file_len := 0\<rparr>)"
  by (rule zero_write_truncates [OF assms, of buf]) simp

theorem inode_write_at_zero_bytes_witness:
  "\<exists>f'. inode_write_at (sample_fs 1000) 100 [] 0 0 = Some (0, f') \<and> inodes f' 100 = Some (sample_inode 0)"
proof -
  have "wf_inode_disk (data (sample_inode 1000))" "sector (sample_inode 1000) < 8"
    by (auto simp: wf_inode_disk_def sample_inode_def sample_inode_disk_def DIRECT_INDEX_NUM_def INODE_MAGIC_def)
  with inode_write_at_zero_bytes [of "sample_fs 1000" 100 "sample_inode 1000" 8 "[]"] blank_disk(2) show ?thesis
    by (auto simp: sample_inode_def sample_inode_disk_def)
qed

text \<open>
  On a full disk the allocation of a data block goes wrong silently: \<^verbatim>\<open>inode_allocate\<close>'s helper
  ignores the failure of \<^verbatim>\<open>free_map_allocate\<close>, keeps the pointer 0 and fills sector 0, the inode of the
  free map, with zeros.
\<close>

theorem full_disk_corrupts_free_map_inode:
  assumes "wf_bitmap (free_map f)" "\<forall>k < bit_cnt (free_map f). bitmap_bits (free_map f) ! k" "cache_ok n (bc f)" "0 < n"
  shows "\<exists>f'. alloc_entry wr f 0 = Some (0, f') \<and> view (bc f') = (view (bc f))(0 := zeros)"
proof -
  have "first_group (bitmap_bits (free_map f)) 0 1 False = None"
    using assms(2) by (auto simp: first_group_None_iff group_at_def)
  from full_disk_overwrites_sector_0 [OF assms(1) this assms(3,4), of wr] show ?thesis by metis
qed

theorem full_disk_corrupts_free_map_inode_witness:
  "\<exists>f'. alloc_entry inode_write_at ((sample_fs 10)\<lparr>free_map := \<lparr>bit_cnt = 8, bits = [0xFF]\<rparr>\<rparr>) 0 = Some (0, f') \<and>
    view (bc f') 0 = zeros"
proof -
  let ?f = "(sample_fs 10)\<lparr>free_map := \<lparr>bit_cnt = 8, bits = [0xFF]\<rparr>\<rparr>"
  have full: "bitmap_bits (free_map ?f) = replicate 8 True"
  proof (rule nth_equalityI)
    fix k assume "k < length (bitmap_bits (free_map ?f))"
    then have k: "k < 8" by simp
    then have "bit (0xFF :: 32 word) k" by (auto simp: less_Suc_eq eval_nat_numeral bit_simps)
    with k show "bitmap_bits (free_map ?f) ! k = replicate 8 True ! k"
      by (simp add: bitmap_bits_nth elem_idx_def ELEM_BITS_def)
  qed simp
  have "wf_bitmap (free_map ?f)" "\<forall>k < bit_cnt (free_map ?f). bitmap_bits (free_map ?f) ! k"
    using full by (simp_all add: wf_bitmap_def ELEM_BITS_def SIZE_WRAP_def)
  from full_disk_corrupts_free_map_inode [OF this, of 8 inode_write_at] blank_disk(2) show ?thesis by auto
qed

end
