(* ===== verification/Fixed_Point.thy ===== *)
theory Fixed_Point
  imports Pintos_Prelude "HOL-Library.Signed_Division"
begin

text \<open>
  \<^verbatim>\<open>threads/fixed_point.h\<close>: 17.16 fixed-point arithmetic of the feedback-queue scheduler.  Values are
  integers; the casts to \<^verbatim>\<open>fixed_t\<close> reduce to 32 bits, \<^verbatim>\<open>/\<close> truncates towards zero and \<^verbatim>\<open>>>\<close> on a
  negative number rounds towards minus infinity (as the compiler does it).
\<close>

definition int32 :: "int \<Rightarrow> int" where
  "int32 x = (x + 2 ^ 31) mod 2 ^ 32 - 2 ^ 31"

lemma int32_id [simp]: "- (2 ^ 31) \<le> x \<Longrightarrow> x < 2 ^ 31 \<Longrightarrow> int32 x = x"
  unfolding int32_def by simp

definition FP_SHIFT_AMOUNT :: nat where
  "FP_SHIFT_AMOUNT = 16"

definition FP_CONST :: "int \<Rightarrow> int" where
  "FP_CONST a = int32 (a * 2 ^ FP_SHIFT_AMOUNT)"

definition FP_ADD :: "int \<Rightarrow> int \<Rightarrow> int" where
  "FP_ADD a b = int32 (a + b)"

definition FP_ADD_MIX :: "int \<Rightarrow> int \<Rightarrow> int" where
  "FP_ADD_MIX a b = int32 (a + int32 (b * 2 ^ FP_SHIFT_AMOUNT))"

definition FP_SUB :: "int \<Rightarrow> int \<Rightarrow> int" where
  "FP_SUB a b = int32 (a - b)"

definition FP_SUB_MIX :: "int \<Rightarrow> int \<Rightarrow> int" where
  "FP_SUB_MIX a b = int32 (a - int32 (b * 2 ^ FP_SHIFT_AMOUNT))"

definition FP_MULT_MIX :: "int \<Rightarrow> int \<Rightarrow> int" where
  "FP_MULT_MIX a b = int32 (a * b)"

definition FP_DIV_MIX :: "int \<Rightarrow> int \<Rightarrow> int" where
  "FP_DIV_MIX a b = int32 (a sdiv b)"

definition FP_MULT :: "int \<Rightarrow> int \<Rightarrow> int" where
  "FP_MULT a b = int32 ((a * b) div 2 ^ FP_SHIFT_AMOUNT)"

definition FP_DIV :: "int \<Rightarrow> int \<Rightarrow> int" where
  "FP_DIV a b = int32 ((a * 2 ^ FP_SHIFT_AMOUNT) sdiv b)"

definition FP_INT_PART :: "int \<Rightarrow> int" where
  "FP_INT_PART a = a div 2 ^ FP_SHIFT_AMOUNT"

definition FP_ROUND :: "int \<Rightarrow> int" where
  "FP_ROUND a = (if a \<ge> 0 then int32 (a + 2 ^ (FP_SHIFT_AMOUNT - 1)) div 2 ^ FP_SHIFT_AMOUNT
                 else int32 (a - 2 ^ (FP_SHIFT_AMOUNT - 1)) div 2 ^ FP_SHIFT_AMOUNT)"

lemmas fp_defs = FP_CONST_def FP_ADD_def FP_ADD_MIX_def FP_SUB_def FP_SUB_MIX_def FP_MULT_MIX_def FP_DIV_MIX_def
  FP_MULT_def FP_DIV_def FP_INT_PART_def FP_ROUND_def FP_SHIFT_AMOUNT_def

section \<open>Conversions\<close>

lemma FP_INT_PART_CONST: "- (2 ^ 15) \<le> n \<Longrightarrow> n < 2 ^ 15 \<Longrightarrow> FP_INT_PART (FP_CONST n) = n"
  by (simp add: fp_defs)

text \<open>For values that are not negative, rounding is to the nearest integer.\<close>

lemma FP_ROUND_nearest:
  assumes "0 \<le> a" "a < 2 ^ 31 - 2 ^ 15"
  shows "\<bar>2 ^ 16 * FP_ROUND a - a\<bar> \<le> 2 ^ 15"
proof -
  have "2 ^ 16 * ((a + 2 ^ 15) div 2 ^ 16) = (a + 2 ^ 15) - (a + 2 ^ 15) mod 2 ^ 16"
    by (simp add: minus_mod_eq_mult_div)
  moreover have "0 \<le> (a + 2 ^ 15) mod 2 ^ 16" "(a + 2 ^ 15) mod 2 ^ 16 < 2 ^ 16" by simp_all
  moreover have "FP_ROUND a = (a + 2 ^ 15) div 2 ^ 16" using assms by (simp add: fp_defs)
  ultimately show ?thesis by simp
qed

text \<open>
  For negative values the macro subtracts one half and shifts, which rounds down twice: a negative
  integer is rounded to the integer below it.
\<close>

lemma FP_ROUND_negative_integer:
  assumes "- (2 ^ 15) < n" "n < 0"
  shows "FP_ROUND (FP_CONST n) = n - 1"
proof -
  have "FP_ROUND (FP_CONST n) = (n * 65536 - 32768) div 65536" using assms by (simp add: fp_defs)
  also have "n * 65536 - 32768 = 32768 + (n - 1) * 65536" by simp
  finally show ?thesis by simp
qed

section \<open>Decay\<close>

text \<open>The weight \<open>2 l / (2 l + 1)\<close> that the scheduler gives to the old \<^verbatim>\<open>recent_cpu\<close> is below one.\<close>

definition decay :: "int \<Rightarrow> int" where
  "decay load_avg = FP_DIV (FP_MULT_MIX load_avg 2) (FP_ADD_MIX (FP_MULT_MIX load_avg 2) 1)"

lemma decay_bounds:
  assumes "0 \<le> l" "l < 2 ^ 29"
  shows "0 \<le> decay l" "decay l < 2 ^ 16"
proof -
  let ?b = "2 * l + 65536"
  let ?q = "(2 * l * 65536) div ?b"
  have b: "0 < ?b" using assms by simp
  have "?q < 65536"
  proof (rule ccontr)
    assume "\<not> ?q < 65536"
    then have "65536 * ?b \<le> ?q * ?b" using b by (intro mult_right_mono) auto
    also have "\<dots> \<le> 2 * l * 65536" using div_mult_mod_eq [of "2 * l * 65536" ?b] pos_mod_sign [OF b, of "2 * l * 65536"] by linarith
    finally show False by simp
  qed
  moreover have "0 \<le> ?q" using assms b by (simp add: pos_imp_zdiv_nonneg_iff)
  ultimately have q: "0 \<le> ?q" "?q < 65536" by simp_all
  have "decay l = ?q"
    using assms q by (simp add: decay_def fp_defs signed_divide_int_def sgn_if mult.commute mult.assoc)
  with q show "0 \<le> decay l" "decay l < 2 ^ 16" by simp_all
qed

end
