(* ===== verification/Thread_Sched.thy ===== *)
theory Thread_Sched
  imports Kernel_List_Sort Fixed_Point
begin

text \<open>
  The priority scheduler of \<^verbatim>\<open>pintos/src/threads/thread.c\<close> with \<^verbatim>\<open>pintos/src/threads/synch.c\<close> and the
  timer interrupt of \<^verbatim>\<open>pintos/src/devices/timer.c\<close>.

  A kernel function runs until it gives up the processor: \<^verbatim>\<open>schedule\<close> makes another thread the
  running one.  What is left of the function is a \<open>frame\<close> on the stack of the thread that gave up, and
  \<open>resume\<close> executes the topmost frame of the running thread.  The donation loop of \<^verbatim>\<open>lock_acquire\<close>, which
  runs with interrupts on, is cut into frames as well, so that a timer interrupt can come between them.
  Lists of threads and locks are sequences of addresses; \<^verbatim>\<open>list_insert_ordered\<close> and \<^verbatim>\<open>list_sort\<close> act on them as the theories \<open>Kernel_List_Ordered\<close> and
  \<open>Kernel_List_Sort\<close> show.  \<open>None\<close> is the halted kernel.
\<close>

section \<open>State\<close>

definition PRI_MIN :: int where "PRI_MIN = 0"

definition PRI_DEFAULT :: int where "PRI_DEFAULT = 31"

definition PRI_MAX :: int where "PRI_MAX = 63"

definition TIME_SLICE :: nat where "TIME_SLICE = 4"

definition TIMER_FREQ :: nat where "TIMER_FREQ = 100"

datatype thread_status = THREAD_RUNNING | THREAD_READY | THREAD_BLOCKED | THREAD_DYING

text \<open>What a thread has left to do in a kernel function that gave up the processor.\<close>

datatype frame =
    Set_Level bool              \<comment> \<open>\<^verbatim>\<open>intr_set_level (old_level)\<close>\<close>
  | Sema_Down addr bool         \<comment> \<open>the loop of \<^verbatim>\<open>sema_down\<close>\<close>
  | Donate addr                 \<comment> \<open>the loop of \<^verbatim>\<open>lock_acquire\<close>, at its test\<close>
  | Donate_To addr              \<comment> \<open>the same loop, at \<^verbatim>\<open>thread_donate_pri\<close>\<close>
  | Donate_Next addr            \<comment> \<open>the same loop, at its last line\<close>
  | Lock_Down addr              \<comment> \<open>\<^verbatim>\<open>lock_acquire\<close> after the loop\<close>
  | Lock_Finish addr            \<comment> \<open>\<^verbatim>\<open>lock_acquire\<close> after its \<^verbatim>\<open>sema_down\<close>\<close>
  | Set_Holder addr bool        \<comment> \<open>\<^verbatim>\<open>lock_acquire\<close> after \<^verbatim>\<open>thread_get_lock\<close>\<close>
  | Cond_Sleep addr addr        \<comment> \<open>\<^verbatim>\<open>cond_wait\<close> after its \<^verbatim>\<open>lock_release\<close>\<close>
  | Lock_Acquire addr           \<comment> \<open>\<^verbatim>\<open>cond_wait\<close> after its \<^verbatim>\<open>sema_down\<close>\<close>
  | Cond_Broadcast addr addr    \<comment> \<open>the loop of \<^verbatim>\<open>cond_broadcast\<close>\<close>
  | Take_Tid addr               \<comment> \<open>\<^verbatim>\<open>allocate_tid\<close> after its \<^verbatim>\<open>lock_acquire\<close>\<close>
  | Create_Finish addr int      \<comment> \<open>\<^verbatim>\<open>thread_create\<close> after \<^verbatim>\<open>allocate_tid\<close>\<close>

record thread =
  tid :: int
  status :: thread_status
  thread_nm :: string
  priority :: int
  original_pri :: int
  b_tick :: int
  holding_locks :: "addr list"
  waiting_lock :: addr
  nice :: int
  recent_cpu :: int
  thread_magic :: nat
  frames :: "frame list"

record semaphore =
  sema_val :: nat
  waiters :: "addr list"

record lock =
  holder :: addr
  max_pri :: int

record kernel =
  threads :: "addr \<Rightarrow> thread option"
  running :: addr
  ready_list :: "addr list"
  all_list :: "addr list"
  idle_thread :: addr
  initial_thread :: addr
  thread_ticks :: nat
  idle_ticks :: nat
  kernel_ticks :: nat
  next_tid :: int
  tid_lock :: addr
  semas :: "addr \<Rightarrow> semaphore"
  locks :: "addr \<Rightarrow> lock"
  conds :: "addr \<Rightarrow> addr list"
  timer :: nat
  load_avg :: int
  thread_mlfqs :: bool
  intr_on :: bool
  in_intr :: bool
  yield_on_return :: bool

definition THREAD_MAGIC :: nat where "THREAD_MAGIC = 0xcd6abf4b"

text \<open>\<^verbatim>\<open>&lock->semaphore\<close>: the semaphore follows the holder pointer.\<close>

definition sema_of :: "addr \<Rightarrow> addr" where
  "sema_of l = l + 4"

definition upd_thread :: "kernel \<Rightarrow> addr \<Rightarrow> (thread \<Rightarrow> thread) \<Rightarrow> kernel" where
  "upd_thread k p g = k\<lparr>threads := (threads k)(p := map_option g (threads k p))\<rparr>"

definition upd_sema :: "kernel \<Rightarrow> addr \<Rightarrow> (semaphore \<Rightarrow> semaphore) \<Rightarrow> kernel" where
  "upd_sema k s g = k\<lparr>semas := (semas k)(s := g (semas k s))\<rparr>"

definition upd_lock :: "kernel \<Rightarrow> addr \<Rightarrow> (lock \<Rightarrow> lock) \<Rightarrow> kernel" where
  "upd_lock k l g = k\<lparr>locks := (locks k)(l := g (locks k l))\<rparr>"

definition push_frame :: "kernel \<Rightarrow> frame \<Rightarrow> kernel" where
  "push_frame k fr = upd_thread k (running k) (\<lambda>t. t\<lparr>frames := fr # frames t\<rparr>)"

definition pri :: "kernel \<Rightarrow> addr \<Rightarrow> int" where
  "pri k p = (case threads k p of Some t \<Rightarrow> priority t | None \<Rightarrow> 0)"

definition is_thread :: "kernel \<Rightarrow> addr \<Rightarrow> bool" where
  "is_thread k p \<longleftrightarrow> p \<noteq> NULL \<and> (\<exists>t. threads k p = Some t \<and> thread_magic t = THREAD_MAGIC)"

definition stat :: "kernel \<Rightarrow> addr \<Rightarrow> thread_status option" where
  "stat k p = map_option status (threads k p)"

section \<open>Scheduling\<close>

definition thread_cmp_pri :: "kernel \<Rightarrow> addr \<Rightarrow> addr \<Rightarrow> bool" where
  "thread_cmp_pri k lhs rhs \<longleftrightarrow> pri k lhs > pri k rhs"

definition lock_cmp_pri :: "kernel \<Rightarrow> addr \<Rightarrow> addr \<Rightarrow> bool" where
  "lock_cmp_pri k lhs rhs \<longleftrightarrow> max_pri (locks k lhs) > max_pri (locks k rhs)"

definition thread_current :: "kernel \<Rightarrow> addr option" where
  "thread_current k = do {
     ASSERT (is_thread k (running k));
     ASSERT (stat k (running k) = Some THREAD_RUNNING);
     Some (running k)
   }"

definition next_thread_to_run :: "kernel \<Rightarrow> addr \<times> kernel" where
  "next_thread_to_run k = (case ready_list k of
     [] \<Rightarrow> (idle_thread k, k)
   | p # ps \<Rightarrow> (p, k\<lparr>ready_list := ps\<rparr>))"

text \<open>\<open>prev\<close> is the null pointer when the running thread goes on running.\<close>

definition thread_schedule_tail :: "kernel \<Rightarrow> addr \<Rightarrow> kernel option" where
  "thread_schedule_tail k prev = do {
     let cur = running k;
     ASSERT (\<not> intr_on k);
     let k = upd_thread k cur (\<lambda>t. t\<lparr>status := THREAD_RUNNING\<rparr>);
     let k = k\<lparr>thread_ticks := 0\<rparr>;
     if prev \<noteq> NULL \<and> stat k prev = Some THREAD_DYING \<and> prev \<noteq> initial_thread k then do {
       ASSERT (prev \<noteq> cur);
       Some (k\<lparr>threads := (threads k)(prev := None)\<rparr>)
     } else Some k
   }"

definition schedule :: "kernel \<Rightarrow> kernel option" where
  "schedule k = do {
     let cur = running k;
     let (nxt, k) = next_thread_to_run k;
     ASSERT (\<not> intr_on k);
     ASSERT (stat k cur \<noteq> Some THREAD_RUNNING);
     ASSERT (is_thread k nxt);
     if cur \<noteq> nxt then thread_schedule_tail (k\<lparr>running := nxt\<rparr>) cur
     else thread_schedule_tail k NULL
   }"

definition thread_block :: "kernel \<Rightarrow> kernel option" where
  "thread_block k = do {
     ASSERT (\<not> in_intr k);
     ASSERT (\<not> intr_on k);
     cur \<leftarrow> thread_current k;
     schedule (upd_thread k cur (\<lambda>t. t\<lparr>status := THREAD_BLOCKED\<rparr>))
   }"

definition thread_unblock :: "kernel \<Rightarrow> addr \<Rightarrow> kernel option" where
  "thread_unblock k t = do {
     ASSERT (is_thread k t);
     let old_level = intr_on k;
     let k = k\<lparr>intr_on := False\<rparr>;
     ASSERT (stat k t = Some THREAD_BLOCKED);
     let k = k\<lparr>ready_list := insert_before_greater (thread_cmp_pri k) t (ready_list k)\<rparr>;
     let k = upd_thread k t (\<lambda>t. t\<lparr>status := THREAD_READY\<rparr>);
     Some (k\<lparr>intr_on := old_level\<rparr>)
   }"

definition thread_yield :: "kernel \<Rightarrow> kernel option" where
  "thread_yield k = do {
     cur \<leftarrow> thread_current k;
     ASSERT (\<not> in_intr k);
     let old_level = intr_on k;
     let k = push_frame (k\<lparr>intr_on := False\<rparr>) (Set_Level old_level);
     let k = (if cur \<noteq> idle_thread k
              then k\<lparr>ready_list := insert_before_greater (thread_cmp_pri k) cur (ready_list k)\<rparr> else k);
     schedule (upd_thread k cur (\<lambda>t. t\<lparr>status := THREAD_READY\<rparr>))
   }"

definition thread_exit :: "kernel \<Rightarrow> kernel option" where
  "thread_exit k = do {
     ASSERT (\<not> in_intr k);
     let k = k\<lparr>intr_on := False\<rparr>;
     cur \<leftarrow> thread_current k;
     ASSERT (cur \<in> set (all_list k));
     let k = k\<lparr>all_list := remove1 cur (all_list k)\<rparr>;
     schedule (upd_thread k cur (\<lambda>t. t\<lparr>status := THREAD_DYING\<rparr>))
   }"

fun foreach_loop :: "(kernel \<Rightarrow> addr \<Rightarrow> kernel option) \<Rightarrow> addr list \<Rightarrow> kernel \<Rightarrow> kernel option" where
  "foreach_loop func [] k = Some k"
| "foreach_loop func (p # ps) k = do { k \<leftarrow> func k p; foreach_loop func ps k }"

definition thread_foreach :: "(kernel \<Rightarrow> addr \<Rightarrow> kernel option) \<Rightarrow> kernel \<Rightarrow> kernel option" where
  "thread_foreach func k = do {
     ASSERT (\<not> intr_on k);
     foreach_loop func (all_list k) k
   }"

section \<open>Priority donation\<close>

text \<open>\<^verbatim>\<open>list_sort\<close> with \<^verbatim>\<open>lock_cmp_pri\<close> or \<^verbatim>\<open>thread_cmp_pri\<close>: stable, largest first.\<close>

definition sort_locks :: "kernel \<Rightarrow> addr list \<Rightarrow> addr list" where
  "sort_locks k ls = sort_key (\<lambda>l. - max_pri (locks k l)) ls"

definition sort_threads :: "kernel \<Rightarrow> addr list \<Rightarrow> addr list" where
  "sort_threads k ps = sort_key (\<lambda>p. - pri k p) ps"

definition thread_update_pri :: "kernel \<Rightarrow> addr \<Rightarrow> kernel option" where
  "thread_update_pri k p = do {
     t \<leftarrow> threads k p;
     let ls = (if holding_locks t \<noteq> [] then sort_locks k (holding_locks t) else holding_locks t);
     let m = (if holding_locks t \<noteq> [] then max (original_pri t) (max_pri (locks k (hd ls))) else original_pri t);
     Some (upd_thread k p (\<lambda>t. t\<lparr>holding_locks := ls, priority := m\<rparr>))
   }"

definition thread_donate_pri :: "kernel \<Rightarrow> addr \<Rightarrow> kernel option" where
  "thread_donate_pri k p = do {
     let old_level = intr_on k;
     k \<leftarrow> thread_update_pri (k\<lparr>intr_on := False\<rparr>) p;
     k \<leftarrow> (if stat k p = Some THREAD_READY then do {
         ASSERT (p \<in> set (ready_list k));
         Some (k\<lparr>ready_list := insert_before_greater (thread_cmp_pri k) p (remove1 p (ready_list k))\<rparr>)
       } else Some k);
     Some (k\<lparr>intr_on := old_level\<rparr>)
   }"

definition thread_get_lock :: "kernel \<Rightarrow> addr \<Rightarrow> kernel option" where
  "thread_get_lock k l = do {
     let old_level = intr_on k;
     let k = k\<lparr>intr_on := False\<rparr>;
     cur \<leftarrow> thread_current k;
     let k = upd_thread k cur (\<lambda>t. t\<lparr>holding_locks := insert_before_greater (lock_cmp_pri k) l (holding_locks t)\<rparr>);
     if max_pri (locks k l) > pri k cur then
       thread_yield (push_frame (upd_thread k cur (\<lambda>t. t\<lparr>priority := max_pri (locks k l)\<rparr>)) (Set_Level old_level))
     else Some (k\<lparr>intr_on := old_level\<rparr>)
   }"

definition thread_remove_lock :: "kernel \<Rightarrow> addr \<Rightarrow> kernel option" where
  "thread_remove_lock k l = do {
     let old_level = intr_on k;
     let k = k\<lparr>intr_on := False\<rparr>;
     cur \<leftarrow> thread_current k;
     t \<leftarrow> threads k cur;
     ASSERT (l \<in> set (holding_locks t));
     let k = upd_thread k cur (\<lambda>t. t\<lparr>holding_locks := remove1 l (holding_locks t)\<rparr>);
     k \<leftarrow> thread_update_pri k cur;
     Some (k\<lparr>intr_on := old_level\<rparr>)
   }"

definition thread_set_priority :: "kernel \<Rightarrow> int \<Rightarrow> kernel option" where
  "thread_set_priority k new_priority =
     (if thread_mlfqs k then Some k
      else do {
        let old_level = intr_on k;
        let k = k\<lparr>intr_on := False\<rparr>;
        cur \<leftarrow> thread_current k;
        t \<leftarrow> threads k cur;
        let k = upd_thread k cur (\<lambda>t. t\<lparr>original_pri := new_priority\<rparr>);
        if original_pri t = priority t \<or> holding_locks t = [] \<or> new_priority > priority t then
          thread_yield (push_frame (upd_thread k cur (\<lambda>t. t\<lparr>priority := new_priority\<rparr>)) (Set_Level old_level))
        else Some (k\<lparr>intr_on := old_level\<rparr>)
      })"

section \<open>Feedback-queue scheduler\<close>

definition mlfqs_priority :: "int \<Rightarrow> int \<Rightarrow> int" where
  "mlfqs_priority rcpu nc =
     (let p = FP_INT_PART (FP_SUB_MIX (FP_SUB (FP_CONST PRI_MAX) (FP_DIV_MIX rcpu 4)) (2 * nc));
          p = (if p < PRI_MIN then PRI_MIN else p)
      in if p > PRI_MAX then PRI_MAX else p)"

definition thread_mlfqs_pri_update :: "kernel \<Rightarrow> addr \<Rightarrow> kernel option" where
  "thread_mlfqs_pri_update k p =
     (if p = idle_thread k \<or> \<not> thread_mlfqs k then Some k
      else Some (upd_thread k p (\<lambda>t. t\<lparr>priority := mlfqs_priority (recent_cpu t) (nice t)\<rparr>)))"

definition thread_mlfqs_tick_rcpu_update :: "kernel \<Rightarrow> kernel option" where
  "thread_mlfqs_tick_rcpu_update k =
     (if \<not> thread_mlfqs k then Some k
      else do {
        ASSERT (in_intr k);
        cur \<leftarrow> thread_current k;
        if cur = idle_thread k then Some k
        else Some (upd_thread k cur (\<lambda>t. t\<lparr>recent_cpu := FP_ADD_MIX (recent_cpu t) 1\<rparr>))
      })"

definition thread_per_rcpu_update :: "kernel \<Rightarrow> addr \<Rightarrow> kernel option" where
  "thread_per_rcpu_update k p =
     (if p \<noteq> idle_thread k then
        thread_mlfqs_pri_update
          (upd_thread k p (\<lambda>t. t\<lparr>recent_cpu := FP_ADD_MIX (FP_MULT (decay (load_avg k)) (recent_cpu t)) (nice t)\<rparr>)) p
      else Some k)"

definition thread_mlfqs_avg_rcpu_update :: "kernel \<Rightarrow> kernel option" where
  "thread_mlfqs_avg_rcpu_update k =
     (if \<not> thread_mlfqs k then Some k
      else do {
        ASSERT (in_intr k);
        cur \<leftarrow> thread_current k;
        let ready_threads = length (ready_list k) + (if cur \<noteq> idle_thread k then 1 else 0);
        let k = k\<lparr>load_avg := FP_ADD (FP_DIV_MIX (FP_MULT_MIX (load_avg k) 59) 60) (FP_DIV_MIX (FP_CONST (int ready_threads)) 60)\<rparr>;
        thread_foreach thread_per_rcpu_update k
      })"

definition thread_set_nice :: "kernel \<Rightarrow> int \<Rightarrow> kernel option" where
  "thread_set_nice k nc = do {
     cur \<leftarrow> thread_current k;
     k \<leftarrow> thread_mlfqs_pri_update (upd_thread k cur (\<lambda>t. t\<lparr>nice := nc\<rparr>)) cur;
     thread_yield k
   }"

definition thread_get_load_avg :: "kernel \<Rightarrow> int" where
  "thread_get_load_avg k = FP_ROUND (FP_MULT_MIX (load_avg k) 100)"

definition thread_get_recent_cpu :: "kernel \<Rightarrow> int option" where
  "thread_get_recent_cpu k = do {
     cur \<leftarrow> thread_current k;
     t \<leftarrow> threads k cur;
     Some (FP_ROUND (FP_MULT_MIX (recent_cpu t) 100))
   }"

definition thread_get_priority :: "kernel \<Rightarrow> int option" where
  "thread_get_priority k = do { cur \<leftarrow> thread_current k; Some (pri k cur) }"

section \<open>Semaphores\<close>

definition sema_init :: "kernel \<Rightarrow> addr \<Rightarrow> nat \<Rightarrow> kernel" where
  "sema_init k s v = upd_sema k s (\<lambda>_. \<lparr>sema_val = v, waiters = []\<rparr>)"

definition sema_down_loop :: "kernel \<Rightarrow> addr \<Rightarrow> bool \<Rightarrow> kernel option" where
  "sema_down_loop k s old_level =
     (if sema_val (semas k s) = 0 then do {
        cur \<leftarrow> thread_current k;
        let k = upd_sema k s (\<lambda>sm. sm\<lparr>waiters := insert_before_greater (thread_cmp_pri k) cur (waiters sm)\<rparr>);
        thread_block (push_frame k (Sema_Down s old_level))
      }
      else Some ((upd_sema k s (\<lambda>sm. sm\<lparr>sema_val := sema_val sm - 1\<rparr>))\<lparr>intr_on := old_level\<rparr>))"

definition sema_down :: "kernel \<Rightarrow> addr \<Rightarrow> kernel option" where
  "sema_down k s = do {
     ASSERT (\<not> in_intr k);
     sema_down_loop (k\<lparr>intr_on := False\<rparr>) s (intr_on k)
   }"

definition sema_try_down :: "kernel \<Rightarrow> addr \<Rightarrow> bool \<times> kernel" where
  "sema_try_down k s =
     (if sema_val (semas k s) > 0 then (True, upd_sema k s (\<lambda>sm. sm\<lparr>sema_val := sema_val sm - 1\<rparr>))
      else (False, k))"

definition sema_up :: "kernel \<Rightarrow> addr \<Rightarrow> kernel option" where
  "sema_up k s = do {
     let old_level = intr_on k;
     let k = k\<lparr>intr_on := False\<rparr>;
     k \<leftarrow> (case sort_threads k (waiters (semas k s)) of
         [] \<Rightarrow> Some k
       | p # ps \<Rightarrow> thread_unblock (upd_sema k s (\<lambda>sm. sm\<lparr>waiters := ps\<rparr>)) p);
     let k = upd_sema k s (\<lambda>sm. sm\<lparr>sema_val := sema_val sm + 1\<rparr>);
     thread_yield (push_frame k (Set_Level old_level))
   }"

section \<open>Locks\<close>

text \<open>\<open>junk\<close> is the value of \<^verbatim>\<open>max_pri\<close>, which \<^verbatim>\<open>lock_init\<close> does not set.\<close>

definition lock_init :: "int \<Rightarrow> kernel \<Rightarrow> addr \<Rightarrow> kernel" where
  "lock_init junk k l = sema_init (upd_lock k l (\<lambda>_. \<lparr>holder = NULL, max_pri = junk\<rparr>)) (sema_of l) 1"

definition lock_held_by_current_thread :: "kernel \<Rightarrow> addr \<Rightarrow> bool option" where
  "lock_held_by_current_thread k l = do {
     ASSERT (l \<noteq> NULL);
     cur \<leftarrow> thread_current k;
     Some (holder (locks k l) = cur)
   }"

text \<open>
  Interrupts are on in the loop that donates the priority of the running thread along the chain of lock
  holders: other threads can run between the test with its assignment, the donation, and the last
  line of the body, so each of them is a part of its own.
\<close>

definition donate_check :: "kernel \<Rightarrow> addr \<Rightarrow> kernel" where
  "donate_check k lk =
     (if lk \<noteq> NULL \<and> pri k (running k) > max_pri (locks k lk)
      then push_frame (upd_lock k lk (\<lambda>l. l\<lparr>max_pri := pri k (running k)\<rparr>)) (Donate_To lk)
      else k)"

definition donate_to :: "kernel \<Rightarrow> addr \<Rightarrow> kernel option" where
  "donate_to k lk = thread_donate_pri (push_frame k (Donate_Next lk)) (holder (locks k lk))"

definition donate_next :: "kernel \<Rightarrow> addr \<Rightarrow> kernel option" where
  "donate_next k lk = do {
     h \<leftarrow> threads k (holder (locks k lk));
     Some (push_frame k (Donate (waiting_lock h)))
   }"

definition lock_acquire :: "kernel \<Rightarrow> addr \<Rightarrow> kernel option" where
  "lock_acquire k l = do {
     cur \<leftarrow> thread_current k;
     ASSERT (\<not> in_intr k);
     held \<leftarrow> lock_held_by_current_thread k l;
     ASSERT (\<not> held);
     let k = push_frame k (Lock_Down l);
     if holder (locks k l) \<noteq> NULL \<and> \<not> thread_mlfqs k
     then Some (push_frame (upd_thread k cur (\<lambda>t. t\<lparr>waiting_lock := l\<rparr>)) (Donate l))
     else Some k
   }"

text \<open>The call of \<^verbatim>\<open>sema_down\<close> in \<^verbatim>\<open>lock_acquire\<close>.\<close>

definition lock_down :: "kernel \<Rightarrow> addr \<Rightarrow> kernel option" where
  "lock_down k l = sema_down (push_frame k (Lock_Finish l)) (sema_of l)"

definition lock_finish :: "kernel \<Rightarrow> addr \<Rightarrow> kernel option" where
  "lock_finish k l = do {
     let old_level = intr_on k;
     let k = k\<lparr>intr_on := False\<rparr>;
     cur \<leftarrow> thread_current k;
     if \<not> thread_mlfqs k then do {
       let k = upd_thread k cur (\<lambda>t. t\<lparr>waiting_lock := NULL\<rparr>);
       let k = upd_lock k l (\<lambda>lk. lk\<lparr>max_pri := pri k cur\<rparr>);
       thread_get_lock (push_frame k (Set_Holder l old_level)) l
     } else Some (push_frame k (Set_Holder l old_level))
   }"

definition set_holder :: "kernel \<Rightarrow> addr \<Rightarrow> bool \<Rightarrow> kernel option" where
  "set_holder k l old_level = Some ((upd_lock k l (\<lambda>lk. lk\<lparr>holder := running k\<rparr>))\<lparr>intr_on := old_level\<rparr>)"

definition lock_try_acquire :: "kernel \<Rightarrow> addr \<Rightarrow> (bool \<times> kernel) option" where
  "lock_try_acquire k l = do {
     held \<leftarrow> lock_held_by_current_thread k l;
     ASSERT (\<not> held);
     let (success, k) = sema_try_down k (sema_of l);
     if success then do {
       cur \<leftarrow> thread_current k;
       Some (True, upd_lock k l (\<lambda>lk. lk\<lparr>holder := cur\<rparr>))
     } else Some (False, k)
   }"

definition lock_release :: "kernel \<Rightarrow> addr \<Rightarrow> kernel option" where
  "lock_release k l = do {
     held \<leftarrow> lock_held_by_current_thread k l;
     ASSERT held;
     let k = upd_lock k l (\<lambda>lk. lk\<lparr>holder := NULL\<rparr>);
     k \<leftarrow> (if \<not> thread_mlfqs k then thread_remove_lock k l else Some k);
     sema_up k (sema_of l)
   }"

section \<open>Condition variables\<close>

text \<open>A waiter of a condition variable is named by its semaphore.\<close>

definition cond_init :: "kernel \<Rightarrow> addr \<Rightarrow> kernel" where
  "cond_init k c = k\<lparr>conds := (conds k)(c := [])\<rparr>"

definition cond_wait :: "kernel \<Rightarrow> addr \<Rightarrow> addr \<Rightarrow> addr \<Rightarrow> kernel option" where
  "cond_wait k c l waiter = do {
     ASSERT (\<not> in_intr k);
     held \<leftarrow> lock_held_by_current_thread k l;
     ASSERT held;
     let k = sema_init k waiter 0;
     let k = k\<lparr>conds := (conds k)(c := conds k c @ [waiter])\<rparr>;
     lock_release (push_frame k (Cond_Sleep waiter l)) l
   }"

text \<open>The priority that \<^verbatim>\<open>cond_sema_cmp_pri\<close> reads; \<^verbatim>\<open>list_front\<close> asserts that there is a thread.\<close>

definition waiter_pri :: "kernel \<Rightarrow> addr \<Rightarrow> int option" where
  "waiter_pri k s = (case waiters (semas k s) of [] \<Rightarrow> None | p # _ \<Rightarrow> Some (pri k p))"

text \<open>Sorting compares every element when there are two or more.\<close>

definition sort_waiters :: "kernel \<Rightarrow> addr list \<Rightarrow> addr list option" where
  "sort_waiters k ss =
     (if length ss \<ge> 2 \<and> (\<exists>s\<in>set ss. waiter_pri k s = None) then None
      else Some (sort_key (\<lambda>s. case waiter_pri k s of Some p \<Rightarrow> - p | None \<Rightarrow> 0) ss))"

definition cond_signal :: "kernel \<Rightarrow> addr \<Rightarrow> addr \<Rightarrow> kernel option" where
  "cond_signal k c l = do {
     ASSERT (\<not> in_intr k);
     held \<leftarrow> lock_held_by_current_thread k l;
     ASSERT held;
     if conds k c \<noteq> [] then do {
       ss \<leftarrow> sort_waiters k (conds k c);
       sema_up (k\<lparr>conds := (conds k)(c := tl ss)\<rparr>) (hd ss)
     } else Some k
   }"

definition cond_broadcast :: "kernel \<Rightarrow> addr \<Rightarrow> addr \<Rightarrow> kernel option" where
  "cond_broadcast k c l =
     (if conds k c \<noteq> [] then cond_signal (push_frame k (Cond_Broadcast c l)) c l else Some k)"

section \<open>Threads\<close>

text \<open>
  \<open>misread\<close> stands for the integers that \<^verbatim>\<open>thread_cmp_pri\<close> reads when it is applied to \<^verbatim>\<open>allelem\<close>
  members, from which it does not find the thread.
\<close>

definition init_thread :: "(addr \<Rightarrow> int) \<Rightarrow> kernel \<Rightarrow> addr \<Rightarrow> string \<Rightarrow> int \<Rightarrow> kernel option" where
  "init_thread misread k p nm pr = do {
     ASSERT (p \<noteq> NULL);
     ASSERT (PRI_MIN \<le> pr \<and> pr \<le> PRI_MAX);
     let t = \<lparr>tid = 0, status = THREAD_BLOCKED, thread_nm = take 15 nm, priority = pr, original_pri = pr, b_tick = 0,
              holding_locks = [], waiting_lock = NULL, nice = 0, recent_cpu = 0, thread_magic = THREAD_MAGIC, frames = []\<rparr>;
     Some (k\<lparr>threads := (threads k)(p \<mapsto> t),
             all_list := insert_before_greater (\<lambda>a b. misread a > misread b) p (all_list k)\<rparr>)
   }"

definition allocate_tid :: "kernel \<Rightarrow> addr \<Rightarrow> kernel option" where
  "allocate_tid k p = lock_acquire (push_frame k (Take_Tid p)) (tid_lock k)"

definition take_tid :: "kernel \<Rightarrow> addr \<Rightarrow> kernel option" where
  "take_tid k p = do {
     let n = next_tid k;
     lock_release ((upd_thread k p (\<lambda>t. t\<lparr>tid := n\<rparr>))\<lparr>next_tid := n + 1\<rparr>) (tid_lock k)
   }"

text \<open>\<open>page\<close> is the result of \<^verbatim>\<open>palloc_get_page\<close>.  The new thread starts in \<^verbatim>\<open>kernel_thread\<close>, which
  enables interrupts.\<close>

definition thread_create :: "(addr \<Rightarrow> int) \<Rightarrow> kernel \<Rightarrow> addr \<Rightarrow> string \<Rightarrow> int \<Rightarrow> kernel option" where
  "thread_create misread k page nm pr =
     (if page = NULL then Some k
      else do {
        k \<leftarrow> init_thread misread k page nm pr;
        let k = upd_thread k page (\<lambda>t. t\<lparr>frames := [Set_Level True]\<rparr>);
        allocate_tid (push_frame k (Create_Finish page pr)) page
      })"

definition create_finish :: "kernel \<Rightarrow> addr \<Rightarrow> int \<Rightarrow> kernel option" where
  "create_finish k page pr = do {
     k \<leftarrow> thread_unblock k page;
     cur \<leftarrow> thread_current k;
     if pri k cur < pr then thread_yield k else Some k
   }"

section \<open>Time\<close>

definition thread_b_check :: "kernel \<Rightarrow> addr \<Rightarrow> kernel option" where
  "thread_b_check k p = do {
     t \<leftarrow> threads k p;
     if status t = THREAD_BLOCKED \<and> b_tick t > 0 then do {
       let k = upd_thread k p (\<lambda>t. t\<lparr>b_tick := b_tick t - 1\<rparr>);
       if b_tick t - 1 = 0 then thread_unblock k p else Some k
     } else Some k
   }"

definition thread_tick :: "kernel \<Rightarrow> kernel option" where
  "thread_tick k = do {
     t \<leftarrow> thread_current k;
     let k = (if t = idle_thread k then k\<lparr>idle_ticks := idle_ticks k + 1\<rparr> else k\<lparr>kernel_ticks := kernel_ticks k + 1\<rparr>);
     let k = k\<lparr>thread_ticks := thread_ticks k + 1\<rparr>;
     Some (if thread_ticks k \<ge> TIME_SLICE then k\<lparr>yield_on_return := True\<rparr> else k)
   }"

definition timer_interrupt :: "kernel \<Rightarrow> kernel option" where
  "timer_interrupt k = do {
     let k = k\<lparr>timer := timer k + 1\<rparr>;
     k \<leftarrow> thread_tick k;
     k \<leftarrow> thread_foreach thread_b_check k;
     if thread_mlfqs k then do {
       k \<leftarrow> thread_mlfqs_tick_rcpu_update k;
       if timer k mod TIMER_FREQ = 0 then thread_mlfqs_avg_rcpu_update k
       else if timer k mod 4 = 0 then do { cur \<leftarrow> thread_current k; thread_mlfqs_pri_update k cur }
       else Some k
     } else Some k
   }"

text \<open>\<^verbatim>\<open>intr_handler\<close> around an external interrupt: the processor has turned interrupts off, and \<^verbatim>\<open>iret\<close>
  turns them on again when the interrupted thread goes on.\<close>

definition intr_handler :: "(kernel \<Rightarrow> kernel option) \<Rightarrow> kernel \<Rightarrow> kernel option" where
  "intr_handler handler k = do {
     ASSERT (\<not> in_intr k);
     let k = push_frame (k\<lparr>intr_on := False\<rparr>) (Set_Level True);
     k \<leftarrow> handler (k\<lparr>in_intr := True, yield_on_return := False\<rparr>);
     let k = k\<lparr>in_intr := False\<rparr>;
     if yield_on_return k then thread_yield k else Some k
   }"

definition timer_sleep :: "kernel \<Rightarrow> int \<Rightarrow> kernel option" where
  "timer_sleep k n =
     (if n \<le> 0 then Some k
      else do {
        ASSERT (intr_on k);
        let k = push_frame (k\<lparr>intr_on := False\<rparr>) (Set_Level True);
        cur \<leftarrow> thread_current k;
        thread_block (upd_thread k cur (\<lambda>t. t\<lparr>b_tick := n\<rparr>))
      })"

definition timer_ticks :: "kernel \<Rightarrow> nat" where
  "timer_ticks k = timer k"

definition timer_elapsed :: "kernel \<Rightarrow> nat \<Rightarrow> int" where
  "timer_elapsed k since = int (timer_ticks k) - int since"

section \<open>Resuming\<close>

definition run_frame :: "frame \<Rightarrow> kernel \<Rightarrow> kernel option" where
  "run_frame fr k = (case fr of
     Set_Level b \<Rightarrow> Some (k\<lparr>intr_on := b\<rparr>)
   | Sema_Down s b \<Rightarrow> sema_down_loop k s b
   | Donate lk \<Rightarrow> Some (donate_check k lk)
   | Donate_To lk \<Rightarrow> donate_to k lk
   | Donate_Next lk \<Rightarrow> donate_next k lk
   | Lock_Down l \<Rightarrow> lock_down k l
   | Lock_Finish l \<Rightarrow> lock_finish k l
   | Set_Holder l b \<Rightarrow> set_holder k l b
   | Cond_Sleep w l \<Rightarrow> sema_down (push_frame k (Lock_Acquire l)) w
   | Lock_Acquire l \<Rightarrow> lock_acquire k l
   | Cond_Broadcast c l \<Rightarrow> cond_broadcast k c l
   | Take_Tid p \<Rightarrow> take_tid k p
   | Create_Finish p pr \<Rightarrow> create_finish k p pr)"

text \<open>The topmost frame of the running thread; without one, the thread runs its own code.\<close>

definition resume :: "kernel \<Rightarrow> kernel option" where
  "resume k = do {
     cur \<leftarrow> thread_current k;
     t \<leftarrow> threads k cur;
     case frames t of
       [] \<Rightarrow> Some k
     | fr # frs \<Rightarrow> run_frame fr (upd_thread k cur (\<lambda>t. t\<lparr>frames := frs\<rparr>))
   }"

end
