(* ===== verification/Sched_Invariant.thy ===== *)
theory Sched_Invariant
  imports Thread_Sched
begin

text \<open>
  The ready list of the priority scheduler: its members are the ready threads, each once, in order of
  descending priority, whatever kernel functions the threads call, with donation and timer interrupts.
\<close>

interpretation thread_order: weak_order "thread_cmp_pri k" for k
  by unfold_locales (auto simp: thread_cmp_pri_def)

interpretation lock_order: weak_order "lock_cmp_pri k" for k
  by unfold_locales (auto simp: lock_cmp_pri_def)

lemma set_insert_before_greater [simp]: "set (insert_before_greater lt e xs) = insert e (set xs)"
  by (metis insert_before_greater_def Un_insert_right list.simps(15) set_append takeWhile_dropWhile_id)

lemma distinct_insert_before_greater [simp]:
  "distinct (insert_before_greater lt e xs) \<longleftrightarrow> distinct xs \<and> e \<notin> set xs"
proof -
  have "mset (insert_before_greater lt e xs) = mset (e # xs)"
    by (simp add: insert_before_greater_def) (metis mset_append takeWhile_dropWhile_id)
  then have "distinct (insert_before_greater lt e xs) = distinct (e # xs)" by (rule mset_eq_imp_distinct_iff)
  then show ?thesis by auto
qed

section \<open>Reading the state after an update\<close>

lemma upd_thread_simps [simp]:
  "ready_list (upd_thread k p g) = ready_list k" "running (upd_thread k p g) = running k"
  "idle_thread (upd_thread k p g) = idle_thread k" "thread_mlfqs (upd_thread k p g) = thread_mlfqs k"
  "locks (upd_thread k p g) = locks k" "semas (upd_thread k p g) = semas k" "intr_on (upd_thread k p g) = intr_on k"
  "in_intr (upd_thread k p g) = in_intr k" "all_list (upd_thread k p g) = all_list k" "conds (upd_thread k p g) = conds k"
  "initial_thread (upd_thread k p g) = initial_thread k" "tid_lock (upd_thread k p g) = tid_lock k"
  "threads (upd_thread k p g) = (threads k)(p := map_option g (threads k p))" "timer (upd_thread k p g) = timer k"
  "yield_on_return (upd_thread k p g) = yield_on_return k"
  by (simp_all add: upd_thread_def)

lemma upd_sema_simps [simp]:
  "ready_list (upd_sema k s f) = ready_list k" "running (upd_sema k s f) = running k"
  "idle_thread (upd_sema k s f) = idle_thread k" "thread_mlfqs (upd_sema k s f) = thread_mlfqs k"
  "locks (upd_sema k s f) = locks k" "threads (upd_sema k s f) = threads k" "intr_on (upd_sema k s f) = intr_on k"
  "in_intr (upd_sema k s f) = in_intr k"
  by (simp_all add: upd_sema_def)

lemma upd_lock_simps [simp]:
  "ready_list (upd_lock k l f) = ready_list k" "running (upd_lock k l f) = running k"
  "idle_thread (upd_lock k l f) = idle_thread k" "thread_mlfqs (upd_lock k l f) = thread_mlfqs k"
  "threads (upd_lock k l f) = threads k" "semas (upd_lock k l f) = semas k" "intr_on (upd_lock k l f) = intr_on k"
  "in_intr (upd_lock k l f) = in_intr k" "locks (upd_lock k l f) = (locks k)(l := f (locks k l))"
  by (simp_all add: upd_lock_def)

section \<open>The invariant\<close>

text \<open>A thread as the ready list sees it.\<close>

definition as_seen :: "kernel \<Rightarrow> addr \<Rightarrow> (thread_status \<times> int \<times> nat) option" where
  "as_seen k p = map_option (\<lambda>t. (status t, priority t, thread_magic t)) (threads k p)"

definition queue_ok :: "kernel \<Rightarrow> bool" where
  "queue_ok k \<longleftrightarrow> \<not> thread_mlfqs k \<and> distinct (ready_list k) \<and>
     (\<forall>p\<in>set (ready_list k). is_thread k p \<and> stat k p = Some THREAD_READY) \<and>
     sorted_wrt (\<lambda>a b. pri k b \<le> pri k a) (ready_list k)"

text \<open>No thread but the running one is marked as running.\<close>

definition alone :: "kernel \<Rightarrow> bool" where
  "alone k \<longleftrightarrow> (\<forall>p. stat k p = Some THREAD_RUNNING \<longrightarrow> p = running k)"

definition sched_inv :: "kernel \<Rightarrow> bool" where
  "sched_inv k \<longleftrightarrow> queue_ok k \<and> alone k \<and> is_thread k (running k) \<and> stat k (running k) = Some THREAD_RUNNING"

lemma alone_cong:
  assumes "alone k" "running k' = running k" "\<And>p. stat k' p = Some THREAD_RUNNING \<Longrightarrow> stat k p = Some THREAD_RUNNING"
  shows "alone k'"
  using assms by (auto simp: alone_def)

lemma as_seen_eq:
  assumes "as_seen k' p = as_seen k p"
  shows "stat k' p = stat k p" "pri k' p = pri k p" "is_thread k' p = is_thread k p"
  using assms by (cases "threads k p"; cases "threads k' p"; auto simp: as_seen_def stat_def pri_def is_thread_def)+

lemma queue_ok_cong:
  assumes "queue_ok k" "ready_list k' = ready_list k" "thread_mlfqs k' = thread_mlfqs k"
    "\<And>p. p \<in> set (ready_list k) \<Longrightarrow> as_seen k' p = as_seen k p"
  shows "queue_ok k'"
proof -
  note e = as_seen_eq [OF assms(4)]
  have "sorted_wrt (\<lambda>a b. pri k' b \<le> pri k' a) (ready_list k)"
    by (rule sorted_wrt_mono_rel [of _ "\<lambda>a b. pri k b \<le> pri k a"]) (use assms(1) e in \<open>auto simp: queue_ok_def\<close>)
  with assms e show ?thesis by (auto simp: queue_ok_def)
qed

lemma sched_inv_cong:
  assumes "sched_inv k" "ready_list k' = ready_list k" "thread_mlfqs k' = thread_mlfqs k" "running k' = running k"
    "\<And>p. p \<in> insert (running k) (set (ready_list k)) \<Longrightarrow> as_seen k' p = as_seen k p"
    "\<And>p. stat k' p = Some THREAD_RUNNING \<Longrightarrow> stat k p = Some THREAD_RUNNING"
  shows "sched_inv k'"
  using assms queue_ok_cong [of k k'] alone_cong [of k k'] as_seen_eq [OF assms(5), of "running k"] by (auto simp: sched_inv_def)

lemma running_not_ready: "sched_inv k \<Longrightarrow> running k \<notin> set (ready_list k)"
  by (auto simp: sched_inv_def queue_ok_def)

lemma not_ready_not_queued: "queue_ok k \<Longrightarrow> stat k p \<noteq> Some THREAD_READY \<Longrightarrow> p \<notin> set (ready_list k)"
  by (auto simp: queue_ok_def)

lemma queue_ok_insert:
  assumes q: "queue_ok k" and p: "p \<notin> set (ready_list k)" "is_thread k' p" "stat k' p = Some THREAD_READY"
    and k': "ready_list k' = insert_before_greater (thread_cmp_pri k') p (ready_list k)" "thread_mlfqs k' = thread_mlfqs k"
    and o: "\<And>a. a \<in> set (ready_list k) \<Longrightarrow> as_seen k' a = as_seen k a"
  shows "queue_ok k'"
proof -
  note e = as_seen_eq [OF o]
  have "sorted_wrt (\<lambda>a b. \<not> thread_cmp_pri k' b a) (ready_list k)"
    by (rule sorted_wrt_mono_rel [of _ "\<lambda>a b. pri k b \<le> pri k a"])
      (use q e in \<open>auto simp: queue_ok_def thread_cmp_pri_def\<close>)
  from thread_order.insert_before_greater_sorted [OF this]
  have "sorted_wrt (\<lambda>a b. pri k' b \<le> pri k' a) (ready_list k')"
    by (simp add: k' thread_cmp_pri_def not_less)
  with q p k' e show ?thesis by (auto simp: queue_ok_def)
qed

section \<open>Scheduling\<close>

lemma alone_upd_thread:
  assumes "alone k" "\<And>t. status (g t) = THREAD_RUNNING \<Longrightarrow> status t = THREAD_RUNNING"
  shows "alone (upd_thread k p g)"
proof (rule alone_cong [OF assms(1)])
  fix q assume "stat (upd_thread k p g) q = Some THREAD_RUNNING"
  then show "stat k q = Some THREAD_RUNNING"
    using assms(2) by (cases "q = p"; cases "threads k p") (auto simp: stat_def)
qed simp

lemma alone_threads: "threads k' = threads k \<Longrightarrow> running k' = running k \<Longrightarrow> alone k' = alone k"
  by (simp add: alone_def stat_def)

lemma alone_irrelevant [simp]:
  "alone (k\<lparr>intr_on := b\<rparr>) = alone k" "alone (k\<lparr>all_list := ps\<rparr>) = alone k" "alone (k\<lparr>ready_list := ps\<rparr>) = alone k"
  by (rule alone_threads; simp)+

lemma alone_push_frame [simp]: "alone k \<Longrightarrow> alone (push_frame k fr)"
  unfolding push_frame_def by (rule alone_upd_thread) simp_all

lemma as_seen_upd_other: "q \<noteq> p \<Longrightarrow> as_seen (upd_thread k p g) q = as_seen k q"
  by (simp add: as_seen_def)

lemma as_seen_upd_same:
  "(\<And>t. status (g t) = status t \<and> priority (g t) = priority t \<and> thread_magic (g t) = thread_magic t) \<Longrightarrow>
   as_seen (upd_thread k p g) q = as_seen k q"
  by (cases "q = p"; cases "threads k p") (auto simp: as_seen_def)

lemma as_seen_threads: "threads k' = threads k \<Longrightarrow> as_seen k' p = as_seen k p"
  by (simp add: as_seen_def)

lemma push_frame_seen [simp]: "as_seen (push_frame k fr) q = as_seen k q"
  unfolding push_frame_def by (rule as_seen_upd_same) simp

lemma push_frame_simps [simp]:
  "ready_list (push_frame k fr) = ready_list k" "running (push_frame k fr) = running k"
  "idle_thread (push_frame k fr) = idle_thread k" "thread_mlfqs (push_frame k fr) = thread_mlfqs k"
  "locks (push_frame k fr) = locks k" "semas (push_frame k fr) = semas k" "intr_on (push_frame k fr) = intr_on k"
  "in_intr (push_frame k fr) = in_intr k" "all_list (push_frame k fr) = all_list k" "conds (push_frame k fr) = conds k"
  "tid_lock (push_frame k fr) = tid_lock k" "yield_on_return (push_frame k fr) = yield_on_return k"
  by (simp_all add: push_frame_def)

lemma schedule_inv:
  assumes q: "queue_ok k" and al: "alone k" and r: "schedule k = Some k'"
  shows "sched_inv k'"
    and "ready_list k \<noteq> [] \<Longrightarrow> running k' = hd (ready_list k)"
    and "ready_list k = [] \<Longrightarrow> running k' = idle_thread k"
    and "ready_list k' = tl (ready_list k)"
    and "\<And>p. p \<in> insert (running k') (set (ready_list k')) \<Longrightarrow> pri k' p = pri k p"
proof -
  define nxt where "nxt = (case ready_list k of [] \<Rightarrow> idle_thread k | p # _ \<Rightarrow> p)"
  have fst_next: "next_thread_to_run k = (nxt, k\<lparr>ready_list := tl (ready_list k)\<rparr>)"
    by (cases "ready_list k") (auto simp: next_thread_to_run_def nxt_def)
  let ?k = "k\<lparr>ready_list := tl (ready_list k), running := nxt\<rparr>"
  from r fst_next have th: "is_thread k nxt" and off: "\<not> intr_on k" and st: "stat k (running k) \<noteq> Some THREAD_RUNNING"
    and tail: "thread_schedule_tail ?k (if running k \<noteq> nxt then running k else NULL) = Some k'"
    by (auto simp: schedule_def Let_def monad_simps is_thread_def stat_def split: if_splits)
  let ?k1 = "(upd_thread ?k nxt (\<lambda>t. t\<lparr>status := THREAD_RUNNING\<rparr>))\<lparr>thread_ticks := 0\<rparr>"
  define dead where "dead \<longleftrightarrow> running k \<noteq> nxt \<and> running k \<noteq> NULL \<and> stat ?k1 (running k) = Some THREAD_DYING \<and> running k \<noteq> initial_thread k"
  have k': "k' = (if dead then ?k1\<lparr>threads := (threads ?k1)(running k := None)\<rparr> else ?k1)"
    using tail by (auto simp: thread_schedule_tail_def dead_def Let_def monad_simps split: if_splits)
  have rest: "nxt \<notin> set (tl (ready_list k))" "set (tl (ready_list k)) \<subseteq> set (ready_list k)"
    using q th by (cases "ready_list k"; auto simp: queue_ok_def nxt_def)+
  have notcur: "running k \<notin> set (ready_list k)" if dead
    using that not_ready_not_queued [OF q, of "running k"] by (auto simp: dead_def stat_def split: if_splits)
  have seen: "as_seen k' p = as_seen k p" if "p \<in> set (tl (ready_list k))" for p
    using that rest notcur by (auto simp: k' as_seen_def)
  have run: "running k' = nxt" "ready_list k' = tl (ready_list k)" by (auto simp: k')
  have seen_nxt: "threads k' nxt = map_option (\<lambda>t. t\<lparr>status := THREAD_RUNNING\<rparr>) (threads k nxt)"
    by (auto simp: k' dead_def)
  have qtl: "queue_ok (k\<lparr>ready_list := tl (ready_list k)\<rparr>)"
    using q rest(2) by (cases "ready_list k") (auto simp: queue_ok_def is_thread_def stat_def pri_def)
  have "queue_ok k'"
    by (rule queue_ok_cong [OF qtl]) (use run seen in \<open>auto simp: k' as_seen_def\<close>)
  moreover have "is_thread k' nxt" "stat k' nxt = Some THREAD_RUNNING"
    using th seen_nxt by (auto simp: is_thread_def stat_def)
  moreover have "alone k'"
    unfolding alone_def
  proof (intro allI impI)
    fix p assume p: "stat k' p = Some THREAD_RUNNING"
    show "p = running k'"
    proof (rule ccontr)
      assume "p \<noteq> running k'"
      with p run have "stat k p = Some THREAD_RUNNING" by (auto simp: k' stat_def split: if_splits)
      with al st show False by (auto simp: alone_def)
    qed
  qed
  ultimately show "sched_inv k'" by (simp add: sched_inv_def run)
  show "ready_list k \<noteq> [] \<Longrightarrow> running k' = hd (ready_list k)" "ready_list k = [] \<Longrightarrow> running k' = idle_thread k"
    unfolding run by (cases "ready_list k"; simp add: nxt_def)+
  show "ready_list k' = tl (ready_list k)" by (rule run)
  show "pri k' p = pri k p" if "p \<in> insert (running k') (set (ready_list k'))" for p
  proof (cases "p = nxt")
    case True
    then show ?thesis using th seen_nxt by (auto simp: pri_def is_thread_def)
  next
    case False
    then show ?thesis using that run as_seen_eq(2) [OF seen, of p] by simp
  qed
qed

lemma thread_current_Some: "thread_current k = Some cur \<longleftrightarrow> cur = running k \<and> is_thread k cur \<and> stat k cur = Some THREAD_RUNNING"
  by (auto simp: thread_current_def monad_simps)

lemma thread_block_inv:
  assumes inv: "sched_inv k" and r: "thread_block k = Some k'"
  shows "sched_inv k'"
proof -
  let ?k = "upd_thread k (running k) (\<lambda>t. t\<lparr>status := THREAD_BLOCKED\<rparr>)"
  have "schedule ?k = Some k'" using r by (auto simp: thread_block_def monad_simps thread_current_Some)
  moreover have "queue_ok ?k"
    by (rule queue_ok_cong [of k]) (use inv running_not_ready [OF inv] in \<open>auto simp: sched_inv_def as_seen_def\<close>)
  moreover have "alone ?k" by (rule alone_upd_thread) (use inv in \<open>simp_all add: sched_inv_def\<close>)
  ultimately show ?thesis by (intro schedule_inv(1))
qed

lemma thread_unblock_inv:
  assumes q: "queue_ok k" and r: "thread_unblock k t = Some k'"
  shows "queue_ok k'" "running k' = running k" "\<And>p. p \<noteq> t \<Longrightarrow> as_seen k' p = as_seen k p" "stat k t = Some THREAD_BLOCKED"
    "intr_on k' = intr_on k" "in_intr k' = in_intr k" "all_list k' = all_list k"
    "set (ready_list k') = insert t (set (ready_list k))" "\<And>p. p \<noteq> t \<Longrightarrow> threads k' p = threads k p" "stat k' t = Some THREAD_READY"
proof -
  let ?ins = "insert_before_greater (thread_cmp_pri k) t (ready_list k)"
  have pri_eq: "thread_cmp_pri (k\<lparr>intr_on := False\<rparr>) = thread_cmp_pri k"
    by (simp add: thread_cmp_pri_def pri_def fun_eq_iff)
  from r have t: "is_thread k t" "stat k t = Some THREAD_BLOCKED"
    and k': "k' = (upd_thread (k\<lparr>intr_on := False, ready_list := ?ins\<rparr>) t (\<lambda>t. t\<lparr>status := THREAD_READY\<rparr>))\<lparr>intr_on := intr_on k\<rparr>"
    by (auto simp: thread_unblock_def Let_def monad_simps pri_eq stat_def)
  show "stat k t = Some THREAD_BLOCKED" by (rule t)
  show o: "as_seen k' p = as_seen k p" if "p \<noteq> t" for p using that by (simp add: k' as_seen_def)
  show "running k' = running k" "intr_on k' = intr_on k" "in_intr k' = in_intr k" "all_list k' = all_list k"
    "set (ready_list k') = insert t (set (ready_list k))" by (simp_all add: k')
  show "threads k' p = threads k p" if "p \<noteq> t" for p using that by (simp add: k')
  have nt: "t \<notin> set (ready_list k)" using not_ready_not_queued [OF q, of t] t by simp
  have pri': "pri k' p = pri k p" for p by (cases "p = t"; cases "threads k t") (auto simp: k' pri_def)
  then have "thread_cmp_pri k' = thread_cmp_pri k" by (simp add: thread_cmp_pri_def fun_eq_iff)
  moreover show "stat k' t = Some THREAD_READY" using t by (auto simp: stat_def is_thread_def k')
  moreover have "is_thread k' t" using t by (auto simp: is_thread_def k')
  moreover have "as_seen k' a = as_seen k a" if "a \<in> set (ready_list k)" for a
    using that nt by (intro o) auto
  ultimately show "queue_ok k'"
    by (intro queue_ok_insert [OF q nt]) (auto simp: k')
qed

lemma thread_unblock_sched_inv:
  assumes inv: "sched_inv k" and r: "thread_unblock k t = Some k'"
  shows "sched_inv k'"
proof -
  have q: "queue_ok k" using inv by (simp add: sched_inv_def)
  note u = thread_unblock_inv [OF q r]
  have ne: "running k \<noteq> t" using u(4) inv by (auto simp: sched_inv_def)
  have "stat k p = Some THREAD_RUNNING" if "stat k' p = Some THREAD_RUNNING" for p
  proof -
    have "p \<noteq> t" using that u(10) by (cases "p = t") simp_all
    then have "stat k' p = stat k p" by (intro as_seen_eq(1) u(3))
    with that show ?thesis by metis
  qed
  moreover have "alone k" using inv by (simp add: sched_inv_def)
  ultimately have "alone k'" using u(2) alone_cong by blast
  then show ?thesis using ne u(1,2) as_seen_eq [OF u(3), of "running k"] inv by (simp add: sched_inv_def)
qed

lemma thread_yield_inv:
  assumes inv: "sched_inv k" and r: "thread_yield k = Some k'"
  shows "sched_inv k'"
    and "running k \<noteq> idle_thread k \<Longrightarrow> (\<forall>p\<in>insert (running k) (set (ready_list k)). pri k p \<le> pri k' (running k'))"
    and "running k \<noteq> idle_thread k \<Longrightarrow> running k' =
      (if ready_list k \<noteq> [] \<and> pri k (running k) \<le> pri k (hd (ready_list k)) then hd (ready_list k) else running k)"
proof -
  let ?c = "running k"
  let ?k0 = "push_frame (k\<lparr>intr_on := False\<rparr>) (Set_Level (intr_on k))"
  let ?k1 = "if ?c \<noteq> idle_thread k then ?k0\<lparr>ready_list := insert_before_greater (thread_cmp_pri ?k0) ?c (ready_list k)\<rparr> else ?k0"
  let ?k2 = "upd_thread ?k1 ?c (\<lambda>t. t\<lparr>status := THREAD_READY\<rparr>)"
  have s: "schedule ?k2 = Some k'"
    using r by (auto simp: thread_yield_def Let_def monad_simps thread_current_Some)
  have th: "is_thread k ?c" and q: "queue_ok k" and nr: "?c \<notin> set (ready_list k)"
    using inv running_not_ready [OF inv] by (auto simp: sched_inv_def)
  have th2: "is_thread ?k2 ?c" "stat ?k2 ?c = Some THREAD_READY" using th by (auto simp: is_thread_def stat_def push_frame_def)
  have pri2: "pri ?k2 p = pri k p" for p by (cases "p = ?c"; cases "threads k ?c") (auto simp: pri_def push_frame_def)
  have seen: "as_seen ?k2 p = as_seen k p" if "p \<noteq> ?c" for p using that by (auto simp: as_seen_def push_frame_def)
  have q2: "queue_ok ?k2"
  proof (cases "?c \<noteq> idle_thread k")
    case True
    have "pri ?k0 p = pri k p" for p by (rule as_seen_eq) (simp add: as_seen_def push_frame_def option.map_comp o_def)
    then have "thread_cmp_pri ?k2 = thread_cmp_pri ?k0" by (simp add: thread_cmp_pri_def pri2 fun_eq_iff)
    then have "ready_list ?k2 = insert_before_greater (thread_cmp_pri ?k2) ?c (ready_list k)"
      using True by simp
    moreover have "as_seen ?k2 a = as_seen k a" if "a \<in> set (ready_list k)" for a
      using that nr by (intro seen) auto
    ultimately show ?thesis using th2 by (intro queue_ok_insert [OF q nr]) auto
  next
    case False
    have "as_seen ?k2 a = as_seen k a" if "a \<in> set (ready_list k)" for a
      using that nr by (intro seen) auto
    then show ?thesis using False by (intro queue_ok_cong [OF q]) auto
  qed
  have "alone ?k0" using inv by (simp add: sched_inv_def)
  then have "alone ?k1" by simp
  then have "alone ?k2" by (rule alone_upd_thread) simp
  note sch = schedule_inv [OF q2 this s]
  show "sched_inv k'" by (rule sch)
  show "running k' = (if ready_list k \<noteq> [] \<and> pri k ?c \<le> pri k (hd (ready_list k)) then hd (ready_list k) else ?c)"
    if "?c \<noteq> idle_thread k"
  proof -
    have "pri ?k0 p = pri k p" for p by (rule as_seen_eq) (simp add: as_seen_def push_frame_def option.map_comp o_def)
    then have "ready_list ?k2 \<noteq> [] \<and> hd (ready_list ?k2) =
        (if ready_list k \<noteq> [] \<and> pri k ?c \<le> pri k (hd (ready_list k)) then hd (ready_list k) else ?c)"
      using that by (cases "ready_list k") (auto simp: insert_before_greater_def thread_cmp_pri_def)
    then show ?thesis using sch(2) by metis
  qed
  show "\<forall>p\<in>insert ?c (set (ready_list k)). pri k p \<le> pri k' (running k')" if "?c \<noteq> idle_thread k"
  proof -
    have set2: "set (ready_list ?k2) = insert ?c (set (ready_list k))" using that by simp
    then have ne: "ready_list ?k2 \<noteq> []" by (metis empty_iff insertI1 list.set(1))
    then have run: "running k' = hd (ready_list ?k2)" by (rule sch(2))
    have "pri k' (running k') = pri ?k2 (running k')" by (rule sch(5)) simp
    moreover have "pri ?k2 p \<le> pri ?k2 (hd (ready_list ?k2))" if "p \<in> set (ready_list ?k2)" for p
      using q2 ne that unfolding queue_ok_def by (cases "ready_list ?k2") auto
    ultimately show ?thesis using set2 run pri2 by auto
  qed
qed

lemma thread_exit_inv:
  assumes inv: "sched_inv k" and r: "thread_exit k = Some k'"
  shows "sched_inv k'"
proof -
  let ?k = "upd_thread (k\<lparr>intr_on := False, all_list := remove1 (running k) (all_list k)\<rparr>) (running k) (\<lambda>t. t\<lparr>status := THREAD_DYING\<rparr>)"
  have "schedule ?k = Some k'"
    using r by (auto simp: thread_exit_def Let_def monad_simps thread_current_Some)
  moreover have "queue_ok ?k"
    by (rule queue_ok_cong [of k]) (use inv running_not_ready [OF inv] in \<open>auto simp: sched_inv_def as_seen_def\<close>)
  moreover have "alone ?k" by (rule alone_upd_thread) (use inv in \<open>simp_all add: sched_inv_def\<close>)
  ultimately show ?thesis by (intro schedule_inv(1))
qed

section \<open>Updates the invariant does not see\<close>

lemma sched_inv_threads:
  assumes "threads k' = threads k" "ready_list k' = ready_list k" "thread_mlfqs k' = thread_mlfqs k" "running k' = running k"
  shows "sched_inv k' = sched_inv k"
  using assms by (simp add: sched_inv_def queue_ok_def is_thread_def stat_def pri_def alone_def)

lemma sched_inv_irrelevant [simp]:
  "sched_inv (k\<lparr>intr_on := b\<rparr>) = sched_inv k" "sched_inv (k\<lparr>in_intr := b\<rparr>) = sched_inv k"
  "sched_inv (k\<lparr>yield_on_return := b\<rparr>) = sched_inv k" "sched_inv (k\<lparr>thread_ticks := n\<rparr>) = sched_inv k"
  "sched_inv (k\<lparr>idle_ticks := n\<rparr>) = sched_inv k" "sched_inv (k\<lparr>kernel_ticks := n\<rparr>) = sched_inv k"
  "sched_inv (k\<lparr>timer := n\<rparr>) = sched_inv k" "sched_inv (k\<lparr>conds := cs\<rparr>) = sched_inv k"
  "sched_inv (k\<lparr>next_tid := i\<rparr>) = sched_inv k" "sched_inv (k\<lparr>all_list := ps\<rparr>) = sched_inv k"
  "sched_inv (upd_sema k s f) = sched_inv k" "sched_inv (upd_lock k l lf) = sched_inv k"
  by (rule sched_inv_threads; simp)+

lemma sched_inv_upd_unseen:
  assumes "\<And>t. status (g t) = status t \<and> priority (g t) = priority t \<and> thread_magic (g t) = thread_magic t"
  shows "sched_inv (upd_thread k p g) = sched_inv k"
proof
  have seen: "as_seen (upd_thread k p g) q = as_seen k q" for q by (rule as_seen_upd_same) (rule assms)
  note st = as_seen_eq(1) [OF seen]
  show "sched_inv (upd_thread k p g)" if "sched_inv k"
    by (rule sched_inv_cong [OF that]) (simp_all only: seen st upd_thread_simps)
  show "sched_inv k" if "sched_inv (upd_thread k p g)"
    by (rule sched_inv_cong [OF that]) (simp_all only: seen st upd_thread_simps)
qed

lemma sched_inv_push_frame [simp]: "sched_inv (push_frame k fr) = sched_inv k"
  unfolding push_frame_def by (rule sched_inv_upd_unseen) simp

text \<open>The priority of a thread that is not in the ready list may change freely.\<close>

lemma sched_inv_upd_pri:
  assumes inv: "sched_inv k" and p: "p \<notin> set (ready_list k)"
    and g: "\<And>t. status (g t) = status t \<and> thread_magic (g t) = thread_magic t"
  shows "sched_inv (upd_thread k p g)"
proof -
  have q: "queue_ok (upd_thread k p g)"
    by (rule queue_ok_cong [of k]) (use inv p in \<open>auto simp: sched_inv_def as_seen_def\<close>)
  have gs: "status (g t) = status t" "thread_magic (g t) = thread_magic t" for t using g by auto
  have "is_thread (upd_thread k p g) (running k) = is_thread k (running k)"
    by (cases "running k = p"; cases "threads k p") (simp_all add: is_thread_def gs)
  moreover have "stat (upd_thread k p g) (running k) = stat k (running k)"
    by (cases "running k = p"; cases "threads k p") (simp_all add: stat_def gs)
  moreover have "alone (upd_thread k p g)" by (rule alone_upd_thread) (use inv gs in \<open>simp_all add: sched_inv_def\<close>)
  ultimately show ?thesis using q inv by (simp add: sched_inv_def)
qed

section \<open>Donation\<close>

lemma thread_update_pri_Some:
  assumes "thread_update_pri k p = Some k'"
  obtains t ls m where "threads k p = Some t" "k' = upd_thread k p (\<lambda>t. t\<lparr>holding_locks := ls, priority := m\<rparr>)"
    "set ls = set (holding_locks t)" "original_pri t \<le> m" "\<And>l. l \<in> set (holding_locks t) \<Longrightarrow> max_pri (locks k l) \<le> m"
proof -
  from assms obtain t where t: "threads k p = Some t" by (auto simp: thread_update_pri_def monad_simps)
  let ?ls = "sort_locks k (holding_locks t)"
  show thesis
  proof (cases "holding_locks t = []")
    case True
    with assms t show thesis
      by (intro that [where t = t and ls = "holding_locks t" and m = "original_pri t"]) (auto simp: thread_update_pri_def)
  next
    case False
    have ne: "?ls \<noteq> []" using False by (metis set_empty set_sort sort_locks_def)
    have "max_pri (locks k l) \<le> max_pri (locks k (hd ?ls))" if "l \<in> set (holding_locks t)" for l
    proof -
      have l: "l \<in> set ?ls" using that by (simp add: sort_locks_def)
      have "sorted (map (\<lambda>l. - max_pri (locks k l)) ?ls)" by (simp add: sort_locks_def)
      with ne l show ?thesis by (cases ?ls) auto
    qed
    with assms t False show thesis
      by (intro that [where t = t and ls = ?ls and m = "max (original_pri t) (max_pri (locks k (hd ?ls)))"])
        (auto simp: thread_update_pri_def sort_locks_def Let_def le_max_iff_disj)
  qed
qed

lemma thread_donate_pri_inv:
  assumes inv: "sched_inv k" and r: "thread_donate_pri k p = Some k'"
  shows "sched_inv k'"
proof -
  from r obtain k1 where k1: "thread_update_pri (k\<lparr>intr_on := False\<rparr>) p = Some k1"
    by (auto simp: thread_donate_pri_def Let_def monad_simps)
  obtain t ls m where t: "threads k p = Some t"
    and k1': "k1 = upd_thread (k\<lparr>intr_on := False\<rparr>) p (\<lambda>t. t\<lparr>holding_locks := ls, priority := m\<rparr>)"
    by (rule thread_update_pri_Some [OF k1]) auto
  show ?thesis
  proof (cases "stat k1 p = Some THREAD_READY")
    case False
    then have k': "k' = k1\<lparr>intr_on := intr_on k\<rparr>" using r k1 by (simp add: thread_donate_pri_def Let_def)
    have "stat k p \<noteq> Some THREAD_READY" using False t by (auto simp: k1' stat_def)
    then have "p \<notin> set (ready_list k)" using inv not_ready_not_queued by (auto simp: sched_inv_def)
    then have "sched_inv k1" unfolding k1' by (intro sched_inv_upd_pri) (use inv in auto)
    then show ?thesis by (simp add: k')
  next
    case True
    then have p: "p \<in> set (ready_list k)"
      and k': "k' = k1\<lparr>ready_list := insert_before_greater (thread_cmp_pri k1) p (remove1 p (ready_list k)), intr_on := intr_on k\<rparr>"
      using r k1 by (auto simp: thread_donate_pri_def Let_def monad_simps k1')
    have q: "queue_ok k" using inv by (simp add: sched_inv_def)
    have d: "distinct (ready_list k)" using q by (simp add: queue_ok_def)
    let ?k0 = "k\<lparr>ready_list := remove1 p (ready_list k)\<rparr>"
    have q0: "queue_ok ?k0"
      using q d by (auto simp: queue_ok_def is_thread_def stat_def pri_def sorted_wrt_filter distinct_remove1_removeAll removeAll_filter_not_eq)
    have seen: "as_seen k' a = as_seen k a" if "a \<noteq> p" for a using that by (simp add: k' k1' as_seen_def)
    have "thread_cmp_pri k' = thread_cmp_pri k1" by (simp add: thread_cmp_pri_def pri_def k' fun_eq_iff)
    moreover have "is_thread k' p" "stat k' p = Some THREAD_READY"
      using q p t by (auto simp: queue_ok_def k' k1' is_thread_def stat_def)
    ultimately have "queue_ok k'"
      using d seen by (intro queue_ok_insert [OF q0, of p]) (auto simp: k' k1' as_seen_def)
    moreover have "p \<noteq> running k" using p running_not_ready [OF inv] by auto
    then have "as_seen k' (running k) = as_seen k (running k)" using seen by auto
    moreover have "running k' = running k" by (simp add: k' k1')
    moreover have "alone k1"
      unfolding k1' by (rule alone_upd_thread) (use inv in \<open>simp_all add: sched_inv_def\<close>)
    then have "alone k'" by (simp add: k' alone_def stat_def)
    ultimately show ?thesis using inv as_seen_eq [of k' "running k" k] by (simp add: sched_inv_def)
  qed
qed

lemma donate_check_inv: "sched_inv k \<Longrightarrow> sched_inv (donate_check k lk)"
  by (simp add: donate_check_def)

lemma donate_to_inv: "sched_inv k \<Longrightarrow> donate_to k lk = Some k' \<Longrightarrow> sched_inv k'"
  unfolding donate_to_def by (erule thread_donate_pri_inv [rotated]) simp

lemma donate_next_inv: "sched_inv k \<Longrightarrow> donate_next k lk = Some k' \<Longrightarrow> sched_inv k'"
  by (auto simp: donate_next_def monad_simps)

section \<open>Semaphores, locks and condition variables\<close>

lemma sema_down_loop_inv: "sched_inv k \<Longrightarrow> sema_down_loop k s b = Some k' \<Longrightarrow> sched_inv k'"
  by (auto simp: sema_down_loop_def Let_def monad_simps split: if_splits elim!: thread_block_inv [rotated])

lemma sema_down_inv: "sched_inv k \<Longrightarrow> sema_down k s = Some k' \<Longrightarrow> sched_inv k'"
  by (auto simp: sema_down_def monad_simps elim!: sema_down_loop_inv [rotated])

lemma sema_up_inv:
  assumes inv: "sched_inv k" and r: "sema_up k s = Some k'"
  shows "sched_inv k'"
proof -
  let ?k = "k\<lparr>intr_on := False\<rparr>"
  from r obtain k1 where
    k1: "(case sort_threads ?k (waiters (semas k s)) of [] \<Rightarrow> Some ?k
        | p # ps \<Rightarrow> thread_unblock (upd_sema ?k s (\<lambda>sm. sm\<lparr>waiters := ps\<rparr>)) p) = Some k1"
      "thread_yield (push_frame (upd_sema k1 s (\<lambda>sm. sm\<lparr>sema_val := sema_val sm + 1\<rparr>)) (Set_Level (intr_on k))) = Some k'"
    by (auto simp: sema_up_def Let_def monad_simps)
  have "sched_inv k1"
  proof (cases "sort_threads ?k (waiters (semas k s))")
    case Nil
    with k1(1) have "k1 = ?k" by simp
    then show ?thesis using inv by simp
  next
    case (Cons p ps)
    with k1(1) have "thread_unblock (upd_sema ?k s (\<lambda>sm. sm\<lparr>waiters := ps\<rparr>)) p = Some k1" by simp
    then show ?thesis by (rule thread_unblock_sched_inv [rotated]) (simp add: inv)
  qed
  then show ?thesis by (intro thread_yield_inv(1) [OF _ k1(2)]) simp
qed

lemma lock_acquire_inv:
  assumes inv: "sched_inv k" and r: "lock_acquire k l = Some k'"
  shows "sched_inv k'"
proof -
  let ?k = "push_frame k (Lock_Down l)"
  have "sched_inv ?k" using inv by simp
  then have "sched_inv (upd_thread ?k (running k) (\<lambda>t. t\<lparr>waiting_lock := l\<rparr>))" by (subst sched_inv_upd_unseen) simp_all
  then show ?thesis using r inv by (auto simp: lock_acquire_def Let_def monad_simps thread_current_Some split: if_splits)
qed

lemma lock_down_inv: "sched_inv k \<Longrightarrow> lock_down k l = Some k' \<Longrightarrow> sched_inv k'"
  unfolding lock_down_def by (erule sema_down_inv [rotated]) simp

lemma thread_get_lock_inv:
  assumes inv: "sched_inv k" and r: "thread_get_lock k l = Some k'"
  shows "sched_inv k'"
proof -
  let ?k0 = "k\<lparr>intr_on := False\<rparr>"
  let ?k = "upd_thread ?k0 (running k) (\<lambda>t. t\<lparr>holding_locks := insert_before_greater (lock_cmp_pri ?k0) l (holding_locks t)\<rparr>)"
  let ?k2 = "upd_thread ?k (running k) (\<lambda>t. t\<lparr>priority := max_pri (locks k l)\<rparr>)"
  have inv1: "sched_inv ?k" using inv by (subst sched_inv_upd_unseen) auto
  have inv2: "sched_inv ?k2"
    by (rule sched_inv_upd_pri [OF inv1]) (use running_not_ready [OF inv] in auto)
  from r have "k' = ?k\<lparr>intr_on := intr_on k\<rparr> \<or> thread_yield (push_frame ?k2 (Set_Level (intr_on k))) = Some k'"
    by (auto simp: thread_get_lock_def Let_def monad_simps thread_current_Some split: if_splits)
  then show ?thesis
  proof
    assume "k' = ?k\<lparr>intr_on := intr_on k\<rparr>"
    then show ?thesis using inv1 by (simp del: upd_thread_simps)
  next
    assume "thread_yield (push_frame ?k2 (Set_Level (intr_on k))) = Some k'"
    then show ?thesis by (rule thread_yield_inv(1) [rotated]) (simp only: sched_inv_push_frame inv2)
  qed
qed

lemma lock_finish_inv:
  assumes inv: "sched_inv k" and r: "lock_finish k l = Some k'"
  shows "sched_inv k'"
proof -
  let ?k = "upd_thread (k\<lparr>intr_on := False\<rparr>) (running k) (\<lambda>t. t\<lparr>waiting_lock := NULL\<rparr>)"
  have inv1: "sched_inv ?k" using inv by (subst sched_inv_upd_unseen) auto
  have "thread_get_lock (push_frame (upd_lock ?k l (\<lambda>lk. lk\<lparr>max_pri := pri ?k (running k)\<rparr>)) (Set_Holder l (intr_on k))) l = Some k'"
    using r inv by (auto simp: lock_finish_def Let_def monad_simps thread_current_Some sched_inv_def queue_ok_def split: if_splits)
  then show ?thesis by (rule thread_get_lock_inv [rotated]) (simp add: inv1)
qed

lemma thread_remove_lock_inv:
  assumes inv: "sched_inv k" and r: "thread_remove_lock k l = Some k'"
  shows "sched_inv k'"
proof -
  let ?k = "upd_thread (k\<lparr>intr_on := False\<rparr>) (running k) (\<lambda>t. t\<lparr>holding_locks := remove1 l (holding_locks t)\<rparr>)"
  have inv1: "sched_inv ?k" using inv by (subst sched_inv_upd_unseen) auto
  from r obtain k1 where k1: "thread_update_pri ?k (running k) = Some k1" "k' = k1\<lparr>intr_on := intr_on k\<rparr>"
    by (auto simp: thread_remove_lock_def Let_def monad_simps thread_current_Some)
  have "sched_inv k1"
  proof (rule thread_update_pri_Some [OF k1(1)])
    fix t ls m assume "k1 = upd_thread ?k (running k) (\<lambda>t. t\<lparr>holding_locks := ls, priority := m\<rparr>)"
    then show ?thesis using inv1 running_not_ready [OF inv] by (auto intro!: sched_inv_upd_pri)
  qed
  then show ?thesis by (simp add: k1(2))
qed

lemma lock_release_inv:
  assumes inv: "sched_inv k" and r: "lock_release k l = Some k'"
  shows "sched_inv k'"
proof -
  let ?k = "upd_lock k l (\<lambda>lk. lk\<lparr>holder := NULL\<rparr>)"
  from r obtain k1 where k1: "(if \<not> thread_mlfqs k then thread_remove_lock ?k l else Some ?k) = Some k1" "sema_up k1 (sema_of l) = Some k'"
    by (auto simp: lock_release_def Let_def monad_simps)
  have "sched_inv k1" using k1(1) inv thread_remove_lock_inv [of ?k l k1] by (auto split: if_splits)
  then show ?thesis by (rule sema_up_inv [OF _ k1(2)])
qed

lemma lock_try_acquire_inv: "sched_inv k \<Longrightarrow> lock_try_acquire k l = Some (b, k') \<Longrightarrow> sched_inv k'"
  by (auto simp: lock_try_acquire_def sema_try_down_def monad_simps split: if_splits)

lemma cond_wait_inv: "sched_inv k \<Longrightarrow> cond_wait k c l w = Some k' \<Longrightarrow> sched_inv k'"
  by (auto simp: cond_wait_def sema_init_def Let_def monad_simps elim!: lock_release_inv [rotated])

lemma cond_signal_inv: "sched_inv k \<Longrightarrow> cond_signal k c l = Some k' \<Longrightarrow> sched_inv k'"
  by (auto simp: cond_signal_def monad_simps split: if_splits elim!: sema_up_inv [rotated])

lemma cond_broadcast_inv: "sched_inv k \<Longrightarrow> cond_broadcast k c l = Some k' \<Longrightarrow> sched_inv k'"
  by (auto simp: cond_broadcast_def split: if_splits elim!: cond_signal_inv [rotated])

end
