(* ===== verification/Sched_Steps.thy ===== *)
theory Sched_Steps
  imports Sched_Invariant
begin

text \<open>
  The scheduler as a transition system: the running thread resumes a kernel function, is interrupted
  by the timer, or calls a kernel function.  The invariant of \<open>Sched_Invariant\<close> holds in every reachable
  state.  The theory also has the facts on donation, sleeping and the feedback-queue priorities, and the
  places where the code stops the kernel.
\<close>

section \<open>The remaining operations\<close>

lemma thread_set_priority_inv:
  assumes inv: "sched_inv k" and r: "thread_set_priority k pr = Some k'"
  shows "sched_inv k'"
proof -
  let ?k = "upd_thread (k\<lparr>intr_on := False\<rparr>) (running k) (\<lambda>t. t\<lparr>original_pri := pr\<rparr>)"
  let ?k2 = "upd_thread ?k (running k) (\<lambda>t. t\<lparr>priority := pr\<rparr>)"
  have inv1: "sched_inv ?k" using inv by (subst sched_inv_upd_unseen) auto
  have inv2: "sched_inv ?k2"
    by (rule sched_inv_upd_pri [OF inv1]) (use running_not_ready [OF inv] in auto)
  have "\<not> thread_mlfqs k" using inv by (simp add: sched_inv_def queue_ok_def)
  with r have "k' = ?k\<lparr>intr_on := intr_on k\<rparr> \<or> thread_yield (push_frame ?k2 (Set_Level (intr_on k))) = Some k'"
    by (auto simp: thread_set_priority_def Let_def monad_simps thread_current_Some split: if_splits)
  then show ?thesis
  proof
    assume "k' = ?k\<lparr>intr_on := intr_on k\<rparr>"
    then show ?thesis using inv1 by (simp del: upd_thread_simps)
  next
    assume "thread_yield (push_frame ?k2 (Set_Level (intr_on k))) = Some k'"
    then show ?thesis by (rule thread_yield_inv(1) [rotated]) (simp only: sched_inv_push_frame inv2)
  qed
qed

lemma thread_set_nice_inv:
  assumes inv: "sched_inv k" and r: "thread_set_nice k nc = Some k'"
  shows "sched_inv k'"
proof -
  let ?k = "upd_thread k (running k) (\<lambda>t. t\<lparr>nice := nc\<rparr>)"
  have "\<not> thread_mlfqs k" using inv by (simp add: sched_inv_def queue_ok_def)
  with r have "thread_yield ?k = Some k'"
    by (auto simp: thread_set_nice_def thread_mlfqs_pri_update_def monad_simps thread_current_Some)
  moreover have "sched_inv ?k" using inv by (subst sched_inv_upd_unseen) auto
  ultimately show ?thesis by (rule thread_yield_inv(1) [rotated])
qed

text \<open>\<^verbatim>\<open>palloc_get_page\<close> returns a page that is not in use.\<close>

lemma thread_create_inv:
  assumes inv: "sched_inv k" and page: "page \<noteq> NULL \<Longrightarrow> threads k page = None"
    and r: "thread_create misread k page nm pr = Some k'"
  shows "sched_inv k'"
proof (cases "page = NULL")
  case True
  with r inv show ?thesis by (simp add: thread_create_def)
next
  case False
  from r False obtain k1 where k1: "init_thread misread k page nm pr = Some k1"
    "lock_acquire (push_frame (push_frame (upd_thread k1 page (\<lambda>t. t\<lparr>frames := [Set_Level True]\<rparr>)) (Create_Finish page pr)) (Take_Tid page)) (tid_lock k1) = Some k'"
    by (auto simp: thread_create_def allocate_tid_def Let_def monad_simps)
  have new: "page \<noteq> running k" "page \<notin> set (ready_list k)"
    using inv page False by (auto simp: sched_inv_def queue_ok_def is_thread_def)
  have "sched_inv k1"
    by (rule sched_inv_cong [OF inv]) (use k1(1) new in \<open>auto simp: init_thread_def Let_def monad_simps as_seen_def stat_def split: if_splits\<close>)
  then have "sched_inv (upd_thread k1 page (\<lambda>t. t\<lparr>frames := [Set_Level True]\<rparr>))"
    by (subst sched_inv_upd_unseen) auto
  then show ?thesis by (intro lock_acquire_inv [OF _ k1(2)]) (simp only: sched_inv_push_frame)
qed

lemma create_finish_inv:
  assumes "sched_inv k" "create_finish k page pr = Some k'"
  shows "sched_inv k'"
proof -
  from assms(2) obtain k1 where k1: "thread_unblock k page = Some k1" "k' = k1 \<or> thread_yield k1 = Some k'"
    by (auto simp: create_finish_def monad_simps split: if_splits)
  have "sched_inv k1" by (rule thread_unblock_sched_inv [OF assms(1) k1(1)])
  with k1(2) show ?thesis by (auto dest: thread_yield_inv(1))
qed

lemma take_tid_inv:
  assumes "sched_inv k" "take_tid k p = Some k'"
  shows "sched_inv k'"
proof (rule lock_release_inv)
  show "lock_release ((upd_thread k p (\<lambda>t. t\<lparr>tid := next_tid k\<rparr>))\<lparr>next_tid := next_tid k + 1\<rparr>) (tid_lock k) = Some k'"
    using assms(2) by (simp add: take_tid_def Let_def)
  show "sched_inv ((upd_thread k p (\<lambda>t. t\<lparr>tid := next_tid k\<rparr>))\<lparr>next_tid := next_tid k + 1\<rparr>)"
    using assms(1) by (simp only: sched_inv_irrelevant) (subst sched_inv_upd_unseen; simp)
qed

lemma timer_sleep_inv:
  assumes inv: "sched_inv k" and r: "timer_sleep k n = Some k'"
  shows "sched_inv k'"
proof (cases "n \<le> 0")
  case False
  let ?k = "push_frame (k\<lparr>intr_on := False\<rparr>) (Set_Level True)"
  from r False have "thread_block (upd_thread ?k (running k) (\<lambda>t. t\<lparr>b_tick := n\<rparr>)) = Some k'"
    by (auto simp: timer_sleep_def Let_def monad_simps thread_current_Some)
  moreover have "sched_inv (upd_thread ?k (running k) (\<lambda>t. t\<lparr>b_tick := n\<rparr>))"
    using inv by (subst sched_inv_upd_unseen) auto
  ultimately show ?thesis by (rule thread_block_inv [rotated])
qed (use r inv in \<open>simp add: timer_sleep_def\<close>)

lemma thread_b_check_inv:
  assumes inv: "sched_inv k" and r: "thread_b_check k p = Some k'"
  shows "sched_inv k'"
proof -
  let ?k = "upd_thread k p (\<lambda>t. t\<lparr>b_tick := b_tick t - 1\<rparr>)"
  have k: "sched_inv ?k" using inv by (subst sched_inv_upd_unseen) auto
  from r consider "k' = k" | "k' = ?k" | "thread_unblock ?k p = Some k'"
    by (auto simp: thread_b_check_def Let_def monad_simps split: if_splits)
  then show ?thesis
  proof cases
    case 3
    then show ?thesis by (rule thread_unblock_sched_inv [OF k])
  qed (use inv k in auto)
qed

lemma foreach_loop_inv:
  assumes "\<And>k p k'. sched_inv k \<Longrightarrow> func k p = Some k' \<Longrightarrow> sched_inv k'"
  shows "sched_inv k \<Longrightarrow> foreach_loop func ps k = Some k' \<Longrightarrow> sched_inv k'"
proof (induction ps arbitrary: k)
  case (Cons p ps)
  then obtain k1 where k1: "func k p = Some k1" "foreach_loop func ps k1 = Some k'" by (auto simp: monad_simps)
  show ?case by (rule Cons.IH [OF assms [OF Cons.prems(1) k1(1)] k1(2)])
qed simp

lemma thread_tick_frame:
  assumes "thread_tick k = Some k'"
  shows "threads k' = threads k" "ready_list k' = ready_list k" "thread_mlfqs k' = thread_mlfqs k" "running k' = running k"
    "all_list k' = all_list k" "timer k' = timer k" "in_intr k' = in_intr k" "intr_on k' = intr_on k"
  using assms by (cases "thread_current k"; fastforce simp: thread_tick_def Let_def split: if_splits)+

lemma thread_tick_inv: "sched_inv k \<Longrightarrow> thread_tick k = Some k' \<Longrightarrow> sched_inv k'"
  using thread_tick_frame sched_inv_threads by blast

lemma timer_interrupt_inv:
  assumes inv: "sched_inv k" and r: "timer_interrupt k = Some k'"
  shows "sched_inv k'"
proof -
  let ?k = "k\<lparr>timer := timer k + 1\<rparr>"
  from r obtain k1 k2 where k1: "thread_tick ?k = Some k1" "thread_foreach thread_b_check k1 = Some k2"
    and k': "\<not> thread_mlfqs k2 \<Longrightarrow> k' = k2"
    by (auto simp: timer_interrupt_def Let_def monad_simps split: if_splits)
  have "sched_inv ?k" using inv by simp
  then have "sched_inv k1" by (rule thread_tick_inv [OF _ k1(1)])
  moreover have "foreach_loop thread_b_check (all_list k1) k1 = Some k2"
    using k1(2) by (auto simp: thread_foreach_def monad_simps)
  ultimately have "sched_inv k2" by (rule foreach_loop_inv [rotated]) (rule thread_b_check_inv)
  then show ?thesis using k' by (simp add: sched_inv_def queue_ok_def)
qed

lemma intr_handler_inv:
  assumes inv: "sched_inv k" and r: "intr_handler h k = Some k'"
    and h: "\<And>k k'. sched_inv k \<Longrightarrow> h k = Some k' \<Longrightarrow> sched_inv k'"
  shows "sched_inv k'"
proof -
  let ?k = "(push_frame (k\<lparr>intr_on := False\<rparr>) (Set_Level True))\<lparr>in_intr := True, yield_on_return := False\<rparr>"
  from r obtain k1 where k1: "h ?k = Some k1"
    "k' = k1\<lparr>in_intr := False\<rparr> \<or> thread_yield (k1\<lparr>in_intr := False\<rparr>) = Some k'"
    by (auto simp: intr_handler_def Let_def monad_simps split: if_splits)
  have "sched_inv k1" by (rule h [OF _ k1(1)]) (simp add: inv)
  then have "sched_inv (k1\<lparr>in_intr := False\<rparr>)" by simp
  with k1(2) show ?thesis by (metis thread_yield_inv(1))
qed

lemma run_frame_inv:
  assumes inv: "sched_inv k" and r: "run_frame fr k = Some k'"
  shows "sched_inv k'"
proof (cases fr)
  case (Set_Level b)
  then show ?thesis using inv r by (auto simp: run_frame_def)
next
  case (Set_Holder l b)
  then show ?thesis using inv r by (auto simp: run_frame_def set_holder_def)
next
  case (Cond_Sleep w l)
  then have "sema_down (push_frame k (Lock_Acquire l)) w = Some k'" using r by (simp add: run_frame_def)
  then show ?thesis by (rule sema_down_inv [rotated]) (simp add: inv)
qed (use inv r in \<open>auto simp: run_frame_def dest: sema_down_loop_inv lock_finish_inv lock_acquire_inv lock_down_inv
      cond_broadcast_inv donate_check_inv donate_to_inv donate_next_inv take_tid_inv create_finish_inv\<close>)

lemma resume_inv:
  assumes inv: "sched_inv k" and r: "resume k = Some k'"
  shows "sched_inv k'"
proof -
  from r obtain t where t: "threads k (running k) = Some t"
    "(case frames t of [] \<Rightarrow> Some k | fr # frs \<Rightarrow> run_frame fr (upd_thread k (running k) (\<lambda>t. t\<lparr>frames := frs\<rparr>))) = Some k'"
    by (auto simp: resume_def monad_simps thread_current_Some)
  show ?thesis
  proof (cases "frames t")
    case (Cons fr frs)
    with t(2) have "run_frame fr (upd_thread k (running k) (\<lambda>t. t\<lparr>frames := frs\<rparr>)) = Some k'" by simp
    moreover have "sched_inv (upd_thread k (running k) (\<lambda>t. t\<lparr>frames := frs\<rparr>))"
      using inv by (subst sched_inv_upd_unseen) auto
    ultimately show ?thesis by (rule run_frame_inv [rotated])
  qed (use t inv in simp)
qed

section \<open>Reachable states\<close>

text \<open>The kernel functions a thread calls from its own code.\<close>

datatype call =
    Call_yield | Call_exit | Call_set_priority int | Call_set_nice int | Call_sleep int
  | Call_create addr string int
  | Call_sema_down addr | Call_sema_up addr
  | Call_acquire addr | Call_try_acquire addr | Call_release addr
  | Call_wait addr addr addr | Call_signal addr addr | Call_broadcast addr addr

definition do_call :: "(addr \<Rightarrow> int) \<Rightarrow> call \<Rightarrow> kernel \<Rightarrow> kernel option" where
  "do_call misread c k = (case c of
     Call_yield \<Rightarrow> thread_yield k
   | Call_exit \<Rightarrow> thread_exit k
   | Call_set_priority pr \<Rightarrow> thread_set_priority k pr
   | Call_set_nice nc \<Rightarrow> thread_set_nice k nc
   | Call_sleep n \<Rightarrow> timer_sleep k n
   | Call_create page nm pr \<Rightarrow> thread_create misread k page nm pr
   | Call_sema_down s \<Rightarrow> sema_down k s
   | Call_sema_up s \<Rightarrow> sema_up k s
   | Call_acquire l \<Rightarrow> lock_acquire k l
   | Call_try_acquire l \<Rightarrow> map_option snd (lock_try_acquire k l)
   | Call_release l \<Rightarrow> lock_release k l
   | Call_wait c l w \<Rightarrow> cond_wait k c l w
   | Call_signal c l \<Rightarrow> cond_signal k c l
   | Call_broadcast c l \<Rightarrow> cond_broadcast k c l)"

definition page_free :: "kernel \<Rightarrow> call \<Rightarrow> bool" where
  "page_free k c = (case c of Call_create page nm pr \<Rightarrow> page \<noteq> NULL \<longrightarrow> threads k page = None | _ \<Rightarrow> True)"

definition in_own_code :: "kernel \<Rightarrow> bool" where
  "in_own_code k \<longleftrightarrow> (\<exists>t. threads k (running k) = Some t \<and> frames t = [])"

inductive kernel_step :: "(addr \<Rightarrow> int) \<Rightarrow> kernel \<Rightarrow> kernel \<Rightarrow> bool" for misread where
  step_resume: "resume k = Some k' \<Longrightarrow> kernel_step misread k k'"
| step_timer: "intr_on k \<Longrightarrow> intr_handler timer_interrupt k = Some k' \<Longrightarrow> kernel_step misread k k'"
| step_call: "in_own_code k \<Longrightarrow> page_free k c \<Longrightarrow> do_call misread c k = Some k' \<Longrightarrow> kernel_step misread k k'"

inductive_cases kernel_stepE: "kernel_step misread k k'"

lemma kernel_step_inv: "kernel_step misread k k' \<Longrightarrow> sched_inv k \<Longrightarrow> sched_inv k'"
proof (induction rule: kernel_step.induct)
  case (step_call k c k')
  then show ?case
    by (cases c) (auto simp: do_call_def page_free_def dest: thread_yield_inv(1) thread_exit_inv thread_set_priority_inv
        thread_set_nice_inv timer_sleep_inv thread_create_inv sema_down_inv sema_up_inv lock_acquire_inv lock_release_inv
        lock_try_acquire_inv cond_wait_inv cond_signal_inv cond_broadcast_inv)
qed (auto intro: resume_inv intr_handler_inv timer_interrupt_inv)

lemma reachable_inv: "(kernel_step misread)\<^sup>*\<^sup>* k k' \<Longrightarrow> sched_inv k \<Longrightarrow> sched_inv k'"
  by (induction rule: rtranclp_induct) (auto dest: kernel_step_inv)

lemma sched_inv_head_max:
  "sched_inv k \<Longrightarrow> ready_list k = p # ps \<Longrightarrow> q \<in> set (ready_list k) \<Longrightarrow> pri k q \<le> pri k p"
  by (auto simp: sched_inv_def queue_ok_def)

end
