(* ===== verification/Sched_Facts.thy ===== *)
theory Sched_Facts
  imports Sched_Steps
begin

text \<open>
  What a donation changes, and the feedback-queue priorities as integer arithmetic.
\<close>

section \<open>Donation raises the holder\<close>

lemma thread_donate_pri_Some:
  assumes "thread_donate_pri k p = Some k'"
  obtains t ls m where "threads k p = Some t" "threads k' = (threads k)(p \<mapsto> t\<lparr>holding_locks := ls, priority := m\<rparr>)"
    "locks k' = locks k" "set ls = set (holding_locks t)" "original_pri t \<le> m"
    "\<And>l. l \<in> set (holding_locks t) \<Longrightarrow> max_pri (locks k l) \<le> m"
proof -
  from assms obtain k1 where k1: "thread_update_pri (k\<lparr>intr_on := False\<rparr>) p = Some k1"
    and k': "threads k' = threads k1" "locks k' = locks k1"
    by (auto simp: thread_donate_pri_def Let_def monad_simps split: if_splits)
  show thesis
  proof (rule thread_update_pri_Some [OF k1])
    fix t ls m
    assume "threads (k\<lparr>intr_on := False\<rparr>) p = Some t"
      "k1 = upd_thread (k\<lparr>intr_on := False\<rparr>) p (\<lambda>t. t\<lparr>holding_locks := ls, priority := m\<rparr>)"
      "set ls = set (holding_locks t)" "original_pri t \<le> m"
      "\<And>l. l \<in> set (holding_locks t) \<Longrightarrow> max_pri (locks (k\<lparr>intr_on := False\<rparr>) l) \<le> m"
    then show thesis using k' by (intro that [where t = t and ls = ls and m = m]) auto
  qed
qed

section \<open>Feedback-queue priorities\<close>

lemma mlfqs_priority_range: "PRI_MIN \<le> mlfqs_priority rcpu nc \<and> mlfqs_priority rcpu nc \<le> PRI_MAX"
  by (simp add: mlfqs_priority_def Let_def PRI_MIN_def PRI_MAX_def)

text \<open>More processor time never raises the priority.\<close>

lemma mlfqs_priority_eq:
  assumes "0 \<le> x" "x < 2 ^ 28" "-20 \<le> nc" "nc \<le> 20"
  shows "mlfqs_priority x nc = min 63 (max 0 ((4128768 - x div 4 - 131072 * nc) div 65536))"
proof -
  have b: "0 \<le> x div 4" "x div 4 < 2 ^ 26" using assms by auto
  have "x sdiv 4 = x div 4" using assms by (simp add: signed_divide_int_def sgn_if)
  then have d: "FP_DIV_MIX x 4 = x div 4" using b by (simp add: FP_DIV_MIX_def)
  have c: "FP_CONST PRI_MAX = 4128768" by (simp add: FP_CONST_def PRI_MAX_def FP_SHIFT_AMOUNT_def)
  have s: "FP_SUB 4128768 (x div 4) = 4128768 - x div 4" unfolding FP_SUB_def using b by (intro int32_id) simp_all
  have n: "int32 (2 * nc * 2 ^ FP_SHIFT_AMOUNT) = 131072 * nc"
    unfolding FP_SHIFT_AMOUNT_def using assms by (subst int32_id) simp_all
  have "FP_SUB_MIX (4128768 - x div 4) (2 * nc) = 4128768 - x div 4 - 131072 * nc"
    unfolding FP_SUB_MIX_def n using b assms by (intro int32_id) simp_all
  then show ?thesis
    unfolding mlfqs_priority_def d c s by (simp add: FP_INT_PART_def FP_SHIFT_AMOUNT_def PRI_MIN_def PRI_MAX_def Let_def)
qed

lemma mlfqs_priority_mono:
  assumes "0 \<le> a" "a \<le> b" "b < 2 ^ 28" "-20 \<le> nc" "nc \<le> 20"
  shows "mlfqs_priority b nc \<le> mlfqs_priority a nc"
proof -
  have "a div 4 \<le> b div 4" using assms(2) by (rule zdiv_mono1) simp
  then have "(4128768 - b div 4 - 131072 * nc) div 65536 \<le> (4128768 - a div 4 - 131072 * nc) div 65536"
    by (intro zdiv_mono1) simp_all
  moreover have "mlfqs_priority a nc = min 63 (max 0 ((4128768 - a div 4 - 131072 * nc) div 65536))"
    "mlfqs_priority b nc = min 63 (max 0 ((4128768 - b div 4 - 131072 * nc) div 65536))"
    using assms by (auto intro!: mlfqs_priority_eq)
  ultimately show ?thesis by (simp only: min.mono max.mono order_refl)
qed

end
