(* ===== verification/Sched_Sleep.thy ===== *)
theory Sched_Sleep
  imports Sched_Facts
begin

text \<open>
  Sleeping threads.  A thread that sleeps in \<^verbatim>\<open>timer_sleep\<close> is on no list but the list of all threads, and
  no kernel function that another thread calls touches its state or its count of ticks; each timer
  interrupt takes one tick off the count, and the one that takes the last makes the thread ready.
\<close>

section \<open>A thread nobody else will unblock\<close>

text \<open>
  \<open>p\<close> is a thread other than the idle one, it is once in the list of all threads, waits for no semaphore,
  and no call of \<^verbatim>\<open>thread_create\<close> is about to unblock it.
\<close>

definition undisturbed :: "kernel \<Rightarrow> addr \<Rightarrow> bool" where
  "undisturbed k p \<longleftrightarrow> is_thread k p \<and> p \<noteq> idle_thread k \<and> count_list (all_list k) p = 1 \<and>
     (\<forall>s. p \<notin> set (waiters (semas k s))) \<and>
     (\<forall>q t pr. threads k q = Some t \<longrightarrow> Create_Finish p pr \<notin> set (frames t))"

definition sleeping :: "kernel \<Rightarrow> addr \<Rightarrow> int \<Rightarrow> bool" where
  "sleeping k p n \<longleftrightarrow> (\<exists>t. threads k p = Some t \<and> status t = THREAD_BLOCKED \<and> b_tick t = n)"

definition lies :: "kernel \<Rightarrow> addr \<Rightarrow> int \<Rightarrow> bool" where
  "lies k p n \<longleftrightarrow> undisturbed k p \<and> running k \<noteq> p \<and> p \<notin> set (ready_list k) \<and> sleeping k p n"

definition awake :: "kernel \<Rightarrow> addr \<Rightarrow> bool" where
  "awake k p \<longleftrightarrow> (p \<in> set (ready_list k) \<and> stat k p = Some THREAD_READY) \<or> (p = running k \<and> stat k p = Some THREAD_RUNNING)"

lemma lies_facts:
  assumes "lies k p n"
  obtains t where "threads k p = Some t" "status t = THREAD_BLOCKED" "b_tick t = n" "thread_magic t = THREAD_MAGIC" "p \<noteq> NULL"
    "running k \<noteq> p" "p \<notin> set (ready_list k)" "p \<noteq> idle_thread k" "\<And>s. p \<notin> set (waiters (semas k s))"
    "count_list (all_list k) p = 1" "\<And>q t pr. threads k q = Some t \<Longrightarrow> Create_Finish p pr \<notin> set (frames t)"
  using assms by (auto simp: lies_def undisturbed_def sleeping_def is_thread_def)

lemma lies_cong:
  assumes l: "lies k p n" and t: "\<And>t. threads k p = Some t \<Longrightarrow> \<exists>t'. threads k' p = Some t' \<and> status t' = status t \<and> b_tick t' = b_tick t \<and> thread_magic t' = thread_magic t"
    and f: "\<And>q t' pr. threads k' q = Some t' \<Longrightarrow> Create_Finish p pr \<in> set (frames t') \<Longrightarrow> \<exists>t. threads k q = Some t \<and> Create_Finish p pr \<in> set (frames t)"
    and r: "running k' \<noteq> p" "p \<notin> set (ready_list k')" "idle_thread k' = idle_thread k" "count_list (all_list k') p = count_list (all_list k) p"
    and s: "\<And>s. p \<notin> set (waiters (semas k' s))"
  shows "lies k' p n"
proof (rule lies_facts [OF l])
  fix t assume a: "threads k p = Some t" "status t = THREAD_BLOCKED" "b_tick t = n" "thread_magic t = THREAD_MAGIC" "p \<noteq> NULL"
    "p \<noteq> idle_thread k" "count_list (all_list k) p = 1" "\<And>q t pr. threads k q = Some t \<Longrightarrow> Create_Finish p pr \<notin> set (frames t)"
  obtain t' where t': "threads k' p = Some t'" "status t' = status t" "b_tick t' = b_tick t" "thread_magic t' = thread_magic t"
    using t [OF a(1)] by blast
  have "Create_Finish p pr \<notin> set (frames u)" if "threads k' q = Some u" for q u pr using f [OF that] a(8) by blast
  with a t' r s show ?thesis by (simp add: lies_def undisturbed_def sleeping_def is_thread_def)
qed

lemma lies_threads:
  assumes "threads k' = threads k" "semas k' = semas k" "running k' = running k" "ready_list k' = ready_list k"
    "idle_thread k' = idle_thread k" "all_list k' = all_list k"
  shows "lies k' p n = lies k p n"
  using assms by (simp add: lies_def undisturbed_def sleeping_def is_thread_def)

lemma lies_irrelevant [simp]:
  "lies (k\<lparr>intr_on := b\<rparr>) p n = lies k p n" "lies (k\<lparr>in_intr := b\<rparr>) p n = lies k p n"
  "lies (k\<lparr>yield_on_return := b\<rparr>) p n = lies k p n" "lies (k\<lparr>thread_ticks := i\<rparr>) p n = lies k p n"
  "lies (k\<lparr>idle_ticks := i\<rparr>) p n = lies k p n" "lies (k\<lparr>kernel_ticks := i\<rparr>) p n = lies k p n"
  "lies (k\<lparr>timer := i\<rparr>) p n = lies k p n" "lies (k\<lparr>conds := cs\<rparr>) p n = lies k p n"
  "lies (k\<lparr>next_tid := j\<rparr>) p n = lies k p n" "lies (k\<lparr>load_avg := j\<rparr>) p n = lies k p n"
  "lies (upd_lock k l lf) p n = lies k p n"
  by (rule lies_threads; simp add: upd_lock_def)+

lemma lies_upd_thread:
  assumes l: "lies k p n"
    and g: "\<And>t. q = p \<Longrightarrow> status (g t) = status t \<and> b_tick (g t) = b_tick t \<and> thread_magic (g t) = thread_magic t"
    and f: "\<And>t pr. Create_Finish p pr \<in> set (frames (g t)) \<Longrightarrow> Create_Finish p pr \<in> set (frames t)"
  shows "lies (upd_thread k q g) p n"
proof (rule lies_cong [OF l])
  show "\<exists>t'. threads (upd_thread k q g) p = Some t' \<and> status t' = status t \<and> b_tick t' = b_tick t \<and> thread_magic t' = thread_magic t"
    if "threads k p = Some t" for t
    using that g by (cases "q = p") auto
  show "\<exists>t. threads k u = Some t \<and> Create_Finish p pr \<in> set (frames t)"
    if "threads (upd_thread k q g) u = Some t'" "Create_Finish p pr \<in> set (frames t')" for u t' pr
    using that f by (cases "u = q") auto
qed (use lies_facts [OF l] in auto)

lemma lies_push_frame: "lies k p n \<Longrightarrow> (\<And>pr. fr \<noteq> Create_Finish p pr) \<Longrightarrow> lies (push_frame k fr) p n"
  unfolding push_frame_def by (rule lies_upd_thread) (auto simp: lies_def)

lemma lies_upd_sema:
  assumes l: "lies k p n" and f: "\<And>sm. p \<in> set (waiters (f sm)) \<Longrightarrow> p \<in> set (waiters sm)"
  shows "lies (upd_sema k s f) p n"
proof (rule lies_cong [OF l])
  show "p \<notin> set (waiters (semas (upd_sema k s f) s'))" for s'
    using f lies_facts [OF l] by (cases "s' = s") (auto simp: upd_sema_def)
qed (use lies_facts [OF l] in \<open>auto simp: upd_sema_def\<close>)

lemma lies_ready_list:
  assumes "lies k p n" "p \<notin> set ps"
  shows "lies (k\<lparr>ready_list := ps\<rparr>) p n"
  using assms by (simp add: lies_def undisturbed_def sleeping_def is_thread_def)

lemma lies_running: "lies k p n \<Longrightarrow> running k \<noteq> p"
  by (simp add: lies_def)

lemma lies_current: "lies k p n \<Longrightarrow> thread_current k \<noteq> Some p"
  by (auto simp: lies_def thread_current_Some)

section \<open>What the other threads do\<close>

lemma schedule_lies:
  assumes r: "schedule k = Some k'" and l: "lies k p n"
  shows "lies k' p n"
proof -
  define nxt where "nxt = (case ready_list k of [] \<Rightarrow> idle_thread k | p # _ \<Rightarrow> p)"
  have nxt: "next_thread_to_run k = (nxt, k\<lparr>ready_list := tl (ready_list k)\<rparr>)"
    by (cases "ready_list k") (auto simp: next_thread_to_run_def nxt_def)
  have rl: "p \<notin> set (ready_list k)" and id: "idle_thread k \<noteq> p" using l by (auto simp: lies_def undisturbed_def)
  have ne: "nxt \<noteq> p" unfolding nxt_def using rl id by (auto split: list.split)
  have np: "running k \<noteq> p" using l by (rule lies_running)
  have tl: "p \<notin> set (tl (ready_list k))" using rl by (metis list.set_sel(2) tl_Nil)
  let ?k = "k\<lparr>ready_list := tl (ready_list k), running := nxt\<rparr>"
  from r nxt have tail: "thread_schedule_tail ?k (if running k \<noteq> nxt then running k else NULL) = Some k'"
    by (auto simp: schedule_def Let_def monad_simps split: if_splits)
  let ?k1 = "(upd_thread ?k nxt (\<lambda>t. t\<lparr>status := THREAD_RUNNING\<rparr>))\<lparr>thread_ticks := 0\<rparr>"
  have k': "k' = ?k1 \<or> k' = ?k1\<lparr>threads := (threads ?k1)(running k := None)\<rparr>"
    using tail by (auto simp: thread_schedule_tail_def Let_def monad_simps split: if_splits)
  have "lies ?k p n" using l ne tl by (simp add: lies_def undisturbed_def sleeping_def is_thread_def)
  then have "lies (upd_thread ?k nxt (\<lambda>t. t\<lparr>status := THREAD_RUNNING\<rparr>)) p n" by (rule lies_upd_thread) (use ne in simp_all)
  then have k1: "lies ?k1 p n" by (simp only: lies_irrelevant)
  from k' show ?thesis
  proof
    assume k': "k' = ?k1\<lparr>threads := (threads ?k1)(running k := None)\<rparr>"
    show ?thesis
      by (rule lies_cong [OF k1]) (use lies_facts [OF k1] np in \<open>auto simp: k' split: if_splits\<close>)
  qed (use k1 in simp)
qed

lemma thread_block_lies:
  assumes r: "thread_block k = Some k'" and l: "lies k p n"
  shows "lies k' p n"
proof (rule schedule_lies)
  show "schedule (upd_thread k (running k) (\<lambda>t. t\<lparr>status := THREAD_BLOCKED\<rparr>)) = Some k'"
    using r by (auto simp: thread_block_def monad_simps thread_current_Some)
  show "lies (upd_thread k (running k) (\<lambda>t. t\<lparr>status := THREAD_BLOCKED\<rparr>)) p n"
    using lies_running [OF l] by (intro lies_upd_thread [OF l]) simp_all
qed

lemma thread_exit_lies:
  assumes r: "thread_exit k = Some k'" and l: "lies k p n"
  shows "lies k' p n"
proof -
  have np: "running k \<noteq> p" using l by (rule lies_running)
  have c: "count_list (remove1 q qs) p = count_list qs p" if "q \<noteq> p" for q and qs :: "addr list"
    using that by (induction qs) auto
  let ?k = "k\<lparr>intr_on := False, all_list := remove1 (running k) (all_list k)\<rparr>"
  have "lies ?k p n" by (rule lies_cong [OF l]) (use lies_facts [OF l] in \<open>auto simp: c\<close>)
  then have "lies (upd_thread ?k (running k) (\<lambda>t. t\<lparr>status := THREAD_DYING\<rparr>)) p n"
    using np by (intro lies_upd_thread) auto
  moreover have "schedule (upd_thread ?k (running k) (\<lambda>t. t\<lparr>status := THREAD_DYING\<rparr>)) = Some k'"
    using r by (auto simp: thread_exit_def Let_def monad_simps thread_current_Some)
  ultimately show ?thesis by (rule schedule_lies [rotated])
qed

lemma thread_unblock_lies:
  assumes r: "thread_unblock k q = Some k'" and l: "lies k p n" and q: "q \<noteq> p"
  shows "lies k' p n"
proof -
  from r have k': "k' = (upd_thread (k\<lparr>intr_on := False, ready_list := insert_before_greater (thread_cmp_pri (k\<lparr>intr_on := False\<rparr>)) q (ready_list k)\<rparr>)
      q (\<lambda>t. t\<lparr>status := THREAD_READY\<rparr>))\<lparr>intr_on := intr_on k\<rparr>"
    by (auto simp: thread_unblock_def Let_def monad_simps)
  let ?k = "k\<lparr>intr_on := False, ready_list := insert_before_greater (thread_cmp_pri (k\<lparr>intr_on := False\<rparr>)) q (ready_list k)\<rparr>"
  have "p \<notin> set (ready_list k)" using l by (simp add: lies_def)
  then have "lies ?k p n" using l q by (intro lies_ready_list) simp_all
  then have "lies (upd_thread ?k q (\<lambda>t. t\<lparr>status := THREAD_READY\<rparr>)) p n" using q by (intro lies_upd_thread) simp_all
  then show ?thesis unfolding k' by (simp only: lies_irrelevant)
qed

lemma thread_yield_lies:
  assumes r: "thread_yield k = Some k'" and l: "lies k p n"
  shows "lies k' p n"
proof -
  let ?c = "running k"
  let ?k0 = "push_frame (k\<lparr>intr_on := False\<rparr>) (Set_Level (intr_on k))"
  let ?k1 = "if ?c \<noteq> idle_thread k then ?k0\<lparr>ready_list := insert_before_greater (thread_cmp_pri ?k0) ?c (ready_list k)\<rparr> else ?k0"
  have s: "schedule (upd_thread ?k1 ?c (\<lambda>t. t\<lparr>status := THREAD_READY\<rparr>)) = Some k'"
    using r by (auto simp: thread_yield_def Let_def monad_simps thread_current_Some)
  have c: "?c \<noteq> p" using l by (rule lies_running)
  have "lies ?k0 p n" using l by (simp add: lies_push_frame)
  then have "lies ?k1 p n" using l c by (auto simp: lies_def [of k] intro!: lies_ready_list)
  then have "lies (upd_thread ?k1 ?c (\<lambda>t. t\<lparr>status := THREAD_READY\<rparr>)) p n" using c by (intro lies_upd_thread) auto
  then show ?thesis by (rule schedule_lies [OF s])
qed

lemma thread_update_pri_lies: "thread_update_pri k q = Some k' \<Longrightarrow> lies k p n \<Longrightarrow> lies k' p n"
  by (rule thread_update_pri_Some) (auto intro!: lies_upd_thread)

lemma thread_donate_pri_lies:
  assumes r: "thread_donate_pri k q = Some k'" and l: "lies k p n"
  shows "lies k' p n"
proof -
  from r obtain k1 where k1: "thread_update_pri (k\<lparr>intr_on := False\<rparr>) q = Some k1"
    "k' = k1\<lparr>intr_on := intr_on k\<rparr> \<or> stat k1 q = Some THREAD_READY \<and>
      k' = k1\<lparr>ready_list := insert_before_greater (thread_cmp_pri k1) q (remove1 q (ready_list k1)), intr_on := intr_on k\<rparr>"
    by (auto simp: thread_donate_pri_def Let_def monad_simps split: if_splits)
  have l1: "lies k1 p n" using thread_update_pri_lies [OF k1(1)] l by simp
  from k1(2) show ?thesis
  proof
    assume a: "stat k1 q = Some THREAD_READY \<and>
      k' = k1\<lparr>ready_list := insert_before_greater (thread_cmp_pri k1) q (remove1 q (ready_list k1)), intr_on := intr_on k\<rparr>"
    have "stat k1 p = Some THREAD_BLOCKED" using l1 by (auto simp: lies_def sleeping_def stat_def)
    then have "q \<noteq> p" using a by auto
    moreover have "p \<notin> set (remove1 q (ready_list k1))" using l1 by (auto simp: lies_def dest: notin_set_remove1)
    ultimately show ?thesis using a l1 by (simp add: lies_ready_list)
  qed (use l1 in simp)
qed

lemmas lies_intros = lies_upd_thread lies_push_frame lies_upd_sema

lemma thread_get_lock_lies:
  assumes r: "thread_get_lock k l = Some k'" and l: "lies k p n"
  shows "lies k' p n"
proof -
  let ?off = "k\<lparr>intr_on := False\<rparr>"
  let ?k = "upd_thread ?off (running k) (\<lambda>t. t\<lparr>holding_locks := insert_before_greater (lock_cmp_pri ?off) l (holding_locks t)\<rparr>)"
  let ?k2 = "upd_thread ?k (running k) (\<lambda>t. t\<lparr>priority := max_pri (locks k l)\<rparr>)"
  have l1: "lies ?k p n" by (rule lies_upd_thread) (use l in simp_all)
  have l2: "lies ?k2 p n" by (rule lies_upd_thread [OF l1]) simp_all
  from r have "k' = ?k\<lparr>intr_on := intr_on k\<rparr> \<or> thread_yield (push_frame ?k2 (Set_Level (intr_on k))) = Some k'"
    by (auto simp: thread_get_lock_def Let_def monad_simps thread_current_Some split: if_splits)
  then show ?thesis
  proof
    assume "thread_yield (push_frame ?k2 (Set_Level (intr_on k))) = Some k'"
    then show ?thesis by (rule thread_yield_lies) (rule lies_push_frame [OF l2], simp)
  qed (use l1 in \<open>simp only: lies_irrelevant\<close>)
qed

lemma thread_remove_lock_lies:
  assumes r: "thread_remove_lock k l = Some k'" and l: "lies k p n"
  shows "lies k' p n"
proof -
  let ?k = "upd_thread (k\<lparr>intr_on := False\<rparr>) (running k) (\<lambda>t. t\<lparr>holding_locks := remove1 l (holding_locks t)\<rparr>)"
  from r obtain k1 where k1: "thread_update_pri ?k (running k) = Some k1" "k' = k1\<lparr>intr_on := intr_on k\<rparr>"
    by (auto simp: thread_remove_lock_def Let_def monad_simps thread_current_Some)
  have "lies ?k p n" by (rule lies_upd_thread) (use l in simp_all)
  then have "lies k1 p n" by (rule thread_update_pri_lies [OF k1(1)])
  then show ?thesis by (simp add: k1(2))
qed

lemma thread_set_priority_lies:
  assumes r: "thread_set_priority k v = Some k'" and l: "lies k p n"
  shows "lies k' p n"
proof -
  let ?k = "upd_thread (k\<lparr>intr_on := False\<rparr>) (running k) (\<lambda>t. t\<lparr>original_pri := v\<rparr>)"
  let ?k2 = "upd_thread ?k (running k) (\<lambda>t. t\<lparr>priority := v\<rparr>)"
  have l1: "lies ?k p n" by (rule lies_upd_thread) (use l in simp_all)
  have l2: "lies ?k2 p n" by (rule lies_upd_thread [OF l1]) simp_all
  from r have "k' = k \<or> k' = ?k\<lparr>intr_on := intr_on k\<rparr> \<or> thread_yield (push_frame ?k2 (Set_Level (intr_on k))) = Some k'"
    by (auto simp: thread_set_priority_def Let_def monad_simps thread_current_Some split: if_splits)
  then consider "k' = k" | "k' = ?k\<lparr>intr_on := intr_on k\<rparr>" | "thread_yield (push_frame ?k2 (Set_Level (intr_on k))) = Some k'" by blast
  then show ?thesis
  proof cases
    case 2
    then show ?thesis using l1 by (simp only: lies_irrelevant)
  next
    case 3
    then show ?thesis by (rule thread_yield_lies) (rule lies_push_frame [OF l2], simp)
  qed (use l in simp)
qed

lemma thread_mlfqs_pri_update_lies: "thread_mlfqs_pri_update k q = Some k' \<Longrightarrow> lies k p n \<Longrightarrow> lies k' p n"
  by (auto simp: thread_mlfqs_pri_update_def split: if_splits intro: lies_upd_thread)

lemma thread_set_nice_lies:
  assumes r: "thread_set_nice k nc = Some k'" and l: "lies k p n"
  shows "lies k' p n"
proof -
  from r obtain k1 where k1: "thread_mlfqs_pri_update (upd_thread k (running k) (\<lambda>t. t\<lparr>nice := nc\<rparr>)) (running k) = Some k1"
    "thread_yield k1 = Some k'" by (auto simp: thread_set_nice_def monad_simps thread_current_Some)
  have "lies (upd_thread k (running k) (\<lambda>t. t\<lparr>nice := nc\<rparr>)) p n" by (rule lies_upd_thread [OF l]) simp_all
  then show ?thesis by (intro thread_yield_lies [OF k1(2)] thread_mlfqs_pri_update_lies [OF k1(1)])
qed

section \<open>Semaphores, locks and condition variables\<close>

lemma sema_down_loop_lies:
  assumes r: "sema_down_loop k s b = Some k'" and l: "lies k p n"
  shows "lies k' p n"
proof (cases "sema_val (semas k s) = 0")
  case True
  let ?k = "upd_sema k s (\<lambda>sm. sm\<lparr>waiters := insert_before_greater (thread_cmp_pri k) (running k) (waiters sm)\<rparr>)"
  have "lies ?k p n" by (rule lies_upd_sema [OF l]) (use lies_running [OF l] in simp)
  then have "lies (push_frame ?k (Sema_Down s b)) p n" by (rule lies_push_frame) simp
  moreover have "thread_block (push_frame ?k (Sema_Down s b)) = Some k'"
    using r True by (auto simp: sema_down_loop_def Let_def monad_simps thread_current_Some)
  ultimately show ?thesis by (rule thread_block_lies [rotated])
next
  case False
  then have "k' = (upd_sema k s (\<lambda>sm. sm\<lparr>sema_val := sema_val sm - 1\<rparr>))\<lparr>intr_on := b\<rparr>"
    using r by (simp add: sema_down_loop_def)
  moreover have "lies (upd_sema k s (\<lambda>sm. sm\<lparr>sema_val := sema_val sm - 1\<rparr>)) p n" by (rule lies_upd_sema [OF l]) simp
  ultimately show ?thesis by (simp only: lies_irrelevant)
qed

lemma sema_down_lies: "sema_down k s = Some k' \<Longrightarrow> lies k p n \<Longrightarrow> lies k' p n"
  by (auto simp: sema_down_def monad_simps elim!: sema_down_loop_lies)

lemma sema_up_lies:
  assumes r: "sema_up k s = Some k'" and l: "lies k p n"
  shows "lies k' p n"
proof -
  let ?k = "k\<lparr>intr_on := False\<rparr>"
  from r obtain k1 where
    k1: "(case sort_threads ?k (waiters (semas k s)) of [] \<Rightarrow> Some ?k
        | p # ps \<Rightarrow> thread_unblock (upd_sema ?k s (\<lambda>sm. sm\<lparr>waiters := ps\<rparr>)) p) = Some k1"
      "thread_yield (push_frame (upd_sema k1 s (\<lambda>sm. sm\<lparr>sema_val := sema_val sm + 1\<rparr>)) (Set_Level (intr_on k))) = Some k'"
    by (auto simp: sema_up_def Let_def monad_simps)
  have "lies k1 p n"
  proof (cases "sort_threads ?k (waiters (semas k s))")
    case Nil
    with k1(1) have "k1 = ?k" by simp
    then show ?thesis using l by simp
  next
    case (Cons q qs)
    have "set (sort_threads ?k (waiters (semas k s))) = set (waiters (semas k s))" by (simp add: sort_threads_def)
    then have q: "q \<noteq> p" "p \<notin> set qs" using Cons lies_facts [OF l] by (metis list.set_intros)+
    have "thread_unblock (upd_sema ?k s (\<lambda>sm. sm\<lparr>waiters := qs\<rparr>)) q = Some k1" using Cons k1(1) by simp
    moreover have "lies (upd_sema ?k s (\<lambda>sm. sm\<lparr>waiters := qs\<rparr>)) p n" by (rule lies_upd_sema) (use l q in simp_all)
    ultimately show ?thesis by (rule thread_unblock_lies) (rule q)
  qed
  then have "lies (upd_sema k1 s (\<lambda>sm. sm\<lparr>sema_val := sema_val sm + 1\<rparr>)) p n" by (rule lies_upd_sema) simp
  then show ?thesis by (intro thread_yield_lies [OF k1(2)] lies_push_frame) simp_all
qed

lemma donate_check_lies: "lies k p n \<Longrightarrow> lies (donate_check k lk) p n"
  by (auto simp: donate_check_def intro!: lies_push_frame)

lemma donate_to_lies: "donate_to k lk = Some k' \<Longrightarrow> lies k p n \<Longrightarrow> lies k' p n"
  unfolding donate_to_def by (erule thread_donate_pri_lies) (rule lies_push_frame, simp_all)

lemma donate_next_lies: "donate_next k lk = Some k' \<Longrightarrow> lies k p n \<Longrightarrow> lies k' p n"
  by (auto simp: donate_next_def monad_simps intro!: lies_push_frame)

lemma lock_acquire_lies:
  assumes r: "lock_acquire k l = Some k'" and l: "lies k p n"
  shows "lies k' p n"
proof -
  let ?k = "push_frame k (Lock_Down l)"
  have l1: "lies ?k p n" by (rule lies_push_frame [OF l]) simp
  have "lies (upd_thread ?k (running k) (\<lambda>t. t\<lparr>waiting_lock := l\<rparr>)) p n" by (rule lies_upd_thread [OF l1]) simp_all
  then have "lies (push_frame (upd_thread ?k (running k) (\<lambda>t. t\<lparr>waiting_lock := l\<rparr>)) (Donate l)) p n" by (rule lies_push_frame) simp
  with l1 r show ?thesis by (auto simp: lock_acquire_def Let_def monad_simps thread_current_Some split: if_splits)
qed

lemma lock_down_lies: "lock_down k l = Some k' \<Longrightarrow> lies k p n \<Longrightarrow> lies k' p n"
  unfolding lock_down_def by (erule sema_down_lies) (rule lies_push_frame, simp_all)

lemma lock_finish_lies:
  assumes r: "lock_finish k l = Some k'" and l: "lies k p n"
  shows "lies k' p n"
proof -
  let ?off = "k\<lparr>intr_on := False\<rparr>"
  let ?k = "upd_thread ?off (running k) (\<lambda>t. t\<lparr>waiting_lock := NULL\<rparr>)"
  let ?k1 = "upd_lock ?k l (\<lambda>lk. lk\<lparr>max_pri := pri ?k (running k)\<rparr>)"
  have "k' = push_frame ?off (Set_Holder l (intr_on k)) \<or> thread_get_lock (push_frame ?k1 (Set_Holder l (intr_on k))) l = Some k'"
    using r by (cases "thread_mlfqs k") (auto simp: lock_finish_def Let_def monad_simps thread_current_Some)
  then show ?thesis
  proof
    assume "k' = push_frame ?off (Set_Holder l (intr_on k))"
    then show ?thesis using l by (simp add: lies_push_frame)
  next
    assume "thread_get_lock (push_frame ?k1 (Set_Holder l (intr_on k))) l = Some k'"
    moreover have "lies ?k p n" by (rule lies_upd_thread) (use l in simp_all)
    then have "lies ?k1 p n" by (simp only: lies_irrelevant)
    then have "lies (push_frame ?k1 (Set_Holder l (intr_on k))) p n" by (rule lies_push_frame) simp
    ultimately show ?thesis by (rule thread_get_lock_lies)
  qed
qed

lemma set_holder_lies: "set_holder k l b = Some k' \<Longrightarrow> lies k p n \<Longrightarrow> lies k' p n"
  by (auto simp: set_holder_def)

lemma sema_try_down_lies: "sema_try_down k s = (b, k') \<Longrightarrow> lies k p n \<Longrightarrow> lies k' p n"
  using lies_upd_sema [of k p n "\<lambda>sm. sm\<lparr>sema_val := sema_val sm - 1\<rparr>" s] by (auto simp: sema_try_down_def split: if_splits)

lemma lock_try_acquire_lies: "lock_try_acquire k l = Some (b, k') \<Longrightarrow> lies k p n \<Longrightarrow> lies k' p n"
  by (auto simp: lock_try_acquire_def monad_simps split: if_splits prod.splits dest: sema_try_down_lies)

lemma lock_release_lies:
  assumes r: "lock_release k l = Some k'" and l: "lies k p n"
  shows "lies k' p n"
proof -
  let ?k = "upd_lock k l (\<lambda>lk. lk\<lparr>holder := NULL\<rparr>)"
  from r obtain k1 where k1: "(if \<not> thread_mlfqs k then thread_remove_lock ?k l else Some ?k) = Some k1" "sema_up k1 (sema_of l) = Some k'"
    by (auto simp: lock_release_def Let_def monad_simps)
  have "lies ?k p n" using l by simp
  then have "lies k1 p n" using k1(1) thread_remove_lock_lies [of ?k l k1] by (auto split: if_splits)
  then show ?thesis by (rule sema_up_lies [OF k1(2)])
qed

lemma cond_wait_lies:
  assumes r: "cond_wait k c l w = Some k'" and l: "lies k p n"
  shows "lies k' p n"
proof -
  let ?k = "(sema_init k w 0)\<lparr>conds := (conds (sema_init k w 0))(c := conds (sema_init k w 0) c @ [w])\<rparr>"
  have "lock_release (push_frame ?k (Cond_Sleep w l)) l = Some k'"
    using r by (auto simp: cond_wait_def Let_def monad_simps)
  moreover have "lies (sema_init k w 0) p n" unfolding sema_init_def by (rule lies_upd_sema [OF l]) simp
  then have "lies ?k p n" by (simp only: lies_irrelevant)
  then have "lies (push_frame ?k (Cond_Sleep w l)) p n" by (rule lies_push_frame) simp
  ultimately show ?thesis by (rule lock_release_lies)
qed

lemma cond_signal_lies: "cond_signal k c l = Some k' \<Longrightarrow> lies k p n \<Longrightarrow> lies k' p n"
  by (auto simp: cond_signal_def monad_simps split: if_splits elim!: sema_up_lies)

lemma cond_broadcast_lies: "cond_broadcast k c l = Some k' \<Longrightarrow> lies k p n \<Longrightarrow> lies k' p n"
  by (auto simp: cond_broadcast_def split: if_splits elim!: cond_signal_lies intro!: lies_push_frame)

section \<open>Threads and time\<close>

lemma take_tid_lies:
  assumes r: "take_tid k q = Some k'" and l: "lies k p n"
  shows "lies k' p n"
proof (rule lock_release_lies)
  show "lock_release ((upd_thread k q (\<lambda>t. t\<lparr>tid := next_tid k\<rparr>))\<lparr>next_tid := next_tid k + 1\<rparr>) (tid_lock k) = Some k'"
    using r by (simp add: take_tid_def Let_def)
  show "lies ((upd_thread k q (\<lambda>t. t\<lparr>tid := next_tid k\<rparr>))\<lparr>next_tid := next_tid k + 1\<rparr>) p n"
    unfolding lies_irrelevant by (rule lies_upd_thread [OF l]) simp_all
qed

lemma create_finish_lies:
  assumes r: "create_finish k page pr = Some k'" and l: "lies k p n" and page: "page \<noteq> p"
  shows "lies k' p n"
proof -
  from r obtain k1 where k1: "thread_unblock k page = Some k1" "k' = k1 \<or> thread_yield k1 = Some k'"
    by (auto simp: create_finish_def monad_simps split: if_splits)
  have "lies k1 p n" by (rule thread_unblock_lies [OF k1(1) l page])
  with k1(2) show ?thesis by (auto dest: thread_yield_lies)
qed

lemma thread_create_lies:
  assumes r: "thread_create misread k page nm pr = Some k'" and l: "lies k p n"
    and page: "page \<noteq> NULL \<Longrightarrow> threads k page = None"
  shows "lies k' p n"
proof (cases "page = NULL")
  case True
  with r l show ?thesis by (simp add: thread_create_def)
next
  case False
  from r False obtain k1 where k1: "init_thread misread k page nm pr = Some k1"
    "lock_acquire (push_frame (push_frame (upd_thread k1 page (\<lambda>t. t\<lparr>frames := [Set_Level True]\<rparr>)) (Create_Finish page pr)) (Take_Tid page)) (tid_lock k1) = Some k'"
    by (auto simp: thread_create_def allocate_tid_def Let_def monad_simps)
  have ne: "page \<noteq> p" using page [OF False] lies_facts [OF l] by (metis option.distinct(1))
  have c: "count_list (insert_before_greater lt page qs) p = count_list qs p" for lt and qs :: "addr list"
  proof -
    have "count_list (takeWhile f qs @ page # dropWhile f qs) p = count_list (takeWhile f qs @ dropWhile f qs) p" for f
      using ne by (simp del: takeWhile_dropWhile_id)
    then show ?thesis by (simp add: insert_before_greater_def)
  qed
  have same: "running k1 = running k" "ready_list k1 = ready_list k" "idle_thread k1 = idle_thread k" "semas k1 = semas k"
    "count_list (all_list k1) p = count_list (all_list k) p"
    using k1(1) by (auto simp: init_thread_def Let_def monad_simps c)
  have "lies k1 p n"
  proof (rule lies_cong [OF l])
    show "\<exists>t'. threads k1 p = Some t' \<and> status t' = status t \<and> b_tick t' = b_tick t \<and> thread_magic t' = thread_magic t"
      if "threads k p = Some t" for t using that k1(1) ne by (auto simp: init_thread_def Let_def monad_simps)
    show "\<exists>t. threads k q = Some t \<and> Create_Finish p pr' \<in> set (frames t)"
      if "threads k1 q = Some t'" "Create_Finish p pr' \<in> set (frames t')" for q t' pr'
      using that k1(1) ne by (cases "q = page") (auto simp: init_thread_def Let_def monad_simps)
  qed (use same l in \<open>simp_all add: lies_def undisturbed_def\<close>)
  then have "lies (upd_thread k1 page (\<lambda>t. t\<lparr>frames := [Set_Level True]\<rparr>)) p n" by (rule lies_upd_thread) (use ne in simp_all)
  then have "lies (push_frame (push_frame (upd_thread k1 page (\<lambda>t. t\<lparr>frames := [Set_Level True]\<rparr>)) (Create_Finish page pr)) (Take_Tid page)) p n"
    using ne by (intro lies_push_frame) simp_all
  then show ?thesis by (rule lock_acquire_lies [OF k1(2)])
qed

lemma timer_sleep_lies:
  assumes r: "timer_sleep k m = Some k'" and l: "lies k p n"
  shows "lies k' p n"
proof (cases "m \<le> 0")
  case False
  let ?k = "push_frame (k\<lparr>intr_on := False\<rparr>) (Set_Level True)"
  have "thread_block (upd_thread ?k (running k) (\<lambda>t. t\<lparr>b_tick := m\<rparr>)) = Some k'"
    using r False by (auto simp: timer_sleep_def Let_def monad_simps thread_current_Some)
  moreover have "lies ?k p n" by (rule lies_push_frame) (use l in simp_all)
  then have "lies (upd_thread ?k (running k) (\<lambda>t. t\<lparr>b_tick := m\<rparr>)) p n"
    by (rule lies_upd_thread) (use lies_running [OF l] in simp_all)
  ultimately show ?thesis by (rule thread_block_lies)
qed (use r l in \<open>simp add: timer_sleep_def\<close>)

lemma run_frame_lies:
  assumes r: "run_frame fr k = Some k'" and l: "lies k p n" and fr: "\<And>pr. fr \<noteq> Create_Finish p pr"
  shows "lies k' p n"
proof (cases fr)
  case (Set_Level b)
  then show ?thesis using r l by (auto simp: run_frame_def)
next
  case (Donate lk)
  then show ?thesis using r l donate_check_lies by (auto simp: run_frame_def)
next
  case (Cond_Sleep w c)
  then have "sema_down (push_frame k (Lock_Acquire c)) w = Some k'" using r by (simp add: run_frame_def)
  then show ?thesis by (rule sema_down_lies) (rule lies_push_frame [OF l], simp)
next
  case (Create_Finish page pr)
  then show ?thesis using r l fr create_finish_lies [of k page pr k' p n] by (auto simp: run_frame_def)
qed (use r l in \<open>auto simp: run_frame_def dest: sema_down_loop_lies lock_finish_lies set_holder_lies lock_acquire_lies lock_down_lies
      cond_broadcast_lies donate_to_lies donate_next_lies take_tid_lies\<close>)

lemma resume_lies:
  assumes r: "resume k = Some k'" and l: "lies k p n"
  shows "lies k' p n"
proof -
  from r obtain t where t: "threads k (running k) = Some t"
    "(case frames t of [] \<Rightarrow> Some k | fr # frs \<Rightarrow> run_frame fr (upd_thread k (running k) (\<lambda>t. t\<lparr>frames := frs\<rparr>))) = Some k'"
    by (auto simp: resume_def monad_simps thread_current_Some)
  show ?thesis
  proof (cases "frames t")
    case (Cons fr frs)
    have no: "Create_Finish p pr \<notin> set (frames u)" if "threads k q = Some u" for q u pr
      using that l by (auto simp: lies_def undisturbed_def)
    let ?k = "upd_thread k (running k) (\<lambda>t. t\<lparr>frames := frs\<rparr>)"
    have pop: "lies ?k p n"
    proof (rule lies_cong [OF l])
      show "\<exists>t'. threads ?k p = Some t' \<and> status t' = status u \<and> b_tick t' = b_tick u \<and> thread_magic t' = thread_magic u"
        if "threads k p = Some u" for u using that by auto
      show "\<exists>t. threads k q = Some t \<and> Create_Finish p pr \<in> set (frames t)"
        if "threads ?k q = Some t'" "Create_Finish p pr \<in> set (frames t')" for q t' pr
        using that t(1) Cons by (cases "q = running k") auto
    qed (use l in \<open>auto simp: lies_def undisturbed_def\<close>)
    have fr: "fr \<noteq> Create_Finish p pr" for pr using no [OF t(1), of pr] Cons by auto
    have "run_frame fr ?k = Some k'" using t(2) Cons by simp
    then show ?thesis using pop fr by (rule run_frame_lies)
  qed (use t l in simp)
qed

lemma do_call_lies:
  assumes r: "do_call misread c k = Some k'" and l: "lies k p n" and pf: "page_free k c"
  shows "lies k' p n"
proof (cases c)
  case (Call_create page nm pr)
  then show ?thesis using r pf thread_create_lies [OF _ l] by (auto simp: do_call_def page_free_def)
qed (use r l in \<open>auto simp: do_call_def dest: thread_yield_lies thread_exit_lies thread_set_priority_lies thread_set_nice_lies
      timer_sleep_lies sema_down_lies sema_up_lies lock_acquire_lies lock_try_acquire_lies lock_release_lies cond_wait_lies
      cond_signal_lies cond_broadcast_lies\<close>)

section \<open>The timer interrupt\<close>

definition queued :: "kernel \<Rightarrow> addr \<Rightarrow> bool" where
  "queued k p \<longleftrightarrow> p \<in> set (ready_list k) \<and> stat k p = Some THREAD_READY \<and> running k \<noteq> p"

lemma queued_upd_thread: "queued k p \<Longrightarrow> (\<And>t. status (g t) = status t) \<Longrightarrow> queued (upd_thread k q g) p"
  by (cases "q = p") (auto simp: queued_def stat_def)

lemma queued_threads:
  "threads k' = threads k \<Longrightarrow> ready_list k' = ready_list k \<Longrightarrow> running k' = running k \<Longrightarrow> queued k' p = queued k p"
  by (simp add: queued_def stat_def)

lemma queued_irrelevant [simp]:
  "queued (k\<lparr>load_avg := i\<rparr>) p = queued k p" "queued (k\<lparr>in_intr := b\<rparr>) p = queued k p"
  by (rule queued_threads; simp)+

lemma queued_unblock:
  assumes r: "thread_unblock k q = Some k'" and p: "queued k p \<or> q = p \<and> running k \<noteq> p"
  shows "queued k' p"
proof -
  from r have q: "stat k q = Some THREAD_BLOCKED"
    and k': "k' = (upd_thread (k\<lparr>intr_on := False, ready_list := insert_before_greater (thread_cmp_pri (k\<lparr>intr_on := False\<rparr>)) q (ready_list k)\<rparr>)
      q (\<lambda>t. t\<lparr>status := THREAD_READY\<rparr>))\<lparr>intr_on := intr_on k\<rparr>"
    by (auto simp: thread_unblock_def Let_def monad_simps stat_def)
  show ?thesis using p q by (auto simp: k' queued_def stat_def)
qed

lemma queued_b_check: "thread_b_check k q = Some k' \<Longrightarrow> queued k p \<Longrightarrow> queued k' p"
  using queued_unblock [of "upd_thread k q (\<lambda>t. t\<lparr>b_tick := b_tick t - 1\<rparr>)" q k' p] queued_upd_thread [of k p "\<lambda>t. t\<lparr>b_tick := b_tick t - 1\<rparr>" q]
  by (auto simp: thread_b_check_def Let_def monad_simps split: if_splits)

lemma b_check_lies:
  assumes r: "thread_b_check k q = Some k'" and l: "lies k p n" and q: "q \<noteq> p"
  shows "lies k' p n"
proof -
  let ?k = "upd_thread k q (\<lambda>t. t\<lparr>b_tick := b_tick t - 1\<rparr>)"
  have d: "lies ?k p n" by (rule lies_upd_thread [OF l]) (use q in simp_all)
  from r consider "k' = k" | "k' = ?k" | "thread_unblock ?k q = Some k'"
    by (auto simp: thread_b_check_def Let_def monad_simps split: if_splits)
  then show ?thesis using l d q by cases (auto dest: thread_unblock_lies)
qed

text \<open>The turn of the sleeping thread.\<close>

lemma b_check_self:
  assumes r: "thread_b_check k p = Some k'" and l: "lies k p n" and n: "0 < n"
  shows "n \<noteq> 1 \<longrightarrow> lies k' p (n - 1)" "n = 1 \<longrightarrow> queued k' p"
proof -
  let ?k = "upd_thread k p (\<lambda>t. t\<lparr>b_tick := b_tick t - 1\<rparr>)"
  obtain t where t: "threads k p = Some t" "status t = THREAD_BLOCKED" "b_tick t = n" using lies_facts [OF l] by metis
  with r n have r': "(if n - 1 = 0 then thread_unblock ?k p else Some ?k) = Some k'" by (simp add: thread_b_check_def Let_def)
  show "n \<noteq> 1 \<longrightarrow> lies k' p (n - 1)"
  proof
    assume "n \<noteq> 1"
    then have "k' = ?k" using r' by simp
    then show "lies k' p (n - 1)"
      using l t by (auto simp: lies_def undisturbed_def sleeping_def is_thread_def split: if_splits)
  qed
  show "n = 1 \<longrightarrow> queued k' p"
    using r' queued_unblock [of ?k p k' p] lies_running [OF l] by auto
qed

lemma foreach_append:
  "foreach_loop f (xs @ ys) k = do { k \<leftarrow> foreach_loop f xs k; foreach_loop f ys k }"
  by (induction xs arbitrary: k) (auto simp: fun_eq_iff intro!: bind_option_cong)

lemma foreach_keeps:
  assumes "\<And>k q k'. f k q = Some k' \<Longrightarrow> Q k \<Longrightarrow> q \<in> set qs \<Longrightarrow> Q k'"
  shows "foreach_loop f qs k = Some k' \<Longrightarrow> Q k \<Longrightarrow> Q k'"
  using assms
proof (induction qs arbitrary: k)
  case (Cons q qs)
  from Cons.prems(1) obtain k1 where k1: "f k q = Some k1" "foreach_loop f qs k1 = Some k'" by (auto simp: monad_simps)
  show ?case
    by (rule Cons.IH [OF k1(2)]) (use k1 Cons.prems in auto)
qed simp

lemma once_split:
  assumes "count_list qs p = 1"
  obtains xs ys where "qs = xs @ p # ys" "p \<notin> set xs" "p \<notin> set ys"
proof -
  have "p \<in> set qs" using assms by (metis count_notin zero_neq_one)
  then obtain xs ys where q: "qs = xs @ p # ys" "p \<notin> set xs" by (metis split_list_first)
  then have "count_list ys p = 0" using assms by simp
  then have "p \<notin> set ys" by (simp add: count_list_0_iff)
  with q show thesis by (rule that)
qed

lemma foreach_b_check:
  assumes r: "thread_foreach thread_b_check k = Some k'" and l: "lies k p n" and n: "0 < n"
  shows "n \<noteq> 1 \<longrightarrow> lies k' p (n - 1)" "n = 1 \<longrightarrow> queued k' p"
proof -
  have "count_list (all_list k) p = 1" using l by (simp add: lies_def undisturbed_def)
  then obtain xs ys where q: "all_list k = xs @ p # ys" "p \<notin> set xs" "p \<notin> set ys" by (rule once_split)
  from r obtain k1 k2 where k1: "foreach_loop thread_b_check xs k = Some k1" "thread_b_check k1 p = Some k2"
    "foreach_loop thread_b_check ys k2 = Some k'" by (auto simp: thread_foreach_def monad_simps q foreach_append)
  have l1: "lies k1 p n"
    by (rule foreach_keeps [OF _ k1(1), where Q = "\<lambda>k. lies k p n"]) (use b_check_lies q l in \<open>blast+\<close>)
  show "n \<noteq> 1 \<longrightarrow> lies k' p (n - 1)"
  proof
    assume "n \<noteq> 1"
    then have "lies k2 p (n - 1)" using b_check_self(1) [OF k1(2) l1 n] by simp
    then show "lies k' p (n - 1)"
      by (rule foreach_keeps [OF _ k1(3), where Q = "\<lambda>k. lies k p (n - 1)", rotated]) (use b_check_lies q in blast)
  qed
  show "n = 1 \<longrightarrow> queued k' p"
  proof
    assume "n = 1"
    then have "queued k2 p" using b_check_self(2) [OF k1(2) l1 n] by simp
    then show "queued k' p"
      by (rule foreach_keeps [OF _ k1(3), where Q = "\<lambda>k. queued k p", rotated]) (use queued_b_check in blast)
  qed
qed

text \<open>The feedback-queue updates that follow in \<^verbatim>\<open>timer_interrupt\<close>.\<close>

lemma per_rcpu_lies: "thread_per_rcpu_update k q = Some k' \<Longrightarrow> lies k p n \<Longrightarrow> lies k' p n"
  by (auto simp: thread_per_rcpu_update_def split: if_splits elim!: thread_mlfqs_pri_update_lies intro!: lies_upd_thread)

lemma pri_update_queued: "thread_mlfqs_pri_update k q = Some k' \<Longrightarrow> queued k p \<Longrightarrow> queued k' p"
  by (auto simp: thread_mlfqs_pri_update_def split: if_splits intro: queued_upd_thread)

lemma per_rcpu_queued: "thread_per_rcpu_update k q = Some k' \<Longrightarrow> queued k p \<Longrightarrow> queued k' p"
  by (auto simp: thread_per_rcpu_update_def split: if_splits elim!: pri_update_queued intro!: queued_upd_thread)

lemma tick_rcpu_keeps:
  assumes "thread_mlfqs_tick_rcpu_update k = Some k'"
  shows "lies k p n \<Longrightarrow> lies k' p n" "queued k p \<Longrightarrow> queued k' p"
  using assms by (auto simp: thread_mlfqs_tick_rcpu_update_def monad_simps split: if_splits intro: lies_upd_thread queued_upd_thread)

lemma avg_rcpu_keeps:
  assumes r: "thread_mlfqs_avg_rcpu_update k = Some k'"
  shows "lies k p n \<Longrightarrow> lies k' p n" "queued k p \<Longrightarrow> queued k' p"
proof -
  from r obtain v where "k' = k \<or> foreach_loop thread_per_rcpu_update (all_list k) (k\<lparr>load_avg := v\<rparr>) = Some k'"
    by (auto simp: thread_mlfqs_avg_rcpu_update_def thread_foreach_def Let_def monad_simps split: if_splits)
  moreover have "lies k' p n" if "foreach_loop thread_per_rcpu_update (all_list k) (k\<lparr>load_avg := v\<rparr>) = Some k'" "lies k p n"
    by (rule foreach_keeps [OF _ that(1), where Q = "\<lambda>k. lies k p n"]) (use that(2) in \<open>simp_all add: per_rcpu_lies\<close>)
  moreover have "queued k' p" if "foreach_loop thread_per_rcpu_update (all_list k) (k\<lparr>load_avg := v\<rparr>) = Some k'" "queued k p"
    by (rule foreach_keeps [OF _ that(1), where Q = "\<lambda>k. queued k p"]) (use that(2) in \<open>simp_all add: per_rcpu_queued\<close>)
  ultimately show "lies k p n \<Longrightarrow> lies k' p n" "queued k p \<Longrightarrow> queued k' p" by blast+
qed

lemma thread_tick_frame2:
  assumes "thread_tick k = Some k'"
  shows "semas k' = semas k" "idle_thread k' = idle_thread k"
  using assms by (cases "thread_current k"; fastforce simp: thread_tick_def Let_def split: if_splits)+

lemma thread_tick_lies:
  assumes "thread_tick k = Some k'"
  shows "lies k' p n = lies k p n"
  using thread_tick_frame [OF assms] thread_tick_frame2 [OF assms] by (intro lies_threads)

lemma timer_interrupt_lies:
  assumes r: "timer_interrupt k = Some k'" and l: "lies k p n" and n: "0 < n"
  shows "n \<noteq> 1 \<longrightarrow> lies k' p (n - 1)" "n = 1 \<longrightarrow> queued k' p"
proof -
  from r obtain k1 k2 where k1: "thread_tick (k\<lparr>timer := timer k + 1\<rparr>) = Some k1" "thread_foreach thread_b_check k1 = Some k2"
    and k': "k' = k2 \<or> (\<exists>k3. thread_mlfqs_tick_rcpu_update k2 = Some k3 \<and>
      (k' = k3 \<or> thread_mlfqs_avg_rcpu_update k3 = Some k' \<or> (\<exists>q. thread_mlfqs_pri_update k3 q = Some k')))"
    by (auto simp: timer_interrupt_def Let_def monad_simps split: if_splits)
  have l1: "lies k1 p n" using thread_tick_lies [OF k1(1), of p n] l by simp
  note two = foreach_b_check [OF k1(2) l1 n]
  show "n \<noteq> 1 \<longrightarrow> lies k' p (n - 1)"
    using two(1) k' tick_rcpu_keeps(1) avg_rcpu_keeps(1) thread_mlfqs_pri_update_lies by metis
  show "n = 1 \<longrightarrow> queued k' p"
    using two(2) k' tick_rcpu_keeps(2) avg_rcpu_keeps(2) pri_update_queued by metis
qed

lemma thread_yield_queued:
  assumes r: "thread_yield k = Some k'" and q: "queued k p"
  shows "awake k' p"
proof -
  let ?c = "running k"
  let ?off = "push_frame (k\<lparr>intr_on := False\<rparr>) (Set_Level (intr_on k))"
  let ?k1 = "if ?c \<noteq> idle_thread k then ?off\<lparr>ready_list := insert_before_greater (thread_cmp_pri ?off) ?c (ready_list k)\<rparr> else ?off"
  let ?k2 = "upd_thread ?k1 ?c (\<lambda>t. t\<lparr>status := THREAD_READY\<rparr>)"
  have s: "schedule ?k2 = Some k'"
    using r by (auto simp: thread_yield_def Let_def monad_simps thread_current_Some)
  have p: "p \<in> set (ready_list ?k2)" "stat ?k2 p = Some THREAD_READY" "running ?k2 \<noteq> p"
    using q by (auto simp: queued_def stat_def push_frame_def)
  define k2 where "k2 = ?k2"
  obtain b bs where rl: "ready_list k2 = b # bs" using p(1) unfolding k2_def [symmetric] by (cases "ready_list k2") auto
  let ?k3 = "(upd_thread (k2\<lparr>ready_list := bs, running := b\<rparr>) b (\<lambda>t. t\<lparr>status := THREAD_RUNNING\<rparr>))\<lparr>thread_ticks := 0\<rparr>"
  have "k' = ?k3 \<or> k' = ?k3\<lparr>threads := (threads ?k3)(running k2 := None)\<rparr>"
    using s unfolding k2_def [symmetric]
    by (auto simp: schedule_def next_thread_to_run_def rl thread_schedule_tail_def Let_def monad_simps split: if_splits)
  moreover note p [folded k2_def]
  ultimately show ?thesis by (cases "p = b") (auto simp: awake_def rl stat_def)
qed

lemma intr_tick_lies:
  assumes r: "intr_handler timer_interrupt k = Some k'" and l: "lies k p n" and n: "0 < n"
  shows "n \<noteq> 1 \<longrightarrow> lies k' p (n - 1)" "n = 1 \<longrightarrow> awake k' p"
proof -
  let ?k = "(push_frame (k\<lparr>intr_on := False\<rparr>) (Set_Level True))\<lparr>in_intr := True, yield_on_return := False\<rparr>"
  from r obtain k1 where k1: "timer_interrupt ?k = Some k1" "k' = k1\<lparr>in_intr := False\<rparr> \<or> thread_yield (k1\<lparr>in_intr := False\<rparr>) = Some k'"
    by (auto simp: intr_handler_def Let_def monad_simps split: if_splits)
  have "lies ?k p n" using l by (simp add: lies_push_frame)
  note two = timer_interrupt_lies [OF k1(1) this n]
  show "n \<noteq> 1 \<longrightarrow> lies k' p (n - 1)"
  proof
    assume "n \<noteq> 1"
    then have "lies (k1\<lparr>in_intr := False\<rparr>) p (n - 1)" using two(1) by simp
    with k1(2) show "lies k' p (n - 1)" by (auto dest: thread_yield_lies)
  qed
  show "n = 1 \<longrightarrow> awake k' p"
  proof
    assume "n = 1"
    then have "queued (k1\<lparr>in_intr := False\<rparr>) p" using two(2) by simp
    with k1(2) show "awake k' p" by (auto dest: thread_yield_queued simp: queued_def awake_def)
  qed
qed

section \<open>Going to sleep\<close>

lemma timer_sleep_lies_down:
  assumes u: "undisturbed k p" and p: "running k = p" "p \<notin> set (ready_list k)" and m: "0 < m" and r: "timer_sleep k m = Some k'"
  shows "lies k' p m"
proof -
  let ?k = "upd_thread (push_frame (k\<lparr>intr_on := False\<rparr>) (Set_Level True)) p (\<lambda>t. t\<lparr>b_tick := m\<rparr>)"
  define k2 where "k2 = upd_thread ?k p (\<lambda>t. t\<lparr>status := THREAD_BLOCKED\<rparr>)"
  have s: "schedule k2 = Some k'"
    using r m p(1) by (auto simp: timer_sleep_def thread_block_def Let_def monad_simps thread_current_Some k2_def)
  obtain t where t: "threads k p = Some t" "thread_magic t = THREAD_MAGIC" "p \<noteq> NULL" "p \<noteq> idle_thread k"
    "count_list (all_list k) p = 1" "\<And>s. p \<notin> set (waiters (semas k s))"
    "\<And>q t pr. threads k q = Some t \<Longrightarrow> Create_Finish p pr \<notin> set (frames t)"
    using u by (auto simp: undisturbed_def is_thread_def)
  have th: "threads k2 = (threads k)(p \<mapsto> t\<lparr>frames := Set_Level True # frames t, b_tick := m, status := THREAD_BLOCKED\<rparr>)"
    using t(1) p(1) by (auto simp: k2_def push_frame_def fun_eq_iff)
  have other: "running k2 = p" "ready_list k2 = ready_list k" "idle_thread k2 = idle_thread k" "all_list k2 = all_list k" "semas k2 = semas k"
    by (simp_all add: k2_def p)
  define nxt where "nxt = (case ready_list k2 of [] \<Rightarrow> idle_thread k2 | p # _ \<Rightarrow> p)"
  have nxt: "next_thread_to_run k2 = (nxt, k2\<lparr>ready_list := tl (ready_list k2)\<rparr>)"
    by (cases "ready_list k2") (auto simp: next_thread_to_run_def nxt_def)
  have ne: "nxt \<noteq> p" unfolding nxt_def other using p t(4) by (auto split: list.split)
  have tl: "p \<notin> set (tl (ready_list k))" using p by (metis list.set_sel(2) tl_Nil)
  let ?k1 = "(upd_thread (k2\<lparr>ready_list := tl (ready_list k2), running := nxt\<rparr>) nxt (\<lambda>t. t\<lparr>status := THREAD_RUNNING\<rparr>))\<lparr>thread_ticks := 0\<rparr>"
  have k': "k' = ?k1"
    using s nxt ne other(1) th by (auto simp: schedule_def thread_schedule_tail_def stat_def Let_def monad_simps split: if_splits)
  have "Create_Finish p pr \<notin> set (frames v)" if "threads k' q = Some v" for q v pr
    using that t(1,7) ne by (cases "q = p"; cases "q = nxt") (auto simp: k' th)
  then show ?thesis
    using t ne tl other th by (auto simp: lies_def undisturbed_def sleeping_def is_thread_def k')
qed

section \<open>Runs with a number of timer interrupts\<close>

inductive kernel_run :: "(addr \<Rightarrow> int) \<Rightarrow> nat \<Rightarrow> kernel \<Rightarrow> kernel \<Rightarrow> bool" for misread where
  run_refl: "kernel_run misread 0 k k"
| run_resume: "kernel_run misread n k k' \<Longrightarrow> resume k' = Some k'' \<Longrightarrow> kernel_run misread n k k''"
| run_call: "kernel_run misread n k k' \<Longrightarrow> in_own_code k' \<Longrightarrow> page_free k' c \<Longrightarrow> do_call misread c k' = Some k'' \<Longrightarrow>
    kernel_run misread n k k''"
| run_tick: "kernel_run misread n k k' \<Longrightarrow> intr_on k' \<Longrightarrow> intr_handler timer_interrupt k' = Some k'' \<Longrightarrow>
    kernel_run misread (Suc n) k k''"

lemma kernel_run_lies:
  "kernel_run misread n k k' \<Longrightarrow> lies k p (int m) \<Longrightarrow> n < m \<Longrightarrow> lies k' p (int (m - n))"
proof (induction rule: kernel_run.induct)
  case (run_tick n k k' k'')
  then have "lies k' p (int (m - n))" by simp
  moreover have "int (m - n) - 1 = int (m - Suc n)" "int (m - n) \<noteq> 1" "0 < int (m - n)" using run_tick.prems(2) by auto
  ultimately show ?case using intr_tick_lies(1) [OF run_tick.hyps(3), of p "int (m - n)"] by metis
qed (auto intro: resume_lies do_call_lies)

text \<open>A run is a sequence of kernel steps.\<close>

lemma kernel_run_steps: "kernel_run misread n k k' \<Longrightarrow> (kernel_step misread)\<^sup>*\<^sup>* k k'"
  by (induction rule: kernel_run.induct)
    (auto intro: rtranclp.rtrancl_into_rtrancl kernel_step.intros)

section \<open>The timer interrupt returns\<close>

lemma b_check_returns:
  assumes "is_thread k p"
  shows "\<exists>k'. thread_b_check k p = Some k' \<and> intr_on k' = intr_on k \<and> all_list k' = all_list k \<and> timer k' = timer k \<and>
    (\<forall>q. is_thread k' q = is_thread k q)"
proof -
  obtain t where t: "threads k p = Some t" "thread_magic t = THREAD_MAGIC" using assms by (auto simp: is_thread_def)
  show ?thesis using t assms
    by (auto simp: thread_b_check_def thread_unblock_def stat_def is_thread_def Let_def split: if_splits)
qed

lemma foreach_b_check_returns:
  assumes "\<forall>q\<in>set qs. is_thread k q"
  shows "\<exists>k'. foreach_loop thread_b_check qs k = Some k' \<and> timer k' = timer k"
  using assms
proof (induction qs arbitrary: k)
  case (Cons q qs)
  obtain k1 where k1: "thread_b_check k q = Some k1" "timer k1 = timer k" "\<forall>q. is_thread k1 q = is_thread k q"
    using b_check_returns [of k q] Cons.prems by auto
  from Cons.IH [of k1] Cons.prems k1 show ?case by auto
qed simp

lemma thread_yield_returns:
  assumes inv: "sched_inv k" and i: "\<not> in_intr k"
  shows "\<exists>k'. thread_yield k = Some k' \<and> timer k' = timer k"
proof -
  let ?c = "running k"
  define off where "off = push_frame (k\<lparr>intr_on := False\<rparr>) (Set_Level (intr_on k))"
  define k1 where "k1 = (if ?c \<noteq> idle_thread k then off\<lparr>ready_list := insert_before_greater (thread_cmp_pri off) ?c (ready_list k)\<rparr> else off)"
  define k2 where "k2 = upd_thread k1 ?c (\<lambda>t. t\<lparr>status := THREAD_READY\<rparr>)"
  have c: "is_thread k ?c" "stat k ?c = Some THREAD_RUNNING" using inv by (auto simp: sched_inv_def)
  have rl: "\<forall>p\<in>set (ready_list k). is_thread k p" using inv by (auto simp: sched_inv_def queue_ok_def)
  have y: "thread_yield k = schedule k2"
    using c i by (simp add: thread_yield_def thread_current_def k2_def k1_def off_def Let_def)
  have th: "is_thread k2 p = is_thread k p" for p
    by (auto simp: is_thread_def k2_def k1_def off_def push_frame_def)
  have other: "running k2 = ?c" "\<not> intr_on k2" "idle_thread k2 = idle_thread k" "timer k2 = timer k" "stat k2 ?c = Some THREAD_READY"
    "\<forall>p\<in>set (ready_list k2). is_thread k2 p" "ready_list k2 = [] \<longrightarrow> ?c = idle_thread k"
    using c rl unfolding th by (auto simp: k2_def k1_def off_def push_frame_def stat_def is_thread_def insert_before_greater_def
        dest: set_takeWhileD set_dropWhileD)
  define nxt where "nxt = (case ready_list k2 of [] \<Rightarrow> idle_thread k2 | p # _ \<Rightarrow> p)"
  have nxt: "next_thread_to_run k2 = (nxt, k2\<lparr>ready_list := tl (ready_list k2)\<rparr>)"
    by (cases "ready_list k2") (auto simp: next_thread_to_run_def nxt_def)
  have is_nxt: "is_thread k2 nxt" using other c by (cases "ready_list k2") (auto simp: nxt_def th)
  have "schedule k2 = Some ((upd_thread (k2\<lparr>ready_list := tl (ready_list k2), running := nxt\<rparr>) nxt (\<lambda>t. t\<lparr>status := THREAD_RUNNING\<rparr>))\<lparr>thread_ticks := 0\<rparr>)"
  proof (cases "?c = nxt")
    case True
    then have e: "k2\<lparr>ready_list := tl (ready_list k2), running := nxt\<rparr> = k2\<lparr>ready_list := tl (ready_list k2)\<rparr>" using other(1) by simp
    have "stat k2 nxt = Some THREAD_READY" using other(5) True by simp
    then show ?thesis unfolding e
      using True other(1,2) is_nxt by (auto simp: schedule_def nxt thread_schedule_tail_def Let_def is_thread_def stat_def)
  next
    case False
    then show ?thesis
      using other(1,2,5) is_nxt by (auto simp: schedule_def nxt thread_schedule_tail_def Let_def is_thread_def stat_def)
  qed
  then show ?thesis by (simp add: y other(4))
qed

lemma intr_tick_returns:
  assumes inv: "sched_inv k" and i: "\<not> in_intr k" and all: "\<forall>p\<in>set (all_list k). is_thread k p"
  shows "\<exists>k'. intr_handler timer_interrupt k = Some k' \<and> timer k' = timer k + 1"
proof -
  let ?k = "(push_frame (k\<lparr>intr_on := False\<rparr>) (Set_Level True))\<lparr>in_intr := True, yield_on_return := False\<rparr>"
  have inv': "sched_inv ?k" using inv by simp
  have t0: "timer (push_frame (k\<lparr>intr_on := False\<rparr>) (Set_Level True)) = timer k" by (simp add: push_frame_def)
  let ?kt = "?k\<lparr>timer := timer k + 1\<rparr>"
  have invt: "sched_inv ?kt" using inv' by simp
  then have "thread_current ?kt = Some (running k)" by (simp add: thread_current_Some sched_inv_def)
  then obtain k1 where k1: "thread_tick ?kt = Some k1" by (simp add: thread_tick_def Let_def)
  note f = thread_tick_frame [OF k1]
  have th: "is_thread k1 p = is_thread k p" for p using f(1) by (auto simp: is_thread_def push_frame_def)
  obtain k2 where k2: "foreach_loop thread_b_check (all_list k1) k1 = Some k2" "timer k2 = timer k1"
    using foreach_b_check_returns [of "all_list k1" k1] all f(5) th by auto
  have m: "\<not> thread_mlfqs k1" using invt f(3) by (simp add: sched_inv_def queue_ok_def)
  have inv1: "sched_inv k1" by (rule thread_tick_inv [OF invt k1])
  have inv2: "sched_inv k2" by (rule foreach_loop_inv [OF _ inv1 k2(1)]) (rule thread_b_check_inv)
  then have m2: "\<not> thread_mlfqs k2" by (simp add: sched_inv_def queue_ok_def)
  have "timer_interrupt ?k = Some k2"
    using k1 k2(1) f(8) m2 t0 by (simp add: timer_interrupt_def thread_foreach_def Let_def)
  moreover obtain k3 where "thread_yield (k2\<lparr>in_intr := False\<rparr>) = Some k3" "timer k3 = timer k2"
    using thread_yield_returns [of "k2\<lparr>in_intr := False\<rparr>"] inv2 by auto
  ultimately show ?thesis using i k2(2) f(6) by (auto simp: intr_handler_def Let_def)
qed

end
