(* ===== verification/Scheduler_Properties.thy ===== *)
theory Scheduler_Properties
  imports Sched_Sleep
begin

text \<open>
  The properties of the priority scheduler, priority donation, sleeping, and the feedback queue, with
  a kernel of three threads as the example.
\<close>

section \<open>Well-formed kernels\<close>

text \<open>
  The ready list holds different, real, ready threads in descending order of priority, and only the
  running thread, a real one, is marked running.  The invariant \<open>sched_inv\<close> is this with the strict priority
  scheduler.
\<close>

definition well_formed :: "kernel \<Rightarrow> bool" where
  "well_formed k \<longleftrightarrow> distinct (ready_list k) \<and> (\<forall>p\<in>set (ready_list k). is_thread k p \<and> stat k p = Some THREAD_READY) \<and>
     sorted_wrt (\<lambda>a b. pri k b \<le> pri k a) (ready_list k) \<and>
     is_thread k (running k) \<and> (\<forall>p. stat k p = Some THREAD_RUNNING \<longleftrightarrow> p = running k)"

lemma sched_inv_iff: "sched_inv k \<longleftrightarrow> well_formed k \<and> \<not> thread_mlfqs k"
  by (auto simp: sched_inv_def queue_ok_def alone_def well_formed_def)

section \<open>Donation along a chain of waiting threads\<close>



text \<open>The running thread goes on in the kernel without an interrupt.\<close>

definition runs_on :: "kernel \<Rightarrow> kernel \<Rightarrow> bool" where
  "runs_on = (\<lambda>k k'. resume k = Some k')\<^sup>*\<^sup>*"


lemma runs_on_refl [simp]: "runs_on k k"
  by (simp add: runs_on_def)









section \<open>A kernel with five threads\<close>

text \<open>
  The thread at 4096 runs.  The one at 12288 waits for the lock at 1000, which the thread at 8192
  holds, and itself holds the lock at 2000.  The thread at 20480 sleeps for two ticks.
\<close>

definition sample_thread :: "thread_status \<Rightarrow> int \<Rightarrow> int \<Rightarrow> addr list \<Rightarrow> addr \<Rightarrow> int \<Rightarrow> thread" where
  "sample_thread st pr orig held wait tick = \<lparr>tid = 1, status = st, thread_nm = ''t'', priority = pr, original_pri = orig,
     b_tick = tick, holding_locks = held, waiting_lock = wait, nice = 0, recent_cpu = 0, thread_magic = THREAD_MAGIC, frames = []\<rparr>"

definition sample_kernel :: kernel where
  "sample_kernel = \<lparr>
     threads = [4096 \<mapsto> sample_thread THREAD_RUNNING 31 31 [] 0 0, 8192 \<mapsto> sample_thread THREAD_READY 25 20 [1000] 0 0,
       12288 \<mapsto> sample_thread THREAD_BLOCKED 25 25 [2000] 1000 0, 16384 \<mapsto> sample_thread THREAD_BLOCKED 0 0 [] 0 0,
       20480 \<mapsto> sample_thread THREAD_BLOCKED 40 40 [] 0 2],
     running = 4096, ready_list = [8192], all_list = [4096, 8192, 12288, 16384, 20480], idle_thread = 16384,
     initial_thread = 4096, thread_ticks = 0, idle_ticks = 0, kernel_ticks = 0, next_tid = 9, tid_lock = 3000,
     semas = (\<lambda>_. \<lparr>sema_val = 0, waiters = []\<rparr>)(1004 := \<lparr>sema_val = 0, waiters = [12288]\<rparr>, 3004 := \<lparr>sema_val = 1, waiters = []\<rparr>),
     locks = (\<lambda>_. \<lparr>holder = 0, max_pri = 0\<rparr>)(1000 := \<lparr>holder = 8192, max_pri = 25\<rparr>, 2000 := \<lparr>holder = 12288, max_pri = 25\<rparr>),
     conds = (\<lambda>_. []), timer = 0, load_avg = 0, thread_mlfqs = False, intr_on = True, in_intr = False, yield_on_return = False\<rparr>"

lemmas sample_kernel_defs = sample_kernel_def sample_thread_def is_thread_def stat_def pri_def THREAD_MAGIC_def

lemma sample_kernel_well_formed: "well_formed sample_kernel"
  by (simp add: well_formed_def sample_kernel_defs)

lemma sample_kernel_mode: "\<not> thread_mlfqs sample_kernel"
  by (simp add: sample_kernel_def)

lemma sample_kernel_yield: "\<exists>k'. thread_yield sample_kernel = Some k'"
  by (simp add: thread_yield_def thread_current_def schedule_def next_thread_to_run_def thread_schedule_tail_def push_frame_def
      upd_thread_def insert_before_greater_def thread_cmp_pri_def Let_def sample_kernel_defs)

section \<open>Properties\<close>

text \<open>
  C3: With the strict priority scheduler (\<^verbatim>\<open>thread_mlfqs\<close> is off), in every state the kernel can reach from a
  well-formed one, by system calls of the running thread, timer interrupts and resumed kernel functions
  in any order, the ready list holds different, real threads, all of them ready, in descending order of
  priority, and exactly one thread is marked running: the one that runs, which is not in the list.
\<close>

theorem scheduler_invariant:
  assumes "well_formed k" "\<not> thread_mlfqs k" "(kernel_step misread)\<^sup>*\<^sup>* k k'"
  shows "distinct (ready_list k') \<and> (\<forall>p \<in> set (ready_list k'). is_thread k' p \<and> stat k' p = Some THREAD_READY) \<and>
    sorted_wrt (\<lambda>p q. pri k' q \<le> pri k' p) (ready_list k') \<and>
    is_thread k' (running k') \<and> running k' \<notin> set (ready_list k') \<and>
    (\<forall>p. stat k' p = Some THREAD_RUNNING \<longleftrightarrow> p = running k')"
  using reachable_inv [OF assms(3)] assms(1,2) running_not_ready [of k']
  by (auto simp: sched_inv_iff [of k]) (auto simp: sched_inv_def queue_ok_def alone_def)

theorem scheduler_invariant_witness:
  "\<exists>k'. kernel_step (\<lambda>_. 0) sample_kernel k' \<and> distinct (ready_list k') \<and> running k' \<notin> set (ready_list k')"
proof -
  obtain k' where "thread_yield sample_kernel = Some k'" using sample_kernel_yield by blast
  then have "do_call (\<lambda>_. 0) Call_yield sample_kernel = Some k'" by (simp add: do_call_def)
  moreover have "in_own_code sample_kernel" by (simp add: in_own_code_def sample_kernel_defs)
  ultimately have step: "kernel_step (\<lambda>_. 0) sample_kernel k'"
    by (intro step_call [where c = Call_yield]) (auto simp: page_free_def)
  then have "(kernel_step (\<lambda>_. 0))\<^sup>*\<^sup>* sample_kernel k'" by blast
  with step scheduler_invariant [OF sample_kernel_well_formed sample_kernel_mode] show ?thesis by blast
qed

text \<open>
  C28: In a well-formed kernel with the strict priority scheduler (\<^verbatim>\<open>thread_mlfqs\<close> is off), \<^verbatim>\<open>thread_yield\<close>
  is strict priority scheduling with round robin among equals: the processor goes to the first ready
  thread unless the yielding thread has a strictly higher priority, so afterwards no thread that could
  run has a higher priority than the one that does.
\<close>

theorem thread_yield_highest_priority:
  assumes "well_formed k" "\<not> thread_mlfqs k" "thread_yield k = Some k'" "running k \<noteq> idle_thread k"
  shows "running k' = (if ready_list k \<noteq> [] \<and> pri k (running k) \<le> pri k (hd (ready_list k)) then hd (ready_list k) else running k) \<and>
    (\<forall>p \<in> insert (running k) (set (ready_list k)). pri k p \<le> pri k' (running k'))"
  using thread_yield_inv(2,3) [OF _ assms(3,4)] assms(1,2) by (simp add: sched_inv_iff)

theorem thread_yield_highest_priority_witness:
  "\<exists>k'. thread_yield sample_kernel = Some k' \<and> running k' = 4096"
  using sample_kernel_yield thread_yield_highest_priority [OF sample_kernel_well_formed sample_kernel_mode]
  by (fastforce simp: sample_kernel_defs)



text \<open>
  C40: A sleeping thread wakes exactly on time, whatever else the kernel does: after \<^verbatim>\<open>timer_sleep (m)\<close> by a
  thread that waits for nothing else, and any run of other threads, resumed kernel functions, calls and
  fewer than \<open>m\<close> timer interrupts, it is still blocked, off the ready list, with the ticks left that the
  interrupts have not used up; and the timer interrupt that is the \<open>m\<close>-th makes it ready, or gives it the
  processor at once.
\<close>

theorem sleeper_wakes_on_time:
  assumes "well_formed k" "undisturbed k (running k)" "0 < m" "timer_sleep k (int m) = Some k1"
    "kernel_run misread n k1 k'" "n < m"
  shows "sleeping k' (running k) (int (m - n)) \<and> running k \<notin> set (ready_list k') \<and> running k' \<noteq> running k \<and>
    (\<forall>k''. n + 1 = m \<and> intr_handler timer_interrupt k' = Some k'' \<longrightarrow> awake k'' (running k))"
proof -
  have "running k \<notin> set (ready_list k)" using assms(1) by (force simp: well_formed_def)
  then have "lies k1 (running k) (int m)"
    using timer_sleep_lies_down [OF assms(2) refl _ _ assms(4)] assms(3) by simp
  then have l: "lies k' (running k) (int (m - n))" using kernel_run_lies [OF assms(5)] assms(6) by blast
  moreover have "awake k'' (running k)" if "n + 1 = m" "intr_handler timer_interrupt k' = Some k''" for k''
    using intr_tick_lies(2) [OF that(2) l] that(1) by auto
  ultimately show ?thesis by (auto simp: lies_def)
qed

lemma sample_kernel_undisturbed: "undisturbed sample_kernel 4096"
  by (auto simp: undisturbed_def sample_kernel_defs split: if_splits)

theorem sleeper_wakes_on_time_witness:
  "\<exists>k1 k''. timer_sleep sample_kernel 1 = Some k1 \<and> intr_handler timer_interrupt k1 = Some k'' \<and> awake k'' 4096"
proof -
  obtain k1 where k1: "timer_sleep sample_kernel (int 1) = Some k1" "\<not> in_intr k1" "\<forall>p\<in>set (all_list k1). is_thread k1 p"
    by (simp add: timer_sleep_def thread_block_def thread_current_def schedule_def next_thread_to_run_def thread_schedule_tail_def
        push_frame_def upd_thread_def Let_def sample_kernel_defs)
  have "sched_inv sample_kernel" using sample_kernel_well_formed sample_kernel_mode by (simp add: sched_inv_iff)
  then have "sched_inv k1" by (rule timer_sleep_inv [OF _ k1(1)])
  then obtain k'' where k'': "intr_handler timer_interrupt k1 = Some k''" using intr_tick_returns k1(2,3) by blast
  have run: "running sample_kernel = 4096" by (simp add: sample_kernel_def)
  have "awake k'' 4096"
    using sleeper_wakes_on_time [OF sample_kernel_well_formed _ _ k1(1) run_refl [where misread = "\<lambda>_. 0"]] k''
      sample_kernel_undisturbed by (simp add: run)
  with k1(1) k'' show ?thesis by auto
qed

text \<open>
  C29: The timer interrupt always comes back: in a well-formed kernel with the strict priority scheduler
  whose list of all threads holds real threads, \<^verbatim>\<open>timer_interrupt\<close> with the \<^verbatim>\<open>thread_yield\<close> that may follow it
  halts nowhere, the time goes on by one tick, the kernel is well-formed again, and each sleeping
  thread that waits for nothing else has one tick less to sleep, or, if it had one left, is woken.
\<close>

theorem timer_tick_returns:
  assumes "well_formed k" "\<not> thread_mlfqs k" "\<not> in_intr k" "\<forall>p\<in>set (all_list k). is_thread k p"
  shows "\<exists>k'. intr_handler timer_interrupt k = Some k' \<and> timer k' = timer k + 1 \<and> well_formed k' \<and>
    (\<forall>p m. undisturbed k p \<and> sleeping k p m \<and> 0 < m \<longrightarrow> (if m = 1 then awake k' p else sleeping k' p (m - 1)))"
proof -
  have inv: "sched_inv k" using assms(1,2) by (simp add: sched_inv_iff)
  obtain k' where k': "intr_handler timer_interrupt k = Some k'" "timer k' = timer k + 1"
    using intr_tick_returns [OF inv assms(3,4)] by blast
  have "sched_inv k'" by (rule intr_handler_inv [OF inv k'(1)]) (rule timer_interrupt_inv)
  then have "well_formed k'" by (simp add: sched_inv_iff)
  moreover have "if m = 1 then awake k' p else sleeping k' p (m - 1)" if "undisturbed k p" "sleeping k p m" "0 < m" for p m
  proof -
    have "stat k p = Some THREAD_BLOCKED" using that(2) by (auto simp: sleeping_def stat_def)
    moreover have "stat k (running k) = Some THREAD_RUNNING" "\<forall>q\<in>set (ready_list k). stat k q = Some THREAD_READY"
      using assms(1) by (simp_all add: well_formed_def)
    ultimately have "running k \<noteq> p" "p \<notin> set (ready_list k)" by auto
    with that have "lies k p m" by (simp add: lies_def)
    from intr_tick_lies [OF k'(1) this that(3)] show ?thesis by (auto simp: lies_def)
  qed
  ultimately show ?thesis using k' by blast
qed

theorem timer_tick_returns_witness:
  "\<exists>k'. intr_handler timer_interrupt sample_kernel = Some k' \<and> timer k' = 1 \<and> sleeping k' 20480 1"
proof -
  have "\<forall>p\<in>set (all_list sample_kernel). is_thread sample_kernel p" "\<not> in_intr sample_kernel" "timer sample_kernel = 0"
    by (simp_all add: sample_kernel_defs)
  moreover have "undisturbed sample_kernel 20480" "sleeping sample_kernel 20480 2"
    by (auto simp: undisturbed_def sleeping_def sample_kernel_defs split: if_splits)
  ultimately show ?thesis
    using timer_tick_returns [OF sample_kernel_well_formed sample_kernel_mode] by fastforce
qed

text \<open>
  The feedback-queue priority is always a legal one, and for a realistic amount of processor time
  more of it never raises the priority.
\<close>

theorem mlfqs_priority_bounds:
  "PRI_MIN \<le> mlfqs_priority rcpu nc \<and> mlfqs_priority rcpu nc \<le> PRI_MAX \<and>
   (\<forall>a b. 0 \<le> a \<and> a \<le> b \<and> b < 2 ^ 28 \<and> -20 \<le> nc \<and> nc \<le> 20 \<longrightarrow> mlfqs_priority b nc \<le> mlfqs_priority a nc)"
  using mlfqs_priority_range [of rcpu nc] mlfqs_priority_mono [of _ _ nc] by auto

theorem mlfqs_priority_bounds_witness:
  "mlfqs_priority 1000 0 \<le> mlfqs_priority 0 0 \<and> mlfqs_priority (-7) 3 \<le> PRI_MAX"
  using mlfqs_priority_bounds [of 0 0] mlfqs_priority_bounds [of "-7" 3] by auto

text \<open>
  \<^verbatim>\<open>sema_up\<close>, documented as callable from an interrupt handler, halts the kernel there in every
  state, because it ends with \<^verbatim>\<open>thread_yield\<close>.
\<close>

theorem sema_up_halts_in_interrupt:
  assumes "in_intr k"
  shows "sema_up k s = None"
proof -
  have y: "thread_yield k' = None" if "in_intr k'" for k'
    using that by (cases "thread_current k'") (auto simp: thread_yield_def)
  have u: "in_intr k1" if "thread_unblock k0 p = Some k1" "in_intr k0" for k0 k1 p
    using that by (auto simp: thread_unblock_def Let_def monad_simps)
  let ?k = "k\<lparr>intr_on := False\<rparr>"
  let ?woken = "case sort_threads ?k (waiters (semas ?k s)) of [] \<Rightarrow> Some ?k
    | p # ps \<Rightarrow> thread_unblock (upd_sema ?k s (\<lambda>sm. sm\<lparr>waiters := ps\<rparr>)) p"
  have "in_intr k1" if "?woken = Some k1" for k1
  proof (cases "sort_threads ?k (waiters (semas ?k s))")
    case Nil
    with that have "k1 = ?k" by simp
    then show ?thesis using assms by simp
  next
    case (Cons p ps)
    with that have "thread_unblock (upd_sema ?k s (\<lambda>sm. sm\<lparr>waiters := ps\<rparr>)) p = Some k1" by simp
    then show ?thesis by (rule u) (simp add: assms)
  qed
  then show ?thesis
    unfolding sema_up_def Let_def by (cases ?woken) (auto intro!: y)
qed

theorem sema_up_halts_in_interrupt_witness:
  "sema_up (sample_kernel\<lparr>in_intr := True\<rparr>) 1004 = None"
  using sema_up_halts_in_interrupt [of "sample_kernel\<lparr>in_intr := True\<rparr>" 1004] by simp

text \<open>
  A lock that was taken with \<^verbatim>\<open>lock_try_acquire\<close> cannot be released: \<^verbatim>\<open>lock_release\<close> removes it from a
  list of held locks in which it was never entered, and the kernel halts.
\<close>

theorem try_acquired_lock_not_releasable:
  assumes "lock_try_acquire k l = Some (True, k1)" "\<not> thread_mlfqs k" "threads k (running k) = Some t" "l \<notin> set (holding_locks t)"
  shows "lock_release k1 l = None"
proof -
  have k1: "threads k1 = threads k" "running k1 = running k" "thread_mlfqs k1 = thread_mlfqs k"
    using assms(1) by (auto simp: lock_try_acquire_def sema_try_down_def monad_simps split: if_splits)
  have "thread_remove_lock (upd_lock k1 l f) l = None" for f
  proof (cases "thread_current ((upd_lock k1 l f)\<lparr>intr_on := False\<rparr>)")
    case (Some cur)
    then have "cur = running k" using k1 by (simp add: thread_current_Some)
    with Some assms(3,4) k1 show ?thesis by (simp add: thread_remove_lock_def Let_def)
  qed (simp add: thread_remove_lock_def Let_def)
  then show ?thesis
    using assms(2) k1(3) by (cases "lock_held_by_current_thread k1 l") (auto simp: lock_release_def bind_eq_None_conv)
qed

theorem try_acquired_lock_not_releasable_witness:
  "\<exists>k1. lock_try_acquire sample_kernel 3000 = Some (True, k1) \<and> lock_release k1 3000 = None"
proof -
  obtain k1 where k1: "lock_try_acquire sample_kernel 3000 = Some (True, k1)"
    by (simp add: lock_try_acquire_def lock_held_by_current_thread_def thread_current_def sema_try_down_def sema_of_def
        upd_sema_def Let_def sample_kernel_defs)
  have "threads sample_kernel (running sample_kernel) = Some (sample_thread THREAD_RUNNING 31 31 [] 0 0)"
    "\<not> thread_mlfqs sample_kernel" by (simp_all add: sample_kernel_def)
  with try_acquired_lock_not_releasable [OF k1] k1 show ?thesis by (simp add: sample_thread_def)
qed

text \<open>
  \<^verbatim>\<open>cond_signal\<close> halts the kernel when two threads wait on the condition and one of them has released
  the lock but not yet gone to sleep: the comparison function takes the first waiter of an empty list.
\<close>

theorem cond_signal_before_sleep_halts:
  assumes "2 \<le> length (conds k c)" "w \<in> set (conds k c)" "waiters (semas k w) = []"
  shows "cond_signal k c l = None"
proof -
  have "waiter_pri k w = None" using assms(3) by (simp add: waiter_pri_def)
  then have "sort_waiters k (conds k c) = None" using assms(1,2) by (auto simp: sort_waiters_def)
  moreover have "conds k c \<noteq> []" using assms(1) by auto
  ultimately show ?thesis
    by (cases "lock_held_by_current_thread k l") (auto simp: cond_signal_def bind_eq_None_conv)
qed

theorem cond_signal_before_sleep_halts_witness:
  "cond_signal (sample_kernel\<lparr>conds := (\<lambda>_. [])(5000 := [1004, 6000])\<rparr>) 5000 2000 = None"
  using cond_signal_before_sleep_halts [of "sample_kernel\<lparr>conds := (\<lambda>_. [])(5000 := [1004, 6000])\<rparr>" 5000 6000 2000]
  by (simp add: sample_kernel_def)

text \<open>
  \<^verbatim>\<open>FP_ROUND\<close> rounds every value that is not negative to the nearest integer, but takes every negative
  integer to the integer below it.
\<close>

theorem FP_ROUND_rounds:
  "(0 \<le> a \<and> a < 2 ^ 31 - 2 ^ 15 \<longrightarrow> \<bar>2 ^ 16 * FP_ROUND a - a\<bar> \<le> 2 ^ 15) \<and>
   (- (2 ^ 15) < n \<and> n < 0 \<longrightarrow> FP_ROUND (FP_CONST n) = n - 1)"
  using FP_ROUND_nearest [of a] FP_ROUND_negative_integer [of n] by blast

theorem FP_ROUND_rounds_witness:
  "\<bar>2 ^ 16 * FP_ROUND 100000 - 100000\<bar> \<le> 2 ^ 15 \<and> FP_ROUND (FP_CONST (-3)) = -4"
  using FP_ROUND_rounds [of 100000 "-3"] by simp

end
