(* ===== verification/Machine_Memory.thy ===== *)
theory Machine_Memory
  imports Fs_Layout
begin

text \<open>
  Memory as the kernel addresses it, and the address arithmetic of \<^verbatim>\<open>threads/vaddr.h\<close> and
  \<^verbatim>\<open>threads/pte.h\<close>.  An address is a number below \<open>2 ^ 32\<close>; entries of page tables are 32-bit words.
\<close>

unbundle bit_operations_syntax

section \<open>Bytes and words\<close>

type_synonym memory = "addr \<Rightarrow> byte"

definition load_bytes :: "memory \<Rightarrow> addr \<Rightarrow> nat \<Rightarrow> byte list" where
  "load_bytes m a n = map (\<lambda>i. m (a + i)) [0..<n]"

definition store_bytes :: "memory \<Rightarrow> addr \<Rightarrow> byte list \<Rightarrow> memory" where
  "store_bytes m a bs = (\<lambda>x. if a \<le> x \<and> x < a + length bs then bs ! (x - a) else m x)"

definition load32 :: "memory \<Rightarrow> addr \<Rightarrow> u32" where
  "load32 m a = of_nat (un_le32 (load_bytes m a 4))"

definition store32 :: "memory \<Rightarrow> addr \<Rightarrow> u32 \<Rightarrow> memory" where
  "store32 m a w = store_bytes m a (le32 (unat w))"

text \<open>\<open>apart_from a n b k\<close>: the \<open>n\<close> bytes at \<open>a\<close> and the \<open>k\<close> bytes at \<open>b\<close> do not overlap.\<close>

definition apart_from :: "addr \<Rightarrow> nat \<Rightarrow> addr \<Rightarrow> nat \<Rightarrow> bool" where
  "apart_from a n b k \<longleftrightarrow> a + n \<le> b \<or> b + k \<le> a"

lemma length_load_bytes [simp]: "length (load_bytes m a n) = n"
  by (simp add: load_bytes_def)

lemma nth_load_bytes [simp]: "i < n \<Longrightarrow> load_bytes m a n ! i = m (a + i)"
  by (simp add: load_bytes_def)

lemma load_store_bytes: "load_bytes (store_bytes m a bs) a (length bs) = bs"
  by (rule nth_equalityI) (auto simp: store_bytes_def)

lemma load_store_bytes_other:
  "apart_from a n b (length bs) \<Longrightarrow> load_bytes (store_bytes m b bs) a n = load_bytes m a n"
  by (rule nth_equalityI) (auto simp: store_bytes_def apart_from_def)

lemma unat_u32_less: "unat (w :: u32) < 2 ^ 32"
  by (rule order_less_le_trans [OF unsigned_less]) simp

lemma load32_store32 [simp]: "load32 (store32 m a w) a = w"
  using load_store_bytes [of m a "le32 (unat w)"] un_le32_le32 [OF unat_u32_less [of w]] by (simp add: load32_def store32_def)

lemma load32_store32_other [simp]: "apart_from a 4 b 4 \<Longrightarrow> load32 (store32 m b w) a = load32 m a"
  by (simp add: load32_def store32_def load_store_bytes_other)

lemma load32_store_bytes_other: "apart_from a 4 b (length bs) \<Longrightarrow> load32 (store_bytes m b bs) a = load32 m a"
  by (simp add: load32_def load_store_bytes_other)

lemma store_bytes_outside: "x < a \<or> a + length bs \<le> x \<Longrightarrow> store_bytes m a bs x = m x"
  by (auto simp: store_bytes_def)

lemma load32_cong: "(\<And>x. a \<le> x \<Longrightarrow> x < a + 4 \<Longrightarrow> m' x = m x) \<Longrightarrow> load32 m' a = load32 m a"
proof -
  assume "\<And>x. a \<le> x \<Longrightarrow> x < a + 4 \<Longrightarrow> m' x = m x"
  then have "load_bytes m' a 4 = load_bytes m a 4" by (intro nth_equalityI) simp_all
  then show "load32 m' a = load32 m a" by (simp add: load32_def)
qed

lemma store32_outside: "x < a \<or> a + 4 \<le> x \<Longrightarrow> store32 m a w x = m x"
  by (simp add: store32_def store_bytes_outside)

section \<open>Virtual addresses (vaddr.h)\<close>

definition PGBITS :: nat where "PGBITS = 12"

definition PGSIZE :: nat where "PGSIZE = 2 ^ PGBITS"

definition PGMASK :: nat where "PGMASK = (2 ^ PGBITS - 1) * 2 ^ 0"

definition PHYS_BASE :: addr where "PHYS_BASE = 0xc0000000"

definition PTR_BOTTOM :: addr where "PTR_BOTTOM = 0x08048000"

definition pg_ofs :: "addr \<Rightarrow> nat" where
  "pg_ofs va = va AND PGMASK"

definition pg_no :: "addr \<Rightarrow> nat" where
  "pg_no va = drop_bit PGBITS va"

definition is_user_vaddr :: "addr \<Rightarrow> bool" where
  "is_user_vaddr va \<longleftrightarrow> va < PHYS_BASE"

definition is_kernel_vaddr :: "addr \<Rightarrow> bool" where
  "is_kernel_vaddr va \<longleftrightarrow> va \<ge> PHYS_BASE"

definition is_user_vaddr_above :: "addr \<Rightarrow> bool" where
  "is_user_vaddr_above va \<longleftrightarrow> va \<ge> PTR_BOTTOM"

definition ptov :: "nat \<Rightarrow> addr option" where
  "ptov paddr = do { ASSERT (paddr < PHYS_BASE); Some ((paddr + PHYS_BASE) mod 2 ^ 32) }"

definition vtop :: "addr \<Rightarrow> nat option" where
  "vtop va = do { ASSERT (is_kernel_vaddr va); Some (va - PHYS_BASE) }"

lemmas page_consts = PGBITS_def PGSIZE_def PGMASK_def PHYS_BASE_def

lemma PGSIZE_eq [simp]: "PGSIZE = 4096"
  by (simp add: page_consts)

lemma PHYS_BASE_eq [simp]: "PHYS_BASE = 3221225472"
  by (simp add: page_consts)

lemma pg_ofs_eq: "pg_ofs va = va mod 4096"
proof -
  have m: "PGMASK = mask 12" by (simp add: page_consts mask_eq_exp_minus_1)
  show ?thesis unfolding pg_ofs_def m take_bit_eq_mask [symmetric] take_bit_eq_mod by simp
qed

lemma pg_no_eq: "pg_no va = va div 4096"
  by (simp add: pg_no_def page_consts drop_bit_eq_div)

section \<open>Page table entries (pte.h)\<close>

definition PTBITS :: nat where "PTBITS = 10"

definition PDSHIFT :: nat where "PDSHIFT = PGBITS + PTBITS"

definition PTMASK :: nat where "PTMASK = (2 ^ PTBITS - 1) * 2 ^ PGBITS"

definition pt_no :: "addr \<Rightarrow> nat" where
  "pt_no va = drop_bit PGBITS (va AND PTMASK)"

definition pd_no :: "addr \<Rightarrow> nat" where
  "pd_no va = drop_bit PDSHIFT va"

definition PTE_ADDR :: u32 where "PTE_ADDR = 0xfffff000"
definition PTE_P :: u32 where "PTE_P = 0x1"
definition PTE_W :: u32 where "PTE_W = 0x2"
definition PTE_U :: u32 where "PTE_U = 0x4"
definition PTE_A :: u32 where "PTE_A = 0x20"
definition PTE_D :: u32 where "PTE_D = 0x40"

definition pde_create :: "addr \<Rightarrow> u32 option" where
  "pde_create pt = do {
     ASSERT (pg_ofs pt = 0);
     p \<leftarrow> vtop pt;
     Some (of_nat p OR PTE_U OR PTE_P OR PTE_W)
   }"

definition pde_get_pt :: "u32 \<Rightarrow> addr option" where
  "pde_get_pt pde = do { ASSERT (pde AND PTE_P \<noteq> 0); ptov (unat (pde AND PTE_ADDR)) }"

definition pte_create_kernel :: "addr \<Rightarrow> bool \<Rightarrow> u32 option" where
  "pte_create_kernel page writable = do {
     ASSERT (pg_ofs page = 0);
     p \<leftarrow> vtop page;
     Some (of_nat p OR PTE_P OR (if writable then PTE_W else 0))
   }"

definition pte_create_user :: "addr \<Rightarrow> bool \<Rightarrow> u32 option" where
  "pte_create_user page writable = do { e \<leftarrow> pte_create_kernel page writable; Some (e OR PTE_U) }"

definition pte_get_page :: "u32 \<Rightarrow> addr option" where
  "pte_get_page pte = ptov (unat (pte AND PTE_ADDR))"

lemma pt_no_eq: "pt_no va = va div 4096 mod 1024"
proof -
  have m: "PTMASK = push_bit 12 (mask 10)" by (simp add: PTMASK_def PTBITS_def PGBITS_def mask_eq_exp_minus_1 push_bit_eq_mult)
  have "pt_no va = take_bit 10 (drop_bit 12 va)"
    unfolding pt_no_def m PGBITS_def by (rule bit_eqI) (auto simp: bit_simps)
  then show ?thesis by (simp add: take_bit_eq_mod drop_bit_eq_div)
qed

lemma pd_no_eq: "pd_no va = va div 2 ^ 22"
  by (simp add: pd_no_def PDSHIFT_def PTBITS_def PGBITS_def drop_bit_eq_div)

text \<open>Address and flags of an entry do not mix.\<close>

lemma PTE_ADDR_mask: "PTE_ADDR = NOT (mask 12)"
  by (simp add: PTE_ADDR_def mask_eq_exp_minus_1 not_eq_complement)

lemma entry_bits:
  assumes "take_bit 12 (a :: u32) = 0" "take_bit 12 w = w"
  shows "(a OR w) AND PTE_ADDR = a" "take_bit 12 (a OR w) = w"
proof -
  have a: "\<not> bit a i" if "i < 12" for i using assms(1) that by (metis bit_0_eq bit_take_bit_iff bot_apply bot_bool_def)
  have w: "\<not> bit w i" if "\<not> i < 12" for i using assms(2) that by (metis bit_take_bit_iff)
  have a': "12 \<le> i" if "bit a i" for i using a that by (meson not_less)
  show "(a OR w) AND PTE_ADDR = a"
    unfolding PTE_ADDR_mask using a w by (intro bit_eqI) (auto simp: bit_simps dest: a')
  show "take_bit 12 (a OR w) = w"
    using a w by (intro bit_eqI) (auto simp: bit_simps)
qed

lemma page_entry:
  assumes "p < 2 ^ 32" "p mod 4096 = 0" "take_bit 12 w = w"
  shows "unat ((of_nat p OR w) AND PTE_ADDR) = p" "take_bit 12 (of_nat p OR w) = (w :: u32)"
proof -
  have "take_bit 12 (of_nat p :: u32) = of_nat (take_bit 12 p)" by (simp add: take_bit_of_nat)
  also have "\<dots> = 0" using assms(2) by (simp add: take_bit_eq_mod)
  finally have z: "take_bit 12 (of_nat p :: u32) = 0" .
  show "unat ((of_nat p OR w) AND PTE_ADDR) = p"
    unfolding entry_bits(1) [OF z assms(3)] using assms(1) by (simp add: unat_of_nat)
  show "take_bit 12 (of_nat p OR w) = (w :: u32)" by (rule entry_bits(2) [OF z assms(3)])
qed

text \<open>A flag is read from the low bits.\<close>

lemma flag_take_bit:
  assumes "take_bit 12 f = f"
  shows "e AND f = take_bit 12 (e :: u32) AND f"
proof -
  have "take_bit 12 e AND take_bit 12 f = take_bit 12 (e AND f)" by simp
  also have "\<dots> = e AND take_bit 12 f" by (rule bit_eqI) (auto simp: bit_simps)
  finally show ?thesis using assms by simp
qed

end
