(* ===== verification/String_Lib.thy ===== *)
theory String_Lib
  imports Machine_Memory
begin

text \<open>
  The functions of \<^verbatim>\<open>lib/string.c\<close> on a byte-addressed memory.  The relation \<open>cstring m a bs\<close> says that
  the null-terminated string at \<open>a\<close> has the characters \<open>bs\<close>; the lemmas show what each function computes
  on strings.  A search that meets no null byte runs on until it leaves memory: its result is \<open>None\<close>.
\<close>

section \<open>Copying and comparing blocks\<close>

text \<open>Reading through a pointer; the null page is not mapped.\<close>

definition deref :: "memory \<Rightarrow> addr \<Rightarrow> byte option" where
  "deref m a = (if a = NULL then None else Some (m a))"

fun copy_up :: "memory \<Rightarrow> addr \<Rightarrow> addr \<Rightarrow> nat \<Rightarrow> memory" where
  "copy_up m dst src 0 = m"
| "copy_up m dst src (Suc n) = copy_up (m(dst := m src)) (dst + 1) (src + 1) n"

fun copy_down :: "memory \<Rightarrow> addr \<Rightarrow> addr \<Rightarrow> nat \<Rightarrow> memory" where
  "copy_down m dst src 0 = m"
| "copy_down m dst src (Suc n) = copy_down (m(dst - 1 := m (src - 1))) (dst - 1) (src - 1) n"

definition memcpy :: "memory \<Rightarrow> addr \<Rightarrow> addr \<Rightarrow> nat \<Rightarrow> (addr \<times> memory) option" where
  "memcpy m dst src sz = do {
     ASSERT (dst \<noteq> NULL \<or> sz = 0);
     ASSERT (src \<noteq> NULL \<or> sz = 0);
     Some (dst, copy_up m dst src sz)
   }"

definition memmove :: "memory \<Rightarrow> addr \<Rightarrow> addr \<Rightarrow> nat \<Rightarrow> (addr \<times> memory) option" where
  "memmove m dst src sz = do {
     ASSERT (dst \<noteq> NULL \<or> sz = 0);
     ASSERT (src \<noteq> NULL \<or> sz = 0);
     if dst < src then Some (dst + sz, copy_up m dst src sz)
     else Some (dst, copy_down m (dst + sz) (src + sz) sz)
   }"

fun memcmp_loop :: "memory \<Rightarrow> addr \<Rightarrow> addr \<Rightarrow> nat \<Rightarrow> int" where
  "memcmp_loop m a b 0 = 0"
| "memcmp_loop m a b (Suc n) =
     (if m a \<noteq> m b then (if m a > m b then 1 else - 1) else memcmp_loop m (a + 1) (b + 1) n)"

definition memcmp :: "memory \<Rightarrow> addr \<Rightarrow> addr \<Rightarrow> nat \<Rightarrow> int option" where
  "memcmp m a b sz = do {
     ASSERT (a \<noteq> NULL \<or> sz = 0);
     ASSERT (b \<noteq> NULL \<or> sz = 0);
     Some (memcmp_loop m a b sz)
   }"

partial_function (option) strcmp_loop :: "memory \<Rightarrow> addr \<Rightarrow> addr \<Rightarrow> int option" where
  "strcmp_loop m a b =
     (if m a \<noteq> 0 \<and> m a = m b then strcmp_loop m (a + 1) (b + 1)
      else Some (if m a < m b then - 1 else if m a > m b then 1 else 0))"

definition strcmp :: "memory \<Rightarrow> addr \<Rightarrow> addr \<Rightarrow> int option" where
  "strcmp m a b = do { ASSERT (a \<noteq> NULL); ASSERT (b \<noteq> NULL); strcmp_loop m a b }"

fun memchr_loop :: "memory \<Rightarrow> addr \<Rightarrow> byte \<Rightarrow> nat \<Rightarrow> addr" where
  "memchr_loop m block ch 0 = NULL"
| "memchr_loop m block ch (Suc n) = (if m block = ch then block else memchr_loop m (block + 1) ch n)"

definition memchr :: "memory \<Rightarrow> addr \<Rightarrow> byte \<Rightarrow> nat \<Rightarrow> addr option" where
  "memchr m block ch sz = do { ASSERT (block \<noteq> NULL \<or> sz = 0); Some (memchr_loop m block ch sz) }"

section \<open>Searching strings\<close>

partial_function (option) strchr_loop :: "memory \<Rightarrow> addr \<Rightarrow> byte \<Rightarrow> addr option" where
  "strchr_loop m s c =
     (if m s = c then Some s else if m s = 0 then Some NULL else strchr_loop m (s + 1) c)"

definition strchr :: "memory \<Rightarrow> addr \<Rightarrow> byte \<Rightarrow> addr option" where
  "strchr m s c = do { ASSERT (s \<noteq> NULL); strchr_loop m s c }"

partial_function (option) strcspn_loop :: "memory \<Rightarrow> addr \<Rightarrow> addr \<Rightarrow> nat \<Rightarrow> nat option" where
  "strcspn_loop m s stop n =
     (if m (s + n) = 0 then Some n
      else do { p \<leftarrow> strchr m stop (m (s + n)); if p \<noteq> NULL then Some n else strcspn_loop m s stop (n + 1) })"

definition strcspn :: "memory \<Rightarrow> addr \<Rightarrow> addr \<Rightarrow> nat option" where
  "strcspn m s stop = do { _ \<leftarrow> deref m s; strcspn_loop m s stop 0 }"

partial_function (option) strpbrk_loop :: "memory \<Rightarrow> addr \<Rightarrow> addr \<Rightarrow> addr option" where
  "strpbrk_loop m s stop =
     (if m s = 0 then Some NULL
      else do { p \<leftarrow> strchr m stop (m s); if p \<noteq> NULL then Some s else strpbrk_loop m (s + 1) stop })"

definition strpbrk :: "memory \<Rightarrow> addr \<Rightarrow> addr \<Rightarrow> addr option" where
  "strpbrk m s stop = do { _ \<leftarrow> deref m s; strpbrk_loop m s stop }"

partial_function (option) strrchr_loop :: "memory \<Rightarrow> addr \<Rightarrow> byte \<Rightarrow> addr \<Rightarrow> addr option" where
  "strrchr_loop m s c p =
     (if m s = 0 then Some p else strrchr_loop m (s + 1) c (if m s = c then s else p))"

definition strrchr :: "memory \<Rightarrow> addr \<Rightarrow> byte \<Rightarrow> addr option" where
  "strrchr m s c = do { _ \<leftarrow> deref m s; strrchr_loop m s c NULL }"

partial_function (option) strspn_loop :: "memory \<Rightarrow> addr \<Rightarrow> addr \<Rightarrow> nat \<Rightarrow> nat option" where
  "strspn_loop m s skip n =
     (if m (s + n) = 0 then Some n
      else do { p \<leftarrow> strchr m skip (m (s + n)); if p = NULL then Some n else strspn_loop m s skip (n + 1) })"

definition strspn :: "memory \<Rightarrow> addr \<Rightarrow> addr \<Rightarrow> nat option" where
  "strspn m s skip = do { _ \<leftarrow> deref m s; strspn_loop m s skip 0 }"

partial_function (option) strlen_loop :: "memory \<Rightarrow> addr \<Rightarrow> addr option" where
  "strlen_loop m p = (if m p \<noteq> 0 then strlen_loop m (p + 1) else Some p)"

definition strlen :: "memory \<Rightarrow> addr \<Rightarrow> nat option" where
  "strlen m s = do { ASSERT (s \<noteq> NULL); p \<leftarrow> strlen_loop m s; Some (p - s) }"

function strnlen_loop :: "memory \<Rightarrow> addr \<Rightarrow> nat \<Rightarrow> nat \<Rightarrow> nat" where
  "strnlen_loop m s maxlen n =
     (if m (s + n) \<noteq> 0 \<and> n < maxlen then strnlen_loop m s maxlen (n + 1) else n)"
  by auto
termination by (relation "measure (\<lambda>(m, s, k, n). k - n)") auto

declare strnlen_loop.simps [simp del]

definition strnlen :: "memory \<Rightarrow> addr \<Rightarrow> nat \<Rightarrow> nat option" where
  "strnlen m s maxlen = do { _ \<leftarrow> deref m s; Some (strnlen_loop m s maxlen 0) }"

text \<open>\<^verbatim>\<open>strstr\<close> tries the offsets \<open>i\<close>, \<open>i + 1\<close>, \<dots> as long as \<open>k\<close> more remain.\<close>

fun strstr_loop :: "memory \<Rightarrow> addr \<Rightarrow> addr \<Rightarrow> nat \<Rightarrow> nat \<Rightarrow> nat \<Rightarrow> addr option" where
  "strstr_loop m haystack needle n i 0 = Some NULL"
| "strstr_loop m haystack needle n i (Suc k) = do {
     c \<leftarrow> memcmp m (haystack + i) needle n;
     if c = 0 then Some (haystack + i) else strstr_loop m haystack needle n (i + 1) k
   }"

definition strstr :: "memory \<Rightarrow> addr \<Rightarrow> addr \<Rightarrow> addr option" where
  "strstr m haystack needle = do {
     haystack_len \<leftarrow> strlen m haystack;
     needle_len \<leftarrow> strlen m needle;
     if haystack_len \<ge> needle_len
     then strstr_loop m haystack needle needle_len 0 (haystack_len - needle_len + 1)
     else Some NULL
   }"

section \<open>Tokens\<close>

text \<open>
  The two loops of \<^verbatim>\<open>strtok_r\<close>; the first one returns \<open>Inl s\<close> when the string ends before a token.  The
  variable that \<^verbatim>\<open>save_ptr\<close> points to is passed and returned by value.
\<close>

partial_function (option) skip_delimiters :: "memory \<Rightarrow> addr \<Rightarrow> addr \<Rightarrow> (addr + addr) option" where
  "skip_delimiters m d s = do {
     p \<leftarrow> strchr m d (m s);
     if p \<noteq> NULL then (if m s = 0 then Some (Inl s) else skip_delimiters m d (s + 1)) else Some (Inr s)
   }"

partial_function (option) skip_token :: "memory \<Rightarrow> addr \<Rightarrow> addr \<Rightarrow> addr option" where
  "skip_token m d s = do { p \<leftarrow> strchr m d (m s); if p = NULL then skip_token m d (s + 1) else Some s }"

definition strtok_r :: "memory \<Rightarrow> addr \<Rightarrow> addr \<Rightarrow> addr \<Rightarrow> (addr \<times> addr \<times> memory) option" where
  "strtok_r m s d save = do {
     ASSERT (d \<noteq> NULL);
     let s = (if s = NULL then save else s);
     ASSERT (s \<noteq> NULL);
     r \<leftarrow> skip_delimiters m d s;
     case r of
       Inl e \<Rightarrow> Some (NULL, e, m)
     | Inr token \<Rightarrow> do {
         s \<leftarrow> skip_token m d token;
         if m s \<noteq> 0 then Some (token, s + 1, m(s := 0)) else Some (token, s, m)
       }
   }"

section \<open>Writing\<close>

fun memset_loop :: "memory \<Rightarrow> addr \<Rightarrow> byte \<Rightarrow> nat \<Rightarrow> memory" where
  "memset_loop m dst v 0 = m"
| "memset_loop m dst v (Suc n) = memset_loop (m(dst := v)) (dst + 1) v n"

definition memset :: "memory \<Rightarrow> addr \<Rightarrow> byte \<Rightarrow> nat \<Rightarrow> (addr \<times> memory) option" where
  "memset m dst v sz = do { ASSERT (dst \<noteq> NULL \<or> sz = 0); Some (dst, memset_loop m dst v sz) }"

definition strlcpy :: "memory \<Rightarrow> addr \<Rightarrow> addr \<Rightarrow> nat \<Rightarrow> (nat \<times> memory) option" where
  "strlcpy m dst src sz = do {
     ASSERT (dst \<noteq> NULL);
     ASSERT (src \<noteq> NULL);
     src_len \<leftarrow> strlen m src;
     if sz > 0 then do {
       let dst_len = (if src_len < sz - 1 then src_len else sz - 1);
       (_, m) \<leftarrow> memcpy m dst src dst_len;
       Some (src_len, m(dst + dst_len := 0))
     } else Some (src_len, m)
   }"

definition strlcat :: "memory \<Rightarrow> addr \<Rightarrow> addr \<Rightarrow> nat \<Rightarrow> (nat \<times> memory) option" where
  "strlcat m dst src sz = do {
     ASSERT (dst \<noteq> NULL);
     ASSERT (src \<noteq> NULL);
     src_len \<leftarrow> strlen m src;
     dst_len \<leftarrow> strlen m dst;
     if sz > 0 \<and> dst_len < sz then do {
       let copy_cnt = (if src_len < sz - dst_len - 1 then src_len else sz - dst_len - 1);
       (_, m) \<leftarrow> memcpy m (dst + dst_len) src copy_cnt;
       Some (src_len + dst_len, m(dst + dst_len + copy_cnt := 0))
     } else Some (src_len + dst_len, m)
   }"

section \<open>Blocks of memory after the copying loops\<close>

lemma load_bytes_Suc: "load_bytes m a (Suc n) = m a # load_bytes m (Suc a) n"
  by (rule nth_equalityI) (auto simp: nth_Cons')

lemma store_bytes_Cons: "store_bytes m a (b # bs) = store_bytes (m(a := b)) (Suc a) bs"
  by (auto simp: store_bytes_def fun_eq_iff nth_Cons')

text \<open>Overlapping blocks are copied correctly upwards when the target lies below the source, downwards when above.\<close>

lemma copy_up_eq:
  "dst \<le> src \<or> apart_from dst n src n \<Longrightarrow> copy_up m dst src n = store_bytes m dst (load_bytes m src n)"
proof (induction n arbitrary: m dst src)
  case 0
  show ?case by (auto simp: store_bytes_def fun_eq_iff)
next
  case (Suc n)
  have "dst + 1 \<le> src + 1 \<or> apart_from (dst + 1) n (src + 1) n" using Suc.prems by (auto simp: apart_from_def)
  from Suc.IH [OF this, of "m(dst := m src)"]
  have "copy_up m dst src (Suc n) = store_bytes (m(dst := m src)) (dst + 1) (load_bytes (m(dst := m src)) (src + 1) n)"
    by (simp del: fun_upd_apply)
  also have "load_bytes (m(dst := m src)) (src + 1) n = load_bytes m (src + 1) n"
    using Suc.prems by (auto simp: load_bytes_def apart_from_def)
  finally show ?case by (simp add: load_bytes_Suc store_bytes_Cons del: fun_upd_apply)
qed

lemma copy_down_eq:
  "src \<le> dst \<Longrightarrow> copy_down m (dst + n) (src + n) n = store_bytes m dst (load_bytes m src n)"
proof (induction n arbitrary: m)
  case 0
  show ?case by (auto simp: store_bytes_def fun_eq_iff)
next
  case (Suc n)
  then have "copy_down m (dst + Suc n) (src + Suc n) (Suc n) =
      store_bytes (m(dst + n := m (src + n))) dst (load_bytes (m(dst + n := m (src + n))) src n)"
    by simp
  also have "load_bytes (m(dst + n := m (src + n))) src n = load_bytes m src n"
    using Suc.prems by (auto simp: load_bytes_def)
  finally show ?case by (auto simp: store_bytes_def load_bytes_def fun_eq_iff less_Suc_eq nth_append)
qed

lemma memset_loop_eq: "memset_loop m dst v n = store_bytes m dst (replicate n v)"
  by (induction n arbitrary: m dst) (auto simp: store_bytes_def fun_eq_iff nth_Cons')

lemma memcmp_loop_0_iff: "memcmp_loop m a b n = 0 \<longleftrightarrow> load_bytes m a n = load_bytes m b n"
proof (induction n arbitrary: a b)
  case (Suc n)
  then show ?case by (auto simp: load_bytes_Suc)
qed (simp add: load_bytes_def)

section \<open>Null-terminated strings\<close>

definition cstring :: "memory \<Rightarrow> addr \<Rightarrow> byte list \<Rightarrow> bool" where
  "cstring m a bs \<longleftrightarrow> 0 \<notin> set bs \<and> load_bytes m a (length bs) = bs \<and> m (a + length bs) = 0"

lemma cstring_Nil [simp]: "cstring m a [] \<longleftrightarrow> m a = 0"
  by (simp add: cstring_def load_bytes_def)

lemma cstring_Cons [simp]: "cstring m a (b # bs) \<longleftrightarrow> b \<noteq> 0 \<and> m a = b \<and> cstring m (Suc a) bs"
  by (auto simp: cstring_def load_bytes_Suc)

lemma cstring_nth: "cstring m a bs \<Longrightarrow> i < length bs \<Longrightarrow> m (a + i) = bs ! i"
  by (metis cstring_def nth_load_bytes)

lemma cstring_append: "cstring m a (xs @ ys) \<longleftrightarrow> 0 \<notin> set xs \<and> load_bytes m a (length xs) = xs \<and> cstring m (a + length xs) ys"
  by (induction xs arbitrary: a) (auto simp: load_bytes_Suc, simp add: load_bytes_def)

lemma load_bytes_cong:
  "(\<And>i. i < n \<Longrightarrow> m' (a + i) = m (a + i)) \<Longrightarrow> load_bytes m' a n = load_bytes m a n"
  by (rule nth_equalityI) simp_all

lemma cstring_cong:
  assumes "\<And>i. i \<le> length bs \<Longrightarrow> m' (a + i) = m (a + i)"
  shows "cstring m' a bs \<longleftrightarrow> cstring m a bs"
  using load_bytes_cong [of "length bs" m' a m] assms by (simp add: cstring_def)

lemma cstring_unique: "cstring m a xs \<Longrightarrow> cstring m a ys \<Longrightarrow> xs = ys"
proof (induction xs arbitrary: a ys)
  case Nil
  then show ?case by (cases ys) auto
next
  case (Cons x xs)
  then show ?case by (cases ys) auto
qed

lemma strchr_loop_cstring:
  "cstring m s bs \<Longrightarrow> strchr_loop m s c =
     Some (if c \<in> set bs \<or> c = 0 then s + length (takeWhile (\<lambda>b. b \<noteq> c) bs) else NULL)"
proof (induction bs arbitrary: s)
  case Nil
  then show ?case by (subst strchr_loop.simps) auto
next
  case (Cons b bs)
  then have "strchr_loop m (Suc s) c = Some (if c \<in> set bs \<or> c = 0 then Suc s + length (takeWhile (\<lambda>b. b \<noteq> c) bs) else NULL)"
    by simp
  with Cons.prems show ?case by (subst strchr_loop.simps) auto
qed

lemma strchr_cstring:
  assumes "cstring m s bs" "s \<noteq> NULL"
  shows "strchr m s c = Some (if c \<in> set bs \<or> c = 0 then s + length (takeWhile (\<lambda>b. b \<noteq> c) bs) else NULL)"
  using strchr_loop_cstring [OF assms(1)] assms(2) by (simp add: strchr_def)

lemma strchr_test:
  assumes "cstring m d D" "d \<noteq> NULL"
  obtains p where "strchr m d c = Some p" "p \<noteq> NULL \<longleftrightarrow> c \<in> set D \<or> c = 0"
  using that [OF strchr_cstring [OF assms, of c]] assms(2) by simp

lemma strlen_loop_cstring: "cstring m s bs \<Longrightarrow> strlen_loop m s = Some (s + length bs)"
proof (induction bs arbitrary: s)
  case Nil
  then show ?case by (subst strlen_loop.simps) simp
next
  case (Cons b bs)
  then show ?case by (subst strlen_loop.simps) auto
qed

lemma strlen_cstring: "cstring m s bs \<Longrightarrow> s \<noteq> NULL \<Longrightarrow> strlen m s = Some (length bs)"
  by (simp add: strlen_def strlen_loop_cstring)

lemma strspn_loop_cstring:
  assumes "cstring m d D" "d \<noteq> NULL"
  shows "cstring m (s + n) bs \<Longrightarrow> strspn_loop m s d n = Some (n + length (takeWhile (\<lambda>b. b \<in> set D) bs))"
proof (induction bs arbitrary: n)
  case Nil
  then show ?case by (subst strspn_loop.simps) simp
next
  case (Cons b bs)
  obtain p where "strchr m d b = Some p" "p \<noteq> NULL \<longleftrightarrow> b \<in> set D \<or> b = 0" by (rule strchr_test [OF assms])
  with Cons show ?case by (subst strspn_loop.simps) auto
qed

lemma strcspn_loop_cstring:
  assumes "cstring m d D" "d \<noteq> NULL"
  shows "cstring m (s + n) bs \<Longrightarrow> strcspn_loop m s d n = Some (n + length (takeWhile (\<lambda>b. b \<notin> set D) bs))"
proof (induction bs arbitrary: n)
  case Nil
  then show ?case by (subst strcspn_loop.simps) simp
next
  case (Cons b bs)
  obtain p where "strchr m d b = Some p" "p \<noteq> NULL \<longleftrightarrow> b \<in> set D \<or> b = 0" by (rule strchr_test [OF assms])
  with Cons show ?case by (subst strcspn_loop.simps) auto
qed

lemma strcmp_loop_cstring:
  "cstring m a xs \<Longrightarrow> cstring m b ys \<Longrightarrow> \<exists>c. strcmp_loop m a b = Some c \<and> (c = 0 \<longleftrightarrow> xs = ys)"
proof (induction xs arbitrary: a b ys)
  case Nil
  then show ?case by (subst strcmp_loop.simps; cases ys) (auto simp: word_neq_0_conv)
next
  case (Cons x xs)
  show ?case
  proof (cases ys)
    case Nil
    with Cons.prems show ?thesis by (subst strcmp_loop.simps) (auto simp: word_neq_0_conv)
  next
    case (Cons y zs)
    with Cons.prems Cons.IH [of "Suc a" "Suc b" zs] show ?thesis by (subst strcmp_loop.simps) auto
  qed
qed

lemma strnlen_loop_cstring:
  "cstring m (s + n) bs \<Longrightarrow> n \<le> k \<Longrightarrow> strnlen_loop m s k n = min k (n + length bs)"
proof (induction bs arbitrary: n)
  case Nil
  then show ?case by (subst strnlen_loop.simps) simp
next
  case (Cons b bs)
  then show ?case by (subst strnlen_loop.simps) auto
qed

section \<open>Copying strings\<close>

lemma apart_from_sub:
  "apart_from a n b k \<Longrightarrow> n' \<le> n \<Longrightarrow> k' \<le> k \<Longrightarrow> apart_from a n' b k'"
  by (auto simp: apart_from_def)

lemma load_bytes_take: "n \<le> k \<Longrightarrow> load_bytes m a n = take n (load_bytes m a k)"
  by (rule nth_equalityI) auto

lemma cstring_take: "cstring m a bs \<Longrightarrow> n \<le> length bs \<Longrightarrow> load_bytes m a n = take n bs"
  by (metis cstring_def load_bytes_take)

text \<open>Storing a string and its terminator.\<close>

lemma cstring_store:
  assumes "0 \<notin> set bs"
  shows "cstring ((store_bytes m a bs)(a + length bs := 0)) a bs"
proof -
  have "load_bytes ((store_bytes m a bs)(a + length bs := 0)) a (length bs) = load_bytes (store_bytes m a bs) a (length bs)"
    by (rule load_bytes_cong) simp
  with assms show ?thesis by (simp add: cstring_def load_store_bytes)
qed

lemma strlcpy_cstring:
  assumes "cstring m src bs" "src \<noteq> NULL" "dst \<noteq> NULL" "0 < sz" "apart_from dst sz src (length bs + 1)"
  shows "\<exists>m'. strlcpy m dst src sz = Some (length bs, m') \<and> cstring m' dst (take (sz - 1) bs) \<and>
    (\<forall>x. x < dst \<or> dst + sz \<le> x \<longrightarrow> m' x = m x)"
proof (intro exI conjI)
  define n where "n = min (length bs) (sz - 1)"
  let ?m = "(store_bytes m dst (take (sz - 1) bs))(dst + n := 0)"
  have "apart_from dst n src n" using assms(5) by (rule apart_from_sub) (auto simp: n_def)
  then have "copy_up m dst src n = store_bytes m dst (load_bytes m src n)" by (simp add: copy_up_eq)
  also have "load_bytes m src n = take (sz - 1) bs" by (simp add: cstring_take [OF assms(1)] n_def min_def)
  finally have c: "copy_up m dst src n = store_bytes m dst (take (sz - 1) bs)" .
  have n: "n = (if length bs < sz - 1 then length bs else sz - 1)" by (auto simp: n_def)
  have "strlcpy m dst src sz = Some (length bs, (copy_up m dst src n)(dst + n := 0))"
    unfolding n using assms(2-4) by (simp add: strlcpy_def strlen_cstring [OF assms(1)] memcpy_def Let_def)
  then show "strlcpy m dst src sz = Some (length bs, ?m)" by (simp only: c)
  have "0 \<notin> set (take (sz - 1) bs)" using assms(1) by (auto simp: cstring_def dest: in_set_takeD)
  moreover have "length (take (sz - 1) bs) = n" by (simp add: n_def)
  ultimately show "cstring ?m dst (take (sz - 1) bs)" by (metis cstring_store)
  show "\<forall>x. x < dst \<or> dst + sz \<le> x \<longrightarrow> ?m x = m x"
    using assms(4) by (auto simp: store_bytes_def n_def)
qed

lemma strlcat_cstring:
  assumes "cstring m src bs" "cstring m dst as" "src \<noteq> NULL" "dst \<noteq> NULL" "length as < sz" "apart_from dst sz src (length bs + 1)"
  shows "\<exists>m'. strlcat m dst src sz = Some (length bs + length as, m') \<and> cstring m' dst (take (sz - 1) (as @ bs)) \<and>
    (\<forall>x. x < dst + length as \<or> dst + sz \<le> x \<longrightarrow> m' x = m x)"
proof (intro exI conjI)
  define k where "k = sz - length as - 1"
  define n where "n = min (length bs) k"
  let ?d = "dst + length as"
  let ?m = "(store_bytes m ?d (take k bs))(?d + n := 0)"
  have "apart_from ?d n src n" using assms(5,6) by (auto simp: n_def k_def apart_from_def)
  then have "copy_up m ?d src n = store_bytes m ?d (load_bytes m src n)" by (simp add: copy_up_eq)
  also have "load_bytes m src n = take k bs" by (simp add: cstring_take [OF assms(1)] n_def min_def)
  finally have c: "copy_up m ?d src n = store_bytes m ?d (take k bs)" .
  have n: "n = (if length bs < sz - length as - 1 then length bs else sz - length as - 1)" by (auto simp: n_def k_def)
  have "strlcat m dst src sz = Some (length bs + length as, (copy_up m ?d src n)(?d + n := 0))"
    unfolding n using assms(3-5)
    by (simp add: strlcat_def strlen_cstring [OF assms(1)] strlen_cstring [OF assms(2)] memcpy_def Let_def)
  then show "strlcat m dst src sz = Some (length bs + length as, ?m)" by (simp only: c)
  have "0 \<notin> set (take k bs)" using assms(1) by (auto simp: cstring_def dest: in_set_takeD)
  moreover have l: "length (take k bs) = n" by (simp add: n_def)
  ultimately have "cstring ?m ?d (take k bs)" by (metis cstring_store)
  moreover have "load_bytes ?m dst (length as) = load_bytes m dst (length as)"
    by (rule load_bytes_cong) (auto simp: store_bytes_def)
  moreover have "take (sz - 1) (as @ bs) = as @ take k bs" using assms(5) by (simp add: k_def)
  ultimately show "cstring ?m dst (take (sz - 1) (as @ bs))"
    using assms(2) by (simp add: cstring_append) (simp add: cstring_def)
  show "\<forall>x. x < ?d \<or> dst + sz \<le> x \<longrightarrow> ?m x = m x"
    using assms(5) by (auto simp: store_bytes_def n_def k_def)
qed

section \<open>What the tokenizer returns\<close>

function tokens :: "byte set \<Rightarrow> byte list \<Rightarrow> byte list list" where
  "tokens D [] = []"
| "tokens D (b # bs) =
     (if b \<in> D then tokens D bs else (b # takeWhile (\<lambda>x. x \<notin> D) bs) # tokens D (dropWhile (\<lambda>x. x \<notin> D) bs))"
  by pat_completeness auto
termination by (relation "measure (\<lambda>(D, bs). length bs)") (auto simp: length_dropWhile_le le_imp_less_Suc)

lemma tokens_skip: "tokens D bs = tokens D (dropWhile (\<lambda>b. b \<in> D) bs)"
  by (induction bs) auto

lemma tokens_nonempty: "t \<in> set (tokens D bs) \<Longrightarrow> t \<noteq> [] \<and> set t \<inter> D = {} \<and> set t \<subseteq> set bs"
proof (induction D bs rule: tokens.induct)
  case (2 D b bs)
  then show ?case by (auto dest: set_takeWhileD set_dropWhileD split: if_splits)
qed simp

text \<open>\<^verbatim>\<open>skip_delimiters\<close> stops at the first character outside the delimiters or reports the end.\<close>

lemma skip_delimiters_cstring:
  assumes "cstring m d D" "d \<noteq> NULL"
  shows "cstring m s bs \<Longrightarrow> skip_delimiters m d s = (let n = length (takeWhile (\<lambda>b. b \<in> set D) bs) in
    Some (if n = length bs then Inl (s + n) else Inr (s + n)))"
proof (induction bs arbitrary: s)
  case Nil
  obtain p where "strchr m d 0 = Some p" "p \<noteq> NULL \<longleftrightarrow> 0 \<in> set D \<or> 0 = (0::byte)" by (rule strchr_test [OF assms])
  with Nil show ?case by (subst skip_delimiters.simps) simp
next
  case (Cons b bs)
  obtain p where "strchr m d b = Some p" "p \<noteq> NULL \<longleftrightarrow> b \<in> set D \<or> b = 0" by (rule strchr_test [OF assms])
  with Cons show ?case by (subst skip_delimiters.simps) (auto simp: Let_def)
qed

lemma skip_token_cstring:
  assumes "cstring m d D" "d \<noteq> NULL"
  shows "cstring m s bs \<Longrightarrow> skip_token m d s = Some (s + length (takeWhile (\<lambda>b. b \<notin> set D) bs))"
proof (induction bs arbitrary: s)
  case Nil
  obtain p where "strchr m d 0 = Some p" "p \<noteq> NULL \<longleftrightarrow> 0 \<in> set D \<or> 0 = (0::byte)" by (rule strchr_test [OF assms])
  with Nil show ?case by (subst skip_token.simps) simp
next
  case (Cons b bs)
  obtain p where "strchr m d b = Some p" "p \<noteq> NULL \<longleftrightarrow> b \<in> set D \<or> b = 0" by (rule strchr_test [OF assms])
  with Cons show ?case by (subst skip_token.simps) auto
qed

text \<open>
  One call of \<^verbatim>\<open>strtok_r\<close> on the string \<open>pre @ t @ post\<close>, where \<open>pre\<close> are delimiters and \<open>t\<close> is the token.
\<close>

lemma strtok_r_end:
  assumes "cstring m d D" "d \<noteq> NULL" "cstring m s bs" "s \<noteq> NULL" "(if a = NULL then save else a) = s" "set bs \<subseteq> set D"
  shows "strtok_r m a d save = Some (NULL, s + length bs, m)"
proof -
  have "takeWhile (\<lambda>b. b \<in> set D) bs = bs" using assms(6) by (auto simp: takeWhile_eq_all_conv)
  then have "skip_delimiters m d s = Some (Inl (s + length bs))"
    using skip_delimiters_cstring [OF assms(1,2,3)] by (simp only: Let_def if_True simp_thms)
  then show ?thesis using assms(2,4) by (simp add: strtok_r_def Let_def assms(5))
qed

lemma strtok_r_token:
  assumes d: "cstring m d D" "d \<noteq> NULL" and s: "cstring m s (pre @ t @ post)" "s \<noteq> NULL"
    and a: "(if a = NULL then save else a) = s"
    and split: "set pre \<subseteq> set D" "t \<noteq> []" "set t \<inter> set D = {}" "post = [] \<or> hd post \<in> set D"
  shows "strtok_r m a d save = (let tok = s + length pre; e = tok + length t in
    Some (if post = [] then (tok, e, m) else (tok, e + 1, m(e := 0))))"
proof -
  let ?tok = "s + length pre"
  have "takeWhile (\<lambda>b. b \<in> set D) (pre @ t @ post) = pre"
  proof -
    have "takeWhile (\<lambda>b. b \<in> set D) (t @ post) = []" using split(2,3) by (cases t) auto
    moreover have "takeWhile (\<lambda>b. b \<in> set D) (pre @ t @ post) = pre @ takeWhile (\<lambda>b. b \<in> set D) (t @ post)"
      by (rule takeWhile_append2) (use split(1) in auto)
    ultimately show ?thesis by simp
  qed
  then have 1: "skip_delimiters m d s = Some (Inr ?tok)"
    using split(2) by (simp add: skip_delimiters_cstring [OF d s(1)] Let_def)
  have c: "cstring m ?tok (t @ post)" using s(1) by (simp add: cstring_append [of m s pre])
  have "takeWhile (\<lambda>b. b \<notin> set D) (t @ post) = t"
  proof -
    have "takeWhile (\<lambda>b. b \<notin> set D) post = []" using split(4) by (cases post) auto
    moreover have "takeWhile (\<lambda>b. b \<notin> set D) (t @ post) = t @ takeWhile (\<lambda>b. b \<notin> set D) post"
      by (rule takeWhile_append2) (use split(3) in auto)
    ultimately show ?thesis by simp
  qed
  then have 2: "skip_token m d ?tok = Some (?tok + length t)"
    by (simp add: skip_token_cstring [OF d c])
  have "cstring m (?tok + length t) post" using c by (simp add: cstring_append [of m ?tok t])
  then have 3: "m (?tok + length t) = 0 \<longleftrightarrow> post = []" by (cases post) auto
  show ?thesis using d(2) s(2) by (simp add: strtok_r_def a 1 2 3 Let_def)
qed

lemma tokens_split:
  assumes "tokens D bs = t # ts"
  obtains pre post where "bs = pre @ t @ post" "set pre \<subseteq> D" "t \<noteq> []" "set t \<inter> D = {}" "post = [] \<or> hd post \<in> D"
    "ts = tokens D (tl post)"
proof -
  define pre where "pre = takeWhile (\<lambda>b. b \<in> D) bs"
  obtain b r where r: "dropWhile (\<lambda>b. b \<in> D) bs = b # r"
    using assms tokens_skip [of D bs] by (cases "dropWhile (\<lambda>b. b \<in> D) bs") auto
  define post where "post = dropWhile (\<lambda>x. x \<notin> D) r"
  have b: "b \<notin> D" using r by (auto simp: dropWhile_eq_Cons_conv)
  have tt: "t = b # takeWhile (\<lambda>x. x \<notin> D) r" "ts = tokens D post"
    using assms tokens_skip [of D bs] b by (auto simp: r post_def)
  have "bs = pre @ (b # r)" by (metis pre_def r takeWhile_dropWhile_id)
  then have "bs = pre @ t @ post" by (simp add: tt(1) post_def)
  moreover have p: "post = [] \<or> hd post \<in> D" unfolding post_def by (metis hd_dropWhile)
  moreover have "set t \<inter> D = {}" using b by (auto simp: tt(1) dest: set_takeWhileD)
  moreover have "set pre \<subseteq> D" by (auto simp: pre_def dest: set_takeWhileD)
  moreover have "ts = tokens D (tl post)" using p tt(2) by (cases post) auto
  ultimately show thesis using that tt(1) by blast
qed

lemma tokens_Nil_subset: "tokens D bs = [] \<Longrightarrow> set bs \<subseteq> D"
  by (induction D bs rule: tokens.induct) (auto split: if_splits)

lemma strtok_r_step:
  assumes d: "cstring m d D" "d \<noteq> NULL" and s: "cstring m s bs" "s \<noteq> NULL" and a: "(if a = NULL then save else a) = s"
    and ts: "tokens (set D) bs = t # ts"
  obtains tok save' m' rest where "strtok_r m a d save = Some (tok, save', m')" "cstring m' tok t" "cstring m' save' rest"
    "tokens (set D) rest = ts" "s \<le> tok" "tok + length t \<le> s + length bs" "length rest < length bs" "save' + length rest = s + length bs"
    "tok + length t < save' \<or> rest = []" "\<And>x. x < s \<or> s + length bs \<le> x \<Longrightarrow> m' x = m x"
proof -
  obtain pre post where split: "bs = pre @ t @ post" "set pre \<subseteq> set D" "t \<noteq> []" "set t \<inter> set D = {}"
      "post = [] \<or> hd post \<in> set D" and ts': "ts = tokens (set D) (tl post)"
    using ts by (rule tokens_split)
  define tok where "tok = s + length pre"
  define e where "e = tok + length t"
  have nz: "0 \<notin> set t" using s(1) by (auto simp: split(1) cstring_def)
  have run: "strtok_r m a d save = Some (if post = [] then (tok, e, m) else (tok, e + 1, m(e := 0)))"
    using strtok_r_token [OF d s(1) [unfolded split(1)] s(2) a split(2-5)] by (simp only: tok_def e_def Let_def)
  have c: "load_bytes m tok (length t) = t" "cstring m e post"
    using s(1) by (simp_all add: split(1) cstring_append tok_def e_def)
  show thesis
  proof (cases post)
    case Nil
    then have run': "strtok_r m a d save = Some (tok, e, m)" by (simp add: run)
    show thesis by (rule that [OF run', of "[]"]) (use c nz ts' Nil split in \<open>auto simp: cstring_def tok_def e_def\<close>)
  next
    case (Cons b r)
    then have run': "strtok_r m a d save = Some (tok, e + 1, m(e := 0))" by (simp add: run)
    have "load_bytes (m(e := 0)) tok (length t) = t"
      using c(1) load_bytes_cong [of "length t" "m(e := 0)" tok m] by (auto simp: e_def)
    moreover have "cstring (m(e := 0)) (e + 1) r"
      using c(2) cstring_cong [of r "m(e := 0)" "e + 1" m] by (simp add: Cons)
    ultimately show thesis
      by (intro that [OF run', of r]) (use c nz ts' Cons split in \<open>auto simp: cstring_def tok_def e_def\<close>)
  qed
qed

section \<open>Searching for a string\<close>

definition occurs_at :: "byte list \<Rightarrow> byte list \<Rightarrow> nat \<Rightarrow> bool" where
  "occurs_at ns hs i \<longleftrightarrow> i + length ns \<le> length hs \<and> take (length ns) (drop i hs) = ns"

lemma load_bytes_in_cstring:
  assumes "cstring m a bs" "i + n \<le> length bs"
  shows "load_bytes m (a + i) n = take n (drop i bs)"
  by (rule nth_equalityI) (use assms in \<open>auto simp: cstring_nth [OF assms(1)] add.assoc\<close>)

lemma strstr_loop_cstring:
  assumes h: "cstring m h hs" "h \<noteq> NULL" and n: "cstring m p ns" "p \<noteq> NULL"
  shows "i + k + length ns = length hs + 1 \<Longrightarrow> \<exists>r. strstr_loop m h p (length ns) i k = Some r \<and>
    (if r = NULL then \<forall>j\<ge>i. \<not> occurs_at ns hs j
     else \<exists>j\<ge>i. r = h + j \<and> occurs_at ns hs j \<and> (\<forall>l. i \<le> l \<and> l < j \<longrightarrow> \<not> occurs_at ns hs l))"
proof (induction k arbitrary: i)
  case 0
  then show ?case by (auto simp: occurs_at_def)
next
  case (Suc k)
  have "load_bytes m p (length ns) = ns" using n(1) by (simp add: cstring_def)
  then have test: "memcmp_loop m (h + i) p (length ns) = 0 \<longleftrightarrow> occurs_at ns hs i"
    using Suc.prems load_bytes_in_cstring [OF h(1), of i "length ns"] by (auto simp: memcmp_loop_0_iff occurs_at_def)
  show ?case
  proof (cases "occurs_at ns hs i")
    case True
    with h(2) n(2) test show ?thesis by (auto simp: memcmp_def)
  next
    case False
    then have eq: "strstr_loop m h p (length ns) i (Suc k) = strstr_loop m h p (length ns) (i + 1) k"
      using h(2) n(2) test by (simp add: memcmp_def)
    have *: "(\<forall>j\<ge>i + 1. \<not> occurs_at ns hs j) \<Longrightarrow> \<forall>j\<ge>i. \<not> occurs_at ns hs j"
      and **: "(\<forall>l. i + 1 \<le> l \<and> l < j \<longrightarrow> \<not> occurs_at ns hs l) \<Longrightarrow> \<forall>l. i \<le> l \<and> l < j \<longrightarrow> \<not> occurs_at ns hs l" for j
      using False by (metis Suc_eq_plus1 le_antisym not_less_eq_eq)+
    obtain r where r: "strstr_loop m h p (length ns) (i + 1) k = Some r"
      "if r = NULL then \<forall>j\<ge>i + 1. \<not> occurs_at ns hs j
       else \<exists>j\<ge>i + 1. r = h + j \<and> occurs_at ns hs j \<and> (\<forall>l. i + 1 \<le> l \<and> l < j \<longrightarrow> \<not> occurs_at ns hs l)"
      using Suc.IH [of "i + 1"] Suc.prems by auto
    show ?thesis
    proof (cases "r = NULL")
      case True
      with r(2) * have "\<forall>j\<ge>i. \<not> occurs_at ns hs j" by simp
      with True r(1) show ?thesis unfolding eq by simp
    next
      case False
      with r(2) obtain j where "i + 1 \<le> j" "r = h + j" "occurs_at ns hs j" "\<forall>l. i + 1 \<le> l \<and> l < j \<longrightarrow> \<not> occurs_at ns hs l"
        by auto
      with ** [of j] have "\<exists>j\<ge>i. r = h + j \<and> occurs_at ns hs j \<and> (\<forall>l. i \<le> l \<and> l < j \<longrightarrow> \<not> occurs_at ns hs l)"
        by (intro exI [of _ j]) simp
      with False r(1) show ?thesis unfolding eq by simp
    qed
  qed
qed

lemma strstr_cstring:
  assumes "cstring m h hs" "h \<noteq> NULL" "cstring m p ns" "p \<noteq> NULL"
  shows "\<exists>r. strstr m h p = Some r \<and>
    (if r = NULL then \<forall>j. \<not> occurs_at ns hs j
     else \<exists>j. r = h + j \<and> occurs_at ns hs j \<and> (\<forall>l<j. \<not> occurs_at ns hs l))"
proof (cases "length ns \<le> length hs")
  case True
  then have "strstr m h p = strstr_loop m h p (length ns) 0 (length hs - length ns + 1)"
    by (simp add: strstr_def strlen_cstring [OF assms(1,2)] strlen_cstring [OF assms(3,4)])
  moreover have "0 + (length hs - length ns + 1) + length ns = length hs + 1" using True by simp
  note strstr_loop_cstring [OF assms this]
  ultimately show ?thesis by (simp only: le0 simp_thms)
next
  case False
  then show ?thesis
    by (auto simp: strstr_def strlen_cstring [OF assms(1,2)] strlen_cstring [OF assms(3,4)] occurs_at_def)
qed

end
