(* ===== verification/Palloc.thy ===== *)
theory Palloc
  imports String_Lib
begin

text \<open>
  The page allocator of \<^verbatim>\<open>threads/palloc.c\<close>: two pools of pages, each with a bitmap of the pages in use.
  The lock of a pool makes the search and the marking of pages one step, as they are here; the bitmap of
  a pool is kept beside the memory and not inside it.  The locale \<open>page_allocator\<close> is the contract of the
  allocator, interpreted on the operations as \<open>pal\<close>.
\<close>

section \<open>State and operations\<close>

record pool =
  used_map :: bitmap
  pool_base :: addr

record page_mem =
  kernel_pool :: pool
  user_pool :: pool
  ram :: memory

definition PAL_ASSERT :: u32 where "PAL_ASSERT = 1"
definition PAL_ZERO :: u32 where "PAL_ZERO = 2"
definition PAL_USER :: u32 where "PAL_USER = 4"

text \<open>\<open>junk\<close> is what the memory of the new bitmap holds.\<close>

definition init_pool :: "(nat \<Rightarrow> elem_type) \<Rightarrow> addr \<Rightarrow> nat \<Rightarrow> pool option" where
  "init_pool junk base page_cnt = do {
     let bm_pages = DIV_ROUND_UP (bitmap_buf_size page_cnt) PGSIZE;
     if bm_pages > page_cnt then PANIC else do {
       b \<leftarrow> bitmap_create_in_buf junk (page_cnt - bm_pages) (bm_pages * PGSIZE);
       Some \<lparr>used_map = b, pool_base = (base + bm_pages * PGSIZE) mod 2 ^ 32\<rparr>
     }
   }"

text \<open>The difference of the two pointers is a signed number; both are multiples of the page size.\<close>

definition palloc_init :: "(nat \<Rightarrow> elem_type) \<Rightarrow> memory \<Rightarrow> nat \<Rightarrow> nat \<Rightarrow> page_mem option" where
  "palloc_init junk m init_ram_pages user_page_limit = do {
     free_start \<leftarrow> ptov (1024 * 1024);
     free_end \<leftarrow> ptov (init_ram_pages * PGSIZE mod 2 ^ 32);
     let free_pages = nat (off_t (int free_end - int free_start) div int PGSIZE mod 2 ^ 32);
     let user_pages = free_pages div 2;
     let user_pages = (if user_pages > user_page_limit then user_page_limit else user_pages);
     let kernel_pages = free_pages - user_pages;
     k \<leftarrow> init_pool junk free_start kernel_pages;
     u \<leftarrow> init_pool junk ((free_start + kernel_pages * PGSIZE) mod 2 ^ 32) user_pages;
     Some \<lparr>kernel_pool = k, user_pool = u, ram = m\<rparr>
   }"

definition pool_of :: "page_mem \<Rightarrow> u32 \<Rightarrow> pool" where
  "pool_of pm flags = (if flags AND PAL_USER \<noteq> 0 then user_pool pm else kernel_pool pm)"

definition set_pool :: "page_mem \<Rightarrow> u32 \<Rightarrow> pool \<Rightarrow> page_mem" where
  "set_pool pm flags p = (if flags AND PAL_USER \<noteq> 0 then pm\<lparr>user_pool := p\<rparr> else pm\<lparr>kernel_pool := p\<rparr>)"

definition palloc_get_multiple :: "page_mem \<Rightarrow> u32 \<Rightarrow> nat \<Rightarrow> (addr \<times> page_mem) option" where
  "palloc_get_multiple pm flags page_cnt = do {
     let p = pool_of pm flags;
     if page_cnt = 0 then Some (NULL, pm) else do {
       (page_idx, b) \<leftarrow> bitmap_scan_and_flip (used_map p) 0 page_cnt False;
       let pm = set_pool pm flags (p\<lparr>used_map := b\<rparr>);
       let pages = (if page_idx \<noteq> BITMAP_ERROR then (pool_base p + PGSIZE * page_idx) mod 2 ^ 32 else NULL);
       if pages \<noteq> NULL then
         if flags AND PAL_ZERO \<noteq> 0 then do {
           (_, m) \<leftarrow> memset (ram pm) pages 0 (PGSIZE * page_cnt);
           Some (pages, pm\<lparr>ram := m\<rparr>)
         } else Some (pages, pm)
       else if flags AND PAL_ASSERT \<noteq> 0 then PANIC
       else Some (NULL, pm)
     }
   }"

definition palloc_get_page :: "page_mem \<Rightarrow> u32 \<Rightarrow> (addr \<times> page_mem) option" where
  "palloc_get_page pm flags = palloc_get_multiple pm flags 1"

definition page_from_pool :: "pool \<Rightarrow> addr \<Rightarrow> bool" where
  "page_from_pool p page = (let page_no = pg_no page; start_page = pg_no (pool_base p);
     end_page = start_page + bitmap_size (used_map p) in page_no \<ge> start_page \<and> page_no < end_page)"

definition palloc_free_multiple :: "page_mem \<Rightarrow> addr \<Rightarrow> nat \<Rightarrow> page_mem option" where
  "palloc_free_multiple pm pages page_cnt = do {
     ASSERT (pg_ofs pages = 0);
     if pages = NULL \<or> page_cnt = 0 then Some pm else do {
       flags \<leftarrow> (if page_from_pool (kernel_pool pm) pages then Some 0
                else if page_from_pool (user_pool pm) pages then Some PAL_USER
                else PANIC);
       let p = pool_of pm flags;
       let page_idx = pg_no pages - pg_no (pool_base p);
       (_, m) \<leftarrow> memset (ram pm) pages 0xcc (PGSIZE * page_cnt);
       a \<leftarrow> bitmap_all (used_map p) page_idx page_cnt;
       ASSERT a;
       b \<leftarrow> bitmap_set_multiple (used_map p) page_idx page_cnt False;
       Some (set_pool (pm\<lparr>ram := m\<rparr>) flags (p\<lparr>used_map := b\<rparr>))
     }
   }"

definition palloc_free_page :: "page_mem \<Rightarrow> addr \<Rightarrow> page_mem option" where
  "palloc_free_page pm page = palloc_free_multiple pm page 1"

section \<open>Invariant and abstraction\<close>

definition pool_ok :: "pool \<Rightarrow> bool" where
  "pool_ok p \<longleftrightarrow> wf_bitmap (used_map p) \<and> pool_base p mod 4096 = 0 \<and> PHYS_BASE \<le> pool_base p \<and>
     pool_base p + 4096 * bit_cnt (used_map p) \<le> 2 ^ 32"

definition palloc_ok :: "page_mem \<Rightarrow> bool" where
  "palloc_ok pm \<longleftrightarrow> pool_ok (kernel_pool pm) \<and> pool_ok (user_pool pm) \<and>
     pool_base (kernel_pool pm) + 4096 * bit_cnt (used_map (kernel_pool pm)) < pool_base (user_pool pm)"

definition pages_at :: "addr \<Rightarrow> nat \<Rightarrow> addr set" where
  "pages_at a n = (\<lambda>i. a + 4096 * i) ` {..<n}"

definition pool_pages :: "pool \<Rightarrow> addr set" where
  "pool_pages p = pages_at (pool_base p) (bit_cnt (used_map p))"

definition pool_allocated :: "pool \<Rightarrow> addr set" where
  "pool_allocated p = (\<lambda>i. pool_base p + 4096 * i) ` {i. i < bit_cnt (used_map p) \<and> bitmap_bits (used_map p) ! i}"

definition allocated :: "page_mem \<Rightarrow> addr set" where
  "allocated pm = pool_allocated (kernel_pool pm) \<union> pool_allocated (user_pool pm)"

lemma mem_pages_at: "x \<in> pages_at a n \<longleftrightarrow> (\<exists>i<n. x = a + 4096 * i)"
  by (auto simp: pages_at_def)

lemma pages_at_1 [simp]: "pages_at a (Suc 0) = {a}"
  by (auto simp: pages_at_def)

lemma mem_pool_allocated: "pool_base p + 4096 * i \<in> pool_allocated p \<longleftrightarrow> i < bit_cnt (used_map p) \<and> bitmap_bits (used_map p) ! i"
  by (auto simp: pool_allocated_def)

lemma pool_allocated_subset: "pool_allocated p \<subseteq> pool_pages p"
  by (auto simp: pool_allocated_def pool_pages_def pages_at_def)

lemma pools_disjoint: "palloc_ok pm \<Longrightarrow> pool_pages (kernel_pool pm) \<inter> pool_pages (user_pool pm) = {}"
  by (auto simp: palloc_ok_def pool_pages_def pages_at_def)

text \<open>The page that holds an address.\<close>

definition page_base :: "addr \<Rightarrow> addr" where
  "page_base x = x - x mod 4096"

lemma page_base_outside: "a mod 4096 = 0 \<Longrightarrow> page_base x \<noteq> a \<Longrightarrow> x < a \<or> a + 4096 \<le> x"
  by (auto simp: page_base_def minus_mod_eq_div_mult elim!: dvdE)

lemma page_base_inside: "a mod 4096 = 0 \<Longrightarrow> i < 4096 \<Longrightarrow> page_base (a + i) = a"
  by (auto simp: page_base_def elim!: dvdE)

text \<open>A range of the bitmap and the pages it stands for.\<close>

lemma pool_allocated_set_range:
  assumes "bit_cnt b = bit_cnt (used_map p)" "i + n \<le> bit_cnt b" "bitmap_bits b = set_range (bitmap_bits (used_map p)) i n v"
  shows "pool_allocated (p\<lparr>used_map := b\<rparr>) =
    (if v then pool_allocated p \<union> pages_at (pool_base p + 4096 * i) n else pool_allocated p - pages_at (pool_base p + 4096 * i) n)"
proof -
  have r: "pool_base p + 4096 * k \<in> pages_at (pool_base p + 4096 * i) n \<longleftrightarrow> i \<le> k \<and> k < i + n" for k
  proof
    assume "pool_base p + 4096 * k \<in> pages_at (pool_base p + 4096 * i) n"
    then obtain j where "j < n" "4096 * k = 4096 * (i + j)" by (auto simp: mem_pages_at)
    then show "i \<le> k \<and> k < i + n" by simp
  next
    assume "i \<le> k \<and> k < i + n"
    then have "k - i < n" "pool_base p + 4096 * k = pool_base p + 4096 * i + 4096 * (k - i)" by auto
    then show "pool_base p + 4096 * k \<in> pages_at (pool_base p + 4096 * i) n" unfolding mem_pages_at by blast
  qed
  have bits: "bitmap_bits b ! k \<longleftrightarrow> (if i \<le> k \<and> k < i + n then v else bitmap_bits (used_map p) ! k)" if "k < bit_cnt b" for k
    using assms that by (simp add: nth_set_range)
  show ?thesis
  proof (rule set_eqI)
    fix x
    show "x \<in> pool_allocated (p\<lparr>used_map := b\<rparr>) \<longleftrightarrow> x \<in> (if v then pool_allocated p \<union> pages_at (pool_base p + 4096 * i) n
        else pool_allocated p - pages_at (pool_base p + 4096 * i) n)"
    proof (cases "\<exists>k. x = pool_base p + 4096 * k")
      case True
      then obtain k where x: "x = pool_base p + 4096 * k" by blast
      have "x \<in> pool_allocated (p\<lparr>used_map := b\<rparr>) \<longleftrightarrow> k < bit_cnt b \<and> bitmap_bits b ! k"
        using mem_pool_allocated [of "p\<lparr>used_map := b\<rparr>" k] by (simp add: x)
      then show ?thesis using r [of k] bits [of k] assms(1,2) by (auto simp: x mem_pool_allocated)
    next
      case False
      then have "x \<notin> pages_at (pool_base p + 4096 * i) n" by (auto simp: mem_pages_at) (metis add_mult_distrib2 add.assoc)
      with False show ?thesis by (auto simp: pool_allocated_def)
    qed
  qed
qed

lemma pool_ok_pool_of: "palloc_ok pm \<Longrightarrow> pool_ok (pool_of pm flags)"
  by (simp add: palloc_ok_def pool_of_def)

lemma palloc_ok_set_pool:
  assumes "palloc_ok pm" "wf_bitmap b" "bit_cnt b = bit_cnt (used_map (pool_of pm flags))"
  shows "palloc_ok (set_pool pm flags ((pool_of pm flags)\<lparr>used_map := b\<rparr>))"
  using assms by (auto simp: palloc_ok_def pool_ok_def set_pool_def pool_of_def)

lemma palloc_ok_ram [simp]: "palloc_ok (pm\<lparr>ram := m\<rparr>) = palloc_ok pm"
  by (simp add: palloc_ok_def)

lemma allocated_ram [simp]: "allocated (pm\<lparr>ram := m\<rparr>) = allocated pm"
  by (simp add: allocated_def)

lemma pool_of_ram [simp]: "pool_of (pm\<lparr>ram := m\<rparr>) flags = pool_of pm flags"
  by (simp add: pool_of_def)

lemma ram_set_pool [simp]: "ram (set_pool pm flags p) = ram pm"
  by (simp add: set_pool_def)

text \<open>Changing the bitmap of one pool changes what is allocated there and leaves the other pool alone.\<close>

lemma allocated_set_pool:
  assumes ok: "palloc_ok pm" and b: "bit_cnt b = bit_cnt (used_map (pool_of pm flags))" "i + n \<le> bit_cnt b"
    "bitmap_bits b = set_range (bitmap_bits (used_map (pool_of pm flags))) i n v"
  defines "a \<equiv> pool_base (pool_of pm flags) + 4096 * i"
  shows "allocated (set_pool pm flags ((pool_of pm flags)\<lparr>used_map := b\<rparr>)) =
    (if v then allocated pm \<union> pages_at a n else allocated pm - pages_at a n)"
proof -
  have "pages_at a n \<subseteq> pool_pages (pool_of pm flags)"
  proof
    fix x assume "x \<in> pages_at a n"
    then obtain j where "j < n" "x = pool_base (pool_of pm flags) + 4096 * (i + j)"
      by (auto simp: mem_pages_at a_def)
    then show "x \<in> pool_pages (pool_of pm flags)" using b(1,2) unfolding pool_pages_def mem_pages_at
      by (intro exI [of _ "i + j"]) simp
  qed
  then have d: "pages_at a n \<inter> pool_allocated (if flags AND PAL_USER \<noteq> 0 then kernel_pool pm else user_pool pm) = {}"
    using pools_disjoint [OF ok] pool_allocated_subset [of "kernel_pool pm"] pool_allocated_subset [of "user_pool pm"]
    by (auto simp: pool_of_def split: if_splits)
  show ?thesis
    using pool_allocated_set_range [OF b] d
    by (auto simp: allocated_def set_pool_def pool_of_def a_def split: if_splits)
qed

lemma free_group_unallocated:
  assumes ok: "palloc_ok pm" and g: "group_at (bitmap_bits (used_map (pool_of pm flags))) i n False"
  shows "pages_at (pool_base (pool_of pm flags) + 4096 * i) n \<inter> allocated pm = {}"
proof -
  let ?p = "pool_of pm flags"
  have n: "i + n \<le> bit_cnt (used_map ?p)" using g by (simp add: group_at_def)
  have "x \<notin> pool_allocated ?p \<and> x \<in> pool_pages ?p" if x: "x \<in> pages_at (pool_base ?p + 4096 * i) n" for x
  proof -
    obtain j where j: "j < n" "x = pool_base ?p + 4096 * (i + j)" using x by (auto simp: mem_pages_at)
    moreover have "\<not> bitmap_bits (used_map ?p) ! (i + j)" using g j(1) by (simp add: group_at_def)
    ultimately have "x \<notin> pool_allocated ?p" by (metis mem_pool_allocated)
    moreover have "x \<in> pool_pages ?p" unfolding pool_pages_def mem_pages_at using j n by (intro exI [of _ "i + j"]) simp
    ultimately show ?thesis ..
  qed
  then show ?thesis
    using pools_disjoint [OF ok] pool_allocated_subset [of "kernel_pool pm"] pool_allocated_subset [of "user_pool pm"]
    by (fastforce simp: allocated_def pool_of_def split: if_splits)
qed

section \<open>Allocation\<close>

definition pool_full :: "page_mem \<Rightarrow> u32 \<Rightarrow> nat \<Rightarrow> bool" where
  "pool_full pm flags n \<longleftrightarrow> (\<forall>i. \<not> group_at (bitmap_bits (used_map (pool_of pm flags))) i n False)"

lemma palloc_get_full:
  assumes "palloc_ok pm" "0 < n" "pool_full pm flags n"
  shows "palloc_get_multiple pm flags n = (if flags AND PAL_ASSERT \<noteq> 0 then None else Some (NULL, pm))"
proof -
  let ?p = "pool_of pm flags"
  have "first_group (bitmap_bits (used_map ?p)) 0 n False = None"
    using assms(3) by (simp add: first_group_None_iff pool_full_def)
  then have "bitmap_scan_and_flip (used_map ?p) 0 n False = Some (BITMAP_ERROR, used_map ?p)"
    using pool_ok_pool_of [OF assms(1)] by (simp add: bitmap_scan_and_flip_None pool_ok_def)
  moreover have "set_pool pm flags ?p = pm" by (simp add: set_pool_def pool_of_def)
  ultimately show ?thesis using assms(2) by (simp add: palloc_get_multiple_def Let_def)
qed

lemma palloc_get_found:
  assumes ok: "palloc_ok pm" and n: "0 < n" and free: "\<not> pool_full pm flags n"
  obtains a pm' where "palloc_get_multiple pm flags n = Some (a, pm')" "palloc_ok pm'" "a \<noteq> NULL" "a mod 4096 = 0"
    "a + 4096 * n \<le> 2 ^ 32" "PHYS_BASE \<le> a" "pages_at a n \<inter> allocated pm = {}" "allocated pm' = allocated pm \<union> pages_at a n"
    "pages_at a n \<subseteq> pool_pages (pool_of pm flags)"
    "ram pm' = (if flags AND PAL_ZERO \<noteq> 0 then store_bytes (ram pm) a (replicate (4096 * n) 0) else ram pm)"
    "pool_pages (user_pool pm') = pool_pages (user_pool pm)" "flags AND PAL_USER \<noteq> 0 \<Longrightarrow> kernel_pool pm' = kernel_pool pm"
proof -
  let ?p = "pool_of pm flags" and ?b = "used_map (pool_of pm flags)"
  have p: "pool_ok ?p" using ok by (rule pool_ok_pool_of)
  then have wf: "wf_bitmap ?b" by (simp add: pool_ok_def)
  obtain i where i: "first_group (bitmap_bits ?b) 0 n False = Some i"
    using free first_group_None_iff [of "bitmap_bits ?b" 0 n False] unfolding pool_full_def by auto
  then have g: "group_at (bitmap_bits ?b) i n False" by (simp add: first_group_Some_iff)
  obtain b where b: "bitmap_scan_and_flip ?b 0 n False = Some (i, b)" "wf_bitmap b" "bit_cnt b = bit_cnt ?b"
    "bitmap_bits b = set_range (bitmap_bits ?b) i n True" "i + n \<le> bit_cnt ?b"
    by (rule bitmap_scan_and_flip_Some [OF wf _ n i]) auto
  define a where "a = pool_base ?p + 4096 * i"
  define pm' where "pm' = set_pool pm flags (?p\<lparr>used_map := b\<rparr>)"
  have bounds: "a + 4096 * n \<le> 2 ^ 32" "a \<noteq> NULL" "a mod 4096 = 0" "PHYS_BASE \<le> a"
    using p b(5) unfolding pool_ok_def a_def by auto
  then have wrap: "a mod 2 ^ 32 = a" using n by simp
  have ne: "i \<noteq> BITMAP_ERROR" by (rule group_at_not_error [OF wf n g])
  have run: "palloc_get_multiple pm flags n = Some (a, pm'\<lparr>ram := if flags AND PAL_ZERO \<noteq> 0
      then store_bytes (ram pm) a (replicate (4096 * n) 0) else ram pm\<rparr>)"
    using n ne wrap bounds(2)
    by (simp add: palloc_get_multiple_def Let_def b(1) memset_def memset_loop_eq pm'_def a_def [symmetric])
  have "palloc_ok pm'" unfolding pm'_def using ok b by (intro palloc_ok_set_pool) auto
  moreover have "allocated pm' = allocated pm \<union> pages_at a n"
    using allocated_set_pool [OF ok b(3) _ b(4)] b(3,5) by (simp add: pm'_def a_def)
  moreover have "pages_at a n \<inter> allocated pm = {}" using free_group_unallocated [OF ok g] by (simp add: a_def)
  moreover have "pages_at a n \<subseteq> pool_pages ?p"
  proof
    fix x assume "x \<in> pages_at a n"
    then obtain j where "j < n" "x = pool_base ?p + 4096 * (i + j)" by (auto simp: mem_pages_at a_def)
    with b(5) show "x \<in> pool_pages ?p" unfolding pool_pages_def mem_pages_at by (intro exI [of _ "i + j"]) simp
  qed
  moreover have "pool_pages (user_pool pm') = pool_pages (user_pool pm)"
    using b(3) by (simp add: pm'_def set_pool_def pool_of_def pool_pages_def)
  moreover have "flags AND PAL_USER \<noteq> 0 \<Longrightarrow> kernel_pool pm' = kernel_pool pm" by (simp add: pm'_def set_pool_def)
  ultimately show thesis using bounds by (intro that [OF run]) auto
qed

section \<open>Freeing\<close>

lemma page_from_pool_iff:
  assumes "pool_ok p" "a mod 4096 = 0"
  shows "page_from_pool p a \<longleftrightarrow> a \<in> pool_pages p"
proof
  let ?s = "pool_base p div 4096"
  have base: "pool_base p = 4096 * ?s" and a: "a = 4096 * (a div 4096)" using assms by (auto simp: pool_ok_def)
  {
    assume "page_from_pool p a"
    then have "a div 4096 - ?s < bit_cnt (used_map p)" "?s \<le> a div 4096"
      by (auto simp: page_from_pool_def Let_def pg_no_eq bitmap_size_def)
    moreover from this(2) have "a = pool_base p + 4096 * (a div 4096 - ?s)"
      by (subst a, subst base) (simp add: right_diff_distrib')
    ultimately show "a \<in> pool_pages p" unfolding pool_pages_def mem_pages_at by blast
  next
    assume "a \<in> pool_pages p"
    then obtain i where "i < bit_cnt (used_map p)" "a = pool_base p + 4096 * i" by (auto simp: pool_pages_def mem_pages_at)
    then have "a div 4096 = ?s + i" by simp
    with \<open>i < _\<close> show "page_from_pool p a" by (simp add: page_from_pool_def Let_def pg_no_eq bitmap_size_def)
  }
qed

lemma page_index:
  assumes "pool_ok p" "a = pool_base p + 4096 * i"
  shows "pg_no a - pg_no (pool_base p) = i"
  using assms by (simp add: pg_no_eq)

text \<open>The pool that \<^verbatim>\<open>palloc_free_multiple\<close> picks.\<close>

definition pool_flags :: "page_mem \<Rightarrow> addr \<Rightarrow> u32" where
  "pool_flags pm a = (if a \<in> pool_pages (kernel_pool pm) then 0 else PAL_USER)"

lemma pool_of_pool_flags:
  "pool_of pm (pool_flags pm a) = (if a \<in> pool_pages (kernel_pool pm) then kernel_pool pm else user_pool pm)"
  by (simp add: pool_of_def pool_flags_def PAL_USER_def)

lemma palloc_free_eq:
  assumes ok: "palloc_ok pm" and a: "a mod 4096 = 0" "a \<in> pool_pages (kernel_pool pm) \<union> pool_pages (user_pool pm)" and n: "0 < n"
  defines "f \<equiv> pool_flags pm a"
  defines "p \<equiv> pool_of pm f"
  defines "i \<equiv> pg_no a - pg_no (pool_base p)"
  shows "palloc_free_multiple pm a n = do {
    x \<leftarrow> bitmap_all (used_map p) i n; ASSERT x; b \<leftarrow> bitmap_set_multiple (used_map p) i n False;
    Some (set_pool (pm\<lparr>ram := store_bytes (ram pm) a (replicate (4096 * n) 0xcc)\<rparr>) f (p\<lparr>used_map := b\<rparr>)) }"
proof -
  have "a \<noteq> NULL" using ok a(2) by (auto simp: palloc_ok_def pool_ok_def pool_pages_def mem_pages_at)
  moreover have "pg_ofs a = 0" using a(1) by (simp add: pg_ofs_eq)
  moreover have "page_from_pool (kernel_pool pm) a \<longleftrightarrow> a \<in> pool_pages (kernel_pool pm)"
    "page_from_pool (user_pool pm) a \<longleftrightarrow> a \<in> pool_pages (user_pool pm)"
    using ok a(1) by (simp_all add: page_from_pool_iff palloc_ok_def)
  ultimately show ?thesis
    using a(2) n by (auto simp: palloc_free_multiple_def Let_def i_def p_def f_def pool_flags_def memset_def memset_loop_eq)
qed

lemma pages_at_shift: "pages_at (b + 4096 * i) n = (\<lambda>k. b + 4096 * k) ` {i..<i + n}"
proof -
  have "{i..<i + n} = (+) i ` {..<n}" by (auto simp: image_iff le_iff_add)
  then show ?thesis by (simp add: pages_at_def image_image add_mult_distrib2 add.assoc)
qed

text \<open>A range of pages lies in use as a whole exactly if the bits of one pool say so.\<close>

lemma range_allocated_iff:
  assumes ok: "palloc_ok pm" and a: "a \<in> pool_pages (kernel_pool pm) \<union> pool_pages (user_pool pm)" and n: "0 < n"
  defines "p \<equiv> pool_of pm (pool_flags pm a)"
  assumes i: "a = pool_base p + 4096 * i"
  shows "pages_at a n \<subseteq> allocated pm \<longleftrightarrow> group_at (bitmap_bits (used_map p)) i n True"
proof -
  have sub: "x \<in> allocated pm \<longleftrightarrow> x \<in> pool_allocated p" if "x \<in> pool_pages p" for x
    using that pools_disjoint [OF ok] pool_allocated_subset [of "kernel_pool pm"] pool_allocated_subset [of "user_pool pm"] a
    by (auto simp: allocated_def p_def pool_of_pool_flags split: if_splits)
  have "a \<in> pool_pages p" using a by (auto simp: p_def pool_of_pool_flags)
  then have lo: "i < bit_cnt (used_map p)" by (auto simp: i pool_pages_def mem_pages_at)
  have out: "pool_base p + 4096 * bit_cnt (used_map p) \<notin> allocated pm"
    using ok pool_allocated_subset [of "kernel_pool pm"] pool_allocated_subset [of "user_pool pm"]
    by (auto simp: allocated_def p_def pool_of_pool_flags palloc_ok_def pool_allocated_def)
  show ?thesis
  proof
    assume sa: "pages_at a n \<subseteq> allocated pm"
    have le: "i + n \<le> bit_cnt (used_map p)"
    proof (rule ccontr)
      assume "\<not> ?thesis"
      with lo have "pool_base p + 4096 * bit_cnt (used_map p) \<in> pages_at a n"
        unfolding i pages_at_shift by auto
      with sa out show False by blast
    qed
    have "bitmap_bits (used_map p) ! (i + k)" if "k < n" for k
    proof -
      have "pool_base p + 4096 * (i + k) \<in> pages_at a n" using that unfolding i pages_at_shift by (intro imageI) simp
      moreover have "pool_base p + 4096 * (i + k) \<in> pool_pages p" unfolding pool_pages_def mem_pages_at
        using le that by (intro exI [of _ "i + k"]) simp
      ultimately show ?thesis using sa sub mem_pool_allocated by blast
    qed
    with le show "group_at (bitmap_bits (used_map p)) i n True" by (simp add: group_at_def)
  next
    assume g: "group_at (bitmap_bits (used_map p)) i n True"
    show "pages_at a n \<subseteq> allocated pm"
    proof
      fix x assume "x \<in> pages_at a n"
      then obtain k where k: "k < n" "x = pool_base p + 4096 * (i + k)" by (auto simp: i mem_pages_at)
      with g have "x \<in> pool_allocated p" using mem_pool_allocated [of p "i + k"] by (auto simp: group_at_def)
      with pool_allocated_subset [of p] sub show "x \<in> allocated pm" by blast
    qed
  qed
qed

lemma bitmap_all_group:
  assumes "wf_bitmap b" "i + n \<le> bit_cnt b"
  shows "bitmap_all b i n = Some (group_at (bitmap_bits b) i n True)"
  using group_at_contains [OF assms, of True] by (simp add: bitmap_all_def)

lemma palloc_free_allocated:
  assumes ok: "palloc_ok pm" and a: "a mod 4096 = 0" "pages_at a n \<subseteq> allocated pm" and n: "0 < n"
  obtains pm' where "palloc_free_multiple pm a n = Some pm'" "palloc_ok pm'" "allocated pm' = allocated pm - pages_at a n"
    "ram pm' = store_bytes (ram pm) a (replicate (4096 * n) 0xcc)"
proof -
  define f where "f = pool_flags pm a"
  define p where "p = pool_of pm f"
  have mem: "a \<in> pool_pages (kernel_pool pm) \<union> pool_pages (user_pool pm)"
    using a(2) n pool_allocated_subset by (force simp: pages_at_def allocated_def)
  then have "a \<in> pool_pages p" by (auto simp: p_def f_def pool_of_pool_flags)
  then obtain i where i: "a = pool_base p + 4096 * i" by (auto simp: pool_pages_def mem_pages_at)
  have pok: "pool_ok p" unfolding p_def using ok by (rule pool_ok_pool_of)
  then have wf: "wf_bitmap (used_map p)" by (simp add: pool_ok_def)
  have idx: "pg_no a - pg_no (pool_base p) = i" using pok i by (rule page_index)
  have g: "group_at (bitmap_bits (used_map p)) i n True"
    using range_allocated_iff [OF ok mem n, folded f_def, folded p_def, OF i] a(2) by blast
  then have le: "i + n \<le> bit_cnt (used_map p)" by (simp add: group_at_def)
  obtain b where b: "bitmap_set_multiple (used_map p) i n False = Some b" "wf_bitmap b" "bit_cnt b = bit_cnt (used_map p)"
    "bitmap_bits b = set_range (bitmap_bits (used_map p)) i n False"
    by (rule bitmap_set_multiple_bits [OF wf le])
  let ?m = "pm\<lparr>ram := store_bytes (ram pm) a (replicate (4096 * n) 0xcc)\<rparr>"
  have run: "palloc_free_multiple pm a n = Some (set_pool ?m f (p\<lparr>used_map := b\<rparr>))"
    using palloc_free_eq [OF ok a(1) mem n] g bitmap_all_group [OF wf le] b(1) idx by (simp add: f_def p_def)
  have pm: "p = pool_of ?m f" by (simp add: p_def)
  have "palloc_ok (set_pool ?m f (p\<lparr>used_map := b\<rparr>))"
    unfolding pm using ok b(2,3) pm by (intro palloc_ok_set_pool) auto
  moreover have "allocated (set_pool ?m f (p\<lparr>used_map := b\<rparr>)) = allocated pm - pages_at a n"
    using allocated_set_pool [of ?m b f i n False, folded pm] ok b(3,4) le by (simp add: i)
  ultimately show thesis by (intro that [OF run]) auto
qed

lemma palloc_free_unallocated:
  assumes ok: "palloc_ok pm" and a: "a mod 4096 = 0" "a \<noteq> NULL" "\<not> pages_at a n \<subseteq> allocated pm"
  shows "palloc_free_multiple pm a n = None"
proof (cases "a \<in> pool_pages (kernel_pool pm) \<union> pool_pages (user_pool pm)")
  case False
  have "0 < n" using a(3) by (cases n) (auto simp: pages_at_def)
  moreover have "pg_ofs a = 0" using a(1) by (simp add: pg_ofs_eq)
  moreover have "\<not> page_from_pool (kernel_pool pm) a" "\<not> page_from_pool (user_pool pm) a"
    using ok a(1) False by (simp_all add: page_from_pool_iff palloc_ok_def)
  ultimately show ?thesis using a(2) by (simp add: palloc_free_multiple_def)
next
  case True
  define p where "p = pool_of pm (pool_flags pm a)"
  have n: "0 < n" using a(3) by (cases n) (auto simp: pages_at_def)
  have "a \<in> pool_pages p" using True by (auto simp: p_def pool_of_pool_flags)
  then obtain i where i: "a = pool_base p + 4096 * i" by (auto simp: pool_pages_def mem_pages_at)
  have pok: "pool_ok p" unfolding p_def using ok by (rule pool_ok_pool_of)
  then have wf: "wf_bitmap (used_map p)" by (simp add: pool_ok_def)
  have idx: "pg_no a - pg_no (pool_base p) = i" using pok i by (rule page_index)
  have g: "\<not> group_at (bitmap_bits (used_map p)) i n True"
    using range_allocated_iff [OF ok True n, folded p_def, OF i] a(3) by blast
  note eq = palloc_free_eq [OF ok a(1) True n, folded p_def, unfolded idx]
  show ?thesis
  proof (cases "i + n \<le> bit_cnt (used_map p)")
    case True
    then show ?thesis unfolding eq using g bitmap_all_group [OF wf True] by simp
  next
    case False
    then have "bitmap_set_multiple (used_map p) i n False = None" by (intro bitmap_set_multiple_overrun wf) simp
    then show ?thesis unfolding eq by (simp add: bind_eq_None_conv)
  qed
qed

section \<open>The contract of the allocator\<close>

text \<open>
  A client sees the set of pages in use.  A request either is refused without a change, or its pages were
  free, whole and aligned; returning pages that are not in use is an error.
\<close>

locale page_allocator =
  fixes get :: "'s \<Rightarrow> 'f \<Rightarrow> nat \<Rightarrow> (addr \<times> 's) option"
    and free :: "'s \<Rightarrow> addr \<Rightarrow> nat \<Rightarrow> 's option"
    and used :: "'s \<Rightarrow> addr set"
    and ok :: "'s \<Rightarrow> bool"
  assumes get_some: "ok s \<Longrightarrow> 0 < n \<Longrightarrow> get s f n = Some (a, s') \<Longrightarrow> a \<noteq> NULL \<Longrightarrow>
      ok s' \<and> a mod 4096 = 0 \<and> pages_at a n \<inter> used s = {} \<and> used s' = used s \<union> pages_at a n"
    and get_null: "ok s \<Longrightarrow> 0 < n \<Longrightarrow> get s f n = Some (NULL, s') \<Longrightarrow> s' = s"
    and free_used: "ok s \<Longrightarrow> a mod 4096 = 0 \<Longrightarrow> 0 < n \<Longrightarrow> pages_at a n \<subseteq> used s \<Longrightarrow>
      \<exists>s'. free s a n = Some s' \<and> ok s' \<and> used s' = used s - pages_at a n"
    and free_unused: "ok s \<Longrightarrow> a mod 4096 = 0 \<Longrightarrow> a \<noteq> NULL \<Longrightarrow> \<not> pages_at a n \<subseteq> used s \<Longrightarrow> free s a n = None"
begin

lemma separate:
  assumes "ok s" "0 < n" "0 < k" "get s f n = Some (a, s')" "a \<noteq> NULL" "get s' g k = Some (b, t)" "b \<noteq> NULL"
  shows "pages_at a n \<inter> pages_at b k = {}"
  using get_some [OF assms(1,2,4,5)] get_some [of s' k g b t] assms by blast

lemma get_free:
  assumes "ok s" "0 < n" "get s f n = Some (a, s')" "a \<noteq> NULL"
  shows "\<exists>t. free s' a n = Some t \<and> ok t \<and> used t = used s"
proof -
  have g: "ok s'" "a mod 4096 = 0" "pages_at a n \<inter> used s = {}" "used s' = used s \<union> pages_at a n"
    using get_some [OF assms] by auto
  from free_used [OF g(1,2) assms(2)] g(4) obtain t where "free s' a n = Some t" "ok t" "used t = used s' - pages_at a n" by auto
  with g(3,4) show ?thesis by auto
qed

lemma double_free:
  assumes "ok s" "a mod 4096 = 0" "a \<noteq> NULL" "0 < n" "pages_at a n \<subseteq> used s" "free s a n = Some s'"
  shows "free s' a n = None"
proof -
  have "ok s'" "used s' = used s - pages_at a n" using free_used [OF assms(1,2,4,5)] assms(6) by auto
  moreover have "a \<in> pages_at a n" using assms(4) by (force simp: pages_at_def)
  ultimately show ?thesis using assms(2,3) by (intro free_unused) auto
qed

end

interpretation pal: page_allocator palloc_get_multiple palloc_free_multiple allocated palloc_ok
proof
  fix s f n a s'
  assume s: "palloc_ok s" "0 < n" and g: "palloc_get_multiple s f n = Some (a, s')"
  { assume "a \<noteq> NULL"
    show "palloc_ok s' \<and> a mod 4096 = 0 \<and> pages_at a n \<inter> allocated s = {} \<and> allocated s' = allocated s \<union> pages_at a n"
    proof (cases "pool_full s f n")
      case True
      with palloc_get_full [OF s True] g \<open>a \<noteq> NULL\<close> show ?thesis by (auto split: if_splits)
    next
      case False
      show ?thesis by (rule palloc_get_found [OF s False]) (use g in auto)
    qed }
next
  fix s f n s'
  assume s: "palloc_ok s" "0 < n" and g: "palloc_get_multiple s f n = Some (NULL, s')"
  show "s' = s"
  proof (cases "pool_full s f n")
    case True
    with palloc_get_full [OF s True] g show ?thesis by (auto split: if_splits)
  next
    case False
    show ?thesis by (rule palloc_get_found [OF s False]) (use g in auto)
  qed
next
  fix s a n assume "palloc_ok s" "a mod 4096 = 0" "0 < n" "pages_at a n \<subseteq> allocated s"
  then show "\<exists>s'. palloc_free_multiple s a n = Some s' \<and> palloc_ok s' \<and> allocated s' = allocated s - pages_at a n"
    by (metis palloc_free_allocated)
next
  fix s a n assume "palloc_ok s" "a mod 4096 = 0" "a \<noteq> NULL" "\<not> pages_at a n \<subseteq> allocated s"
  then show "palloc_free_multiple s a n = None" by (rule palloc_free_unallocated)
qed

section \<open>Initialisation\<close>

lemma bitmap_pages_le:
  assumes "0 < n" "n < 2 ^ 20"
  shows "1 \<le> DIV_ROUND_UP (bitmap_buf_size n) 4096" "DIV_ROUND_UP (bitmap_buf_size n) 4096 \<le> n"
proof -
  have "elem_cnt n = (n + 31) div 32" using assms by (simp add: elem_cnt_def ELEM_BITS_def SIZE_WRAP_def)
  then have "bitmap_buf_size n = 8 + 4 * ((n + 31) div 32)" by (simp add: bitmap_buf_size_def byte_cnt_def)
  moreover have "(n + 31) div 32 \<le> n" using assms(1) by linarith
  ultimately show "1 \<le> DIV_ROUND_UP (bitmap_buf_size n) 4096" "DIV_ROUND_UP (bitmap_buf_size n) 4096 \<le> n"
    using assms(1) by (simp_all add: DIV_ROUND_UP_def)
qed

lemma init_pool_ok:
  assumes base: "base mod 4096 = 0" "PHYS_BASE \<le> base" and n: "0 < n" "base + 4096 * n < 2 ^ 32"
  obtains p where "init_pool junk base n = Some p" "pool_ok p" "pool_allocated p = {}" "base < pool_base p"
    "pool_base p + 4096 * bit_cnt (used_map p) = base + 4096 * n"
proof -
  define k where "k = DIV_ROUND_UP (bitmap_buf_size n) 4096"
  have "n < 2 ^ 20" using base(2) n(2) by simp
  then have k: "1 \<le> k" "k \<le> n" using bitmap_pages_le [of n] n(1) by (simp_all add: k_def)
  have "bitmap_buf_size (n - k) \<le> bitmap_buf_size n"
    using \<open>n < 2 ^ 20\<close> by (simp add: bitmap_buf_size_def byte_cnt_def elem_cnt_def ELEM_BITS_def SIZE_WRAP_def DIV_ROUND_UP_def div_le_mono)
  also have "\<dots> \<le> k * 4096" unfolding k_def by (rule DIV_ROUND_UP_ge) simp
  finally have "bitmap_buf_size (n - k) \<le> k * 4096" .
  moreover have "n - k + 31 < SIZE_WRAP" using \<open>n < 2 ^ 20\<close> by (simp add: SIZE_WRAP_def)
  ultimately obtain b where b: "bitmap_create_in_buf junk (n - k) (k * 4096) = Some b" "wf_bitmap b" "bitmap_bits b = replicate (n - k) False"
    by (metis bitmap_create_in_buf_bits)
  then have cnt: "bit_cnt b = n - k" using length_bitmap_bits [of b] by simp
  have wrap: "(base + k * 4096) mod 2 ^ 32 = base + k * 4096" using k n(2) by simp
  let ?p = "\<lparr>used_map = b, pool_base = base + k * 4096\<rparr>"
  have run: "init_pool junk base n = Some ?p"
    using b(1) k wrap by (simp add: init_pool_def k_def [symmetric] Let_def)
  have size: "base + k * 4096 + 4096 * (n - k) = base + 4096 * n" using k by (simp add: diff_mult_distrib2)
  have "pool_ok ?p" using b(2) base k n(2) size by (auto simp: pool_ok_def cnt)
  moreover have "pool_allocated ?p = {}" by (auto simp: pool_allocated_def b(3) cnt)
  ultimately show thesis using k size by (intro that [OF run]) (simp_all add: cnt)
qed

lemma palloc_init_layout:
  assumes ram: "258 \<le> pages" "pages < 2 ^ 18" and lim: "0 < limit"
  obtains pm where "palloc_init junk m pages limit = Some pm" "palloc_ok pm" "allocated pm = {}" "ram pm = m"
proof -
  define free_pages where "free_pages = pages - 256"
  define user where "user = min (free_pages div 2) limit"
  have fp: "2 \<le> free_pages" "0 < user" "user < free_pages" using assms by (auto simp: free_pages_def user_def)
  let ?s = "3221225472 + 1048576 :: nat" and ?kp = "free_pages - user"
  have s: "ptov (1024 * 1024) = Some ?s" by (simp add: ptov_def)
  have e: "ptov (pages * PGSIZE mod 2 ^ 32) = Some (3221225472 + pages * 4096)" using ram(2) by (simp add: ptov_def)
  have d: "nat (off_t (int (3221225472 + pages * 4096) - int ?s) div int PGSIZE mod 2 ^ 32) = free_pages"
  proof -
    have "off_t (int (3221225472 + pages * 4096) - int ?s) = int (pages * 4096) - 1048576"
      using ram by (simp add: off_t_def)
    then show ?thesis using ram by (simp add: free_pages_def)
  qed
  have u: "(if limit < free_pages div 2 then limit else free_pages div 2) = user" by (auto simp: user_def)
  have "?s + 4096 * ?kp < 2 ^ 32" using ram fp by (simp add: free_pages_def)
  then obtain k where k: "init_pool junk ?s ?kp = Some k" "pool_ok k" "pool_allocated k = {}"
    "pool_base k + 4096 * bit_cnt (used_map k) = ?s + 4096 * ?kp"
    using fp by (auto intro: init_pool_ok [of ?s ?kp junk])
  have wrap: "(?s + ?kp * PGSIZE) mod 2 ^ 32 = ?s + 4096 * ?kp" using ram fp by (simp add: free_pages_def)
  have "?s + 4096 * ?kp + 4096 * user < 2 ^ 32" using ram fp by (simp add: free_pages_def)
  moreover have "(?s + 4096 * ?kp) mod 4096 = 0" by presburger
  ultimately obtain p where p: "init_pool junk (?s + 4096 * ?kp) user = Some p" "pool_ok p" "pool_allocated p = {}"
      "?s + 4096 * ?kp < pool_base p"
    using fp by (auto intro: init_pool_ok [of "?s + 4096 * ?kp" user junk])
  have "palloc_init junk m pages limit = Some \<lparr>kernel_pool = k, user_pool = p, ram = m\<rparr>"
    unfolding palloc_init_def s e using d u wrap k(1) p(1) by (simp only: Let_def bind.bind_lunit)
  then show thesis using k p by (intro that) (auto simp: palloc_ok_def allocated_def)
qed

end
