(* ===== verification/Page_Directory.thy ===== *)
theory Page_Directory
  imports Palloc
begin

text \<open>
  Page directories, \<^verbatim>\<open>userprog/pagedir.c\<close>: two levels of tables, stored in pages that come from the page
  allocator and read and written as words of memory.  The relation \<open>page_dir v pd T\<close> describes the
  directory at \<open>pd\<close>: \<open>T i\<close> is the page table of its \<open>i\<close>-th user entry, if there is one.
\<close>

section \<open>State and operations\<close>

record vm =
  pgs :: page_mem
  init_page_dir :: addr
  init_ram_pages :: nat
  cr3 :: nat

definition read32 :: "vm \<Rightarrow> addr \<Rightarrow> u32" where
  "read32 v a = load32 (ram (pgs v)) a"

definition write32 :: "vm \<Rightarrow> addr \<Rightarrow> u32 \<Rightarrow> vm" where
  "write32 v a w = v\<lparr>pgs := (pgs v)\<lparr>ram := store32 (ram (pgs v)) a w\<rparr>\<rparr>"

definition pagedir_create :: "vm \<Rightarrow> (addr \<times> vm) option" where
  "pagedir_create v = do {
     (pd, g) \<leftarrow> palloc_get_page (pgs v) 0;
     if pd \<noteq> NULL then do {
       (_, m) \<leftarrow> memcpy (ram g) pd (init_page_dir v) PGSIZE;
       Some (pd, v\<lparr>pgs := g\<lparr>ram := m\<rparr>\<rparr>)
     } else Some (pd, v\<lparr>pgs := g\<rparr>)
   }"

text \<open>The loops of \<^verbatim>\<open>pagedir_destroy\<close>: entries from the given index on, as many as the last argument says.\<close>

fun free_frames :: "vm \<Rightarrow> addr \<Rightarrow> nat \<Rightarrow> nat \<Rightarrow> vm option" where
  "free_frames v pt j 0 = Some v"
| "free_frames v pt j (Suc k) = do {
     let e = read32 v (pt + 4 * j);
     v \<leftarrow> (if e AND PTE_P \<noteq> 0 then do { p \<leftarrow> pte_get_page e; g \<leftarrow> palloc_free_page (pgs v) p; Some (v\<lparr>pgs := g\<rparr>) } else Some v);
     free_frames v pt (j + 1) k
   }"

fun free_tables :: "vm \<Rightarrow> addr \<Rightarrow> nat \<Rightarrow> nat \<Rightarrow> vm option" where
  "free_tables v pd i 0 = Some v"
| "free_tables v pd i (Suc k) = do {
     let e = read32 v (pd + 4 * i);
     v \<leftarrow> (if e AND PTE_P \<noteq> 0 then do {
        pt \<leftarrow> pde_get_pt e;
        v \<leftarrow> free_frames v pt 0 (PGSIZE div 4);
        g \<leftarrow> palloc_free_page (pgs v) pt;
        Some (v\<lparr>pgs := g\<rparr>)
      } else Some v);
     free_tables v pd (i + 1) k
   }"

definition pagedir_destroy :: "vm \<Rightarrow> addr \<Rightarrow> vm option" where
  "pagedir_destroy v pd = (if pd = NULL then Some v else do {
     ASSERT (pd \<noteq> init_page_dir v);
     v \<leftarrow> free_tables v pd 0 (pd_no PHYS_BASE);
     g \<leftarrow> palloc_free_page (pgs v) pd;
     Some (v\<lparr>pgs := g\<rparr>)
   })"

definition table_entry :: "vm \<Rightarrow> addr \<Rightarrow> addr \<Rightarrow> (addr \<times> vm) option" where
  "table_entry v pde vaddr = do { pt \<leftarrow> pde_get_pt (read32 v pde); Some (pt + 4 * pt_no vaddr, v) }"

definition lookup_page :: "vm \<Rightarrow> addr \<Rightarrow> addr \<Rightarrow> bool \<Rightarrow> (addr \<times> vm) option" where
  "lookup_page v pd vaddr create = do {
     ASSERT (pd \<noteq> NULL);
     ASSERT (\<not> create \<or> is_user_vaddr vaddr);
     let pde = pd + 4 * pd_no vaddr;
     if read32 v pde = 0 then
       if create then do {
         (pt, g) \<leftarrow> palloc_get_page (pgs v) PAL_ZERO;
         let v = v\<lparr>pgs := g\<rparr>;
         if pt = NULL then Some (NULL, v)
         else do { e \<leftarrow> pde_create pt; table_entry (write32 v pde e) pde vaddr }
       } else Some (NULL, v)
     else table_entry v pde vaddr
   }"

definition pagedir_set_page :: "vm \<Rightarrow> addr \<Rightarrow> addr \<Rightarrow> addr \<Rightarrow> bool \<Rightarrow> (bool \<times> vm) option" where
  "pagedir_set_page v pd upage kpage writable = do {
     ASSERT (pg_ofs upage = 0);
     ASSERT (pg_ofs kpage = 0);
     ASSERT (is_user_vaddr upage);
     p \<leftarrow> vtop kpage;
     ASSERT (drop_bit PGBITS p < init_ram_pages v);
     ASSERT (pd \<noteq> init_page_dir v);
     (pte, v) \<leftarrow> lookup_page v pd upage True;
     if pte \<noteq> NULL then do {
       ASSERT (read32 v pte AND PTE_P = 0);
       e \<leftarrow> pte_create_user kpage writable;
       Some (True, write32 v pte e)
     } else Some (False, v)
   }"

definition pagedir_get_page :: "vm \<Rightarrow> addr \<Rightarrow> addr \<Rightarrow> addr option" where
  "pagedir_get_page v pd uaddr = do {
     ASSERT (is_user_vaddr uaddr);
     (pte, v) \<leftarrow> lookup_page v pd uaddr False;
     if pte \<noteq> NULL \<and> read32 v pte AND PTE_P \<noteq> 0
     then do { k \<leftarrow> pte_get_page (read32 v pte); Some (k + pg_ofs uaddr) }
     else Some NULL
   }"

definition active_pd :: "vm \<Rightarrow> addr option" where
  "active_pd v = ptov (cr3 v)"

definition pagedir_activate :: "vm \<Rightarrow> addr \<Rightarrow> vm option" where
  "pagedir_activate v pd = do { p \<leftarrow> vtop (if pd = NULL then init_page_dir v else pd); Some (v\<lparr>cr3 := p\<rparr>) }"

definition invalidate_pagedir :: "vm \<Rightarrow> addr \<Rightarrow> vm option" where
  "invalidate_pagedir v pd = do { a \<leftarrow> active_pd v; if a = pd then pagedir_activate v pd else Some v }"

definition pagedir_clear_page :: "vm \<Rightarrow> addr \<Rightarrow> addr \<Rightarrow> vm option" where
  "pagedir_clear_page v pd upage = do {
     ASSERT (pg_ofs upage = 0);
     ASSERT (is_user_vaddr upage);
     (pte, v) \<leftarrow> lookup_page v pd upage False;
     if pte \<noteq> NULL \<and> read32 v pte AND PTE_P \<noteq> 0
     then invalidate_pagedir (write32 v pte (read32 v pte AND NOT PTE_P)) pd
     else Some v
   }"

definition test_flag :: "vm \<Rightarrow> addr \<Rightarrow> addr \<Rightarrow> u32 \<Rightarrow> bool option" where
  "test_flag v pd vpage f = do {
     (pte, v) \<leftarrow> lookup_page v pd vpage False;
     Some (pte \<noteq> NULL \<and> read32 v pte AND f \<noteq> 0)
   }"

definition change_flag :: "vm \<Rightarrow> addr \<Rightarrow> addr \<Rightarrow> u32 \<Rightarrow> bool \<Rightarrow> vm option" where
  "change_flag v pd vpage f on = do {
     (pte, v) \<leftarrow> lookup_page v pd vpage False;
     if pte \<noteq> NULL then
       if on then Some (write32 v pte (read32 v pte OR f))
       else invalidate_pagedir (write32 v pte (read32 v pte AND NOT f)) pd
     else Some v
   }"

definition pagedir_is_dirty :: "vm \<Rightarrow> addr \<Rightarrow> addr \<Rightarrow> bool option" where
  "pagedir_is_dirty v pd vpage = test_flag v pd vpage PTE_D"

definition pagedir_set_dirty :: "vm \<Rightarrow> addr \<Rightarrow> addr \<Rightarrow> bool \<Rightarrow> vm option" where
  "pagedir_set_dirty v pd vpage on = change_flag v pd vpage PTE_D on"

definition pagedir_is_accessed :: "vm \<Rightarrow> addr \<Rightarrow> addr \<Rightarrow> bool option" where
  "pagedir_is_accessed v pd vpage = test_flag v pd vpage PTE_A"

definition pagedir_set_accessed :: "vm \<Rightarrow> addr \<Rightarrow> addr \<Rightarrow> bool \<Rightarrow> vm option" where
  "pagedir_set_accessed v pd vpage on = change_flag v pd vpage PTE_A on"

section \<open>Well-formed directories\<close>

text \<open>The word that \<^verbatim>\<open>pde_create\<close> makes of a page table.\<close>

definition pde_word :: "addr \<Rightarrow> u32" where
  "pde_word pt = of_nat (pt - PHYS_BASE) OR PTE_U OR PTE_P OR PTE_W"

definition page_dir :: "vm \<Rightarrow> addr \<Rightarrow> (nat \<Rightarrow> addr option) \<Rightarrow> bool" where
  "page_dir v pd T \<longleftrightarrow> palloc_ok (pgs v) \<and> pd \<in> allocated (pgs v) \<and> dom T \<subseteq> {..<768} \<and> inj_on T (dom T) \<and>
     (\<forall>i<768. case T i of None \<Rightarrow> read32 v (pd + 4 * i) = 0
        | Some pt \<Rightarrow> pt \<in> allocated (pgs v) - {pd} \<and> read32 v (pd + 4 * i) = pde_word pt)"

definition kernel_page :: "addr \<Rightarrow> bool" where
  "kernel_page a \<longleftrightarrow> PHYS_BASE \<le> a \<and> a < 2 ^ 32 \<and> a mod 4096 = 0"

lemma pool_allocated_kernel_page: "pool_ok p \<Longrightarrow> a \<in> pool_allocated p \<Longrightarrow> kernel_page a"
  by (auto simp: pool_allocated_def pool_ok_def kernel_page_def)

lemma allocated_kernel_page: "palloc_ok g \<Longrightarrow> a \<in> allocated g \<Longrightarrow> kernel_page a"
  by (auto simp: allocated_def palloc_ok_def pool_allocated_kernel_page)

text \<open>Words in different pages, or at different indices of one page, do not overlap.\<close>

lemma words_apart:
  assumes "kernel_page a" "kernel_page b" "i < 1024" "j < 1024" "a \<noteq> b \<or> i \<noteq> j"
  shows "apart_from (a + 4 * i) 4 (b + 4 * j) 4"
proof -
  obtain x y where "a = 4096 * x" "b = 4096 * y" using assms(1,2) by (auto simp: kernel_page_def elim!: dvdE)
  moreover have "x < y \<or> y < x \<or> (x = y \<and> i \<noteq> j)" using calculation assms(5) by auto
  ultimately show ?thesis using assms(3,4) by (auto simp: apart_from_def)
qed

lemma read32_write32 [simp]: "read32 (write32 v a w) a = w"
  by (simp add: read32_def write32_def)

lemma read32_write32_other: "apart_from a 4 b 4 \<Longrightarrow> read32 (write32 v b w) a = read32 v a"
  by (simp add: read32_def write32_def)

lemma write32_fields [simp]:
  "palloc_ok (pgs (write32 v a w)) = palloc_ok (pgs v)" "allocated (pgs (write32 v a w)) = allocated (pgs v)"
  "init_page_dir (write32 v a w) = init_page_dir v" "init_ram_pages (write32 v a w) = init_ram_pages v" "cr3 (write32 v a w) = cr3 v"
  by (simp_all add: write32_def)

lemma low_flags: "take_bit 12 (PTE_U OR PTE_P OR PTE_W) = PTE_U OR PTE_P OR PTE_W"
  by (simp add: PTE_U_def PTE_P_def PTE_W_def)

lemma pde_word_facts:
  assumes "kernel_page pt"
  shows "pde_create pt = Some (pde_word pt)" "pde_get_pt (pde_word pt) = Some pt" "pde_word pt \<noteq> 0" "pde_word pt AND PTE_P \<noteq> 0"
proof -
  have p: "pt - PHYS_BASE < 2 ^ 32" "(pt - PHYS_BASE) mod 4096 = 0" using assms by (auto simp: kernel_page_def)
  have e: "pde_word pt = of_nat (pt - PHYS_BASE) OR (PTE_U OR PTE_P OR PTE_W)"
    by (simp add: pde_word_def or.assoc)
  note w = page_entry [OF p low_flags, folded e]
  have "pde_word pt AND PTE_P = take_bit 12 (pde_word pt) AND PTE_P" by (rule flag_take_bit) (simp add: PTE_P_def)
  then show P: "pde_word pt AND PTE_P \<noteq> 0" unfolding w(2) by (simp add: PTE_P_def PTE_U_def PTE_W_def)
  then show "pde_word pt \<noteq> 0" by auto
  show "pde_create pt = Some (pde_word pt)"
    using assms by (simp add: pde_create_def pg_ofs_eq vtop_def is_kernel_vaddr_def kernel_page_def pde_word_def or.assoc)
  show "pde_get_pt (pde_word pt) = Some pt"
    using P assms by (auto simp: pde_get_pt_def w(1) ptov_def kernel_page_def ASSERT_def)
qed

section \<open>Looking up an entry\<close>

lemma user_indices: "va < PHYS_BASE \<Longrightarrow> pd_no va < 768" "pt_no va < 1024"
  by (simp_all add: pd_no_eq pt_no_eq)

lemma same_page_iff: "pd_no a = pd_no b \<and> pt_no a = pt_no b \<longleftrightarrow> a div 4096 = b div 4096"
proof -
  have "pd_no x = x div 4096 div 1024" for x by (simp add: pd_no_eq div_mult2_eq [symmetric])
  then show ?thesis unfolding pt_no_eq by (metis div_mult_mod_eq)
qed

lemma page_dir_kernel_page:
  assumes "page_dir v pd T"
  shows "kernel_page pd" "i < 768 \<Longrightarrow> T i = Some pt \<Longrightarrow> kernel_page pt"
  using assms allocated_kernel_page [of "pgs v"] by (auto simp: page_dir_def split: option.splits)

lemma page_dir_entry:
  assumes "page_dir v pd T" "i < 768"
  shows "read32 v (pd + 4 * i) = (case T i of None \<Rightarrow> 0 | Some pt \<Rightarrow> pde_word pt)"
  using assms by (auto simp: page_dir_def split: option.splits)

text \<open>Where the entry of an address is; 0 when there is no table.\<close>

definition slot :: "(nat \<Rightarrow> addr option) \<Rightarrow> addr \<Rightarrow> addr" where
  "slot T va = (case T (pd_no va) of None \<Rightarrow> NULL | Some pt \<Rightarrow> pt + 4 * pt_no va)"

lemma lookup_page_find:
  assumes pd: "page_dir v pd T" and va: "va < PHYS_BASE"
  shows "lookup_page v pd va False = Some (slot T va, v)"
proof -
  have i: "pd_no va < 768" using va by (rule user_indices)
  have "pd \<noteq> NULL" using page_dir_kernel_page(1) [OF pd] by (auto simp: kernel_page_def)
  then show ?thesis
    using page_dir_entry [OF pd i] page_dir_kernel_page(2) [OF pd i] pde_word_facts
    by (cases "T (pd_no va)") (auto simp: lookup_page_def Let_def table_entry_def slot_def)
qed

lemma lookup_page_present:
  assumes pd: "page_dir v pd T" and va: "va < PHYS_BASE" and t: "T (pd_no va) = Some pt"
  shows "lookup_page v pd va True = Some (slot T va, v)"
proof -
  have i: "pd_no va < 768" using va by (rule user_indices)
  have "pd \<noteq> NULL" using page_dir_kernel_page(1) [OF pd] by (auto simp: kernel_page_def)
  then show ?thesis
    using page_dir_entry [OF pd i] page_dir_kernel_page(2) [OF pd i] pde_word_facts t va
    by (auto simp: lookup_page_def Let_def table_entry_def slot_def is_user_vaddr_def)
qed

lemma slot_distinct:
  assumes pd: "page_dir v pd T" and va: "va < PHYS_BASE" "vb < PHYS_BASE" and t: "T (pd_no va) = Some pt" "T (pd_no vb) = Some pt'"
    and ne: "va div 4096 \<noteq> vb div 4096"
  shows "apart_from (slot T va) 4 (slot T vb) 4"
proof -
  have "kernel_page pt" "kernel_page pt'" using page_dir_kernel_page(2) [OF pd] user_indices(1) va t by blast+
  moreover have "pt \<noteq> pt' \<or> pt_no va \<noteq> pt_no vb"
  proof (rule ccontr)
    assume "\<not> ?thesis"
    then have "T (pd_no va) = T (pd_no vb)" "pt_no va = pt_no vb" using t by auto
    moreover from this(1) have "pd_no va = pd_no vb"
      using pd t by (intro inj_onD [of T "dom T"]) (auto simp: page_dir_def)
    ultimately show False using same_page_iff [of va vb] ne by simp
  qed
  ultimately show ?thesis using t user_indices(2) by (simp add: slot_def words_apart)
qed

lemma slot_apart_pd:
  assumes pd: "page_dir v pd T" and va: "va < PHYS_BASE" and t: "T (pd_no va) = Some pt" and i: "i < 1024"
  shows "apart_from (pd + 4 * i) 4 (slot T va) 4"
proof -
  have k: "kernel_page pd" "kernel_page pt" using page_dir_kernel_page [OF pd] user_indices(1) [OF va] t by auto
  have "pt \<noteq> pd" using pd user_indices(1) [OF va] t by (auto simp: page_dir_def split: option.splits)
  with k show ?thesis using t user_indices(2) i by (simp add: slot_def words_apart)
qed

text \<open>Writing an entry of a page table keeps the directory.\<close>

lemma page_dir_write_slot:
  assumes pd: "page_dir v pd T" and va: "va < PHYS_BASE" and t: "T (pd_no va) = Some pt"
  shows "page_dir (write32 v (slot T va) w) pd T"
proof -
  have "read32 (write32 v (slot T va) w) (pd + 4 * i) = read32 v (pd + 4 * i)" if "i < 768" for i
    using slot_apart_pd [OF pd va t, of i] that by (simp add: read32_write32_other)
  with pd show ?thesis by (auto simp: page_dir_def split: option.splits)
qed

text \<open>The entry of an address, 0 without a table.\<close>

definition pte :: "vm \<Rightarrow> (nat \<Rightarrow> addr option) \<Rightarrow> addr \<Rightarrow> u32" where
  "pte v T va = (case T (pd_no va) of None \<Rightarrow> 0 | Some _ \<Rightarrow> read32 v (slot T va))"

lemma pte_write_slot:
  assumes pd: "page_dir v pd T" and va: "va < PHYS_BASE" "vb < PHYS_BASE" and t: "T (pd_no va) = Some pt"
  shows "pte (write32 v (slot T va) w) T vb = (if vb div 4096 = va div 4096 then w else pte v T vb)"
proof (cases "vb div 4096 = va div 4096")
  case True
  then have "pd_no vb = pd_no va" "pt_no vb = pt_no va" using same_page_iff by metis+
  then have "slot T vb = slot T va" by (simp add: slot_def split: option.split)
  with True t \<open>pd_no vb = pd_no va\<close> show ?thesis by (simp add: pte_def)
next
  case False
  show ?thesis
  proof (cases "T (pd_no vb)")
    case (Some pt')
    have "apart_from (slot T vb) 4 (slot T va) 4" by (rule slot_distinct [OF pd va(2,1) Some t False])
    with False Some show ?thesis by (simp add: pte_def read32_write32_other)
  qed (use False in \<open>simp add: pte_def\<close>)
qed

lemma pagedir_get_page_pte:
  assumes pd: "page_dir v pd T" and va: "va < PHYS_BASE"
  shows "pagedir_get_page v pd va = (if pte v T va AND PTE_P \<noteq> 0
    then do { k \<leftarrow> pte_get_page (pte v T va); Some (k + va mod 4096) } else Some NULL)"
proof (cases "T (pd_no va)")
  case None
  then show ?thesis
    using va by (simp add: pagedir_get_page_def lookup_page_find [OF pd va] is_user_vaddr_def slot_def pte_def)
next
  case (Some pt)
  have "kernel_page pt" using page_dir_kernel_page(2) [OF pd user_indices(1) [OF va] Some] .
  then have "slot T va \<noteq> NULL" using Some by (auto simp: slot_def kernel_page_def)
  with Some va show ?thesis
    by (simp add: pagedir_get_page_def lookup_page_find [OF pd va] is_user_vaddr_def pte_def pg_ofs_eq)
qed

section \<open>Adding a table\<close>

lemma pages_apart:
  assumes "kernel_page a" "kernel_page b" "a \<noteq> b" "i < 1024"
  shows "apart_from (a + 4 * i) 4 b 4096"
proof -
  obtain x y where "a = 4096 * x" "b = 4096 * y" using assms(1,2) by (auto simp: kernel_page_def elim!: dvdE)
  moreover have "x < y \<or> y < x" using calculation assms(3) by auto
  ultimately show ?thesis using assms(4) by (auto simp: apart_from_def)
qed

lemma load32_zeros: "i < 1024 \<Longrightarrow> load32 (store_bytes m a (replicate 4096 0)) (a + 4 * i) = 0"
proof -
  assume "i < 1024"
  then have "load_bytes (store_bytes m a (replicate 4096 0)) (a + 4 * i) 4 = replicate 4 0"
    by (intro nth_equalityI) (auto simp: store_bytes_def)
  then show ?thesis by (simp add: load32_def un_le32_def)
qed

lemma lookup_page_full:
  assumes pd: "page_dir v pd T" and va: "va < PHYS_BASE" and t: "T (pd_no va) = None" and full: "pool_full (pgs v) 0 1"
  shows "lookup_page v pd va True = Some (NULL, v)"
proof -
  have i: "pd_no va < 768" using va by (rule user_indices)
  have "pd \<noteq> NULL" using page_dir_kernel_page(1) [OF pd] by (auto simp: kernel_page_def)
  moreover have "pool_full (pgs v) PAL_ZERO 1"
    using full by (simp add: pool_full_def pool_of_def PAL_USER_def PAL_ZERO_def)
  then have "palloc_get_page (pgs v) PAL_ZERO = Some (NULL, pgs v)"
    using palloc_get_full [of "pgs v" 1 PAL_ZERO] pd
    by (simp add: palloc_get_page_def page_dir_def PAL_ASSERT_def PAL_ZERO_def)
  ultimately show ?thesis
    using page_dir_entry [OF pd i] t va by (simp add: lookup_page_def Let_def is_user_vaddr_def)
qed

lemma palloc_zero_page:
  assumes ok: "palloc_ok (pgs v)" and free: "\<not> pool_full (pgs v) 0 1"
  obtains pt g where "palloc_get_page (pgs v) PAL_ZERO = Some (pt, g)" "palloc_ok g" "kernel_page pt"
    "pt \<notin> allocated (pgs v)" "allocated g = insert pt (allocated (pgs v))"
    "\<And>a j. kernel_page a \<Longrightarrow> a \<noteq> pt \<Longrightarrow> j < 1024 \<Longrightarrow> read32 (v\<lparr>pgs := g\<rparr>) (a + 4 * j) = read32 v (a + 4 * j)"
    "\<And>j. j < 1024 \<Longrightarrow> read32 (v\<lparr>pgs := g\<rparr>) (pt + 4 * j) = 0"
    "\<And>x. page_base x \<noteq> pt \<Longrightarrow> ram g x = ram (pgs v) x" "pool_pages (user_pool g) = pool_pages (user_pool (pgs v))"
proof -
  have free': "\<not> pool_full (pgs v) PAL_ZERO 1"
    using free by (simp add: pool_full_def pool_of_def PAL_USER_def PAL_ZERO_def)
  obtain pt g where g: "palloc_get_multiple (pgs v) PAL_ZERO 1 = Some (pt, g)" "palloc_ok g" "pt \<noteq> NULL" "pt mod 4096 = 0"
    "pt + 4096 * 1 \<le> 2 ^ 32" "PHYS_BASE \<le> pt" "pages_at pt 1 \<inter> allocated (pgs v) = {}" "allocated g = allocated (pgs v) \<union> pages_at pt 1"
    "ram g = (if PAL_ZERO AND PAL_ZERO \<noteq> 0 then store_bytes (ram (pgs v)) pt (replicate (4096 * 1) 0) else ram (pgs v))"
    "pool_pages (user_pool g) = pool_pages (user_pool (pgs v))"
    by (rule palloc_get_found [OF ok _ free']) auto
  have mem: "ram g = store_bytes (ram (pgs v)) pt (replicate 4096 0)" using g(9) by (simp add: PAL_ZERO_def)
  have kpt: "kernel_page pt" using g(4-6) by (simp add: kernel_page_def)
  show thesis
  proof (rule that [of pt g])
    show "palloc_get_page (pgs v) PAL_ZERO = Some (pt, g)" using g(1) by (simp add: palloc_get_page_def)
    show "read32 (v\<lparr>pgs := g\<rparr>) (a + 4 * j) = read32 v (a + 4 * j)" if "kernel_page a" "a \<noteq> pt" "j < 1024" for a j
      using pages_apart [OF that(1) kpt that(2,3)] by (simp add: read32_def mem load32_store_bytes_other)
    show "read32 (v\<lparr>pgs := g\<rparr>) (pt + 4 * j) = 0" if "j < 1024" for j
      using that by (simp add: read32_def mem load32_zeros)
    show "ram g x = ram (pgs v) x" if "page_base x \<noteq> pt" for x
      unfolding mem using page_base_outside [OF g(4) that] by (intro store_bytes_outside) auto
  qed (use g kpt in auto)
qed

text \<open>
  The state \<open>v'\<close> comes from \<open>v\<close> by allocating pages and writing to them and to the tables: other bytes, the
  number of frames and the pool of user pages are the same.
\<close>

definition same_outside :: "vm \<Rightarrow> addr set \<Rightarrow> vm \<Rightarrow> bool" where
  "same_outside v P v' \<longleftrightarrow> (\<forall>x. page_base x \<notin> P \<longrightarrow> ram (pgs v') x = ram (pgs v) x) \<and>
     pool_pages (user_pool (pgs v')) = pool_pages (user_pool (pgs v)) \<and> init_page_dir v' = init_page_dir v \<and>
     init_ram_pages v' = init_ram_pages v \<and> cr3 v' = cr3 v"

lemma same_outside_trans: "same_outside v P v' \<Longrightarrow> same_outside v' Q v'' \<Longrightarrow> same_outside v (P \<union> Q) v''"
  by (simp add: same_outside_def)

lemma same_outside_mono: "same_outside v P v' \<Longrightarrow> P \<subseteq> Q \<Longrightarrow> same_outside v Q v'"
  by (auto simp: same_outside_def)

lemma same_outside_write32:
  assumes "kernel_page a" "j < 1024"
  shows "same_outside v {a} (write32 v (a + 4 * j) w)"
proof -
  have "store32 (ram (pgs v)) (a + 4 * j) w x = ram (pgs v) x" if "page_base x \<noteq> a" for x
    using page_base_outside [of a x] that assms by (auto simp: store32_def kernel_page_def intro!: store_bytes_outside)
  then show ?thesis by (simp add: same_outside_def write32_def)
qed

text \<open>
  A state with a fresh zero page \<open>pt\<close> entered into the directory: only the entry in the directory and the
  new page differ from before.
\<close>

definition adds_table :: "vm \<Rightarrow> addr \<Rightarrow> nat \<Rightarrow> addr \<Rightarrow> vm \<Rightarrow> bool" where
  "adds_table v pd i pt v' \<longleftrightarrow> palloc_ok (pgs v') \<and> kernel_page pt \<and> pt \<notin> allocated (pgs v) \<and>
     allocated (pgs v') = insert pt (allocated (pgs v)) \<and> read32 v' (pd + 4 * i) = pde_word pt \<and>
     (\<forall>j<1024. read32 v' (pt + 4 * j) = 0) \<and>
     (\<forall>a j. kernel_page a \<longrightarrow> a \<noteq> pt \<longrightarrow> j < 1024 \<longrightarrow> a \<noteq> pd \<or> j \<noteq> i \<longrightarrow> read32 v' (a + 4 * j) = read32 v (a + 4 * j)) \<and>
     same_outside v {pd, pt} v'"

lemma page_dir_adds_table:
  assumes pd: "page_dir v pd T" and i: "i < 768" "T i = None" and a: "adds_table v pd i pt v'"
  shows "page_dir v' pd (T(i \<mapsto> pt))"
proof -
  have new: "pt \<noteq> pd" using pd a by (auto simp: page_dir_def adds_table_def)
  have fresh: "T x \<noteq> Some pt" for x
  proof
    assume x: "T x = Some pt"
    then have "x < 768" using pd by (auto simp: page_dir_def)
    with x pd a show False by (auto simp: page_dir_def adds_table_def)
  qed
  have "case (T(i \<mapsto> pt)) j of None \<Rightarrow> read32 v' (pd + 4 * j) = 0
      | Some q \<Rightarrow> q \<in> allocated (pgs v') - {pd} \<and> read32 v' (pd + 4 * j) = pde_word q" if j: "j < 768" for j
  proof (cases "j = i")
    case False
    then have "read32 v' (pd + 4 * j) = read32 v (pd + 4 * j)"
      using a page_dir_kernel_page(1) [OF pd] new j by (auto simp: adds_table_def)
    with False j pd a show ?thesis by (auto simp: page_dir_def adds_table_def split: option.splits)
  qed (use a new in \<open>simp add: adds_table_def\<close>)
  moreover have "inj_on (T(i \<mapsto> pt)) (dom (T(i \<mapsto> pt)))"
    using pd fresh i(2) by (auto simp: page_dir_def inj_on_def)
  ultimately show ?thesis using pd a i by (auto simp: page_dir_def adds_table_def)
qed

lemma pte_adds_table:
  assumes pd: "page_dir v pd T" and i: "T i = None" and a: "adds_table v pd i pt v'" and vb: "vb < PHYS_BASE"
  shows "pte v' (T(i \<mapsto> pt)) vb = pte v T vb"
proof (cases "pd_no vb = i")
  case True
  then show ?thesis using a user_indices(2) i by (simp add: pte_def slot_def adds_table_def)
next
  case False
  show ?thesis
  proof (cases "T (pd_no vb)")
    case (Some q)
    have n: "pd_no vb < 768" using vb by (rule user_indices)
    with Some pd a have "q \<noteq> pt" "q \<noteq> pd" by (auto simp: page_dir_def adds_table_def split: option.splits)
    with page_dir_kernel_page(2) [OF pd n Some] Some False a user_indices(2) [of vb] show ?thesis
      by (simp add: pte_def slot_def adds_table_def)
  qed (use False in \<open>simp add: pte_def\<close>)
qed

lemma lookup_page_create:
  assumes pd: "page_dir v pd T" and va: "va < PHYS_BASE" and t: "T (pd_no va) = None" and free: "\<not> pool_full (pgs v) 0 1"
  obtains pt v' where "lookup_page v pd va True = Some (slot (T(pd_no va \<mapsto> pt)) va, v')" "adds_table v pd (pd_no va) pt v'"
proof -
  have i: "pd_no va < 768" using va by (rule user_indices)
  have kp: "kernel_page pd" using page_dir_kernel_page(1) [OF pd] .
  then have "pd \<noteq> NULL" by (auto simp: kernel_page_def)
  have ok: "palloc_ok (pgs v)" using pd by (simp add: page_dir_def)
  obtain pt g where g: "palloc_get_page (pgs v) PAL_ZERO = Some (pt, g)" "palloc_ok g" "kernel_page pt"
    "pt \<notin> allocated (pgs v)" "allocated g = insert pt (allocated (pgs v))"
    and rd: "\<And>a j. kernel_page a \<Longrightarrow> a \<noteq> pt \<Longrightarrow> j < 1024 \<Longrightarrow> read32 (v\<lparr>pgs := g\<rparr>) (a + 4 * j) = read32 v (a + 4 * j)"
    and zero: "\<And>j. j < 1024 \<Longrightarrow> read32 (v\<lparr>pgs := g\<rparr>) (pt + 4 * j) = 0"
    and out: "\<And>x. page_base x \<noteq> pt \<Longrightarrow> ram g x = ram (pgs v) x" "pool_pages (user_pool g) = pool_pages (user_pool (pgs v))"
    by (rule palloc_zero_page [OF ok free]) auto
  define v' where "v' = write32 (v\<lparr>pgs := g\<rparr>) (pd + 4 * pd_no va) (pde_word pt)"
  have "pt \<noteq> pd" using g(4) pd by (auto simp: page_dir_def)
  have wr: "read32 v' (a + 4 * j) = read32 (v\<lparr>pgs := g\<rparr>) (a + 4 * j)" if "kernel_page a" "j < 1024" "a \<noteq> pd \<or> j \<noteq> pd_no va" for a j
    unfolding v'_def using that kp i by (intro read32_write32_other words_apart) auto
  have "pt \<noteq> NULL" using g(3) by (auto simp: kernel_page_def)
  then have run: "lookup_page v pd va True = Some (slot (T(pd_no va \<mapsto> pt)) va, v')"
    using \<open>pd \<noteq> NULL\<close> page_dir_entry [OF pd i] t va g(1) pde_word_facts [OF g(3)]
    by (simp add: lookup_page_def Let_def is_user_vaddr_def table_entry_def slot_def v'_def)
  have "same_outside v {pt} (v\<lparr>pgs := g\<rparr>)" using out by (simp add: same_outside_def)
  then have "same_outside v {pd, pt} v'"
    using same_outside_trans [OF _ same_outside_write32 [OF kp]] i unfolding v'_def by (auto simp: insert_commute)
  then have "adds_table v pd (pd_no va) pt v'"
    unfolding adds_table_def using g(2-5) wr rd zero \<open>pt \<noteq> pd\<close> by (auto simp: v'_def)
  then show thesis by (intro that [OF run])
qed

section \<open>Installing a mapping\<close>

definition pte_word :: "addr \<Rightarrow> bool \<Rightarrow> u32" where
  "pte_word kpage writable = of_nat (kpage - PHYS_BASE) OR PTE_P OR (if writable then PTE_W else 0) OR PTE_U"

lemma pte_word_facts:
  assumes "kernel_page k"
  shows "pte_create_user k w = Some (pte_word k w)" "pte_get_page (pte_word k w) = Some k" "pte_word k w AND PTE_P \<noteq> 0"
    "pte_word k w AND PTE_W \<noteq> 0 \<longleftrightarrow> w"
proof -
  let ?f = "PTE_P OR (if w then PTE_W else 0) OR PTE_U"
  have p: "k - PHYS_BASE < 2 ^ 32" "(k - PHYS_BASE) mod 4096 = 0" using assms by (auto simp: kernel_page_def)
  have e: "pte_word k w = of_nat (k - PHYS_BASE) OR ?f" by (simp add: pte_word_def or.assoc)
  have f: "take_bit 12 ?f = ?f" by (simp add: PTE_U_def PTE_P_def PTE_W_def)
  note w = page_entry [OF p f, folded e]
  have "pte_word k w AND x = ?f AND x" if "take_bit 12 x = x" for x
    using flag_take_bit [OF that, of "pte_word k w"] by (simp only: w(2))
  from this [of PTE_P] this [of PTE_W] show "pte_word k w AND PTE_P \<noteq> 0" "pte_word k w AND PTE_W \<noteq> 0 \<longleftrightarrow> w"
    by (simp_all add: PTE_P_def PTE_U_def PTE_W_def)
  show "pte_create_user k w = Some (pte_word k w)"
    using assms by (simp add: pte_create_user_def pte_create_kernel_def pg_ofs_eq vtop_def is_kernel_vaddr_def kernel_page_def pte_word_def or.assoc)
  show "pte_get_page (pte_word k w) = Some k"
    using assms by (auto simp: pte_get_page_def w(1) ptov_def kernel_page_def ASSERT_def)
qed

text \<open>The checks of \<^verbatim>\<open>pagedir_set_page\<close> that do not depend on the directory.\<close>

definition set_page_args :: "vm \<Rightarrow> addr \<Rightarrow> addr \<Rightarrow> addr \<Rightarrow> bool" where
  "set_page_args v pd upage kpage \<longleftrightarrow> upage mod 4096 = 0 \<and> upage < PHYS_BASE \<and> kernel_page kpage \<and>
     (kpage - PHYS_BASE) div 4096 < init_ram_pages v \<and> pd \<noteq> init_page_dir v"

lemma pagedir_set_page_eq:
  assumes "set_page_args v pd upage kpage"
  shows "pagedir_set_page v pd upage kpage w = do {
    (pte, v) \<leftarrow> lookup_page v pd upage True;
    if pte \<noteq> NULL then do { ASSERT (read32 v pte AND PTE_P = 0); Some (True, write32 v pte (pte_word kpage w)) } else Some (False, v) }"
proof -
  have "pte_create_user kpage w = Some (pte_word kpage w)" using assms by (simp add: pte_word_facts set_page_args_def)
  with assms show ?thesis
    by (auto simp: pagedir_set_page_def set_page_args_def pg_ofs_eq is_user_vaddr_def vtop_def is_kernel_vaddr_def
      kernel_page_def PGBITS_def drop_bit_eq_div cong: if_cong)
qed

lemma slot_not_null: "page_dir v pd T \<Longrightarrow> va < PHYS_BASE \<Longrightarrow> T (pd_no va) = Some pt \<Longrightarrow> slot T va \<noteq> NULL"
  using page_dir_kernel_page(2) [of v pd T "pd_no va" pt] user_indices(1) [of va] by (auto simp: slot_def kernel_page_def)

text \<open>The part after the lookup, in a state where the table exists.\<close>

lemma install_in_table:
  fixes w :: u32
  assumes pd: "page_dir v pd T" and va: "va < PHYS_BASE" and t: "T (pd_no va) = Some pt" and free: "pte v T va AND PTE_P = 0"
  defines "v' \<equiv> write32 v (slot T va) w"
  shows "(do { ASSERT (read32 v (slot T va) AND PTE_P = 0); Some (True, write32 v (slot T va) w) }) = Some (True, v')"
    "page_dir v' pd T" "\<And>vb. vb < PHYS_BASE \<Longrightarrow> pte v' T vb = (if vb div 4096 = va div 4096 then w else pte v T vb)"
  using page_dir_write_slot [OF pd va t] pte_write_slot [OF pd va _ t] free t by (simp_all add: v'_def pte_def)

lemma same_outside_slot:
  assumes "page_dir v pd T" "va < PHYS_BASE" "T (pd_no va) = Some pt"
  shows "same_outside v {pt} (write32 v (slot T va) w)"
  using same_outside_write32 [OF page_dir_kernel_page(2) [OF assms(1) user_indices(1) [OF assms(2)] assms(3)] user_indices(2)] assms(3)
  by (simp add: slot_def)

lemma pagedir_set_page_cases:
  assumes pd: "page_dir v pd T" and args: "set_page_args v pd upage kpage" and free: "pte v T upage AND PTE_P = 0"
  obtains "T (pd_no upage) = None" "pool_full (pgs v) 0 1" "pagedir_set_page v pd upage kpage w = Some (False, v)"
  | T' v' where "pagedir_set_page v pd upage kpage w = Some (True, v')" "page_dir v' pd T'"
      "\<And>vb. vb < PHYS_BASE \<Longrightarrow> pte v' T' vb = (if vb div 4096 = upage div 4096 then pte_word kpage w else pte v T vb)"
      "allocated (pgs v) \<subseteq> allocated (pgs v')" "ran T' \<inter> allocated (pgs v) \<subseteq> ran T" "same_outside v (insert pd (ran T')) v'"
proof -
  have u: "upage < PHYS_BASE" using args by (simp add: set_page_args_def)
  note eq = pagedir_set_page_eq [OF args]
  show thesis
  proof (cases "T (pd_no upage)")
    case (Some pt)
    note i = install_in_table [OF pd u Some free, where w = "pte_word kpage w"]
    have "pagedir_set_page v pd upage kpage w = Some (True, write32 v (slot T upage) (pte_word kpage w))"
      unfolding eq lookup_page_present [OF pd u Some] using i(1) slot_not_null [OF pd u Some] by simp
    moreover have "same_outside v (insert pd (ran T)) (write32 v (slot T upage) (pte_word kpage w))"
      by (rule same_outside_mono [OF same_outside_slot [OF pd u Some]]) (use Some in \<open>auto simp: ran_def\<close>)
    ultimately show thesis using i(2,3) by (intro that(2)) auto
  next
    case None
    show thesis
    proof (cases "pool_full (pgs v) 0 1")
      case True
      with None show thesis using that(1) by (simp add: eq lookup_page_full [OF pd u None True])
    next
      case False
      obtain pt v1 where v1: "lookup_page v pd upage True = Some (slot (T(pd_no upage \<mapsto> pt)) upage, v1)" "adds_table v pd (pd_no upage) pt v1"
        by (rule lookup_page_create [OF pd u None False])
      let ?T = "T(pd_no upage \<mapsto> pt)"
      have pd1: "page_dir v1 pd ?T" using page_dir_adds_table [OF pd user_indices(1) [OF u] None v1(2)] .
      note pte1 = pte_adds_table [OF pd None v1(2)]
      have t1: "?T (pd_no upage) = Some pt" by simp
      have free1: "pte v1 ?T upage AND PTE_P = 0" using free pte1 [OF u] by simp
      note i = install_in_table [OF pd1 u t1 free1, where w = "pte_word kpage w"]
      have "pagedir_set_page v pd upage kpage w = Some (True, write32 v1 (slot ?T upage) (pte_word kpage w))"
        unfolding eq v1(1) using i(1) slot_not_null [OF pd1 u t1] by (simp del: fun_upd_apply)
      moreover have "same_outside v (insert pd (ran ?T)) (write32 v1 (slot ?T upage) (pte_word kpage w))"
      proof -
        have "same_outside v {pd, pt} v1" using v1(2) by (simp add: adds_table_def)
        from same_outside_trans [OF this same_outside_slot [OF pd1 u t1]]
        show ?thesis by (rule same_outside_mono) (auto simp: ran_def)
      qed
      moreover have "ran ?T \<inter> allocated (pgs v) \<subseteq> ran T" using v1(2) None by (auto simp: adds_table_def ran_def split: if_splits)
      ultimately show thesis using i(2)
        by (intro that(2)) (use i(3) pte1 v1(2) in \<open>auto simp: adds_table_def simp del: fun_upd_apply\<close>)
    qed
  qed
qed

section \<open>Changing an entry\<close>

lemma invalidate_pagedir_same:
  assumes "cr3 v < PHYS_BASE" "kernel_page pd"
  shows "\<exists>c. invalidate_pagedir v pd = Some (v\<lparr>cr3 := c\<rparr>)"
proof -
  have "invalidate_pagedir v pd = Some (v\<lparr>cr3 := if (cr3 v + PHYS_BASE) mod 2 ^ 32 = pd then pd - PHYS_BASE else cr3 v\<rparr>)"
    using assms by (auto simp: invalidate_pagedir_def active_pd_def ptov_def pagedir_activate_def vtop_def is_kernel_vaddr_def kernel_page_def)
  then show ?thesis ..
qed

lemma cr3_irrelevant [simp]:
  "page_dir (v\<lparr>cr3 := c\<rparr>) pd T = page_dir v pd T" "pte (v\<lparr>cr3 := c\<rparr>) T va = pte v T va"
  by (simp_all add: page_dir_def pte_def read32_def cong: option.case_cong)

text \<open>A bit operation \<open>g\<close> on the entry of \<open>va\<close>, with or without the invalidation of the translation buffer.\<close>

lemma update_slot:
  assumes pd: "page_dir v pd T" and va: "va < PHYS_BASE" and t: "T (pd_no va) = Some pt" and c: "cr3 v < PHYS_BASE"
  shows "\<exists>v'. invalidate_pagedir (write32 v (slot T va) w) pd = Some v' \<and> page_dir v' pd T \<and>
    (\<forall>vb<PHYS_BASE. pte v' T vb = (if vb div 4096 = va div 4096 then w else pte v T vb))"
proof -
  obtain k where "invalidate_pagedir (write32 v (slot T va) w) pd = Some ((write32 v (slot T va) w)\<lparr>cr3 := k\<rparr>)"
    using invalidate_pagedir_same [of "write32 v (slot T va) w" pd] c page_dir_kernel_page(1) [OF pd] by auto
  then show ?thesis using page_dir_write_slot [OF pd va t] pte_write_slot [OF pd va _ t] by auto
qed

lemma change_flag_pte:
  assumes pd: "page_dir v pd T" and va: "va < PHYS_BASE" and t: "T (pd_no va) = Some pt" and c: "cr3 v < PHYS_BASE"
  shows "\<exists>v'. change_flag v pd va f on = Some v' \<and> page_dir v' pd T \<and>
    (\<forall>vb<PHYS_BASE. pte v' T vb = (if vb div 4096 = va div 4096
       then (if on then pte v T va OR f else pte v T va AND NOT f) else pte v T vb))"
proof -
  have s: "slot T va \<noteq> NULL" "read32 v (slot T va) = pte v T va" using slot_not_null [OF pd va t] t by (simp_all add: pte_def)
  note l = lookup_page_find [OF pd va]
  show ?thesis
  proof (cases on)
    case True
    with s l show ?thesis
      using page_dir_write_slot [OF pd va t] pte_write_slot [OF pd va _ t] by (auto simp: change_flag_def)
  next
    case False
    with s l show ?thesis using update_slot [OF pd va t c, of "pte v T va AND NOT f"] by (auto simp: change_flag_def)
  qed
qed

lemma test_flag_pte:
  assumes "page_dir v pd T" "va < PHYS_BASE"
  shows "test_flag v pd va f = Some (pte v T va AND f \<noteq> 0)"
  using lookup_page_find [OF assms] slot_not_null [OF assms]
  by (cases "T (pd_no va)") (auto simp: test_flag_def pte_def, simp add: slot_def)

lemma pagedir_clear_page_pte:
  assumes pd: "page_dir v pd T" and va: "va < PHYS_BASE" "va mod 4096 = 0" and c: "cr3 v < PHYS_BASE"
  shows "\<exists>v'. pagedir_clear_page v pd va = Some v' \<and> page_dir v' pd T \<and>
    (\<forall>vb<PHYS_BASE. pte v' T vb = (if vb div 4096 = va div 4096 then pte v T va AND NOT PTE_P else pte v T vb))"
proof (cases "pte v T va AND PTE_P = 0")
  case True
  have "slot T va = NULL \<or> read32 v (slot T va) = pte v T va" by (auto simp: pte_def slot_def split: option.split)
  with True have "pagedir_clear_page v pd va = Some v"
    using va by (auto simp: pagedir_clear_page_def lookup_page_find [OF pd va(1)] pg_ofs_eq is_user_vaddr_def)
  moreover have c: "pte v T va AND NOT PTE_P = pte v T va"
  proof -
    have "pte v T va = (pte v T va AND PTE_P) OR (pte v T va AND NOT PTE_P)" by (rule bit_eqI) (auto simp: bit_simps)
    with True show ?thesis by simp
  qed
  moreover have "pte v T vb = (if vb div 4096 = va div 4096 then pte v T va AND NOT PTE_P else pte v T vb)" for vb
  proof (cases "vb div 4096 = va div 4096")
    case True
    then have "pd_no vb = pd_no va" "pt_no vb = pt_no va" using same_page_iff by metis+
    then have "pte v T vb = pte v T va" by (simp add: pte_def slot_def split: option.split)
    with True c show ?thesis by simp
  qed simp
  ultimately show ?thesis using pd by blast
next
  case False
  then obtain pt where t: "T (pd_no va) = Some pt" by (cases "T (pd_no va)") (auto simp: pte_def)
  with False slot_not_null [OF pd va(1) t] update_slot [OF pd va(1) t c, of "pte v T va AND NOT PTE_P"] va show ?thesis
    by (auto simp: pagedir_clear_page_def lookup_page_find [OF pd va(1)] pg_ofs_eq is_user_vaddr_def pte_def)
qed

text \<open>Flags do not disturb each other or the address.\<close>

lemma flag_algebra:
  fixes e :: u32
  shows "(e OR f) AND f = f" "(e AND NOT f) AND f = 0" "f AND g = 0 \<Longrightarrow> (e OR f) AND g = e AND g" "f AND g = 0 \<Longrightarrow> (e AND NOT f) AND g = e AND g"
proof -
  show "(e OR f) AND f = f" "(e AND NOT f) AND f = 0" by (rule bit_eqI; auto simp: bit_simps)+
  assume "f AND g = 0"
  then have *: "\<not> (bit f n \<and> bit g n)" for n by (metis bit_0_eq bit_and_iff bot_apply bot_bool_def)
  show "(e OR f) AND g = e AND g" "(e AND NOT f) AND g = e AND g" by (rule bit_eqI; use * in \<open>auto simp: bit_simps\<close>)+
qed

end
