(* ===== verification/Page_Dir_Free.thy ===== *)
theory Page_Dir_Free
  imports Page_Directory
begin

text \<open>
  The life of a page directory: \<^verbatim>\<open>pagedir_create\<close> copies the kernel's directory, and \<^verbatim>\<open>pagedir_destroy\<close>
  returns every page that the directory owns, its frames, its tables and itself.  The relation
  \<open>frees v A v'\<close> says that the pages \<open>A\<close> were returned and that all other pages are as before.
\<close>

definition frees :: "vm \<Rightarrow> addr set \<Rightarrow> vm \<Rightarrow> bool" where
  "frees v A v' \<longleftrightarrow> palloc_ok (pgs v') \<and> allocated (pgs v') = allocated (pgs v) - A \<and> init_page_dir v' = init_page_dir v \<and>
     (\<forall>a j. kernel_page a \<longrightarrow> a \<notin> A \<longrightarrow> j < 1024 \<longrightarrow> read32 v' (a + 4 * j) = read32 v (a + 4 * j))"

lemma frees_refl: "palloc_ok (pgs v) \<Longrightarrow> frees v {} v"
  by (simp add: frees_def)

lemma frees_palloc_free_page:
  assumes f: "frees v A v1" and p: "p \<in> allocated (pgs v)" "p \<notin> A" "kernel_page p"
  obtains g where "palloc_free_page (pgs v1) p = Some g" "frees v (insert p A) (v1\<lparr>pgs := g\<rparr>)"
proof -
  have ok: "palloc_ok (pgs v1)" and al: "p \<in> allocated (pgs v1)" using f p by (auto simp: frees_def)
  have "p mod 4096 = 0" using p(3) by (simp add: kernel_page_def)
  then obtain g where g: "palloc_free_multiple (pgs v1) p 1 = Some g" "palloc_ok g" "allocated g = allocated (pgs v1) - pages_at p 1"
    "ram g = store_bytes (ram (pgs v1)) p (replicate (4096 * 1) 0xcc)"
    using palloc_free_allocated [OF ok, of p 1] al by (auto simp: pages_at_def)
  have "read32 (v1\<lparr>pgs := g\<rparr>) (a + 4 * j) = read32 v1 (a + 4 * j)" if "kernel_page a" "a \<noteq> p" "j < 1024" for a j
    using pages_apart [OF that(1) p(3) that(2,3)] by (simp add: read32_def g(4) load32_store_bytes_other)
  with f g(2,3) have "frees v (insert p A) (v1\<lparr>pgs := g\<rparr>)" by (auto simp: frees_def)
  then show thesis using g(1) that by (simp add: palloc_free_page_def)
qed

section \<open>The pages a directory owns\<close>

text \<open>\<open>F i j\<close> is the frame of the \<open>j\<close>-th entry of the \<open>i\<close>-th table, if it is present.\<close>

definition entry_frame :: "u32 \<Rightarrow> addr option \<Rightarrow> bool" where
  "entry_frame e f \<longleftrightarrow> (case f of None \<Rightarrow> e AND PTE_P = 0 | Some k \<Rightarrow> e AND PTE_P \<noteq> 0 \<and> pte_get_page e = Some k)"

definition owns :: "vm \<Rightarrow> addr \<Rightarrow> (nat \<Rightarrow> addr option) \<Rightarrow> (nat \<Rightarrow> nat \<Rightarrow> addr option) \<Rightarrow> bool" where
  "owns v pd T F \<longleftrightarrow>
     (\<forall>i pt j. T i = Some pt \<longrightarrow> j < 1024 \<longrightarrow> entry_frame (read32 v (pt + 4 * j)) (F i j)) \<and>
     (\<forall>i j k. F i j = Some k \<longrightarrow> k \<in> allocated (pgs v) \<and> k \<noteq> pd \<and> k \<notin> ran T) \<and>
     (\<forall>i j i' j' k. F i j = Some k \<longrightarrow> F i' j' = Some k \<longrightarrow> i = i' \<and> j = j')"

definition frames :: "(nat \<Rightarrow> addr option) \<Rightarrow> nat \<Rightarrow> addr set" where
  "frames G n = {k. \<exists>j<n. G j = Some k}"

definition table_pages :: "(nat \<Rightarrow> addr option) \<Rightarrow> (nat \<Rightarrow> nat \<Rightarrow> addr option) \<Rightarrow> nat \<Rightarrow> addr set" where
  "table_pages T F i = (case T i of None \<Rightarrow> {} | Some pt \<Rightarrow> insert pt (frames (F i) 1024))"

definition owned_pages :: "(nat \<Rightarrow> addr option) \<Rightarrow> (nat \<Rightarrow> nat \<Rightarrow> addr option) \<Rightarrow> nat \<Rightarrow> addr set" where
  "owned_pages T F n = (\<Union>i<n. table_pages T F i)"

lemma frames_0 [simp]: "frames G 0 = {}"
  and frames_Suc: "frames G (Suc n) = frames G n \<union> set_option (G n)"
  by (auto simp: frames_def less_Suc_eq)

lemma owned_pages_0 [simp]: "owned_pages T F 0 = {}"
  and owned_pages_Suc: "owned_pages T F (Suc n) = owned_pages T F n \<union> table_pages T F n"
  by (auto simp: owned_pages_def less_Suc_eq)

text \<open>One table: the loop over its entries.\<close>

lemma free_frames_frees:
  assumes pt: "kernel_page pt" "pt \<notin> A" and ok: "palloc_ok (pgs v)"
    and e: "\<And>j. j < 1024 \<Longrightarrow> entry_frame (read32 v (pt + 4 * j)) (G j)"
    and G: "\<And>j k. G j = Some k \<Longrightarrow> k \<in> allocated (pgs v) - A - {pt}" "inj_on G (dom G)"
  shows "frees v (A \<union> frames G j) v1 \<Longrightarrow> j + n = 1024 \<Longrightarrow>
    \<exists>v'. free_frames v1 pt j n = Some v' \<and> frees v (A \<union> frames G 1024) v'"
proof (induction n arbitrary: j v1)
  case 0
  then show ?case by simp
next
  case (Suc n)
  let ?e = "read32 v1 (pt + 4 * j)"
  have "pt \<notin> A \<union> frames G j" using pt(2) G(1) by (auto simp: frames_def)
  then have rd: "?e = read32 v (pt + 4 * j)" using Suc.prems pt(1) by (simp add: frees_def)
  show ?case
  proof (cases "G j")
    case None
    then have "frees v (A \<union> frames G (j + 1)) v1" using Suc.prems(1) by (simp add: frames_Suc)
    with Suc.IH [of "j + 1" v1] Suc.prems(2) e [of j] None show ?thesis by (simp add: rd entry_frame_def)
  next
    case (Some k)
    have k: "k \<in> allocated (pgs v)" using G(1) [OF Some] by auto
    have "l = j" if "G l = Some k" for l using inj_onD [OF G(2), of l j] Some that by auto
    then have new: "k \<notin> A \<union> frames G j" using G(1) [OF Some] by (auto simp: frames_def)
    obtain g where g: "palloc_free_page (pgs v1) k = Some g" "frees v (insert k (A \<union> frames G j)) (v1\<lparr>pgs := g\<rparr>)"
      by (rule frees_palloc_free_page [OF Suc.prems(1) k new allocated_kernel_page [OF ok k]])
    have "insert k (A \<union> frames G j) = A \<union> frames G (j + 1)" using Some by (auto simp: frames_Suc)
    with g Suc.IH [of "j + 1" "v1\<lparr>pgs := g\<rparr>"] Suc.prems(2) e [of j] Some show ?thesis by (simp add: rd entry_frame_def)
  qed
qed

text \<open>The loop over the tables.\<close>

lemma pd_not_owned:
  assumes pd: "page_dir v pd T" and o: "owns v pd T F"
  shows "pd \<notin> owned_pages T F n"
proof -
  have npd: "T l \<noteq> Some pd" for l
  proof
    assume l: "T l = Some pd"
    then have "l < 768" using pd by (auto simp: page_dir_def)
    with l pd show False by (auto simp: page_dir_def)
  qed
  have "F l j \<noteq> Some pd" for l j using o unfolding owns_def by metis
  with npd show ?thesis by (auto simp: owned_pages_def table_pages_def frames_def split: option.splits)
qed

lemma table_pages_disjoint:
  assumes pd: "page_dir v pd T" and o: "owns v pd T F" and i: "T i = Some pt"
  shows "pt \<notin> owned_pages T F i" "F i j = Some k \<Longrightarrow> k \<in> allocated (pgs v) - owned_pages T F i - {pt}"
proof -
  have "inj_on T (dom T)" using pd by (simp add: page_dir_def)
  then have inj: "T l = Some q \<Longrightarrow> T l' = Some q \<Longrightarrow> l = l'" for l l' q
    by (metis domI inj_onD)
  have fr: "k \<noteq> pd \<and> T l' \<noteq> Some k \<and> k \<in> allocated (pgs v)" if f: "F l j = Some k" for l j k l'
  proof -
    have "k \<in> allocated (pgs v)" "k \<noteq> pd" "k \<notin> ran T" using o f unfolding owns_def by blast+
    then show ?thesis by (auto simp: ran_def)
  qed
  show "pt \<notin> owned_pages T F i"
  proof
    assume "pt \<in> owned_pages T F i"
    then obtain l where l: "l < i" "pt \<in> table_pages T F l" by (auto simp: owned_pages_def)
    then consider "T l = Some pt" | j where "F l j = Some pt" by (auto simp: table_pages_def frames_def split: option.splits)
    then show False
    proof cases
      case 1
      with inj [OF i] l(1) show False by simp
    next
      case 2
      with fr [of l j pt i] i show False by simp
    qed
  qed
  assume k: "F i j = Some k"
  have "F i' j' \<noteq> Some k" if "i' < i" for i' j'
    using o k that unfolding owns_def by (metis less_irrefl)
  then have "k \<notin> owned_pages T F i"
    using fr [OF k] by (auto simp: owned_pages_def table_pages_def frames_def split: option.splits)
  then show "k \<in> allocated (pgs v) - owned_pages T F i - {pt}" using fr [OF k] i by blast
qed

lemma free_tables_frees:
  assumes pd: "page_dir v pd T" and o: "owns v pd T F"
  shows "frees v (owned_pages T F i) v1 \<Longrightarrow> i + n = 768 \<Longrightarrow>
    \<exists>v'. free_tables v1 pd i n = Some v' \<and> frees v (owned_pages T F 768) v'"
proof (induction n arbitrary: i v1)
  case 0
  then show ?case by simp
next
  case (Suc n)
  have i: "i < 768" using Suc.prems(2) by simp
  have ok: "palloc_ok (pgs v)" using pd by (simp add: page_dir_def)
  show ?case
  proof (cases "T i")
    case None
    have "read32 v1 (pd + 4 * i) = 0"
      using Suc.prems(1) i page_dir_entry [OF pd i] None page_dir_kernel_page(1) [OF pd] pd_not_owned [OF pd o] by (simp add: frees_def)
    moreover have "owned_pages T F (i + 1) = owned_pages T F i" using None by (simp add: owned_pages_Suc table_pages_def)
    ultimately show ?thesis using Suc.IH [of "i + 1" v1] Suc.prems by simp
  next
    case (Some pt)
    note d = table_pages_disjoint [OF pd o Some]
    have rd: "read32 v1 (pd + 4 * i) = pde_word pt"
      using Suc.prems(1) i page_dir_entry [OF pd i] Some page_dir_kernel_page(1) [OF pd] pd_not_owned [OF pd o] by (simp add: frees_def)
    have kpt: "kernel_page pt" using page_dir_kernel_page(2) [OF pd i Some] .
    have pt: "pt \<in> allocated (pgs v)" using pd i Some by (auto simp: page_dir_def split: option.splits)
    have e: "entry_frame (read32 v (pt + 4 * j)) (F i j)" if "j < 1024" for j
      using o Some that by (simp add: owns_def)
    have inj: "inj_on (F i) (dom (F i))" using o by (auto simp: owns_def inj_on_def)
    have "\<exists>v2. free_frames v1 pt 0 1024 = Some v2 \<and> frees v (owned_pages T F i \<union> frames (F i) 1024) v2"
      by (rule free_frames_frees [OF kpt d(1) ok e d(2) inj, where j = 0]) (use Suc.prems(1) in auto)
    then obtain v2 where v2: "free_frames v1 pt 0 1024 = Some v2" "frees v (owned_pages T F i \<union> frames (F i) 1024) v2" by blast
    have "pt \<notin> owned_pages T F i \<union> frames (F i) 1024" using d(1,2) by (auto simp: frames_def)
    then obtain g where g: "palloc_free_page (pgs v2) pt = Some g"
        "frees v (insert pt (owned_pages T F i \<union> frames (F i) 1024)) (v2\<lparr>pgs := g\<rparr>)"
      using frees_palloc_free_page [OF v2(2) pt _ kpt] by blast
    have "insert pt (owned_pages T F i \<union> frames (F i) 1024) = owned_pages T F (i + 1)"
      using Some by (simp add: owned_pages_Suc table_pages_def)
    with g Suc.IH [of "i + 1" "v2\<lparr>pgs := g\<rparr>"] Suc.prems(2) v2(1) pde_word_facts(2,4) [OF kpt] show ?thesis by (simp add: rd)
  qed
qed

lemma pagedir_destroy_frees:
  assumes pd: "page_dir v pd T" and o: "owns v pd T F" and ne: "pd \<noteq> init_page_dir v"
  shows "\<exists>v'. pagedir_destroy v pd = Some v' \<and> frees v (insert pd (owned_pages T F 768)) v'"
proof -
  have ok: "palloc_ok (pgs v)" and al: "pd \<in> allocated (pgs v)" using pd by (simp_all add: page_dir_def)
  have k: "kernel_page pd" using page_dir_kernel_page(1) [OF pd] .
  have n: "pd_no PHYS_BASE = 768" by (simp add: pd_no_eq)
  have "\<exists>v1. free_tables v pd 0 768 = Some v1 \<and> frees v (owned_pages T F 768) v1"
    by (rule free_tables_frees [OF pd o, where i = 0]) (use ok in \<open>auto intro: frees_refl\<close>)
  then obtain v1 where v1: "free_tables v pd 0 768 = Some v1" "frees v (owned_pages T F 768) v1" by blast
  obtain g where g: "palloc_free_page (pgs v1) pd = Some g" "frees v (insert pd (owned_pages T F 768)) (v1\<lparr>pgs := g\<rparr>)"
    using frees_palloc_free_page [OF v1(2) al pd_not_owned [OF pd o] k] by blast
  have "pd \<noteq> NULL" using k by (auto simp: kernel_page_def)
  then have "pagedir_destroy v pd = Some (v1\<lparr>pgs := g\<rparr>)" using ne v1(1) g(1) n by (simp add: pagedir_destroy_def)
  with g(2) show ?thesis by blast
qed

section \<open>Creation\<close>

lemma load32_store_same:
  "i < 1024 \<Longrightarrow> load32 (store_bytes m a (load_bytes n b 4096)) (a + 4 * i) = load32 n (b + 4 * i)"
proof -
  assume "i < 1024"
  then have "load_bytes (store_bytes m a (load_bytes n b 4096)) (a + 4 * i) 4 = load_bytes n (b + 4 * i) 4"
    by (intro nth_equalityI) (auto simp: store_bytes_def add.assoc)
  then show ?thesis by (simp add: load32_def)
qed

lemma pagedir_create_empty:
  assumes ok: "palloc_ok (pgs v)" and ini: "init_page_dir v \<in> allocated (pgs v)" "\<And>i. i < 768 \<Longrightarrow> read32 v (init_page_dir v + 4 * i) = 0"
    and free: "\<not> pool_full (pgs v) 0 1"
  obtains pd v' where "pagedir_create v = Some (pd, v')" "page_dir v' pd (\<lambda>_. None)" "pd \<notin> allocated (pgs v)"
    "allocated (pgs v') = insert pd (allocated (pgs v))" "init_page_dir v' = init_page_dir v"
    "\<And>i. i < 1024 \<Longrightarrow> read32 v' (pd + 4 * i) = read32 v (init_page_dir v + 4 * i)"
proof -
  obtain pd g where g: "palloc_get_multiple (pgs v) 0 1 = Some (pd, g)" "palloc_ok g" "pd \<noteq> NULL" "pd mod 4096 = 0"
    "pd + 4096 * 1 \<le> 2 ^ 32" "PHYS_BASE \<le> pd" "pages_at pd 1 \<inter> allocated (pgs v) = {}" "allocated g = allocated (pgs v) \<union> pages_at pd 1"
    and "ram g = (if 0 AND PAL_ZERO \<noteq> 0 then store_bytes (ram (pgs v)) pd (replicate (4096 * 1) 0) else ram (pgs v))"
    by (rule palloc_get_found [OF ok _ free]) auto
  then have mem: "ram g = ram (pgs v)" by simp
  have new: "pd \<notin> allocated (pgs v)" using g(7) by simp
  have k: "kernel_page pd" "kernel_page (init_page_dir v)"
    using g(4-6) allocated_kernel_page [OF ok ini(1)] by (simp_all add: kernel_page_def)
  have ne: "pd \<noteq> init_page_dir v" using new ini(1) by blast
  obtain x y where "pd = 4096 * x" "init_page_dir v = 4096 * y" using k by (auto simp: kernel_page_def elim!: dvdE)
  then have "apart_from pd 4096 (init_page_dir v) 4096" using ne by (auto simp: apart_from_def)
  then have copy: "copy_up (ram g) pd (init_page_dir v) 4096 = store_bytes (ram (pgs v)) pd (load_bytes (ram (pgs v)) (init_page_dir v) 4096)"
    by (simp add: copy_up_eq mem)
  define v' where "v' = v\<lparr>pgs := g\<lparr>ram := copy_up (ram g) pd (init_page_dir v) 4096\<rparr>\<rparr>"
  have "init_page_dir v \<noteq> NULL" using k(2) by (auto simp: kernel_page_def)
  then have run: "pagedir_create v = Some (pd, v')"
    using g(1,3) by (simp add: pagedir_create_def palloc_get_page_def memcpy_def v'_def del: copy_up.simps)
  have rd: "read32 v' (pd + 4 * i) = read32 v (init_page_dir v + 4 * i)" if "i < 1024" for i
    using that by (simp add: v'_def read32_def copy load32_store_same)
  have al: "allocated (pgs v') = insert pd (allocated (pgs v))" using g(8) by (simp add: v'_def)
  have "page_dir v' pd (\<lambda>_. None)"
    using g(2) al rd ini(2) by (simp add: page_dir_def v'_def)
  then show thesis by (rule that [OF run]) (use new al rd in \<open>auto simp: v'_def\<close>)
qed

end
