(* ===== verification/File_Table.thy ===== *)
theory File_Table
  imports Page_Dir_Free Directory Kernel_List_Ordered Fixed_Point
begin

text \<open>
  The open files of a process: \<^verbatim>\<open>add_file\<close>, \<^verbatim>\<open>get_file\<close> and \<^verbatim>\<open>close_file\<close> of \<^verbatim>\<open>userprog/process.c\<close>, and the
  loop of \<^verbatim>\<open>thread_exit\<close> in \<^verbatim>\<open>threads/thread.c\<close> that closes what is still open.  A
  \<^verbatim>\<open>struct file_control_block\<close> lives in a page of its own; its pointer and its number are words of that
  page and its \<^verbatim>\<open>file_elem\<close> is an element of the heap of \<open>Kernel_List\<close>.  The state has the fields of the
  running thread that the functions use.
\<close>

section \<open>The code\<close>

record process =
  links :: heap
  kmem :: page_mem
  store :: fs
  file_list :: addr
  next_fd :: int
  file_num :: int

text \<open>The members of a control block, at offsets 0, 4 and 8, and \<^verbatim>\<open>list_entry\<close>.\<close>

definition process_file :: "process \<Rightarrow> addr \<Rightarrow> addr" where
  "process_file p fc = unat (load32 (ram (kmem p)) fc)"

definition fcb_fd :: "process \<Rightarrow> addr \<Rightarrow> int" where
  "fcb_fd p fc = sint (load32 (ram (kmem p)) (fc + 4))"

definition file_elem :: "addr \<Rightarrow> addr" where
  "file_elem fc = fc + 8"

definition fcb_entry :: "addr \<Rightarrow> addr" where
  "fcb_entry e = e - 8"

definition set_fcb_file :: "process \<Rightarrow> addr \<Rightarrow> addr \<Rightarrow> process" where
  "set_fcb_file p fc f = p\<lparr>kmem := (kmem p)\<lparr>ram := store32 (ram (kmem p)) fc (of_nat f)\<rparr>\<rparr>"

definition set_fcb_fd :: "process \<Rightarrow> addr \<Rightarrow> int \<Rightarrow> process" where
  "set_fcb_fd p fc fd = p\<lparr>kmem := (kmem p)\<lparr>ram := store32 (ram (kmem p)) (fc + 4) (of_int fd)\<rparr>\<rparr>"

definition add_file :: "process \<Rightarrow> addr \<Rightarrow> (int \<times> process) option" where
  "add_file p f = do {
     (fc, g) \<leftarrow> palloc_get_page (kmem p) 0;
     let p = p\<lparr>kmem := g\<rparr>;
     if fc = NULL then Some (-1, p)
     else do {
       let p = set_fcb_file p fc f;
       let p = set_fcb_fd p fc (next_fd p);
       let p = p\<lparr>next_fd := int32 (next_fd p + 1)\<rparr>;
       h \<leftarrow> list_push_back (links p) (file_list p) (file_elem fc);
       let p = p\<lparr>links := h, file_num := int32 (file_num p + 1)\<rparr>;
       Some (fcb_fd p fc, p)
     }
   }"

text \<open>
  \<^verbatim>\<open>get_file\<close> and \<^verbatim>\<open>close_file\<close> copy the \<^verbatim>\<open>struct list\<close> to a local variable at \<open>lv\<close> and walk along the
  copy.
\<close>

definition copy_list :: "heap \<Rightarrow> addr \<Rightarrow> addr \<Rightarrow> heap" where
  "copy_list h lv l = h(head_of lv := h (head_of l), tail_of lv := h (tail_of l))"

partial_function (option) get_loop :: "process \<Rightarrow> addr \<Rightarrow> int \<Rightarrow> addr \<Rightarrow> addr option" where
  "get_loop p lv fd e = do {
     en \<leftarrow> list_end lv;
     if e \<noteq> en then
       if fd = fcb_fd p (fcb_entry e) then Some (process_file p (fcb_entry e))
       else do { e \<leftarrow> list_next (links p) e; get_loop p lv fd e }
     else Some NULL
   }"

definition get_file :: "process \<Rightarrow> addr \<Rightarrow> int \<Rightarrow> addr option" where
  "get_file p lv fd =
     (if fd > next_fd p \<or> fd < 0 then Some NULL
      else do {
        let p = p\<lparr>links := copy_list (links p) lv (file_list p)\<rparr>;
        e \<leftarrow> list_begin (links p) lv;
        get_loop p lv fd e
      })"

definition close_entry :: "process \<Rightarrow> addr \<Rightarrow> process option" where
  "close_entry p fc = do {
     s \<leftarrow> file_close (store p) (process_file p fc);
     (_, h) \<leftarrow> list_remove (links p) (file_elem fc);
     g \<leftarrow> palloc_free_page (kmem p) fc;
     Some (p\<lparr>store := s, links := h, file_num := int32 (file_num p - 1), kmem := g\<rparr>)
   }"

partial_function (option) close_file_loop :: "process \<Rightarrow> addr \<Rightarrow> int \<Rightarrow> addr \<Rightarrow> (bool \<times> process) option" where
  "close_file_loop p lv fd e = do {
     en \<leftarrow> list_end lv;
     if e \<noteq> en then
       if fd = fcb_fd p (fcb_entry e) then do { p \<leftarrow> close_entry p (fcb_entry e); Some (True, p) }
       else do { e \<leftarrow> list_next (links p) e; close_file_loop p lv fd e }
     else Some (False, p)
   }"

definition close_file :: "process \<Rightarrow> addr \<Rightarrow> int \<Rightarrow> (bool \<times> process) option" where
  "close_file p lv fd =
     (if fd > next_fd p \<or> fd < 0 then Some (False, p)
      else do {
        let p = p\<lparr>links := copy_list (links p) lv (file_list p)\<rparr>;
        if file_num p = 0 then Some (False, p)
        else do { e \<leftarrow> list_begin (links p) lv; close_file_loop p lv fd e }
      })"

text \<open>
  The loop of \<^verbatim>\<open>thread_exit\<close>, which takes \<^verbatim>\<open>filesys_lock\<close> around each \<^verbatim>\<open>file_close\<close> and removes each element
  twice.  \<open>held\<close> says whether the running thread holds the lock: \<^verbatim>\<open>lock_acquire\<close> asserts that it does not and
  \<^verbatim>\<open>lock_release\<close> that it does.  Waiting for another holder is a matter of the scheduler; what another
  process changes in the file system in the meantime is not modelled.
\<close>

definition take_filesys_lock :: "bool \<Rightarrow> bool option" where
  "take_filesys_lock held = do { ASSERT (\<not> held); Some True }"

definition drop_filesys_lock :: "bool \<Rightarrow> bool option" where
  "drop_filesys_lock held = do { ASSERT held; Some False }"

partial_function (option) exit_files :: "bool \<Rightarrow> process \<Rightarrow> process option" where
  "exit_files held p = (if file_num p \<noteq> 0 then do {
     (e, h) \<leftarrow> list_pop_front (links p) (file_list p);
     let fcb = fcb_entry e;
     held \<leftarrow> take_filesys_lock held;
     s \<leftarrow> file_close (store p) (process_file p fcb);
     held \<leftarrow> drop_filesys_lock held;
     (_, h) \<leftarrow> list_remove h e;
     let p = p\<lparr>links := h, store := s, file_num := int32 (file_num p - 1)\<rparr>;
     g \<leftarrow> palloc_free_page (kmem p) fcb;
     exit_files held (p\<lparr>kmem := g\<rparr>)
   } else Some p)"

section \<open>The table of open files\<close>

text \<open>
  \<open>file_table p fcs\<close>: the list of the process holds the control blocks \<open>fcs\<close>, each in a page of its own, with
  different numbers below the next one.  \<open>descriptors\<close> is the map that the table stands for.
\<close>

definition file_table :: "process \<Rightarrow> addr list \<Rightarrow> bool" where
  "file_table p fcs \<longleftrightarrow> represents (links p) (file_list p) (map file_elem fcs) \<and> palloc_ok (kmem p) \<and>
     set fcs \<subseteq> allocated (kmem p) \<and>
     {page_base (head_of (file_list p)), page_base (tail_of (file_list p))} \<subseteq> allocated (kmem p) - set fcs \<and>
     distinct (map (fcb_fd p) fcs) \<and> (\<forall>fc\<in>set fcs. 0 \<le> fcb_fd p fc \<and> fcb_fd p fc < next_fd p) \<and>
     file_num p = int (length fcs) \<and> file_num p \<le> next_fd p \<and> next_fd p < 2 ^ 31"

definition descriptors :: "process \<Rightarrow> addr list \<Rightarrow> int \<rightharpoonup> addr" where
  "descriptors p fcs = map_of (map (\<lambda>fc. (fcb_fd p fc, process_file p fc)) fcs)"

text \<open>The address of a local variable for a list, apart from the list and its elements.\<close>

definition local_list :: "addr \<Rightarrow> process \<Rightarrow> addr list \<Rightarrow> bool" where
  "local_list lv p fcs \<longleftrightarrow> lv \<noteq> NULL \<and>
     (\<forall>x\<in>{head_of (file_list p), tail_of (file_list p)} \<union> file_elem ` set fcs. x \<noteq> head_of lv \<and> x \<noteq> tail_of lv)"

lemma file_table_facts:
  assumes "file_table p fcs"
  shows "fc \<in> set fcs \<Longrightarrow> kernel_page fc" "distinct fcs" "fc \<in> set fcs \<Longrightarrow> fc \<in> allocated (kmem p)"
proof -
  show "fc \<in> set fcs \<Longrightarrow> fc \<in> allocated (kmem p)" using assms by (auto simp: file_table_def)
  then show "fc \<in> set fcs \<Longrightarrow> kernel_page fc" using assms allocated_kernel_page by (auto simp: file_table_def)
  show "distinct fcs" using represents_simps(4) [of "links p" "file_list p"] assms by (auto simp: file_table_def distinct_map)
qed

lemma fcb_entry_elem [simp]: "fcb_entry (file_elem fc) = fc"
  by (simp add: fcb_entry_def file_elem_def)

lemma file_elem_simps [simp]:
  "file_elem a = file_elem b \<longleftrightarrow> a = b" "file_elem a \<noteq> NULL" "file_elem a \<in> file_elem ` A \<longleftrightarrow> a \<in> A"
  by (auto simp: file_elem_def)

lemma page_base_elem: "fc mod 4096 = 0 \<Longrightarrow> page_base (file_elem fc) = fc"
  unfolding file_elem_def by (rule page_base_inside) auto

lemma descriptors_mem: "file_table p fcs \<Longrightarrow> fc \<in> set fcs \<Longrightarrow> descriptors p fcs (fcb_fd p fc) = Some (process_file p fc)"
  unfolding descriptors_def by (rule map_of_is_SomeI) (auto simp: file_table_def comp_def)

lemma descriptors_cong:
  "(\<And>fc. fc \<in> set fcs \<Longrightarrow> fcb_fd p' fc = fcb_fd p fc \<and> process_file p' fc = process_file p fc) \<Longrightarrow>
   descriptors p' fcs = descriptors p fcs"
  unfolding descriptors_def by (rule arg_cong [of _ _ map_of]) auto

lemma descriptors_None: "descriptors p fcs fd = None \<longleftrightarrow> fd \<notin> fcb_fd p ` set fcs"
  by (force simp: descriptors_def map_of_eq_None_iff)

lemma descriptors_SomeD:
  assumes "descriptors p fcs fd = Some f"
  obtains fc where "fc \<in> set fcs" "fcb_fd p fc = fd" "process_file p fc = f"
  using map_of_SomeD [OF assms [unfolded descriptors_def]] by auto

lemma copy_list_other: "x \<notin> {head_of lv, tail_of lv} \<Longrightarrow> copy_list h lv l x = h x"
  by (auto simp: copy_list_def)

lemma copy_list_represents:
  assumes "represents h l (map file_elem fcs)" "local_list lv p fcs" "l = file_list p"
  shows "represents (copy_list h lv l) l (map file_elem fcs)"
    "list_begin (copy_list h lv l) lv = Some (hd (map file_elem fcs @ [tail_of l]))"
proof -
  show "represents (copy_list h lv l) l (map file_elem fcs)"
    using assms(2) by (intro represents_frame [OF assms(1)] copy_list_other) (auto simp: local_list_def assms(3))
  show "list_begin (copy_list h lv l) lv = Some (hd (map file_elem fcs @ [tail_of l]))"
    using assms(2) represents_simps(2) [OF assms(1)] by (simp add: list_begin_def copy_list_def local_list_def head_of_def tail_of_def)
qed

text \<open>A copy of the list leaves the table as it is.\<close>

lemma fcb_simps [simp]:
  "fcb_fd (p\<lparr>links := h\<rparr>) = fcb_fd p" "process_file (p\<lparr>links := h\<rparr>) = process_file p"
  "descriptors (p\<lparr>links := h\<rparr>) fcs = descriptors p fcs"
  by (simp_all add: fun_eq_iff fcb_fd_def process_file_def descriptors_def)

lemma file_table_copy:
  "file_table p fcs \<Longrightarrow> local_list lv p fcs \<Longrightarrow> file_table (p\<lparr>links := copy_list (links p) lv (file_list p)\<rparr>) fcs"
  using copy_list_represents(1) [of "links p" "file_list p" fcs lv p] by (simp add: file_table_def)

section \<open>Finding an open file\<close>

lemma get_loop_found:
  assumes "represents (links p) l (map file_elem (us @ vs))" "local_list lv p (us @ vs)" "l = file_list p" "fd \<in> fcb_fd p ` set vs"
  shows "\<exists>fc\<in>set vs. fcb_fd p fc = fd \<and> get_loop p lv fd (hd (map file_elem vs @ [tail_of l])) = Some (process_file p fc)"
  using assms(1,2,4)
proof (induction vs arbitrary: us)
  case (Cons v vs)
  have lv: "lv \<noteq> NULL" "file_elem v \<noteq> tail_of lv" using Cons.prems(2) by (auto simp: local_list_def)
  show ?case
  proof (cases "fd = fcb_fd p v")
    case True
    then show ?thesis using lv by (subst get_loop.simps) simp
  next
    case False
    have "list_next (links p) (file_elem v) = Some (hd (map file_elem vs @ [tail_of l]))"
      using Cons.prems(1) by (intro list_next_represents [of _ _ "map file_elem us"]) simp
    moreover have "fd \<in> fcb_fd p ` set vs" using Cons.prems(3) False by auto
    ultimately show ?thesis using Cons.IH [of "us @ [v]"] Cons.prems(1,2) False lv
      by (subst get_loop.simps) auto
  qed
qed simp

text \<open>A number without an entry: the walk passes the real tail, which is not the tail of the copy.\<close>

lemma get_loop_missing:
  assumes "represents (links p) l (map file_elem (us @ vs))" "local_list lv p (us @ vs)" "l = file_list p" "fd \<notin> fcb_fd p ` set vs"
    "fd \<noteq> fcb_fd p (fcb_entry (tail_of l))"
  shows "get_loop p lv fd (hd (map file_elem vs @ [tail_of l])) = None"
  using assms(1,2,4)
proof (induction vs arbitrary: us)
  case Nil
  have "tail_of l \<noteq> tail_of lv" "lv \<noteq> NULL" using Nil.prems(2) by (auto simp: local_list_def assms(3))
  moreover have "list_next (links p) (tail_of l) = None"
    using represents_simps(3) [OF Nil.prems(1)] Nil.prems(1)
    by (auto simp: list_next_def is_head_def is_interior_def represents_def wf_chain_def ASSERT_def)
  ultimately show ?case using assms(5) by (subst get_loop.simps) simp
next
  case (Cons v vs)
  have lv: "lv \<noteq> NULL" "file_elem v \<noteq> tail_of lv" using Cons.prems(2) by (auto simp: local_list_def)
  have "list_next (links p) (file_elem v) = Some (hd (map file_elem vs @ [tail_of l]))"
    using Cons.prems(1) by (intro list_next_represents [of _ _ "map file_elem us"]) simp
  then show ?case using Cons.IH [of "us @ [v]"] Cons.prems lv by (subst get_loop.simps) auto
qed

lemma get_file_open:
  assumes "file_table p fcs" "local_list lv p fcs" "descriptors p fcs fd = Some f"
  shows "get_file p lv fd = Some f"
proof -
  let ?p = "p\<lparr>links := copy_list (links p) lv (file_list p)\<rparr>"
  obtain fc where fc: "fc \<in> set fcs" "fcb_fd p fc = fd" "process_file p fc = f" by (rule descriptors_SomeD [OF assms(3)])
  then have fd: "0 \<le> fd" "fd < next_fd p" using assms(1) by (auto simp: file_table_def)
  have r: "represents (links p) (file_list p) (map file_elem fcs)" using assms(1) by (simp add: file_table_def)
  note c = copy_list_represents [OF r assms(2) refl]
  have "\<exists>fc\<in>set fcs. fcb_fd ?p fc = fd \<and> get_loop ?p lv fd (hd (map file_elem fcs @ [tail_of (file_list p)])) = Some (process_file ?p fc)"
    using get_loop_found [of ?p "file_list p" "[]" fcs lv fd] c(1) fc assms(2) by (auto simp: local_list_def)
  then show ?thesis using assms(3) descriptors_mem [OF assms(1)] fd c(2) by (auto simp: get_file_def Let_def)
qed

lemma get_file_missing:
  assumes "file_table p fcs" "local_list lv p fcs" "descriptors p fcs fd = None"
  shows "get_file p lv fd =
    (if fd > next_fd p \<or> fd < 0 then Some NULL
     else if fd = fcb_fd p (fcb_entry (tail_of (file_list p))) then get_file p lv fd else None)"
proof -
  let ?p = "p\<lparr>links := copy_list (links p) lv (file_list p)\<rparr>"
  have r: "represents (links p) (file_list p) (map file_elem fcs)" using assms(1) by (simp add: file_table_def)
  note c = copy_list_represents [OF r assms(2) refl]
  have "get_loop ?p lv fd (hd (map file_elem fcs @ [tail_of (file_list p)])) = None"
    if "fd \<noteq> fcb_fd p (fcb_entry (tail_of (file_list p)))"
    using get_loop_missing [of ?p "file_list p" "[]" fcs lv fd] c(1) that assms(2,3)
    by (simp add: local_list_def descriptors_None)
  then show ?thesis using c(2) by (simp add: get_file_def Let_def)
qed

section \<open>Opening\<close>

lemma sint_of_int_small: "0 \<le> i \<Longrightarrow> i < 2 ^ 31 \<Longrightarrow> sint (of_int i :: u32) = i"
  by (simp add: signed_of_int signed_take_bit_int_eq_self)

lemma unat_of_nat_small: "n < 2 ^ 32 \<Longrightarrow> unat (of_nat n :: u32) = n"
  by (simp add: unat_of_nat take_bit_nat_eq_self)

lemma pages_words_apart:
  assumes "kernel_page a" "kernel_page b" "a \<noteq> b"
  shows "apart_from a 4 b 4" "apart_from a 4 (b + 4) 4" "apart_from (a + 4) 4 b 4" "apart_from (a + 4) 4 (b + 4) 4"
    "apart_from a 4 b 4096" "apart_from (a + 4) 4 b 4096"
  using words_apart [OF assms(1,2), of 0 0] words_apart [OF assms(1,2), of 0 1] words_apart [OF assms(1,2), of 1 0]
    words_apart [OF assms(1,2), of 1 1] pages_apart [OF assms, of 0] pages_apart [OF assms, of 1] assms(3)
  by simp_all

text \<open>A control block is filled in.\<close>

lemma new_fcb:
  fixes p fc f fd
  defines "q \<equiv> set_fcb_fd (set_fcb_file p fc f) fc fd"
  assumes "f < 2 ^ 32" "0 \<le> fd" "fd < 2 ^ 31"
  shows "process_file q fc = f" "fcb_fd q fc = fd"
    "kernel_page c \<Longrightarrow> kernel_page fc \<Longrightarrow> c \<noteq> fc \<Longrightarrow> process_file q c = process_file p c \<and> fcb_fd q c = fcb_fd p c"
    "links q = links p" "store q = store p" "file_list q = file_list p" "next_fd q = next_fd p" "file_num q = file_num p"
    "palloc_ok (kmem q) = palloc_ok (kmem p)" "allocated (kmem q) = allocated (kmem p)"
  using assms(2-) pages_words_apart [of c fc]
  by (simp_all add: q_def set_fcb_fd_def set_fcb_file_def process_file_def fcb_fd_def unat_of_nat_small sint_of_int_small
      apart_from_def)

lemma add_file_cases:
  assumes t: "file_table p fcs" and f: "f < 2 ^ 32" and n: "next_fd p < 2 ^ 31 - 1"
  shows "add_file p f = Some (-1, p) \<or>
    (\<exists>fc p'. add_file p f = Some (next_fd p, p') \<and> file_table p' (fcs @ [fc]) \<and> next_fd p' = next_fd p + 1 \<and> store p' = store p \<and>
       file_list p' = file_list p \<and>
       descriptors p' (fcs @ [fc]) = (descriptors p fcs)(next_fd p \<mapsto> f))"
proof (cases "pool_full (kmem p) 0 1")
  case True
  have "palloc_ok (kmem p)" using t by (simp add: file_table_def)
  with palloc_get_full [OF this _ True] show ?thesis by (simp add: add_file_def palloc_get_page_def)
next
  case False
  have ok: "palloc_ok (kmem p)" using t by (simp add: file_table_def)
  obtain fc g where g: "palloc_get_multiple (kmem p) 0 1 = Some (fc, g)" "palloc_ok g" "fc \<noteq> NULL" "fc mod 4096 = 0"
    "fc \<notin> allocated (kmem p)" "allocated g = insert fc (allocated (kmem p))" "ram g = ram (kmem p)"
    by (rule palloc_get_found [OF ok _ False]) (auto simp: pages_at_def)
  note tf = file_table_facts [OF t]
  have new: "fc \<notin> set fcs" using tf(3) g(5) by auto
  have kp: "kernel_page fc" using g(2,6) by (intro allocated_kernel_page) auto
  have fd: "0 \<le> next_fd p" using t by (auto simp: file_table_def)
  define p1 where "p1 = p\<lparr>kmem := g\<rparr>"
  define q where "q = set_fcb_fd (set_fcb_file p1 fc f) fc (next_fd p)"
  have fd': "next_fd p < 2 ^ 31" using n by simp
  have p1: "process_file p1 = process_file p" "fcb_fd p1 = fcb_fd p"
    by (simp_all add: p1_def fun_eq_iff process_file_def fcb_fd_def g(7))
  have p1_fields: "next_fd (set_fcb_file p1 fc f) = next_fd p" "links p1 = links p" "file_list p1 = file_list p"
    "next_fd p1 = next_fd p" "file_num p1 = file_num p"
    by (simp_all add: p1_def set_fcb_file_def)
  note q = new_fcb [OF f fd fd', where p = p1 and fc = fc, folded q_def, unfolded p1]
  have r: "represents (links p) (file_list p) (map file_elem fcs)" using t by (simp add: file_table_def)
  have "file_elem fc \<notin> {head_of (file_list p), tail_of (file_list p)}"
    using page_base_elem [OF g(4)] t g(5) by (auto simp: file_table_def)
  with new obtain h where h: "list_push_back (links p) (file_list p) (file_elem fc) = Some h"
    "represents h (file_list p) (map file_elem fcs @ [file_elem fc])"
    using list_push_back_represents [OF r, of "file_elem fc"] by auto
  define p' where "p' = q\<lparr>next_fd := next_fd p + 1, links := h, file_num := file_num p + 1\<rparr>"
  have i: "int32 (next_fd p + 1) = next_fd p + 1" "int32 (file_num p + 1) = file_num p + 1"
    using t n by (auto intro!: int32_id simp: file_table_def)
  have flds: "fcb_fd p' = fcb_fd q" "process_file p' = process_file q"
    by (simp_all add: p'_def fun_eq_iff process_file_def fcb_fd_def)
  have run: "add_file p f = Some (next_fd p, p')"
    using g(1,3) h(1) q(2,4-8) flds i
    by (simp add: add_file_def palloc_get_page_def Let_def p1_def [symmetric] q_def [symmetric] p1_fields p'_def)
  have old: "process_file p' c = process_file p c \<and> fcb_fd p' c = fcb_fd p c" if "c \<in> set fcs" for c
    using q(3) [OF tf(1) [OF that] kp] that new flds by auto
  have m: "map (fcb_fd p') fcs = map (fcb_fd p) fcs" using old by simp
  have "distinct (map (fcb_fd p') fcs)" unfolding m using t by (simp add: file_table_def)
  moreover have "fcb_fd p' fc = next_fd p" "links p' = h" "next_fd p' = next_fd p + 1" "file_num p' = file_num p + 1"
    "file_list p' = file_list p" "palloc_ok (kmem p')" "allocated (kmem p') = insert fc (allocated (kmem p))"
    using q(2,4-) flds g(2,6) by (simp_all add: p'_def p1_def)
  ultimately have "file_table p' (fcs @ [fc])"
    using t h(2) old n g(5) new by (auto simp: file_table_def)
  moreover have "descriptors p' (fcs @ [fc]) = (descriptors p fcs)(next_fd p \<mapsto> f)"
  proof -
    have "descriptors p fcs (next_fd p) = None" using t by (auto simp: descriptors_None file_table_def)
    then have "map_of [(next_fd p, f)] ++ descriptors p fcs = (descriptors p fcs)(next_fd p \<mapsto> f)"
      by (auto simp: fun_eq_iff map_add_def split: option.splits)
    moreover have "descriptors p' fcs = descriptors p fcs" using old by (intro descriptors_cong) auto
    ultimately show ?thesis using q(1,2) flds by (simp add: descriptors_def)
  qed
  ultimately show ?thesis using run q(5,6) by (intro disjI2 exI [of _ fc] exI [of _ p']) (simp add: p'_def p1_def)
qed

section \<open>Closing\<close>

text \<open>An element that has been removed keeps its own links, so that removing it once more changes nothing.\<close>

lemma list_remove_twice:
  assumes "represents h l (us @ e # vs)" "list_remove h e = Some (n, h')"
  shows "list_remove h' e = Some (n, h')"
proof -
  have c: "wf_chain h ((head_of l # us) @ [e] @ (vs @ [tail_of l]))" using assms(1) by (simp add: represents_def)
  then have i: "is_interior h e" by (rule wf_chain_interior) auto
  have lk: "linked h ((head_of l # us) @ [e] @ (vs @ [tail_of l]))" using c by (simp only: wf_chain_def)
  let ?p = "last (head_of l # us)" and ?n = "hd (vs @ [tail_of l])"
  have pn: "prev_ptr (h e) = ?p" "next_ptr (h e) = ?n"
    using lk by (simp_all add: linked_append linked_Cons last_ConsL del: append_Cons last.simps)
  have "?p \<in> set (head_of l # us)" "?n \<in> set (vs @ [tail_of l])" by (blast intro: last_in_set hd_in_set)+
  moreover have "distinct ((head_of l # us) @ [e] @ (vs @ [tail_of l]))" using c by (simp only: wf_chain_def)
  ultimately have ne: "?p \<noteq> e" "?n \<noteq> e" "?p \<noteq> ?n" by (auto simp del: last.simps)
  have h': "h' = set_prev (set_next h ?p ?n) ?n ?p" "n = ?n"
    using assms(2) i ne by (auto simp: list_remove_def Let_def pn heap_simps)
  have same: "h' e = h e" using ne by (simp add: h' heap_simps)
  then have i': "is_interior h' e" using i by (simp add: is_interior_def)
  have "set_next h' ?p ?n = h'" "set_prev h' ?n ?p = h'"
    using ne by (auto simp: h' fun_eq_iff set_next_def set_prev_def)
  then show ?thesis using i' same by (simp add: list_remove_def Let_def pn h'(2))
qed

text \<open>One control block less.\<close>

lemma drop_fcb:
  fixes s :: fs
  assumes t: "file_table p (us @ fc # vs)" and r: "represents h (file_list p) (map file_elem (us @ vs))"
    and g: "palloc_ok g" "allocated g = allocated (kmem p) - {fc}" "ram g = store_bytes (ram (kmem p)) fc (replicate 4096 0xcc)"
  defines "p' \<equiv> p\<lparr>store := s, links := h, file_num := int32 (file_num p - 1), kmem := g\<rparr>"
  shows "file_table p' (us @ vs)" "descriptors p' (us @ vs) = (descriptors p (us @ fc # vs))(fcb_fd p fc := None)"
    "c \<in> set (us @ vs) \<Longrightarrow> process_file p' c = process_file p c"
proof -
  note tf = file_table_facts [OF t]
  have kp: "kernel_page fc" using tf(1) by simp
  have old: "process_file p' c = process_file p c \<and> fcb_fd p' c = fcb_fd p c" if "c \<in> set (us @ vs)" for c
  proof -
    have "c \<noteq> fc" "kernel_page c" using that tf(1,2) by auto
    with pages_words_apart [OF _ kp, of c] show ?thesis
      by (simp add: process_file_def fcb_fd_def p'_def g(3) load32_store_bytes_other)
  qed
  then show "c \<in> set (us @ vs) \<Longrightarrow> process_file p' c = process_file p c" by blast
  have n: "int32 (file_num p - 1) = int (length (us @ vs))"
    using t by (subst int32_id) (auto simp: file_table_def)
  have m: "map (fcb_fd p') (us @ vs) = map (fcb_fd p) (us @ vs)" using old by simp
  show "file_table p' (us @ vs)"
    unfolding file_table_def m using t r g tf(2) old n by (auto simp: file_table_def p'_def)
  have d: "fcb_fd p fc \<notin> fcb_fd p ` set (us @ vs)" using t by (auto simp: file_table_def)
  have "descriptors p' (us @ vs) = descriptors p (us @ vs)" using old by (intro descriptors_cong) auto
  also have "\<dots> = (descriptors p (us @ fc # vs))(fcb_fd p fc := None)"
  proof
    fix x
    show "descriptors p (us @ vs) x = ((descriptors p (us @ fc # vs))(fcb_fd p fc := None)) x"
      using d descriptors_None [of p "us @ vs"]
      by (cases "x = fcb_fd p fc") (auto simp: descriptors_def map_add_def split: option.splits)
  qed
  finally show "descriptors p' (us @ vs) = (descriptors p (us @ fc # vs))(fcb_fd p fc := None)" .
qed

lemma free_fcb:
  assumes "file_table p fcs" "fc \<in> set fcs"
  obtains g where "palloc_free_page (kmem p) fc = Some g" "palloc_ok g" "allocated g = allocated (kmem p) - {fc}"
    "ram g = store_bytes (ram (kmem p)) fc (replicate 4096 0xcc)"
proof -
  have "palloc_ok (kmem p)" using assms(1) by (simp add: file_table_def)
  moreover have "fc mod 4096 = 0" using file_table_facts(1) [OF assms] by (simp add: kernel_page_def)
  moreover have "pages_at fc 1 \<subseteq> allocated (kmem p)" using file_table_facts(3) [OF assms] by simp
  ultimately show thesis by (rule palloc_free_allocated) (simp, rule that, simp_all add: palloc_free_page_def)
qed

lemma close_entry_ok:
  assumes t: "file_table p (us @ fc # vs)" and c: "file_close (store p) (process_file p fc) = Some s"
  shows "\<exists>p'. close_entry p fc = Some p' \<and> file_table p' (us @ vs) \<and>
    descriptors p' (us @ vs) = (descriptors p (us @ fc # vs))(fcb_fd p fc := None) \<and> store p' = s \<and> next_fd p' = next_fd p \<and>
    file_list p' = file_list p \<and> allocated (kmem p') = allocated (kmem p) - {fc}"
proof -
  have "represents (links p) (file_list p) (map file_elem us @ file_elem fc # map file_elem vs)"
    using t by (simp add: file_table_def)
  then obtain h n where h: "list_remove (links p) (file_elem fc) = Some (n, h)" "represents h (file_list p) (map file_elem (us @ vs))"
    by (auto elim: list_remove_represents)
  obtain g where g: "palloc_free_page (kmem p) fc = Some g" "palloc_ok g" "allocated g = allocated (kmem p) - {fc}"
    "ram g = store_bytes (ram (kmem p)) fc (replicate 4096 0xcc)"
    by (rule free_fcb [OF t]) auto
  show ?thesis using drop_fcb [OF t h(2) g(2-4), where s = s] by (simp add: close_entry_def c h(1) g(1,3))
qed

lemma close_file_loop_found:
  assumes "represents (links p) l (map file_elem (us @ vs))" "local_list lv p (us @ vs)" "l = file_list p" "fd \<in> fcb_fd p ` set vs"
  shows "\<exists>xs fc ys. vs = xs @ fc # ys \<and> fcb_fd p fc = fd \<and>
    close_file_loop p lv fd (hd (map file_elem vs @ [tail_of l])) = map_option (Pair True) (close_entry p fc)"
  using assms(1,2,4)
proof (induction vs arbitrary: us)
  case (Cons v vs)
  have lv: "lv \<noteq> NULL" "file_elem v \<noteq> tail_of lv" using Cons.prems(2) by (auto simp: local_list_def)
  show ?case
  proof (cases "fd = fcb_fd p v")
    case True
    then show ?thesis using lv
      by (intro exI [of _ "[]"] exI [of _ v] exI [of _ vs], subst close_file_loop.simps) (cases "close_entry p v"; simp)
  next
    case False
    have "list_next (links p) (file_elem v) = Some (hd (map file_elem vs @ [tail_of l]))"
      using Cons.prems(1) by (intro list_next_represents [of _ _ "map file_elem us"]) simp
    then have step: "close_file_loop p lv fd (file_elem v) = close_file_loop p lv fd (hd (map file_elem vs @ [tail_of l]))"
      using False lv by (subst close_file_loop.simps) simp
    have "fd \<in> fcb_fd p ` set vs" using Cons.prems(3) False by auto
    with Cons.IH [of "us @ [v]"] Cons.prems(1,2) obtain xs fc ys where "vs = xs @ fc # ys" "fcb_fd p fc = fd"
      "close_file_loop p lv fd (hd (map file_elem vs @ [tail_of l])) = map_option (Pair True) (close_entry p fc)"
      by auto
    then show ?thesis using step by (intro exI [of _ "v # xs"] exI [of _ fc] exI [of _ ys]) simp
  qed
qed simp

lemma close_file_open:
  assumes t: "file_table p fcs" "local_list lv p fcs" and d: "descriptors p fcs fd = Some f" and c: "file_close (store p) f = Some s"
  shows "\<exists>p' fcs'. close_file p lv fd = Some (True, p') \<and> file_table p' fcs' \<and> descriptors p' fcs' = (descriptors p fcs)(fd := None) \<and>
    store p' = s \<and> next_fd p' = next_fd p \<and> file_list p' = file_list p \<and> set fcs' \<subseteq> set fcs \<and> allocated (kmem p') \<subseteq> allocated (kmem p)"
proof -
  let ?p = "p\<lparr>links := copy_list (links p) lv (file_list p)\<rparr>"
  obtain fc where fc: "fc \<in> set fcs" "fcb_fd p fc = fd" "process_file p fc = f" by (rule descriptors_SomeD [OF d])
  then have fd: "0 \<le> fd" "fd < next_fd p" "file_num p \<noteq> 0" using t(1) by (auto simp: file_table_def)
  have t': "file_table ?p fcs" by (rule file_table_copy [OF t])
  have r: "represents (links p) (file_list p) (map file_elem fcs)" using t(1) by (simp add: file_table_def)
  note cl = copy_list_represents [OF r t(2) refl]
  obtain us x vs where x: "fcs = us @ x # vs" "fcb_fd p x = fd"
    "close_file_loop ?p lv fd (hd (map file_elem fcs @ [tail_of (file_list p)])) = map_option (Pair True) (close_entry ?p x)"
    using close_file_loop_found [of ?p "file_list p" "[]" fcs lv fd] cl(1) fc t(2) by (auto simp: local_list_def)
  have "process_file p x = f" using descriptors_mem [OF t(1), of x] d x(1,2) by simp
  then obtain p' where "close_entry ?p x = Some p'" "file_table p' (us @ vs)" "descriptors p' (us @ vs) = (descriptors p fcs)(fd := None)"
    "store p' = s" "next_fd p' = next_fd p" "file_list p' = file_list p" "allocated (kmem p') = allocated (kmem p) - {x}"
    using close_entry_ok [of ?p us x vs s] t' c x(1,2) by auto
  then show ?thesis using x fd cl(2)
    by (intro exI [of _ p'] exI [of _ "us @ vs"]) (auto simp: close_file_def Let_def)
qed

section \<open>Closing everything at the end of a process\<close>

fun close_all :: "fs \<Rightarrow> addr list \<Rightarrow> fs option" where
  "close_all s [] = Some s"
| "close_all s (f # fs) = do { s \<leftarrow> file_close s f; close_all s fs }"

lemma exit_files_ok:
  assumes "file_table p fcs" "close_all (store p) (map (process_file p) fcs) = Some s"
  shows "\<exists>p'. exit_files False p = Some p' \<and> file_table p' [] \<and> store p' = s \<and> allocated (kmem p') = allocated (kmem p) - set fcs"
  using assms
proof (induction fcs arbitrary: p)
  case Nil
  then show ?case by (subst exit_files.simps) (simp add: file_table_def)
next
  case (Cons fc fcs)
  obtain s1 where s1: "file_close (store p) (process_file p fc) = Some s1" "close_all s1 (map (process_file p) fcs) = Some s"
    using Cons.prems(2) by (auto simp: bind_eq_Some_conv)
  have r: "represents (links p) (file_list p) (file_elem fc # map file_elem fcs)" using Cons.prems(1) by (simp add: file_table_def)
  obtain h where h: "list_pop_front (links p) (file_list p) = Some (file_elem fc, h)" "represents h (file_list p) (map file_elem fcs)"
    by (rule list_pop_front_represents [OF r])
  then obtain n where n: "list_remove (links p) (file_elem fc) = Some (n, h)"
    using r by (auto simp: list_pop_front_def list_front_represents bind_eq_Some_conv)
  have h2: "list_remove h (file_elem fc) = Some (n, h)"
    by (rule list_remove_twice [of _ _ "[]", OF _ n]) (use r in simp)
  obtain g where g: "palloc_free_page (kmem p) fc = Some g" "palloc_ok g" "allocated g = allocated (kmem p) - {fc}"
    "ram g = store_bytes (ram (kmem p)) fc (replicate 4096 0xcc)"
    by (rule free_fcb [OF Cons.prems(1)]) auto
  define p1 where "p1 = p\<lparr>store := s1, links := h, file_num := int32 (file_num p - 1), kmem := g\<rparr>"
  note d = drop_fcb [where p = p and us = "[]" and fc = fc and vs = fcs and h = h and g = g and s = s1, folded p1_def, simplified, OF Cons.prems(1) h(2) g(2-4)]
  have p1_store: "store p1 = s1" by (simp add: p1_def)
  have "map (process_file p1) fcs = map (process_file p) fcs" using d(3) by simp
  then obtain p' where p': "exit_files False p1 = Some p'" "file_table p' []" "store p' = s" "allocated (kmem p') = allocated (kmem p1) - set fcs"
    using Cons.IH [OF d(1)] s1(2) p1_store by (auto simp only:)
  have "file_num p \<noteq> 0" using Cons.prems(1) by (simp add: file_table_def)
  moreover have "p\<lparr>links := h, store := s1, file_num := int32 (file_num p - 1), kmem := g\<rparr> = p1" by (simp add: p1_def)
  ultimately have "exit_files False p = exit_files False p1"
    by (subst exit_files.simps) (simp add: take_filesys_lock_def drop_filesys_lock_def h(1) s1(1) h2 g(1) Let_def)
  then show ?case using p' by (auto simp: p1_def g(3))
qed

lemma exit_files_held:
  assumes "file_num p \<noteq> 0"
  shows "exit_files True p = None"
  using assms by (subst exit_files.simps) (simp add: take_filesys_lock_def split_def bind_eq_None_conv)

end
