(* ===== verification/Elf_Load.thy ===== *)
theory Elf_Load
  imports Page_Dir_Free File
begin

text \<open>
  Loading an executable (\<^verbatim>\<open>userprog/process.c\<close>): the ELF headers, \<^verbatim>\<open>validate_segment\<close>, \<^verbatim>\<open>load_segment\<close> with
  \<^verbatim>\<open>install_page\<close>, and the loop of \<^verbatim>\<open>load\<close> over the program headers.  The state puts the memory with the
  page directory of the current thread beside the file system.
\<close>

section \<open>Headers\<close>

definition un_le16 :: "byte list \<Rightarrow> nat" where
  "un_le16 bs = unat (bs ! 0) + 256 * unat (bs ! 1)"

record elf32_ehdr =
  e_ident :: "byte list"
  e_type :: nat
  e_machine :: nat
  e_version :: u32
  e_entry :: u32
  e_phoff :: u32
  e_shoff :: u32
  e_flags :: u32
  e_ehsize :: nat
  e_phentsize :: nat
  e_phnum :: nat
  e_shentsize :: nat
  e_shnum :: nat
  e_shstrndx :: nat

record elf32_phdr =
  p_type :: u32
  p_offset :: u32
  p_vaddr :: u32
  p_paddr :: u32
  p_filesz :: u32
  p_memsz :: u32
  p_flags :: u32
  p_align :: u32

definition word_at :: "byte list \<Rightarrow> nat \<Rightarrow> u32" where
  "word_at bs i = of_nat (un_le32 (drop i bs))"

definition half_at :: "byte list \<Rightarrow> nat \<Rightarrow> nat" where
  "half_at bs i = un_le16 (drop i bs)"

definition bytes_ehdr :: "byte list \<Rightarrow> elf32_ehdr" where
  "bytes_ehdr bs = \<lparr>e_ident = take 16 bs, e_type = half_at bs 16, e_machine = half_at bs 18, e_version = word_at bs 20,
     e_entry = word_at bs 24, e_phoff = word_at bs 28, e_shoff = word_at bs 32, e_flags = word_at bs 36,
     e_ehsize = half_at bs 40, e_phentsize = half_at bs 42, e_phnum = half_at bs 44, e_shentsize = half_at bs 46,
     e_shnum = half_at bs 48, e_shstrndx = half_at bs 50\<rparr>"

definition bytes_phdr :: "byte list \<Rightarrow> elf32_phdr" where
  "bytes_phdr bs = \<lparr>p_type = word_at bs 0, p_offset = word_at bs 4, p_vaddr = word_at bs 8, p_paddr = word_at bs 12,
     p_filesz = word_at bs 16, p_memsz = word_at bs 20, p_flags = word_at bs 24, p_align = word_at bs 28\<rparr>"

definition PT_LOAD :: u32 where "PT_LOAD = 1"
definition PT_DYNAMIC :: u32 where "PT_DYNAMIC = 2"
definition PT_INTERP :: u32 where "PT_INTERP = 3"
definition PT_SHLIB :: u32 where "PT_SHLIB = 5"
definition PF_W :: u32 where "PF_W = 2"

definition PAGE_MASK :: u32 where "PAGE_MASK = 0xfff"

text \<open>The identification, type, machine and sizes that \<^verbatim>\<open>load\<close> accepts.\<close>

definition ehdr_ok :: "elf32_ehdr \<Rightarrow> bool" where
  "ehdr_ok h \<longleftrightarrow> \<not> (take 7 (e_ident h) \<noteq> [0x7f, 0x45, 0x4c, 0x46, 1, 1, 1] \<or> e_type h \<noteq> 2 \<or> e_machine h \<noteq> 3 \<or>
     e_version h \<noteq> 1 \<or> e_phentsize h \<noteq> 32 \<or> e_phnum h > 1024)"

definition validate_segment :: "elf32_phdr \<Rightarrow> int \<Rightarrow> bool" where
  "validate_segment phdr len =
     (if p_offset phdr AND PAGE_MASK \<noteq> p_vaddr phdr AND PAGE_MASK then False
      else if p_offset phdr > of_int len then False
      else if p_memsz phdr < p_filesz phdr then False
      else if p_memsz phdr = 0 then False
      else if \<not> is_user_vaddr (unat (p_vaddr phdr)) then False
      else if \<not> is_user_vaddr (unat (p_vaddr phdr + p_memsz phdr)) then False
      else if p_vaddr phdr + p_memsz phdr < p_vaddr phdr then False
      else if unat (p_vaddr phdr) < PGSIZE then False
      else True)"

section \<open>Segments\<close>

record loader =
  mm :: vm
  disk :: fs
  pagedir :: addr

definition install_page :: "loader \<Rightarrow> addr \<Rightarrow> addr \<Rightarrow> bool \<Rightarrow> (bool \<times> loader) option" where
  "install_page l upage kpage writable = do {
     g \<leftarrow> pagedir_get_page (mm l) (pagedir l) upage;
     if g = NULL then do {
       (ok, v) \<leftarrow> pagedir_set_page (mm l) (pagedir l) upage kpage writable;
       Some (ok, l\<lparr>mm := v\<rparr>)
     } else Some (False, l)
   }"

definition set_ram :: "loader \<Rightarrow> memory \<Rightarrow> loader" where
  "set_ram l m = l\<lparr>mm := (mm l)\<lparr>pgs := (pgs (mm l))\<lparr>ram := m\<rparr>\<rparr>\<rparr>"

definition set_pgs :: "loader \<Rightarrow> page_mem \<Rightarrow> loader" where
  "set_pgs l g = l\<lparr>mm := (mm l)\<lparr>pgs := g\<rparr>\<rparr>"

definition get_ram :: "loader \<Rightarrow> memory" where
  "get_ram l = ram (pgs (mm l))"

text \<open>The body of the loop of \<^verbatim>\<open>load_segment\<close>: \<open>False\<close> is one of its early returns.\<close>

definition load_page :: "loader \<Rightarrow> addr \<Rightarrow> addr \<Rightarrow> nat \<Rightarrow> nat \<Rightarrow> bool \<Rightarrow> (bool \<times> loader) option" where
  "load_page l file upage page_read_bytes page_zero_bytes writable = do {
     (kpage, g) \<leftarrow> palloc_get_page (pgs (mm l)) PAL_USER;
     let l = set_pgs l g;
     if kpage = NULL then Some (False, l)
     else do {
       (bs, f) \<leftarrow> file_read (disk l) file (int page_read_bytes);
       let l = set_ram (l\<lparr>disk := f\<rparr>) (store_bytes (get_ram l) kpage bs);
       if length bs \<noteq> page_read_bytes then do {
         g \<leftarrow> palloc_free_page (pgs (mm l)) kpage;
         Some (False, set_pgs l g)
       } else do {
         (_, m) \<leftarrow> memset (get_ram l) (kpage + page_read_bytes) 0 page_zero_bytes;
         (ok, l) \<leftarrow> install_page (set_ram l m) upage kpage writable;
         if \<not> ok then do {
           g \<leftarrow> palloc_free_page (pgs (mm l)) kpage;
           Some (False, set_pgs l g)
         } else Some (True, l)
       }
     }
   }"

partial_function (option) load_loop :: "loader \<Rightarrow> addr \<Rightarrow> addr \<Rightarrow> nat \<Rightarrow> nat \<Rightarrow> bool \<Rightarrow> (bool \<times> loader) option" where
  "load_loop l file upage read_bytes zero_bytes writable =
     (if read_bytes > 0 \<or> zero_bytes > 0 then do {
        let page_read_bytes = (if read_bytes < PGSIZE then read_bytes else PGSIZE);
        let page_zero_bytes = PGSIZE - page_read_bytes;
        (ok, l) \<leftarrow> load_page l file upage page_read_bytes page_zero_bytes writable;
        if \<not> ok then Some (False, l)
        else load_loop l file ((upage + PGSIZE) mod 2 ^ 32) (read_bytes - page_read_bytes)
               (nat ((int zero_bytes - int page_zero_bytes) mod 2 ^ 32)) writable
      } else Some (True, l))"

definition load_segment :: "loader \<Rightarrow> addr \<Rightarrow> int \<Rightarrow> addr \<Rightarrow> nat \<Rightarrow> nat \<Rightarrow> bool \<Rightarrow> (bool \<times> loader) option" where
  "load_segment l file ofs upage read_bytes zero_bytes writable = do {
     ASSERT ((read_bytes + zero_bytes) mod 2 ^ 32 mod PGSIZE = 0);
     ASSERT (pg_ofs upage = 0);
     ASSERT (ofs smod int PGSIZE = 0);
     f \<leftarrow> file_seek (disk l) file ofs;
     load_loop (l\<lparr>disk := f\<rparr>) file upage read_bytes zero_bytes writable
   }"

text \<open>The arithmetic in front of the call of \<^verbatim>\<open>load_segment\<close>, on 32-bit words.\<close>

definition round_up_page :: "u32 \<Rightarrow> u32" where
  "round_up_page x = (x + 0x1000 - 1) div 0x1000 * 0x1000"

definition segment_bytes :: "elf32_phdr \<Rightarrow> u32 \<times> u32" where
  "segment_bytes phdr = (let page_offset = p_vaddr phdr AND PAGE_MASK in
     if p_filesz phdr > 0 then
       let read_bytes = page_offset + p_filesz phdr
       in (read_bytes, round_up_page (page_offset + p_memsz phdr) - read_bytes)
     else (0, round_up_page (page_offset + p_memsz phdr)))"

definition load_phdr :: "loader \<Rightarrow> addr \<Rightarrow> elf32_phdr \<Rightarrow> (bool \<times> loader) option" where
  "load_phdr l file phdr =
     (if p_type phdr = PT_DYNAMIC \<or> p_type phdr = PT_INTERP \<or> p_type phdr = PT_SHLIB then Some (False, l)
      else if p_type phdr = PT_LOAD then do {
        len \<leftarrow> file_length (disk l) file;
        if validate_segment phdr len then do {
          let writable = (p_flags phdr AND PF_W \<noteq> 0);
          let file_page = p_offset phdr AND NOT PAGE_MASK;
          let mem_page = p_vaddr phdr AND NOT PAGE_MASK;
          let (read_bytes, zero_bytes) = segment_bytes phdr;
          load_segment l file (off_t (uint file_page)) (unat mem_page) (unat read_bytes) (unat zero_bytes) writable
        } else Some (False, l)
      } else Some (True, l))"

text \<open>The loop over the program headers; the argument \<open>n\<close> counts those left.\<close>

fun load_phdrs :: "loader \<Rightarrow> addr \<Rightarrow> int \<Rightarrow> nat \<Rightarrow> (bool \<times> loader) option" where
  "load_phdrs l file file_ofs 0 = Some (True, l)"
| "load_phdrs l file file_ofs (Suc n) = do {
     len \<leftarrow> file_length (disk l) file;
     if file_ofs < 0 \<or> file_ofs > len then Some (False, l)
     else do {
       f \<leftarrow> file_seek (disk l) file file_ofs;
       (bs, f) \<leftarrow> file_read f file 32;
       let l = l\<lparr>disk := f\<rparr>;
       if length bs \<noteq> 32 then Some (False, l)
       else do {
         (ok, l) \<leftarrow> load_phdr l file (bytes_phdr bs);
         if \<not> ok then Some (False, l) else load_phdrs l file (off_t (file_ofs + 32)) n
       }
     }
   }"

text \<open>From the executable header to the last segment; the entry point is returned on success.\<close>

definition load_image :: "loader \<Rightarrow> addr \<Rightarrow> (u32 option \<times> loader) option" where
  "load_image l file = do {
     (bs, f) \<leftarrow> file_read (disk l) file 52;
     let l = l\<lparr>disk := f\<rparr>;
     let ehdr = bytes_ehdr bs;
     if length bs \<noteq> 52 \<or> \<not> ehdr_ok ehdr then Some (None, l)
     else do {
       (ok, l) \<leftarrow> load_phdrs l file (off_t (uint (e_phoff ehdr))) (e_phnum ehdr);
       Some (if ok then Some (e_entry ehdr) else None, l)
     }
   }"

section \<open>Segments that pass the checks\<close>

lemma unat_add_less: "unat (a :: u32) + unat b < 2 ^ 32 \<Longrightarrow> unat (a + b) = unat a + unat b"
  by (simp add: unat_word_ariths)

lemma PAGE_MASK_eq: "PAGE_MASK = mask 12"
  by (simp add: PAGE_MASK_def mask_eq_exp_minus_1)

lemma unat_and_page_mask: "unat (x AND PAGE_MASK) = unat x mod 4096"
proof -
  have "unat (x AND PAGE_MASK) = take_bit 12 (unat x)"
    unfolding PAGE_MASK_eq take_bit_eq_mask [symmetric] by (rule bit_eqI) (auto simp: bit_simps dest: bit_imp_le_length)
  then show ?thesis by (simp add: take_bit_eq_mod)
qed

lemma unat_clear_page_mask: "unat (x AND NOT PAGE_MASK) = unat x - unat x mod 4096"
proof -
  have "unat (x AND NOT PAGE_MASK) = push_bit 12 (drop_bit 12 (unat x))"
    unfolding PAGE_MASK_eq by (rule bit_eqI) (auto simp: bit_simps dest: bit_imp_le_length)
  then show ?thesis by (simp add: push_bit_eq_mult drop_bit_eq_div minus_mod_eq_div_mult)
qed

lemma unat_round_up_page:
  assumes "unat (x :: u32) + 4095 < 2 ^ 32"
  shows "unat (round_up_page x) = ROUND_UP (unat x) 4096"
proof -
  have c: "unat (0xfff :: u32) = 4095" by simp
  have "x + 0x1000 - 1 = x + 0xfff" by simp
  moreover have "unat (x + 0xfff) = unat x + 4095"
    using assms unat_add_less [where a = x and b = "0xfff"] unfolding c by simp
  ultimately have "unat (x + 0x1000 - 1) = unat x + 4095" by (simp only:)
  then have "unat ((x + 0x1000 - 1) div 0x1000) = (unat x + 4095) div 4096" by (simp add: unat_div)
  moreover have "(unat x + 4095) div 4096 * 4096 < 2 ^ 32" using assms by linarith
  ultimately show ?thesis by (simp add: round_up_page_def ROUND_UP_def unat_word_ariths)
qed

text \<open>What the checks mean for the numbers.\<close>

lemma validate_segment_facts:
  assumes "validate_segment ph len" "0 \<le> len" "len < 2 ^ 31"
  shows "unat (p_offset ph) mod 4096 = unat (p_vaddr ph) mod 4096" "unat (p_offset ph) \<le> nat len"
    "unat (p_filesz ph) \<le> unat (p_memsz ph)" "0 < unat (p_memsz ph)"
    "unat (p_vaddr ph) + unat (p_memsz ph) < PHYS_BASE" "4096 \<le> unat (p_vaddr ph)"
proof -
  note v = assms(1) [unfolded validate_segment_def]
  from v have "p_offset ph AND PAGE_MASK = p_vaddr ph AND PAGE_MASK" by (auto split: if_splits)
  then show "unat (p_offset ph) mod 4096 = unat (p_vaddr ph) mod 4096" by (metis unat_and_page_mask)
  have "p_offset ph \<le> of_int len" using v by (auto split: if_splits)
  then have "unat (p_offset ph) \<le> unat (of_int len :: u32)" by (simp add: word_le_nat_alt)
  also have "unat (of_int len :: u32) = nat len" using assms(2,3) by (simp add: unat_eq_nat_uint uint_word_of_int)
  finally show "unat (p_offset ph) \<le> nat len" .
  show "unat (p_filesz ph) \<le> unat (p_memsz ph)" using v by (auto simp: word_le_nat_alt not_less split: if_splits)
  show "0 < unat (p_memsz ph)" using v by (auto simp: unat_gt_0 split: if_splits)
  show "4096 \<le> unat (p_vaddr ph)" using v by (auto split: if_splits)
  have w: "p_vaddr ph \<le> p_vaddr ph + p_memsz ph" using v by (auto simp: not_less split: if_splits)
  then have "unat (p_vaddr ph + p_memsz ph) = unat (p_vaddr ph) + unat (p_memsz ph)" by (simp add: unat_plus_simple)
  then show "unat (p_vaddr ph) + unat (p_memsz ph) < PHYS_BASE" using v by (auto simp: is_user_vaddr_def split: if_splits)
qed

lemma segment_bytes_facts:
  assumes v: "validate_segment ph len" "0 \<le> len" "len < 2 ^ 31" and s: "segment_bytes ph = (r, z)"
  shows "unat r + unat z = ROUND_UP (unat (p_vaddr ph) mod 4096 + unat (p_memsz ph)) 4096"
    "unat r = (if p_filesz ph > 0 then unat (p_vaddr ph) mod 4096 + unat (p_filesz ph) else 0)"
proof -
  note f = validate_segment_facts [OF v]
  let ?o = "unat (p_vaddr ph) mod 4096"
  have m: "unat (p_vaddr ph AND PAGE_MASK) = ?o" by (rule unat_and_page_mask)
  have "?o + unat (p_memsz ph) + 4095 < 2 ^ 32" using f(5) by simp
  then have ru: "unat (round_up_page ((p_vaddr ph AND PAGE_MASK) + p_memsz ph)) = ROUND_UP (?o + unat (p_memsz ph)) 4096"
    and sm: "unat ((p_vaddr ph AND PAGE_MASK) + p_filesz ph) = ?o + unat (p_filesz ph)"
    using unat_round_up_page unat_add_less m f(3) by auto
  show "unat r = (if p_filesz ph > 0 then ?o + unat (p_filesz ph) else 0)"
    using s sm by (auto simp: segment_bytes_def Let_def split: if_splits)
  show "unat r + unat z = ROUND_UP (?o + unat (p_memsz ph)) 4096"
  proof (cases "p_filesz ph > 0")
    case True
    have "?o + unat (p_filesz ph) \<le> ROUND_UP (?o + unat (p_memsz ph)) 4096"
      using ROUND_UP_bounds [of 4096 "?o + unat (p_memsz ph)"] f(3) by simp
    with True s ru sm show ?thesis by (auto simp: segment_bytes_def Let_def unat_sub word_le_nat_alt)
  qed (use s ru in \<open>auto simp: segment_bytes_def Let_def\<close>)
qed

lemma round_up_below:
  assumes "lo mod 4096 = 0" "lo + x < PHYS_BASE"
  shows "lo + ROUND_UP x 4096 \<le> PHYS_BASE"
proof -
  obtain k where k: "lo = 4096 * k" using assms(1) by (auto elim!: dvdE simp: mod_eq_0_iff_dvd)
  define n where "n = (x + 4095) div 4096"
  have "4096 * (k + n) < 4096 * 786432 + 4096"
    using assms(2) k div_times_less_eq_dividend [of "x + 4095" 4096] by (simp add: n_def algebra_simps)
  then have "k + n \<le> 786432" by simp
  then have "4096 * (k + n) \<le> 4096 * 786432" by (rule mult_le_mono2)
  moreover have "ROUND_UP x 4096 = 4096 * n" by (simp add: ROUND_UP_def n_def add.commute)
  ultimately show ?thesis by (simp add: k add_mult_distrib2)
qed

lemma page_start_facts:
  fixes x :: nat
  defines "lo \<equiv> x - x mod 4096"
  shows "lo mod 4096 = 0" "lo + x mod 4096 = x" "4096 \<le> x \<Longrightarrow> 4096 \<le> lo"
proof -
  show z: "lo mod 4096 = 0" unfolding lo_def minus_mod_eq_div_mult by simp
  show s: "lo + x mod 4096 = x" by (simp add: lo_def)
  assume "4096 \<le> x"
  then have "lo \<noteq> 0" using s mod_less_divisor [of 4096 x] by linarith
  with z show "4096 \<le> lo" by (auto elim!: dvdE simp: mod_eq_0_iff_dvd)
qed

end
