(* ===== verification/Elf_Segment.thy ===== *)
theory Elf_Segment
  imports Elf_Load
begin

text \<open>
  What \<^verbatim>\<open>load_segment\<close> does to the address space of the process: the allocator, the page directory and the
  file system composed.  \<open>user_byte v pd va\<close> is what the process reads at \<open>va\<close>.  The relation \<open>grows\<close> says
  that memory and directory only grew: pages in use, other than the directory and its tables, keep their
  content.
\<close>

section \<open>The file as a source of bytes\<close>

definition source :: "nat \<Rightarrow> fs \<Rightarrow> addr \<Rightarrow> byte list \<Rightarrow> nat \<Rightarrow> bool" where
  "source n f p c q \<longleftrightarrow> (\<exists>fl i. files f p = Some fl \<and> inodes f (file_inode fl) = Some i \<and> cache_ok n (bc f) \<and>
     (\<forall>k. mem_avail f k) \<and> mapped n (view (bc f)) (data i) \<and> pos fl = int q \<and> q \<le> length c \<and> c = file_bytes (view (bc f)) (data i))"

lemma source_read:
  assumes "source n f p c q"
  obtains f' where "file_read f p (int k) = Some (take k (drop q c), f')" "source n f' p c (q + length (take k (drop q c)))"
proof -
  obtain fl i where s: "files f p = Some fl" "inodes f (file_inode fl) = Some i" "cache_ok n (bc f)" "\<forall>k. mem_avail f k"
    "mapped n (view (bc f)) (data i)" "pos fl = int q" "q \<le> length c" "c = file_bytes (view (bc f)) (data i)"
    using assms by (auto simp: source_def)
  have le: "0 \<le> pos fl" "pos fl \<le> file_len (data i)" using s(5-8) by (auto simp: mapped_def)
  let ?bs = "take (nat (int k)) (drop (nat (pos fl)) (file_bytes (view (bc f)) (data i)))"
  obtain f' where f': "file_read f p (int k) = Some (?bs, f')" "files f' = (files f)(p \<mapsto> fl\<lparr>pos := pos fl + int (length ?bs)\<rparr>)"
    "inodes f' = inodes f" "view (bc f') = view (bc f)" "cache_ok n (bc f')" "mem_avail f' = mem_avail f"
    by (rule file_read_ok [OF s(1-5) le])
  have bs: "?bs = take k (drop q c)" by (simp add: s(6,8))
  have "source n f' p c (q + length (take k (drop q c)))"
    unfolding source_def using s f' bs by (intro exI [of _ "fl\<lparr>pos := pos fl + int (length ?bs)\<rparr>"] exI [of _ i]) auto
  then show thesis using f'(1) by (intro that) (simp_all only: bs)
qed

section \<open>A new page\<close>

lemma alloc_user_page:
  assumes "palloc_ok (pgs v)"
  obtains "palloc_get_page (pgs v) PAL_USER = Some (NULL, pgs v)"
  | k g where "palloc_get_page (pgs v) PAL_USER = Some (k, g)" "palloc_ok g" "kernel_page k" "k \<notin> allocated (pgs v)"
      "allocated g = insert k (allocated (pgs v))" "k \<in> pool_pages (user_pool (pgs v))"
      "ram g = ram (pgs v)" "pool_pages (user_pool g) = pool_pages (user_pool (pgs v))"
proof (cases "pool_full (pgs v) PAL_USER 1")
  case True
  then show thesis using palloc_get_full [OF assms _ True] that(1) by (simp add: palloc_get_page_def PAL_USER_def PAL_ASSERT_def)
next
  case False
  obtain k g where g: "palloc_get_multiple (pgs v) PAL_USER 1 = Some (k, g)" "palloc_ok g" "k \<noteq> NULL" "k mod 4096 = 0"
    "k + 4096 * 1 \<le> 2 ^ 32" "PHYS_BASE \<le> k" "pages_at k 1 \<inter> allocated (pgs v) = {}" "allocated g = allocated (pgs v) \<union> pages_at k 1"
    "pages_at k 1 \<subseteq> pool_pages (pool_of (pgs v) PAL_USER)"
    "ram g = (if PAL_USER AND PAL_ZERO \<noteq> 0 then store_bytes (ram (pgs v)) k (replicate (4096 * 1) 0) else ram (pgs v))"
    "pool_pages (user_pool g) = pool_pages (user_pool (pgs v))"
    by (rule palloc_get_found [OF assms _ False]) auto
  then show thesis by (intro that(2) [of k g]) (auto simp: palloc_get_page_def kernel_page_def pool_of_def PAL_USER_def PAL_ZERO_def)
qed

lemma read32_page_cong:
  assumes "kernel_page a" "j < 1024" "\<And>x. page_base x = a \<Longrightarrow> ram (pgs v') x = ram (pgs v) x"
  shows "read32 v' (a + 4 * j) = read32 v (a + 4 * j)"
proof -
  have "page_base (a + 4 * j + i) = a" if "i < 4" for i
    using assms(1,2) that page_base_inside [of a "4 * j + i"] by (simp add: kernel_page_def add.assoc)
  then have "load_bytes (ram (pgs v')) (a + 4 * j) 4 = load_bytes (ram (pgs v)) (a + 4 * j) 4"
    using assms(3) by (intro load_bytes_cong) auto
  then show ?thesis by (simp add: read32_def load32_def)
qed

lemma page_dir_other_pages:
  assumes pd: "page_dir v pd T" and ok: "palloc_ok (pgs v')" "allocated (pgs v) \<subseteq> allocated (pgs v')"
    and same: "\<And>x. page_base x \<in> insert pd (ran T) \<Longrightarrow> ram (pgs v') x = ram (pgs v) x"
  shows "page_dir v' pd T" "\<And>va. va < PHYS_BASE \<Longrightarrow> pte v' T va = pte v T va"
proof -
  have k: "kernel_page pd" using page_dir_kernel_page(1) [OF pd] .
  have "read32 v' (pd + 4 * i) = read32 v (pd + 4 * i)" if "i < 768" for i
    by (rule read32_page_cong [OF k]) (use that same in auto)
  with pd ok show "page_dir v' pd T" by (auto simp: page_dir_def split: option.splits)
  show "pte v' T va = pte v T va" if va: "va < PHYS_BASE" for va
  proof (cases "T (pd_no va)")
    case (Some pt)
    have "read32 v' (pt + 4 * pt_no va) = read32 v (pt + 4 * pt_no va)"
      by (rule read32_page_cong [OF page_dir_kernel_page(2) [OF pd user_indices(1) [OF va] Some] user_indices(2)])
        (use Some same in \<open>auto simp: ran_def\<close>)
    with Some show ?thesis by (simp add: pte_def slot_def)
  qed (simp add: pte_def)
qed

section \<open>States of the loader\<close>

definition loadable :: "loader \<Rightarrow> (nat \<Rightarrow> addr option) \<Rightarrow> bool" where
  "loadable l T \<longleftrightarrow> page_dir (mm l) (pagedir l) T \<and> pagedir l \<noteq> init_page_dir (mm l) \<and>
     (\<forall>k\<in>pool_pages (user_pool (pgs (mm l))). (k - PHYS_BASE) div 4096 < init_ram_pages (mm l))"

definition grows :: "loader \<Rightarrow> (nat \<Rightarrow> addr option) \<Rightarrow> loader \<Rightarrow> (nat \<Rightarrow> addr option) \<Rightarrow> bool" where
  "grows l T l' T' \<longleftrightarrow> loadable l' T' \<and> pagedir l' = pagedir l \<and> allocated (pgs (mm l)) \<subseteq> allocated (pgs (mm l')) \<and>
     ran T' \<inter> allocated (pgs (mm l)) \<subseteq> ran T \<and>
     (\<forall>x. page_base x \<in> allocated (pgs (mm l)) - insert (pagedir l) (ran T) \<longrightarrow> get_ram l' x = get_ram l x)"

lemma grows_refl: "loadable l T \<Longrightarrow> grows l T l T"
  by (simp add: grows_def)

lemma grows_trans: "grows l T l1 T1 \<Longrightarrow> grows l1 T1 l2 T2 \<Longrightarrow> grows l T l2 T2"
proof -
  assume a: "grows l T l1 T1" "grows l1 T1 l2 T2"
  have "get_ram l2 x = get_ram l x" if x: "page_base x \<in> allocated (pgs (mm l)) - insert (pagedir l) (ran T)" for x
  proof -
    have "page_base x \<in> allocated (pgs (mm l1)) - insert (pagedir l1) (ran T1)" using a(1) x by (auto simp: grows_def subset_iff)
    then have "get_ram l2 x = get_ram l1 x" using a(2) by (simp add: grows_def)
    then show ?thesis using a(1) x by (simp add: grows_def)
  qed
  moreover have "ran T2 \<inter> allocated (pgs (mm l)) \<subseteq> ran T" using a by (auto simp: grows_def subset_iff)
  ultimately show ?thesis using a by (auto simp: grows_def)
qed

definition user_byte :: "vm \<Rightarrow> addr \<Rightarrow> addr \<Rightarrow> byte option" where
  "user_byte v pd va = do { k \<leftarrow> pagedir_get_page v pd va; if k = NULL then None else Some (ram (pgs v) k) }"

lemma user_byte_mapped:
  assumes "page_dir v pd T" "va < PHYS_BASE" "pte v T va = pte_word k w" "kernel_page k"
  shows "user_byte v pd va = Some (ram (pgs v) (k + va mod 4096))"
proof -
  have "k \<noteq> NULL" using assms(4) by (auto simp: kernel_page_def)
  then show ?thesis
    using pagedir_get_page_pte [OF assms(1,2)] pte_word_facts(2,3) [OF assms(4)] assms(3) by (simp add: user_byte_def)
qed

section \<open>One page\<close>

text \<open>The new page \<open>k\<close> with its content, before it is mapped.\<close>

lemma filled_page:
  fixes f :: fs
  assumes l: "loadable l T" and g: "palloc_ok g" "kernel_page k" "k \<notin> allocated (pgs (mm l))"
    "allocated g = insert k (allocated (pgs (mm l)))" "pool_pages (user_pool g) = pool_pages (user_pool (pgs (mm l)))"
    and m: "\<And>x. page_base x \<noteq> k \<Longrightarrow> m x = get_ram l x"
  defines "l1 \<equiv> set_ram (set_pgs (l\<lparr>disk := f\<rparr>) g) m"
  shows "grows l T l1 T" "\<And>va. va < PHYS_BASE \<Longrightarrow> pte (mm l1) T va = pte (mm l) T va" "k \<notin> insert (pagedir l) (ran T)"
proof -
  have pd: "page_dir (mm l) (pagedir l) T" using l by (simp add: loadable_def)
  have "ran T \<subseteq> allocated (pgs (mm l))"
  proof
    fix q assume "q \<in> ran T"
    then obtain i where i: "T i = Some q" by (auto simp: ran_def)
    then have "i < 768" using pd by (auto simp: page_dir_def)
    with i pd show "q \<in> allocated (pgs (mm l))" by (auto simp: page_dir_def split: option.splits)
  qed
  then show k: "k \<notin> insert (pagedir l) (ran T)" using g(3) pd by (auto simp: page_dir_def)
  have eq: "pgs (mm l1) = g\<lparr>ram := m\<rparr>" "init_page_dir (mm l1) = init_page_dir (mm l)" "init_ram_pages (mm l1) = init_ram_pages (mm l)"
    "pagedir l1 = pagedir l" "get_ram l1 = m"
    by (simp_all add: l1_def set_ram_def set_pgs_def get_ram_def)
  note other = page_dir_other_pages [OF pd, of "mm l1"]
  have same: "ram (pgs (mm l1)) x = ram (pgs (mm l)) x" if "page_base x \<in> insert (pagedir l) (ran T)" for x
    using that k m [of x] by (auto simp: eq get_ram_def)
  have "page_dir (mm l1) (pagedir l) T" by (rule other(1)) (use g same eq in auto)
  then have "loadable l1 T" using l g(5) by (simp add: loadable_def eq)
  moreover have "m x = get_ram l x" if "page_base x \<in> allocated (pgs (mm l))" for x
    by (rule m) (use that g(3) in auto)
  ultimately show "grows l T l1 T" using g(4) by (auto simp: grows_def eq)
  show "pte (mm l1) T va = pte (mm l) T va" if "va < PHYS_BASE" for va
    by (rule other(2) [OF _ _ _ that]) (use g same eq in auto)
qed

text \<open>Mapping it.\<close>

lemma install_page_cases:
  assumes l: "loadable l T" and u: "upage mod 4096 = 0" "upage < PHYS_BASE" and free: "pte (mm l) T upage AND PTE_P = 0"
    and k: "kernel_page k" "k \<in> pool_pages (user_pool (pgs (mm l)))"
  obtains "install_page l upage k w = Some (False, l)"
  | l' T' where "install_page l upage k w = Some (True, l')" "grows l T l' T'" "disk l' = disk l"
      "\<And>vb. vb < PHYS_BASE \<Longrightarrow> pte (mm l') T' vb = (if vb div 4096 = upage div 4096 then pte_word k w else pte (mm l) T vb)"
proof -
  have pd: "page_dir (mm l) (pagedir l) T" using l by (simp add: loadable_def)
  have args: "set_page_args (mm l) (pagedir l) upage k" using l u k by (simp add: set_page_args_def loadable_def)
  have g: "pagedir_get_page (mm l) (pagedir l) upage = Some NULL"
    using pagedir_get_page_pte [OF pd u(2)] free by simp
  show thesis
  proof (rule pagedir_set_page_cases [OF pd args free, of w])
    assume "pagedir_set_page (mm l) (pagedir l) upage k w = Some (False, mm l)"
    with g show thesis by (intro that(1)) (simp add: install_page_def)
  next
    fix T' v'
    assume v': "pagedir_set_page (mm l) (pagedir l) upage k w = Some (True, v')" "page_dir v' (pagedir l) T'"
      "\<And>vb. vb < PHYS_BASE \<Longrightarrow> pte v' T' vb = (if vb div 4096 = upage div 4096 then pte_word k w else pte (mm l) T vb)"
      "allocated (pgs (mm l)) \<subseteq> allocated (pgs v')" "ran T' \<inter> allocated (pgs (mm l)) \<subseteq> ran T"
      "same_outside (mm l) (insert (pagedir l) (ran T')) v'"
    have run: "install_page l upage k w = Some (True, l\<lparr>mm := v'\<rparr>)" using g v'(1) by (simp add: install_page_def)
    have "loadable (l\<lparr>mm := v'\<rparr>) T'" using l v'(2,6) by (simp add: loadable_def same_outside_def)
    then have "grows l T (l\<lparr>mm := v'\<rparr>) T'"
      using v'(4-6) by (auto simp: grows_def same_outside_def get_ram_def)
    then show thesis using run v'(3) by (intro that(2) [OF run]) auto
  qed
qed

text \<open>\<open>page_holds l T va k bs w\<close>: the frame \<open>k\<close> with content \<open>bs\<close> is mapped at the page \<open>va\<close> and belongs to the process.\<close>

definition page_holds :: "loader \<Rightarrow> (nat \<Rightarrow> addr option) \<Rightarrow> addr \<Rightarrow> addr \<Rightarrow> (nat \<Rightarrow> byte) \<Rightarrow> bool \<Rightarrow> bool" where
  "page_holds l T va k bs w \<longleftrightarrow> kernel_page k \<and> k \<in> allocated (pgs (mm l)) - insert (pagedir l) (ran T) \<and>
     (\<forall>i<4096. pte (mm l) T (va + i) = pte_word k w \<and> get_ram l (k + i) = bs i)"

lemma page_holds_grows:
  assumes "page_holds l T va k bs w" "grows l T l' T'" "\<And>i. i < 4096 \<Longrightarrow> pte (mm l') T' (va + i) = pte (mm l) T (va + i)"
  shows "page_holds l' T' va k bs w"
proof -
  have k: "kernel_page k" "k \<in> allocated (pgs (mm l)) - insert (pagedir l) (ran T)" using assms(1) by (auto simp: page_holds_def)
  have "get_ram l' (k + i) = bs i" if "i < 4096" for i
  proof -
    have "page_base (k + i) = k" using k(1) that by (intro page_base_inside) (simp_all add: kernel_page_def)
    with k(2) assms(2) have "get_ram l' (k + i) = get_ram l (k + i)" by (simp add: grows_def)
    with assms(1) that show ?thesis by (simp add: page_holds_def)
  qed
  with assms k show ?thesis by (auto simp: page_holds_def grows_def subset_iff)
qed

lemma page_holds_user_byte:
  assumes "loadable l T" "page_holds l T va k bs w" "va mod 4096 = 0" "va + i < PHYS_BASE" "i < 4096"
  shows "user_byte (mm l) (pagedir l) (va + i) = Some (bs i)"
proof -
  have "page_dir (mm l) (pagedir l) T" using assms(1) by (simp add: loadable_def)
  moreover have "pte (mm l) T (va + i) = pte_word k w" "kernel_page k" "get_ram l (k + i) = bs i"
    using assms(2,5) by (auto simp: page_holds_def)
  moreover have "(va + i) mod 4096 = i" using assms(3,5) by (simp add: mod_add_eq [of va, symmetric] del: mod_add_left_eq)
  ultimately show ?thesis using user_byte_mapped assms(4) by (simp add: get_ram_def)
qed

lemma pagedir_set [simp]: "pagedir (set_ram l m) = pagedir l" "pagedir (set_pgs l g) = pagedir l"
    "disk (set_pgs l g) = disk l" "pgs (mm (set_pgs l g)) = g"
  by (simp_all add: set_ram_def set_pgs_def)

lemma new_page_holds:
  assumes g: "grows l T l' T'" and k: "kernel_page k" "k \<in> allocated (pgs (mm l))" "k \<notin> insert (pagedir l) (ran T)"
    and bs: "\<And>i. i < 4096 \<Longrightarrow> get_ram l (k + i) = bs i" and u: "upage mod 4096 = 0" "upage < PHYS_BASE"
    and p: "\<And>vb. vb < PHYS_BASE \<Longrightarrow> pte (mm l') T' vb = (if vb div 4096 = upage div 4096 then pte_word k w else e vb)"
  shows "page_holds l' T' upage k bs w"
  unfolding page_holds_def
proof (intro conjI allI impI)
  show "kernel_page k" by (rule k)
  show "k \<in> allocated (pgs (mm l')) - insert (pagedir l') (ran T')" using g k(2,3) by (auto simp: grows_def subset_iff)
  fix i :: nat assume i: "i < 4096"
  have "upage + i < PHYS_BASE" using u i by (auto elim!: dvdE)
  moreover have "(upage + i) div 4096 = upage div 4096" using u(1) i by (auto elim!: dvdE)
  ultimately show "pte (mm l') T' (upage + i) = pte_word k w" using p by simp
  have "page_base (k + i) = k" using k(1) i by (intro page_base_inside) (simp_all add: kernel_page_def)
  then show "get_ram l' (k + i) = bs i" using g k(2,3) bs [OF i] by (simp add: grows_def)
qed

lemma load_page_cases:
  assumes l: "loadable l T" and src: "source n (disk l) file c q" and u: "upage mod 4096 = 0" "upage < PHYS_BASE"
    and free: "pte (mm l) T upage AND PTE_P = 0" and r: "r \<le> 4096"
  obtains l1 where "load_page l file upage r (4096 - r) w = Some (False, l1)"
  | l1 T1 k where "load_page l file upage r (4096 - r) w = Some (True, l1)" "grows l T l1 T1" "q + r \<le> length c"
      "source n (disk l1) file c (q + r)" "\<And>vb. vb < PHYS_BASE \<Longrightarrow> vb div 4096 \<noteq> upage div 4096 \<Longrightarrow> pte (mm l1) T1 vb = pte (mm l) T vb"
      "page_holds l1 T1 upage k (\<lambda>i. if i < r then c ! (q + i) else 0) w"
proof -
  have ok: "palloc_ok (pgs (mm l))" using l by (simp add: loadable_def page_dir_def)
  show thesis
  proof (rule alloc_user_page [OF ok])
    assume "palloc_get_page (pgs (mm l)) PAL_USER = Some (NULL, pgs (mm l))"
    then show thesis by (intro that(1)) (simp add: load_page_def)
  next
    fix k g
    assume g: "palloc_get_page (pgs (mm l)) PAL_USER = Some (k, g)" "palloc_ok g" "kernel_page k" "k \<notin> allocated (pgs (mm l))"
      "allocated g = insert k (allocated (pgs (mm l)))" "k \<in> pool_pages (user_pool (pgs (mm l)))"
      "ram g = ram (pgs (mm l))" "pool_pages (user_pool g) = pool_pages (user_pool (pgs (mm l)))"
    define bs where "bs = take r (drop q c)"
    obtain f' where f': "file_read (disk l) file (int r) = Some (bs, f')" "source n f' file c (q + length bs)"
      unfolding bs_def by (rule source_read [OF src])
    define m1 where "m1 = store_bytes (get_ram l) k bs"
    define m2 where "m2 = store_bytes m1 (k + r) (replicate (4096 - r) 0)"
    have k: "k \<noteq> NULL" "k mod 4096 = 0" using g(3) by (auto simp: kernel_page_def)
    have len: "length bs \<le> 4096" using r by (simp add: bs_def)
    have m1: "m1 x = get_ram l x" if "page_base x \<noteq> k" for x
      unfolding m1_def using page_base_outside [OF k(2) that] len by (intro store_bytes_outside) auto
    have m2: "m2 x = get_ram l x" if "page_base x \<noteq> k" for x
      using page_base_outside [OF k(2) that] r m1 [OF that] unfolding m2_def by (subst store_bytes_outside) auto
    have ram: "get_ram (set_pgs l g) = get_ram l" using g(7) by (simp add: get_ram_def set_pgs_def)
    let ?l1 = "\<lambda>m. set_ram (set_pgs (l\<lparr>disk := f'\<rparr>) g) m"
    have al: "k \<in> allocated (pgs (mm (?l1 m)))" "palloc_ok (pgs (mm (?l1 m)))" for m
      using g(2,5) by (simp_all add: set_ram_def set_pgs_def)
    have fr: "\<exists>g'. palloc_free_page (pgs (mm (?l1 m))) k = Some g'" for m
      unfolding palloc_free_page_def by (rule palloc_free_allocated [OF al(2) k(2), of 1 m]) (use al(1) in auto)
    have l1: "set_ram ((set_pgs l g)\<lparr>disk := f'\<rparr>) m = ?l1 m" "set_ram (?l1 m) m' = ?l1 m'" "get_ram (?l1 m) = m" for m m'
      by (simp_all add: set_ram_def set_pgs_def get_ram_def)
    have run: "load_page l file upage r (4096 - r) w = (if length bs \<noteq> r then do {
        g' \<leftarrow> palloc_free_page (pgs (mm (?l1 m1))) k; Some (False, set_pgs (?l1 m1) g') }
      else do {
        (ok, l) \<leftarrow> install_page (?l1 m2) upage k w;
        if \<not> ok then do { g' \<leftarrow> palloc_free_page (pgs (mm l)) k; Some (False, set_pgs l g') } else Some (True, l) })"
      using g(1) k(1) f'(1)
      by (simp add: load_page_def ram l1 memset_def memset_loop_eq m1_def [symmetric] m2_def [symmetric] Let_def cong: if_cong)
    show thesis
    proof (cases "length bs = r")
      case False
      with run fr [of m1] show thesis by (auto intro: that(1))
    next
      case True
      have fill: "grows l T (?l1 m2) T" by (rule filled_page(1) [OF l g(2-5,8)]) (rule m2)
      have fill2: "pte (mm (?l1 m2)) T va = pte (mm l) T va" if "va < PHYS_BASE" for va
        by (rule filled_page(2) [OF l g(2-5,8) _ that]) (rule m2)
      have fill3: "k \<notin> insert (pagedir l) (ran T)" by (rule filled_page(3) [OF l g(2-5,8)]) (rule m2)
      have l2: "loadable (?l1 m2) T" using fill by (simp add: grows_def)
      have free2: "pte (mm (?l1 m2)) T upage AND PTE_P = 0" using fill2 [OF u(2)] free by simp
      have pool2: "k \<in> pool_pages (user_pool (pgs (mm (?l1 m2))))" using g(6,8) by (simp add: set_ram_def set_pgs_def)
      show thesis
      proof (rule install_page_cases [OF l2 u free2 g(3) pool2, of w])
        assume "install_page (?l1 m2) upage k w = Some (False, ?l1 m2)"
        with run True fr [of m2] show thesis by (auto intro: that(1))
      next
        fix l' T'
        assume l': "install_page (?l1 m2) upage k w = Some (True, l')" "grows (?l1 m2) T l' T'" "disk l' = disk (?l1 m2)"
          "\<And>vb. vb < PHYS_BASE \<Longrightarrow> pte (mm l') T' vb = (if vb div 4096 = upage div 4096 then pte_word k w else pte (mm (?l1 m2)) T vb)"
        have "load_page l file upage r (4096 - r) w = Some (True, l')" using run True l'(1) by simp
        moreover have "grows l T l' T'" by (rule grows_trans [OF fill l'(2)])
        moreover have "source n (disk l') file c (q + r)" using f'(2) True l'(3) by (simp add: set_ram_def set_pgs_def)
        moreover have "q + r \<le> length c" using src True by (auto simp: bs_def source_def)
        moreover have "page_holds l' T' upage k (\<lambda>i. if i < r then c ! (q + i) else 0) w"
          by (rule new_page_holds [OF l'(2) g(3) al(1) _ _ u l'(4)])
            (use fill3 True r in \<open>auto simp: l1 m2_def m1_def bs_def store_bytes_def\<close>)
        ultimately show thesis using l'(4) fill2 by (intro that(2)) auto
      qed
    qed
  qed
qed

section \<open>The loop\<close>

text \<open>\<open>filled l T u n f w\<close>: the \<open>n\<close> pages from \<open>u\<close> on are mapped and read as \<open>f 0\<close>, \<open>f 1\<close>, \dots\<close>

definition filled :: "loader \<Rightarrow> (nat \<Rightarrow> addr option) \<Rightarrow> addr \<Rightarrow> nat \<Rightarrow> (nat \<Rightarrow> byte) \<Rightarrow> bool \<Rightarrow> bool" where
  "filled l T u n f w \<longleftrightarrow> (\<forall>j<n. \<exists>k. page_holds l T (u + 4096 * j) k (\<lambda>i. f (4096 * j + i)) w)"

lemma filled_Suc:
  assumes "page_holds l T u k f w" "filled l T (u + 4096) n (\<lambda>i. f (4096 + i)) w"
  shows "filled l T u (Suc n) f w"
  unfolding filled_def
proof (intro allI impI)
  fix j assume j: "j < Suc n"
  show "\<exists>k. page_holds l T (u + 4096 * j) k (\<lambda>i. f (4096 * j + i)) w"
  proof (cases j)
    case 0
    with assms(1) show ?thesis by auto
  next
    case (Suc j')
    with j assms(2) obtain k where "page_holds l T (u + 4096 + 4096 * j') k (\<lambda>i. f (4096 + (4096 * j' + i))) w"
      unfolding filled_def by auto
    then show ?thesis using Suc by (auto simp: algebra_simps)
  qed
qed

lemma filled_user_byte:
  assumes "loadable l T" "filled l T u n f w" "u mod 4096 = 0" "u + 4096 * n \<le> PHYS_BASE" "i < 4096 * n"
  shows "user_byte (mm l) (pagedir l) (u + i) = Some (f i)"
proof -
  let ?j = "i div 4096" and ?i = "i mod 4096"
  have j: "?j < n" using assms(5) by (simp add: div_less_iff_less_mult mult.commute)
  then obtain k where k: "page_holds l T (u + 4096 * ?j) k (\<lambda>i. f (4096 * ?j + i)) w" using assms(2) by (auto simp: filled_def)
  have eq: "4096 * ?j + ?i = i" by simp
  have "user_byte (mm l) (pagedir l) (u + 4096 * ?j + ?i) = Some (f (4096 * ?j + ?i))"
    by (rule page_holds_user_byte [OF assms(1) k]) (use assms(3-5) eq in \<open>auto simp: mod_eq_0_iff_dvd\<close>)
  then show ?thesis by (simp add: add.assoc eq)
qed

lemma load_loop_pages:
  "loadable l T \<Longrightarrow> source m (disk l) file c q \<Longrightarrow> rb + zb = 4096 * n \<Longrightarrow> u mod 4096 = 0 \<Longrightarrow> u + 4096 * n \<le> PHYS_BASE \<Longrightarrow>
   (\<And>va. u \<le> va \<Longrightarrow> va < u + 4096 * n \<Longrightarrow> pte (mm l) T va AND PTE_P = 0) \<Longrightarrow>
   \<exists>ok l'. load_loop l file u rb zb w = Some (ok, l') \<and> (ok \<longrightarrow> (\<exists>T'. grows l T l' T' \<and> q + rb \<le> length c \<and>
     source m (disk l') file c (q + rb) \<and>
     (\<forall>va<PHYS_BASE. va < u \<or> u + 4096 * n \<le> va \<longrightarrow> pte (mm l') T' va = pte (mm l) T va) \<and>
     filled l' T' u n (\<lambda>i. if i < rb then c ! (q + i) else 0) w))"
proof (induction n arbitrary: l T q rb zb u)
  case 0
  then have "load_loop l file u rb zb w = Some (True, l)" by (subst load_loop.simps) simp
  with 0 show ?case by (auto intro!: exI [of _ T] grows_refl simp: filled_def source_def)
next
  case (Suc n)
  define r where "r = min rb 4096"
  have r: "r \<le> 4096" "rb < 4096 \<longrightarrow> r = rb" "4096 \<le> rb \<longrightarrow> r = 4096" by (auto simp: r_def)
  have u: "u < PHYS_BASE" using Suc.prems(5) by simp
  have z: "4096 - r \<le> zb" "zb < 2 ^ 32" using Suc.prems(3,5) r by auto
  then have z': "nat ((int zb - int (4096 - r)) mod 2 ^ 32) = zb - (4096 - r)"
    using of_nat_diff [OF z(1), where 'a = int] by (simp only: of_nat_diff [symmetric]) simp
  have pr: "(if rb < 4096 then rb else 4096) = r" by (auto simp: r_def)
  have unfold: "load_loop l file u rb zb w = do {
      (ok, l) \<leftarrow> load_page l file u r (4096 - r) w;
      if \<not> ok then Some (False, l) else load_loop l file (u + 4096) (rb - r) (zb - (4096 - r)) w }"
  proof -
    have c: "rb > 0 \<or> zb > 0" and w: "(u + 4096) mod 2 ^ 32 = u + 4096" using Suc.prems(3,5) by auto
    show ?thesis unfolding load_loop.simps [of l "file" u rb zb w] Let_def PGSIZE_eq pr z' w by (simp only: c if_True)
  qed
  have free: "pte (mm l) T u AND PTE_P = 0" using Suc.prems(6) by simp
  show ?case
  proof (rule load_page_cases [OF Suc.prems(1,2,4) u free r(1), of w])
    fix l1 assume "load_page l file u r (4096 - r) w = Some (False, l1)"
    then show ?thesis unfolding unfold by (intro exI [of _ False] exI [of _ l1]) simp
  next
    fix l1 T1 k
    assume s: "load_page l file u r (4096 - r) w = Some (True, l1)" "grows l T l1 T1" "q + r \<le> length c" "source m (disk l1) file c (q + r)"
      "\<And>vb. vb < PHYS_BASE \<Longrightarrow> vb div 4096 \<noteq> u div 4096 \<Longrightarrow> pte (mm l1) T1 vb = pte (mm l) T vb"
      "page_holds l1 T1 u k (\<lambda>i. if i < r then c ! (q + i) else 0) w"
    have l1: "loadable l1 T1" "pagedir l1 = pagedir l" using s(2) by (auto simp: grows_def)
    have other: "pte (mm l1) T1 vb = pte (mm l) T vb" if "vb < PHYS_BASE" "vb < u \<or> u + 4096 \<le> vb" for vb
      by (rule s(5)) (use that Suc.prems(4) in \<open>auto elim!: dvdE\<close>)
    have IH: "\<exists>ok l'. load_loop l1 file (u + 4096) (rb - r) (zb - (4096 - r)) w = Some (ok, l') \<and> (ok \<longrightarrow> (\<exists>T'. grows l1 T1 l' T' \<and>
        q + r + (rb - r) \<le> length c \<and> source m (disk l') file c (q + r + (rb - r)) \<and>
        (\<forall>va<PHYS_BASE. va < u + 4096 \<or> u + 4096 + 4096 * n \<le> va \<longrightarrow> pte (mm l') T' va = pte (mm l1) T1 va) \<and>
        filled l' T' (u + 4096) n (\<lambda>i. if i < rb - r then c ! (q + r + i) else 0) w))"
      by (rule Suc.IH [OF l1(1) s(4)]) (use Suc.prems(3-6) r z other in auto)
    then obtain ok l' where l': "load_loop l1 file (u + 4096) (rb - r) (zb - (4096 - r)) w = Some (ok, l')"
      and rest: "ok \<longrightarrow> (\<exists>T'. grows l1 T1 l' T' \<and>
        q + r + (rb - r) \<le> length c \<and> source m (disk l') file c (q + r + (rb - r)) \<and>
        (\<forall>va<PHYS_BASE. va < u + 4096 \<or> u + 4096 + 4096 * n \<le> va \<longrightarrow> pte (mm l') T' va = pte (mm l1) T1 va) \<and>
        filled l' T' (u + 4096) n (\<lambda>i. if i < rb - r then c ! (q + r + i) else 0) w)" by blast
    have run: "load_loop l file u rb zb w = Some (ok, l')" unfolding unfold using s(1) l' by simp
    show ?thesis
    proof (cases ok)
      case False
      with run show ?thesis by (intro exI [of _ ok] exI [of _ l']) simp
    next
      case True
      with rest obtain T' where T': "grows l1 T1 l' T'" "q + r + (rb - r) \<le> length c" "source m (disk l') file c (q + r + (rb - r))"
        "\<And>va. va < PHYS_BASE \<Longrightarrow> va < u + 4096 \<or> u + 4096 + 4096 * n \<le> va \<Longrightarrow> pte (mm l') T' va = pte (mm l1) T1 va"
        "filled l' T' (u + 4096) n (\<lambda>i. if i < rb - r then c ! (q + r + i) else 0) w" by auto
      have "page_holds l' T' u k (\<lambda>i. if i < r then c ! (q + i) else 0) w"
        by (rule page_holds_grows [OF s(6) T'(1)], rule T'(4)) (use Suc.prems(5) in auto)
      then have "page_holds l' T' u k (\<lambda>i. if i < rb then c ! (q + i) else 0) w"
        using r by (auto simp: page_holds_def)
      moreover have "(\<lambda>i. if i < rb - r then c ! (q + r + i) else 0) = (\<lambda>i. if 4096 + i < rb then c ! (q + (4096 + i)) else 0)"
        using r by (auto simp: fun_eq_iff algebra_simps)
      ultimately have "filled l' T' u (Suc n) (\<lambda>i. if i < rb then c ! (q + i) else 0) w"
        using T'(5) by (intro filled_Suc) simp_all
      moreover have "grows l T l' T'" by (rule grows_trans [OF s(2) T'(1)])
      moreover have "q + r + (rb - r) = q + rb" using r by (auto simp: r_def)
      moreover have "pte (mm l') T' va = pte (mm l) T va" if "va < PHYS_BASE" "va < u \<or> u + 4096 * Suc n \<le> va" for va
        using T'(4) [of va] other [of va] that by auto
      ultimately show ?thesis using run True T'(2,3) by auto
    qed
  qed
qed

section \<open>A loadable segment\<close>

lemma source_length:
  assumes "source n f p c q"
  shows "file_length f p = Some (int (length c))" "length c < 2 ^ 31"
  using assms by (auto simp: source_def file_length_def inode_length_def mapped_def)

lemma source_seek:
  assumes "source n f p c q" "p \<noteq> NULL" "q' \<le> length c"
  obtains f' where "file_seek f p (int q') = Some f'" "source n f' p c q'"
proof -
  obtain fl i where s: "files f p = Some fl" "inodes f (file_inode fl) = Some i" "cache_ok n (bc f)" "\<forall>k. mem_avail f k"
    "mapped n (view (bc f)) (data i)" "c = file_bytes (view (bc f)) (data i)"
    using assms(1) by (auto simp: source_def)
  let ?f = "f\<lparr>files := (files f)(p \<mapsto> fl\<lparr>pos := int q'\<rparr>)\<rparr>"
  have "file_seek f p (int q') = Some ?f" using assms(2) s(1) by (simp add: file_seek_def update_file_def)
  moreover have "source n ?f p c q'"
    unfolding source_def using s assms(3) by (intro exI [of _ "fl\<lparr>pos := int q'\<rparr>"] exI [of _ i]) auto
  ultimately show thesis by (rule that)
qed

lemma load_segment_pages:
  assumes l: "loadable l T" and src: "source m (disk l) file c q" "file \<noteq> NULL"
    and a: "rb + zb = 4096 * n" "u mod 4096 = 0" "u + 4096 * n \<le> PHYS_BASE" "ofs mod 4096 = 0" "ofs \<le> length c"
    and free: "\<And>va. u \<le> va \<Longrightarrow> va < u + 4096 * n \<Longrightarrow> pte (mm l) T va AND PTE_P = 0"
  shows "\<exists>ok l'. load_segment l file (int ofs) u rb zb w = Some (ok, l') \<and> (ok \<longrightarrow> (\<exists>T'. loadable l' T' \<and> pagedir l' = pagedir l \<and>
    ofs + rb \<le> length c \<and> (\<forall>va<PHYS_BASE. va < u \<or> u + 4096 * n \<le> va \<longrightarrow> pte (mm l') T' va = pte (mm l) T va) \<and>
    filled l' T' u n (\<lambda>i. if i < rb then c ! (ofs + i) else 0) w))"
proof -
  obtain f where f: "file_seek (disk l) file (int ofs) = Some f" "source m f file c ofs"
    by (rule source_seek [OF src a(5)])
  have "(rb + zb) mod 2 ^ 32 mod 4096 = 0" using a(1) by (simp add: mod_mod_cancel)
  moreover have "int ofs mod 4096 = int (ofs mod 4096)" by (simp only: of_nat_mod of_nat_numeral)
  then have "int ofs mod 4096 = 0" unfolding a(4) by (simp only: of_nat_0)
  then have "int ofs smod 4096 = 0" by (simp add: signed_modulo_int_def)
  ultimately have run: "load_segment l file (int ofs) u rb zb w = load_loop (l\<lparr>disk := f\<rparr>) file u rb zb w"
    using a(2) f(1) by (simp add: load_segment_def pg_ofs_eq)
  have eq: "loadable (l\<lparr>disk := f\<rparr>) T" "mm (l\<lparr>disk := f\<rparr>) = mm l" "pagedir (l\<lparr>disk := f\<rparr>) = pagedir l" using l by (simp_all add: loadable_def)
  have f2: "source m (disk (l\<lparr>disk := f\<rparr>)) file c ofs" using f(2) by simp
  have free2: "\<And>va. u \<le> va \<Longrightarrow> va < u + 4096 * n \<Longrightarrow> pte (mm (l\<lparr>disk := f\<rparr>)) T va AND PTE_P = 0" using free by simp
  obtain ok l' where l': "load_loop (l\<lparr>disk := f\<rparr>) file u rb zb w = Some (ok, l')" and post: "ok \<longrightarrow> (\<exists>T'. grows (l\<lparr>disk := f\<rparr>) T l' T' \<and> ofs + rb \<le> length c \<and>
     source m (disk l') file c (ofs + rb) \<and>
     (\<forall>va<PHYS_BASE. va < u \<or> u + 4096 * n \<le> va \<longrightarrow> pte (mm l') T' va = pte (mm (l\<lparr>disk := f\<rparr>)) T va) \<and>
     filled l' T' u n (\<lambda>i. if i < rb then c ! (ofs + i) else 0) w)"
    using load_loop_pages [OF eq(1) f2 a(1-3), where w = w] free2 by blast
  have "ok \<longrightarrow> (\<exists>T'. loadable l' T' \<and> pagedir l' = pagedir l \<and> ofs + rb \<le> length c \<and>
     (\<forall>va<PHYS_BASE. va < u \<or> u + 4096 * n \<le> va \<longrightarrow> pte (mm l') T' va = pte (mm l) T va) \<and>
     filled l' T' u n (\<lambda>i. if i < rb then c ! (ofs + i) else 0) w)"
  proof
    assume ok
    with post obtain T' where "grows (l\<lparr>disk := f\<rparr>) T l' T'" "ofs + rb \<le> length c"
      "\<forall>va<PHYS_BASE. va < u \<or> u + 4096 * n \<le> va \<longrightarrow> pte (mm l') T' va = pte (mm l) T va"
      "filled l' T' u n (\<lambda>i. if i < rb then c ! (ofs + i) else 0) w" by auto
    then show "\<exists>T'. loadable l' T' \<and> pagedir l' = pagedir l \<and> ofs + rb \<le> length c \<and>
     (\<forall>va<PHYS_BASE. va < u \<or> u + 4096 * n \<le> va \<longrightarrow> pte (mm l') T' va = pte (mm l) T va) \<and>
     filled l' T' u n (\<lambda>i. if i < rb then c ! (ofs + i) else 0) w" by (intro exI [of _ T']) (simp add: grows_def)
  qed
  with run l' show ?thesis by (intro exI [of _ ok] exI [of _ l']) simp
qed

text \<open>The segment of a validated program header.\<close>

lemma load_phdr_segment:
  assumes l: "loadable l T" and src: "source m (disk l) file c q" "file \<noteq> NULL"
    and ph: "p_type ph = PT_LOAD" "validate_segment ph (int (length c))"
  defines "va \<equiv> unat (p_vaddr ph)" and "lo \<equiv> unat (p_vaddr ph) - unat (p_vaddr ph) mod 4096"
  defines "hi \<equiv> lo + ROUND_UP (va mod 4096 + unat (p_memsz ph)) 4096"
  assumes free: "\<And>x. lo \<le> x \<Longrightarrow> x < hi \<Longrightarrow> pte (mm l) T x AND PTE_P = 0"
  shows "\<exists>ok l'. load_phdr l file ph = Some (ok, l') \<and> (ok \<longrightarrow> (\<exists>T'. loadable l' T' \<and> pagedir l' = pagedir l \<and>
    (\<forall>x<PHYS_BASE. x < lo \<or> hi \<le> x \<longrightarrow> pte (mm l') T' x = pte (mm l) T x) \<and>
    (\<forall>i<unat (p_memsz ph). user_byte (mm l') (pagedir l) (va + i) =
       Some (if i < unat (p_filesz ph) then c ! (unat (p_offset ph) + i) else 0))))"
proof -
  note len = source_length [OF src(1)]
  have len': "int (length c) < 2 ^ 31" "0 \<le> int (length c)" using len(2) by simp_all
  note v = validate_segment_facts [OF ph(2) len'(2,1)]
  define ofs where "ofs = unat (p_offset ph) - unat (p_offset ph) mod 4096"
  define po where "po = va mod 4096"
  define n where "n = (po + unat (p_memsz ph) + 4095) div 4096"
  obtain r z where rz: "segment_bytes ph = (r, z)" by fastforce
  note sb = segment_bytes_facts [OF ph(2) len'(2,1) rz]
  have sum: "unat r + unat z = 4096 * n" using sb(1) by (simp add: n_def po_def va_def ROUND_UP_def mult.commute)
  have hi: "hi = lo + 4096 * n" by (simp add: hi_def n_def po_def ROUND_UP_def mult.commute)
  have va: "va = lo + po" "lo mod 4096 = 0" by (simp_all add: lo_def po_def va_def minus_mod_eq_div_mult)
  have bound: "lo + 4096 * n \<le> PHYS_BASE"
    using round_up_below [of lo "po + unat (p_memsz ph)"] v(5) va hi hi_def by (simp add: po_def va_def)
  have o: "unat (p_offset ph) = ofs + po" "ofs mod 4096 = 0" "ofs \<le> length c"
  proof -
    show "ofs mod 4096 = 0" unfolding ofs_def minus_mod_eq_div_mult by simp
    show "unat (p_offset ph) = ofs + po" "ofs \<le> length c" using v(1,2) by (simp_all add: ofs_def po_def va_def)
  qed
  have "off_t (uint (p_offset ph AND NOT PAGE_MASK)) = int ofs"
    using o(3) len' by (subst uint_nat) (simp add: unat_clear_page_mask ofs_def [symmetric])
  then have run: "load_phdr l file ph = load_segment l file (int ofs) lo (unat r) (unat z) (p_flags ph AND PF_W \<noteq> 0)"
    using ph len(1) rz unat_clear_page_mask [of "p_vaddr ph"]
    by (simp add: load_phdr_def PT_LOAD_def PT_DYNAMIC_def PT_INTERP_def PT_SHLIB_def lo_def)
  obtain ok l' where l': "load_phdr l file ph = Some (ok, l')" and post: "ok \<longrightarrow> (\<exists>T'. loadable l' T' \<and> pagedir l' = pagedir l \<and>
     ofs + unat r \<le> length c \<and> (\<forall>x<PHYS_BASE. x < lo \<or> lo + 4096 * n \<le> x \<longrightarrow> pte (mm l') T' x = pte (mm l) T x) \<and>
     filled l' T' lo n (\<lambda>i. if i < unat r then c ! (ofs + i) else 0) (p_flags ph AND PF_W \<noteq> 0))"
    using load_segment_pages [OF l src sum va(2) bound o(2,3) free, where w = "p_flags ph AND PF_W \<noteq> 0"] hi run by auto
  have "user_byte (mm l') (pagedir l) (va + i) = Some (if i < unat (p_filesz ph) then c ! (unat (p_offset ph) + i) else 0)"
    if T': "loadable l' T'" "pagedir l' = pagedir l" "filled l' T' lo n (\<lambda>i. if i < unat r then c ! (ofs + i) else 0) w" and i: "i < unat (p_memsz ph)" for T' i w
  proof -
    have "po + unat (p_memsz ph) \<le> 4096 * n" using ROUND_UP_bounds [of 4096 "po + unat (p_memsz ph)"] hi hi_def po_def by simp
    then have "user_byte (mm l') (pagedir l') (lo + (po + i)) = Some (if po + i < unat r then c ! (ofs + (po + i)) else 0)"
      using i by (intro filled_user_byte [OF T'(1,3) va(2) bound]) simp
    moreover have "po + i < unat r \<longleftrightarrow> i < unat (p_filesz ph)" using sb(2) by (auto simp: po_def va_def word_less_nat_alt split: if_splits)
    ultimately show ?thesis using o(1) va(1) T'(2) by (simp add: add.assoc)
  qed
  with post have "ok \<longrightarrow> (\<exists>T'. loadable l' T' \<and> pagedir l' = pagedir l \<and>
    (\<forall>x<PHYS_BASE. x < lo \<or> hi \<le> x \<longrightarrow> pte (mm l') T' x = pte (mm l) T x) \<and>
    (\<forall>i<unat (p_memsz ph). user_byte (mm l') (pagedir l) (va + i) =
       Some (if i < unat (p_filesz ph) then c ! (unat (p_offset ph) + i) else 0)))"
    unfolding hi by blast
  with l' show ?thesis by blast
qed

end
