(* ===== verification/Syscalls.thy ===== *)
theory Syscalls
  imports File_Table Elf_Segment
begin

text \<open>
  \<^verbatim>\<open>userprog/syscall.c\<close>: the checks of user pointers, the decoding of a system call from the user stack, and
  the calls on files.  The state \<open>user\<close> is the running process: its table of open files with the memory and the
  file system below it, its page directory, whether \<^verbatim>\<open>filesys_lock\<close> is held, and what has been written to the
  console.  \<open>kmap a w\<close> says whether the kernel's own mapping allows an access at \<open>a\<close>, for writing if \<open>w\<close>; \<open>lv\<close>
  is the address of the local list variable of \<^verbatim>\<open>get_file\<close> and \<open>scratch_entry\<close> the content of an
  uninitialised directory entry.

  A call either returns, or ends the process by \<^verbatim>\<open>exit\<close>, or makes a page fault inside the kernel, which the
  handler of \<^verbatim>\<open>exception.c\<close> also turns into \<^verbatim>\<open>exit (-1)\<close>, without returning to the call and with the lock as
  it is; \<open>exit_files\<close> of \<open>File_Table\<close> says what the lock means for the end of the process.

  \<open>sys_read\<close> reads all the bytes first and stores them after that, where the code stores sector by sector while
  it reads.  The two agree as long as the buffer does not cover the objects of the kernel (the open file, the
  inode, the cache, the lock), which are not words of the memory \<open>ram\<close> here; how many bytes are stored before a
  page fault is not recorded.
\<close>

section \<open>State and outcomes\<close>

record user =
  tab :: process
  pdir :: addr
  base_pd :: addr
  ram_pages :: nat
  kmap :: "addr \<Rightarrow> bool \<Rightarrow> bool"
  fs_held :: bool
  console :: "byte list"
  pname :: "byte list"
  lv :: addr
  scratch_entry :: entry

datatype ('a, 's) outcome = Return 'a 's | Exit int 's | Fault

definition and_then :: "('a, 's) outcome option \<Rightarrow> ('a \<Rightarrow> 's \<Rightarrow> ('b, 's) outcome option) \<Rightarrow> ('b, 's) outcome option" where
  "and_then r k = (case r of None \<Rightarrow> None | Some (Return a s) \<Rightarrow> k a s | Some (Exit n s) \<Rightarrow> Some (Exit n s) | Some Fault \<Rightarrow> Some Fault)"

lemma and_then_simps [simp]:
  "and_then (Some (Return a s)) k = k a s" "and_then (Some (Exit n s)) k = Some (Exit n s)"
  "and_then (Some Fault) k = Some Fault" "and_then None k = None"
  by (simp_all add: and_then_def)

section \<open>User memory\<close>

definition view_vm :: "user \<Rightarrow> vm" where
  "view_vm u = \<lparr>pgs = kmem (tab u), init_page_dir = base_pd u, init_ram_pages = ram_pages u, cr3 = pdir u - PHYS_BASE\<rparr>"

text \<open>
  The address translation of the processor for an access of the kernel: below \<^verbatim>\<open>PHYS_BASE\<close> through the
  page tables of the process, where a read-only page is respected, above it through the kernel's mapping.
\<close>

definition translate :: "user \<Rightarrow> bool \<Rightarrow> addr \<Rightarrow> addr option" where
  "translate u w a =
     (if is_user_vaddr a then do {
        (pte, v) \<leftarrow> lookup_page (view_vm u) (pdir u) a False;
        let e = read32 v pte;
        if pte \<noteq> NULL \<and> e AND PTE_P \<noteq> 0 \<and> (w \<longrightarrow> e AND PTE_W \<noteq> 0)
        then do { k \<leftarrow> pte_get_page e; Some (k + pg_ofs a) } else None
      } else if kmap u a w then Some a else None)"

definition set_kram :: "user \<Rightarrow> memory \<Rightarrow> user" where
  "set_kram u m = u\<lparr>tab := (tab u)\<lparr>kmem := (kmem (tab u))\<lparr>ram := m\<rparr>\<rparr>\<rparr>"

definition kram :: "user \<Rightarrow> memory" where
  "kram u = ram (kmem (tab u))"

fun get_user :: "user \<Rightarrow> addr \<Rightarrow> nat \<Rightarrow> byte list option" where
  "get_user u a 0 = Some []"
| "get_user u a (Suc n) = do {
     k \<leftarrow> translate u False a;
     bs \<leftarrow> get_user u ((a + 1) mod 2 ^ 32) n;
     Some (kram u k # bs)
   }"

fun put_user :: "user \<Rightarrow> addr \<Rightarrow> byte list \<Rightarrow> user option" where
  "put_user u a [] = Some u"
| "put_user u a (b # bs) = do {
     k \<leftarrow> translate u True a;
     put_user (set_kram u ((kram u)(k := b))) ((a + 1) mod 2 ^ 32) bs
   }"

section \<open>Checks of pointers\<close>

text \<open>The result is \<open>False\<close> where the code calls \<^verbatim>\<open>exit (-1)\<close>.\<close>

definition is_valid_ptr_single :: "user \<Rightarrow> addr \<Rightarrow> bool option" where
  "is_valid_ptr_single u ptr =
     (if ptr = NULL \<or> \<not> is_user_vaddr ptr \<or> \<not> is_user_vaddr_above ptr then Some False
      else do { k \<leftarrow> pagedir_get_page (view_vm u) (pdir u) ptr; Some (k \<noteq> NULL) })"

fun valid_ptr_loop :: "user \<Rightarrow> addr \<Rightarrow> nat \<Rightarrow> nat \<Rightarrow> bool option" where
  "valid_ptr_loop u ptr i 0 = Some True"
| "valid_ptr_loop u ptr i (Suc n) = do {
     ok \<leftarrow> is_valid_ptr_single u ((ptr + i) mod 2 ^ 32);
     if ok then valid_ptr_loop u ptr (i + 1) n else Some False
   }"

definition is_valid_ptr :: "user \<Rightarrow> addr \<Rightarrow> bool option" where
  "is_valid_ptr u ptr = do {
     ok \<leftarrow> is_valid_ptr_single u ptr;
     if ok then valid_ptr_loop u ptr 0 4 else Some False
   }"

definition check_ptr :: "user \<Rightarrow> addr \<Rightarrow> (unit, user) outcome option" where
  "check_ptr u ptr = do { ok \<leftarrow> is_valid_ptr u ptr; Some (if ok then Return () u else Exit (-1) u) }"

definition user_word :: "user \<Rightarrow> addr \<Rightarrow> (u32, user) outcome option" where
  "user_word u a = Some (case get_user u a 4 of None \<Rightarrow> Fault | Some bs \<Rightarrow> Return (of_nat (un_le32 bs)) u)"

section \<open>Decoding a call\<close>

text \<open>The arguments from the \<open>i\<close>-th on.\<close>

fun read_args_from :: "nat \<Rightarrow> nat \<Rightarrow> user \<Rightarrow> addr \<Rightarrow> (u32 list, user) outcome option" where
  "read_args_from i 0 u esp = Some (Return [] u)"
| "read_args_from i (Suc n) u esp = (let ptr = (esp + 4 * (1 + i)) mod 2 ^ 32 in
     and_then (check_ptr u ptr) (\<lambda>_ u.
     and_then (user_word u ptr) (\<lambda>x u.
     and_then (read_args_from (i + 1) n u esp) (\<lambda>xs u. Some (Return (x # xs) u)))))"

definition read_args :: "nat \<Rightarrow> user \<Rightarrow> addr \<Rightarrow> (u32 list, user) outcome option" where
  "read_args n u esp = read_args_from 0 n u esp"

datatype syscall = SYS_HALT | SYS_EXIT int | SYS_EXEC addr | SYS_WAIT int | SYS_CREATE addr int | SYS_REMOVE addr | SYS_OPEN addr
  | SYS_FILESIZE int | SYS_READ int addr nat | SYS_WRITE int addr nat | SYS_SEEK int nat | SYS_TELL int | SYS_CLOSE int | SYS_NONE

definition decode :: "user \<Rightarrow> addr \<Rightarrow> (syscall, user) outcome option" where
  "decode u esp =
     and_then (check_ptr u esp) (\<lambda>_ u.
     and_then (user_word u esp) (\<lambda>nr u.
       let ret = (\<lambda>c u. Some (Return c u)); args = (\<lambda>n k. and_then (read_args n u esp) (\<lambda>a u. k (\<lambda>i. a ! i) u)) in
       if nr = 0 then ret SYS_HALT u
       else if nr = 1 then args 1 (\<lambda>a. ret (SYS_EXIT (sint (a 0))))
       else if nr = 2 then args 1 (\<lambda>a u. and_then (user_word u ((esp + 4) mod 2 ^ 32)) (\<lambda>p u.
              and_then (check_ptr u (unat p)) (\<lambda>_. ret (SYS_EXEC (unat (a 0))))))
       else if nr = 3 then args 1 (\<lambda>a. ret (SYS_WAIT (sint (a 0))))
       else if nr = 4 then args 2 (\<lambda>a. ret (SYS_CREATE (unat (a 0)) (sint (a 1))))
       else if nr = 5 then args 1 (\<lambda>a. ret (SYS_REMOVE (unat (a 0))))
       else if nr = 6 then args 1 (\<lambda>a. ret (SYS_OPEN (unat (a 0))))
       else if nr = 7 then args 1 (\<lambda>a. ret (SYS_FILESIZE (sint (a 0))))
       else if nr = 8 then args 3 (\<lambda>a. ret (SYS_READ (sint (a 0)) (unat (a 1)) (unat (a 2))))
       else if nr = 9 then args 3 (\<lambda>a. ret (SYS_WRITE (sint (a 0)) (unat (a 1)) (unat (a 2))))
       else if nr = 10 then args 2 (\<lambda>a. ret (SYS_SEEK (sint (a 0)) (unat (a 1))))
       else if nr = 11 then args 1 (\<lambda>a. ret (SYS_TELL (sint (a 0))))
       else if nr = 12 then args 1 (\<lambda>a. ret (SYS_CLOSE (sint (a 0))))
       else ret SYS_NONE u))"

section \<open>The calls on files\<close>

definition acquire_fs :: "user \<Rightarrow> user option" where
  "acquire_fs u = do { ASSERT (\<not> fs_held u); Some (u\<lparr>fs_held := True\<rparr>) }"

definition release_fs :: "user \<Rightarrow> user option" where
  "release_fs u = do { ASSERT (fs_held u); Some (u\<lparr>fs_held := False\<rparr>) }"

definition set_store :: "user \<Rightarrow> fs \<Rightarrow> user" where
  "set_store u s = u\<lparr>tab := (tab u)\<lparr>store := s\<rparr>\<rparr>"

definition finish :: "'a \<Rightarrow> user \<Rightarrow> ('a, user) outcome option" where
  "finish r u = do { u \<leftarrow> release_fs u; Some (Return r u) }"

text \<open>\<open>with_file\<close>: take the lock and look the descriptor up; \<^verbatim>\<open>-1\<close> if there is none.\<close>

definition with_file :: "user \<Rightarrow> int \<Rightarrow> (addr \<Rightarrow> user \<Rightarrow> (int, user) outcome option) \<Rightarrow> (int, user) outcome option" where
  "with_file u fd k = do {
     u \<leftarrow> acquire_fs u;
     f \<leftarrow> get_file (tab u) (lv u) fd;
     if f = NULL then finish (-1) u else k f u
   }"

text \<open>For the calls that take a name, \<open>nm\<close> is the string at the pointer.\<close>

definition sys_create :: "user \<Rightarrow> addr \<Rightarrow> byte list \<Rightarrow> int \<Rightarrow> (bool, user) outcome option" where
  "sys_create u file nm initial_size =
     (if file = NULL then Some (Exit (-1) u) else and_then (check_ptr u file) (\<lambda>_ u. do {
        u \<leftarrow> acquire_fs u;
        (flag, s) \<leftarrow> filesys_create (scratch_entry u) (store (tab u)) nm initial_size;
        finish flag (set_store u s)
      }))"

definition sys_remove :: "user \<Rightarrow> addr \<Rightarrow> byte list \<Rightarrow> (bool, user) outcome option" where
  "sys_remove u file nm = and_then (check_ptr u file) (\<lambda>_ u. do {
     u \<leftarrow> acquire_fs u;
     (flag, s) \<leftarrow> filesys_remove (scratch_entry u) (store (tab u)) nm;
     finish flag (set_store u s)
   })"

definition sys_open :: "user \<Rightarrow> addr \<Rightarrow> byte list \<Rightarrow> (int, user) outcome option" where
  "sys_open u file nm =
     (if file = NULL then Some (Exit (-1) u) else and_then (check_ptr u file) (\<lambda>_ u. do {
        u \<leftarrow> acquire_fs u;
        (f, s) \<leftarrow> filesys_open (scratch_entry u) (store (tab u)) nm;
        s \<leftarrow> (if nm = pname u then file_deny_write s f else Some s);
        let u = set_store u s;
        if f = NULL then finish (-1) u
        else do {
          (fd, p) \<leftarrow> add_file (tab u) f;
          finish fd (u\<lparr>tab := p\<rparr>)
        }
      }))"

definition sys_filesize :: "user \<Rightarrow> int \<Rightarrow> (int, user) outcome option" where
  "sys_filesize u fd = with_file u fd (\<lambda>f u. do { n \<leftarrow> file_length (store (tab u)) f; finish n u })"

definition sys_read :: "user \<Rightarrow> int \<Rightarrow> addr \<Rightarrow> nat \<Rightarrow> (int, user) outcome option" where
  "sys_read u fd buf n =
     (if buf = NULL then Some (Exit (-1) u) else and_then (check_ptr u buf) (\<lambda>_ u.
        if fd = 1 then Some (Return (int32 (int n)) u)
        else with_file u fd (\<lambda>f u. do {
          (bs, s) \<leftarrow> file_read (store (tab u)) f (off_t (int n));
          case put_user (set_store u s) buf bs of None \<Rightarrow> Some Fault | Some u \<Rightarrow> finish (int (length bs)) u
        })))"

fun check_buffer :: "user \<Rightarrow> addr \<Rightarrow> nat \<Rightarrow> nat \<Rightarrow> (unit, user) outcome option" where
  "check_buffer u buf i 0 = Some (Return () u)"
| "check_buffer u buf i (Suc n) =
     and_then (check_ptr u ((buf + i) mod 2 ^ 32)) (\<lambda>_ u. check_buffer u buf (i + 1) n)"

definition sys_write :: "user \<Rightarrow> int \<Rightarrow> addr \<Rightarrow> nat \<Rightarrow> (int, user) outcome option" where
  "sys_write u fd buf n =
     (if buf = NULL then Some (Exit (-1) u) else and_then (check_buffer u buf 0 n) (\<lambda>_ u.
        case get_user u buf n of None \<Rightarrow> Some Fault
        | Some bs \<Rightarrow>
          if fd = 1 then Some (Return (int32 (int n)) (u\<lparr>console := console u @ bs\<rparr>))
          else if fd = 0 then Some (Return (-1) u)
          else with_file u fd (\<lambda>f u. do {
            d \<leftarrow> is_deny_write (store (tab u)) f;
            if d \<noteq> 0 then finish 0 u
            else do {
              (k, s) \<leftarrow> file_write (store (tab u)) f bs (off_t (int n));
              finish k (set_store u s)
            }
          })))"

definition sys_seek :: "user \<Rightarrow> int \<Rightarrow> nat \<Rightarrow> (int, user) outcome option" where
  "sys_seek u fd position = with_file u fd (\<lambda>f u. do {
     s \<leftarrow> file_seek (store (tab u)) f (off_t (int position));
     finish 0 (set_store u s)
   })"

definition sys_tell :: "user \<Rightarrow> int \<Rightarrow> (int, user) outcome option" where
  "sys_tell u fd = with_file u fd (\<lambda>f u. do { n \<leftarrow> file_tell (store (tab u)) f; finish n u })"

definition sys_close :: "user \<Rightarrow> int \<Rightarrow> (unit, user) outcome option" where
  "sys_close u fd = do {
     u \<leftarrow> acquire_fs u;
     (res, p) \<leftarrow> close_file (tab u) (lv u) fd;
     u \<leftarrow> release_fs (u\<lparr>tab := p\<rparr>);
     Some (if res then Return () u else Exit (-1) u)
   }"

end
