(* ===== verification/Syscall_Args.thy ===== *)
theory Syscall_Args
  imports Syscalls
begin

text \<open>
  What the pointer checks and the decoding of a system call do on a well-formed address space: every access is
  described by the map from user addresses to frames.
\<close>

section \<open>The address space as a map\<close>

definition user_space :: "user \<Rightarrow> (nat \<Rightarrow> addr option) \<Rightarrow> (nat \<Rightarrow> nat \<Rightarrow> addr option) \<Rightarrow> bool" where
  "user_space u T F \<longleftrightarrow> page_dir (view_vm u) (pdir u) T \<and> owns (view_vm u) (pdir u) T F"

definition umap :: "(nat \<Rightarrow> addr option) \<Rightarrow> (nat \<Rightarrow> nat \<Rightarrow> addr option) \<Rightarrow> addr \<Rightarrow> addr option" where
  "umap T F a = (case T (pd_no a) of None \<Rightarrow> None | Some _ \<Rightarrow> map_option (\<lambda>k. k + a mod 4096) (F (pd_no a) (pt_no a)))"

lemma umap_pte:
  assumes s: "user_space u T F" and a: "a < PHYS_BASE"
  shows "entry_frame (pte (view_vm u) T a) (map_option (\<lambda>k. k - a mod 4096) (umap T F a))"
    "umap T F a = Some x \<Longrightarrow> kernel_page (x - a mod 4096) \<and> a mod 4096 \<le> x"
proof -
  note i = user_indices(1) [OF a] user_indices(2) [of a]
  have fr: "entry_frame (read32 (view_vm u) (pt + 4 * pt_no a)) (F (pd_no a) (pt_no a))" if "T (pd_no a) = Some pt" for pt
    using s i that by (auto simp: user_space_def owns_def)
  show "entry_frame (pte (view_vm u) T a) (map_option (\<lambda>k. k - a mod 4096) (umap T F a))"
    using fr by (cases "T (pd_no a)") (auto simp: umap_def pte_def slot_def option.map_comp comp_def entry_frame_def option.map_ident)
  assume "umap T F a = Some x"
  then obtain k where k: "F (pd_no a) (pt_no a) = Some k" "x = k + a mod 4096" by (auto simp: umap_def split: option.splits)
  then have "k \<in> allocated (kmem (tab u))" "palloc_ok (kmem (tab u))"
    using s by (auto simp: user_space_def owns_def page_dir_def view_vm_def)
  then show "kernel_page (x - a mod 4096) \<and> a mod 4096 \<le> x" using k(2) allocated_kernel_page by auto
qed

lemma get_page_umap:
  assumes s: "user_space u T F" and a: "a < PHYS_BASE"
  shows "pagedir_get_page (view_vm u) (pdir u) a = Some (case umap T F a of None \<Rightarrow> NULL | Some x \<Rightarrow> x)"
proof -
  have "page_dir (view_vm u) (pdir u) T" using s by (simp add: user_space_def)
  from pagedir_get_page_pte [OF this a] umap_pte [OF s a] show ?thesis
    by (cases "umap T F a") (auto simp: entry_frame_def)
qed

lemma translate_umap:
  assumes s: "user_space u T F" and a: "a < PHYS_BASE"
  shows "translate u False a = umap T F a" "translate u True a = Some x \<Longrightarrow> umap T F a = Some x"
proof -
  have pd: "page_dir (view_vm u) (pdir u) T" using s by (simp add: user_space_def)
  have "slot T a = NULL \<longleftrightarrow> T (pd_no a) = None"
    using slot_not_null [OF pd a] by (auto simp: slot_def split: option.splits)
  then have tr: "translate u w a = (let e = pte (view_vm u) T a in
      if e AND PTE_P \<noteq> 0 \<and> (w \<longrightarrow> e AND PTE_W \<noteq> 0) then do { k \<leftarrow> pte_get_page e; Some (k + a mod 4096) } else None)" for w
    using a by (auto simp: translate_def lookup_page_find [OF pd a] is_user_vaddr_def pte_def pg_ofs_eq Let_def slot_def split: option.splits)
  show "translate u False a = umap T F a" "translate u True a = Some x \<Longrightarrow> umap T F a = Some x"
    using umap_pte [OF s a] by (cases "umap T F a"; auto simp: tr entry_frame_def Let_def split: if_splits)+
qed

section \<open>Pointer checks\<close>

definition user_ok :: "(nat \<Rightarrow> addr option) \<Rightarrow> (nat \<Rightarrow> nat \<Rightarrow> addr option) \<Rightarrow> addr \<Rightarrow> bool" where
  "user_ok T F a \<longleftrightarrow> PTR_BOTTOM \<le> a \<and> a < PHYS_BASE \<and> umap T F a \<noteq> None"

lemma is_valid_ptr_single_iff:
  assumes "user_space u T F"
  shows "is_valid_ptr_single u a = Some (user_ok T F a)"
proof (cases "a < PHYS_BASE \<and> PTR_BOTTOM \<le> a")
  case True
  have "x \<noteq> NULL" if "umap T F a = Some x" for x
    using umap_pte(2) [OF assms _ that] True by (auto simp: kernel_page_def)
  with True get_page_umap [OF assms, of a] show ?thesis
    by (auto simp: is_valid_ptr_single_def user_ok_def is_user_vaddr_def is_user_vaddr_above_def PTR_BOTTOM_def split: option.splits)
qed (auto simp: is_valid_ptr_single_def user_ok_def is_user_vaddr_def is_user_vaddr_above_def PTR_BOTTOM_def)

lemma valid_ptr_loop_iff:
  assumes "user_space u T F"
  shows "valid_ptr_loop u a i n = Some (\<forall>j<n. user_ok T F ((a + i + j) mod 2 ^ 32))"
proof (induction n arbitrary: i)
  case (Suc n)
  have "(\<forall>j<Suc n. user_ok T F ((a + i + j) mod 2 ^ 32)) \<longleftrightarrow>
    user_ok T F ((a + i) mod 2 ^ 32) \<and> (\<forall>j<n. user_ok T F ((a + (i + 1) + j) mod 2 ^ 32))"
    by (auto simp: less_Suc_eq_0_disj)
  then show ?case by (simp add: is_valid_ptr_single_iff [OF assms] Suc del: power_numeral)
qed simp

lemma is_valid_ptr_iff:
  assumes "user_space u T F"
  shows "is_valid_ptr u a = Some (\<forall>j<4. user_ok T F (a + j))"
proof (cases "user_ok T F a")
  case True
  then have "(a + j) mod 2 ^ 32 = a + j" if "j < 4" for j using that by (simp add: user_ok_def)
  with True show ?thesis
    by (simp add: is_valid_ptr_def is_valid_ptr_single_iff [OF assms] valid_ptr_loop_iff [OF assms] del: power_numeral)
next
  case False
  then have "\<not> (\<forall>j<4. user_ok T F (a + j))" by (metis add.right_neutral zero_less_numeral)
  with False show ?thesis by (simp add: is_valid_ptr_def is_valid_ptr_single_iff [OF assms])
qed

lemma check_ptr_eq:
  assumes "user_space u T F"
  shows "check_ptr u a = Some (if \<forall>j<4. user_ok T F (a + j) then Return () u else Exit (-1) u)"
  by (simp add: check_ptr_def is_valid_ptr_iff [OF assms])

section \<open>Reading user memory\<close>

lemma get_user_ok:
  assumes "user_space u T F" "\<forall>j<n. user_ok T F (a + j)"
  shows "get_user u a n = Some (map (\<lambda>j. kram u (the (umap T F (a + j)))) [0..<n])"
  using assms(2)
proof (induction n arbitrary: a)
  case (Suc n)
  have ok: "user_ok T F a" using Suc.prems by (metis add.right_neutral zero_less_Suc)
  have rest: "\<forall>j<n. user_ok T F (a + 1 + j)" using Suc.prems by (metis Suc_less_eq add.assoc add.commute plus_1_eq_Suc)
  have "(a + 1) mod 2 ^ 32 = a + 1" using ok by (simp add: user_ok_def)
  moreover have "map (\<lambda>j. kram u (the (umap T F (a + j)))) [0..<Suc n] =
    kram u (the (umap T F a)) # map (\<lambda>j. kram u (the (umap T F (a + 1 + j)))) [0..<n]"
    by (simp add: map_upt_Suc del: upt_Suc)
  ultimately show ?case
    using Suc.IH [OF rest] translate_umap(1) [OF assms(1), of a] ok by (auto simp: user_ok_def simp del: upt_Suc power_numeral)
qed simp

lemma le32_un_le32:
  assumes "length bs = 4"
  shows "le32 (un_le32 bs) = bs"
proof -
  obtain a b c d where bs: "bs = [a, b, c, d]"
    using assms by (auto simp: length_Suc_conv numeral_eq_Suc)
  have low: "word_of_nat (unat x + 256 * n) = (x :: byte)" for x n
  proof -
    have "(256 :: byte) = 0" by simp
    moreover have "word_of_nat (unat x) = x" by simp
    ultimately show ?thesis by (simp only: of_nat_add of_nat_mult of_nat_numeral mult_zero_left add_0_right)
  qed
  have high: "(unat x + 256 * n) div 256 = n" for x :: byte and n using unat_byte_less [of x] by simp
  show ?thesis
    unfolding le32_def un_le32_def bs by (simp add: low high del: of_nat_add of_nat_mult distrib_left_numeral)
qed

lemma un_le32_word: "unat (of_nat (un_le32 bs) :: u32) = un_le32 bs"
  using un_le32_less [of bs] by (intro unat_of_nat_small) simp

lemma user_word_ok:
  assumes "user_space u T F" "\<forall>j<4. user_ok T F (a + j)"
  shows "\<exists>w. user_word u a = Some (Return w u) \<and> get_user u a 4 = Some (le32 (unat w))"
proof -
  obtain bs where bs: "get_user u a 4 = Some bs" "length bs = 4" using get_user_ok [OF assms] by simp
  then show ?thesis by (simp add: user_word_def un_le32_word le32_un_le32)
qed

lemma get_user_append:
  assumes "a + m < 2 ^ 32" "get_user u a m = Some xs" "get_user u (a + m) n = Some ys"
  shows "get_user u a (m + n) = Some (xs @ ys)"
  using assms
proof (induction m arbitrary: a xs)
  case (Suc m)
  then have "(a + 1) mod 2 ^ 32 = a + 1" by simp
  with Suc.prems Suc.IH [of "a + 1"] show ?case by (auto simp: bind_eq_Some_conv simp del: power_numeral)
qed simp

section \<open>Arguments\<close>

definition words_at :: "user \<Rightarrow> addr \<Rightarrow> u32 list \<Rightarrow> bool" where
  "words_at u a ws \<longleftrightarrow> get_user u a (4 * length ws) = Some (concat (map (\<lambda>w. le32 (unat w)) ws))"

lemma words_at_Nil [simp]: "words_at u a []"
  by (simp add: words_at_def)

lemma words_at_Cons:
  assumes "a + 4 < 2 ^ 32" "get_user u a 4 = Some (le32 (unat w))" "words_at u (a + 4) ws"
  shows "words_at u a (w # ws)"
  using get_user_append [OF assms(1,2), of "4 * length ws"] assms(3) by (simp add: words_at_def)

text \<open>The checks of consecutive words, from the \<open>i\<close>-th behind the call number on.\<close>

definition args_ok :: "(nat \<Rightarrow> addr option) \<Rightarrow> (nat \<Rightarrow> nat \<Rightarrow> addr option) \<Rightarrow> addr \<Rightarrow> nat \<Rightarrow> bool" where
  "args_ok T F a n \<longleftrightarrow> (\<forall>j<4 * n. user_ok T F (a + j))"

lemma args_ok_Suc: "args_ok T F a (Suc n) \<longleftrightarrow> (\<forall>j<4. user_ok T F (a + j)) \<and> args_ok T F (a + 4) n"
proof
  assume a: "args_ok T F a (Suc n)"
  have "user_ok T F (a + 4 + j)" if "j < 4 * n" for j
    using a that unfolding args_ok_def by (metis add.assoc add_less_cancel_left mult_Suc_right)
  with a show "(\<forall>j<4. user_ok T F (a + j)) \<and> args_ok T F (a + 4) n" by (simp add: args_ok_def)
next
  assume a: "(\<forall>j<4. user_ok T F (a + j)) \<and> args_ok T F (a + 4) n"
  have "user_ok T F (a + j)" if "j < 4 * Suc n" for j
  proof (cases "j < 4")
    case False
    then have "j - 4 < 4 * n" using that by simp
    then have "user_ok T F (a + 4 + (j - 4))" using a unfolding args_ok_def by blast
    with False show ?thesis by simp
  qed (use a in simp)
  then show "args_ok T F a (Suc n)" by (simp add: args_ok_def)
qed

lemma args_ok_mono: "args_ok T F a n \<Longrightarrow> m \<le> n \<Longrightarrow> args_ok T F a m"
  by (simp add: args_ok_def)

lemma read_args_from_eq:
  assumes s: "user_space u T F" and b: "esp + 4 * (1 + i) < 2 ^ 32"
  shows "if args_ok T F (esp + 4 * (1 + i)) n
    then \<exists>xs. read_args_from i n u esp = Some (Return xs u) \<and> length xs = n \<and> words_at u (esp + 4 * (1 + i)) xs
    else read_args_from i n u esp = Some (Exit (-1) u)"
  using b
proof (induction n arbitrary: i)
  case (Suc n)
  let ?p = "esp + 4 * (1 + i)"
  have p: "?p mod 2 ^ 32 = ?p" using Suc.prems by simp
  have e: "esp + 4 * (1 + (i + 1)) = ?p + 4" by simp
  note step = read_args_from.simps(2) [of i n u esp, unfolded Let_def p check_ptr_eq [OF s]]
  show ?case
  proof (cases "\<forall>j<4. user_ok T F (?p + j)")
    case True
    then have b': "?p + 4 < 2 ^ 32" by (auto simp: user_ok_def dest: spec [of _ 0])
    note IH = Suc.IH [of "i + 1", unfolded e, OF b']
    obtain w where w: "user_word u ?p = Some (Return w u)" "get_user u ?p 4 = Some (le32 (unat w))"
      using user_word_ok [OF s True] by blast
    show ?thesis
    proof (cases "args_ok T F (?p + 4) n")
      case ok: True
      then obtain xs where xs: "read_args_from (i + 1) n u esp = Some (Return xs u)" "length xs = n" "words_at u (?p + 4) xs"
        using IH by auto
      with w True ok words_at_Cons [OF b' w(2) xs(3)] show ?thesis unfolding step by (simp add: args_ok_Suc)
    next
      case False
      with IH w True show ?thesis unfolding step by (simp add: args_ok_Suc)
    qed
  next
    case False
    then show ?thesis unfolding step by (simp only: args_ok_Suc False simp_thms if_False and_then_simps)
  qed
qed (simp add: args_ok_def)

section \<open>The word at an address\<close>

definition uword :: "user \<Rightarrow> (nat \<Rightarrow> addr option) \<Rightarrow> (nat \<Rightarrow> nat \<Rightarrow> addr option) \<Rightarrow> addr \<Rightarrow> u32" where
  "uword u T F a = of_nat (un_le32 (map (\<lambda>j. kram u (the (umap T F (a + j)))) [0..<4]))"

lemma get_user_uword:
  assumes "user_space u T F" "\<forall>j<4. user_ok T F (a + j)"
  shows "get_user u a 4 = Some (le32 (unat (uword u T F a)))" "user_word u a = Some (Return (uword u T F a) u)"
  using get_user_ok [OF assms] by (simp_all add: uword_def un_le32_word le32_un_le32 user_word_def)

lemma words_at_Cons_iff:
  assumes s: "user_space u T F" and ok: "args_ok T F a (Suc (length ws))"
  shows "words_at u a (w # ws) \<longleftrightarrow> w = uword u T F a \<and> words_at u (a + 4) ws"
proof -
  have 1: "\<forall>j<4. user_ok T F (a + j)" and 2: "\<forall>j<4 * length ws. user_ok T F (a + 4 + j)" using ok by (simp_all add: args_ok_Suc) (simp add: args_ok_def)
  obtain ys where ys: "get_user u (a + 4) (4 * length ws) = Some ys" using get_user_ok [OF s 2] by blast
  have "a + 4 < 2 ^ 32" using 1 by (auto simp: user_ok_def dest: spec [of _ 0])
  from get_user_append [OF this get_user_uword(1) [OF s 1] ys]
  have all: "get_user u a (4 + 4 * length ws) = Some (le32 (unat (uword u T F a)) @ ys)" .
  have "le32 (unat w) = le32 (unat w') \<longleftrightarrow> w = w'" for w w' :: u32
    by (metis un_le32_le32 unat_u32_less word_unat_eq_iff)
  then show ?thesis using all ys by (auto simp: words_at_def)
qed

lemma words_at_iff:
  assumes "user_space u T F" "args_ok T F a (length ws)"
  shows "words_at u a ws \<longleftrightarrow> ws = map (\<lambda>i. uword u T F (a + 4 * i)) [0..<length ws]"
  using assms(2)
proof (induction ws arbitrary: a)
  case (Cons w ws)
  then have "args_ok T F (a + 4) (length ws)" by (simp add: args_ok_Suc)
  note IH = Cons.IH [OF this]
  have "map (\<lambda>i. uword u T F (a + 4 * i)) [0..<length (w # ws)] =
    uword u T F a # map (\<lambda>i. uword u T F (a + 4 + 4 * i)) [0..<length ws]"
    by (simp add: map_upt_Suc add.assoc del: upt_Suc)
  with IH words_at_Cons_iff [OF assms(1)] Cons.prems show ?case by simp
qed simp

lemma read_args_eq:
  assumes "user_space u T F" "esp + 4 < 2 ^ 32"
  shows "read_args n u esp = Some (if args_ok T F (esp + 4) n
    then Return (map (\<lambda>i. uword u T F (esp + 4 + 4 * i)) [0..<n]) u else Exit (-1) u)"
  using read_args_from_eq [OF assms(1), of esp 0 n] words_at_iff [OF assms(1), of "esp + 4"] assms(2)
  by (auto simp: read_args_def split: if_splits)

section \<open>Calls as they lie on the stack\<close>

fun encode :: "syscall \<Rightarrow> u32 list" where
  "encode SYS_HALT = [0]"
| "encode (SYS_EXIT status) = [1, of_int status]"
| "encode (SYS_EXEC p) = [2, of_nat p]"
| "encode (SYS_WAIT pid) = [3, of_int pid]"
| "encode (SYS_CREATE p n) = [4, of_nat p, of_int n]"
| "encode (SYS_REMOVE p) = [5, of_nat p]"
| "encode (SYS_OPEN p) = [6, of_nat p]"
| "encode (SYS_FILESIZE fd) = [7, of_int fd]"
| "encode (SYS_READ fd p n) = [8, of_int fd, of_nat p, of_nat n]"
| "encode (SYS_WRITE fd p n) = [9, of_int fd, of_nat p, of_nat n]"
| "encode (SYS_SEEK fd n) = [10, of_int fd, of_nat n]"
| "encode (SYS_TELL fd) = [11, of_int fd]"
| "encode (SYS_CLOSE fd) = [12, of_int fd]"
| "encode SYS_NONE = []"

definition int_arg :: "int \<Rightarrow> bool" where
  "int_arg x \<longleftrightarrow> - (2 ^ 31) \<le> x \<and> x < 2 ^ 31"

text \<open>The arguments are machine words; for \<^verbatim>\<open>exec\<close> the name must be readable too.\<close>

fun call_ok :: "(nat \<Rightarrow> addr option) \<Rightarrow> (nat \<Rightarrow> nat \<Rightarrow> addr option) \<Rightarrow> syscall \<Rightarrow> bool" where
  "call_ok T F (SYS_EXIT status) = int_arg status"
| "call_ok T F (SYS_EXEC p) = (\<forall>j<4. user_ok T F (p + j))"
| "call_ok T F (SYS_WAIT pid) = int_arg pid"
| "call_ok T F (SYS_CREATE p n) = (p < 2 ^ 32 \<and> int_arg n)"
| "call_ok T F (SYS_REMOVE p) = (p < 2 ^ 32)"
| "call_ok T F (SYS_OPEN p) = (p < 2 ^ 32)"
| "call_ok T F (SYS_READ fd p n) = (int_arg fd \<and> p < 2 ^ 32 \<and> n < 2 ^ 32)"
| "call_ok T F (SYS_WRITE fd p n) = (int_arg fd \<and> p < 2 ^ 32 \<and> n < 2 ^ 32)"
| "call_ok T F (SYS_SEEK fd n) = (int_arg fd \<and> n < 2 ^ 32)"
| "call_ok T F (SYS_FILESIZE fd) = int_arg fd"
| "call_ok T F (SYS_TELL fd) = int_arg fd"
| "call_ok T F (SYS_CLOSE fd) = int_arg fd"
| "call_ok T F SYS_HALT = True"
| "call_ok T F SYS_NONE = False"

lemma word_args:
  "sint (w :: u32) = x \<longleftrightarrow> int_arg x \<and> of_int x = w"
  "unat w = n \<longleftrightarrow> n < 2 ^ 32 \<and> of_nat n = w"
proof -
  have "sint w < 2 ^ 31" "- (2 ^ 31) \<le> sint w" using sint_less [of w] sint_greater_eq [of w] by simp_all
  moreover have "sint (of_int x :: u32) = x" if "int_arg x"
    using that by (simp add: int_arg_def signed_of_int signed_take_bit_int_eq_self)
  ultimately show "sint w = x \<longleftrightarrow> int_arg x \<and> of_int x = w" by (auto simp: int_arg_def)
  show "unat w = n \<longleftrightarrow> n < 2 ^ 32 \<and> of_nat n = w" using unat_u32_less [of w] unat_of_nat_small [of n] by auto
qed

lemma decode_eq:
  assumes s: "user_space u T F" and ok: "args_ok T F esp 1"
  shows "decode u esp = (let nr = uword u T F esp; x = (\<lambda>i. uword u T F (esp + 4 + 4 * i));
      args = (\<lambda>n c. Some (if args_ok T F (esp + 4) n then Return c u else Exit (-1) u)) in
    if nr = 0 then Some (Return SYS_HALT u)
    else if nr = 1 then args 1 (SYS_EXIT (sint (x 0)))
    else if nr = 2 then Some (if args_ok T F (esp + 4) 1 \<and> (\<forall>j<4. user_ok T F (unat (x 0) + j)) then Return (SYS_EXEC (unat (x 0))) u else Exit (-1) u)
    else if nr = 3 then args 1 (SYS_WAIT (sint (x 0)))
    else if nr = 4 then args 2 (SYS_CREATE (unat (x 0)) (sint (x 1)))
    else if nr = 5 then args 1 (SYS_REMOVE (unat (x 0)))
    else if nr = 6 then args 1 (SYS_OPEN (unat (x 0)))
    else if nr = 7 then args 1 (SYS_FILESIZE (sint (x 0)))
    else if nr = 8 then args 3 (SYS_READ (sint (x 0)) (unat (x 1)) (unat (x 2)))
    else if nr = 9 then args 3 (SYS_WRITE (sint (x 0)) (unat (x 1)) (unat (x 2)))
    else if nr = 10 then args 2 (SYS_SEEK (sint (x 0)) (unat (x 1)))
    else if nr = 11 then args 1 (SYS_TELL (sint (x 0)))
    else if nr = 12 then args 1 (SYS_CLOSE (sint (x 0)))
    else Some (Return SYS_NONE u))"
proof -
  have 4: "\<forall>j<4. user_ok T F (esp + j)" using ok by (simp add: args_ok_def)
  then have b: "esp + 4 < 2 ^ 32" by (auto simp: user_ok_def dest: spec [of _ 0])
  then have m: "(esp + 4) mod 2 ^ 32 = esp + 4" by simp
  note w = get_user_uword(2) [OF s 4]
  have w2: "user_word u (esp + 4) = Some (Return (uword u T F (esp + 4)) u)" if "args_ok T F (esp + 4) 1"
    using that by (intro get_user_uword(2) [OF s]) (simp add: args_ok_def)
  have c: "check_ptr u esp = Some (Return () u)" using 4 check_ptr_eq [OF s] by simp
  have "and_then (user_word u (esp + 4)) (\<lambda>p u. and_then (check_ptr u (unat p)) (\<lambda>_. k)) =
      (if \<forall>j<4. user_ok T F (unat (uword u T F (esp + 4)) + j) then k u else Some (Exit (-1) u))"
    if "args_ok T F (esp + 4) 1" for k :: "user \<Rightarrow> (syscall, user) outcome option"
    using w2 [OF that] by (auto simp: check_ptr_eq [OF s])
  then show ?thesis
    unfolding decode_def c and_then_simps w Let_def m read_args_eq [OF s b]
    by (intro if_cong refl) (simp_all add: upt_rec)
qed

lemma decode_bad_esp:
  assumes "user_space u T F" "\<not> args_ok T F esp 1"
  shows "decode u esp = Some (Exit (-1) u)"
  using assms(2) check_ptr_eq [OF assms(1), of esp] by (auto simp: decode_def args_ok_def)

lemma decode_total:
  assumes "user_space u T F"
  shows "decode u esp = Some (Exit (-1) u) \<or> (\<exists>c. decode u esp = Some (Return c u))"
  using decode_bad_esp [OF assms] decode_eq [OF assms] by (cases "args_ok T F esp 1") (auto simp: Let_def split: if_splits)

lemma decode_Return_iff:
  assumes s: "user_space u T F" and c: "call_ok T F c"
  shows "decode u esp = Some (Return c u) \<longleftrightarrow> args_ok T F esp (length (encode c)) \<and> words_at u esp (encode c)"
proof (cases "args_ok T F esp 1")
  case False
  moreover have "1 \<le> length (encode c)" using c by (cases c) auto
  ultimately have "\<not> args_ok T F esp (length (encode c))" by (meson args_ok_mono)
  then show ?thesis using decode_bad_esp [OF s False] by simp
next
  case True
  have "words_at u esp (encode c) \<longleftrightarrow> encode c = map (\<lambda>i. uword u T F (esp + 4 * i)) [0..<length (encode c)]"
    if "args_ok T F esp (length (encode c))"
    using that by (rule words_at_iff [OF s])
  then have at: "args_ok T F esp (length (encode c)) \<and> words_at u esp (encode c) \<longleftrightarrow>
      args_ok T F esp (length (encode c)) \<and> encode c = map (\<lambda>i. uword u T F (esp + 4 * i)) [0..<length (encode c)]"
    by blast
  have n: "args_ok T F esp (Suc (Suc 0)) \<longleftrightarrow> args_ok T F (esp + 4) (Suc 0)"
    "args_ok T F esp (Suc (Suc (Suc 0))) \<longleftrightarrow> args_ok T F (esp + 4) 2"
    "args_ok T F esp (Suc (Suc (Suc (Suc 0)))) \<longleftrightarrow> args_ok T F (esp + 4) 3"
    using True args_ok_Suc [of T F esp 1] args_ok_Suc [of T F esp 2] args_ok_Suc [of T F esp 3]
    by (simp_all add: args_ok_def numeral_eq_Suc)
  have e: "p < 2 ^ 32" "unat (of_nat p :: u32) = p" if "\<forall>j<4. user_ok T F (p + j)" for p
  proof -
    show "p < 2 ^ 32" using that by (auto simp: user_ok_def dest: spec [of _ 0])
    then show "unat (of_nat p :: u32) = p" by (rule unat_of_nat_small)
  qed
  show ?thesis
    using c True unfolding decode_eq [OF s True] at
    by (cases c) (simp_all add: Let_def n word_args add.commute [of esp], use e in \<open>simp; metis\<close>)
qed

end
