(* ===== verification/Syscall_Files.thy ===== *)
theory Syscall_Files
  imports Syscall_Args
begin

text \<open>
  The system calls on open files: what a process reads arrives in its buffer, and the cases in which a call
  does not return.
\<close>

section \<open>Writing user memory\<close>

definition writable :: "user \<Rightarrow> (nat \<Rightarrow> addr option) \<Rightarrow> addr \<Rightarrow> bool" where
  "writable u T a \<longleftrightarrow> pte (view_vm u) T a AND PTE_W \<noteq> 0"

lemma set_kram_simps [simp]:
  "kram (set_kram u m) = m" "pdir (set_kram u m) = pdir u" "kmap (set_kram u m) = kmap u" "fs_held (set_kram u m) = fs_held u"
  "console (set_kram u m) = console u" "lv (set_kram u m) = lv u"
  "set_kram (set_kram u m) m' = set_kram u m'" "store (tab (set_kram u m)) = store (tab u)" "set_kram u (kram u) = u"
  by (simp_all add: set_kram_def kram_def)

lemma view_set_kram:
  "allocated (pgs (view_vm (set_kram u m))) = allocated (pgs (view_vm u))" "palloc_ok (pgs (view_vm (set_kram u m))) = palloc_ok (pgs (view_vm u))"
  "ram (pgs (view_vm u)) = kram u"
  by (simp_all add: view_vm_def set_kram_def kram_def)

text \<open>A frame is neither the directory nor a page table.\<close>

lemma umap_frame:
  assumes s: "user_space u T F" and a: "a < PHYS_BASE" "umap T F a = Some x"
  shows "page_base x \<in> allocated (kmem (tab u))" "page_base x \<notin> insert (pdir u) (ran T)" "x = page_base x + a mod 4096"
    "F (pd_no a) (pt_no a) = Some (page_base x)"
proof -
  obtain k where k: "F (pd_no a) (pt_no a) = Some k" "x = k + a mod 4096" using a(2) by (auto simp: umap_def split: option.splits)
  have "k mod 4096 = 0" using umap_pte(2) [OF s a] k(2) by (simp add: kernel_page_def)
  then have "page_base x = k" using page_base_inside [of k "a mod 4096"] k(2) by simp
  with k s show "page_base x \<in> allocated (kmem (tab u))" "page_base x \<notin> insert (pdir u) (ran T)" "x = page_base x + a mod 4096"
    "F (pd_no a) (pt_no a) = Some (page_base x)"
    by (auto simp: user_space_def owns_def view_vm_def)
qed

lemma umap_inj:
  assumes s: "user_space u T F" and a: "a < PHYS_BASE" "b < PHYS_BASE" "umap T F a = Some x" "umap T F b = Some x"
  shows "a = b"
proof -
  note fa = umap_frame [OF s a(1,3)] and fb = umap_frame [OF s a(2,4)]
  have "pd_no a = pd_no b \<and> pt_no a = pt_no b" using s fa(4) fb(4) by (auto simp: user_space_def owns_def)
  then have "a div 4096 = b div 4096" by (simp add: same_page_iff)
  moreover have "a mod 4096 = b mod 4096" using fa(3) fb(3) by simp
  ultimately show ?thesis by (metis div_mult_mod_eq)
qed

lemma user_space_set_kram:
  assumes s: "user_space u T F" and m: "\<And>x. page_base x \<in> insert (pdir u) (ran T) \<Longrightarrow> m x = kram u x"
  shows "user_space (set_kram u m) T F" "\<And>a. a < PHYS_BASE \<Longrightarrow> writable (set_kram u m) T a = writable u T a"
proof -
  let ?v = "view_vm u" and ?v' = "view_vm (set_kram u m)"
  have pd: "page_dir ?v (pdir u) T" using s by (simp add: user_space_def)
  have ok: "palloc_ok (pgs ?v')" "allocated (pgs ?v) \<subseteq> allocated (pgs ?v')" using pd by (simp_all add: view_set_kram page_dir_def)
  have same: "ram (pgs ?v') x = ram (pgs ?v) x" if "page_base x \<in> insert (pdir u) (ran T)" for x
    using m [OF that] by (simp add: view_set_kram)
  note pd' = page_dir_other_pages [OF pd ok same]
  then show "\<And>a. a < PHYS_BASE \<Longrightarrow> writable (set_kram u m) T a = writable u T a" by (simp add: writable_def)
  have "read32 ?v' (pt + 4 * j) = read32 ?v (pt + 4 * j)" if "T i = Some pt" "j < 1024" for i pt j
  proof -
    have "i < 768" using pd that(1) by (auto simp: page_dir_def)
    then have "kernel_page pt" using page_dir_kernel_page(2) [OF pd _ that(1)] by simp
    then show ?thesis by (rule read32_page_cong [OF _ that(2)]) (use that(1) same in \<open>auto simp: ran_def\<close>)
  qed
  then have "owns ?v' (pdir u) T F" using s by (auto simp: user_space_def owns_def view_set_kram)
  with pd' show "user_space (set_kram u m) T F" by (simp add: user_space_def)
qed

lemma translate_writable:
  assumes s: "user_space u T F" and a: "a < PHYS_BASE" "umap T F a \<noteq> None" "writable u T a"
  shows "translate u True a = umap T F a"
proof -
  have pd: "page_dir (view_vm u) (pdir u) T" using s by (simp add: user_space_def)
  have "T (pd_no a) \<noteq> None" using a(2) by (auto simp: umap_def split: option.splits)
  then have "slot T a \<noteq> NULL" using slot_not_null [OF pd a(1)] by auto
  then show ?thesis
    using a umap_pte [OF s a(1)]
    by (auto simp: translate_def lookup_page_find [OF pd a(1)] is_user_vaddr_def pte_def pg_ofs_eq Let_def entry_frame_def writable_def
        split: option.splits)
qed

text \<open>The memory after bytes have been written to the user addresses from \<open>a\<close> on.\<close>

definition written :: "(nat \<Rightarrow> addr option) \<Rightarrow> (nat \<Rightarrow> nat \<Rightarrow> addr option) \<Rightarrow> memory \<Rightarrow> addr \<Rightarrow> byte list \<Rightarrow> memory \<Rightarrow> bool" where
  "written T F m a bs m' \<longleftrightarrow> (\<forall>j<length bs. m' (the (umap T F (a + j))) = bs ! j) \<and>
     (\<forall>x. (\<forall>j<length bs. x \<noteq> the (umap T F (a + j))) \<longrightarrow> m' x = m x)"

lemma put_user_ok:
  assumes "user_space u T F" "a + length bs \<le> PHYS_BASE" "\<forall>j<length bs. umap T F (a + j) \<noteq> None \<and> writable u T (a + j)"
  shows "\<exists>m. put_user u a bs = Some (set_kram u m) \<and> written T F (kram u) a bs m \<and> user_space (set_kram u m) T F"
  using assms
proof (induction bs arbitrary: u a)
  case Nil
  then show ?case by (intro exI [of _ "kram u"]) (simp add: written_def)
next
  case (Cons b bs)
  have a: "a < PHYS_BASE" using Cons.prems(2) by simp
  obtain x where x: "umap T F a = Some x" "writable u T a" using Cons.prems(3) by (metis add.right_neutral length_Cons option.exhaust zero_less_Suc)
  have tr: "translate u True a = Some x" using translate_writable [OF Cons.prems(1) a] x by simp
  define m1 where "m1 = (kram u)(x := b)"
  have "m1 y = kram u y" if "page_base y \<in> insert (pdir u) (ran T)" for y
    using that umap_frame(2) [OF Cons.prems(1) a x(1)] by (auto simp: m1_def)
  note s1 = user_space_set_kram [OF Cons.prems(1) this]
  have "\<forall>j<length bs. umap T F (a + 1 + j) \<noteq> None \<and> writable (set_kram u m1) T (a + 1 + j)"
  proof (intro allI impI)
    fix j assume "j < length bs"
    moreover from this have "a + 1 + j < PHYS_BASE" using Cons.prems(2) by simp
    moreover have "umap T F (a + Suc j) \<noteq> None \<and> writable u T (a + Suc j)" using \<open>j < length bs\<close> Cons.prems(3) by auto
    ultimately show "umap T F (a + 1 + j) \<noteq> None \<and> writable (set_kram u m1) T (a + 1 + j)" using s1(2) by simp
  qed
  then obtain m where m: "put_user (set_kram u m1) (a + 1) bs = Some (set_kram u m)" "written T F m1 (a + 1) bs m" "user_space (set_kram u m) T F"
    using Cons.IH [OF s1(1), of "a + 1"] Cons.prems(2) by auto
  have wrap: "(a + 1) mod 2 ^ 32 = a + 1" using a by simp
  have "written T F (kram u) a (b # bs) m"
    unfolding written_def
  proof (intro conjI allI impI)
    fix j assume j: "j < length (b # bs)"
    show "m (the (umap T F (a + j))) = (b # bs) ! j"
    proof (cases j)
      case 0
      have "x \<noteq> the (umap T F (a + 1 + i))" if "i < length bs" for i
      proof
        have i: "a + 1 + i < PHYS_BASE" "umap T F (a + 1 + i) \<noteq> None" using that Cons.prems(2) Cons.prems(3) [THEN spec, of "Suc i"] by auto
        assume "x = the (umap T F (a + 1 + i))"
        then have "umap T F (a + 1 + i) = Some x" using i(2) by auto
        from umap_inj [OF Cons.prems(1) a i(1) x(1) this] show False by simp
      qed
      then have "m x = m1 x" using m(2) by (simp add: written_def)
      with 0 show ?thesis by (simp add: x(1) m1_def)
    next
      case (Suc i)
      with j m(2) show ?thesis by (simp add: written_def)
    qed
  next
    fix y assume y: "\<forall>j<length (b # bs). y \<noteq> the (umap T F (a + j))"
    have "y \<noteq> the (umap T F (a + 1 + j))" if "j < length bs" for j using y [THEN spec, of "Suc j"] that by simp
    then have "m y = m1 y" using m(2) by (simp add: written_def)
    moreover have "y \<noteq> x" using y [THEN spec, of 0] by (simp add: x(1))
    ultimately show "m y = kram u y" by (simp add: m1_def)
  qed
  with m(1,3) show ?case by (intro exI [of _ m]) (simp add: tr m1_def [symmetric] wrap [simplified])
qed

section \<open>The state of a process\<close>

definition user_mem :: "user \<Rightarrow> (nat \<Rightarrow> addr option) \<Rightarrow> (nat \<Rightarrow> nat \<Rightarrow> addr option) \<Rightarrow> addr \<Rightarrow> byte option" where
  "user_mem u T F a = map_option (kram u) (umap T F a)"

definition user_state :: "user \<Rightarrow> (nat \<Rightarrow> addr option) \<Rightarrow> (nat \<Rightarrow> nat \<Rightarrow> addr option) \<Rightarrow> addr list \<Rightarrow> bool" where
  "user_state u T F fcs \<longleftrightarrow> user_space u T F \<and> file_table (tab u) fcs \<and> local_list (lv u) (tab u) fcs \<and> \<not> fs_held u \<and>
     (\<forall>i j k. F i j = Some k \<longrightarrow> k \<notin> set fcs)"

lemma user_space_cong: "view_vm u' = view_vm u \<Longrightarrow> pdir u' = pdir u \<Longrightarrow> user_space u' T F = user_space u T F"
  by (simp add: user_space_def)

lemma fcb_words_cong:
  assumes "kernel_page fc" "\<And>x. page_base x = fc \<Longrightarrow> ram (kmem p') x = ram (kmem p) x"
  shows "fcb_fd p' fc = fcb_fd p fc" "process_file p' fc = process_file p fc"
proof -
  have "read32 \<lparr>pgs = kmem p', init_page_dir = 0, init_ram_pages = 0, cr3 = 0\<rparr> (fc + 4 * j) =
      read32 \<lparr>pgs = kmem p, init_page_dir = 0, init_ram_pages = 0, cr3 = 0\<rparr> (fc + 4 * j)" if "j < 1024" for j
    by (rule read32_page_cong [OF assms(1) that]) (simp add: assms(2))
  from this [of 0] this [of 1] show "fcb_fd p' fc = fcb_fd p fc" "process_file p' fc = process_file p fc"
    by (simp_all add: fcb_fd_def process_file_def read32_def)
qed

lemma file_table_ram:
  assumes t: "file_table p fcs" and m: "\<And>x. page_base x \<in> set fcs \<Longrightarrow> m x = ram (kmem p) x"
    and same: "links p' = links p" "file_list p' = file_list p" "next_fd p' = next_fd p" "file_num p' = file_num p" "kmem p' = (kmem p)\<lparr>ram := m\<rparr>"
  shows "file_table p' fcs" "descriptors p' fcs = descriptors p fcs"
proof -
  have w: "fcb_fd p' fc = fcb_fd p fc \<and> process_file p' fc = process_file p fc" if "fc \<in> set fcs" for fc
    using fcb_words_cong [OF file_table_facts(1) [OF t that], of p' p] m that by (auto simp: same)
  then show "descriptors p' fcs = descriptors p fcs" by (rule descriptors_cong)
  have d: "map (fcb_fd p') fcs = map (fcb_fd p) fcs" using w by simp
  show "file_table p' fcs" unfolding file_table_def d using t w by (auto simp: file_table_def same)
qed

text \<open>New bytes in the frames and another file system leave the process in order.\<close>

lemma user_state_update:
  fixes f :: fs
  assumes s: "user_state u T F fcs" and sp: "user_space (set_kram u m) T F"
    and m: "\<And>x. (\<nexists>a. a < PHYS_BASE \<and> umap T F a = Some x) \<Longrightarrow> m x = kram u x"
  defines "u' \<equiv> set_kram (set_store u f) m"
  shows "user_state u' T F fcs" "descriptors (tab u') fcs = descriptors (tab u) fcs"
proof -
  have ram: "m x = ram (kmem (tab u)) x" if "page_base x \<in> set fcs" for x
  proof -
    have "\<not> (a < PHYS_BASE \<and> umap T F a = Some x)" for a
      using umap_frame(4) [of u T F a x] s that by (auto simp: user_state_def)
    then show ?thesis using m by (simp add: kram_def)
  qed
  have t: "file_table (tab u) fcs" using s by (simp add: user_state_def)
  note ft = file_table_ram [OF t ram, of "tab u'"]
  then show "descriptors (tab u') fcs = descriptors (tab u) fcs" by (simp add: u'_def set_kram_def set_store_def)
  have "user_space u' T F = user_space (set_kram u m) T F"
    by (rule user_space_cong) (simp_all add: u'_def set_kram_def set_store_def view_vm_def)
  with ft s sp show "user_state u' T F fcs"
    by (simp add: user_state_def u'_def set_kram_def set_store_def local_list_def)
qed

lemma with_file_open:
  assumes "user_state u T F fcs" "descriptors (tab u) fcs fd = Some f" "f \<noteq> NULL"
  shows "with_file u fd k = k f (u\<lparr>fs_held := True\<rparr>)"
  using assms get_file_open [of "tab u" fcs "lv u" fd f] by (simp add: with_file_def acquire_fs_def user_state_def)

section \<open>read\<close>

lemma sys_read_open:
  assumes s: "user_state u T F fcs" and fd: "fd \<noteq> 1" "descriptors (tab u) fcs fd = Some f" "f \<noteq> NULL"
    and src: "source n (store (tab u)) f c q" and len: "len < 2 ^ 31"
    and buf: "\<forall>j<4. user_ok T F (buf + j)" "\<forall>j<len. user_ok T F (buf + j) \<and> writable u T (buf + j)"
  shows "\<exists>u'. sys_read u fd buf len = Some (Return (int (min len (length c - q))) u') \<and>
    (\<forall>a<PHYS_BASE. user_mem u' T F a = (if buf \<le> a \<and> a < buf + min len (length c - q) then Some (c ! (q + (a - buf))) else user_mem u T F a)) \<and>
    user_state u' T F fcs \<and> descriptors (tab u') fcs = descriptors (tab u) fcs \<and>
    source n (store (tab u')) f c (q + min len (length c - q))"
proof -
  have sp: "user_space u T F" using s by (simp add: user_state_def)
  have "user_ok T F buf" using buf(1) by (metis add.right_neutral zero_less_numeral)
  then have nn: "buf \<noteq> NULL" "buf < PHYS_BASE" by (auto simp: user_ok_def PTR_BOTTOM_def)
  let ?bs = "take len (drop q c)"
  obtain f' where r: "file_read (store (tab u)) f (int len) = Some (?bs, f')" "source n f' f c (q + length ?bs)"
    using source_read [OF src, of len] by blast
  have k: "length ?bs = min len (length c - q)" by simp
  let ?u1 = "u\<lparr>fs_held := True\<rparr>"
  let ?u2 = "set_store ?u1 f'"
  have u2: "view_vm ?u2 = view_vm u" "pdir ?u2 = pdir u" "kram ?u2 = kram u" by (simp_all add: set_store_def view_vm_def kram_def)
  have sp2: "user_space ?u2 T F" using sp user_space_cong [OF u2(1,2)] by simp
  have end_ok: "buf + length ?bs \<le> PHYS_BASE"
  proof (cases "length ?bs")
    case 0
    then show ?thesis using nn by simp
  next
    case (Suc j)
    then have "user_ok T F (buf + j)" using buf(2) by auto
    then show ?thesis unfolding Suc by (simp add: user_ok_def)
  qed
  have "\<forall>j<length ?bs. umap T F (buf + j) \<noteq> None \<and> writable ?u2 T (buf + j)"
    using buf(2) by (auto simp: user_ok_def writable_def u2)
  then obtain m where m: "put_user ?u2 buf ?bs = Some (set_kram ?u2 m)" "written T F (kram u) buf ?bs m" "user_space (set_kram ?u2 m) T F"
    using put_user_ok [OF sp2 end_ok] u2(3) by auto
  define u' where "u' = set_kram (set_store u f') m"
  have eq: "(set_kram ?u2 m)\<lparr>fs_held := False\<rparr> = u'" using s by (simp add: u'_def set_kram_def set_store_def user_state_def)
  have sp3: "user_space (set_kram u m) T F"
    using m(3) user_space_cong [of "set_kram ?u2 m" "set_kram u m"] by (simp add: view_vm_def set_kram_def set_store_def)
  have addr: "\<exists>a<PHYS_BASE. umap T F a = Some (the (umap T F (buf + j)))" if "j < length ?bs" for j
    using buf(2) that by (intro exI [of _ "buf + j"]) (auto simp: user_ok_def)
  have same: "m x = kram u x" if "\<nexists>a. a < PHYS_BASE \<and> umap T F a = Some x" for x
  proof -
    have "x \<noteq> the (umap T F (buf + j))" if "j < length ?bs" for j
      using addr [OF that] \<open>\<nexists>a. _\<close> by metis
    then show ?thesis using m(2) by (simp add: written_def)
  qed
  note st = user_state_update [OF s sp3 same, where f = f', folded u'_def]
  have off: "off_t (int len) = int len" using len by (simp add: off_t_def)
  have run: "sys_read u fd buf len = Some (Return (int (length ?bs)) u')"
    using fd(1) nn r(1) m(1) eq check_ptr_eq [OF sp, of buf] buf(1) off
    by (simp add: sys_read_def with_file_open [OF s fd(2,3)] finish_def release_fs_def set_kram_def set_store_def)
  have mem: "user_mem u' T F a = (if buf \<le> a \<and> a < buf + length ?bs then Some (c ! (q + (a - buf))) else user_mem u T F a)"
    if a: "a < PHYS_BASE" for a
  proof (cases "buf \<le> a \<and> a < buf + length ?bs")
    case True
    define j where "j = a - buf"
    have j: "a = buf + j" "j < length ?bs" using True by (auto simp: j_def)
    then have "umap T F a \<noteq> None" using buf(2) by (auto simp: user_ok_def)
    moreover have "m (the (umap T F a)) = ?bs ! j" using m(2) j by (simp add: written_def)
    moreover have "?bs ! j = c ! (q + j)" using j(2) src by (auto simp: source_def)
    ultimately show ?thesis using True j by (auto simp: user_mem_def u'_def)
  next
    case False
    have "m x = kram u x" if x: "umap T F a = Some x" for x
    proof -
      have "x \<noteq> the (umap T F (buf + j))" if j: "j < length ?bs" for j
      proof
        assume e: "x = the (umap T F (buf + j))"
        have ok: "user_ok T F (buf + j)" using buf(2) j by auto
        then have "umap T F (buf + j) = Some x" using e by (auto simp: user_ok_def)
        then have "a = buf + j" using umap_inj [OF sp a _ x] ok by (simp add: user_ok_def)
        with False j show False by simp
      qed
      then show ?thesis using m(2) by (simp add: written_def)
    qed
    with False show ?thesis by (cases "umap T F a") (auto simp: user_mem_def u'_def)
  qed
  show ?thesis
    using run st mem r(2) unfolding k by (intro exI [of _ u']) (auto simp: u'_def set_kram_def set_store_def)
qed

section \<open>A buffer that ends in the kernel\<close>

lemma put_user_append: "put_user u a (xs @ ys) = Option.bind (put_user u a xs) (\<lambda>u. put_user u ((a + length xs) mod 2 ^ 32) ys)"
  if "a + length xs < 2 ^ 32"
  using that
proof (induction xs arbitrary: u a)
  case (Cons x xs)
  have "(a + 1) mod 2 ^ 32 = a + 1" using Cons.prems by simp
  with Cons.IH [of "a + 1"] Cons.prems show ?case 
    by (cases "translate u True a") (simp_all del: power_numeral)
qed simp

lemma put_user_kernel:
  assumes "PHYS_BASE \<le> a" "a + length bs < 2 ^ 32" "\<forall>j<length bs. kmap u (a + j) True"
  shows "put_user u a bs = Some (set_kram u (store_bytes (kram u) a bs))"
  using assms
proof (induction bs arbitrary: u a)
  case Nil
  have "store_bytes (kram u) a [] = kram u" using store_bytes_outside [of _ a "[]" "kram u"] by (intro ext) force
  then show ?case by simp
next
  case (Cons b bs)
  have "kmap u a True" using Cons.prems(3) by (metis add.right_neutral length_Cons zero_less_Suc)
  then have tr: "translate u True a = Some a" using Cons.prems(1) by (simp add: translate_def is_user_vaddr_def)
  have wrap: "(a + 1) mod 2 ^ 32 = a + 1" using Cons.prems(2) by simp
  define m where "m = (kram u)(a := b)"
  have "\<forall>j<length bs. kmap (set_kram u m) (a + 1 + j) True" using Cons.prems(3) by auto
  from Cons.IH [OF _ _ this] Cons.prems(1,2)
  have "put_user (set_kram u m) (a + 1) bs = Some (set_kram u (store_bytes m (a + 1) bs))" by simp
  moreover have "store_bytes m (a + 1) bs = store_bytes (kram u) a (b # bs)"
    by (auto simp: m_def store_bytes_def fun_eq_iff nth_Cons')
  ultimately show ?case by (simp add: tr m_def [symmetric] wrap [simplified])
qed

lemma sys_read_into_kernel:
  assumes s: "user_state u T F fcs" and fd: "fd \<noteq> 1" "descriptors (tab u) fcs fd = Some f" "f \<noteq> NULL"
    and src: "source n (store (tab u)) f c q" and len: "len < 2 ^ 31" "q + len \<le> length c"
    and buf: "\<forall>j<4. user_ok T F (buf + j)" "\<forall>a. buf \<le> a \<and> a < PHYS_BASE \<longrightarrow> user_ok T F a \<and> writable u T a"
    and k: "PHYS_BASE < buf + len" "buf + len < 2 ^ 32" "\<forall>a. PHYS_BASE \<le> a \<and> a < buf + len \<longrightarrow> kmap u a True"
  shows "\<exists>u'. sys_read u fd buf len = Some (Return (int len) u') \<and>
    (\<forall>a. PHYS_BASE \<le> a \<and> a < buf + len \<longrightarrow> kram u' a = c ! (q + (a - buf)))"
proof -
  have sp: "user_space u T F" using s by (simp add: user_state_def)
  have "user_ok T F buf" using buf(1) by (metis add.right_neutral zero_less_numeral)
  then have nn: "buf \<noteq> NULL" "buf < PHYS_BASE" by (auto simp: user_ok_def PTR_BOTTOM_def)
  let ?bs = "take len (drop q c)"
  define d where "d = PHYS_BASE - buf"
  have d: "buf + d = PHYS_BASE" "d < len" using nn k(1) by (auto simp: d_def)
  obtain f' where r: "file_read (store (tab u)) f (int len) = Some (?bs, f')" using source_read [OF src, of len] by blast
  have lb: "length ?bs = len" using len(2) by simp
  let ?u2 = "set_store (u\<lparr>fs_held := True\<rparr>) f'"
  have u2: "view_vm ?u2 = view_vm u" "pdir ?u2 = pdir u" "kmap ?u2 = kmap u" by (simp_all add: set_store_def view_vm_def)
  have sp2: "user_space ?u2 T F" using sp user_space_cong [OF u2(1,2)] by simp
  have "\<forall>j<length (take d ?bs). umap T F (buf + j) \<noteq> None \<and> writable ?u2 T (buf + j)"
    using buf(2) d by (auto simp: user_ok_def writable_def u2)
  then obtain m where m: "put_user ?u2 buf (take d ?bs) = Some (set_kram ?u2 m)"
    using put_user_ok [OF sp2, of buf "take d ?bs"] d lb by auto
  define m' where "m' = store_bytes m PHYS_BASE (drop d ?bs)"
  have ld: "length (take d ?bs) = d" using lb d by simp
  have "put_user (set_kram ?u2 m) PHYS_BASE (drop d ?bs) = Some (set_kram ?u2 m')"
    using put_user_kernel [of PHYS_BASE "drop d ?bs" "set_kram ?u2 m"] k(2,3) d lb by (simp add: u2 m'_def)
  then have "put_user ?u2 buf ?bs = Some (set_kram ?u2 m')"
    using put_user_append [of buf "take d ?bs" ?u2 "drop d ?bs"] d m unfolding ld append_take_drop_id by simp
  then have "sys_read u fd buf len = Some (Return (int len) ((set_kram ?u2 m')\<lparr>fs_held := False\<rparr>))"
    using fd(1) nn r check_ptr_eq [OF sp, of buf] buf(1) len(1) lb
    by (simp add: sys_read_def with_file_open [OF s fd(2,3)] finish_def release_fs_def set_kram_def set_store_def off_t_def)
  moreover have "m' a = c ! (q + (a - buf))" if "PHYS_BASE \<le> a" "a < buf + len" for a
  proof -
    have "m' a = drop d ?bs ! (a - PHYS_BASE)" using that d lb by (auto simp: m'_def store_bytes_def)
    also have "\<dots> = ?bs ! (a - buf)" using that d lb by (simp add: d_def)
    finally show ?thesis using that len(2) nn(2) by (simp add: less_diff_conv2 add.commute)
  qed
  ultimately show ?thesis by (intro exI conjI) (assumption, auto simp: kram_def set_kram_def)
qed

section \<open>Calls that do not return\<close>

lemma with_file_missing:
  assumes "user_state u T F fcs" "descriptors (tab u) fcs fd = None" "0 \<le> fd" "fd \<le> next_fd (tab u)"
    "fd \<noteq> fcb_fd (tab u) (fcb_entry (tail_of (file_list (tab u))))"
  shows "with_file u fd k = None"
  using get_file_missing [of "tab u" fcs "lv u" fd] assms by (simp add: with_file_def acquire_fs_def user_state_def)

lemma sys_seek_negative:
  assumes "user_state u T F fcs" "descriptors (tab u) fcs fd = Some f" "f \<noteq> NULL" "2 ^ 31 \<le> position" "position < 2 ^ 32"
  shows "sys_seek u fd position = None"
proof -
  have "(int position + 2 ^ 31) mod 2 ^ 32 = int position + 2 ^ 31 - 2 ^ 32"
    using assms(4,5) by (intro int_mod_pos_eq [of _ _ 1]) auto
  then have "off_t (int position) < 0" using assms(5) by (simp add: off_t_def)
  then show ?thesis by (simp add: sys_seek_def with_file_open [OF assms(1-3)] file_seek_def ASSERT_def)
qed

lemma check_buffer_eq:
  assumes "user_space u T F" "buf + i + n < 2 ^ 32"
  shows "check_buffer u buf i n = Some (if \<forall>k<n. \<forall>j<4. user_ok T F (buf + i + k + j) then Return () u else Exit (-1) u)"
  using assms(2)
proof (induction n arbitrary: i)
  case (Suc n)
  have m: "(buf + i) mod 2 ^ 32 = buf + i" using Suc.prems by simp
  have "(\<forall>k<Suc n. \<forall>j<4. user_ok T F (buf + i + k + j)) \<longleftrightarrow>
      (\<forall>j<4. user_ok T F (buf + i + j)) \<and> (\<forall>k<n. \<forall>j<4. user_ok T F (buf + (i + 1) + k + j))"
    by (auto simp: less_Suc_eq_0_disj)
  moreover have "check_buffer u buf (i + 1) n =
      Some (if \<forall>k<n. \<forall>j<4. user_ok T F (buf + (i + 1) + k + j) then Return () u else Exit (-1) u)"
    using Suc.IH [of "i + 1"] Suc.prems by simp
  ultimately show ?case
    unfolding check_buffer.simps m check_ptr_eq [OF assms(1)] by auto
qed simp

lemma sys_write_buffer_end:
  assumes "user_space u T F" "0 < n" "buf \<noteq> NULL" "buf + n < 2 ^ 32" "\<not> user_ok T F (buf + n)"
  shows "sys_write u fd buf n = Some (Exit (-1) u)"
proof -
  have "\<not> user_ok T F (buf + 0 + (n - 1) + 1)" using assms(2,5) by simp
  then have "\<not> (\<forall>k<n. \<forall>j<4. user_ok T F (buf + 0 + k + j))" using assms(2) by (metis diff_less one_less_numeral_iff semiring_norm(76) zero_less_one)
  then have "check_buffer u buf 0 n = Some (Exit (-1) u)" using check_buffer_eq [OF assms(1), of buf 0 n] assms(4) by auto
  then show ?thesis using assms(3) by (simp add: sys_write_def)
qed

lemma sys_open_own_name:
  assumes "user_space u T F" "\<forall>j<4. user_ok T F (p + j)" "filesys_open (scratch_entry u) (store (tab u)) nm = Some (NULL, s)"
    "nm = pname u" "files s NULL = None"
  shows "sys_open u p nm = None"
proof -
  have "p \<noteq> NULL" using assms(2) by (auto simp: user_ok_def PTR_BOTTOM_def dest: spec [of _ 0])
  then show ?thesis using assms check_ptr_eq [OF assms(1), of p]
    by (simp add: sys_open_def acquire_fs_def file_deny_write_def bind_eq_None_conv)
qed

end
