(* ===== verification/User_Stack.thy ===== *)
theory User_Stack
  imports Page_Dir_Free
begin

text \<open>
  The arguments of a new process: \<^verbatim>\<open>load\<close> splits the command line with \<^verbatim>\<open>strtok_r\<close> and \<^verbatim>\<open>setup_argument\<close>
  puts the words and the array of their addresses on the user stack (\<^verbatim>\<open>userprog/process.c\<close>).  The memory
  is the address space of the new process with the kernel's part; \<open>wr a\<close> says that the byte at \<open>a\<close> may be
  written.  A write elsewhere is a page fault, whose handler ends the process: the functions do not return
  then and their result is \<open>None\<close>.
\<close>

section \<open>Splitting the command line\<close>

definition ARGLEN :: nat where "ARGLEN = 50"

text \<open>
  The loop over the tokens in \<^verbatim>\<open>load\<close>; \<open>argv\<close> has room for \<^verbatim>\<open>ARGLEN\<close> pointers, and a store behind its end
  is undefined.
\<close>

partial_function (option) collect_args :: "memory \<Rightarrow> addr \<Rightarrow> addr \<Rightarrow> addr \<Rightarrow> addr list \<Rightarrow> (addr list \<times> memory) option" where
  "collect_args m space arg save argv =
     (if arg = NULL then Some (argv, m) else do {
        ASSERT (length argv < ARGLEN);
        (arg', save', m') \<leftarrow> strtok_r m NULL space save;
        collect_args m' space arg' save' (argv @ [arg])
      })"

definition load_args :: "memory \<Rightarrow> addr \<Rightarrow> addr \<Rightarrow> (addr list \<times> memory) option" where
  "load_args m space file_name = do {
     (arg, save, m) \<leftarrow> strtok_r m file_name space 0;
     collect_args m space arg save []
   }"

section \<open>Pushing on the stack\<close>

text \<open>Subtraction of addresses wraps around.\<close>

definition psub :: "addr \<Rightarrow> nat \<Rightarrow> addr" where
  "psub a n = nat ((int a - int n) mod 2 ^ 32)"

definition store_user :: "(addr \<Rightarrow> bool) \<Rightarrow> memory \<Rightarrow> addr \<Rightarrow> byte list \<Rightarrow> memory option" where
  "store_user wr m a bs = (if list_all wr [a..<a + length bs] then Some (store_bytes m a bs) else None)"

definition store_user32 :: "(addr \<Rightarrow> bool) \<Rightarrow> memory \<Rightarrow> addr \<Rightarrow> nat \<Rightarrow> memory option" where
  "store_user32 wr m a n = store_user wr m a (le32 n)"

text \<open>
  The loops of \<^verbatim>\<open>setup_argument\<close> run from \<^verbatim>\<open>argc - 1\<close> down to 0; the argument counts the iterations left.
  The first one returns the addresses of the copies, \<^verbatim>\<open>argv_address\<close>.
\<close>

fun push_strings :: "(addr \<Rightarrow> bool) \<Rightarrow> memory \<Rightarrow> addr list \<Rightarrow> nat \<Rightarrow> addr \<Rightarrow> addr list \<Rightarrow> (addr list \<times> addr \<times> memory) option" where
  "push_strings wr m argv 0 esp address = Some (address, esp, m)"
| "push_strings wr m argv (Suc i) esp address = do {
     n \<leftarrow> strlen m (argv ! i);
     let len = n + 1;
     let esp = psub esp len;
     m \<leftarrow> store_user wr m esp (load_bytes m (argv ! i) len);
     push_strings wr m argv i esp (esp # address)
   }"

fun push_words :: "(addr \<Rightarrow> bool) \<Rightarrow> memory \<Rightarrow> addr list \<Rightarrow> nat \<Rightarrow> addr \<Rightarrow> (addr \<times> memory) option" where
  "push_words wr m ws 0 esp = Some (esp, m)"
| "push_words wr m ws (Suc i) esp = do {
     let esp = psub esp 4;
     m \<leftarrow> store_user32 wr m esp (ws ! i);
     push_words wr m ws i esp
   }"

definition setup_argument :: "(addr \<Rightarrow> bool) \<Rightarrow> memory \<Rightarrow> addr list \<Rightarrow> addr \<Rightarrow> (addr \<times> memory) option" where
  "setup_argument wr m argv esp = do {
     let argc = length argv;
     (address, esp, m) \<leftarrow> push_strings wr m argv argc esp [];
     let esp = esp AND 0xfffffffc;
     let esp = psub esp 4;
     m \<leftarrow> store_user32 wr m esp 0;
     (esp, m) \<leftarrow> push_words wr m address argc esp;
     let esp = psub esp 4;
     m \<leftarrow> store_user32 wr m esp ((esp + 4) mod 2 ^ 32);
     let esp = psub esp 4;
     m \<leftarrow> store_user32 wr m esp argc;
     let esp = psub esp 4;
     m \<leftarrow> store_user32 wr m esp 0;
     Some (esp, m)
   }"

section \<open>What the tokens are\<close>

text \<open>\<open>strings_at m ps ss\<close>: the pointers \<open>ps\<close> point to the strings \<open>ss\<close>, none of them null.\<close>

definition strings_at :: "memory \<Rightarrow> addr list \<Rightarrow> byte list list \<Rightarrow> bool" where
  "strings_at m ps ss \<longleftrightarrow> list_all2 (\<lambda>p s. p \<noteq> NULL \<and> cstring m p s) ps ss"

lemma strings_at_cong:
  assumes "strings_at m ps ss" "\<And>p s x. (p, s) \<in> set (zip ps ss) \<Longrightarrow> p \<le> x \<Longrightarrow> x \<le> p + length s \<Longrightarrow> m' x = m x"
  shows "strings_at m' ps ss"
  unfolding strings_at_def
proof (rule list_all2I)
  show "length ps = length ss" using assms(1) by (simp add: strings_at_def list_all2_lengthD)
  have "p \<noteq> NULL \<and> cstring m' p s" if z: "(p, s) \<in> set (zip ps ss)" for p s
  proof -
    have "p \<noteq> NULL" "cstring m p s" using assms(1) z by (auto simp: strings_at_def list_all2_iff)
    moreover have "cstring m' p s = cstring m p s" by (rule cstring_cong) (use assms(2) [OF z] in simp)
    ultimately show ?thesis by simp
  qed
  then show "\<forall>x\<in>set (zip ps ss). case x of (p, s) \<Rightarrow> p \<noteq> NULL \<and> cstring m' p s" by auto
qed

text \<open>
  The loop, started with the results of a call of \<^verbatim>\<open>strtok_r\<close>: \<open>arg\<close> is the token \<open>t\<close> found last, if there
  was one, and the string \<open>rest\<close> at \<open>save\<close> is still to be split.
\<close>

lemma collect_args_tokens:
  assumes d: "space \<noteq> NULL"
  shows "cstring m space D \<Longrightarrow> cstring m save rest \<Longrightarrow> save \<noteq> NULL \<Longrightarrow> arg \<noteq> NULL \<Longrightarrow>
    apart_from save (length rest + 1) space (length D + 1) \<Longrightarrow> length argv + length (tokens (set D) rest) < ARGLEN \<Longrightarrow>
    \<exists>ps m'. collect_args m space arg save argv = Some (argv @ arg # ps, m') \<and> strings_at m' ps (tokens (set D) rest) \<and>
      (\<forall>p\<in>set ps. save \<le> p) \<and>
      (\<forall>x. x < save \<or> save + length rest \<le> x \<longrightarrow> m' x = m x)"
proof (induction "length rest" arbitrary: m save rest arg argv rule: less_induct)
  case less
  note prems = less.prems
  have room: "length argv < ARGLEN" using prems(6) by simp
  show ?case
  proof (cases "tokens (set D) rest")
    case Nil
    then have "strtok_r m NULL space save = Some (NULL, save + length rest, m)"
      using strtok_r_end [OF prems(1) d prems(2,3), of NULL save] tokens_Nil_subset [OF Nil] by simp
    with room prems(4) Nil show ?thesis
      by (subst collect_args.simps) (simp add: collect_args.simps [of m space 0] strings_at_def)
  next
    case (Cons t ts)
    obtain tok save' m1 rest' where s: "strtok_r m NULL space save = Some (tok, save', m1)" "cstring m1 tok t" "cstring m1 save' rest'"
      "tokens (set D) rest' = ts" "save \<le> tok" "tok + length t \<le> save + length rest" "length rest' < length rest"
      "save' + length rest' = save + length rest" "tok + length t < save' \<or> rest' = []"
      "\<And>x. x < save \<or> save + length rest \<le> x \<Longrightarrow> m1 x = m x"
      by (rule strtok_r_step [OF prems(1) d prems(2,3) _ Cons, of NULL save]) auto
    have D: "cstring m1 space D"
      using prems(1,5) s(10) cstring_cong [of D m1 space m] by (auto simp: apart_from_def)
    have A: "apart_from save' (length rest' + 1) space (length D + 1)"
      using prems(5) s(7,8) by (auto simp: apart_from_def)
    have nz: "save' \<noteq> NULL" "tok \<noteq> NULL" using s(5,7,8) prems(3) by auto
    have room': "length (argv @ [arg]) + length (tokens (set D) rest') < ARGLEN" using prems(6) Cons s(4) by simp
    obtain ps m2 where ps: "collect_args m1 space tok save' (argv @ [arg]) = Some ((argv @ [arg]) @ tok # ps, m2)"
      "strings_at m2 ps ts" "\<forall>p\<in>set ps. save' \<le> p" "\<forall>x. x < save' \<or> save' + length rest' \<le> x \<longrightarrow> m2 x = m1 x"
      using less.hyps [OF s(7) D s(3) nz A room'] unfolding s(4) by (elim exE conjE) (rule that)
    have "cstring m2 tok t"
      using s(2,9) ps(4) s(6,8) cstring_cong [of t m2 tok m1] by fastforce
    then have "strings_at m2 (tok # ps) (t # ts)" using ps(2) prems(3) s(5) by (simp add: strings_at_def)
    moreover have "collect_args m space arg save argv = Some (argv @ arg # tok # ps, m2)"
      using room prems(4) s(1) ps(1) by (subst collect_args.simps) simp
    moreover have le: "save \<le> save'" using s(7,8) by linarith
    then have "\<forall>p\<in>set (tok # ps). save \<le> p" by (metis le_trans ps(3) s(5) set_ConsD)
    moreover have "m2 x = m x" if x: "x < save \<or> save + length rest \<le> x" for x
    proof -
      have "x < save' \<or> save' + length rest' \<le> x" using x le s(8) by linarith
      with ps(4) s(10) [OF x] show ?thesis by metis
    qed
    ultimately show ?thesis unfolding Cons by (intro exI [of _ "tok # ps"] exI [of _ m2] conjI) auto
  qed
qed

lemma load_args_tokens:
  assumes "cstring m space D" "space \<noteq> NULL" "cstring m file_name bs" "file_name \<noteq> NULL"
    "apart_from file_name (length bs + 1) space (length D + 1)" "length (tokens (set D) bs) \<le> ARGLEN"
  shows "\<exists>ps m'. load_args m space file_name = Some (ps, m') \<and> strings_at m' ps (tokens (set D) bs) \<and> (\<forall>p\<in>set ps. file_name \<le> p) \<and>
    (\<forall>x. x < file_name \<or> file_name + length bs \<le> x \<longrightarrow> m' x = m x)"
proof (cases "tokens (set D) bs")
  case Nil
  then have "strtok_r m file_name space 0 = Some (NULL, file_name + length bs, m)"
    using strtok_r_end [OF assms(1-4)] tokens_Nil_subset [OF Nil] assms(4) by simp
  with Nil show ?thesis by (simp add: load_args_def collect_args.simps [of m space 0] strings_at_def)
next
  case (Cons t ts)
  obtain tok save m1 rest where s: "strtok_r m file_name space 0 = Some (tok, save, m1)" "cstring m1 tok t" "cstring m1 save rest"
    "tokens (set D) rest = ts" "file_name \<le> tok" "tok + length t \<le> file_name + length bs" "length rest < length bs"
    "save + length rest = file_name + length bs" "tok + length t < save \<or> rest = []"
    "\<And>x. x < file_name \<or> file_name + length bs \<le> x \<Longrightarrow> m1 x = m x"
    by (rule strtok_r_step [OF assms(1-4) _ Cons, of file_name 0]) (use assms(4) in auto)
  have D: "cstring m1 space D" using assms(1,5) s(10) cstring_cong [of D m1 space m] by (auto simp: apart_from_def)
  have A: "apart_from save (length rest + 1) space (length D + 1)" using assms(5) s(7,8) by (auto simp: apart_from_def)
  obtain ps m2 where ps: "collect_args m1 space tok save [] = Some ([] @ tok # ps, m2)" "strings_at m2 ps ts"
    "\<forall>p\<in>set ps. save \<le> p" "\<forall>x. x < save \<or> save + length rest \<le> x \<longrightarrow> m2 x = m1 x"
    using collect_args_tokens [OF assms(2) D s(3) _ _ A, of tok "[]"] s assms(4,6) Cons by force
  have "cstring m2 tok t" using s(2,9) ps(4) s(6,8) cstring_cong [of t m2 tok m1] by fastforce
  then have "strings_at m2 (tok # ps) (t # ts)" using ps(2) assms(4) s(5) by (simp add: strings_at_def)
  moreover have "load_args m space file_name = Some (tok # ps, m2)" using s(1) ps(1) by (simp add: load_args_def)
  moreover have le: "file_name \<le> save" using s(7,8) by linarith
  then have "\<forall>p\<in>set (tok # ps). file_name \<le> p" by (metis le_trans ps(3) s(5) set_ConsD)
  moreover have "m2 x = m x" if x: "x < file_name \<or> file_name + length bs \<le> x" for x
  proof -
    have "x < save \<or> save + length rest \<le> x" using x le s(8) by linarith
    with ps(4) s(10) [OF x] show ?thesis by metis
  qed
  ultimately show ?thesis unfolding Cons by (intro exI [of _ "tok # ps"] exI [of _ m2] conjI) auto
qed

section \<open>The layout of the stack\<close>

lemma psub_eq [simp]: "n \<le> a \<Longrightarrow> a < 2 ^ 32 \<Longrightarrow> psub a n = a - n"
proof -
  assume "n \<le> a" "a < 2 ^ 32"
  then have "0 \<le> int a - int n" "int a - int n < 2 ^ 32" "nat (int a - int n) = a - n" by auto
  then show ?thesis unfolding psub_def by (simp only: mod_pos_pos_trivial)
qed

definition writable_range :: "(addr \<Rightarrow> bool) \<Rightarrow> addr \<Rightarrow> addr \<Rightarrow> bool" where
  "writable_range wr a b \<longleftrightarrow> (\<forall>x. a \<le> x \<and> x < b \<longrightarrow> wr x)"

lemma store_user_ok:
  assumes "writable_range wr lo hi" "lo \<le> a" "a + length bs \<le> hi"
  shows "store_user wr m a bs = Some (store_bytes m a bs)"
  using assms by (auto simp: store_user_def writable_range_def list_all_iff)

lemma store_user32_ok:
  assumes "writable_range wr lo hi" "lo \<le> a" "a + 4 \<le> hi" "n < 2 ^ 32"
  shows "store_user32 wr m a n = Some (store32 m a (of_nat n))"
  using assms store_user_ok [of wr lo hi a "le32 n" m] by (simp add: store_user32_def store32_def unat_of_nat)

definition strings_size :: "byte list list \<Rightarrow> nat" where
  "strings_size ss = sum_list (map (\<lambda>s. length s + 1) ss)"

lemma strings_size_append [simp]: "strings_size (xs @ ys) = strings_size xs + strings_size ys"
  and strings_size_Cons [simp]: "strings_size (x # xs) = length x + 1 + strings_size xs"
  and strings_size_Nil [simp]: "strings_size [] = 0"
  by (simp_all add: strings_size_def)

text \<open>
  The strings are copied one below the other.  They are read from above \<open>top\<close>, where nothing is written;
  each copy lies between the final and the initial stack pointer.
\<close>

definition strings_between :: "memory \<Rightarrow> addr list \<Rightarrow> byte list list \<Rightarrow> addr \<Rightarrow> addr \<Rightarrow> bool" where
  "strings_between m ps ss lo hi \<longleftrightarrow> list_all2 (\<lambda>p s. cstring m p s \<and> lo \<le> p \<and> p + length s < hi) ps ss"

lemma strings_between_cong:
  assumes "strings_between m ps ss lo hi" "\<And>x. lo \<le> x \<Longrightarrow> x < hi \<Longrightarrow> m' x = m x"
  shows "strings_between m' ps ss lo hi"
  using assms(1) unfolding strings_between_def
proof (rule list_all2_mono)
  fix p s assume a: "cstring m p s \<and> lo \<le> p \<and> p + length s < hi"
  moreover have "cstring m' p s = cstring m p s" by (rule cstring_cong) (use a assms(2) in simp)
  ultimately show "cstring m' p s \<and> lo \<le> p \<and> p + length s < hi" by simp
qed

lemma strings_between_mono:
  "strings_between m ps ss lo hi \<Longrightarrow> lo' \<le> lo \<Longrightarrow> hi \<le> hi' \<Longrightarrow> strings_between m ps ss lo' hi'"
  unfolding strings_between_def by (erule list_all2_mono) auto

lemma load_bytes_cstring: "cstring m a bs \<Longrightarrow> load_bytes m a (Suc (length bs)) = bs @ [0]"
  by (rule nth_equalityI) (auto simp: cstring_nth nth_append less_Suc_eq cstring_def)

lemma cstring_store_terminated:
  assumes "0 \<notin> set bs"
  shows "cstring (store_bytes m a (bs @ [0])) a bs"
proof -
  have "load_bytes (store_bytes m a (bs @ [0])) a (length bs) = bs"
    by (rule nth_equalityI) (auto simp: store_bytes_def nth_append)
  moreover have "store_bytes m a (bs @ [0]) (a + length bs) = 0" by (simp add: store_bytes_def)
  ultimately show ?thesis using assms by (simp add: cstring_def)
qed

lemma push_strings_layout:
  assumes wr: "writable_range wr lo hi" and top: "hi < 2 ^ 32"
  shows "i \<le> length argv \<Longrightarrow> i \<le> length ss \<Longrightarrow> (\<And>j. j < i \<Longrightarrow> hi \<le> argv ! j \<and> argv ! j \<noteq> NULL \<and> cstring m (argv ! j) (ss ! j)) \<Longrightarrow>
    e \<le> hi \<Longrightarrow> lo + strings_size (take i ss) \<le> e \<Longrightarrow>
    \<exists>ps m'. push_strings wr m argv i e address = Some (ps @ address, e - strings_size (take i ss), m') \<and>
      strings_between m' ps (take i ss) (e - strings_size (take i ss)) e \<and>
      (\<forall>x. x < e - strings_size (take i ss) \<or> e \<le> x \<longrightarrow> m' x = m x)"
proof (induction i arbitrary: m e address)
  case 0
  then show ?case by (simp add: strings_between_def)
next
  case (Suc i)
  define s where "s = ss ! i"
  have take: "take (Suc i) ss = take i ss @ [s]" using Suc.prems(2) by (simp add: take_Suc_conv_app_nth s_def)
  have src: "hi \<le> argv ! i" "argv ! i \<noteq> NULL" "cstring m (argv ! i) s" using Suc.prems(3) [of i] by (auto simp: s_def)
  define e1 where "e1 = e - (length s + 1)"
  have le: "length s + 1 \<le> e" "lo + strings_size (take i ss) \<le> e1" "e1 \<le> hi" "e1 + length s + 1 = e" "e < 2 ^ 32"
    using Suc.prems(4,5) top by (auto simp: e1_def take)
  let ?m1 = "store_bytes m e1 (s @ [0])"
  have st: "store_user wr m e1 (s @ [0]) = Some ?m1" using le Suc.prems(4) by (intro store_user_ok [OF wr]) auto
  have keep: "?m1 x = m x" if "x < e1 \<or> e \<le> x" for x using that le(4) by (intro store_bytes_outside) auto
  have src1: "hi \<le> argv ! j \<and> argv ! j \<noteq> NULL \<and> cstring ?m1 (argv ! j) (ss ! j)" if j: "j < i" for j
  proof -
    have "hi \<le> argv ! j \<and> argv ! j \<noteq> NULL \<and> cstring m (argv ! j) (ss ! j)" using Suc.prems(3) [of j] j by simp
    moreover from this have "cstring ?m1 (argv ! j) (ss ! j) = cstring m (argv ! j) (ss ! j)"
      using Suc.prems(4) by (intro cstring_cong keep) auto
    ultimately show ?thesis by simp
  qed
  obtain ps m' where ih: "push_strings wr ?m1 argv i e1 (e1 # address) = Some (ps @ e1 # address, e1 - strings_size (take i ss), m')"
    "strings_between m' ps (take i ss) (e1 - strings_size (take i ss)) e1"
    "\<forall>x. x < e1 - strings_size (take i ss) \<or> e1 \<le> x \<longrightarrow> m' x = ?m1 x"
    using Suc.IH [of ?m1 e1 "e1 # address", OF _ _ src1 le(3,2)] Suc.prems(1,2) by auto
  have run: "push_strings wr m argv (Suc i) e address = push_strings wr ?m1 argv i e1 (e1 # address)"
    using strlen_cstring [OF src(3,2)] load_bytes_cstring [OF src(3)] le st by (simp add: e1_def Let_def)
  have sz: "e - strings_size (take (Suc i) ss) = e1 - strings_size (take i ss)" using le by (simp add: take e1_def)
  have nz: "0 \<notin> set s" using src(3) by (simp add: cstring_def)
  have "cstring m' e1 s = cstring ?m1 e1 s" by (rule cstring_cong) (use ih(3) in simp)
  then have "cstring m' e1 s" using cstring_store_terminated [OF nz, of m e1] by simp
  then have "strings_between m' (ps @ [e1]) (take (Suc i) ss) (e1 - strings_size (take i ss)) e"
    using strings_between_mono [OF ih(2) order_refl, of e] le ih(2) unfolding take strings_between_def
    by (intro list_all2_appendI) auto
  moreover have "m' x = m x" if "x < e1 - strings_size (take i ss) \<or> e \<le> x" for x
  proof -
    have "x < e1 \<or> e \<le> x" "x < e1 - strings_size (take i ss) \<or> e1 \<le> x" using that le(4) by auto
    with ih(3) keep [of x] show ?thesis by metis
  qed
  ultimately show ?case unfolding run ih(1) sz by (intro exI [of _ "ps @ [e1]"] exI [of _ m']) simp
qed

lemma push_words_layout:
  assumes wr: "writable_range wr lo hi" and top: "hi < 2 ^ 32"
  shows "i \<le> length ws \<Longrightarrow> (\<And>j. j < i \<Longrightarrow> ws ! j < 2 ^ 32) \<Longrightarrow> e \<le> hi \<Longrightarrow> lo + 4 * i \<le> e \<Longrightarrow>
    \<exists>m'. push_words wr m ws i e = Some (e - 4 * i, m') \<and> (\<forall>j<i. load32 m' (e - 4 * i + 4 * j) = of_nat (ws ! j)) \<and>
      (\<forall>x. x < e - 4 * i \<or> e \<le> x \<longrightarrow> m' x = m x)"
proof (induction i arbitrary: m e)
  case (Suc i)
  let ?e = "e - 4" and ?m = "store32 m (e - 4) (of_nat (ws ! i))"
  have st: "store_user32 wr m ?e (ws ! i) = Some ?m"
    using Suc.prems by (intro store_user32_ok [OF wr]) auto
  have run: "push_words wr m ws (Suc i) e = push_words wr ?m ws i ?e" using Suc.prems(3,4) top st by (simp add: Let_def)
  obtain m' where ih: "push_words wr ?m ws i ?e = Some (?e - 4 * i, m')" "\<forall>j<i. load32 m' (?e - 4 * i + 4 * j) = of_nat (ws ! j)"
    "\<forall>x. x < ?e - 4 * i \<or> ?e \<le> x \<longrightarrow> m' x = ?m x"
  proof -
    have *: "i \<le> length ws" "?e \<le> hi" "lo + 4 * i \<le> ?e" using Suc.prems by auto
    have ws: "ws ! j < 2 ^ 32" if "j < i" for j using Suc.prems(2) [of j] that by simp
    show thesis using Suc.IH [OF *(1) ws *(2,3), of ?m, simplified] by (elim exE conjE) (rule that; simp)
  qed
  have "load_bytes m' ?e 4 = load_bytes ?m ?e 4" by (rule load_bytes_cong) (use ih(3) in simp)
  then have "load32 m' ?e = of_nat (ws ! i)" by (metis load32_def load32_store32)
  moreover have eq: "?e - 4 * i = e - 4 * Suc i" "?e - 4 * i + 4 * i = ?e" using Suc.prems(4) by auto
  ultimately have "\<forall>j<Suc i. load32 m' (e - 4 * Suc i + 4 * j) = of_nat (ws ! j)" using ih(2) by (auto simp: less_Suc_eq)
  moreover have "m' x = m x" if "x < e - 4 * Suc i \<or> e \<le> x" for x
  proof -
    have "?m x = m x" using that Suc.prems(4) by (intro store32_outside) auto
    moreover have "m' x = ?m x" using ih(3) that eq(1) by auto
    ultimately show ?thesis by simp
  qed
  ultimately show ?case using run ih(1) eq(1) by auto
qed simp

lemma and_word_aligned: "a < 2 ^ 32 \<Longrightarrow> a AND 0xfffffffc = a - a mod 4" for a :: nat
proof -
  assume a: "a < 2 ^ 32"
  have m: "(0xfffffffc :: nat) = push_bit 2 (mask 30)" by (simp add: mask_eq_exp_minus_1 push_bit_eq_mult)
  have "a AND 0xfffffffc = push_bit 2 (take_bit 30 (drop_bit 2 a))"
    unfolding m
  proof (rule bit_eqI)
    fix n
    show "bit (a AND push_bit 2 (mask 30)) n = bit (push_bit 2 (take_bit 30 (drop_bit 2 a))) n"
      by (cases "2 \<le> n") (auto simp: bit_simps le_iff_add)
  qed
  also have "take_bit 30 (drop_bit 2 a) = a div 4"
    using a by (simp add: take_bit_eq_mod drop_bit_eq_div div_less_iff_less_mult)
  finally show ?thesis by (simp add: push_bit_eq_mult minus_mod_eq_div_mult)
qed

text \<open>What the stack of a new process has to look like, and that \<^verbatim>\<open>setup_argument\<close> makes it.\<close>

definition stack_layout :: "memory \<Rightarrow> addr \<Rightarrow> addr \<Rightarrow> byte list list \<Rightarrow> bool" where
  "stack_layout m esp hi ss \<longleftrightarrow> esp mod 4 = 0 \<and> load32 m esp = 0 \<and> load32 m (esp + 4) = of_nat (length ss) \<and>
     load32 m (esp + 8) = of_nat (esp + 12) \<and> load32 m (esp + 12 + 4 * length ss) = 0 \<and>
     (\<exists>ps. length ps = length ss \<and> (\<forall>j<length ss. load32 m (esp + 12 + 4 * j) = of_nat (ps ! j) \<and>
        cstring m (ps ! j) (ss ! j) \<and> esp + 16 + 4 * length ss \<le> ps ! j \<and> ps ! j + length (ss ! j) < hi))"

text \<open>The three words on hi of the array.\<close>

lemma push_header:
  fixes e :: addr and m :: memory and a b c :: u32
  assumes "12 \<le> e"
  defines "m' \<equiv> store32 (store32 (store32 m (e - 4) a) (e - 8) b) (e - 12) c"
  shows "load32 m' (e - 4) = a" "load32 m' (e - 8) = b" "load32 m' (e - 12) = c" "\<And>x. x < e - 12 \<or> e \<le> x \<Longrightarrow> m' x = m x"
proof -
  have "apart_from (e - 4) 4 (e - 12) 4" "apart_from (e - 4) 4 (e - 8) 4" "apart_from (e - 8) 4 (e - 12) 4"
    using assms(1) by (auto simp: apart_from_def)
  then show "load32 m' (e - 4) = a" "load32 m' (e - 8) = b" "load32 m' (e - 12) = c" by (simp_all add: m'_def)
  fix x assume "x < e - 12 \<or> e \<le> x"
  then have "x < e - 4 \<or> e - 4 + 4 \<le> x" "x < e - 8 \<or> e - 8 + 4 \<le> x" "x < e - 12 \<or> e - 12 + 4 \<le> x" using assms(1) by auto
  then show "m' x = m x" unfolding m'_def by (simp only: store32_outside)
qed

lemma setup_argument_layout:
  assumes wr: "writable_range wr lo hi" and hi: "hi < 2 ^ 32"
    and argv: "length argv = length ss" "\<And>j. j < length ss \<Longrightarrow> hi \<le> argv ! j \<and> argv ! j \<noteq> NULL \<and> cstring m (argv ! j) (ss ! j)"
    and room: "lo + strings_size ss + 4 * length ss + 19 \<le> hi"
  shows "\<exists>esp m'. setup_argument wr m argv hi = Some (esp, m') \<and> stack_layout m' esp hi ss \<and> lo \<le> esp \<and>
    (\<forall>x. x < esp \<or> hi \<le> x \<longrightarrow> m' x = m x)"
proof -
  define n where "n = length ss"
  define e1 where "e1 = hi - strings_size ss"
  define e2 where "e2 = e1 - e1 mod 4"
  define e3 where "e3 = e2 - 4 - 4 * n"
  obtain ps m1 where 1: "push_strings wr m argv n hi [] = Some (ps, e1, m1)" "strings_between m1 ps ss e1 hi"
    "\<forall>x. x < e1 \<or> hi \<le> x \<longrightarrow> m1 x = m x"
    using push_strings_layout [OF wr hi, of n argv ss m hi "[]"] argv room by (auto simp: n_def e1_def)
  have len: "length ps = n" using 1(2) by (simp add: strings_between_def n_def list_all2_lengthD)
  have b: "e2 \<le> e1" "e1 \<le> e2 + 3" "e1 \<le> hi" "lo + 16 + 4 * n \<le> e2" "e2 mod 4 = 0" "e1 < 2 ^ 32" "e2 < 2 ^ 32"
    using room hi by (auto simp: e2_def e1_def n_def minus_mod_eq_div_mult)
  let ?m2 = "store32 m1 (e2 - 4) 0"
  have 2: "store_user32 wr m1 (e2 - 4) 0 = Some ?m2"
    using store_user32_ok [OF wr, of "e2 - 4" 0 m1] b by simp
  have small: "ps ! j < 2 ^ 32" if "j < n" for j
    using 1(2) that hi len by (auto simp: strings_between_def list_all2_conv_all_nth)
  have e2': "e2 - 4 \<le> hi" "lo + 4 * n \<le> e2 - 4" using b by auto
  obtain m3 where 3: "push_words wr ?m2 ps n (e2 - 4) = Some (e3, m3)" "\<forall>j<n. load32 m3 (e3 + 4 * j) = of_nat (ps ! j)"
    "\<forall>x. x < e3 \<or> e2 - 4 \<le> x \<longrightarrow> m3 x = ?m2 x"
    using push_words_layout [OF wr hi, of n ps "e2 - 4" ?m2, OF _ small e2'] len by (auto simp: e3_def)
  have e3: "lo + 12 \<le> e3" "e3 + 4 * n + 4 = e2" "e3 < 2 ^ 32" "e3 mod 4 = 0" using b by (auto simp: e3_def)
  let ?m4 = "store32 m3 (e3 - 4) (of_nat e3)"
  let ?m5 = "store32 ?m4 (e3 - 8) (of_nat n)"
  let ?m6 = "store32 ?m5 (e3 - 12) 0"
  have n: "n < 2 ^ 32" using b by simp
  have w: "store_user32 wr m3 (e3 - 4) e3 = Some ?m4" "store_user32 wr ?m4 (e3 - 8) n = Some ?m5" "store_user32 wr ?m5 (e3 - 12) 0 = Some ?m6"
    using store_user32_ok [OF wr, of "e3 - 4" e3 m3] store_user32_ok [OF wr, of "e3 - 8" n ?m4] store_user32_ok [OF wr, of "e3 - 12" 0 ?m5]
      b e3 n by auto
  have p: "psub e2 4 = e2 - 4" "psub e3 4 = e3 - 4" "psub (e3 - 4) 4 = e3 - 8" "psub (e3 - 8) 4 = e3 - 12" "(e3 - 4 + 4) mod 2 ^ 32 = e3"
    using b e3 by auto
  have run: "setup_argument wr m argv hi = Some (e3 - 12, ?m6)"
    unfolding setup_argument_def argv(1) n_def [symmetric] Let_def 1(1)
    by (simp only: bind.bind_lunit prod.case and_word_aligned [OF b(6)] e2_def [symmetric] p 2 3(1) w)
  have h: "load32 ?m6 (e3 - 4) = of_nat e3" "load32 ?m6 (e3 - 8) = of_nat n" "load32 ?m6 (e3 - 12) = 0"
    and above: "\<And>x. x < e3 - 12 \<or> e3 \<le> x \<Longrightarrow> ?m6 x = m3 x"
    using push_header [of e3, where m = m3 and a = "of_nat e3" and b = "of_nat n" and c = 0] e3(1) by auto
  have arr: "load32 ?m6 (e3 + 4 * j) = of_nat (ps ! j)" if "j < n" for j
    using 3(2) that load32_cong [of "e3 + 4 * j" ?m6 m3] above by simp
  have null: "load32 ?m6 (e3 + 4 * n) = 0"
  proof -
    have "load32 ?m6 (e3 + 4 * n) = load32 ?m2 (e3 + 4 * n)" by (rule load32_cong) (use above 3(3) e3(2) in auto)
    moreover have "e3 + 4 * n = e2 - 4" using e3(2) by simp
    ultimately show ?thesis by simp
  qed
  have str: "?m6 x = m1 x" if "e2 \<le> x" for x
    using above [of x] 3(3) store32_outside [of x "e2 - 4" m1 0] that e3(2) by auto
  have "cstring ?m6 (ps ! j) (ss ! j) \<and> e2 \<le> ps ! j \<and> ps ! j + length (ss ! j) < hi" if "j < n" for j
  proof -
    have "cstring m1 (ps ! j) (ss ! j)" "e1 \<le> ps ! j" "ps ! j + length (ss ! j) < hi"
      using 1(2) that by (auto simp: strings_between_def list_all2_conv_all_nth n_def)
    moreover have "cstring ?m6 (ps ! j) (ss ! j) = cstring m1 (ps ! j) (ss ! j)"
      by (rule cstring_cong, rule str) (use calculation(2) b(1) in simp)
    ultimately show ?thesis using b(1) by simp
  qed
  then have ptr: "load32 ?m6 (e3 - 12 + 12 + 4 * j) = of_nat (ps ! j) \<and> cstring ?m6 (ps ! j) (ss ! j) \<and>
      e3 - 12 + 16 + 4 * n \<le> ps ! j \<and> ps ! j + length (ss ! j) < hi" if "j < n" for j
    using arr [OF that] that e3(1,2) by fastforce
  have "12 \<le> e3" using e3(1) by simp
  then have eq: "e3 - 12 + 4 = e3 - 8" "e3 - 12 + 8 = e3 - 4" "e3 - 12 + 12 = e3" "(e3 - 12) mod 4 = 0"
    using e3(4) by (auto simp: mod_eq_0_iff_dvd dvd_diff_nat)
  have "stack_layout ?m6 (e3 - 12) hi ss"
    unfolding stack_layout_def n_def [symmetric]
  proof (intro conjI exI [of _ ps])
    show "\<forall>j<n. load32 ?m6 (e3 - 12 + 12 + 4 * j) = of_nat (ps ! j) \<and> cstring ?m6 (ps ! j) (ss ! j) \<and>
      e3 - 12 + 16 + 4 * n \<le> ps ! j \<and> ps ! j + length (ss ! j) < hi" using ptr by blast
  qed (simp_all only: eq h null len)
  moreover have "?m6 x = m x" if "x < e3 - 12 \<or> hi \<le> x" for x
  proof -
    have "?m6 x = m3 x" by (rule above) (use that e3 b in auto)
    also have "\<dots> = ?m2 x" using 3(3) that e3 b by auto
    also have "\<dots> = m1 x" by (rule store32_outside) (use that e3 b in auto)
    also have "\<dots> = m x" using 1(3) that e3 b by auto
    finally show ?thesis .
  qed
  ultimately show ?thesis using run e3(1) by (intro exI [of _ "e3 - 12"] exI [of _ ?m6]) auto
qed

end
