(* ===== verification/Process_Properties.thy ===== *)
theory Process_Properties
  imports Elf_Segment User_Stack File_System_Properties
begin

text \<open>
  Properties of the memory of processes: the page allocator, page directories, arguments on the user stack
  and the loading of segments, each with an application to a small concrete state.
\<close>

section \<open>A small machine\<close>

text \<open>
  Three kernel pages, of which the first two are in use (the kernel's page directory and one more), and four
  user pages, all free; memory is zero.
\<close>

definition sample_pages :: page_mem where
  "sample_pages = \<lparr>kernel_pool = \<lparr>used_map = \<lparr>bit_cnt = 3, bits = [3]\<rparr>, pool_base = 0xc0001000\<rparr>,
     user_pool = \<lparr>used_map = \<lparr>bit_cnt = 4, bits = [0]\<rparr>, pool_base = 0xc0010000\<rparr>, ram = (\<lambda>_. 0)\<rparr>"

definition sample_vm :: vm where
  "sample_vm = \<lparr>pgs = sample_pages, init_page_dir = 0xc0001000, init_ram_pages = 1024, cr3 = 0\<rparr>"

lemma sample_bits: "bitmap_bits \<lparr>bit_cnt = 3, bits = [3]\<rparr> = [True, True, False]"
  "bitmap_bits \<lparr>bit_cnt = 4, bits = [0]\<rparr> = [False, False, False, False]"
  by (simp_all add: bitmap_bits_def elem_idx_def ELEM_BITS_def upt_rec bit_numeral_rec bit_0)

lemma sample_pages_ok: "palloc_ok sample_pages"
  by (simp add: palloc_ok_def pool_ok_def sample_pages_def wf_bitmap_def ELEM_BITS_def SIZE_WRAP_def)

lemma sample_allocated: "allocated sample_pages = {0xc0001000, 0xc0002000}"
proof -
  have "i < 3 \<and> [True, True, False] ! i \<longleftrightarrow> i = 0 \<or> i = 1" for i by (auto simp: nth_Cons')
  then have "{i. i < 3 \<and> [True, True, False] ! i} = {0, 1}" by auto
  moreover have "\<not> [False, False, False, False] ! i" if "i < 4" for i using that by (simp add: nth_Cons')
  then have none: "{i. i < 4 \<and> [False, False, False, False] ! i} = {}" by blast
  ultimately show ?thesis unfolding allocated_def pool_allocated_def by (simp add: none sample_pages_def sample_bits)
qed

lemma load32_zero: "load32 (\<lambda>_. 0) a = 0"
  by (simp add: load32_def load_bytes_def un_le32_def upt_rec)

lemma sample_page_dir: "page_dir sample_vm 0xc0002000 (\<lambda>_. None)"
  using sample_pages_ok sample_allocated by (simp add: page_dir_def sample_vm_def read32_def sample_pages_def load32_zero)

section \<open>Page allocator\<close>

text \<open>
  C11: Pages that the allocator has handed out belong to one owner: of two successive requests, from whatever pool
  and of whatever size, neither gets a page of the other, the first range can be returned once, and
  returning it a second time halts the kernel.
\<close>

theorem palloc_pages_owned_once:
  assumes "palloc_ok pm" "0 < n" "0 < k" "palloc_get_multiple pm f n = Some (a, pm1)" "a \<noteq> NULL"
    "palloc_get_multiple pm1 g k = Some (b, pm2)" "b \<noteq> NULL"
  shows "pages_at a n \<inter> pages_at b k = {} \<and> (\<exists>pm3. palloc_free_multiple pm2 a n = Some pm3 \<and> palloc_free_multiple pm3 a n = None)"
proof -
  have 1: "palloc_ok pm1" "a mod 4096 = 0" "allocated pm1 = allocated pm \<union> pages_at a n"
    using pal.get_some [OF assms(1,2,4,5)] by auto
  have 2: "palloc_ok pm2" "allocated pm2 = allocated pm1 \<union> pages_at b k"
    using pal.get_some [OF 1(1) assms(3,6,7)] by auto
  have sub: "pages_at a n \<subseteq> allocated pm2" using 1(3) 2(2) by auto
  obtain pm3 where "palloc_free_multiple pm2 a n = Some pm3"
    using pal.free_used [OF 2(1) 1(2) assms(2) sub] by auto
  with pal.separate [OF assms] pal.double_free [OF 2(1) 1(2) assms(5,2) sub] show ?thesis by blast
qed

lemma sample_not_full: "\<not> pool_full sample_pages 0 1" "\<not> pool_full sample_pages PAL_USER 2"
proof -
  have "group_at [True, True, False] 2 1 False" "group_at [False, False, False, False] 0 2 False"
    by (auto simp: group_at_def nth_Cons' less_Suc_eq numeral_2_eq_2)
  then show "\<not> pool_full sample_pages 0 1" "\<not> pool_full sample_pages PAL_USER 2"
    by (auto simp: pool_full_def pool_of_def sample_pages_def sample_bits PAL_USER_def)
qed

theorem palloc_pages_owned_once_witness:
  "\<exists>a pm1 b pm2. palloc_get_multiple sample_pages PAL_USER 2 = Some (a, pm1) \<and> palloc_get_multiple pm1 0 1 = Some (b, pm2) \<and>
     pages_at a 2 \<inter> pages_at b 1 = {} \<and> (\<exists>pm3. palloc_free_multiple pm2 a 2 = Some pm3 \<and> palloc_free_multiple pm3 a 2 = None)"
proof -
  obtain a pm1 where 1: "palloc_get_multiple sample_pages PAL_USER 2 = Some (a, pm1)" "palloc_ok pm1" "a \<noteq> NULL"
    "kernel_pool pm1 = kernel_pool sample_pages"
    by (rule palloc_get_found [OF sample_pages_ok _ sample_not_full(2)]) (auto simp: PAL_USER_def)
  then have "\<not> pool_full pm1 0 1" using sample_not_full(1) by (simp add: pool_full_def pool_of_def)
  then obtain b pm2 where 2: "palloc_get_multiple pm1 0 1 = Some (b, pm2)" "b \<noteq> NULL"
    by (rule palloc_get_found [OF 1(2) zero_less_one]) auto
  have n: "0 < (2 :: nat)" "0 < (1 :: nat)" by simp_all
  from palloc_pages_owned_once [OF sample_pages_ok n 1(1,3) 2] 1(1) 2(1) show ?thesis by blast
qed

section \<open>Page directories\<close>

text \<open>
  C10: \<^verbatim>\<open>pagedir_set_page\<close> refines the update of a map from user addresses to frames: afterwards
  \<^verbatim>\<open>pagedir_get_page\<close> finds the frame at every address of the page and what it found before at every other
  user address, and the directory is well formed.  It reports failure, and changes nothing, only if the page
  needs a new table and the kernel pool is full.
\<close>

theorem pagedir_set_page_refines_map:
  assumes "page_dir v pd T" "set_page_args v pd upage kpage" "pte v T upage AND PTE_P = 0"
  shows "\<exists>ok v' T'. pagedir_set_page v pd upage kpage w = Some (ok, v') \<and> page_dir v' pd T' \<and>
    (ok \<or> (v' = v \<and> T (pd_no upage) = None \<and> pool_full (pgs v) 0 1)) \<and>
    (\<forall>va<PHYS_BASE. pagedir_get_page v' pd va =
       (if ok \<and> va div 4096 = upage div 4096 then Some (kpage + va mod 4096) else pagedir_get_page v pd va))"
proof (rule pagedir_set_page_cases [OF assms, of w])
  assume "T (pd_no upage) = None" "pool_full (pgs v) 0 1" "pagedir_set_page v pd upage kpage w = Some (False, v)"
  with assms(1) show ?thesis by (intro exI [of _ False] exI [of _ v] exI [of _ T]) simp
next
  fix T' v'
  assume s: "pagedir_set_page v pd upage kpage w = Some (True, v')" "page_dir v' pd T'"
    "\<And>vb. vb < PHYS_BASE \<Longrightarrow> pte v' T' vb = (if vb div 4096 = upage div 4096 then pte_word kpage w else pte v T vb)"
  have "kernel_page kpage" using assms(2) by (simp add: set_page_args_def)
  then have "pagedir_get_page v' pd va = (if va div 4096 = upage div 4096 then Some (kpage + va mod 4096) else pagedir_get_page v pd va)"
    if "va < PHYS_BASE" for va
    using s(3) [OF that] pagedir_get_page_pte [OF s(2) that] pagedir_get_page_pte [OF assms(1) that] pte_word_facts by simp
  with s show ?thesis by (intro exI [of _ True] exI [of _ v'] exI [of _ T']) simp
qed

theorem pagedir_set_page_refines_map_witness:
  "\<exists>v'. pagedir_set_page sample_vm 0xc0002000 0x8048000 0xc0010000 True = Some (True, v') \<and>
     pagedir_get_page v' 0xc0002000 0x8048123 = Some 0xc0010123 \<and> pagedir_get_page v' 0xc0002000 0x8049000 = Some 0"
proof -
  have "set_page_args sample_vm 0xc0002000 0x8048000 0xc0010000" by (simp add: set_page_args_def kernel_page_def sample_vm_def)
  moreover have "pte sample_vm (\<lambda>_. None) 0x8048000 AND PTE_P = 0" by (simp add: pte_def)
  ultimately obtain ok v' T' where s: "pagedir_set_page sample_vm 0xc0002000 0x8048000 0xc0010000 True = Some (ok, v')"
    "ok \<or> (v' = sample_vm \<and> pool_full (pgs sample_vm) 0 1)"
    "\<forall>va<PHYS_BASE. pagedir_get_page v' 0xc0002000 va = (if ok \<and> va div 4096 = 0x8048000 div 4096 then Some (0xc0010000 + va mod 4096)
       else pagedir_get_page sample_vm 0xc0002000 va)"
    using pagedir_set_page_refines_map [OF sample_page_dir, of "0x8048000" "0xc0010000" True] by blast
  have ok using s(2) sample_not_full(1) by (simp add: sample_vm_def)
  moreover have "pagedir_get_page sample_vm 0xc0002000 0x8049000 = Some 0"
    using pagedir_get_page_pte [OF sample_page_dir, of "0x8049000"] by (simp add: pte_def)
  ultimately show ?thesis using s(1,3) by simp
qed

text \<open>
  C31: \<^verbatim>\<open>pagedir_destroy\<close> returns to the allocator exactly the pages that the directory owns: the frames of
  all present entries, the page tables and the directory, and no other page.
\<close>

theorem pagedir_destroy_returns_pages:
  assumes "page_dir v pd T" "owns v pd T F" "pd \<noteq> init_page_dir v"
  shows "\<exists>v'. pagedir_destroy v pd = Some v' \<and> palloc_ok (pgs v') \<and>
    allocated (pgs v') = allocated (pgs v) - insert pd (owned_pages T F 768)"
  using pagedir_destroy_frees [OF assms] by (auto simp: frees_def)

text \<open>A directory with one table that has one frame.\<close>

definition sample_mapped_vm :: vm where
  "sample_mapped_vm = write32 (write32 \<lparr>pgs = \<lparr>kernel_pool = \<lparr>used_map = \<lparr>bit_cnt = 3, bits = [7]\<rparr>, pool_base = 0xc0001000\<rparr>,
     user_pool = \<lparr>used_map = \<lparr>bit_cnt = 4, bits = [1]\<rparr>, pool_base = 0xc0010000\<rparr>, ram = (\<lambda>_. 0)\<rparr>,
     init_page_dir = 0xc0001000, init_ram_pages = 1024, cr3 = 0\<rparr>
     (0xc0002000 + 4 * 32) (pde_word 0xc0003000)) (0xc0003000 + 4 * 72) (pte_word 0xc0010000 True)"

lemma read32_write32_entry:
  assumes "kernel_page a" "kernel_page b" "i < 1024" "j < 1024"
  shows "read32 (write32 v (b + 4 * j) w) (a + 4 * i) = (if a = b \<and> i = j then w else read32 v (a + 4 * i))"
  using words_apart [OF assms] by (auto simp: read32_write32_other)

lemma sample_mapped_read:
  assumes "i < 1024"
  shows "read32 sample_mapped_vm (0xc0002000 + 4 * i) = (if i = 32 then pde_word 0xc0003000 else 0)"
    "read32 sample_mapped_vm (0xc0003000 + 4 * i) = (if i = 72 then pte_word 0xc0010000 True else 0)"
proof -
  have k: "kernel_page 0xc0002000" "kernel_page 0xc0003000" by (simp_all add: kernel_page_def)
  note rw = read32_write32_entry [OF k(1) k(2) assms, of 72] read32_write32_entry [OF k(1) k(1) assms, of 32]
    read32_write32_entry [OF k(2) k(2) assms, of 72] read32_write32_entry [OF k(2) k(1) assms, of 32]
  show "read32 sample_mapped_vm (0xc0002000 + 4 * i) = (if i = 32 then pde_word 0xc0003000 else 0)"
    unfolding sample_mapped_vm_def using rw(1,2) by (simp add: read32_def [of "_\<lparr>cr3 := _\<rparr>"]) (simp add: read32_def load32_zero)
  show "read32 sample_mapped_vm (0xc0003000 + 4 * i) = (if i = 72 then pte_word 0xc0010000 True else 0)"
    unfolding sample_mapped_vm_def using rw(3,4) by simp (simp add: read32_def load32_zero)
qed

lemma sample_mapped_bits: "bitmap_bits \<lparr>bit_cnt = 3, bits = [7]\<rparr> = [True, True, True]"
  "bitmap_bits \<lparr>bit_cnt = 4, bits = [1]\<rparr> = [True, False, False, False]"
  by (simp_all add: bitmap_bits_def elem_idx_def ELEM_BITS_def upt_rec bit_numeral_rec bit_0 bit_1_iff)

lemma sample_mapped_allocated:
  "palloc_ok (pgs sample_mapped_vm)" "allocated (pgs sample_mapped_vm) = {0xc0001000, 0xc0002000, 0xc0003000, 0xc0010000}"
proof -
  show "palloc_ok (pgs sample_mapped_vm)"
    unfolding sample_mapped_vm_def write32_fields
    by (simp add: palloc_ok_def pool_ok_def wf_bitmap_def ELEM_BITS_def SIZE_WRAP_def)
  have "i < 3 \<and> [True, True, True] ! i \<longleftrightarrow> i = 0 \<or> i = 1 \<or> i = 2" for i by (auto simp: nth_Cons')
  then have k: "{i. i < 3 \<and> [True, True, True] ! i} = {0, 1, 2}" by blast
  have "i < 4 \<and> [True, False, False, False] ! i \<longleftrightarrow> i = 0" for i by (auto simp: nth_Cons')
  then have u: "{i. i < 4 \<and> [True, False, False, False] ! i} = {0}" by blast
  show "allocated (pgs sample_mapped_vm) = {0xc0001000, 0xc0002000, 0xc0003000, 0xc0010000}"
    unfolding sample_mapped_vm_def write32_fields
    by (auto simp: allocated_def pool_allocated_def sample_mapped_bits k u)
qed

definition sample_table :: "nat \<Rightarrow> addr option" where
  "sample_table = [32 \<mapsto> 0xc0003000]"

definition sample_frame :: "nat \<Rightarrow> nat \<Rightarrow> addr option" where
  "sample_frame i j = (if i = 32 \<and> j = 72 then Some 0xc0010000 else None)"

lemma sample_mapped_dir: "page_dir sample_mapped_vm 0xc0002000 sample_table"
  using sample_mapped_allocated sample_mapped_read(1) sample_mapped_read(1) [of 32] by (simp add: page_dir_def sample_table_def)

lemma sample_mapped_owns: "owns sample_mapped_vm 0xc0002000 sample_table sample_frame"
proof -
  have "kernel_page 0xc0010000" by (simp add: kernel_page_def)
  then have "entry_frame (if j = 72 then pte_word 0xc0010000 True else 0) (sample_frame 32 j)" for j
    by (simp add: entry_frame_def sample_frame_def pte_word_facts)
  then show ?thesis
    using sample_mapped_read(2) by (auto simp: owns_def sample_table_def sample_frame_def sample_mapped_allocated split: if_splits)
qed

theorem pagedir_destroy_returns_pages_witness:
  "\<exists>v'. pagedir_destroy sample_mapped_vm 0xc0002000 = Some v' \<and> allocated (pgs v') = {0xc0001000}"
proof -
  have "owned_pages sample_table sample_frame 768 = {0xc0003000, 0xc0010000}"
    by (auto simp: owned_pages_def table_pages_def frames_def sample_table_def sample_frame_def split: if_splits)
  moreover have "(0xc0002000 :: addr) \<noteq> init_page_dir sample_mapped_vm" by (simp add: sample_mapped_vm_def)
  from pagedir_destroy_returns_pages [OF sample_mapped_dir sample_mapped_owns this]
  obtain v' where "pagedir_destroy sample_mapped_vm 0xc0002000 = Some v'"
    "allocated (pgs v') = allocated (pgs sample_mapped_vm) - insert 0xc0002000 (owned_pages sample_table sample_frame 768)" by blast
  ultimately show ?thesis by (auto simp: sample_mapped_allocated)
qed

section \<open>Arguments of a process\<close>

text \<open>
  C30: \<^verbatim>\<open>load\<close> splits a command line into its words: with at most \<^verbatim>\<open>ARGLEN\<close> words the pointers that it
  collects point to null-terminated copies, in place, of the maximal runs of characters that are not
  delimiters, in order, and no byte outside the command line is changed.
\<close>

theorem load_args_splits_command_line:
  assumes "cstring m space D" "space \<noteq> NULL" "cstring m file_name bs" "file_name \<noteq> NULL"
    "apart_from file_name (length bs + 1) space (length D + 1)" "length (tokens (set D) bs) \<le> ARGLEN"
  shows "\<exists>argv m'. load_args m space file_name = Some (argv, m') \<and> strings_at m' argv (tokens (set D) bs) \<and>
    (\<forall>x. x < file_name \<or> file_name + length bs \<le> x \<longrightarrow> m' x = m x)"
  using load_args_tokens [OF assms] by blast

definition sample_line :: memory where
  "sample_line = store_bytes (store_bytes (\<lambda>_. 0) 100 [0x20]) 5000 [0x20, 0x61, 0x62, 0x20, 0x20, 0x63]"

theorem load_args_splits_command_line_witness:
  "\<exists>argv m'. load_args sample_line 100 5000 = Some (argv, m') \<and> strings_at m' argv [[0x61, 0x62], [0x63]]"
proof -
  have "cstring sample_line 100 [0x20]" "cstring sample_line 5000 [0x20, 0x61, 0x62, 0x20, 0x20, 0x63]"
    by (simp_all add: sample_line_def store_bytes_def)
  moreover have "tokens (set [0x20]) [0x20, 0x61, 0x62, 0x20, 0x20, 0x63 :: byte] = [[0x61, 0x62], [0x63]]" by simp
  ultimately show ?thesis
    using load_args_splits_command_line [of sample_line 100 "[0x20]" 5000 "[0x20, 0x61, 0x62, 0x20, 0x20, 0x63]"]
    by (auto simp: apart_from_def ARGLEN_def)
qed

text \<open>
  C12: \<^verbatim>\<open>setup_argument\<close> builds the stack that \<^verbatim>\<open>main\<close> expects: below \<open>hi\<close> lie copies of the argument
  strings, then, at a word boundary, a null pointer, the pointers to the copies, the address of that array,
  the number of arguments and a return address; the stack pointer is at the latter.  It needs the strings,
  one word per argument and 19 more bytes, and changes nothing outside.
\<close>

theorem setup_argument_builds_stack:
  assumes "writable_range wr lo hi" "hi < 2 ^ 32" "length argv = length ss"
    "\<forall>j<length ss. hi \<le> argv ! j \<and> argv ! j \<noteq> NULL \<and> cstring m (argv ! j) (ss ! j)"
    "lo + strings_size ss + 4 * length ss + 19 \<le> hi"
  shows "\<exists>esp m'. setup_argument wr m argv hi = Some (esp, m') \<and> stack_layout m' esp hi ss \<and> lo \<le> esp \<and>
    (\<forall>x. x < esp \<or> hi \<le> x \<longrightarrow> m' x = m x)"
  by (rule setup_argument_layout [OF assms(1-3) _ assms(5)]) (use assms(4) in blast)

definition sample_args :: memory where
  "sample_args = store_bytes (\<lambda>_. 0) (PHYS_BASE + 100) [0x61, 0x62, 0, 0x63, 0]"

theorem setup_argument_builds_stack_witness:
  "\<exists>esp m'. setup_argument (\<lambda>x. PHYS_BASE - 4096 \<le> x \<and> x < PHYS_BASE) sample_args [PHYS_BASE + 100, PHYS_BASE + 103] PHYS_BASE =
     Some (esp, m') \<and> stack_layout m' esp PHYS_BASE [[0x61, 0x62], [0x63]]"
proof -
  have "cstring sample_args (PHYS_BASE + 100) [0x61, 0x62]" "cstring sample_args (PHYS_BASE + 103) [0x63]"
    by (simp_all add: sample_args_def store_bytes_def)
  then show ?thesis
    using setup_argument_builds_stack [of "\<lambda>x. PHYS_BASE - 4096 \<le> x \<and> x < PHYS_BASE" "PHYS_BASE - 4096" PHYS_BASE
        "[PHYS_BASE + 100, PHYS_BASE + 103]" "[[0x61, 0x62], [0x63]]" sample_args]
    by (auto simp: writable_range_def less_Suc_eq)
qed

section \<open>Loading a program\<close>

definition sample_phdr :: elf32_phdr where
  "sample_phdr = \<lparr>p_type = 1, p_offset = 16, p_vaddr = 0x8048010, p_paddr = 0, p_filesz = 600, p_memsz = 5000,
     p_flags = 6, p_align = 0x1000\<rparr>"

lemma sample_phdr_valid: "validate_segment sample_phdr 1000"
  by (simp add: validate_segment_def sample_phdr_def PAGE_MASK_def is_user_vaddr_def)

text \<open>
  C33: The pages of a segment that \<^verbatim>\<open>validate_segment\<close> accepts lie in user space, above the first page,
  without any wrap-around in the arithmetic of \<^verbatim>\<open>load\<close>: they start at a page boundary, are whole pages,
  contain the segment and end below the kernel; the part read from the file lies within them.
\<close>

theorem valid_segment_in_user_space:
  assumes "validate_segment ph len" "0 \<le> len" "len < 2 ^ 31"
  shows "let page = unat (p_vaddr ph AND NOT PAGE_MASK); (r, z) = segment_bytes ph; n = unat r + unat z in
    page mod 4096 = 0 \<and> 4096 \<le> page \<and> page \<le> unat (p_vaddr ph) \<and> n mod 4096 = 0 \<and>
    unat (p_vaddr ph) + unat (p_memsz ph) \<le> page + n \<and> page + n \<le> PHYS_BASE \<and> unat r \<le> n"
proof -
  note v = validate_segment_facts [OF assms]
  obtain r z where rz: "segment_bytes ph = (r, z)" by fastforce
  note sb = segment_bytes_facts(1) [OF assms rz]
  note st = page_start_facts [of "unat (p_vaddr ph)"]
  let ?lo = "unat (p_vaddr ph) - unat (p_vaddr ph) mod 4096" and ?x = "unat (p_vaddr ph) mod 4096 + unat (p_memsz ph)"
  have "?lo + ROUND_UP ?x 4096 \<le> PHYS_BASE" by (rule round_up_below [OF st(1)]) (use st(2) v(5) in simp)
  moreover have "?x \<le> ROUND_UP ?x 4096" using ROUND_UP_bounds [of 4096 ?x] by simp
  moreover have "ROUND_UP ?x 4096 mod 4096 = 0" by (simp add: ROUND_UP_def)
  ultimately show ?thesis using st v(6) by (simp add: Let_def rz sb unat_clear_page_mask) linarith
qed

theorem valid_segment_in_user_space_witness:
  "let page = unat (p_vaddr sample_phdr AND NOT PAGE_MASK); (r, z) = segment_bytes sample_phdr; n = unat r + unat z in
    page mod 4096 = 0 \<and> 4096 \<le> page \<and> page \<le> unat (p_vaddr sample_phdr) \<and> n mod 4096 = 0 \<and>
    unat (p_vaddr sample_phdr) + unat (p_memsz sample_phdr) \<le> page + n \<and> page + n \<le> PHYS_BASE \<and> unat r \<le> n"
  by (rule valid_segment_in_user_space [OF sample_phdr_valid]) simp_all

text \<open>
  C9: Loading a segment of an executable gives the process the memory that the program header describes.  If
  the pages of the segment are not mapped yet, \<^verbatim>\<open>load\<close> returns; if it reports success, then at each address of
  the segment the process reads the byte of the file at the corresponding offset, or zero behind the part
  that is in the file, and all mappings outside the segment's pages are as before.
\<close>

theorem load_phdr_places_segment:
  assumes "loadable l T" "source m (disk l) file c q" "file \<noteq> NULL" "p_type ph = PT_LOAD"
    "validate_segment ph (int (length c))"
    "lo = unat (p_vaddr ph) - unat (p_vaddr ph) mod 4096"
    "hi = lo + ROUND_UP (unat (p_vaddr ph) mod 4096 + unat (p_memsz ph)) 4096"
    "\<forall>x. lo \<le> x \<and> x < hi \<longrightarrow> pte (mm l) T x AND PTE_P = 0"
  shows "\<exists>ok l'. load_phdr l file ph = Some (ok, l') \<and> (ok \<longrightarrow> (\<exists>T'. loadable l' T' \<and> pagedir l' = pagedir l \<and>
    (\<forall>x<PHYS_BASE. x < lo \<or> hi \<le> x \<longrightarrow> pte (mm l') T' x = pte (mm l) T x) \<and>
    (\<forall>i<unat (p_memsz ph). user_byte (mm l') (pagedir l) (unat (p_vaddr ph) + i) =
       Some (if i < unat (p_filesz ph) then c ! (unat (p_offset ph) + i) else 0))))"
  unfolding assms(6,7)
  by (rule load_phdr_segment [OF assms(1-5)]) (use assms(8) in \<open>simp add: assms(6,7)\<close>)

definition sample_loader :: loader where
  "sample_loader = \<lparr>mm = sample_vm, disk = sample_fs 1000, pagedir = 0xc0002000\<rparr>"

theorem load_phdr_places_segment_witness:
  "\<exists>ok l'. load_phdr sample_loader 200 sample_phdr = Some (ok, l') \<and>
    (ok \<longrightarrow> (\<forall>i<5000. user_byte (mm l') 0xc0002000 (0x8048010 + i) = Some 0))"
proof -
  have pool: "pool_pages (user_pool sample_pages) \<subseteq> {0xc0010000..<0xc0014000}"
    by (auto simp: pool_pages_def pages_at_def sample_pages_def)
  then have "\<forall>k\<in>pool_pages (user_pool sample_pages). (k - PHYS_BASE) div 4096 < 1024"
    by (fastforce intro!: less_mult_imp_div_less)
  with pool have l: "loadable sample_loader (\<lambda>_. None)"
    using sample_page_dir by (auto simp: loadable_def sample_loader_def sample_vm_def)
  have src: "source 8 (disk sample_loader) 200 (replicate 1000 0) 0"
    using blank_disk(2) sample_mapped [of 1000] by (simp add: source_def sample_loader_def sample_file_bytes)
  have ph: "p_type sample_phdr = PT_LOAD" "validate_segment sample_phdr (int (length (replicate 1000 (0 :: byte))))"
    using sample_phdr_valid by (simp_all add: sample_phdr_def PT_LOAD_def)
  have unmapped: "\<forall>x. lo \<le> x \<and> x < hi \<longrightarrow> pte (mm sample_loader) (\<lambda>_. None) x AND PTE_P = 0" for lo hi
    by (simp add: pte_def)
  have "200 \<noteq> NULL" by simp
  from load_phdr_places_segment [OF l src this ph refl refl unmapped]
  obtain ok l' where "load_phdr sample_loader 200 sample_phdr = Some (ok, l')"
    "ok \<longrightarrow> (\<forall>i<unat (p_memsz sample_phdr). user_byte (mm l') (pagedir sample_loader) (unat (p_vaddr sample_phdr) + i) =
       Some (if i < unat (p_filesz sample_phdr) then replicate 1000 0 ! (unat (p_offset sample_phdr) + i) else 0))"
    by blast
  then show ?thesis by (auto simp: sample_phdr_def sample_loader_def)
qed

end
