(* ===== verification/Syscall_Properties.thy ===== *)
theory Syscall_Properties
  imports Syscall_Files Process_Properties
begin

text \<open>
  Properties of the open files of a process and of its system calls, each with an application to a small
  concrete process.
\<close>

section \<open>A small process\<close>

text \<open>
  Memory that is zero except for the given words: a page directory at \<open>0xc0002000\<close> with two page tables that
  map the pages at \<open>0x08048000\<close> and at the end of user space, a control block at \<open>0xc0005000\<close> for the file 200 with
  number 2, and the words of a call of \<^verbatim>\<open>read\<close> on the first user page.
\<close>

fun words_ram :: "(addr \<times> u32) list \<Rightarrow> memory" where
  "words_ram [] = (\<lambda>_. 0)"
| "words_ram ((a, w) # ws) = store32 (words_ram ws) a w"

lemma load32_words_ram:
  assumes "a mod 4 = 0" "list_all (\<lambda>(b, w). b mod 4 = 0) ws"
  shows "load32 (words_ram ws) a = (case map_of ws a of None \<Rightarrow> 0 | Some w \<Rightarrow> w)"
  using assms(2)
proof (induction ws rule: words_ram.induct)
  case (2 b w ws)
  have "apart_from a 4 b 4" if "a \<noteq> b" using that assms(1) 2(2) by (auto simp: apart_from_def elim!: dvdE simp: mod_eq_0_iff_dvd)
  with 2 show ?case by auto
qed (simp add: load32_zero)

definition sample_words :: "(addr \<times> u32) list" where
  "sample_words = [(0xc0002080, pde_word 0xc0003000), (0xc0002bfc, pde_word 0xc0006000),
     (0xc0003120, pte_word 0xc0010000 True), (0xc0006ffc, pte_word 0xc0011000 True),
     (0xc0005000, 200), (0xc0005004, 2),
     (0xc0010000, 8), (0xc0010004, 2), (0xc0010008, 0x08048100), (0xc001000c, 4)]"

definition sample_kmem :: page_mem where
  "sample_kmem = \<lparr>kernel_pool = \<lparr>used_map = \<lparr>bit_cnt = 7, bits = [63]\<rparr>, pool_base = 0xc0001000\<rparr>,
     user_pool = \<lparr>used_map = \<lparr>bit_cnt = 4, bits = [3]\<rparr>, pool_base = 0xc0010000\<rparr>, ram = words_ram sample_words\<rparr>"

definition sample_links :: heap where
  "sample_links = (\<lambda>_. \<lparr>prev_ptr = 0, next_ptr = 0\<rparr>)(0xc0004040 := \<lparr>prev_ptr = 0, next_ptr = 0xc0005008\<rparr>,
     0xc0005008 := \<lparr>prev_ptr = 0xc0004040, next_ptr = 0xc0004048\<rparr>, 0xc0004048 := \<lparr>prev_ptr = 0xc0005008, next_ptr = 0\<rparr>)"

definition sample_process :: process where
  "sample_process = \<lparr>links = sample_links, kmem = sample_kmem, store = sample_fs 1000, file_list = 0xc0004040, next_fd = 3, file_num = 1\<rparr>"

definition sample_user :: user where
  "sample_user = \<lparr>tab = sample_process, pdir = 0xc0002000, base_pd = 0xc0001000, ram_pages = 1024, kmap = (\<lambda>_ _. True),
     fs_held = False, console = [], pname = [], lv = 0xc0004f00, scratch_entry = []\<rparr>"

definition sample_tables :: "nat \<Rightarrow> addr option" where
  "sample_tables = [32 \<mapsto> 0xc0003000, 767 \<mapsto> 0xc0006000]"

definition sample_frames :: "nat \<Rightarrow> nat \<Rightarrow> addr option" where
  "sample_frames i j = (if i = 32 \<and> j = 72 then Some 0xc0010000 else if i = 767 \<and> j = 1023 then Some 0xc0011000 else None)"

lemma sample_load32: "a mod 4 = 0 \<Longrightarrow> load32 (words_ram sample_words) a = (case map_of sample_words a of None \<Rightarrow> 0 | Some w \<Rightarrow> w)"
  by (rule load32_words_ram) (simp_all add: sample_words_def)

lemma sample_kmem_bits: "bitmap_bits \<lparr>bit_cnt = 7, bits = [63]\<rparr> = [True, True, True, True, True, True, False]"
  "bitmap_bits \<lparr>bit_cnt = 4, bits = [3]\<rparr> = [True, True, False, False]"
  by (simp_all add: bitmap_bits_def elem_idx_def ELEM_BITS_def upt_rec bit_numeral_rec bit_0 bit_1_iff)

lemma sample_kmem_ok: "palloc_ok sample_kmem"
  by (simp add: sample_kmem_def palloc_ok_def pool_ok_def wf_bitmap_def ELEM_BITS_def SIZE_WRAP_def)

lemma sample_kmem_allocated:
  "allocated sample_kmem = {0xc0001000, 0xc0002000, 0xc0003000, 0xc0004000, 0xc0005000, 0xc0006000, 0xc0010000, 0xc0011000}"
proof -
  have f: "{i. i < n \<and> xs ! i} = set (filter (\<lambda>i. xs ! i) [0..<n])" for n :: nat and xs by auto
  have k: "{i. i < 7 \<and> [True, True, True, True, True, True, False] ! i} = {0, 1, 2, 3, 4, 5}"
    unfolding f by (simp add: upt_rec) (simp add: numeral_eq_Suc)
  have u: "{i. i < 4 \<and> [True, True, False, False] ! i} = {0, 1}" unfolding f by (simp add: upt_rec)
  show ?thesis by (auto simp: sample_kmem_def allocated_def pool_allocated_def sample_kmem_bits k u)
qed

lemma sample_read32:
  assumes "i < 1024"
  shows "read32 (view_vm sample_user) (0xc0002000 + 4 * i) = (if i = 32 then pde_word 0xc0003000 else if i = 767 then pde_word 0xc0006000 else 0)"
    "read32 (view_vm sample_user) (0xc0003000 + 4 * i) = (if i = 72 then pte_word 0xc0010000 True else 0)"
    "read32 (view_vm sample_user) (0xc0006000 + 4 * i) = (if i = 1023 then pte_word 0xc0011000 True else 0)"
proof -
  have r: "read32 (view_vm sample_user) a = load32 (words_ram sample_words) a" for a
    by (simp add: read32_def view_vm_def sample_user_def sample_process_def sample_kmem_def)
  have m: "(b + 4 * i) mod 4 = 0" if "b mod 4 = 0" for b using that by simp
  show "read32 (view_vm sample_user) (0xc0002000 + 4 * i) = (if i = 32 then pde_word 0xc0003000 else if i = 767 then pde_word 0xc0006000 else 0)"
    "read32 (view_vm sample_user) (0xc0003000 + 4 * i) = (if i = 72 then pte_word 0xc0010000 True else 0)"
    "read32 (view_vm sample_user) (0xc0006000 + 4 * i) = (if i = 1023 then pte_word 0xc0011000 True else 0)"
    unfolding r using assms by (subst sample_load32 [OF m]; simp add: sample_words_def)+
qed

lemma sample_view: "pgs (view_vm sample_user) = sample_kmem" "pdir sample_user = 0xc0002000"
  by (simp_all add: view_vm_def sample_user_def sample_process_def)

lemma sample_space: "user_space sample_user sample_tables sample_frames"
proof -
  have dir: "page_dir (view_vm sample_user) 0xc0002000 sample_tables"
    using sample_kmem_ok sample_kmem_allocated sample_read32(1) sample_read32(1) [of 32] sample_read32(1) [of 767]
    by (auto simp: page_dir_def sample_view sample_tables_def inj_on_def)
  have k: "kernel_page 0xc0010000" "kernel_page 0xc0011000" by (simp_all add: kernel_page_def)
  have "owns (view_vm sample_user) 0xc0002000 sample_tables sample_frames"
    using sample_read32(2,3) sample_read32(2) [of 72] sample_read32(3) [of 1023] pte_word_facts [OF k(1)] pte_word_facts [OF k(2)] sample_kmem_allocated
    by (auto simp: owns_def sample_view sample_tables_def sample_frames_def entry_frame_def split: if_splits)
  with dir show ?thesis by (simp add: user_space_def sample_view)
qed

lemma sample_fcb: "fcb_fd sample_process 0xc0005000 = 2" "process_file sample_process 0xc0005000 = 200"
  by (simp_all add: fcb_fd_def process_file_def sample_process_def sample_kmem_def sample_load32) (simp_all add: sample_words_def)

lemma sample_file_table: "file_table sample_process [0xc0005000]"
proof -
  have "represents sample_links 0xc0004040 [0xc0005008]"
    by (simp add: represents_def wf_chain_def sample_links_def head_of_def tail_of_def)
  then show ?thesis
    using sample_kmem_ok sample_kmem_allocated
    by (simp add: file_table_def sample_fcb page_base_def head_of_def tail_of_def file_elem_def) (simp add: sample_process_def)
qed

lemma sample_state: "user_state sample_user sample_tables sample_frames [0xc0005000]"
  using sample_space sample_file_table
  by (simp add: user_state_def local_list_def sample_frames_def head_of_def tail_of_def file_elem_def)
    (simp add: sample_user_def sample_process_def head_of_def tail_of_def)

lemma sample_descriptor: "descriptors sample_process [0xc0005000] = [2 \<mapsto> 200]"
  by (simp add: descriptors_def sample_fcb)

section \<open>Open files\<close>

text \<open>
  C15: The table of open files implements a map from numbers to files.  \<^verbatim>\<open>add_file\<close> either finds no page and changes
  nothing, or answers a number that was free and is now mapped to the file; \<^verbatim>\<open>get_file\<close> then returns what the
  map says of every open number, and \<^verbatim>\<open>close_file\<close> closes the file and removes the number.  Every operation
  leaves a well-formed table.
\<close>

theorem file_table_refines_map:
  assumes "file_table p fcs" "f < 2 ^ 32" "next_fd p < 2 ^ 31 - 1"
  shows "add_file p f = Some (-1, p) \<or>
    (\<exists>fd p1 fcs1. add_file p f = Some (fd, p1) \<and> file_table p1 fcs1 \<and> 0 \<le> fd \<and> descriptors p fcs fd = None \<and>
       descriptors p1 fcs1 = (descriptors p fcs)(fd \<mapsto> f) \<and>
       (\<forall>lv d g. local_list lv p1 fcs1 \<longrightarrow> descriptors p1 fcs1 d = Some g \<longrightarrow> get_file p1 lv d = Some g \<and>
          (\<forall>s. file_close (store p1) g = Some s \<longrightarrow>
             (\<exists>p2 fcs2. close_file p1 lv d = Some (True, p2) \<and> file_table p2 fcs2 \<and> store p2 = s \<and>
                descriptors p2 fcs2 = (descriptors p1 fcs1)(d := None)))))"
proof (cases "add_file p f = Some (-1, p)")
  case False
  obtain fc p1 where a: "add_file p f = Some (next_fd p, p1)" "file_table p1 (fcs @ [fc])"
    "descriptors p1 (fcs @ [fc]) = (descriptors p fcs)(next_fd p \<mapsto> f)"
    using add_file_cases [OF assms] False by blast
  moreover have "0 \<le> next_fd p" "descriptors p fcs (next_fd p) = None"
    using assms(1) by (auto simp: file_table_def descriptors_None)
  moreover have "get_file p1 lv d = Some g" if "local_list lv p1 (fcs @ [fc])" "descriptors p1 (fcs @ [fc]) d = Some g" for lv d g
    by (rule get_file_open [OF a(2) that])
  moreover have "\<exists>p2 fcs2. close_file p1 lv d = Some (True, p2) \<and> file_table p2 fcs2 \<and> store p2 = s \<and>
      descriptors p2 fcs2 = (descriptors p1 (fcs @ [fc]))(d := None)"
    if "local_list lv p1 (fcs @ [fc])" "descriptors p1 (fcs @ [fc]) d = Some g" "file_close (store p1) g = Some s" for lv d g s
    using close_file_open [OF a(2) that] by blast
  ultimately show ?thesis by blast
qed simp

lemma sample_kmem_not_full: "\<not> pool_full sample_kmem 0 1"
proof -
  have "group_at [True, True, True, True, True, True, False] 6 1 False" by (simp add: group_at_def)
  then show ?thesis by (auto simp: pool_full_def pool_of_def sample_kmem_def sample_kmem_bits)
qed

theorem file_table_refines_map_witness:
  "\<exists>fd p1 fcs1. add_file sample_process 300 = Some (fd, p1) \<and> file_table p1 fcs1 \<and> fd \<noteq> 2 \<and>
     descriptors p1 fcs1 = [2 \<mapsto> 200, fd \<mapsto> 300] \<and> (\<forall>lv. local_list lv p1 fcs1 \<longrightarrow> get_file p1 lv fd = Some 300)"
proof -
  have n: "next_fd sample_process < 2 ^ 31 - 1" "(300 :: addr) < 2 ^ 32" by (simp_all add: sample_process_def)
  obtain a g where "palloc_get_multiple sample_kmem 0 1 = Some (a, g)" "a \<noteq> NULL"
    by (rule palloc_get_found [OF sample_kmem_ok _ sample_kmem_not_full]) auto
  then have "add_file sample_process 300 \<noteq> Some (-1, sample_process)"
    by (auto simp: add_file_def palloc_get_page_def sample_process_def set_fcb_file_def set_fcb_fd_def bind_eq_Some_conv Let_def)
  with file_table_refines_map [OF sample_file_table n(2,1)] obtain fd p1 fcs1 where
    "add_file sample_process 300 = Some (fd, p1)" "file_table p1 fcs1" "descriptors sample_process [0xc0005000] fd = None"
    "descriptors p1 fcs1 = (descriptors sample_process [0xc0005000])(fd \<mapsto> 300)"
    "\<forall>lv d g. local_list lv p1 fcs1 \<longrightarrow> descriptors p1 fcs1 d = Some g \<longrightarrow> get_file p1 lv d = Some g" by blast
  then show ?thesis by (auto simp: sample_descriptor split: if_splits)
qed

text \<open>
  C34: The end of a process returns all that its table holds, unless it holds the file system's lock: if the process
  does not hold \<^verbatim>\<open>filesys_lock\<close> and the files of the table can be closed one after the other, the loop of
  \<^verbatim>\<open>thread_exit\<close> ends, has closed exactly these files in order, has returned the pages of the control blocks and
  no other, and leaves an empty table, although it removes every element twice; if the process holds the lock, as after
  a page fault inside \<^verbatim>\<open>read\<close> or \<^verbatim>\<open>write\<close>, and has an open file, the loop halts the kernel.
\<close>

theorem exit_closes_open_files:
  assumes "file_table p fcs" "close_all (store p) (map (process_file p) fcs) = Some s"
  shows "(\<exists>p'. exit_files False p = Some p' \<and> file_table p' [] \<and> store p' = s \<and> allocated (kmem p') = allocated (kmem p) - set fcs) \<and>
    (fcs \<noteq> [] \<longrightarrow> exit_files True p = None)"
proof
  show "\<exists>p'. exit_files False p = Some p' \<and> file_table p' [] \<and> store p' = s \<and> allocated (kmem p') = allocated (kmem p) - set fcs"
    by (rule exit_files_ok [OF assms])
  show "fcs \<noteq> [] \<longrightarrow> exit_files True p = None"
    using assms(1) by (simp add: exit_files_held file_table_def)
qed

theorem exit_closes_open_files_witness:
  "\<exists>p' s. file_close (sample_fs 1000) 200 = Some s \<and> exit_files False sample_process = Some p' \<and> store p' = s \<and> 0xc0005000 \<notin> allocated (kmem p') \<and>
     exit_files True sample_process = None"
proof -
  obtain s where s: "file_close (sample_fs 1000) 200 = Some s"
    by (simp add: file_close_def file_allow_write_def inode_close_def sample_fs_def sample_inode_def)
  then have "close_all (store sample_process) (map (process_file sample_process) [0xc0005000]) = Some s"
    by (simp add: sample_fcb) (simp add: sample_process_def)
  with s exit_closes_open_files [OF sample_file_table this] show ?thesis by auto
qed

section \<open>System calls\<close>

lemma sample_umap:
  "0x08048000 \<le> a \<Longrightarrow> a < 0x08049000 \<Longrightarrow> umap sample_tables sample_frames a = Some (0xc0010000 + (a - 0x08048000))"
  "0xbffff000 \<le> a \<Longrightarrow> a < 0xc0000000 \<Longrightarrow> umap sample_tables sample_frames a = Some (0xc0011000 + (a - 0xbffff000))"
proof -
  assume "0x08048000 \<le> a" "a < 0x08049000"
  then have "a div 4194304 = 32" "a div 4096 = 32840" by (auto intro: div_nat_eqI)
  moreover from this have "a mod 4096 = a - 0x08048000" by (simp add: modulo_nat_def)
  ultimately show "umap sample_tables sample_frames a = Some (0xc0010000 + (a - 0x08048000))"
    by (simp add: umap_def pd_no_eq pt_no_eq sample_tables_def sample_frames_def)
next
  assume "0xbffff000 \<le> a" "a < 0xc0000000"
  then have "a div 4194304 = 767" "a div 4096 = 786431" by (auto intro: div_nat_eqI)
  moreover from this have "a mod 4096 = a - 0xbffff000" by (simp add: modulo_nat_def)
  ultimately show "umap sample_tables sample_frames a = Some (0xc0011000 + (a - 0xbffff000))"
    by (simp add: umap_def pd_no_eq pt_no_eq sample_tables_def sample_frames_def)
qed

lemma sample_writable:
  assumes "0x08048000 \<le> a \<and> a < 0x08049000 \<or> 0xbffff000 \<le> a \<and> a < 0xc0000000"
  shows "user_ok sample_tables sample_frames a \<and> writable sample_user sample_tables a"
proof -
  have k: "kernel_page 0xc0010000" "kernel_page 0xc0011000" by (simp_all add: kernel_page_def)
  have "a div 4194304 = 32 \<and> a div 4096 mod 1024 = 72 \<or> a div 4194304 = 767 \<and> a div 4096 mod 1024 = 1023"
  proof (cases "a < 0x08049000")
    case True
    with assms have "a div 4194304 = 32" "a div 4096 = 32840" by (auto intro: div_nat_eqI)
    then show ?thesis by simp
  next
    case False
    with assms have "a div 4194304 = 767" "a div 4096 = 786431" by (auto intro: div_nat_eqI)
    then show ?thesis by simp
  qed
  then have "pte (view_vm sample_user) sample_tables a \<in> {pte_word 0xc0010000 True, pte_word 0xc0011000 True}"
  proof
    assume "a div 4194304 = 32 \<and> a div 4096 mod 1024 = 72"
    then have "pte (view_vm sample_user) sample_tables a = read32 (view_vm sample_user) (0xc0003000 + 4 * 72)"
      by (simp add: pte_def slot_def pd_no_eq pt_no_eq sample_tables_def)
    then show ?thesis using sample_read32(2) [of 72] by simp
  next
    assume "a div 4194304 = 767 \<and> a div 4096 mod 1024 = 1023"
    then have "pte (view_vm sample_user) sample_tables a = read32 (view_vm sample_user) (0xc0006000 + 4 * 1023)"
      by (simp add: pte_def slot_def pd_no_eq pt_no_eq sample_tables_def)
    then show ?thesis using sample_read32(3) [of 1023] by simp
  qed
  then have "writable sample_user sample_tables a"
    using pte_word_facts(4) [OF k(1), of True] pte_word_facts(4) [OF k(2), of True] unfolding writable_def by fastforce
  then show ?thesis using assms sample_umap [of a] by (auto simp: user_ok_def PTR_BOTTOM_def)
qed

lemma sample_uword:
  assumes "0x08048000 \<le> a" "a + 4 \<le> 0x08049000"
  shows "uword sample_user sample_tables sample_frames a = load32 (words_ram sample_words) (0xc0010000 + (a - 0x08048000))"
proof -
  have "kram sample_user = words_ram sample_words" by (simp add: kram_def sample_user_def sample_process_def sample_kmem_def)
  moreover have "the (umap sample_tables sample_frames (a + j)) = 0xc0010000 + (a - 0x08048000) + j" if "j < 4" for j
    using assms that sample_umap(1) [of "a + j"] by simp
  then have "map (\<lambda>j. words_ram sample_words (the (umap sample_tables sample_frames (a + j)))) [0..<4] =
      load_bytes (words_ram sample_words) (0xc0010000 + (a - 0x08048000)) 4"
    unfolding load_bytes_def by (intro map_upt_cong) simp
  ultimately show ?thesis by (simp only: uword_def load32_def)
qed

text \<open>
  C14: Whatever stack pointer a process passes, decoding a system call returns: it ends the process with status -1 or
  answers a call, and changes nothing.  It answers a call exactly when the words of the call, its number
  first, lie at the stack pointer in mapped user memory (and the name of a program to execute is mapped too).
\<close>

theorem decode_exact:
  assumes "user_space u T F"
  shows "(decode u esp = Some (Exit (-1) u) \<or> (\<exists>c. decode u esp = Some (Return c u))) \<and>
    (\<forall>c. call_ok T F c \<longrightarrow> (decode u esp = Some (Return c u) \<longleftrightarrow>
       args_ok T F esp (length (encode c)) \<and> words_at u esp (encode c)))"
  using decode_total [OF assms] decode_Return_iff [OF assms] by blast

theorem decode_exact_witness:
  "decode sample_user 0x08048000 = Some (Return (SYS_READ 2 0x08048100 4) sample_user)"
proof -
  let ?c = "SYS_READ 2 0x08048100 4"
  have ok: "args_ok sample_tables sample_frames 0x08048000 (length (encode ?c))"
    using sample_writable by (auto simp: args_ok_def)
  have "encode ?c = map (\<lambda>i. uword sample_user sample_tables sample_frames (0x08048000 + 4 * i)) [0..<length (encode ?c)]"
    by (simp add: sample_uword sample_load32) (simp add: sample_words_def)
  then have "words_at sample_user 0x08048000 (encode ?c)" using words_at_iff [OF sample_space ok] by blast
  moreover have "call_ok sample_tables sample_frames ?c" by (simp add: int_arg_def)
  ultimately show ?thesis using decode_exact [OF sample_space, of "0x08048000"] ok by blast
qed

text \<open>
  C13: When memory is available, the \<^verbatim>\<open>read\<close> call on an open file delivers the content of the file: into a buffer that is mapped and writable it
  puts as many bytes from the position on as were asked for and the file has, answers their number, moves
  the position by it, and changes no other byte of user memory nor the table of open files; the lock of
  the file system is free again.
\<close>

theorem read_call_delivers_content:
  assumes "user_state u T F fcs" "fd \<noteq> 1" "descriptors (tab u) fcs fd = Some f" "f \<noteq> NULL"
    "source n (store (tab u)) f c q" "len < 2 ^ 31"
    "\<forall>j<4. user_ok T F (buf + j)" "\<forall>j<len. user_ok T F (buf + j) \<and> writable u T (buf + j)"
  shows "\<exists>u'. sys_read u fd buf len = Some (Return (int (min len (length c - q))) u') \<and>
    (\<forall>a<PHYS_BASE. user_mem u' T F a = (if buf \<le> a \<and> a < buf + min len (length c - q) then Some (c ! (q + (a - buf))) else user_mem u T F a)) \<and>
    user_state u' T F fcs \<and> descriptors (tab u') fcs = descriptors (tab u) fcs \<and>
    source n (store (tab u')) f c (q + min len (length c - q))"
  by (rule sys_read_open [OF assms])

lemma sample_source: "source 8 (sample_fs 1000) 200 (replicate 1000 0) 0"
  using blank_disk(2) sample_mapped [of 1000] by (simp add: source_def sample_file_bytes)

theorem read_call_delivers_content_witness:
  "user_mem sample_user sample_tables sample_frames 0x08048000 = Some 8 \<and>
   (\<exists>u'. sys_read sample_user 2 0x08048000 16 = Some (Return 16 u') \<and> user_mem u' sample_tables sample_frames 0x08048000 = Some 0)"
proof -
  have d: "descriptors (tab sample_user) [0xc0005000] 2 = Some 200" "store (tab sample_user) = sample_fs 1000"
    by (simp_all add: sample_user_def sample_descriptor) (simp add: sample_process_def)
  have b: "\<forall>j<4. user_ok sample_tables sample_frames (0x08048000 + j)"
    "\<forall>j<16. user_ok sample_tables sample_frames (0x08048000 + j) \<and> writable sample_user sample_tables (0x08048000 + j)"
    using sample_writable by auto
  have "words_ram sample_words 0xc0010000 = 8"
    by (simp add: sample_words_def store32_def store_bytes_def) (simp add: le32_def)
  then have "user_mem sample_user sample_tables sample_frames 0x08048000 = Some 8"
    using sample_umap(1) [of "0x08048000"] by (simp add: user_mem_def kram_def sample_user_def sample_process_def sample_kmem_def)
  moreover have "(2 :: int) \<noteq> 1" "(200 :: addr) \<noteq> NULL" "(16 :: nat) < 2 ^ 31" by simp_all
  note r = read_call_delivers_content [OF sample_state this(1) d(1) this(2) sample_source [folded d(2)] this(3) b]
  ultimately show ?thesis using r by auto
qed

text \<open>
  C39: The \<^verbatim>\<open>read\<close> call checks only the first four bytes of the buffer.  A buffer that begins at the end of user space and
  continues behind it is accepted, and the content of the file overwrites memory of the kernel.
\<close>

theorem read_call_overwrites_kernel:
  assumes "user_state u T F fcs" "fd \<noteq> 1" "descriptors (tab u) fcs fd = Some f" "f \<noteq> NULL"
    "source n (store (tab u)) f c q" "len < 2 ^ 31" "q + len \<le> length c"
    "\<forall>j<4. user_ok T F (buf + j)" "\<forall>a. buf \<le> a \<and> a < PHYS_BASE \<longrightarrow> user_ok T F a \<and> writable u T a"
    "PHYS_BASE < buf + len" "buf + len < 2 ^ 32" "\<forall>a. PHYS_BASE \<le> a \<and> a < buf + len \<longrightarrow> kmap u a True"
  shows "\<exists>u'. sys_read u fd buf len = Some (Return (int len) u') \<and>
    (\<forall>a. PHYS_BASE \<le> a \<and> a < buf + len \<longrightarrow> kram u' a = c ! (q + (a - buf)))"
  by (rule sys_read_into_kernel [OF assms])

theorem read_call_overwrites_kernel_witness:
  "\<exists>u'. sys_read sample_user 2 (PHYS_BASE - 4) 100 = Some (Return 100 u') \<and> kram u' (PHYS_BASE + 10) = 0"
proof -
  have d: "descriptors (tab sample_user) [0xc0005000] 2 = Some 200" "store (tab sample_user) = sample_fs 1000"
    by (simp_all add: sample_user_def sample_descriptor) (simp add: sample_process_def)
  have b: "\<forall>j<4. user_ok sample_tables sample_frames (PHYS_BASE - 4 + j)"
    "\<forall>a. PHYS_BASE - 4 \<le> a \<and> a < PHYS_BASE \<longrightarrow> user_ok sample_tables sample_frames a \<and> writable sample_user sample_tables a"
    using sample_writable by auto
  have k: "\<forall>a. PHYS_BASE \<le> a \<and> a < PHYS_BASE - 4 + 100 \<longrightarrow> kmap sample_user a True" by (simp add: sample_user_def)
  have n: "(2 :: int) \<noteq> 1" "(200 :: addr) \<noteq> NULL" "(100 :: nat) < 2 ^ 31" "0 + 100 \<le> length (replicate 1000 (0 :: byte))"
    "PHYS_BASE < PHYS_BASE - 4 + 100" "PHYS_BASE - 4 + 100 < 2 ^ 32" by simp_all
  from read_call_overwrites_kernel [OF sample_state n(1) d(1) n(2) sample_source [folded d(2)] n(3,4) b n(5,6) k]
  show ?thesis by auto
qed

end
