(* ===== verification/Process_Wait.thy ===== *)
theory Process_Wait
  imports Main
begin

text \<open>
  Starting, ending and waiting for processes: \<^verbatim>\<open>process_execute\<close>, \<^verbatim>\<open>start_process\<close>, \<^verbatim>\<open>process_wait\<close> and
  \<^verbatim>\<open>process_exit\<close> of \<^verbatim>\<open>userprog/process.c\<close>, \<^verbatim>\<open>exit\<close> of \<^verbatim>\<open>userprog/syscall.c\<close>, and \<^verbatim>\<open>thread_exit\<close> and
  \<^verbatim>\<open>thread_find\<close> of \<^verbatim>\<open>threads/thread.c\<close>.

  Processes run interleaved.  Each function is cut where it reads or writes the shared fields of a record
  (\<^verbatim>\<open>exited\<close>, \<^verbatim>\<open>waited\<close>, \<^verbatim>\<open>exit_status\<close>, the semaphore) or the fields of the parent: \<open>point\<close> says where in the
  kernel a process is, and each part is a function that gives the next state, or \<open>None\<close> when the part
  cannot be executed, because the process is elsewhere or a semaphore is 0.  A walk over the list of
  children or of all threads is one part, although the code can be interrupted in it: the parent finds its
  record in one part, and a child that calls \<^verbatim>\<open>exit\<close> finds its parent and its record in one part; what a
  child would meet if its parent changed the list or ended in the middle of that walk is not modelled.
  \<open>crashed\<close> is set when the code follows a null or an uninitialised pointer or damages a list of the
  kernel.  The field \<open>exit_arg\<close> is the argument of \<^verbatim>\<open>exit\<close>, a local variable there, and stays when the
  process has ended; \<open>waits\<close> and \<open>execs\<close> record what \<^verbatim>\<open>process_wait\<close> and \<^verbatim>\<open>process_execute\<close> have answered; the
  code has no such fields.
\<close>

section \<open>State\<close>

record child_process =
  child_tid :: int
  exited :: bool
  waited :: bool
  wait_sema :: nat
  exit_status :: int

datatype point =
    User                \<comment> \<open>outside of these functions\<close>
  | Exec_Down int       \<comment> \<open>\<^verbatim>\<open>process_execute\<close> before \<^verbatim>\<open>sema_down (&cur->exec_sema)\<close>, with the value of \<^verbatim>\<open>tid\<close>\<close>
  | Exec_Record int     \<comment> \<open>\<^verbatim>\<open>process_execute\<close> after it\<close>
  | Loading             \<comment> \<open>\<^verbatim>\<open>start_process\<close> before the end of \<^verbatim>\<open>load\<close>\<close>
  | Load_Up bool        \<comment> \<open>\<^verbatim>\<open>start_process\<close> before \<^verbatim>\<open>sema_up\<close>, with \<^verbatim>\<open>success\<close>\<close>
  | Wait_Exited int     \<comment> \<open>\<^verbatim>\<open>process_wait\<close> before it tests \<^verbatim>\<open>child->exited\<close>\<close>
  | Wait_Status int     \<comment> \<open>\<^verbatim>\<open>process_wait\<close> before it returns \<^verbatim>\<open>child->exit_status\<close>\<close>
  | Wait_Mark int       \<comment> \<open>\<^verbatim>\<open>process_wait\<close> before \<^verbatim>\<open>child->waited = true\<close>\<close>
  | Wait_Down int       \<comment> \<open>\<^verbatim>\<open>process_wait\<close> before \<^verbatim>\<open>sema_down (&child->sema)\<close>\<close>
  | Exit_Exited         \<comment> \<open>\<^verbatim>\<open>exit\<close> before \<^verbatim>\<open>child->exited = true\<close>\<close>
  | Exit_Status         \<comment> \<open>\<^verbatim>\<open>exit\<close> before \<^verbatim>\<open>child->exit_status = status\<close>\<close>
  | Leaving             \<comment> \<open>before \<^verbatim>\<open>thread_exit\<close>\<close>
  | Left                \<comment> \<open>\<^verbatim>\<open>thread_exit\<close> after \<^verbatim>\<open>process_exit\<close>\<close>
  | Notify              \<comment> \<open>\<^verbatim>\<open>thread_exit\<close> before it looks for its parent, no longer in \<^verbatim>\<open>all_list\<close>\<close>
  | Dead

record proc =
  parent_id :: int
  at :: point
  children :: "child_process list"
  child_status :: int
  exec_sema :: nat
  exit_arg :: "int option"

record processes =
  procs :: "int \<Rightarrow> proc option"
  next_pid :: int
  crashed :: bool
  waits :: "(int \<times> int \<times> int) list"
  execs :: "(int \<times> int) list"

definition upd :: "processes \<Rightarrow> int \<Rightarrow> (proc \<Rightarrow> proc) \<Rightarrow> processes" where
  "upd s t f = s\<lparr>procs := (procs s)(t := map_option f (procs s t))\<rparr>"

definition is_at :: "processes \<Rightarrow> int \<Rightarrow> point \<Rightarrow> bool" where
  "is_at s t pt \<longleftrightarrow> (case procs s t of None \<Rightarrow> False | Some q \<Rightarrow> at q = pt)"

definition go :: "processes \<Rightarrow> int \<Rightarrow> point \<Rightarrow> processes" where
  "go s t pt = upd s t (\<lambda>q. q\<lparr>at := pt\<rparr>)"

definition thread_find :: "processes \<Rightarrow> int \<Rightarrow> proc option" where
  "thread_find s t = (case procs s t of None \<Rightarrow> None
     | Some q \<Rightarrow> if at q = Notify \<or> at q = Dead then None else Some q)"

text \<open>The first record for a child, and its update in place.\<close>

definition find_child :: "child_process list \<Rightarrow> int \<Rightarrow> child_process option" where
  "find_child cs t = find (\<lambda>r. child_tid r = t) cs"

fun upd_child :: "int \<Rightarrow> (child_process \<Rightarrow> child_process) \<Rightarrow> child_process list \<Rightarrow> child_process list" where
  "upd_child t f [] = []"
| "upd_child t f (r # rs) = (if child_tid r = t then f r # rs else r # upd_child t f rs)"

fun drop_child :: "int \<Rightarrow> child_process list \<Rightarrow> child_process list" where
  "drop_child t [] = []"
| "drop_child t (r # rs) = (if child_tid r = t then rs else r # drop_child t rs)"

section \<open>Starting a process\<close>

text \<open>\<^verbatim>\<open>process_execute\<close> without a page for its copies of the file name, or with a name of blanks only.\<close>

definition exec_fail :: "processes \<Rightarrow> int \<Rightarrow> processes option" where
  "exec_fail s p = (if is_at s p User then Some (s\<lparr>execs := (p, -1) # execs s\<rparr>) else None)"

text \<open>\<^verbatim>\<open>process_execute\<close> up to \<^verbatim>\<open>sema_down\<close>; interrupts are off from \<^verbatim>\<open>thread_create\<close> on.\<close>

definition exec_create :: "processes \<Rightarrow> int \<Rightarrow> bool \<Rightarrow> processes option" where
  "exec_create s p created =
     (if \<not> is_at s p User then None
      else let s = upd s p (\<lambda>q. q\<lparr>child_status := 0\<rparr>) in
        if created then
          let c = next_pid s;
              s = s\<lparr>next_pid := c + 1, procs := (procs s)(c \<mapsto> \<lparr>parent_id = p, at = Loading, children = [],
                     child_status = 0, exec_sema = 0, exit_arg = None\<rparr>)\<rparr>
          in Some (go s p (Exec_Down c))
        else Some (go s p (Exec_Down (-1))))"

definition exec_down :: "processes \<Rightarrow> int \<Rightarrow> processes option" where
  "exec_down s p = (case procs s p of None \<Rightarrow> None | Some q \<Rightarrow>
     (case at q of Exec_Down c \<Rightarrow>
        if exec_sema q > 0 then Some (go (upd s p (\<lambda>q. q\<lparr>exec_sema := exec_sema q - 1\<rparr>)) p (Exec_Record c)) else None
      | _ \<Rightarrow> None))"

definition exec_record :: "processes \<Rightarrow> int \<Rightarrow> bool \<Rightarrow> processes option" where
  "exec_record s p mem = (case procs s p of None \<Rightarrow> None | Some q \<Rightarrow>
     (case at q of Exec_Record tid \<Rightarrow>
        let tid = (if child_status q = -1 then -1 else tid);
            r = \<lparr>child_tid = tid, exited = False, waited = False, wait_sema = 0, exit_status = 0\<rparr>;
            (ret, s) = (if tid \<noteq> -1 then if \<not> mem then (-1, s)
                else (tid, upd s p (\<lambda>q. q\<lparr>children := children q @ [r]\<rparr>)) else (tid, s))
        in Some (go (s\<lparr>execs := (p, ret) # execs s\<rparr>) p User)
      | _ \<Rightarrow> None))"

text \<open>\<^verbatim>\<open>start_process\<close> after \<^verbatim>\<open>load\<close>.\<close>

definition load_done :: "processes \<Rightarrow> int \<Rightarrow> bool \<Rightarrow> processes option" where
  "load_done s c success = (case procs s c of None \<Rightarrow> None | Some q \<Rightarrow>
     if at q \<noteq> Loading then None
     else let s = (case thread_find s (parent_id q) of None \<Rightarrow> s
            | Some _ \<Rightarrow> upd s (parent_id q) (\<lambda>q. q\<lparr>child_status := if success then 1 else -1\<rparr>))
       in Some (go s c (Load_Up success)))"

definition load_up :: "processes \<Rightarrow> int \<Rightarrow> processes option" where
  "load_up s c = (case procs s c of None \<Rightarrow> None | Some q \<Rightarrow>
     (case at q of Load_Up success \<Rightarrow>
        (case thread_find s (parent_id q) of None \<Rightarrow> Some (s\<lparr>crashed := True\<rparr>)
         | Some _ \<Rightarrow> Some (go (upd s (parent_id q) (\<lambda>q. q\<lparr>exec_sema := exec_sema q + 1\<rparr>)) c (if success then User else Leaving)))
      | _ \<Rightarrow> None))"

section \<open>Ending a process\<close>

text \<open>
  \<^verbatim>\<open>exit\<close>, called by the process itself or, while it is loading, by the page fault handler: the search for the
  parent and for the record, then the two assignments.  The lock around them belongs to the child and
  keeps nobody out.  A record stays in memory when the parent has taken it off its list, or has ended, so
  that a late assignment is harmless.
\<close>

definition exit_call :: "processes \<Rightarrow> int \<Rightarrow> int \<Rightarrow> processes option" where
  "exit_call s c status = (case procs s c of None \<Rightarrow> None | Some q \<Rightarrow>
     if at q = User \<or> at q = Loading \<and> status = -1 then
       let found = (case thread_find s (parent_id q) of None \<Rightarrow> False | Some p \<Rightarrow> find_child (children p) c \<noteq> None)
       in Some (go (upd s c (\<lambda>q. q\<lparr>exit_arg := Some status\<rparr>)) c (if found then Exit_Exited else Leaving))
     else None)"

definition exit_exited :: "processes \<Rightarrow> int \<Rightarrow> processes option" where
  "exit_exited s c = (case procs s c of None \<Rightarrow> None | Some q \<Rightarrow>
     if at q \<noteq> Exit_Exited then None
     else Some (go (upd s (parent_id q) (\<lambda>p. p\<lparr>children := upd_child c (\<lambda>r. r\<lparr>exited := True\<rparr>) (children p)\<rparr>)) c Exit_Status))"

definition exit_store :: "processes \<Rightarrow> int \<Rightarrow> processes option" where
  "exit_store s c = (case procs s c of None \<Rightarrow> None | Some q \<Rightarrow>
     if at q \<noteq> Exit_Status then None
     else (case exit_arg q of None \<Rightarrow> None | Some status \<Rightarrow>
       Some (go (upd s (parent_id q) (\<lambda>p. p\<lparr>children := upd_child c (\<lambda>r. r\<lparr>exit_status := status\<rparr>) (children p)\<rparr>)) c Leaving)))"

text \<open>\<^verbatim>\<open>kill\<close> of \<^verbatim>\<open>exception.c\<close> calls \<^verbatim>\<open>thread_exit\<close> without \<^verbatim>\<open>exit\<close>.\<close>

definition kill :: "processes \<Rightarrow> int \<Rightarrow> processes option" where
  "kill s c = (if is_at s c User then Some (go s c Leaving) else None)"

definition leave :: "processes \<Rightarrow> int \<Rightarrow> processes option" where
  "leave s c = (if is_at s c Leaving then Some (go (upd s c (\<lambda>q. q\<lparr>children := []\<rparr>)) c Left) else None)"

definition unlink :: "processes \<Rightarrow> int \<Rightarrow> processes option" where
  "unlink s c = (if is_at s c Left then Some (go s c Notify) else None)"

definition notify :: "processes \<Rightarrow> int \<Rightarrow> processes option" where
  "notify s c = (case procs s c of None \<Rightarrow> None | Some q \<Rightarrow>
     if at q \<noteq> Notify then None
     else (case thread_find s (parent_id q) of None \<Rightarrow> Some (go s c Dead)
       | Some p \<Rightarrow>
         if children p = [] then Some (s\<lparr>crashed := True\<rparr>)
         else Some (go (upd s (parent_id q) (\<lambda>p. p\<lparr>children :=
                upd_child c (\<lambda>r. if waited r then r\<lparr>wait_sema := wait_sema r + 1\<rparr> else r) (children p)\<rparr>)) c Dead)))"

section \<open>Waiting\<close>

definition answer :: "processes \<Rightarrow> int \<Rightarrow> int \<Rightarrow> int \<Rightarrow> processes" where
  "answer s p t status = go (s\<lparr>waits := (p, t, status) # waits s\<rparr>) p User"

text \<open>
  The loop of \<^verbatim>\<open>process_wait\<close> starts at \<^verbatim>\<open>list_head\<close>, so it takes the head of the list for the first record.
  By the layout of \<^verbatim>\<open>struct thread\<close> the \<^verbatim>\<open>tid\<close> read there is the last word of \<^verbatim>\<open>exec_sema\<close>, a null pointer,
  \<^verbatim>\<open>exited\<close> and \<^verbatim>\<open>waited\<close> are two bytes of a pointer to the last element of the list, the value of the semaphore is
  a null pointer, the list in it is \<^verbatim>\<open>file_list\<close>, and \<^verbatim>\<open>exit_status\<close> is \<^verbatim>\<open>fd\<close>.  The three values that are not 0
  are arguments.
\<close>

definition head_record :: "bool \<Rightarrow> bool \<Rightarrow> int \<Rightarrow> child_process" where
  "head_record ex wt fd = \<lparr>child_tid = 0, exited = ex, waited = wt, wait_sema = 0, exit_status = fd\<rparr>"

text \<open>
  The search and the test of \<^verbatim>\<open>waited\<close>, which only the parent writes.  For the head, which nobody else
  writes, also the rest: when it does not look exited, \<^verbatim>\<open>process_wait\<close> overwrites a byte of the list and
  enters the thread in \<^verbatim>\<open>file_list\<close>.
\<close>

definition wait_check :: "processes \<Rightarrow> int \<Rightarrow> int \<Rightarrow> bool \<Rightarrow> bool \<Rightarrow> int \<Rightarrow> processes option" where
  "wait_check s p t ex wt fd = (case procs s p of None \<Rightarrow> None | Some q \<Rightarrow>
     if at q \<noteq> User then None
     else (case find_child (head_record ex wt fd # children q) t of None \<Rightarrow> Some (answer s p t (-1))
       | Some r \<Rightarrow>
         if t = -1 \<or> waited r then Some (answer s p t (-1))
         else if t = 0 then if exited r then Some (answer s p t (exit_status r)) else Some (s\<lparr>crashed := True\<rparr>)
         else Some (go s p (Wait_Exited t))))"

definition wait_exited :: "processes \<Rightarrow> int \<Rightarrow> processes option" where
  "wait_exited s p = (case procs s p of None \<Rightarrow> None | Some q \<Rightarrow>
     (case at q of Wait_Exited t \<Rightarrow>
        (case find_child (children q) t of None \<Rightarrow> None
         | Some r \<Rightarrow> Some (go s p (if exited r then Wait_Status t else Wait_Mark t)))
      | _ \<Rightarrow> None))"

definition wait_status :: "processes \<Rightarrow> int \<Rightarrow> processes option" where
  "wait_status s p = (case procs s p of None \<Rightarrow> None | Some q \<Rightarrow>
     (case at q of Wait_Status t \<Rightarrow>
        (case find_child (children q) t of None \<Rightarrow> None
         | Some r \<Rightarrow> Some (answer s p t (exit_status r)))
      | _ \<Rightarrow> None))"

definition wait_mark :: "processes \<Rightarrow> int \<Rightarrow> processes option" where
  "wait_mark s p = (case procs s p of None \<Rightarrow> None | Some q \<Rightarrow>
     (case at q of Wait_Mark t \<Rightarrow>
        Some (go (upd s p (\<lambda>q. q\<lparr>children := upd_child t (\<lambda>r. r\<lparr>waited := True\<rparr>) (children q)\<rparr>)) p (Wait_Down t))
      | _ \<Rightarrow> None))"

definition wait_down :: "processes \<Rightarrow> int \<Rightarrow> processes option" where
  "wait_down s p = (case procs s p of None \<Rightarrow> None | Some q \<Rightarrow>
     (case at q of Wait_Down t \<Rightarrow>
        (case find_child (children q) t of None \<Rightarrow> None
         | Some r \<Rightarrow> if wait_sema r > 0 then
             Some (answer (upd s p (\<lambda>q. q\<lparr>children := drop_child t (children q)\<rparr>)) p t (exit_status r))
           else None)
      | _ \<Rightarrow> None))"

section \<open>The step relation\<close>

definition initial :: processes where
  "initial = \<lparr>procs = [1 \<mapsto> \<lparr>parent_id = 0, at = User, children = [], child_status = 0, exec_sema = 0, exit_arg = None\<rparr>],
     next_pid = 2, crashed = False, waits = [], execs = []\<rparr>"

inductive pstep :: "processes \<Rightarrow> processes \<Rightarrow> bool" where
  exec_fail: "\<not> crashed s \<Longrightarrow> exec_fail s p = Some s' \<Longrightarrow> pstep s s'"
| create: "\<not> crashed s \<Longrightarrow> exec_create s p ok = Some s' \<Longrightarrow> pstep s s'"
| exec_down: "\<not> crashed s \<Longrightarrow> exec_down s p = Some s' \<Longrightarrow> pstep s s'"
| exec_record: "\<not> crashed s \<Longrightarrow> exec_record s p mem = Some s' \<Longrightarrow> pstep s s'"
| load_done: "\<not> crashed s \<Longrightarrow> load_done s c ok = Some s' \<Longrightarrow> pstep s s'"
| load_up: "\<not> crashed s \<Longrightarrow> load_up s c = Some s' \<Longrightarrow> pstep s s'"
| exit_call: "\<not> crashed s \<Longrightarrow> exit_call s c status = Some s' \<Longrightarrow> pstep s s'"
| exit_exited: "\<not> crashed s \<Longrightarrow> exit_exited s c = Some s' \<Longrightarrow> pstep s s'"
| exit_store: "\<not> crashed s \<Longrightarrow> exit_store s c = Some s' \<Longrightarrow> pstep s s'"
| kill: "\<not> crashed s \<Longrightarrow> kill s c = Some s' \<Longrightarrow> pstep s s'"
| leave: "\<not> crashed s \<Longrightarrow> leave s c = Some s' \<Longrightarrow> pstep s s'"
| unlink: "\<not> crashed s \<Longrightarrow> unlink s c = Some s' \<Longrightarrow> pstep s s'"
| notify: "\<not> crashed s \<Longrightarrow> notify s c = Some s' \<Longrightarrow> pstep s s'"
| wait_check: "\<not> crashed s \<Longrightarrow> wait_check s p t ex wt fd = Some s' \<Longrightarrow> pstep s s'"
| wait_exited: "\<not> crashed s \<Longrightarrow> wait_exited s p = Some s' \<Longrightarrow> pstep s s'"
| wait_status: "\<not> crashed s \<Longrightarrow> wait_status s p = Some s' \<Longrightarrow> pstep s s'"
| wait_mark: "\<not> crashed s \<Longrightarrow> wait_mark s p = Some s' \<Longrightarrow> pstep s s'"
| wait_down: "\<not> crashed s \<Longrightarrow> wait_down s p = Some s' \<Longrightarrow> pstep s s'"

section \<open>What an answer of wait says\<close>

text \<open>A process that has called \<^verbatim>\<open>exit\<close>, was killed, or could not be loaded: it does not return to its program.\<close>

definition ended :: "proc \<Rightarrow> bool" where
  "ended c \<longleftrightarrow> at c \<in> {Exit_Exited, Exit_Status, Leaving, Left, Notify, Dead}"

definition kid :: "processes \<Rightarrow> int \<Rightarrow> int \<Rightarrow> bool" where
  "kid s p t \<longleftrightarrow> (\<exists>c. procs s t = Some c \<and> parent_id c = p)"

definition ended_kid :: "processes \<Rightarrow> int \<Rightarrow> int \<Rightarrow> bool" where
  "ended_kid s p t \<longleftrightarrow> (\<exists>c. procs s t = Some c \<and> parent_id c = p \<and> ended c)"

definition rec_ok :: "processes \<Rightarrow> int \<Rightarrow> child_process \<Rightarrow> bool" where
  "rec_ok s p r \<longleftrightarrow> (\<exists>c. procs s (child_tid r) = Some c \<and> parent_id c = p \<and>
     (exited r \<longrightarrow> ended c) \<and> (exit_status r \<noteq> 0 \<longrightarrow> ended c \<and> exit_arg c = Some (exit_status r)) \<and> (0 < wait_sema r \<longrightarrow> ended c))"

definition wait_ok :: "processes \<Rightarrow> int \<times> int \<times> int \<Rightarrow> bool" where
  "wait_ok s e \<longleftrightarrow> (case e of (p, t, status) \<Rightarrow> status \<noteq> -1 \<longrightarrow> t \<noteq> 0 \<longrightarrow>
     (\<exists>c. procs s t = Some c \<and> parent_id c = p \<and> ended c \<and> (status = 0 \<or> exit_arg c = Some status)))"

definition exec_of :: "proc \<Rightarrow> int \<Rightarrow> bool" where
  "exec_of q t \<longleftrightarrow> at q = Exec_Down t \<or> at q = Exec_Record t"

definition wait_inv :: "processes \<Rightarrow> bool" where
  "wait_inv s \<longleftrightarrow> (\<forall>t. procs s t \<noteq> None \<longrightarrow> t < next_pid s) \<and>
     (\<forall>p q r. procs s p = Some q \<longrightarrow> r \<in> set (children q) \<longrightarrow> rec_ok s p r) \<and>
     (\<forall>p q t. procs s p = Some q \<longrightarrow> exec_of q t \<longrightarrow> t \<noteq> -1 \<longrightarrow> kid s p t) \<and>
     (\<forall>p q t. procs s p = Some q \<longrightarrow> at q = Wait_Status t \<longrightarrow> ended_kid s p t) \<and> (\<forall>e\<in>set (waits s). wait_ok s e)"

text \<open>The fate of a process: it keeps its parent, and once ended it stays so, with its status.\<close>

definition evolves :: "processes \<Rightarrow> processes \<Rightarrow> bool" where
  "evolves s s' \<longleftrightarrow> (\<forall>t c. procs s t = Some c \<longrightarrow> (\<exists>c'. procs s' t = Some c' \<and> parent_id c' = parent_id c \<and>
     (ended c \<longrightarrow> ended c' \<and> exit_arg c' = exit_arg c)))"

lemma evolves_kid: "evolves s s' \<Longrightarrow> kid s p t \<Longrightarrow> kid s' p t"
  unfolding evolves_def kid_def by metis

lemma evolves_ended_kid: "evolves s s' \<Longrightarrow> ended_kid s p t \<Longrightarrow> ended_kid s' p t"
  unfolding evolves_def ended_kid_def by metis

lemma evolves_rec_ok: "evolves s s' \<Longrightarrow> rec_ok s p r \<Longrightarrow> rec_ok s' p r"
  unfolding evolves_def rec_ok_def by (auto split: if_splits) metis+

lemma evolves_wait_ok: "evolves s s' \<Longrightarrow> wait_ok s e \<Longrightarrow> wait_ok s' e"
  unfolding evolves_def wait_ok_def by (auto split: prod.splits) metis+

lemma wait_inv_step:
  assumes inv: "wait_inv s" and e: "evolves s s'"
    and fresh: "\<And>t. procs s' t \<noteq> None \<Longrightarrow> t < next_pid s'"
    and recs: "\<And>p q r. procs s' p = Some q \<Longrightarrow> r \<in> set (children q) \<Longrightarrow>
        (\<exists>q0. procs s p = Some q0 \<and> r \<in> set (children q0)) \<or> rec_ok s' p r"
    and execs: "\<And>p q t. procs s' p = Some q \<Longrightarrow> exec_of q t \<Longrightarrow> t = -1 \<or> (\<exists>q0. procs s p = Some q0 \<and> exec_of q0 t) \<or> kid s' p t"
    and status: "\<And>p q t. procs s' p = Some q \<Longrightarrow> at q = Wait_Status t \<Longrightarrow> (\<exists>q0. procs s p = Some q0 \<and> at q0 = Wait_Status t) \<or> ended_kid s' p t"
    and waits: "\<And>e. e \<in> set (waits s') \<Longrightarrow> e \<in> set (waits s) \<or> wait_ok s' e"
  shows "wait_inv s'"
  unfolding wait_inv_def
proof (intro conjI allI impI ballI)
  show "procs s' t \<noteq> None \<Longrightarrow> t < next_pid s'" for t by (rule fresh)
  show "rec_ok s' p r" if "procs s' p = Some q" "r \<in> set (children q)" for p q r
    using recs [OF that] inv evolves_rec_ok [OF e] unfolding wait_inv_def by blast
  show "kid s' p t" if "procs s' p = Some q" "exec_of q t" "t \<noteq> -1" for p q t
    using execs [OF that(1,2)] that(3) inv evolves_kid [OF e] unfolding wait_inv_def by blast
  show "ended_kid s' p t" if "procs s' p = Some q" "at q = Wait_Status t" for p q t
    using status [OF that] inv evolves_ended_kid [OF e] unfolding wait_inv_def by blast
  show "wait_ok s' e" if "e \<in> set (waits s')" for e
    using waits [OF that] inv evolves_wait_ok [OF \<open>evolves s s'\<close>] unfolding wait_inv_def by blast
qed

lemmas step_defs = upd_def go_def is_at_def answer_def Let_def

lemma find_child_mem: "find_child cs t = Some r \<Longrightarrow> r \<in> set cs \<and> child_tid r = t"
  by (auto simp: find_child_def find_Some_iff)

lemma set_upd_child: "r \<in> set (upd_child t f cs) \<Longrightarrow> r \<in> set cs \<or> (\<exists>r0\<in>set cs. child_tid r0 = t \<and> r = f r0)"
  by (induction cs) (auto split: if_splits)

lemma drop_child_mem: "r \<in> set (drop_child t cs) \<Longrightarrow> r \<in> set cs"
  by (induction cs) (auto split: if_splits)

lemma initial_inv: "wait_inv initial"
  by (auto simp: wait_inv_def initial_def exec_of_def)

lemma wait_inv_fresh: "wait_inv s \<Longrightarrow> procs s t = Some c \<Longrightarrow> t < next_pid s"
  and wait_inv_rec: "wait_inv s \<Longrightarrow> procs s p = Some q \<Longrightarrow> r \<in> set (children q) \<Longrightarrow> rec_ok s p r"
  and wait_inv_exec: "wait_inv s \<Longrightarrow> procs s p = Some q \<Longrightarrow> exec_of q t \<Longrightarrow> t \<noteq> -1 \<Longrightarrow> kid s p t"
  by (auto simp: wait_inv_def)

lemma wait_inv_status: "wait_inv s \<Longrightarrow> procs s p = Some q \<Longrightarrow> at q = Wait_Status t \<Longrightarrow> ended_kid s p t"
  by (auto simp: wait_inv_def)

lemma exec_fail_inv: "wait_inv s \<Longrightarrow> exec_fail s p = Some s' \<Longrightarrow> wait_inv s'"
  by (rule wait_inv_step [of s], assumption) (auto simp: exec_fail_def evolves_def split: if_splits dest: wait_inv_fresh)

lemma exec_create_inv:
  assumes i: "wait_inv s" and st: "exec_create s p ok = Some s'"
  shows "wait_inv s'"
proof (rule wait_inv_step [OF i])
  note fr = wait_inv_fresh [OF i]
  show "t < next_pid s'" if "procs s' t \<noteq> None" for t
  proof (cases "procs s t")
    case None
    with that st show ?thesis by (auto simp: exec_create_def step_defs split: if_splits option.splits)
  next
    case (Some c)
    with fr [OF Some] st show ?thesis by (auto simp: exec_create_def step_defs split: if_splits)
  qed
qed (use st in \<open>auto simp: exec_create_def step_defs evolves_def ended_def exec_of_def kid_def split: if_splits option.splits
    dest: wait_inv_fresh [OF i]\<close>)

lemma exec_down_inv: "wait_inv s \<Longrightarrow> exec_down s p = Some s' \<Longrightarrow> wait_inv s'"
  by (rule wait_inv_step [of s], assumption)
    (auto simp: exec_down_def step_defs evolves_def ended_def exec_of_def split: if_splits option.splits point.splits
      dest: wait_inv_fresh)

lemma exec_record_inv:
  assumes i: "wait_inv s" and "exec_record s p mem = Some s'"
  shows "wait_inv s'"
proof -
  obtain q tid where q: "procs s p = Some q" "at q = Exec_Record tid"
    using assms(2) by (auto simp: exec_record_def split: option.splits point.splits)
  have k: "tid \<noteq> -1 \<Longrightarrow> kid s p tid" using wait_inv_exec [OF i q(1), of tid] q(2) by (auto simp: exec_of_def)
  have np: "\<not> ended q" using q(2) by (auto simp: ended_def)
  have ev: "evolves s s'" using assms(2) q np by (auto simp: exec_record_def step_defs evolves_def split: if_splits)
  show ?thesis
  proof (rule wait_inv_step [OF i ev])
    fix p1 q1 r assume r: "procs s' p1 = Some q1" "r \<in> set (children q1)"
    show "(\<exists>q0. procs s p1 = Some q0 \<and> r \<in> set (children q0)) \<or> rec_ok s' p1 r"
    proof (cases "\<exists>q0. procs s p1 = Some q0 \<and> r \<in> set (children q0)")
      case False
      then have "p1 = p" "tid \<noteq> -1" "r = \<lparr>child_tid = tid, exited = False, waited = False, wait_sema = 0, exit_status = 0\<rparr>"
        using assms(2) q r by (auto simp: exec_record_def step_defs split: if_splits)
      then show ?thesis using evolves_kid [OF ev k] by (auto simp: rec_ok_def kid_def)
    qed simp
  qed (use assms(2) q in \<open>auto simp: exec_record_def step_defs exec_of_def split: if_splits dest: wait_inv_fresh [OF i]\<close>)
qed

lemma load_done_inv: "wait_inv s \<Longrightarrow> load_done s c ok = Some s' \<Longrightarrow> wait_inv s'"
  by (rule wait_inv_step [of s], assumption)
    (auto simp: load_done_def step_defs evolves_def ended_def exec_of_def split: if_splits option.splits dest: wait_inv_fresh)

lemma load_up_inv: "wait_inv s \<Longrightarrow> load_up s c = Some s' \<Longrightarrow> wait_inv s'"
  by (rule wait_inv_step [of s], assumption)
    (auto simp: load_up_def step_defs evolves_def ended_def exec_of_def split: if_splits option.splits point.splits dest: wait_inv_fresh)

lemma kill_inv: "wait_inv s \<Longrightarrow> kill s c = Some s' \<Longrightarrow> wait_inv s'"
  by (rule wait_inv_step [of s], assumption)
    (auto simp: kill_def step_defs evolves_def ended_def exec_of_def split: if_splits option.splits dest: wait_inv_fresh)

lemma leave_inv: "wait_inv s \<Longrightarrow> leave s c = Some s' \<Longrightarrow> wait_inv s'"
  by (rule wait_inv_step [of s], assumption)
    (auto simp: leave_def step_defs evolves_def ended_def exec_of_def split: if_splits option.splits dest: wait_inv_fresh)

lemma unlink_inv: "wait_inv s \<Longrightarrow> unlink s c = Some s' \<Longrightarrow> wait_inv s'"
  by (rule wait_inv_step [of s], assumption)
    (auto simp: unlink_def step_defs evolves_def ended_def exec_of_def split: if_splits option.splits dest: wait_inv_fresh)

text \<open>Steps that change records of the parent.\<close>

lemma upd_children_inv:
  assumes i: "wait_inv s" and ev: "evolves s s'"
    and s': "next_pid s' = next_pid s" "waits s' = waits s"
    and ch: "\<And>p1 q1. procs s' p1 = Some q1 \<Longrightarrow> \<exists>q0. procs s p1 = Some q0 \<and> (at q1 = at q0 \<or> \<not> (\<exists>t. exec_of q1 t \<or> at q1 = Wait_Status t)) \<and>
        (children q1 = children q0 \<or> p1 = p \<and> children q1 = upd_child t f (children q0))"
    and f: "\<And>r. rec_ok s p r \<Longrightarrow> child_tid r = t \<Longrightarrow> rec_ok s' p (f r)"
  shows "wait_inv s'"
proof (rule wait_inv_step [OF i ev])
  fix p1 q1 r assume r: "procs s' p1 = Some q1" "r \<in> set (children q1)"
  from ch [OF r(1)] obtain q0 where q0: "procs s p1 = Some q0" "children q1 = children q0 \<or> p1 = p \<and> children q1 = upd_child t f (children q0)"
    by blast
  show "(\<exists>q0. procs s p1 = Some q0 \<and> r \<in> set (children q0)) \<or> rec_ok s' p1 r"
    using q0(2)
  proof
    assume "p1 = p \<and> children q1 = upd_child t f (children q0)"
    with r(2) q0(1) wait_inv_rec [OF i q0(1)] f show ?thesis by (auto dest!: set_upd_child)
  qed (use q0 r in auto)
next
  fix t assume "procs s' t \<noteq> None"
  then show "t < next_pid s'" using ch wait_inv_fresh [OF i] s' by fastforce
next
  fix p1 q1 t1 assume "procs s' p1 = Some q1" "exec_of q1 t1"
  then show "t1 = -1 \<or> (\<exists>q0. procs s p1 = Some q0 \<and> exec_of q0 t1) \<or> kid s' p1 t1"
    using ch unfolding exec_of_def by metis
next
  fix p1 q1 t1 assume "procs s' p1 = Some q1" "at q1 = Wait_Status t1"
  then show "(\<exists>q0. procs s p1 = Some q0 \<and> at q0 = Wait_Status t1) \<or> ended_kid s' p1 t1" using ch by metis
qed (use s' in simp)

lemma find_live: "thread_find s t = Some q \<Longrightarrow> procs s t = Some q"
  by (auto simp: thread_find_def split: option.splits if_splits)

lemma exit_call_inv: "wait_inv s \<Longrightarrow> exit_call s c status = Some s' \<Longrightarrow> wait_inv s'"
  by (rule wait_inv_step [of s], assumption)
    (auto simp: exit_call_def step_defs evolves_def ended_def exec_of_def split: if_splits option.splits dest: wait_inv_fresh)

lemma exit_exited_inv:
  assumes i: "wait_inv s" and st: "exit_exited s c = Some s'"
  shows "wait_inv s'"
proof -
  let ?f = "\<lambda>r. r\<lparr>exited := True\<rparr>"
  obtain q where q: "procs s c = Some q" "at q = Exit_Exited" using st by (auto simp: exit_exited_def split: option.splits if_splits)
  then have nq: "ended q" by (simp add: ended_def)
  have ev: "evolves s s'" using st q by (auto simp: exit_exited_def step_defs evolves_def ended_def)
  show ?thesis
  proof (rule upd_children_inv [OF i ev, where p = "parent_id q" and t = c and f = ?f])
    fix p1 q1 assume "procs s' p1 = Some q1"
    then show "\<exists>q0. procs s p1 = Some q0 \<and> (at q1 = at q0 \<or> \<not> (\<exists>t. exec_of q1 t \<or> at q1 = Wait_Status t)) \<and>
        (children q1 = children q0 \<or> p1 = parent_id q \<and> children q1 = upd_child c ?f (children q0))"
      using st q by (auto simp: exit_exited_def step_defs exec_of_def split: if_splits)
  next
    fix r assume r: "rec_ok s (parent_id q) r" "child_tid r = c"
    then have "rec_ok s (parent_id q) (?f r)" using q nq by (auto simp: rec_ok_def)
    then show "rec_ok s' (parent_id q) (?f r)" by (rule evolves_rec_ok [OF ev])
  qed (use st q in \<open>auto simp: exit_exited_def step_defs\<close>)
qed

lemma exit_store_inv:
  assumes i: "wait_inv s" and st: "exit_store s c = Some s'"
  shows "wait_inv s'"
proof -
  obtain q status where q: "procs s c = Some q" "at q = Exit_Status" "exit_arg q = Some status"
    using st by (auto simp: exit_store_def split: option.splits if_splits)
  let ?f = "\<lambda>r. r\<lparr>exit_status := status\<rparr>"
  have nq: "ended q" using q by (simp add: ended_def)
  have ev: "evolves s s'" using st q by (auto simp: exit_store_def step_defs evolves_def ended_def)
  show ?thesis
  proof (rule upd_children_inv [OF i ev, where p = "parent_id q" and t = c and f = ?f])
    fix p1 q1 assume "procs s' p1 = Some q1"
    then show "\<exists>q0. procs s p1 = Some q0 \<and> (at q1 = at q0 \<or> \<not> (\<exists>t. exec_of q1 t \<or> at q1 = Wait_Status t)) \<and>
        (children q1 = children q0 \<or> p1 = parent_id q \<and> children q1 = upd_child c ?f (children q0))"
      using st q by (auto simp: exit_store_def step_defs exec_of_def split: if_splits)
  next
    fix r assume r: "rec_ok s (parent_id q) r" "child_tid r = c"
    then have "rec_ok s (parent_id q) (?f r)" using q nq by (auto simp: rec_ok_def)
    then show "rec_ok s' (parent_id q) (?f r)" by (rule evolves_rec_ok [OF ev])
  qed (use st q in \<open>auto simp: exit_store_def step_defs\<close>)
qed

lemma notify_inv:
  assumes i: "wait_inv s" and st: "notify s c = Some s'"
  shows "wait_inv s'"
proof -
  let ?f = "\<lambda>r. if waited r then r\<lparr>wait_sema := wait_sema r + 1\<rparr> else r"
  obtain q where q: "procs s c = Some q" "at q = Notify" using st by (auto simp: notify_def split: option.splits if_splits)
  then have nq: "ended q" by (auto simp: ended_def)
  have ev: "evolves s s'" using st q
    by (auto simp: notify_def step_defs evolves_def ended_def split: if_splits option.splits dest!: find_live)
  show ?thesis
  proof (rule upd_children_inv [OF i ev, where p = "parent_id q" and t = c and f = ?f])
    fix p1 q1 assume "procs s' p1 = Some q1"
    then show "\<exists>q0. procs s p1 = Some q0 \<and> (at q1 = at q0 \<or> \<not> (\<exists>t. exec_of q1 t \<or> at q1 = Wait_Status t)) \<and> (children q1 = children q0 \<or>
        p1 = parent_id q \<and> children q1 = upd_child c ?f (children q0))"
      using st q by (auto simp: notify_def step_defs exec_of_def fun_eq_iff split: if_splits option.splits dest!: find_live)
  next
    fix r assume r: "rec_ok s (parent_id q) r" "child_tid r = c"
    have "rec_ok s' (parent_id q) r" by (rule evolves_rec_ok [OF ev r(1)])
    moreover from r q nq have "rec_ok s' (parent_id q) (r\<lparr>wait_sema := wait_sema r + 1\<rparr>)"
      using calculation ev by (auto simp: rec_ok_def evolves_def)
    ultimately show "rec_ok s' (parent_id q) (?f r)" by simp
  qed (use st in \<open>auto simp: notify_def step_defs split: if_splits option.splits\<close>)
qed

lemma wait_mark_inv:
  assumes i: "wait_inv s" and st: "wait_mark s p = Some s'"
  shows "wait_inv s'"
proof -
  obtain q t where q: "procs s p = Some q" "at q = Wait_Mark t" using st by (auto simp: wait_mark_def split: option.splits point.splits)
  then have nq: "\<not> ended q" by (auto simp: ended_def)
  have ev: "evolves s s'" using st q nq by (auto simp: wait_mark_def step_defs evolves_def)
  show ?thesis
  proof (rule upd_children_inv [OF i ev, where p = p and t = t and f = "\<lambda>r. r\<lparr>waited := True\<rparr>"])
    fix p1 q1 assume "procs s' p1 = Some q1"
    then show "\<exists>q0. procs s p1 = Some q0 \<and> (at q1 = at q0 \<or> \<not> (\<exists>t. exec_of q1 t \<or> at q1 = Wait_Status t)) \<and> (children q1 = children q0 \<or>
        p1 = p \<and> children q1 = upd_child t (\<lambda>r. r\<lparr>waited := True\<rparr>) (children q0))"
      using st q by (auto simp: wait_mark_def step_defs exec_of_def fun_eq_iff split: if_splits)
  next
    fix r assume "rec_ok s p r" then have "rec_ok s' p r" by (rule evolves_rec_ok [OF ev])
    then show "rec_ok s' p (r\<lparr>waited := True\<rparr>)" by (simp add: rec_ok_def cong: if_cong)
  qed (use st q in \<open>auto simp: wait_mark_def step_defs\<close>)
qed

lemma wait_check_inv: "wait_inv s \<Longrightarrow> wait_check s p t ex wt fd = Some s' \<Longrightarrow> wait_inv s'"
  by (rule wait_inv_step [of s], assumption)
    (auto simp: wait_check_def step_defs evolves_def ended_def exec_of_def wait_ok_def split: if_splits option.splits dest: wait_inv_fresh)

lemma wait_exited_inv:
  assumes i: "wait_inv s" and st: "wait_exited s p = Some s'"
  shows "wait_inv s'"
proof -
  obtain q t r where q: "procs s p = Some q" "at q = Wait_Exited t" "find_child (children q) t = Some r"
    and s': "s' = go s p (if exited r then Wait_Status t else Wait_Mark t)"
    using st by (auto simp: wait_exited_def split: option.splits point.splits)
  then have nq: "\<not> ended q" by (auto simp: ended_def)
  have ev: "evolves s s'" using q nq by (auto simp: s' step_defs evolves_def)
  have "ended_kid s p t" if "exited r"
    using that find_child_mem [OF q(3)] wait_inv_rec [OF i q(1), of r] by (auto simp: rec_ok_def ended_kid_def)
  then have "ended_kid s' p t" if "exited r" using that evolves_ended_kid [OF ev] by blast
  with q show ?thesis
    by (intro wait_inv_step [OF i ev]) (auto simp: s' step_defs exec_of_def split: if_splits dest: wait_inv_fresh [OF i])
qed

lemma wait_status_inv:
  assumes i: "wait_inv s" and st: "wait_status s p = Some s'"
  shows "wait_inv s'"
proof -
  obtain q t r where q: "procs s p = Some q" "at q = Wait_Status t" "find_child (children q) t = Some r"
    and s': "s' = answer s p t (exit_status r)"
    using st by (auto simp: wait_status_def split: option.splits point.splits)
  then have nq: "\<not> ended q" by (auto simp: ended_def)
  have ev: "evolves s s'" using q nq by (auto simp: s' step_defs evolves_def)
  have "wait_ok s (p, t, exit_status r)"
    using wait_inv_status [OF i q(1,2)] find_child_mem [OF q(3)] wait_inv_rec [OF i q(1), of r]
    by (auto simp: rec_ok_def wait_ok_def ended_kid_def)
  then have "wait_ok s' (p, t, exit_status r)" by (rule evolves_wait_ok [OF ev])
  with q show ?thesis
    by (intro wait_inv_step [OF i ev]) (auto simp: s' step_defs exec_of_def split: if_splits dest: wait_inv_fresh [OF i])
qed

lemma wait_down_inv:
  assumes i: "wait_inv s" and st: "wait_down s p = Some s'"
  shows "wait_inv s'"
proof -
  obtain q t r where q: "procs s p = Some q" "at q = Wait_Down t" "find_child (children q) t = Some r" "0 < wait_sema r"
    using st by (auto simp: wait_down_def split: option.splits point.splits if_splits)
  then have nq: "\<not> ended q" by (auto simp: ended_def)
  have ev: "evolves s s'" using st q nq by (auto simp: wait_down_def step_defs evolves_def)
  have w: "wait_ok s (p, t, exit_status r)"
    using q find_child_mem [OF q(3)] wait_inv_rec [OF i q(1), of r] by (auto simp: rec_ok_def wait_ok_def split: if_splits)
  show ?thesis
    by (rule wait_inv_step [OF i ev])
      (use st q w evolves_wait_ok [OF ev] in \<open>auto simp: wait_down_def step_defs exec_of_def split: if_splits
        dest: wait_inv_fresh [OF i] dest!: drop_child_mem\<close>)
qed

lemma pstep_inv: "pstep s s' \<Longrightarrow> wait_inv s \<Longrightarrow> wait_inv s'"
  by (induction rule: pstep.induct)
    (blast intro: exec_fail_inv exec_create_inv exec_down_inv exec_record_inv load_done_inv load_up_inv exit_call_inv exit_exited_inv
      exit_store_inv kill_inv leave_inv unlink_inv notify_inv wait_check_inv wait_exited_inv wait_status_inv wait_mark_inv wait_down_inv)+

lemma wait_reachable_inv: "pstep\<^sup>*\<^sup>* initial s \<Longrightarrow> wait_inv s"
  by (induction rule: rtranclp_induct) (auto simp: initial_inv dest: pstep_inv)

end
