(* ===== verification/Wait_Properties.thy ===== *)
theory Wait_Properties
  imports Process_Wait
begin

text \<open>
  Properties of starting, ending and waiting for processes, on runs from the initial state with one process.
\<close>

section \<open>Runs\<close>

fun run :: "(processes \<Rightarrow> processes option) list \<Rightarrow> processes \<Rightarrow> processes option" where
  "run [] s = Some s"
| "run (f # fs) s = (if crashed s then None else case f s of None \<Rightarrow> None | Some s' \<Rightarrow> run fs s')"

definition is_part :: "(processes \<Rightarrow> processes option) \<Rightarrow> bool" where
  "is_part f \<longleftrightarrow> (\<forall>s s'. \<not> crashed s \<longrightarrow> f s = Some s' \<longrightarrow> pstep s s')"

lemma is_part_simps [simp]:
  "is_part (\<lambda>s. exec_create s p ok)" "is_part (\<lambda>s. exec_down s p)" "is_part (\<lambda>s. exec_record s p mem)"
  "is_part (\<lambda>s. load_done s p ok)" "is_part (\<lambda>s. load_up s p)" "is_part (\<lambda>s. exit_call s p st)" "is_part (\<lambda>s. leave s p)"
  "is_part (\<lambda>s. unlink s p)" "is_part (\<lambda>s. notify s p)" "is_part (\<lambda>s. wait_check s p t ex wt fd)" "is_part (\<lambda>s. wait_mark s p)"
  "is_part (\<lambda>s. wait_down s p)" "is_part (\<lambda>s. wait_exited s p)" "is_part (\<lambda>s. wait_status s p)" "is_part (\<lambda>s. exit_exited s p)"
  "is_part (\<lambda>s. exit_store s p)" "is_part (\<lambda>s. exec_fail s p)"
  by (auto simp: is_part_def intro: pstep.intros)

lemma run_reachable: "list_all is_part fs \<Longrightarrow> run fs s = Some s' \<Longrightarrow> pstep\<^sup>*\<^sup>* s s'"
  by (induction fs arbitrary: s)
    (auto simp: is_part_def split: if_splits option.splits intro: converse_rtranclp_into_rtranclp)

lemmas run_simps = initial_def step_defs exec_create_def exec_down_def exec_record_def load_done_def load_up_def exit_call_def
  exit_exited_def exit_store_def leave_def unlink_def notify_def wait_check_def wait_exited_def wait_status_def wait_mark_def
  wait_down_def thread_find_def find_child_def head_record_def

section \<open>Answers of wait\<close>

text \<open>
  C16: Whatever the order in which the parts of the processes run (the theory \<open>Process_Wait\<close> says what the
  parts are), an answer of \<^verbatim>\<open>process_wait\<close> other than -1 for a thread identifier other than 0 is about a
  process that the caller started and that has called \<^verbatim>\<open>exit\<close> or was killed; a nonzero answer is the value
  that this process passed to \<^verbatim>\<open>exit\<close>.  For the identifier 0, which no process has, \<^verbatim>\<open>process_wait\<close> takes the head
  of its list for a record and can answer anything.
\<close>

theorem wait_answers_truthfully:
  assumes "pstep\<^sup>*\<^sup>* initial s" "(p, t, status) \<in> set (waits s)" "status \<noteq> -1" "t \<noteq> 0"
  shows "\<exists>c. procs s t = Some c \<and> parent_id c = p \<and> ended c \<and> (status = 0 \<or> exit_arg c = Some status)"
proof -
  have "wait_ok s (p, t, status)" using wait_reachable_inv [OF assms(1)] assms(2) by (simp add: wait_inv_def)
  with assms(3,4) show ?thesis by (simp add: wait_ok_def)
qed

text \<open>With the identifier 0, a process that has started no other gets the number of its next file descriptor.\<close>

lemma wait_zero_answers_fd: "\<exists>s. pstep\<^sup>*\<^sup>* initial s \<and> waits s = [(1, 0, 2)] \<and> procs s 0 = None"
proof -
  let ?r = "[\<lambda>s. wait_check s 1 0 True False 2]"
  obtain s where s: "run ?r initial = Some s" "waits s = [(1, 0, 2)]" "procs s 0 = None" by (simp add: run_simps)
  have "list_all is_part ?r" by simp
  from run_reachable [OF this s(1)] s(2,3) show ?thesis by blast
qed

text \<open>The two assignments of \<^verbatim>\<open>exit\<close> are not atomic: a parent that looks between them answers 0.\<close>

lemma wait_between_assignments: "\<exists>s c. pstep\<^sup>*\<^sup>* initial s \<and> waits s = [(1, 2, 0)] \<and> procs s 2 = Some c \<and> exit_arg c = Some 7"
proof -
  let ?r = "[\<lambda>s. exec_create s 1 True, \<lambda>s. load_done s 2 True, \<lambda>s. load_up s 2, \<lambda>s. exec_down s 1, \<lambda>s. exec_record s 1 True,
    \<lambda>s. exit_call s 2 7, \<lambda>s. exit_exited s 2, \<lambda>s. wait_check s 1 2 False False 2, \<lambda>s. wait_exited s 1, \<lambda>s. wait_status s 1]"
  obtain s c where s: "run ?r initial = Some s" "waits s = [(1, 2, 0)]" "procs s 2 = Some c" "exit_arg c = Some 7"
    by (simp add: run_simps)
  have "list_all is_part ?r" by simp
  from run_reachable [OF this s(1)] s(2-4) show ?thesis by blast
qed

definition waiting_run :: "(processes \<Rightarrow> processes option) list" where
  "waiting_run = [\<lambda>s. exec_create s 1 True, \<lambda>s. load_done s 2 True, \<lambda>s. load_up s 2, \<lambda>s. exec_down s 1,
     \<lambda>s. exec_record s 1 True, \<lambda>s. wait_check s 1 2 False False 2, \<lambda>s. wait_exited s 1, \<lambda>s. wait_mark s 1, \<lambda>s. exit_call s 2 7,
     \<lambda>s. exit_exited s 2, \<lambda>s. exit_store s 2, \<lambda>s. leave s 2, \<lambda>s. unlink s 2, \<lambda>s. notify s 2, \<lambda>s. wait_down s 1]"

theorem wait_answers_truthfully_witness:
  "\<exists>s c. run waiting_run initial = Some s \<and> (1, 2, 7) \<in> set (waits s) \<and> procs s 2 = Some c \<and> exit_arg c = Some 7 \<and> ended c"
proof -
  obtain s where s: "run waiting_run initial = Some s" "(1, 2, 7) \<in> set (waits s)"
    by (simp add: waiting_run_def run_simps)
  have "list_all is_part waiting_run" by (simp add: waiting_run_def)
  from wait_answers_truthfully [OF run_reachable [OF this s(1)] s(2)] s show ?thesis by auto
qed

lemma find_child_upd_same:
  "(\<And>r. child_tid (f r) = child_tid r) \<Longrightarrow> find_child (upd_child t f cs) t = map_option f (find_child cs t)"
  by (induction cs) (auto simp: find_child_def)

lemma upd_child_Nil [simp]: "upd_child t f cs = [] \<longleftrightarrow> cs = []"
  by (cases cs) auto

text \<open>
  C21: A process that has marked the record of a running child and sleeps in \<^verbatim>\<open>process_wait\<close> is woken by the end of the
  child and answers its status: once the child has gone through \<^verbatim>\<open>exit\<close> and \<^verbatim>\<open>thread_exit\<close>, the waiting process can
  go on, its answer is the value passed to \<^verbatim>\<open>exit\<close>, and it is back outside the kernel.
\<close>

theorem wait_wakes_with_status:
  assumes "\<not> crashed s" "procs s p = Some q" "at q = Wait_Down t" "find_child (children q) t = Some r" "waited r"
    "procs s t = Some c" "parent_id c = p" "at c = User"
  shows "\<exists>s'. run [\<lambda>s. exit_call s t status, \<lambda>s. exit_exited s t, \<lambda>s. exit_store s t, \<lambda>s. leave s t, \<lambda>s. unlink s t,
      \<lambda>s. notify s t, \<lambda>s. wait_down s p] s = Some s' \<and>
    waits s' = (p, t, status) # waits s \<and> is_at s' p User \<and> is_at s' t Dead \<and> pstep\<^sup>*\<^sup>* s s'"
proof -
  let ?r = "[\<lambda>s. exit_call s t status, \<lambda>s. exit_exited s t, \<lambda>s. exit_store s t, \<lambda>s. leave s t, \<lambda>s. unlink s t,
      \<lambda>s. notify s t, \<lambda>s. wait_down s p]"
  have ne: "p \<noteq> t" using assms by auto
  have "children q \<noteq> []" using assms(4) by (auto simp: find_child_def)
  then obtain s' where s': "run ?r s = Some s'" "waits s' = (p, t, status) # waits s" "is_at s' p User" "is_at s' t Dead"
    using assms ne by (simp add: exit_call_def exit_exited_def exit_store_def leave_def unlink_def notify_def wait_down_def thread_find_def step_defs find_child_upd_same)
  have "list_all is_part ?r" by simp
  from run_reachable [OF this s'(1)] s' show ?thesis by blast
qed

theorem wait_wakes_with_status_witness:
  "\<exists>s s'. run (take 8 waiting_run) initial = Some s \<and> pstep\<^sup>*\<^sup>* s s' \<and> waits s' = [(1, 2, 9)]"
proof -
  obtain s where s: "run (take 8 waiting_run) initial = Some s" by (simp add: waiting_run_def run_simps)
  then obtain q r c where "\<not> crashed s" "procs s 1 = Some q" "at q = Wait_Down 2" "find_child (children q) 2 = Some r" "waited r"
    "procs s 2 = Some c" "parent_id c = 1" "at c = User" "waits s = []"
    by (auto simp: waiting_run_def run_simps)
  with wait_wakes_with_status [of s 1 q 2 r c 9] s show ?thesis by auto
qed

section \<open>A lost exit status\<close>

definition stuck_wait :: "processes \<Rightarrow> int \<Rightarrow> int \<Rightarrow> int \<Rightarrow> bool" where
  "stuck_wait s p t status \<longleftrightarrow> (\<exists>q r c. procs s p = Some q \<and> at q = Wait_Down t \<and> find_child (children q) t = Some r \<and>
     wait_sema r = 0 \<and> procs s t = Some c \<and> at c = Dead \<and> exit_arg c = Some status)"

lemma find_child_upd:
  "t \<noteq> t' \<Longrightarrow> (\<And>r. child_tid (f r) = child_tid r) \<Longrightarrow> find_child (upd_child t' f cs) t = find_child cs t"
  by (induction cs) (auto simp: find_child_def)

lemma stuck_wait_step:
  assumes "pstep s s'" "wait_inv s" "stuck_wait s p t status"
  shows "stuck_wait s' p t status"
proof -
  obtain q r c where k: "procs s p = Some q" "at q = Wait_Down t" "find_child (children q) t = Some r"
    "wait_sema r = 0" "procs s t = Some c" "at c = Dead" "exit_arg c = Some status"
    using assms(3) by (auto simp: stuck_wait_def)
  have ne: "p \<noteq> t" "p < next_pid s" "t < next_pid s"
    using k wait_inv_fresh [OF assms(2)] by auto
  show ?thesis
    using assms(1)
  proof cases
    case (create p1 ok)
    with k ne show ?thesis by (auto simp: stuck_wait_def exec_create_def step_defs split: if_splits option.splits)
  next
    case (exec_down p1)
    with k ne show ?thesis by (auto simp: stuck_wait_def exec_down_def step_defs split: if_splits option.splits point.splits)
  next
    case (exec_record p1 mem)
    with k ne show ?thesis by (auto simp: stuck_wait_def exec_record_def step_defs split: if_splits option.splits point.splits)
  next
    case (load_done c1 ok)
    with k ne show ?thesis by (auto simp: stuck_wait_def load_done_def step_defs split: if_splits option.splits)
  next
    case (load_up c1)
    with k ne show ?thesis by (auto simp: stuck_wait_def load_up_def step_defs split: if_splits option.splits point.splits)
  next
    case (exit_call c1 st)
    with k ne show ?thesis
      by (auto simp: stuck_wait_def exit_call_def step_defs find_child_upd split: if_splits option.splits)
  next
    case (exec_fail p1)
    with k ne show ?thesis by (auto simp: stuck_wait_def exec_fail_def split: if_splits)
  next
    case (exit_exited c1)
    with k ne show ?thesis
      by (auto simp: stuck_wait_def exit_exited_def step_defs find_child_upd split: if_splits option.splits)
  next
    case (exit_store c1)
    with k ne show ?thesis
      by (auto simp: stuck_wait_def exit_store_def step_defs find_child_upd split: if_splits option.splits)
  next
    case (wait_exited p1)
    with k ne show ?thesis by (auto simp: stuck_wait_def wait_exited_def step_defs split: if_splits option.splits point.splits)
  next
    case (wait_status p1)
    with k ne show ?thesis by (auto simp: stuck_wait_def wait_status_def step_defs split: if_splits option.splits point.splits)
  next
    case (kill c1)
    with k ne show ?thesis by (auto simp: stuck_wait_def kill_def step_defs split: if_splits option.splits)
  next
    case (leave c1)
    with k ne show ?thesis by (auto simp: stuck_wait_def leave_def step_defs split: if_splits option.splits)
  next
    case (unlink c1)
    with k ne show ?thesis by (auto simp: stuck_wait_def unlink_def step_defs split: if_splits option.splits)
  next
    case (notify c1)
    with k ne show ?thesis
      by (auto simp: stuck_wait_def notify_def step_defs find_child_upd split: if_splits option.splits)
  next
    case (wait_check p1 t1 ex wt fd)
    with k ne show ?thesis by (auto simp: stuck_wait_def wait_check_def step_defs split: if_splits option.splits)
  next
    case (wait_mark p1)
    with k ne show ?thesis by (auto simp: stuck_wait_def wait_mark_def step_defs split: if_splits option.splits point.splits)
  next
    case (wait_down p1)
    with k ne show ?thesis by (auto simp: stuck_wait_def wait_down_def step_defs split: if_splits option.splits point.splits)
  qed
qed

lemma stuck_wait_forever:
  assumes "pstep\<^sup>*\<^sup>* s s'" "wait_inv s" "stuck_wait s p t status"
  shows "stuck_wait s' p t status \<and> wait_inv s'"
  using assms by (induction rule: rtranclp_induct) (auto intro: stuck_wait_step pstep_inv)

definition early_exit_run :: "(processes \<Rightarrow> processes option) list" where
  "early_exit_run = [\<lambda>s. exec_create s 1 True, \<lambda>s. load_done s 2 True, \<lambda>s. load_up s 2, \<lambda>s. exec_down s 1,
     \<lambda>s. exec_record s 1 True, \<lambda>s. exec_create s 1 True, \<lambda>s. load_done s 3 True, \<lambda>s. load_up s 3, \<lambda>s. exit_call s 3 7,
     \<lambda>s. leave s 3, \<lambda>s. unlink s 3, \<lambda>s. notify s 3, \<lambda>s. exec_down s 1, \<lambda>s. exec_record s 1 True, \<lambda>s. wait_check s 1 3 False False 2,
     \<lambda>s. wait_exited s 1, \<lambda>s. wait_mark s 1]"

text \<open>
  C36: A process that starts two children, of which the second ends with status 7 before \<^verbatim>\<open>process_execute\<close> has entered
  its record, and then waits for that child, waits for ever: whatever the processes do from then on, it is
  still in \<^verbatim>\<open>sema_down\<close>.
\<close>

theorem early_exit_hangs_wait:
  "\<exists>s. run early_exit_run initial = Some s \<and> pstep\<^sup>*\<^sup>* initial s \<and> {s'. pstep\<^sup>*\<^sup>* s s'} \<subseteq> {s'. stuck_wait s' 1 3 7}"
proof -
  obtain s where s: "run early_exit_run initial = Some s" "stuck_wait s 1 3 7"
    by (simp add: early_exit_run_def run_simps stuck_wait_def)
  have "list_all is_part early_exit_run" by (simp add: early_exit_run_def)
  from run_reachable [OF this s(1)] have r: "pstep\<^sup>*\<^sup>* initial s" .
  with s stuck_wait_forever [OF _ wait_reachable_inv [OF r] s(2)] show ?thesis by blast
qed

text \<open>
  The first program that a process starts and that cannot be loaded makes \<^verbatim>\<open>thread_exit\<close> follow an uninitialised
  pointer: the loop over the empty list of children does not set \<^verbatim>\<open>child\<close>.
\<close>

lemma failed_exec_crashes: "\<exists>s. pstep\<^sup>*\<^sup>* initial s \<and> crashed s"
proof -
  let ?r = "[\<lambda>s. exec_create s 1 True, \<lambda>s. load_done s 2 False, \<lambda>s. load_up s 2, \<lambda>s. leave s 2, \<lambda>s. unlink s 2, \<lambda>s. notify s 2]"
  obtain s where s: "run ?r initial = Some s" "crashed s" by (simp add: run_simps)
  have "list_all is_part ?r" by simp
  from run_reachable [OF this s(1)] s(2) show ?thesis by blast
qed

text \<open>A second \<^verbatim>\<open>process_wait\<close> for a child that had ended before the first one answers the status again.\<close>

lemma second_wait_answers: "\<exists>s. pstep\<^sup>*\<^sup>* initial s \<and> waits s = [(1, 2, 7), (1, 2, 7)]"
proof -
  let ?r = "[\<lambda>s. exec_create s 1 True, \<lambda>s. load_done s 2 True, \<lambda>s. load_up s 2, \<lambda>s. exec_down s 1, \<lambda>s. exec_record s 1 True,
    \<lambda>s. exit_call s 2 7, \<lambda>s. exit_exited s 2, \<lambda>s. exit_store s 2, \<lambda>s. wait_check s 1 2 False False 2, \<lambda>s. wait_exited s 1,
    \<lambda>s. wait_status s 1, \<lambda>s. wait_check s 1 2 False False 2, \<lambda>s. wait_exited s 1, \<lambda>s. wait_status s 1]"
  obtain s where s: "run ?r initial = Some s" "waits s = [(1, 2, 7), (1, 2, 7)]" by (simp add: run_simps)
  have "list_all is_part ?r" by simp
  from run_reachable [OF this s(1)] s(2) show ?thesis by blast
qed

end
