(* ===== verification/Division64.thy ===== *)
theory Division64
  imports Pintos_Prelude "HOL-Library.Signed_Division"
begin

text \<open>
  The 64-bit division of \<^verbatim>\<open>lib/arithmetic.c\<close>, which the compiler calls for \<^verbatim>\<open>/\<close> and \<^verbatim>\<open>%\<close> on
  \<^verbatim>\<open>long long\<close>: it is made of the 32-bit \<^verbatim>\<open>divl\<close> instruction, and its second branch estimates the quotient from
  the leading 32 bits of the divisor and corrects it by one.  \<open>None\<close> is the divide error that \<^verbatim>\<open>divl\<close> raises
  when the divisor is 0 or the quotient does not fit in 32 bits.
\<close>

unbundle bit_operations_syntax

section \<open>Operations\<close>

definition divl :: "u64 \<Rightarrow> u32 \<Rightarrow> u32 option" where
  "divl n d = (if d = 0 \<or> unat n div unat d \<ge> 2 ^ 32 then None else Some (of_nat (unat n div unat d)))"

definition nlz :: "u32 \<Rightarrow> nat" where
  "nlz x = (
     let (n, x) = (if x \<le> 0x0000FFFF then (0 + 16, push_bit 16 x) else (0, x));
         (n, x) = (if x \<le> 0x00FFFFFF then (n + 8, push_bit 8 x) else (n, x));
         (n, x) = (if x \<le> 0x0FFFFFFF then (n + 4, push_bit 4 x) else (n, x));
         (n, x) = (if x \<le> 0x3FFFFFFF then (n + 2, push_bit 2 x) else (n, x))
     in if x \<le> 0x7FFFFFFF then n + 1 else n)"

definition udiv64 :: "u64 \<Rightarrow> u64 \<Rightarrow> u64 option" where
  "udiv64 n d =
     (if drop_bit 32 d = 0 then do {
        let b = push_bit 32 1;
        let n1 = (ucast (drop_bit 32 n) :: u32);
        let n0 = (ucast n :: u32);
        let d0 = (ucast d :: u32);
        ASSERT (d0 \<noteq> 0);
        q \<leftarrow> divl (b * ucast (n1 mod d0) + ucast n0) d0;
        Some (ucast q + b * ucast (n1 div d0))
      }
      else if n < d then Some 0
      else do {
        let d1 = (ucast (drop_bit 32 d) :: u32);
        let s = nlz d1;
        q \<leftarrow> divl (drop_bit 1 n) (ucast (drop_bit 32 (push_bit s d)));
        let q = (ucast (drop_bit (31 - s) q) :: u64);
        Some (if n - (q - 1) * d < d then q - 1 else q)
      })"

definition umod64 :: "u64 \<Rightarrow> u64 \<Rightarrow> u32 option" where
  "umod64 n d = do { q \<leftarrow> udiv64 n d; Some (ucast (n - d * q)) }"

text \<open>A \<^verbatim>\<open>int64_t\<close> is a word that is read with its sign; \<^verbatim>\<open>int32_t\<close> likewise.\<close>

definition sdiv64 :: "u64 \<Rightarrow> u64 \<Rightarrow> u64 option" where
  "sdiv64 n d = do {
     let n_abs = (if sint n \<ge> 0 then n else - n);
     let d_abs = (if sint d \<ge> 0 then d else - d);
     q_abs \<leftarrow> udiv64 n_abs d_abs;
     Some (if (sint n < 0) = (sint d < 0) then q_abs else - q_abs)
   }"

definition smod64 :: "u64 \<Rightarrow> u64 \<Rightarrow> u32 option" where
  "smod64 n d = do { q \<leftarrow> sdiv64 n d; Some (ucast (n - d * q)) }"

text \<open>The routines that the compiler calls.  The result of \<^verbatim>\<open>umod64\<close> is extended with zeros, that of \<^verbatim>\<open>smod64\<close>
  with its sign.\<close>

definition divdi3 :: "u64 \<Rightarrow> u64 \<Rightarrow> u64 option" where "divdi3 n d = sdiv64 n d"

definition moddi3 :: "u64 \<Rightarrow> u64 \<Rightarrow> u64 option" where "moddi3 n d = map_option scast (smod64 n d)"

definition udivdi3 :: "u64 \<Rightarrow> u64 \<Rightarrow> u64 option" where "udivdi3 n d = udiv64 n d"

definition umoddi3 :: "u64 \<Rightarrow> u64 \<Rightarrow> u64 option" where "umoddi3 n d = map_option ucast (umod64 n d)"

section \<open>Leading zeros\<close>

lemma nlz_step:
  fixes y m :: u32
  assumes y: "unat y = X * 2 ^ n" "2 ^ (32 - 2 * k) \<le> unat y" and k: "k < 32" "2 * k \<le> 32" and m: "unat m + 1 = 2 ^ (32 - k)"
    and r: "(n', y') = (if y \<le> m then (n + k, push_bit k y) else (n, y))"
  shows "unat y' = X * 2 ^ n' \<and> 2 ^ (32 - k) \<le> unat y'"
proof (cases "y \<le> m")
  case True
  then have "unat y < 2 ^ (32 - k)" using m by (simp add: word_le_nat_alt)
  then have "unat y * 2 ^ k < 2 ^ (32 - k) * 2 ^ k" by simp
  also have "\<dots> = 2 ^ 32" using k by (simp flip: power_add)
  finally have "unat (push_bit k y) = unat y * 2 ^ k"
    by (simp only: unsigned_push_bit_eq) (simp add: push_bit_eq_mult take_bit_nat_eq_self)
  moreover have "(2::nat) ^ (32 - k) = 2 ^ (32 - 2 * k) * 2 ^ k" using k by (simp flip: power_add)
  ultimately show ?thesis using True r y by (simp add: power_add)
next
  case False
  then show ?thesis using r y m by (auto simp: word_le_nat_alt)
qed

lemma nlz_normalises:
  assumes "x \<noteq> 0"
  shows "nlz x \<le> 31" "2 ^ 31 \<le> unat x * 2 ^ nlz x" "unat x * 2 ^ nlz x < 2 ^ 32"
proof -
  obtain n1 :: nat and x1 where s1: "(n1, x1) = (if x \<le> 0x0000FFFF then (0 + 16, push_bit 16 x) else (0, x))" by (metis surj_pair)
  obtain n2 x2 where s2: "(n2, x2) = (if x1 \<le> 0x00FFFFFF then (n1 + 8, push_bit 8 x1) else (n1, x1))" by (metis surj_pair)
  obtain n3 x3 where s3: "(n3, x3) = (if x2 \<le> 0x0FFFFFFF then (n2 + 4, push_bit 4 x2) else (n2, x2))" by (metis surj_pair)
  obtain n4 x4 where s4: "(n4, x4) = (if x3 \<le> 0x3FFFFFFF then (n3 + 2, push_bit 2 x3) else (n3, x3))" by (metis surj_pair)
  obtain n5 x5 where s5: "(n5, x5) = (if x4 \<le> 0x7FFFFFFF then (n4 + 1, push_bit 1 x4) else (n4, x4))" by (metis surj_pair)
  have "0 < unat x" using assms by (simp add: unat_gt_0)
  then have 1: "unat x1 = unat x * 2 ^ n1 \<and> 2 ^ 16 \<le> unat x1" using nlz_step [OF _ _ _ _ _ s1, of "unat x"] by simp
  then have 2: "unat x2 = unat x * 2 ^ n2 \<and> 2 ^ 24 \<le> unat x2" using nlz_step [OF _ _ _ _ _ s2] by simp
  then have 3: "unat x3 = unat x * 2 ^ n3 \<and> 2 ^ 28 \<le> unat x3" using nlz_step [OF _ _ _ _ _ s3] by simp
  then have 4: "unat x4 = unat x * 2 ^ n4 \<and> 2 ^ 30 \<le> unat x4" using nlz_step [OF _ _ _ _ _ s4] by simp
  then have 5: "unat x5 = unat x * 2 ^ n5 \<and> 2 ^ 31 \<le> unat x5" using nlz_step [OF _ _ _ _ _ s5] by simp
  have z: "nlz x = n5"
    unfolding nlz_def Let_def s1 [symmetric] prod.case s2 [symmetric] s3 [symmetric] s4 [symmetric]
    using s5 by (simp split: if_splits)
  have lt: "unat x5 < 2 ^ 32" using unsigned_less [of x5] by simp
  show "2 ^ 31 \<le> unat x * 2 ^ nlz x" "unat x * 2 ^ nlz x < 2 ^ 32" using 5 lt z by simp_all
  then have "(2::nat) ^ nlz x < 2 ^ 32" using \<open>0 < unat x\<close>
    by (metis One_nat_def Suc_leI le_less_trans mult_le_mono1 nat_mult_1)
  then show "nlz x \<le> 31" using power_less_imp_less_exp [of "2::nat" "nlz x" 32] by simp
qed

section \<open>The estimate of the quotient\<close>

text \<open>Dividing by \<open>W\<close>, the leading bits of \<open>D\<close>, gives the quotient or one more.\<close>

lemma quotient_estimate:
  fixes N D W A B :: nat
  assumes AB: "A * B = 2 ^ 32" "1 \<le> A" "1 < B" and N: "N < 2 ^ 64" and D: "2 ^ 63 \<le> D * A" "D * A < 2 ^ 64"
    and W: "W = (D * A) div 2 ^ 32 * B"
  shows "W \<le> D" "N div W = N div D \<or> N div W = N div D + 1"
proof -
  define v r where "v = (D * A) div 2 ^ 32" and "r = (D * A) mod 2 ^ 32"
  have vr: "D * A = v * 2 ^ 32 + r" "r < 2 ^ 32" by (simp_all add: v_def r_def)
  have v: "2 ^ 31 \<le> v" unfolding v_def using D(1) by (simp add: less_eq_div_iff_mult_less_eq)
  have WA: "W * A = v * 2 ^ 32" using AB(1) unfolding W v_def [symmetric] by (simp add: mult.assoc mult.commute [of B])
  then have "W * A \<le> D * A" using vr by simp
  then show WD: "W \<le> D" using AB(2) by simp
  have W0: "0 < W" using v AB(3) unfolding W v_def [symmetric] by simp
  have "(D - W) * A = r" using WA vr by (simp add: diff_mult_distrib)
  then have "(D - W) * A < B * A" using vr AB(1) by (simp add: mult.commute)
  then have DW: "D - W \<le> B - 1" by (simp add: less_Suc_eq_le [symmetric])
  define Q where "Q = N div D"
  have D0: "0 < D" using WD W0 by simp
  have "Q * D \<le> N" by (simp add: Q_def div_times_less_eq_dividend)
  then have QN: "Q * D < 2 ^ 64" using N by simp
  have "Q < 2 * A"
  proof (rule ccontr)
    assume "\<not> Q < 2 * A"
    then have "2 * A * D \<le> Q * D" by (intro mult_le_mono1) simp
    moreover have "2 ^ 64 \<le> 2 * A * D" using mult_le_mono2 [OF D(1), of 2] by (simp add: mult.commute)
    ultimately show False using QN by linarith
  qed
  then have Q1: "Q + 1 \<le> 2 * A" by simp
  have "(Q + 1) * (B - 1) \<le> W"
  proof (cases "B = 2")
    case True
    then have "A = 2 ^ 31" using AB(1) by simp
    then have "Q + 1 \<le> 2 ^ 32" using Q1 by simp
    moreover have "2 ^ 31 * 2 \<le> W" unfolding W v_def [symmetric] True using v by simp
    ultimately show ?thesis using True by simp
  next
    case False
    then have B: "4 \<le> B \<or> B = 3" using AB(3) by linarith
    have "B \<noteq> 3"
    proof
      assume "B = 3"
      then have "A * 3 = 2 ^ 32" using AB(1) by simp
      then have "(2::nat) ^ 32 mod 3 = 0" by (metis mod_mult_self2_is_0)
      then show False by simp
    qed
    with B have "4 \<le> B" by simp
    have "(Q + 1) * (B - 1) \<le> 2 * A * B" using Q1 by (intro mult_le_mono) simp_all
    also have "\<dots> = 2 ^ 33" using AB(1) by simp
    also have "\<dots> \<le> 2 ^ 31 * B" using \<open>4 \<le> B\<close> by simp
    also have "\<dots> \<le> W" unfolding W v_def [symmetric] using v by simp
    finally show ?thesis .
  qed
  moreover have "(Q + 1) * (D - W) \<le> (Q + 1) * (B - 1)" using DW by (rule mult_le_mono2)
  ultimately have "(Q + 1) * (D - W) \<le> W" by simp
  then have "(Q + 1) * D \<le> (Q + 2) * W" using WD
    by (simp add: diff_mult_distrib2 algebra_simps)
  moreover have "N < (Q + 1) * D" using D0 by (simp add: Q_def dividend_less_div_times)
  ultimately have "N < (Q + 2) * W" by simp
  then have "N div W < Q + 2" using W0 by (simp add: div_less_iff_less_mult)
  moreover have "Q \<le> N div W" using div_le_mono2 [OF W0 WD] by (simp add: Q_def)
  ultimately show "N div W = N div D \<or> N div W = N div D + 1" by (auto simp: Q_def)
qed

section \<open>Unsigned division\<close>

lemma unat_u64_less: "unat (n :: u64) < 2 ^ 64"
  by (rule order_less_le_trans [OF unsigned_less]) simp

lemma unat_drop32: "unat (drop_bit 32 n) = unat n div 2 ^ 32" for n :: u64
  using unat_u64_less [of n] by (simp only: unsigned_drop_bit_eq) (simp add: drop_bit_eq_div take_bit_nat_eq_self)

lemma unat_high: "unat (ucast (drop_bit 32 n) :: u32) = unat n div 2 ^ 32" for n :: u64
  using unat_u64_less [of n] by (simp only: unsigned_ucast_eq unat_drop32) (simp add: take_bit_nat_eq_self less_mult_imp_div_less)

lemma unat_low: "unat (ucast n :: u32) = unat n mod 2 ^ 32" for n :: u64
  by (simp add: unsigned_ucast_eq take_bit_eq_mod)

lemma ucast_as_of_nat: "(ucast y :: u64) = of_nat (unat y)" for y :: u32
  by (simp add: unsigned_of_nat)

lemma unat_of_nat_u64: "k < 2 ^ 64 \<Longrightarrow> unat (of_nat k :: u64) = k"
  by (simp add: unat_of_nat take_bit_nat_eq_self)

text \<open>The first branch: the divisor fits in 32 bits.\<close>

lemma udiv64_short:
  assumes d: "d \<noteq> 0" "drop_bit 32 d = 0"
  shows "udiv64 n d = Some (n div d)"
proof -
  define D N1 N0 where "D = unat d" and "N1 = unat n div 2 ^ 32" and "N0 = unat n mod 2 ^ 32"
  have "D div 2 ^ 32 = 0" using d(2) unat_high [of d] by (simp add: D_def)
  then have D: "0 < D" "D < 2 ^ 32" using d(1) by (simp_all add: D_def unat_gt_0 div_eq_0_iff)
  have N: "unat n = 2 ^ 32 * N1 + N0" "N0 < 2 ^ 32" "N1 < 2 ^ 32"
    using unat_u64_less [of n] by (simp_all add: N1_def N0_def less_mult_imp_div_less)
  have d0: "unat (ucast d :: u32) = D" using D(2) by (simp add: unat_low D_def [symmetric])
  then have d00: "(ucast d :: u32) \<noteq> 0" using D(1) by (metis unat_0 less_irrefl)
  have n1: "unat (ucast (drop_bit 32 n) :: u32) = N1" and n0: "unat (ucast n :: u32) = N0"
    unfolding N1_def N0_def by (rule unat_high, rule unat_low)
  have md: "N1 mod D < D" using D(1) by simp
  define x where "x = 2 ^ 32 * (N1 mod D) + N0"
  have x: "x < 2 ^ 32 * D" using md N(2) unfolding x_def using mult_le_mono2 [OF Suc_leI [OF md], of "2 ^ 32"] by simp
  then have x64: "x < 2 ^ 64" using D(2) by simp
  have arg: "push_bit 32 1 * ucast (ucast (drop_bit 32 n) mod ucast d :: u32) + ucast (ucast n :: u32) = (of_nat x :: u64)"
    by (simp add: ucast_as_of_nat unat_mod n1 n0 d0 push_bit_eq_mult x_def)
  have q0: "x div D < 2 ^ 32" using x D(1) by (simp add: div_less_iff_less_mult mult.commute)
  have "divl (of_nat x) (ucast d) = Some (of_nat (x div D))"
    using q0 x64 d00 by (simp add: divl_def d0 unat_of_nat_u64)
  then have run: "udiv64 n d = Some (ucast (of_nat (x div D) :: u32) + push_bit 32 1 * ucast (ucast (drop_bit 32 n) div ucast d :: u32))"
    using d00 d(2) unfolding udiv64_def Let_def arg by simp
  have "ucast (of_nat (x div D) :: u32) + push_bit 32 1 * ucast (ucast (drop_bit 32 n) div ucast d :: u32)
      = (of_nat (x div D + 2 ^ 32 * (N1 div D)) :: u64)"
    using q0 by (simp add: ucast_as_of_nat unat_div n1 d0 push_bit_eq_mult unat_of_nat take_bit_nat_eq_self)
  moreover have "x div D + 2 ^ 32 * (N1 div D) = unat n div D"
  proof -
    have "unat n = x + D * (2 ^ 32 * (N1 div D))"
      unfolding x_def using N(1) div_mult_mod_eq [of N1 D] by (metis (no_types, lifting) add.assoc add.commute distrib_left mult.commute mult.left_commute)
    then show ?thesis using D(1) by simp
  qed
  ultimately have "udiv64 n d = Some (of_nat (unat n div D))" using run by (simp only:)
  then show ?thesis by (simp add: D_def word_arith_nat_div)
qed

text \<open>The second branch: the estimate is corrected by the comparison of the remainder.\<close>

lemma corrected_quotient:
  fixes n d :: u64
  assumes "q = unat n div unat d \<or> q = unat n div unat d + 1" "0 < unat d" "unat d \<le> unat n"
  shows "(if n - (of_nat q - 1) * d < d then of_nat q - 1 else of_nat q) = n div d"
proof -
  define N D Q where "N = unat n" and "D = unat d" and "Q = N div D"
  have nd: "n = of_nat N" "d = of_nat D" by (simp_all add: N_def D_def)
  have Q: "1 \<le> Q" "Q * D \<le> N" using assms(2,3) by (simp_all add: Q_def N_def D_def div_times_less_eq_dividend div_greater_zero_iff Suc_le_eq)
  have r: "N - Q * D < D" using assms(2) by (simp add: Q_def D_def minus_div_mult_eq_mod)
  have res: "n div d = of_nat Q" by (simp add: Q_def N_def D_def word_arith_nat_div)
  have lt: "N < 2 ^ 64" "D < 2 ^ 64" using unat_u64_less by (simp_all add: N_def D_def)
  have cmp: "n - of_nat k * d < d \<longleftrightarrow> N - k * D < D" if "k * D \<le> N" for k
  proof -
    have "n - of_nat k * d = of_nat (N - k * D)" using that by (simp add: nd of_nat_diff)
    moreover have "unat (of_nat (N - k * D) :: u64) = N - k * D" using lt by (intro unat_of_nat_u64) simp
    ultimately show ?thesis by (simp add: word_less_nat_alt D_def)
  qed
  show ?thesis
  proof (cases "q = Q")
    case True
    have "(of_nat q - 1 :: u64) = of_nat (Q - 1)" using True Q(1) by (simp add: of_nat_diff)
    moreover have "(Q - 1) * D \<le> N" using Q by (simp add: diff_mult_distrib)
    moreover have "\<not> N - (Q - 1) * D < D" using Q by (simp add: diff_mult_distrib)
    ultimately show ?thesis using cmp [of "Q - 1"] True res by simp
  next
    case False
    then have "(of_nat q - 1 :: u64) = of_nat Q" using assms(1) by (simp add: Q_def N_def D_def)
    then show ?thesis using cmp [of Q] Q(2) r res by simp
  qed
qed

lemma udiv64_long:
  assumes long: "drop_bit 32 d \<noteq> 0" and le: "\<not> n < d"
  shows "udiv64 n d = Some (n div d)"
proof -
  define N D d1 s where "N = unat n" and "D = unat d" and "d1 = (ucast (drop_bit 32 d) :: u32)" and "s = nlz d1"
  define A B :: nat where "A = 2 ^ s" and "B = 2 ^ (32 - s)"
  have d1: "unat d1 = D div 2 ^ 32" by (simp only: d1_def D_def unat_high)
  have "D div 2 ^ 32 \<noteq> 0" using long unat_drop32 [of d] by (metis D_def unat_eq_zero)
  then have "d1 \<noteq> 0" using d1 by (metis unat_0)
  then have s: "s \<le> 31" "2 ^ 31 \<le> D div 2 ^ 32 * A" "D div 2 ^ 32 * A < 2 ^ 32"
    using nlz_normalises [of d1] d1 by (simp_all add: s_def A_def)
  have AB: "A * B = 2 ^ 32" using s(1) by (simp add: A_def B_def flip: power_add)
  have A: "1 \<le> A" by (simp add: A_def)
  have B: "B = 2 * 2 ^ (31 - s)" using s(1) by (simp add: B_def Suc_diff_le flip: power_Suc)
  then have B1: "1 < B" using one_le_power [of "2::nat" "31 - s"] by linarith
  have "D div 2 ^ 32 < B" using s(3) AB A by (metis mult.commute mult_less_cancel2 less_le_trans zero_less_one)
  then have "D < B * 2 ^ 32" by (simp add: div_less_iff_less_mult)
  then have "D * A < B * 2 ^ 32 * A" using A by simp
  also have "\<dots> = 2 ^ 32 * 2 ^ 32" using AB by (simp add: mult.commute mult.left_commute)
  finally have DA: "D * A < 2 ^ 64" by simp
  have "D div 2 ^ 32 * A * 2 ^ 32 \<le> D * A" by (simp add: div_times_less_eq_dividend mult.assoc mult.left_commute [of A] mult.commute [of A])
  with mult_le_mono1 [OF s(2), of "2 ^ 32"] have "2 ^ 31 * 2 ^ 32 \<le> D * A" by (rule order_trans)
  then have DA': "2 ^ 63 \<le> D * A" by simp
  define v where "v = D * A div 2 ^ 32"
  have v: "2 ^ 31 \<le> v" "v < 2 ^ 32" using DA DA' by (simp_all add: v_def less_eq_div_iff_mult_less_eq div_less_iff_less_mult)
  have N: "N < 2 ^ 64" using unat_u64_less by (simp add: N_def)
  have "unat (push_bit s d) = D * A" using DA
    by (simp only: unsigned_push_bit_eq) (simp add: D_def A_def push_bit_eq_mult take_bit_nat_eq_self)
  then have v_word: "unat (ucast (drop_bit 32 (push_bit s d)) :: u32) = v" by (simp only: unat_high v_def)
  then have v_nz: "(ucast (drop_bit 32 (push_bit s d)) :: u32) \<noteq> 0" using v(1) by (metis unat_0 not_numeral_le_zero power_not_zero zero_neq_numeral le_zero_eq)
  have half: "unat (drop_bit 1 n) = N div 2"
    using N by (simp only: unsigned_drop_bit_eq) (simp add: drop_bit_eq_div take_bit_nat_eq_self N_def)
  have "N div 2 < 2 ^ 32 * 2 ^ 31" using N by simp
  also have "\<dots> \<le> 2 ^ 32 * v" using v(1) by simp
  finally have q1: "N div 2 div v < 2 ^ 32" using v(1) by (simp add: div_less_iff_less_mult)
  then have est: "divl (drop_bit 1 n) (ucast (drop_bit 32 (push_bit s d))) = Some (of_nat (N div 2 div v))"
    using v_nz unfolding divl_def half v_word by simp
  have "N div 2 div v div 2 ^ (31 - s) = N div (v * B)" by (simp add: B div_mult2_eq [symmetric] ac_simps)
  then have q: "(ucast (drop_bit (31 - s) (of_nat (N div 2 div v) :: u32)) :: u64) = of_nat (N div (v * B))"
    using q1 by (simp only: ucast_as_of_nat unsigned_drop_bit_eq) (simp add: drop_bit_eq_div unat_of_nat take_bit_nat_eq_self)
  have "N div (v * B) = N div D \<or> N div (v * B) = N div D + 1"
    using quotient_estimate(2) [OF AB A B1 N DA' DA refl] by (simp only: v_def)
  moreover have "0 < D" "D \<le> N" using \<open>D div 2 ^ 32 \<noteq> 0\<close> le by (auto simp: word_less_nat_alt N_def D_def intro: gr0I)
  ultimately have c: "(if n - (of_nat (N div (v * B)) - 1) * d < d then of_nat (N div (v * B)) - 1 else of_nat (N div (v * B))) = n div d"
    unfolding N_def D_def by (rule corrected_quotient)
  show ?thesis
    unfolding udiv64_def Let_def d1_def [symmetric] s_def [symmetric] est bind.bind_lunit q using long le by (simp only: if_False c)
qed

lemma udiv64_correct:
  assumes "d \<noteq> 0"
  shows "udiv64 n d = Some (n div d)"
proof -
  consider "drop_bit 32 d = 0" | "drop_bit 32 d \<noteq> 0" "n < d" | "drop_bit 32 d \<noteq> 0" "\<not> n < d" by blast
  then show ?thesis
  proof cases
    case 1 then show ?thesis using assms by (rule udiv64_short [rotated])
  next
    case 2
    then have "n div d = 0" by (simp add: word_arith_nat_div word_less_nat_alt)
    with 2 show ?thesis by (simp add: udiv64_def)
  next
    case 3 then show ?thesis by (rule udiv64_long)
  qed
qed

lemma udiv64_zero: "udiv64 n 0 = None"
  by (simp add: udiv64_def)

section \<open>Signed division\<close>

lemma uint_magnitude: "uint (if sint w \<ge> 0 then w else - w) = \<bar>sint w\<bar>" for w :: u64
proof -
  have "(if sint w \<ge> 0 then w else - w) = word_of_int \<bar>sint w\<bar>" by (simp add: abs_if)
  moreover have "\<bar>sint w\<bar> < 2 ^ 64" using sint_greater_eq [of w] sint_less [of w] by simp
  ultimately show ?thesis by (simp only: uint_word_of_int) (simp add: mod_pos_pos_trivial)
qed

lemma sdiv64_correct:
  assumes "d \<noteq> 0"
  shows "sdiv64 n d = Some (word_of_int (sint n sdiv sint d))"
proof -
  define n_abs d_abs where "n_abs = (if sint n \<ge> 0 then n else - n)" and "d_abs = (if sint d \<ge> 0 then d else - d)"
  have "d_abs \<noteq> 0" using assms by (simp add: d_abs_def)
  then have q: "udiv64 n_abs d_abs = Some (word_of_int (\<bar>sint n\<bar> div \<bar>sint d\<bar>))"
    using udiv64_correct [of d_abs n_abs] uint_magnitude [of n] uint_magnitude [of d]
    by (simp add: n_abs_def [symmetric] d_abs_def [symmetric] word_div_def)
  have "sint d \<noteq> 0" using assms by (metis signed_eq_0_iff)
  then have "(if (sint n < 0) = (sint d < 0) then \<bar>sint n\<bar> div \<bar>sint d\<bar> else - (\<bar>sint n\<bar> div \<bar>sint d\<bar>)) = sint n sdiv sint d"
    by (auto simp: signed_divide_int_def sgn_if)
  then have "(if (sint n < 0) = (sint d < 0) then word_of_int (\<bar>sint n\<bar> div \<bar>sint d\<bar>) else - word_of_int (\<bar>sint n\<bar> div \<bar>sint d\<bar>))
      = (word_of_int (sint n sdiv sint d) :: u64)"
    by (metis (no_types, lifting) wi_hom_neg)
  then show ?thesis
    by (simp only: sdiv64_def Let_def n_abs_def [symmetric] d_abs_def [symmetric] q bind.bind_lunit)
qed

lemma sdiv64_zero: "sdiv64 n 0 = None"
  by (simp add: sdiv64_def udiv64_zero)

section \<open>Remainders\<close>

lemma umod64_correct: "umod64 n d = (if d = 0 then None else Some (ucast (n mod d)))"
proof (cases "d = 0")
  case False
  have "n - d * (n div d) = n mod d" by (metis minus_mult_div_eq_mod)
  with False show ?thesis by (simp add: umod64_def udiv64_correct)
qed (simp add: umod64_def udiv64_zero)

lemma smod64_correct: "smod64 n d = (if d = 0 then None else Some (word_of_int (sint n smod sint d)))"
proof (cases "d = 0")
  case False
  have "n - d * word_of_int (sint n sdiv sint d) = word_of_int (sint n - sint d * (sint n sdiv sint d))" by simp
  also have "sint n - sint d * (sint n sdiv sint d) = sint n smod sint d"
    by (metis minus_mult_sdiv_eq_smod)
  finally have r: "n - d * word_of_int (sint n sdiv sint d) = word_of_int (sint n smod sint d)" .
  have "ucast (word_of_int k :: u64) = (word_of_int k :: u32)" for k
    by (rule bit_word_eqI) (simp add: bit_simps)
  with False show ?thesis by (simp only: smod64_def sdiv64_correct [OF False] r bind.bind_lunit if_False)
qed (simp add: smod64_def sdiv64_zero)

section \<open>The routines of the compiler\<close>

text \<open>C35: The 64-bit division of \<^verbatim>\<open>lib/arithmetic.c\<close> is exact: for every dividend and every divisor but 0 neither branch
  makes \<^verbatim>\<open>divl\<close> trap, and the result is the quotient, rounded towards 0 for signed operands, with the
  wrap-around of the most negative number divided by -1.\<close>

theorem division_exact:
  "udivdi3 n d = (if d = 0 then None else Some (n div d)) \<and>
   divdi3 n d = (if d = 0 then None else Some (word_of_int (sint n sdiv sint d)))"
  by (simp add: udivdi3_def divdi3_def udiv64_correct udiv64_zero sdiv64_correct sdiv64_zero)

text \<open>The remainders pass through 32 bits, because \<^verbatim>\<open>umod64\<close> returns \<^verbatim>\<open>uint32_t\<close> and \<^verbatim>\<open>smod64\<close> returns
  \<^verbatim>\<open>int32_t\<close>: \<^verbatim>\<open>n % d\<close> is right exactly when the remainder fits, and otherwise is its low half, without any trap.\<close>

theorem remainder_truncated:
  "umoddi3 n d = (if d = 0 then None else Some (take_bit 32 (n mod d))) \<and>
   moddi3 n d = (if d = 0 then None else Some (word_of_int (signed_take_bit 31 (sint n smod sint d)))) \<and>
   (umoddi3 n d = Some (n mod d) \<longleftrightarrow> d \<noteq> 0 \<and> n mod d < 2 ^ 32)"
proof (cases "d = 0")
  case False
  have u: "ucast (ucast w :: u32) = take_bit 32 w" for w :: u64
    by (rule bit_word_eqI) (simp add: bit_simps)
  have m: "scast (word_of_int k :: u32) = (word_of_int (signed_take_bit 31 k) :: u64)" for k
    by (rule bit_word_eqI) (auto simp: bit_simps min_def)
  have "take_bit 32 (n mod d) = n mod d \<longleftrightarrow> n mod d < 2 ^ 32"
    by (simp add: word_unat_eq_iff unsigned_take_bit_eq take_bit_nat_eq_self_iff word_less_nat_alt)
  with False show ?thesis by (auto simp: umoddi3_def moddi3_def umod64_correct smod64_correct u m)
qed (simp_all add: umoddi3_def moddi3_def umod64_correct smod64_correct)

end
