(* ===== verification/Malloc.thy ===== *)
theory Malloc
  imports Palloc Kernel_List
begin

text \<open>
  The block allocator of \<^verbatim>\<open>threads/malloc.c\<close>: blocks of seven sizes, cut out of single pages (arenas), and
  larger requests rounded up to whole pages.  The header of an arena is three words at the start of its page;
  the \<^verbatim>\<open>free_elem\<close> of a free block, at the start of the block, is an element of the heap of \<open>Kernel_List\<close>, beside
  the bytes of the memory.  Holding the lock of its descriptor makes each call one step.

  \<open>malloc_ok s L os\<close> is the contract: \<open>L\<close> maps the blocks that are handed out to their sizes, and \<open>os\<close> are
  the pages in use by anyone else.
\<close>

section \<open>State\<close>

record desc =
  desc_block_size :: nat
  blocks_per_arena :: nat

text \<open>\<open>descs\<close> holds the first \<^verbatim>\<open>desc_cnt\<close> elements of the array at \<open>descs_base\<close>.\<close>

record malloc_state =
  mlinks :: heap
  mpages :: page_mem
  descs :: "desc list"
  descs_base :: addr

definition ARENA_MAGIC :: u32 where "ARENA_MAGIC = 0x9a548eed"
definition sizeof_arena :: nat where "sizeof_arena = 12"
definition sizeof_desc :: nat where "sizeof_desc = 48"
definition DESC_MAX :: nat where "DESC_MAX = 10"

definition size_t :: "int \<Rightarrow> nat" where
  "size_t k = nat (k mod 2 ^ 32)"

text \<open>\<^verbatim>\<open>&descs[i]\<close>, its \<^verbatim>\<open>free_list\<close>, and the descriptor that a pointer points to.\<close>

definition desc_ptr :: "malloc_state \<Rightarrow> nat \<Rightarrow> addr" where
  "desc_ptr s i = descs_base s + sizeof_desc * i"

definition free_list :: "addr \<Rightarrow> addr" where
  "free_list d = d + 8"

definition desc_of :: "malloc_state \<Rightarrow> addr \<Rightarrow> desc option" where
  "desc_of s d = (let i = (d - descs_base s) div sizeof_desc in
     if i < length (descs s) \<and> d = desc_ptr s i then Some (descs s ! i) else None)"

text \<open>The members of \<^verbatim>\<open>struct arena\<close>.\<close>

definition header_word :: "malloc_state \<Rightarrow> addr \<Rightarrow> u32" where
  "header_word s a = load32 (ram (mpages s)) a"

definition set_word :: "malloc_state \<Rightarrow> addr \<Rightarrow> u32 \<Rightarrow> malloc_state" where
  "set_word s a w = s\<lparr>mpages := (mpages s)\<lparr>ram := store32 (ram (mpages s)) a w\<rparr>\<rparr>"

definition arena_magic :: "malloc_state \<Rightarrow> addr \<Rightarrow> u32" where
  "arena_magic s a = header_word s a"

definition arena_desc :: "malloc_state \<Rightarrow> addr \<Rightarrow> addr" where
  "arena_desc s a = unat (header_word s (a + 4))"

definition arena_free_cnt :: "malloc_state \<Rightarrow> addr \<Rightarrow> nat" where
  "arena_free_cnt s a = unat (header_word s (a + 8))"

definition init_arena :: "malloc_state \<Rightarrow> addr \<Rightarrow> addr \<Rightarrow> nat \<Rightarrow> malloc_state" where
  "init_arena s a d n = set_word (set_word (set_word s a ARENA_MAGIC) (a + 4) (of_nat d)) (a + 8) (of_nat n)"

section \<open>Operations\<close>

partial_function (option) malloc_init_loop :: "malloc_state \<Rightarrow> nat \<Rightarrow> malloc_state option" where
  "malloc_init_loop s bs = (if bs < PGSIZE div 2 then do {
     let d = desc_ptr s (length (descs s));
     ASSERT (length (descs s) + 1 \<le> DESC_MAX);
     h \<leftarrow> list_init (mlinks s) (free_list d);
     malloc_init_loop (s\<lparr>descs := descs s @ [\<lparr>desc_block_size = bs, blocks_per_arena = (PGSIZE - sizeof_arena) div bs\<rparr>],
         mlinks := h\<rparr>) (size_t (int bs * 2))
   } else Some s)"

definition malloc_init :: "malloc_state \<Rightarrow> malloc_state option" where
  "malloc_init s = malloc_init_loop s 16"

definition block_to_arena :: "malloc_state \<Rightarrow> addr \<Rightarrow> addr option" where
  "block_to_arena s b = do {
     let a = b - pg_ofs b;
     ASSERT (a \<noteq> NULL);
     ASSERT (arena_magic s a = ARENA_MAGIC);
     (if arena_desc s a = NULL then ASSERT (pg_ofs b = sizeof_arena)
      else do { d \<leftarrow> desc_of s (arena_desc s a); ASSERT (size_t (int (pg_ofs b) - int sizeof_arena) mod desc_block_size d = 0) });
     Some a
   }"

definition arena_to_block :: "malloc_state \<Rightarrow> addr \<Rightarrow> nat \<Rightarrow> addr option" where
  "arena_to_block s a idx = do {
     ASSERT (a \<noteq> NULL);
     ASSERT (arena_magic s a = ARENA_MAGIC);
     d \<leftarrow> desc_of s (arena_desc s a);
     ASSERT (idx < blocks_per_arena d);
     Some (a + sizeof_arena + idx * desc_block_size d)
   }"

text \<open>The first descriptor whose blocks are large enough.\<close>

fun find_desc :: "desc list \<Rightarrow> nat \<Rightarrow> nat \<Rightarrow> nat" where
  "find_desc [] sz i = i"
| "find_desc (d # ds) sz i = (if desc_block_size d \<ge> sz then i else find_desc ds sz (i + 1))"

fun add_blocks :: "malloc_state \<Rightarrow> addr \<Rightarrow> addr \<Rightarrow> nat list \<Rightarrow> malloc_state option" where
  "add_blocks s l a [] = Some s"
| "add_blocks s l a (i # is) = do {
     b \<leftarrow> arena_to_block s a i;
     h \<leftarrow> list_push_back (mlinks s) l b;
     add_blocks (s\<lparr>mlinks := h\<rparr>) l a is
   }"

definition malloc_big :: "malloc_state \<Rightarrow> nat \<Rightarrow> (addr \<times> malloc_state) option" where
  "malloc_big s sz = do {
     let page_cnt = size_t (int sz + int sizeof_arena + int PGSIZE - 1) div PGSIZE;
     (a, g) \<leftarrow> palloc_get_multiple (mpages s) 0 page_cnt;
     let s = s\<lparr>mpages := g\<rparr>;
     if a = NULL then Some (NULL, s)
     else Some (a + sizeof_arena, init_arena s a NULL page_cnt)
   }"

definition malloc_small :: "malloc_state \<Rightarrow> nat \<Rightarrow> (addr \<times> malloc_state) option" where
  "malloc_small s i = do {
     let l = free_list (desc_ptr s i);
     let n = blocks_per_arena (descs s ! i);
     em \<leftarrow> list_empty (mlinks s) l;
     r \<leftarrow> (if em then do {
         (a, g) \<leftarrow> palloc_get_page (mpages s) 0;
         let s = s\<lparr>mpages := g\<rparr>;
         if a = NULL then Some (Inl s)
         else do {
           let s = init_arena s a (desc_ptr s i) n;
           s \<leftarrow> add_blocks s l a [0..<n];
           Some (Inr s)
         }
       } else Some (Inr s));
     case r of Inl s \<Rightarrow> Some (NULL, s)
     | Inr s \<Rightarrow> do {
         (b, h) \<leftarrow> list_pop_front (mlinks s) l;
         let s = s\<lparr>mlinks := h\<rparr>;
         a \<leftarrow> block_to_arena s b;
         Some (b, set_word s (a + 8) (of_nat (arena_free_cnt s a) - 1))
       }
   }"

definition malloc_block :: "malloc_state \<Rightarrow> nat \<Rightarrow> (addr \<times> malloc_state) option" where
  "malloc_block s sz =
     (if sz = 0 then Some (NULL, s)
      else let i = find_desc (descs s) sz 0 in
        if i = length (descs s) then malloc_big s sz else malloc_small s i)"

text \<open>\<^verbatim>\<open>memset\<close> and \<^verbatim>\<open>memcpy\<close> on the memory of the state.\<close>

definition fill :: "malloc_state \<Rightarrow> addr \<Rightarrow> byte \<Rightarrow> nat \<Rightarrow> malloc_state option" where
  "fill s p v n = do { (_, m) \<leftarrow> memset (ram (mpages s)) p v n; Some (s\<lparr>mpages := (mpages s)\<lparr>ram := m\<rparr>\<rparr>) }"

definition calloc_block :: "malloc_state \<Rightarrow> nat \<Rightarrow> nat \<Rightarrow> (addr \<times> malloc_state) option" where
  "calloc_block s a b = do {
     let sz = size_t (int a * int b);
     if sz < a \<or> sz < b then Some (NULL, s)
     else do {
       (p, s) \<leftarrow> malloc_block s sz;
       s \<leftarrow> (if p \<noteq> NULL then fill s p 0 sz else Some s);
       Some (p, s)
     }
   }"

definition block_size_of :: "malloc_state \<Rightarrow> addr \<Rightarrow> nat option" where
  "block_size_of s b = do {
     a \<leftarrow> block_to_arena s b;
     if arena_desc s a \<noteq> NULL then do { d \<leftarrow> desc_of s (arena_desc s a); Some (desc_block_size d) }
     else Some (size_t (int (PGSIZE * arena_free_cnt s a) - int (pg_ofs b)))
   }"

fun remove_blocks :: "malloc_state \<Rightarrow> addr \<Rightarrow> nat list \<Rightarrow> malloc_state option" where
  "remove_blocks s a [] = Some s"
| "remove_blocks s a (i # is) = do {
     b \<leftarrow> arena_to_block s a i;
     (_, h) \<leftarrow> list_remove (mlinks s) b;
     remove_blocks (s\<lparr>mlinks := h\<rparr>) a is
   }"

definition free_block :: "malloc_state \<Rightarrow> addr \<Rightarrow> malloc_state option" where
  "free_block s p =
     (if p = NULL then Some s
      else do {
        a \<leftarrow> block_to_arena s p;
        if arena_desc s a \<noteq> NULL then do {
          d \<leftarrow> desc_of s (arena_desc s a);
          s \<leftarrow> fill s p 0xcc (desc_block_size d);
          h \<leftarrow> list_push_front (mlinks s) (free_list (arena_desc s a)) p;
          let s = set_word (s\<lparr>mlinks := h\<rparr>) (a + 8) (of_nat (arena_free_cnt s a) + 1);
          if arena_free_cnt s a \<ge> blocks_per_arena d then do {
            ASSERT (arena_free_cnt s a = blocks_per_arena d);
            s \<leftarrow> remove_blocks s a [0..<blocks_per_arena d];
            g \<leftarrow> palloc_free_page (mpages s) a;
            Some (s\<lparr>mpages := g\<rparr>)
          } else Some s
        } else do {
          g \<leftarrow> palloc_free_multiple (mpages s) a (arena_free_cnt s a);
          Some (s\<lparr>mpages := g\<rparr>)
        }
      })"

definition realloc_block :: "malloc_state \<Rightarrow> addr \<Rightarrow> nat \<Rightarrow> (addr \<times> malloc_state) option" where
  "realloc_block s old_block new_size =
     (if new_size = 0 then do { s \<leftarrow> free_block s old_block; Some (NULL, s) }
      else do {
        (new_block, s) \<leftarrow> malloc_block s new_size;
        if old_block \<noteq> NULL \<and> new_block \<noteq> NULL then do {
          old_size \<leftarrow> block_size_of s old_block;
          let min_size = (if new_size < old_size then new_size else old_size);
          (_, m) \<leftarrow> memcpy (ram (mpages s)) new_block old_block min_size;
          s \<leftarrow> free_block (s\<lparr>mpages := (mpages s)\<lparr>ram := m\<rparr>\<rparr>) old_block;
          Some (new_block, s)
        } else Some (new_block, s)
      })"

end
