(* ===== verification/Malloc_Blocks.thy ===== *)
theory Malloc_Blocks
  imports Malloc
begin

text \<open>
  The invariant of the block allocator: which pages are arenas, which of their arena_blocks are free, and which
  are handed out.
\<close>

section \<open>Blocks and arenas\<close>

definition blk_size :: "nat \<Rightarrow> nat" where "blk_size i = 16 * 2 ^ i"

definition blk_count :: "nat \<Rightarrow> nat" where "blk_count i = 4084 div blk_size i"

definition arena_blocks :: "nat \<Rightarrow> addr \<Rightarrow> addr list" where
  "arena_blocks i a = map (\<lambda>k. a + 12 + k * blk_size i) [0..<blk_count i]"

datatype arena_kind = Small nat | Big nat

fun page_count :: "arena_kind \<Rightarrow> nat" where
  "page_count (Small i) = 1"
| "page_count (Big n) = n"

abbreviation arena_pages :: "addr \<Rightarrow> arena_kind \<Rightarrow> addr set" where
  "arena_pages a k \<equiv> pages_at a (page_count k)"

type_synonym arenas = "addr \<Rightarrow> arena_kind option"

definition owned :: "arenas \<Rightarrow> addr set" where
  "owned A = (\<Union>(a, k)\<in>{(a, k). A a = Some k}. arena_pages a k)"

lemma blk_size_pos [simp]: "0 < blk_size i" and blk_size_not_0 [simp]: "blk_size i \<noteq> 0"
  by (simp_all add: blk_size_def)

lemma blk_count_bsize: "blk_count i * blk_size i \<le> 4084"
  by (simp add: blk_count_def div_times_less_eq_dividend)

lemma blk_count_pos: "i < 7 \<Longrightarrow> 0 < blk_count i"
proof -
  assume "i < 7"
  then have "(2::nat) ^ i \<le> 2 ^ 6" by (intro power_increasing) simp_all
  then show ?thesis by (simp add: blk_count_def blk_size_def div_greater_zero_iff)
qed

lemma length_blocks [simp]: "length (arena_blocks i a) = blk_count i"
  by (simp add: arena_blocks_def)

lemma distinct_blocks [simp]: "distinct (arena_blocks i a)"
  by (auto simp: arena_blocks_def distinct_map inj_on_def)

lemma card_blocks [simp]: "card (set (arena_blocks i a)) = blk_count i"
  by (simp add: distinct_card)

lemma mem_blocks: "b \<in> set (arena_blocks i a) \<longleftrightarrow> (\<exists>k<blk_count i. b = a + 12 + k * blk_size i)"
  by (auto simp: arena_blocks_def)

lemma block_bounds:
  assumes "b \<in> set (arena_blocks i a)"
  shows "a + 12 \<le> b" "b + blk_size i \<le> a + 4096"
proof -
  obtain k where k: "k < blk_count i" "b = a + 12 + k * blk_size i" using assms by (auto simp: mem_blocks)
  have "Suc k * blk_size i \<le> blk_count i * blk_size i" using k(1) by (intro mult_le_mono1) simp
  also have "\<dots> \<le> 4084" by (rule blk_count_bsize)
  finally show "a + 12 \<le> b" "b + blk_size i \<le> a + 4096" using k(2) by simp_all
qed

lemma block_page: "b \<in> set (arena_blocks i a) \<Longrightarrow> a mod 4096 = 0 \<Longrightarrow> page_base b = a"
proof -
  assume b: "b \<in> set (arena_blocks i a)" "a mod 4096 = 0"
  then have lt: "b - a < 4096" "a \<le> b" using block_bounds [OF b(1)] blk_size_pos [of i] by linarith+
  from page_base_inside [OF b(2) lt(1)] lt(2) show "page_base b = a" by simp
qed

lemma block_pg_ofs: "b \<in> set (arena_blocks i a) \<Longrightarrow> a mod 4096 = 0 \<Longrightarrow> pg_ofs b = b - a"
proof -
  assume b: "b \<in> set (arena_blocks i a)" "a mod 4096 = 0"
  then have lt: "b - a < 4096" "a \<le> b" using block_bounds [OF b(1)] blk_size_pos [of i] by linarith+
  then have "b mod 4096 = (a + (b - a)) mod 4096" by simp
  also have "\<dots> = b - a" using b(2) lt(1) by (metis mod_add_left_eq add_0 mod_less)
  finally show ?thesis by (simp add: pg_ofs_eq)
qed

lemma blocks_apart:
  assumes "b \<in> set (arena_blocks i a)" "c \<in> set (arena_blocks i a)" "b \<noteq> c"
  shows "apart_from b (blk_size i) c (blk_size i)"
proof -
  obtain k l where kl: "b = a + 12 + k * blk_size i" "c = a + 12 + l * blk_size i" using assms by (auto simp: mem_blocks)
  with assms(3) consider "Suc k \<le> l" | "Suc l \<le> k" by (cases k l rule: linorder_cases) auto
  then show ?thesis
  proof cases
    case 1
    from mult_le_mono1 [OF this, of "blk_size i"] show ?thesis by (simp add: kl apart_from_def)
  next
    case 2
    from mult_le_mono1 [OF this, of "blk_size i"] show ?thesis by (simp add: kl apart_from_def)
  qed
qed

section \<open>The invariant\<close>

definition static_ok :: "malloc_state \<Rightarrow> bool" where
  "static_ok s \<longleftrightarrow> descs s = map (\<lambda>i. \<lparr>desc_block_size = blk_size i, blocks_per_arena = blk_count i\<rparr>) [0..<7] \<and>
     palloc_ok (mpages s) \<and> 0 < descs_base s \<and> descs_base s + 480 \<le> pool_base (kernel_pool (mpages s))"

fun header_ok :: "malloc_state \<Rightarrow> (nat \<Rightarrow> addr list) \<Rightarrow> addr \<Rightarrow> arena_kind \<Rightarrow> bool" where
  "header_ok s F a (Small i) \<longleftrightarrow> i < 7 \<and> arena_magic s a = ARENA_MAGIC \<and> arena_desc s a = desc_ptr s i \<and>
     arena_free_cnt s a = card (set (F i) \<inter> set (arena_blocks i a))"
| "header_ok s F a (Big n) \<longleftrightarrow> 0 < n \<and> arena_magic s a = ARENA_MAGIC \<and> arena_desc s a = NULL \<and> arena_free_cnt s a = n"

definition arenas_ok :: "malloc_state \<Rightarrow> arenas \<Rightarrow> (nat \<Rightarrow> addr list) \<Rightarrow> bool" where
  "arenas_ok s A F \<longleftrightarrow> (\<forall>a k. A a = Some k \<longrightarrow> a mod 4096 = 0 \<and> pool_base (kernel_pool (mpages s)) \<le> a \<and>
     a + 4096 * page_count k \<le> 2 ^ 32 \<and> arena_pages a k \<subseteq> allocated (mpages s) \<and> header_ok s F a k)"

definition arenas_apart :: "arenas \<Rightarrow> bool" where
  "arenas_apart A \<longleftrightarrow> (\<forall>a k b l. A a = Some k \<and> A b = Some l \<and> a \<noteq> b \<longrightarrow> arena_pages a k \<inter> arena_pages b l = {})"

definition lists_ok :: "malloc_state \<Rightarrow> arenas \<Rightarrow> (nat \<Rightarrow> addr list) \<Rightarrow> bool" where
  "lists_ok s A F \<longleftrightarrow> (\<forall>i<7. represents (mlinks s) (free_list (desc_ptr s i)) (F i) \<and>
     (\<forall>b\<in>set (F i). A (page_base b) = Some (Small i) \<and> b \<in> set (arena_blocks i (page_base b))))"

definition malloc_inv :: "malloc_state \<Rightarrow> arenas \<Rightarrow> (nat \<Rightarrow> addr list) \<Rightarrow> bool" where
  "malloc_inv s A F \<longleftrightarrow> static_ok s \<and> arenas_ok s A F \<and> arenas_apart A \<and> lists_ok s A F"

text \<open>No arena is entirely free.\<close>

definition busy :: "arenas \<Rightarrow> (nat \<Rightarrow> addr list) \<Rightarrow> bool" where
  "busy A F \<longleftrightarrow> (\<forall>a i. A a = Some (Small i) \<longrightarrow> \<not> set (arena_blocks i a) \<subseteq> set (F i))"

text \<open>The arena_blocks that are handed out, with their sizes.\<close>

definition live :: "arenas \<Rightarrow> (nat \<Rightarrow> addr list) \<Rightarrow> addr \<Rightarrow> nat option" where
  "live A F b = (case A (page_base b) of
     None \<Rightarrow> None
   | Some (Small i) \<Rightarrow> if b \<in> set (arena_blocks i (page_base b)) \<and> b \<notin> set (F i) then Some (blk_size i) else None
   | Some (Big n) \<Rightarrow> if b = page_base b + 12 then Some (4096 * n - 12) else None)"

definition malloc_ok :: "malloc_state \<Rightarrow> (addr \<Rightarrow> nat option) \<Rightarrow> addr set \<Rightarrow> bool" where
  "malloc_ok s L os \<longleftrightarrow> (\<exists>A F. malloc_inv s A F \<and> busy A F \<and> L = live A F \<and>
     allocated (mpages s) = os \<union> owned A \<and> os \<inter> owned A = {})"

section \<open>Handed-out arena_blocks do not overlap\<close>

lemma live_cases:
  assumes "live A F b = Some n"
  obtains i where "A (page_base b) = Some (Small i)" "b \<in> set (arena_blocks i (page_base b))" "b \<notin> set (F i)" "n = blk_size i"
  | m where "A (page_base b) = Some (Big m)" "b = page_base b + 12" "n = 4096 * m - 12"
  using assms by (auto simp: live_def split: option.splits arena_kind.splits if_splits)

lemma live_inside:
  assumes inv: "malloc_inv s A F" and b: "live A F b = Some n"
  obtains k where "A (page_base b) = Some k" "page_base b + 12 \<le> b" "b + n \<le> page_base b + 4096 * page_count k" "0 < n"
  using b
proof (cases rule: live_cases)
  case (1 i)
  with block_bounds [OF 1(2)] show thesis by (intro that) auto
next
  case (2 m)
  then have "header_ok s F (page_base b) (Big m)" using inv unfolding malloc_inv_def arenas_ok_def by blast
  then have "0 < m" by simp
  with 2 show thesis by (intro that [OF 2(1)]) auto
qed

lemma pages_disjoint_apart:
  assumes "pages_at a m \<inter> pages_at b n = {}" "a mod 4096 = 0" "b mod 4096 = 0" "0 < m" "0 < n"
  shows "a + 4096 * m \<le> b \<or> b + 4096 * n \<le> a"
proof (rule ccontr)
  assume c: "\<not> ?thesis"
  obtain x y where xy: "a = 4096 * x" "b = 4096 * y" using assms(2,3) by (auto elim!: dvdE)
  with c have "y < x + m" "x < y + n" by auto
  then have "4096 * max x y \<in> pages_at a m" "4096 * max x y \<in> pages_at b n"
    unfolding mem_pages_at xy using assms(4,5)
    by (intro exI [of _ "max x y - x"], auto) (intro exI [of _ "max x y - y"], auto)
  with assms(1) show False by blast
qed

lemma live_apart:
  assumes inv: "malloc_inv s A F" and b: "live A F b = Some n" and c: "live A F c = Some m" and ne: "b \<noteq> c"
  shows "apart_from b n c m"
proof -
  obtain k where k: "A (page_base b) = Some k" "page_base b + 12 \<le> b" "b + n \<le> page_base b + 4096 * page_count k"
    using live_inside [OF inv b] by metis
  obtain l where l: "A (page_base c) = Some l" "page_base c + 12 \<le> c" "c + m \<le> page_base c + 4096 * page_count l"
    using live_inside [OF inv c] by metis
  show ?thesis
  proof (cases "page_base b = page_base c")
    case True
    show ?thesis using b
    proof (cases rule: live_cases)
      case (1 i)
      moreover from c have "c \<in> set (arena_blocks i (page_base c))" "m = blk_size i" using 1(1) True
        by (auto simp: live_def split: if_splits)
      ultimately show ?thesis using True ne by (auto intro: blocks_apart)
    next
      case (2 j)
      with c True ne show ?thesis by (auto simp: live_def split: if_splits)
    qed
  next
    case False
    then have "arena_pages (page_base b) k \<inter> arena_pages (page_base c) l = {}"
      using inv k(1) l(1) by (auto simp: malloc_inv_def arenas_apart_def)
    moreover have "0 < page_count k" "0 < page_count l" "page_base b mod 4096 = 0" "page_base c mod 4096 = 0"
      using inv k(1) l(1) by (cases k; cases l; fastforce simp: malloc_inv_def arenas_ok_def)+
    ultimately show ?thesis using k(2,3) l(2,3) pages_disjoint_apart unfolding apart_from_def by (meson add_le_mono le_trans le_add1 order_trans)
  qed
qed

lemma malloc_ok_apart: "malloc_ok s L os \<Longrightarrow> L b = Some n \<Longrightarrow> L c = Some m \<Longrightarrow> b \<noteq> c \<Longrightarrow> apart_from b n c m"
  by (auto simp: malloc_ok_def intro: live_apart)

text \<open>When nothing is handed out, every page has been returned.\<close>

lemma malloc_ok_empty: 
  assumes "malloc_ok s Map.empty os"
  shows "allocated (mpages s) = os"
proof -
  obtain A F where inv: "malloc_inv s A F" "busy A F" "Map.empty = live A F" "allocated (mpages s) = os \<union> owned A"
    using assms by (auto simp: malloc_ok_def)
  have "A a = None" for a
  proof (rule ccontr)
    assume "A a \<noteq> None"
    then obtain k where k: "A a = Some k" by auto
    then have a: "a mod 4096 = 0" using inv(1) by (auto simp: malloc_inv_def arenas_ok_def)
    have "\<exists>b. live A F b \<noteq> None"
    proof (cases k)
      case (Small i)
      with inv(2) k obtain b where "b \<in> set (arena_blocks i a)" "b \<notin> set (F i)" by (auto simp: busy_def)
      with k Small block_page [OF _ a] show ?thesis by (intro exI [of _ b]) (simp add: live_def)
    next
      case (Big n)
      have "page_base (a + 12) = a" using a by (rule page_base_inside) simp
      with k Big show ?thesis by (intro exI [of _ "a + 12"]) (simp add: live_def)
    qed
    then show False by (simp flip: inv(3))
  qed
  then show ?thesis using inv(4) by (simp add: owned_def)
qed

end
