(* ===== verification/Malloc_Steps.thy ===== *)
theory Malloc_Steps
  imports Malloc_Blocks
begin

text \<open>
  The parts of \<^verbatim>\<open>malloc\<close> and \<^verbatim>\<open>free\<close>, one lemma each: taking a block from a free list, giving it back, cutting a
  new arena into blocks, giving a free arena back, and large blocks.
\<close>

section \<open>Reading and writing headers\<close>

lemma set_word_simps [simp]:
  "mlinks (set_word s x w) = mlinks s" "descs (set_word s x w) = descs s" "descs_base (set_word s x w) = descs_base s"
  "kernel_pool (mpages (set_word s x w)) = kernel_pool (mpages s)" "palloc_ok (mpages (set_word s x w)) = palloc_ok (mpages s)"
  "allocated (mpages (set_word s x w)) = allocated (mpages s)" "ram (mpages (set_word s x w)) = store32 (ram (mpages s)) x w"
  by (simp_all add: set_word_def)

lemma desc_ptr_cong: "descs_base s' = descs_base s \<Longrightarrow> desc_ptr s' i = desc_ptr s i"
  by (simp add: desc_ptr_def)

lemma desc_of_ptr:
  assumes "static_ok s" "i < 7"
  shows "desc_of s (desc_ptr s i) = Some \<lparr>desc_block_size = blk_size i, blocks_per_arena = blk_count i\<rparr>"
  using assms by (simp add: desc_of_def desc_ptr_def sizeof_desc_def static_ok_def)

lemma desc_ptr_props:
  assumes "static_ok s" "i < 7"
  shows "desc_ptr s i \<noteq> NULL" "unat (of_nat (desc_ptr s i) :: u32) = desc_ptr s i"
    "desc_ptr s i + 48 \<le> pool_base (kernel_pool (mpages s))"
proof -
  have b: "descs_base s + 480 \<le> pool_base (kernel_pool (mpages s))" "0 < descs_base s"
    "pool_base (kernel_pool (mpages s)) < 2 ^ 32" "pool_ok (user_pool (mpages s))"
    using assms(1) by (auto simp: static_ok_def palloc_ok_def pool_ok_def)
  show "desc_ptr s i \<noteq> NULL" "desc_ptr s i + 48 \<le> pool_base (kernel_pool (mpages s))"
    using b assms(2) by (simp_all add: desc_ptr_def sizeof_desc_def)
  then show "unat (of_nat (desc_ptr s i) :: u32) = desc_ptr s i" using b(3) by (simp add: unat_of_nat take_bit_nat_eq_self)
qed

lemma header_ok_frame:
  assumes "header_ok s F a k" "\<And>x. a \<le> x \<Longrightarrow> x < a + 12 \<Longrightarrow> ram (mpages s') x = ram (mpages s) x" "descs_base s' = descs_base s"
    "\<And>i. k = Small i \<Longrightarrow> set (F' i) \<inter> set (arena_blocks i a) = set (F i) \<inter> set (arena_blocks i a)"
  shows "header_ok s' F' a k"
proof -
  have "header_word s' a = header_word s a" "header_word s' (a + 4) = header_word s (a + 4)" "header_word s' (a + 8) = header_word s (a + 8)"
    unfolding header_word_def by (rule load32_cong, rule assms(2); simp)+
  then show ?thesis using assms(1,4) desc_ptr_cong [OF assms(3)]
    by (cases k) (simp_all add: arena_magic_def arena_desc_def arena_free_cnt_def)
qed

lemma init_arena_simps [simp]:
  "mlinks (init_arena s a d n) = mlinks s" "descs (init_arena s a d n) = descs s" "descs_base (init_arena s a d n) = descs_base s"
  "kernel_pool (mpages (init_arena s a d n)) = kernel_pool (mpages s)" "palloc_ok (mpages (init_arena s a d n)) = palloc_ok (mpages s)"
  "allocated (mpages (init_arena s a d n)) = allocated (mpages s)"
  by (simp_all add: init_arena_def)

lemma init_arena_header:
  "arena_magic (init_arena s a d n) a = ARENA_MAGIC" "arena_desc (init_arena s a d n) a = unat (of_nat d :: u32)"
  "arena_free_cnt (init_arena s a d n) a = unat (of_nat n :: u32)"
  by (simp_all add: init_arena_def arena_magic_def arena_desc_def arena_free_cnt_def header_word_def apart_from_def)

lemma init_arena_outside: "x < a \<or> a + 12 \<le> x \<Longrightarrow> ram (mpages (init_arena s a d n)) x = ram (mpages s) x"
  by (auto simp: init_arena_def store32_outside)

lemma arena_free_cnt_set: "n < 2 ^ 32 \<Longrightarrow> arena_free_cnt (set_word s (a + 8) (of_nat n)) a = n"
  by (simp add: arena_free_cnt_def header_word_def unat_of_nat take_bit_nat_eq_self)

text \<open>Two arenas are apart, the header of the one from all pages of the other.\<close>

lemma arenas_ranges:
  assumes "arenas_ok s A F" "arenas_apart A" "A a = Some k" "A b = Some l" "a \<noteq> b"
  shows "a + 4096 * page_count k \<le> b \<or> b + 4096 * page_count l \<le> a"
proof (rule pages_disjoint_apart)
  show "arena_pages a k \<inter> arena_pages b l = {}" using assms(2-5) by (auto simp: arenas_apart_def)
  have "header_ok s F a k" "header_ok s F b l" using assms(1,3,4) by (auto simp: arenas_ok_def)
  then show "0 < page_count k" "0 < page_count l" by (cases k; cases l; simp)+
  show "a mod 4096 = 0" "b mod 4096 = 0" using assms(1,3,4) unfolding arenas_ok_def by blast+
qed

lemma arena_facts:
  assumes "arenas_ok s A F" "A a = Some k"
  shows "a mod 4096 = 0" "pool_base (kernel_pool (mpages s)) \<le> a" "a + 4096 * page_count k \<le> 2 ^ 32"
    "arena_pages a k \<subseteq> allocated (mpages s)" "header_ok s F a k" "0 < page_count k"
proof -
  show h: "a mod 4096 = 0" "pool_base (kernel_pool (mpages s)) \<le> a" "a + 4096 * page_count k \<le> 2 ^ 32"
    "arena_pages a k \<subseteq> allocated (mpages s)" "header_ok s F a k"
    using assms unfolding arenas_ok_def by blast+
  from h(5) show "0 < page_count k" by (cases k) simp_all
qed

lemma arenas_ok_change:
  assumes ok: "arenas_ok s A F" "arenas_apart A" and a: "A a = Some l"
    and ram: "\<And>x. x < a \<or> a + 4096 * page_count l \<le> x \<Longrightarrow> ram (mpages s') x = ram (mpages s) x"
    and same: "descs_base s' = descs_base s" "kernel_pool (mpages s') = kernel_pool (mpages s)" "allocated (mpages s') = allocated (mpages s)"
    and lists: "\<And>c i. A c = Some (Small i) \<Longrightarrow> c \<noteq> a \<Longrightarrow> set (F' i) \<inter> set (arena_blocks i c) = set (F i) \<inter> set (arena_blocks i c)"
    and here: "header_ok s' F' a l"
  shows "arenas_ok s' A F'"
  unfolding arenas_ok_def
proof (intro allI impI)
  fix c k assume c: "A c = Some k"
  have "header_ok s' F' c k"
  proof (cases "c = a")
    case True
    then show ?thesis using here a c by simp
  next
    case False
    show ?thesis
    proof (rule header_ok_frame [OF arena_facts(5) [OF ok(1) c]])
      fix x assume "c \<le> x" "x < c + 12"
      with arenas_ranges [OF ok c a False] arena_facts(6) [OF ok(1) c] have "x < a \<or> a + 4096 * page_count l \<le> x" by linarith
      then show "ram (mpages s') x = ram (mpages s) x" by (rule ram)
    qed (use same(1) lists c False in auto)
  qed
  with arena_facts [OF ok(1) c] same(2,3)
  show "c mod 4096 = 0 \<and> pool_base (kernel_pool (mpages s')) \<le> c \<and> c + 4096 * page_count k \<le> 2 ^ 32 \<and>
      arena_pages c k \<subseteq> allocated (mpages s') \<and> header_ok s' F' c k" by simp
qed

section \<open>One free list at a time\<close>

lemma list_elements:
  assumes "static_ok s" "arenas_ok s A F" "A (page_base b) = Some (Small i)" "b \<in> set (arena_blocks i (page_base b))" "j < 7"
  shows "b \<noteq> NULL" "b \<noteq> head_of (free_list (desc_ptr s j))" "b \<noteq> tail_of (free_list (desc_ptr s j))"
  using block_bounds(1) [OF assms(4)] arena_facts(2) [OF assms(2,3)] desc_ptr_props [OF assms(1,5)]
  by (auto simp: head_of_def tail_of_def free_list_def)

lemma lists_ok_change:
  assumes st: "static_ok s" "arenas_ok s A G" "lists_ok s A F" and i: "i < 7"
    and h: "represents h (free_list (desc_ptr s i)) xs"
      "\<And>x. x \<notin> set (F i) \<union> set xs \<union> {head_of (free_list (desc_ptr s i)), tail_of (free_list (desc_ptr s i))} \<Longrightarrow> h x = mlinks s x"
    and xs: "\<And>b. b \<in> set xs \<Longrightarrow> A (page_base b) = Some (Small i) \<and> b \<in> set (arena_blocks i (page_base b))"
    and s': "mlinks s' = h" "descs_base s' = descs_base s"
  shows "lists_ok s' A (F(i := xs))"
proof -
  have own: "A (page_base b) = Some (Small j) \<and> b \<in> set (arena_blocks j (page_base b))" if "j < 7" "b \<in> set (F j)" for j b
    using st(3) that by (auto simp: lists_ok_def)
  have "represents h (free_list (desc_ptr s j)) (F j)" if j: "j < 7" "j \<noteq> i" for j
  proof (rule represents_frame)
    show "represents (mlinks s) (free_list (desc_ptr s j)) (F j)" using st(3) j(1) by (simp add: lists_ok_def)
  next
    fix x assume x: "x \<in> set (head_of (free_list (desc_ptr s j)) # F j @ [tail_of (free_list (desc_ptr s j))])"
    have ends: "head_of (free_list (desc_ptr s j)) \<notin> {head_of (free_list (desc_ptr s i)), tail_of (free_list (desc_ptr s i))}"
      "tail_of (free_list (desc_ptr s j)) \<notin> {head_of (free_list (desc_ptr s i)), tail_of (free_list (desc_ptr s i))}"
      using j(2) by (auto simp: head_of_def tail_of_def free_list_def desc_ptr_def sizeof_desc_def)
    have el: "b \<notin> {head_of (free_list (desc_ptr s k)), tail_of (free_list (desc_ptr s k))}"
      if "b \<in> set (F i) \<union> set xs \<union> set (F j)" "k < 7" for b k
      using that own [OF i, of b] own [OF j(1), of b] xs [of b] list_elements [OF st(1,2) _ _ that(2), of b] by blast
    have "set (F j) \<inter> (set (F i) \<union> set xs) = {}"
      using own [OF i] own [OF j(1)] xs j(2) by fastforce
    then have "x \<notin> set (F i) \<union> set xs \<union> {head_of (free_list (desc_ptr s i)), tail_of (free_list (desc_ptr s i))}"
      using x ends el [of _ i] el [of _ j] i j(1) by auto
    then show "h x = mlinks s x" by (rule h(2))
  qed
  then show ?thesis using h(1) own xs s' i by (auto simp: lists_ok_def desc_ptr_def)
qed

section \<open>Taking a block and giving it back\<close>

lemma block_arena_run:
  assumes st: "static_ok s" "arenas_ok s A F" and b: "A (page_base b) = Some (Small i)" "b \<in> set (arena_blocks i (page_base b))"
    and s': "descs s' = descs s" "descs_base s' = descs_base s" "mpages s' = mpages s"
  shows "block_to_arena s' b = Some (page_base b)"
proof -
  define a where "a = page_base b"
  have a: "a mod 4096 = 0" "pool_base (kernel_pool (mpages s)) \<le> a" "header_ok s F a (Small i)"
    using arena_facts [OF st(2) b(1)] by (simp_all add: a_def)
  have i: "i < 7" using a(3) by simp
  have ofs: "pg_ofs b = b - a" using block_pg_ofs [OF b(2)] a(1) by (simp add: a_def)
  have ge: "a + 12 \<le> b" "b < a + 4096" using block_bounds [OF b(2)] blk_size_pos [of i] unfolding a_def by linarith+
  have ab: "b - pg_ofs b = a" using ofs ge by simp
  have "static_ok s'" using st(1) s' by (simp add: static_ok_def)
  then have d: "desc_of s' (desc_ptr s i) = Some \<lparr>desc_block_size = blk_size i, blocks_per_arena = blk_count i\<rparr>"
    using desc_of_ptr [of s' i] i s'(2) by (simp add: desc_ptr_def)
  have hdr: "arena_magic s' a = ARENA_MAGIC" "arena_desc s' a = desc_ptr s i"
    using a(3) s'(3) by (simp_all add: arena_magic_def arena_desc_def header_word_def)
  obtain k where "b = a + 12 + k * blk_size i" using b(2) by (auto simp: mem_blocks a_def)
  then have "size_t (int (pg_ofs b) - int sizeof_arena) = k * blk_size i" and "b - a - 12 = k * blk_size i"
    using ofs ge by (auto simp: size_t_def sizeof_arena_def nat_mod_distrib simp flip: of_nat_diff of_nat_mult)
  moreover have "a \<noteq> NULL" using desc_ptr_props [OF st(1) i] a(2) by auto
  ultimately show ?thesis
    using hdr d desc_ptr_props(1) [OF st(1) i] unfolding block_to_arena_def Let_def ab by (simp add: a_def)
qed

lemma set_Int_block_other:
  assumes "\<And>x. x \<in> set xs - set ys \<union> (set ys - set xs) \<Longrightarrow> x \<in> set (arena_blocks i a)"
    "a mod 4096 = 0" "c mod 4096 = 0" "c \<noteq> a"
  shows "set xs \<inter> set (arena_blocks i c) = set ys \<inter> set (arena_blocks i c)"
proof -
  have "x \<in> set xs \<longleftrightarrow> x \<in> set ys" if "x \<in> set (arena_blocks i c)" for x
  proof -
    have "x \<notin> set (arena_blocks i a)" using that assms(2-4) block_page [of x i a] block_page [of x i c] by metis
    then show ?thesis using assms(1) [of x] by blast
  qed
  then show ?thesis by blast
qed

text \<open>A free list and the counter of the one arena that changed.\<close>

lemma arenas_ok_counter:
  assumes ok: "arenas_ok s A F" "arenas_apart A" and a: "A a = Some (Small i)"
    and same: "descs_base s' = descs_base s" "kernel_pool (mpages s') = kernel_pool (mpages s)" "allocated (mpages s') = allocated (mpages s)"
    and ram: "\<And>x. x < a + 8 \<or> a + 4096 \<le> x \<Longrightarrow> ram (mpages s') x = ram (mpages s) x"
    and n: "arena_free_cnt s' a = card (set xs \<inter> set (arena_blocks i a))"
    and xs: "\<And>x. x \<in> set xs - set (F i) \<union> (set (F i) - set xs) \<Longrightarrow> x \<in> set (arena_blocks i a)"
  shows "arenas_ok s' A (F(i := xs))"
proof (rule arenas_ok_change [OF ok a _ same])
  have al: "c mod 4096 = 0" if "A c = Some k" for c k using arena_facts(1) [OF ok(1) that] .
  show "set ((F(i := xs)) j) \<inter> set (arena_blocks j c) = set (F j) \<inter> set (arena_blocks j c)"
    if "A c = Some (Small j)" "c \<noteq> a" for c j
    using set_Int_block_other [OF xs al [OF a] al [OF that(1)] that(2)] by simp
  have "header_word s' a = header_word s a" "header_word s' (a + 4) = header_word s (a + 4)"
    unfolding header_word_def by (rule load32_cong, rule ram; simp)+
  then show "header_ok s' (F(i := xs)) a (Small i)"
    using arena_facts(5) [OF ok(1) a] n same(1) by (simp add: arena_magic_def arena_desc_def desc_ptr_def)
qed (use ram in auto)

lemma card_blocks_le: "card (xs \<inter> set (arena_blocks i a)) \<le> 4084"
proof -
  have "card (xs \<inter> set (arena_blocks i a)) \<le> blk_count i" using card_mono [of "set (arena_blocks i a)"] by simp
  also have "\<dots> \<le> 4084" by (simp add: blk_count_def)
  finally show ?thesis .
qed

lemma static_ok_cong:
  "static_ok s \<Longrightarrow> descs s' = descs s \<Longrightarrow> descs_base s' = descs_base s \<Longrightarrow> palloc_ok (mpages s') \<Longrightarrow>
   pool_base (kernel_pool (mpages s')) = pool_base (kernel_pool (mpages s)) \<Longrightarrow> static_ok s'"
  by (simp add: static_ok_def)

lemma take_block:
  assumes inv: "malloc_inv s A F" and i: "i < 7" and F: "F i = b # xs"
  obtains h where "list_pop_front (mlinks s) (free_list (desc_ptr s i)) = Some (b, h)"
    "A (page_base b) = Some (Small i)" "b \<in> set (arena_blocks i (page_base b))" "b \<notin> set xs"
    "block_to_arena (s\<lparr>mlinks := h\<rparr>) b = Some (page_base b)"
    "malloc_inv (set_word (s\<lparr>mlinks := h\<rparr>) (page_base b + 8) (of_nat (arena_free_cnt (s\<lparr>mlinks := h\<rparr>) (page_base b)) - 1)) A (F(i := xs))"
proof -
  have st: "static_ok s" "arenas_ok s A F" "arenas_apart A" "lists_ok s A F" using inv by (simp_all add: malloc_inv_def)
  define l where "l = free_list (desc_ptr s i)"
  have l: "represents (mlinks s) l (b # xs)" using st(4) i F by (auto simp: lists_ok_def l_def)
  obtain h where h: "list_pop_front (mlinks s) l = Some (b, h)" "represents h l xs"
    "\<And>y. y \<notin> set xs \<union> {head_of l, tail_of l} \<Longrightarrow> h y = mlinks s y"
    using list_pop_front_represents [OF l] by auto
  have own: "A (page_base c) = Some (Small i)" "c \<in> set (arena_blocks i (page_base c))" if "c \<in> set (b # xs)" for c
    using st(4) i F that by (auto simp: lists_ok_def)
  have d: "distinct (b # xs)" using l by (auto simp: represents_def wf_chain_def)
  define a where "a = page_base b"
  let ?s = "s\<lparr>mlinks := h\<rparr>"
  let ?t = "set_word ?s (a + 8) (of_nat (arena_free_cnt ?s a) - 1)"
  have a: "A a = Some (Small i)" "b \<in> set (arena_blocks i a)" using own [of b] by (simp_all add: a_def)
  have cnt: "arena_free_cnt ?s a = card (set (F i) \<inter> set (arena_blocks i a))"
    using arena_facts(5) [OF st(2) a(1)] by (simp add: arena_free_cnt_def header_word_def)
  have "set (F i) \<inter> set (arena_blocks i a) = insert b (set xs \<inter> set (arena_blocks i a))" using F a(2) by auto
  then have c1: "arena_free_cnt ?s a = Suc (card (set xs \<inter> set (arena_blocks i a)))" using d by (simp add: cnt)
  have n: "arena_free_cnt ?t a = card (set xs \<inter> set (arena_blocks i a))"
    using card_blocks_le [of "set xs" i a]
    by (simp add: arena_free_cnt_set c1)
  have "arenas_ok ?t A (F(i := xs))"
    by (rule arenas_ok_counter [OF st(2,3) a(1) _ _ _ _ n]) (use F a(2) in \<open>auto simp: store32_outside\<close>)
  moreover have "lists_ok ?t A (F(i := xs))"
    by (rule lists_ok_change [OF st(1,2,4) i, of h]) (use h own F in \<open>auto simp: l_def\<close>)
  moreover have "static_ok ?t" by (rule static_ok_cong [OF st(1)]) (use st(1) in \<open>auto simp: static_ok_def\<close>)
  ultimately have "malloc_inv ?t A (F(i := xs))" using st(3) by (simp add: malloc_inv_def)
  moreover have "block_to_arena ?s b = Some a"
    using block_arena_run [OF st(1,2) own, of b ?s] by (simp add: a_def)
  ultimately show thesis using h(1) a d by (intro that) (simp_all add: l_def a_def)
qed

lemma give_block:
  assumes inv: "malloc_inv s A F" and b: "A (page_base b) = Some (Small i)" "b \<in> set (arena_blocks i (page_base b))" "b \<notin> set (F i)"
  obtains h where "list_push_front (mlinks s) (free_list (desc_ptr s i)) b = Some h"
    "malloc_inv (set_word (s\<lparr>mlinks := h\<rparr>) (page_base b + 8) (of_nat (arena_free_cnt s (page_base b)) + 1)) A (F(i := b # F i))"
    "arena_free_cnt (set_word (s\<lparr>mlinks := h\<rparr>) (page_base b + 8) (of_nat (arena_free_cnt s (page_base b)) + 1)) (page_base b)
       = card (set (b # F i) \<inter> set (arena_blocks i (page_base b)))"
proof -
  have st: "static_ok s" "arenas_ok s A F" "arenas_apart A" "lists_ok s A F" using inv by (simp_all add: malloc_inv_def)
  define l where "l = free_list (desc_ptr s i)"
  define a where "a = page_base b"
  have i: "i < 7" using arena_facts(5) [OF st(2) b(1)] by simp
  have l: "represents (mlinks s) l (F i)" using st(4) i by (auto simp: lists_ok_def l_def)
  have el: "b \<noteq> NULL" "b \<notin> set (F i) \<union> {head_of l, tail_of l}" using list_elements [OF st(1,2) b(1,2) i] b(3) by (simp_all add: l_def)
  obtain h where h: "list_push_front (mlinks s) l b = Some h" "represents h l (b # F i)"
    "\<And>x. x \<notin> set (b # F i) \<union> {head_of l, tail_of l} \<Longrightarrow> h x = mlinks s x"
    using list_push_front_represents [OF l el] by auto
  let ?t = "set_word (s\<lparr>mlinks := h\<rparr>) (a + 8) (of_nat (arena_free_cnt s a) + 1)"
  have a: "A a = Some (Small i)" "b \<in> set (arena_blocks i a)" using b by (simp_all add: a_def)
  have cnt: "arena_free_cnt s a = card (set (F i) \<inter> set (arena_blocks i a))" using arena_facts(5) [OF st(2) a(1)] by simp
  have "set (b # F i) \<inter> set (arena_blocks i a) = insert b (set (F i) \<inter> set (arena_blocks i a))" using a(2) by auto
  then have c1: "card (set (b # F i) \<inter> set (arena_blocks i a)) = Suc (arena_free_cnt s a)" using b(3) by (simp add: cnt)
  have n: "arena_free_cnt ?t a = card (set (b # F i) \<inter> set (arena_blocks i a))"
    using card_blocks_le [of "set (b # F i)" i a] unfolding c1
    using arena_free_cnt_set [of "Suc (arena_free_cnt s a)" "s\<lparr>mlinks := h\<rparr>" a] by (simp add: add.commute)
  have "arenas_ok ?t A (F(i := b # F i))"
    by (rule arenas_ok_counter [OF st(2,3) a(1) _ _ _ _ n]) (use a(2) in \<open>auto simp: store32_outside\<close>)
  moreover have "lists_ok ?t A (F(i := b # F i))"
  proof (rule lists_ok_change [OF st(1,2,4) i, of h])
    show "A (page_base c) = Some (Small i) \<and> c \<in> set (arena_blocks i (page_base c))" if "c \<in> set (b # F i)" for c
      using st(4) i that b(1,2) by (auto simp: lists_ok_def)
  qed (use h in \<open>auto simp: l_def\<close>)
  moreover have "static_ok ?t" by (rule static_ok_cong [OF st(1)]) (use st(1) in \<open>auto simp: static_ok_def\<close>)
  ultimately have "malloc_inv ?t A (F(i := b # F i))" using st(3) by (simp add: malloc_inv_def)
  then show thesis using h(1) n by (intro that) (simp_all add: l_def a_def)
qed

end
