(* ===== verification/Malloc_Arenas.thy ===== *)
theory Malloc_Arenas
  imports Malloc_Steps
begin

text \<open>Arenas that come and go.\<close>

section \<open>Pages from and to the page allocator\<close>

lemma palloc_get_pool_base:
  "palloc_get_multiple pm f n = Some (a, pm') \<Longrightarrow> pool_base (kernel_pool pm') = pool_base (kernel_pool pm)"
  by (auto simp: palloc_get_multiple_def Let_def bind_eq_Some_conv set_pool_def pool_of_def split: if_splits)

lemma palloc_free_pool_base:
  "palloc_free_multiple pm a n = Some pm' \<Longrightarrow> pool_base (kernel_pool pm') = pool_base (kernel_pool pm)"
  by (auto simp: palloc_free_multiple_def Let_def bind_eq_Some_conv set_pool_def pool_of_def split: if_splits)

lemma kernel_pages:
  assumes ok: "palloc_ok pm" and n: "0 < n"
  obtains "palloc_get_multiple pm 0 n = Some (NULL, pm)" "pool_full pm 0 n"
  | a g where "palloc_get_multiple pm 0 n = Some (a, g)" "palloc_ok g" "a \<noteq> NULL" "a mod 4096 = 0" "a + 4096 * n \<le> 2 ^ 32"
    "pool_base (kernel_pool pm) \<le> a" "pages_at a n \<inter> allocated pm = {}" "allocated g = allocated pm \<union> pages_at a n"
    "ram g = ram pm" "pool_base (kernel_pool g) = pool_base (kernel_pool pm)"
proof (cases "pool_full pm 0 n")
  case True
  with palloc_get_full [OF ok n True] show thesis by (intro that(1)) simp_all
next
  case False
  obtain a g where g: "palloc_get_multiple pm 0 n = Some (a, g)" "palloc_ok g" "a \<noteq> NULL" "a mod 4096 = 0"
    "a + 4096 * n \<le> 2 ^ 32" "pages_at a n \<inter> allocated pm = {}" "allocated g = allocated pm \<union> pages_at a n"
    "pages_at a n \<subseteq> pool_pages (pool_of pm 0)" "ram g = ram pm"
    by (rule palloc_get_found [OF ok n False]) simp
  have "a \<in> pages_at a n" using n by (force simp: mem_pages_at)
  then have "a \<in> pool_pages (kernel_pool pm)" using g(8) by (auto simp: pool_of_def)
  then have "pool_base (kernel_pool pm) \<le> a" by (auto simp: pool_pages_def mem_pages_at)
  with g palloc_get_pool_base [OF g(1)] show thesis by (intro that(2) [OF g(1)]) auto
qed

section \<open>The set of arenas\<close>

lemma header_frame_arena:
  assumes ok: "arenas_ok s A F" and c: "A c = Some k"
    and a: "a mod 4096 = 0" "0 < n" "pages_at a n \<inter> arena_pages c k = {}"
    and s': "\<And>x. x < a \<or> a + 4096 * n \<le> x \<Longrightarrow> ram (mpages s') x = ram (mpages s) x" "descs_base s' = descs_base s"
    and F': "\<And>i. k = Small i \<Longrightarrow> set (F' i) \<inter> set (arena_blocks i c) = set (F i) \<inter> set (arena_blocks i c)"
  shows "header_ok s' F' c k"
proof (rule header_ok_frame [OF arena_facts(5) [OF ok c] _ s'(2) F'])
  note f = arena_facts [OF ok c]
  fix x assume x: "c \<le> x" "x < c + 12"
  have "a + 4096 * n \<le> c \<or> c + 4096 * page_count k \<le> a"
    by (rule pages_disjoint_apart) (use a f in auto)
  with x f(6) have "x < a \<or> a + 4096 * n \<le> x" by linarith
  then show "ram (mpages s') x = ram (mpages s) x" by (rule s'(1))
qed

lemma arenas_ok_add:
  assumes ok: "arenas_ok s A F" "arenas_apart A"
    and a: "a mod 4096 = 0" "pool_base (kernel_pool (mpages s)) \<le> a" "a + 4096 * page_count k \<le> 2 ^ 32" "0 < page_count k"
      "arena_pages a k \<inter> allocated (mpages s) = {}"
    and s': "\<And>x. x < a \<or> a + 4096 * page_count k \<le> x \<Longrightarrow> ram (mpages s') x = ram (mpages s) x" "descs_base s' = descs_base s"
      "pool_base (kernel_pool (mpages s')) = pool_base (kernel_pool (mpages s))"
      "allocated (mpages s') = allocated (mpages s) \<union> arena_pages a k"
    and F': "\<And>c i. A c = Some (Small i) \<Longrightarrow> set (F' i) \<inter> set (arena_blocks i c) = set (F i) \<inter> set (arena_blocks i c)"
    and here: "header_ok s' F' a k"
  shows "arenas_ok s' (A(a \<mapsto> k)) F'" "arenas_apart (A(a \<mapsto> k))" "A a = None"
proof -
  have sub: "arena_pages c l \<subseteq> allocated (mpages s)" if "A c = Some l" for c l using arena_facts(4) [OF ok(1) that] .
  have "a \<in> arena_pages a k" using a(4) by (force simp: mem_pages_at)
  show "A a = None"
  proof (cases "A a")
    case (Some l)
    then have "a \<in> arena_pages a l" using arena_facts(6) [OF ok(1) Some] by (force simp: mem_pages_at)
    with sub [OF Some] \<open>a \<in> arena_pages a k\<close> a(5) show ?thesis by blast
  qed
  show "arenas_ok s' (A(a \<mapsto> k)) F'"
    unfolding arenas_ok_def
  proof (intro allI impI)
    fix c l assume c: "(A(a \<mapsto> k)) c = Some l"
    show "c mod 4096 = 0 \<and> pool_base (kernel_pool (mpages s')) \<le> c \<and> c + 4096 * page_count l \<le> 2 ^ 32 \<and>
      arena_pages c l \<subseteq> allocated (mpages s') \<and> header_ok s' F' c l"
    proof (cases "c = a")
      case True
      with c have "l = k" by simp
      have "arena_pages c k \<subseteq> allocated (mpages s')" using True s'(4) by blast
      with True \<open>l = k\<close> a here s'(3) show ?thesis by simp
    next
      case False
      then have c': "A c = Some l" using c by simp
      have "header_ok s' F' c l"
        by (rule header_frame_arena [OF ok(1) c' a(1,4) _ s'(1,2)]) (use sub [OF c'] a(5) F' c' in auto)
      then show ?thesis using arena_facts [OF ok(1) c'] s'(3,4) by auto
    qed
  qed
  show "arenas_apart (A(a \<mapsto> k))"
    unfolding arenas_apart_def
  proof (intro allI impI)
    fix b l c m assume h: "(A(a \<mapsto> k)) b = Some l \<and> (A(a \<mapsto> k)) c = Some m \<and> b \<noteq> c"
    consider "b = a" "A c = Some m" "l = k" | "c = a" "A b = Some l" "m = k" | "A b = Some l" "A c = Some m" "b \<noteq> c"
    proof (cases "b = a")
      case True
      then have "c \<noteq> a" using h by simp
      with h have "A c = Some m" by (simp add: fun_upd_other)
      moreover have "l = k" using h True by simp
      ultimately show thesis using True by (intro that(1))
    next
      case False
      with h that(2,3) show thesis by (cases "c = a") simp_all
    qed
    then show "arena_pages b l \<inter> arena_pages c m = {}"
    proof cases
      case 1 then show ?thesis using sub [OF 1(2)] a(5) by blast
    next
      case 2 then show ?thesis using sub [OF 2(2)] a(5) by blast
    next
      case 3 then show ?thesis using ok(2) unfolding arenas_apart_def by blast
    qed
  qed
qed

lemma arenas_ok_remove:
  assumes ok: "arenas_ok s A F" "arenas_apart A" and a: "A a = Some k"
    and s': "\<And>x. x < a \<or> a + 4096 * page_count k \<le> x \<Longrightarrow> ram (mpages s') x = ram (mpages s) x" "descs_base s' = descs_base s"
      "pool_base (kernel_pool (mpages s')) = pool_base (kernel_pool (mpages s))"
      "allocated (mpages s') = allocated (mpages s) - arena_pages a k"
    and F': "\<And>c i. A c = Some (Small i) \<Longrightarrow> c \<noteq> a \<Longrightarrow> set (F' i) \<inter> set (arena_blocks i c) = set (F i) \<inter> set (arena_blocks i c)"
  shows "arenas_ok s' (A(a := None)) F'" "arenas_apart (A(a := None))"
proof -
  show "arenas_apart (A(a := None))" using ok(2) unfolding arenas_apart_def by auto
  show "arenas_ok s' (A(a := None)) F'"
    unfolding arenas_ok_def
  proof (intro allI impI)
    fix c l assume "(A(a := None)) c = Some l"
    then have c: "A c = Some l" "c \<noteq> a" by (auto split: if_splits)
    then have d: "arena_pages a k \<inter> arena_pages c l = {}" using ok(2) a unfolding arenas_apart_def by blast
    note fa = arena_facts [OF ok(1) a] and fc = arena_facts [OF ok(1) c(1)]
    have "header_ok s' F' c l"
      by (rule header_frame_arena [OF ok(1) c(1) fa(1,6) d s'(1,2)]) (use F' c in auto)
    then show "c mod 4096 = 0 \<and> pool_base (kernel_pool (mpages s')) \<le> c \<and> c + 4096 * page_count l \<le> 2 ^ 32 \<and>
      arena_pages c l \<subseteq> allocated (mpages s') \<and> header_ok s' F' c l"
      using fc d s'(3,4) by auto
  qed
qed

lemma mem_owned: "x \<in> owned A \<longleftrightarrow> (\<exists>a k. A a = Some k \<and> x \<in> arena_pages a k)"
  by (auto simp: owned_def)

lemma owned_upd:
  assumes "A a = None"
  shows "owned (A(a \<mapsto> k)) = owned A \<union> arena_pages a k"
proof (rule set_eqI)
  fix x
  have "(\<exists>b l. (A(a \<mapsto> k)) b = Some l \<and> x \<in> arena_pages b l) \<longleftrightarrow> (\<exists>b l. A b = Some l \<and> x \<in> arena_pages b l) \<or> x \<in> arena_pages a k"
    using assms by (metis fun_upd_apply option.distinct(1) option.inject)
  then show "x \<in> owned (A(a \<mapsto> k)) \<longleftrightarrow> x \<in> owned A \<union> arena_pages a k" by (simp only: mem_owned Un_iff)
qed

lemma owned_remove:
  assumes "arenas_apart A" "A a = Some k"
  shows "owned A = owned (A(a := None)) \<union> arena_pages a k" "owned (A(a := None)) \<inter> arena_pages a k = {}"
proof -
  show "owned A = owned (A(a := None)) \<union> arena_pages a k"
  proof (rule set_eqI)
    fix x
    have "(\<exists>b l. A b = Some l \<and> x \<in> arena_pages b l) \<longleftrightarrow> (\<exists>b l. (A(a := None)) b = Some l \<and> x \<in> arena_pages b l) \<or> x \<in> arena_pages a k"
      using assms(2) by (metis fun_upd_apply option.distinct(1) option.inject)
    then show "x \<in> owned A \<longleftrightarrow> x \<in> owned (A(a := None)) \<union> arena_pages a k" by (simp only: mem_owned Un_iff)
  qed
  have "x \<notin> arena_pages a k" if x: "x \<in> owned (A(a := None))" for x
  proof -
    obtain b l where "A b = Some l" "b \<noteq> a" "x \<in> arena_pages b l" using x unfolding mem_owned by (metis fun_upd_apply option.distinct(1))
    with assms show ?thesis unfolding arenas_apart_def by blast
  qed
  then show "owned (A(a := None)) \<inter> arena_pages a k = {}" by blast
qed

section \<open>The blocks of an arena enter and leave a free list\<close>

definition nth_block :: "nat \<Rightarrow> addr \<Rightarrow> nat \<Rightarrow> addr" where
  "nth_block i a k = a + 12 + k * blk_size i"

lemma arena_blocks_map: "arena_blocks i a = map (nth_block i a) [0..<blk_count i]"
  by (simp add: arena_blocks_def nth_block_def)

lemma nth_block_inj: "inj (nth_block i a)"
  by (auto simp: inj_def nth_block_def)

lemma arena_to_block_run:
  assumes "static_ok s" "header_ok s F a (Small i)" "a \<noteq> NULL" "k < blk_count i"
    and s': "descs s' = descs s" "descs_base s' = descs_base s" "mpages s' = mpages s"
  shows "arena_to_block s' a k = Some (nth_block i a k)"
proof -
  have "static_ok s'" using assms(1) s' by (simp add: static_ok_def)
  then have "desc_of s' (desc_ptr s i) = Some \<lparr>desc_block_size = blk_size i, blocks_per_arena = blk_count i\<rparr>"
    using desc_of_ptr [of s' i] assms(2) s'(2) by (simp add: desc_ptr_def)
  then show ?thesis
    using assms(2-4) s'(3)
    by (simp add: arena_to_block_def nth_block_def sizeof_arena_def arena_magic_def arena_desc_def header_word_def)
qed

lemma add_blocks_run:
  assumes st: "static_ok s" "header_ok s F a (Small i)" "a \<noteq> NULL"
    and r: "represents h0 l xs" and ks: "distinct ks" "set ks \<subseteq> {..<blk_count i}"
    and new: "nth_block i a ` set ks \<inter> (set xs \<union> {head_of l, tail_of l}) = {}"
  shows "\<exists>h. add_blocks (s\<lparr>mlinks := h0\<rparr>) l a ks = Some (s\<lparr>mlinks := h\<rparr>) \<and> represents h l (xs @ map (nth_block i a) ks) \<and>
     (\<forall>x. x \<notin> set xs \<union> nth_block i a ` set ks \<union> {head_of l, tail_of l} \<longrightarrow> h x = h0 x)"
  using r ks new
proof (induction ks arbitrary: h0 xs)
  case (Cons k ks)
  have b: "arena_to_block (s\<lparr>mlinks := h0\<rparr>) a k = Some (nth_block i a k)"
    using Cons.prems(3) by (intro arena_to_block_run [OF st]) auto
  obtain h1 where h1: "list_push_back h0 l (nth_block i a k) = Some h1" "represents h1 l (xs @ [nth_block i a k])"
    "\<And>x. x \<notin> set (nth_block i a k # xs) \<union> {head_of l, tail_of l} \<Longrightarrow> h1 x = h0 x"
    using list_push_back_represents [OF Cons.prems(1), of "nth_block i a k"] Cons.prems(4) by (auto simp: nth_block_def)
  have "nth_block i a ` set ks \<inter> (set (xs @ [nth_block i a k]) \<union> {head_of l, tail_of l}) = {}"
    using Cons.prems(2,4) inj_eq [OF nth_block_inj [of i a]] by auto
  from Cons.IH [OF h1(2) _ _ this] Cons.prems(2,3) obtain h where h: "add_blocks (s\<lparr>mlinks := h1\<rparr>) l a ks = Some (s\<lparr>mlinks := h\<rparr>)"
    "represents h l ((xs @ [nth_block i a k]) @ map (nth_block i a) ks)"
    "\<forall>x. x \<notin> set (xs @ [nth_block i a k]) \<union> nth_block i a ` set ks \<union> {head_of l, tail_of l} \<longrightarrow> h x = h1 x" by auto
  show ?case using b h1(1,3) h by (intro exI [of _ h]) auto
qed auto

lemma remove_blocks_run:
  assumes st: "static_ok s" "header_ok s F a (Small i)" "a \<noteq> NULL"
    and r: "represents h0 l xs" and ks: "distinct ks" "set ks \<subseteq> {..<blk_count i}" "nth_block i a ` set ks \<subseteq> set xs"
  shows "\<exists>h. remove_blocks (s\<lparr>mlinks := h0\<rparr>) a ks = Some (s\<lparr>mlinks := h\<rparr>) \<and>
     represents h l (filter (\<lambda>b. b \<notin> nth_block i a ` set ks) xs) \<and> (\<forall>x. x \<notin> set xs \<union> {head_of l, tail_of l} \<longrightarrow> h x = h0 x)"
  using r ks
proof (induction ks arbitrary: h0 xs)
  case (Cons k ks)
  define b where "b = nth_block i a k"
  have run: "arena_to_block (s\<lparr>mlinks := h0\<rparr>) a k = Some b"
    unfolding b_def using Cons.prems(3) by (intro arena_to_block_run [OF st]) auto
  obtain us vs where xs: "xs = us @ b # vs" using Cons.prems(4) split_list [of b xs] by (auto simp: b_def)
  have "distinct xs" using Cons.prems(1) by (auto simp: represents_def wf_chain_def)
  then have d: "b \<notin> set us" "b \<notin> set vs" by (auto simp: xs)
  obtain h1 where h1: "list_remove h0 b = Some (hd (vs @ [tail_of l]), h1)" "represents h1 l (us @ vs)"
    "\<And>x. x \<notin> set (us @ vs) \<union> {head_of l, tail_of l} \<Longrightarrow> h1 x = h0 x"
    using list_remove_represents [OF Cons.prems(1) [unfolded xs]] by auto
  have "nth_block i a ` set ks \<subseteq> set (us @ vs)"
    using Cons.prems(2,4) inj_eq [OF nth_block_inj [of i a]] by (auto simp: xs b_def)
  from Cons.IH [OF h1(2) _ _ this] Cons.prems(2,3) obtain h where h: "remove_blocks (s\<lparr>mlinks := h1\<rparr>) a ks = Some (s\<lparr>mlinks := h\<rparr>)"
    "represents h l (filter (\<lambda>b. b \<notin> nth_block i a ` set ks) (us @ vs))"
    "\<forall>x. x \<notin> set (us @ vs) \<union> {head_of l, tail_of l} \<longrightarrow> h x = h1 x" by auto
  have "filter (\<lambda>c. c \<notin> nth_block i a ` set (k # ks)) xs = filter (\<lambda>c. c \<notin> nth_block i a ` set ks) (us @ vs)"
  proof -
    have "filter (\<lambda>c. c \<notin> nth_block i a ` set (k # ks)) zs = filter (\<lambda>c. c \<notin> nth_block i a ` set ks) zs" if "b \<notin> set zs" for zs
      using that by (intro filter_cong) (auto simp: b_def)
    with d show ?thesis by (simp add: xs b_def [symmetric])
  qed
  then show ?case using run h1(1,3) h by (intro exI [of _ h]) (auto simp: xs)
qed auto

end
