(* ===== verification/Malloc_Contract.thy ===== *)
theory Malloc_Contract
  imports Malloc_Arenas
begin

text \<open>
  What \<^verbatim>\<open>malloc\<close> and \<^verbatim>\<open>free\<close> do to the blocks that are handed out, and the bytes that they leave alone.
\<close>

section \<open>Bytes in use\<close>

definition block_bytes :: "(addr \<Rightarrow> nat option) \<Rightarrow> addr set" where
  "block_bytes L = {x. \<exists>b n. L b = Some n \<and> b \<le> x \<and> x < b + n}"

definition page_bytes :: "addr set \<Rightarrow> addr set" where
  "page_bytes ps = {x. page_base x \<in> ps}"

definition same_on :: "addr set \<Rightarrow> malloc_state \<Rightarrow> malloc_state \<Rightarrow> bool" where
  "same_on X s s' \<longleftrightarrow> (\<forall>x\<in>X. ram (mpages s') x = ram (mpages s) x)"

lemma page_base_range:
  assumes "a mod 4096 = 0" "a \<le> x" "x < a + 4096 * n"
  shows "page_base x \<in> pages_at a n"
proof -
  define i where "i = (x - a) div 4096"
  have "(a + 4096 * i) mod 4096 = 0" using assms(1) by (metis mod_mult_self2)
  moreover have "(x - a) mod 4096 < 4096" by simp
  ultimately have "page_base (a + 4096 * i + (x - a) mod 4096) = a + 4096 * i" by (rule page_base_inside)
  moreover have "a + 4096 * i + (x - a) mod 4096 = x" using assms(2) by (simp add: i_def)
  moreover have "i < n" using assms(2,3) by (simp add: i_def less_mult_imp_div_less mult.commute)
  ultimately show ?thesis by (auto simp: mem_pages_at)
qed

lemma header_bytes_apart:
  assumes inv: "malloc_inv s A F" and a: "A a = Some k" and x: "a \<le> x" "x < a + 12"
  shows "x \<notin> block_bytes (live A F)"
proof
  assume "x \<in> block_bytes (live A F)"
  then obtain b n where b: "live A F b = Some n" "b \<le> x" "x < b + n" by (auto simp: block_bytes_def)
  obtain l where l: "A (page_base b) = Some l" "page_base b + 12 \<le> b" "b + n \<le> page_base b + 4096 * page_count l"
    using live_inside [OF inv b(1)] by metis
  have ok: "arenas_ok s A F" "arenas_apart A" using inv by (simp_all add: malloc_inv_def)
  show False
  proof (cases "page_base b = a")
    case True
    then show False using l(2) b(2) x by linarith
  next
    case False
    from arenas_ranges [OF ok a l(1)] False arena_facts(6) [OF ok(1) a] show False using l b x by linarith
  qed
qed

lemma block_bytes_owned: "malloc_inv s A F \<Longrightarrow> block_bytes (live A F) \<subseteq> page_bytes (owned A)"
proof
  fix x assume inv: "malloc_inv s A F" and "x \<in> block_bytes (live A F)"
  then obtain b n where b: "live A F b = Some n" "b \<le> x" "x < b + n" by (auto simp: block_bytes_def)
  obtain l where l: "A (page_base b) = Some l" "page_base b + 12 \<le> b" "b + n \<le> page_base b + 4096 * page_count l"
    using live_inside [OF inv b(1)] by metis
  have "arenas_ok s A F" using inv by (simp add: malloc_inv_def)
  then have "page_base b mod 4096 = 0" using l(1) by (rule arena_facts(1))
  then have "page_base x \<in> arena_pages (page_base b) l" using l b by (intro page_base_range) auto
  then show "x \<in> page_bytes (owned A)" using l(1) by (auto simp: page_bytes_def mem_owned)
qed

lemma page_bytes_outside:
  assumes "a mod 4096 = 0" "pages_at a n \<inter> ps = {}" "x \<in> page_bytes ps"
  shows "x < a \<or> a + 4096 * n \<le> x"
  using page_base_range [OF assms(1), of x n] assms(2,3) by (fastforce simp: page_bytes_def)

lemma same_on_mono: "same_on X s s' \<Longrightarrow> Y \<subseteq> X \<Longrightarrow> same_on Y s s'"
  by (auto simp: same_on_def)

lemma same_on_trans: "same_on X s s' \<Longrightarrow> same_on X s' s'' \<Longrightarrow> same_on X s s''"
  by (simp add: same_on_def)

section \<open>Taking a block\<close>

lemma live_take:
  assumes F: "F i = b # xs" "b \<notin> set xs" and b: "A (page_base b) = Some (Small i)" "b \<in> set (arena_blocks i (page_base b))"
  shows "live A (F(i := xs)) = (live A F)(b \<mapsto> blk_size i)" "live A F b = None"
proof -
  show "live A F b = None" using F b by (simp add: live_def)
  show "live A (F(i := xs)) = (live A F)(b \<mapsto> blk_size i)"
  proof
    fix c
    show "live A (F(i := xs)) c = ((live A F)(b \<mapsto> blk_size i)) c"
      using F b by (cases "c = b") (auto simp: live_def split: option.split arena_kind.split)
  qed
qed

lemma take_block_contract:
  assumes inv: "malloc_inv s A F" and i: "i < 7" and F: "F i = b # xs"
    and rest: "\<And>c j. A c = Some (Small j) \<Longrightarrow> c \<noteq> page_base b \<Longrightarrow> \<not> set (arena_blocks j c) \<subseteq> set (F j)"
  obtains h s' where "list_pop_front (mlinks s) (free_list (desc_ptr s i)) = Some (b, h)"
    "block_to_arena (s\<lparr>mlinks := h\<rparr>) b = Some (page_base b)"
    "s' = set_word (s\<lparr>mlinks := h\<rparr>) (page_base b + 8) (of_nat (arena_free_cnt (s\<lparr>mlinks := h\<rparr>) (page_base b)) - 1)"
    "malloc_inv s' A (F(i := xs))" "busy A (F(i := xs))" "live A (F(i := xs)) = (live A F)(b \<mapsto> blk_size i)" "live A F b = None"
    "allocated (mpages s') = allocated (mpages s)" "b \<noteq> NULL" "A (page_base b) = Some (Small i)" "b \<in> set (arena_blocks i (page_base b))"
    "\<And>x. x < page_base b \<or> page_base b + 12 \<le> x \<Longrightarrow> ram (mpages s') x = ram (mpages s) x"
proof -
  obtain h where h: "list_pop_front (mlinks s) (free_list (desc_ptr s i)) = Some (b, h)"
    "A (page_base b) = Some (Small i)" "b \<in> set (arena_blocks i (page_base b))" "b \<notin> set xs"
    "block_to_arena (s\<lparr>mlinks := h\<rparr>) b = Some (page_base b)"
    "malloc_inv (set_word (s\<lparr>mlinks := h\<rparr>) (page_base b + 8) (of_nat (arena_free_cnt (s\<lparr>mlinks := h\<rparr>) (page_base b)) - 1)) A (F(i := xs))"
    by (rule take_block [OF inv i F])
  have "busy A (F(i := xs))"
    unfolding busy_def
  proof (intro allI impI)
    fix c j assume c: "A c = Some (Small j)"
    show "\<not> set (arena_blocks j c) \<subseteq> set ((F(i := xs)) j)"
    proof (cases "c = page_base b")
      case True
      then have "j = i" using c h(2) by simp
      then show ?thesis using True h(3,4) by auto
    next
      case False
      from rest [OF c False] show ?thesis using F by (cases "j = i") auto
    qed
  qed
  moreover have "b \<noteq> NULL" using block_bounds(1) [OF h(3)] by auto
  ultimately show thesis
    using h live_take [where F = F and i = i and A = A, OF F h(4,2,3)]
    by (intro that [OF h(1,5) refl h(6)]) (auto simp: store32_outside)
qed

section \<open>A new arena\<close>

lemma refill:
  assumes inv: "malloc_inv s A F" and i: "i < 7" and F: "F i = []"
    and g: "palloc_ok g" "a \<noteq> NULL" "a mod 4096 = 0" "a + 4096 \<le> 2 ^ 32"
      "pool_base (kernel_pool (mpages s)) \<le> a" "a \<notin> allocated (mpages s)" "allocated g = insert a (allocated (mpages s))"
      "ram g = ram (mpages s)" "pool_base (kernel_pool g) = pool_base (kernel_pool (mpages s))"
  defines "s1 \<equiv> init_arena (s\<lparr>mpages := g\<rparr>) a (desc_ptr s i) (blk_count i)"
  obtains h where "add_blocks s1 (free_list (desc_ptr s i)) a [0..<blk_count i] = Some (s1\<lparr>mlinks := h\<rparr>)"
    "malloc_inv (s1\<lparr>mlinks := h\<rparr>) (A(a \<mapsto> Small i)) (F(i := arena_blocks i a))" "A a = None"
proof -
  have st: "static_ok s" "arenas_ok s A F" "arenas_apart A" "lists_ok s A F" using inv by (simp_all add: malloc_inv_def)
  define l where "l = free_list (desc_ptr s i)"
  define F' where "F' = F(i := arena_blocks i a)"
  have hdr: "arena_magic s1 a = ARENA_MAGIC" "arena_desc s1 a = desc_ptr s i" "arena_free_cnt s1 a = blk_count i"
    using desc_ptr_props(2) [OF st(1) i] card_blocks_le [of UNIV i a]
    by (simp_all add: s1_def init_arena_header unat_of_nat take_bit_nat_eq_self)
  have st1: "static_ok s1" by (rule static_ok_cong [OF st(1)]) (simp_all add: s1_def g)
  have here: "header_ok s1 F' a (Small i)" using hdr i by (simp add: F'_def desc_ptr_def s1_def)
  have ram: "ram (mpages s1) x = ram (mpages s) x" if "x < a \<or> a + 12 \<le> x" for x
    using init_arena_outside [OF that] by (simp add: s1_def g)
  have new: "arenas_ok s1 (A(a \<mapsto> Small i)) F'" "arenas_apart (A(a \<mapsto> Small i))" "A a = None"
  proof -
    have F'_old: "set (F' j) \<inter> set (arena_blocks j c) = set (F j) \<inter> set (arena_blocks j c)" if c: "A c = Some (Small j)" for c j
    proof (cases "j = i")
      case True
      have "c \<in> arena_pages c (Small j)" by simp
      then have "c \<noteq> a" using arena_facts(4) [OF st(2) c] g(6) by blast
      then have "set (arena_blocks i a) \<inter> set (arena_blocks i c) = {}"
        using block_page [of _ i a] block_page [of _ i c] g(3) arena_facts(1) [OF st(2) c] by fastforce
      then show ?thesis using True F by (simp add: F'_def)
    qed (simp add: F'_def)
    have p: "a + 4096 * page_count (Small i) \<le> 2 ^ 32" "0 < page_count (Small i)" "arena_pages a (Small i) \<inter> allocated (mpages s) = {}"
      "descs_base s1 = descs_base s" "pool_base (kernel_pool (mpages s1)) = pool_base (kernel_pool (mpages s))"
      "allocated (mpages s1) = allocated (mpages s) \<union> arena_pages a (Small i)"
      using g by (simp_all add: s1_def)
    have q: "ram (mpages s1) x = ram (mpages s) x" if "x < a \<or> a + 4096 * page_count (Small i) \<le> x" for x
      using that by (intro ram) auto
    show "arenas_ok s1 (A(a \<mapsto> Small i)) F'" "arenas_apart (A(a \<mapsto> Small i))" "A a = None"
      by (rule arenas_ok_add [OF st(2,3) g(3,5) p(1-3) q p(4-6) F'_old here]; assumption)+
  qed
  have el: "nth_block i a k \<notin> {head_of l, tail_of l}" for k
    using g(5) desc_ptr_props(3) [OF st(1) i] by (auto simp: nth_block_def l_def free_list_def head_of_def tail_of_def)
  have r: "represents (mlinks s) l []" using st(4) i F by (auto simp: lists_ok_def l_def)
  have "nth_block i a ` set [0..<blk_count i] \<inter> {head_of l, tail_of l} = {}"
    using el by (metis (no_types, lifting) disjoint_iff imageE)
  then have ks: "set [0..<blk_count i] \<subseteq> {..<blk_count i}" "nth_block i a ` set [0..<blk_count i] \<inter> (set [] \<union> {head_of l, tail_of l}) = {}"
    by auto
  obtain h where h: "add_blocks (s1\<lparr>mlinks := mlinks s\<rparr>) l a [0..<blk_count i] = Some (s1\<lparr>mlinks := h\<rparr>)"
    "represents h l (arena_blocks i a)" "\<forall>x. x \<notin> set (arena_blocks i a) \<union> {head_of l, tail_of l} \<longrightarrow> h x = mlinks s x"
    using add_blocks_run [OF st1 here g(2) r distinct_upt ks] by (auto simp: arena_blocks_map)
  have lo: "lists_ok s1 (A(a \<mapsto> Small i)) F"
    using st(4) new(3) by (auto simp: lists_ok_def s1_def desc_ptr_def)
  have "lists_ok (s1\<lparr>mlinks := h\<rparr>) (A(a \<mapsto> Small i)) F'"
    unfolding F'_def
  proof (rule lists_ok_change [OF st1 _ lo i])
    show "arenas_ok s1 (A(a \<mapsto> Small i)) F'" by (rule new(1))
    show "represents h (free_list (desc_ptr s1 i)) (arena_blocks i a)" using h(2) by (simp add: l_def s1_def desc_ptr_def)
    show "h x = mlinks s1 x" if "x \<notin> set (F i) \<union> set (arena_blocks i a) \<union>
        {head_of (free_list (desc_ptr s1 i)), tail_of (free_list (desc_ptr s1 i))}" for x
      using h(3) that F by (simp add: l_def s1_def desc_ptr_def)
    show "(A(a \<mapsto> Small i)) (page_base b) = Some (Small i) \<and> b \<in> set (arena_blocks i (page_base b))"
      if "b \<in> set (arena_blocks i a)" for b
      using that block_page [OF that g(3)] by simp
  qed simp_all
  moreover have "arenas_ok (s1\<lparr>mlinks := h\<rparr>) (A(a \<mapsto> Small i)) F'"
    by (rule arenas_ok_change [OF new(1,2), of a "Small i"])
       (use here in \<open>auto simp: arena_magic_def arena_desc_def arena_free_cnt_def header_word_def desc_ptr_def\<close>)
  moreover have "static_ok (s1\<lparr>mlinks := h\<rparr>)" using st1 by (simp add: static_ok_def)
  ultimately have "malloc_inv (s1\<lparr>mlinks := h\<rparr>) (A(a \<mapsto> Small i)) F'" using new(2) by (simp add: malloc_inv_def)
  moreover have "s1\<lparr>mlinks := mlinks s\<rparr> = s1" by (simp add: s1_def init_arena_def set_word_def)
  ultimately show thesis using h(1) new(3) by (intro that) (simp_all add: l_def F'_def)
qed

lemma live_refill:
  assumes "A a = None" "F i = []" "a mod 4096 = 0"
  shows "live (A(a \<mapsto> Small i)) (F(i := arena_blocks i a)) = live A F"
proof
  fix b
  show "live (A(a \<mapsto> Small i)) (F(i := arena_blocks i a)) b = live A F b"
  proof (cases "page_base b = a")
    case True
    then show ?thesis using assms by (simp add: live_def)
  next
    case False
    then have "b \<notin> set (arena_blocks i a)" using block_page [of b i a] assms(3) by argo
    then show ?thesis using False assms(2) by (auto simp: live_def split: option.split arena_kind.split)
  qed
qed

end
