(* ===== verification/Malloc_Calls.thy ===== *)
theory Malloc_Calls
  imports Malloc_Contract
begin

text \<open>\<^verbatim>\<open>malloc\<close> and \<^verbatim>\<open>free\<close> as a whole: each keeps \<open>malloc_ok\<close> and acts on the map of handed-out blocks.\<close>

section \<open>Allocation\<close>

lemma malloc_ok_intro:
  assumes "malloc_inv s A F" "busy A F" "allocated (mpages s) = os \<union> owned A" "os \<inter> owned A = {}"
  shows "malloc_ok s (live A F) os"
  using assms by (auto simp: malloc_ok_def)

lemma block_bytes_upd: "L b = None \<Longrightarrow> block_bytes L \<subseteq> block_bytes (L(b \<mapsto> n))"
  unfolding block_bytes_def by (clarsimp, metis option.distinct(1))

lemma same_on_header:
  assumes inv: "malloc_inv s A F" and os: "os \<inter> owned A = {}" and a: "A a = Some k"
    and ram: "\<And>x. x < a \<or> a + 12 \<le> x \<Longrightarrow> ram (mpages s') x = ram (mpages s) x"
  shows "same_on (block_bytes (live A F) \<union> page_bytes os) s s'"
  unfolding same_on_def
proof
  fix x assume x: "x \<in> block_bytes (live A F) \<union> page_bytes os"
  have ok: "arenas_ok s A F" using inv by (simp add: malloc_inv_def)
  have "x < a \<or> a + 12 \<le> x"
  proof (cases "x \<in> block_bytes (live A F)")
    case True
    with header_bytes_apart [OF inv a, of x] show ?thesis by linarith
  next
    case False
    have "arena_pages a k \<inter> os = {}" using os a by (auto simp: mem_owned disjoint_iff)
    with page_bytes_outside [OF arena_facts(1) [OF ok a], of "page_count k" os x] x False arena_facts(6) [OF ok a]
    show ?thesis by auto
  qed
  then show "ram (mpages s') x = ram (mpages s) x" by (rule ram)
qed

lemma malloc_small_contract:
  assumes inv: "malloc_inv s A F" "busy A F" and i: "i < 7"
    and os: "allocated (mpages s) = os \<union> owned A" "os \<inter> owned A = {}"
  obtains "malloc_small s i = Some (NULL, s)" "pool_full (mpages s) 0 1"
  | b s' where "malloc_small s i = Some (b, s')" "b \<noteq> NULL" "live A F b = None"
    "malloc_ok s' ((live A F)(b \<mapsto> blk_size i)) os" "same_on (block_bytes (live A F) \<union> page_bytes os) s s'"
proof -
  have st: "static_ok s" "arenas_ok s A F" "lists_ok s A F" using inv by (simp_all add: malloc_inv_def)
  define l where "l = free_list (desc_ptr s i)"
  have em: "list_empty (mlinks s) l = Some (F i = [])"
    using st(3) i by (auto simp: lists_ok_def l_def intro: list_empty_represents)
  have n: "blocks_per_arena (descs s ! i) = blk_count i" using st(1) i by (simp add: static_ok_def)
  show thesis
  proof (cases "F i")
    case (Cons b xs)
    obtain h s' where t: "list_pop_front (mlinks s) l = Some (b, h)" "block_to_arena (s\<lparr>mlinks := h\<rparr>) b = Some (page_base b)"
      "s' = set_word (s\<lparr>mlinks := h\<rparr>) (page_base b + 8) (of_nat (arena_free_cnt (s\<lparr>mlinks := h\<rparr>) (page_base b)) - 1)"
      "malloc_inv s' A (F(i := xs))" "busy A (F(i := xs))" "live A (F(i := xs)) = (live A F)(b \<mapsto> blk_size i)" "live A F b = None"
      "allocated (mpages s') = allocated (mpages s)" "b \<noteq> NULL" "A (page_base b) = Some (Small i)" "b \<in> set (arena_blocks i (page_base b))"
      "\<And>x. x < page_base b \<or> page_base b + 12 \<le> x \<Longrightarrow> ram (mpages s') x = ram (mpages s) x"
      unfolding l_def by (rule take_block_contract [OF inv(1) i Cons]) (use inv(2) in \<open>auto simp: busy_def\<close>)
    have "malloc_small s i = Some (b, s')"
      using em t(1-3) Cons by (simp add: malloc_small_def Let_def l_def [symmetric])
    moreover have "malloc_ok s' ((live A F)(b \<mapsto> blk_size i)) os"
      using malloc_ok_intro [OF t(4,5), of os] os t(6,8) by simp
    ultimately show thesis using t same_on_header [OF inv(1) os(2) t(10,12)] by (intro that(2)) auto
  next
    case Nil
    have ok: "palloc_ok (mpages s)" using st(1) by (simp add: static_ok_def)
    show thesis
    proof (rule kernel_pages [OF ok zero_less_one], goal_cases)
      case 1
      have "malloc_small s i = Some (NULL, s)"
        using 1(1) em Nil by (simp add: malloc_small_def Let_def l_def [symmetric] palloc_get_page_def)
      then show thesis using 1 by (intro that(1))
    next
      case (2 a g)
      define s1 where "s1 = init_arena (s\<lparr>mpages := g\<rparr>) a (desc_ptr s i) (blk_count i)"
      have al: "a \<notin> allocated (mpages s)" "allocated g = insert a (allocated (mpages s))" using 2(7,8) by auto
      obtain h where h: "add_blocks s1 l a [0..<blk_count i] = Some (s1\<lparr>mlinks := h\<rparr>)"
        "malloc_inv (s1\<lparr>mlinks := h\<rparr>) (A(a \<mapsto> Small i)) (F(i := arena_blocks i a))" "A a = None"
        unfolding s1_def l_def
        by (rule refill [OF inv(1) i Nil 2(2,3,4) _ 2(6) al 2(9,10)]) (use 2(5) in auto)
      define s2 A2 F2 where "s2 = s1\<lparr>mlinks := h\<rparr>" and "A2 = A(a \<mapsto> Small i)" and "F2 = F(i := arena_blocks i a)"
      note inv2 = h(2) [folded s2_def A2_def F2_def]
      have live2: "live A2 F2 = live A F" unfolding A2_def F2_def using h(3) Nil 2(4) by (rule live_refill)
      obtain b xs where bx: "arena_blocks i a = b # xs"
        using blk_count_pos [OF i] by (cases "arena_blocks i a") (simp_all add: arena_blocks_def)
      then have F2: "F2 i = b # xs" by (simp add: F2_def)
      have pb: "page_base b = a" using bx 2(4) by (intro block_page [of _ i]) simp_all
      have rest: "\<not> set (arena_blocks j c) \<subseteq> set (F2 j)" if c: "A2 c = Some (Small j)" "c \<noteq> page_base b" for c j
      proof -
        have c': "A c = Some (Small j)" using c pb by (simp add: A2_def)
        show ?thesis
        proof (cases "j = i")
          case True
          have "c mod 4096 = 0" by (rule arena_facts(1) [OF st(2) c'])
          then have "set (arena_blocks j c) \<inter> set (F2 j) = {}"
            using block_page [of _ i a] block_page [of _ i c] 2(4) c(2) pb True by (fastforce simp: F2_def)
          moreover have "arena_blocks j c \<noteq> []" using blk_count_pos [OF i] True by (auto simp: arena_blocks_def)
          ultimately show ?thesis by (metis Int_absorb2 set_empty)
        next
          case False
          then show ?thesis using inv(2) c' by (simp add: busy_def F2_def)
        qed
      qed
      have l2: "free_list (desc_ptr s2 i) = l" by (simp add: l_def s2_def s1_def desc_ptr_def)
      obtain h' s' where t: "list_pop_front (mlinks s2) l = Some (b, h')" "block_to_arena (s2\<lparr>mlinks := h'\<rparr>) b = Some (page_base b)"
        "s' = set_word (s2\<lparr>mlinks := h'\<rparr>) (page_base b + 8) (of_nat (arena_free_cnt (s2\<lparr>mlinks := h'\<rparr>) (page_base b)) - 1)"
        "malloc_inv s' A2 (F2(i := xs))" "busy A2 (F2(i := xs))" "live A2 (F2(i := xs)) = (live A2 F2)(b \<mapsto> blk_size i)" "live A2 F2 b = None"
        "allocated (mpages s') = allocated (mpages s2)" "b \<noteq> NULL"
        "\<And>x. x < page_base b \<or> page_base b + 12 \<le> x \<Longrightarrow> ram (mpages s') x = ram (mpages s2) x"
        using take_block_contract [OF inv2 i F2 rest] unfolding l2 by metis
      have dp: "desc_ptr (s\<lparr>mpages := g\<rparr>) i = desc_ptr s i" by (simp add: desc_ptr_def)
      have "malloc_small s i = Some (b, s')"
        using em Nil 2(1,3) h(1) t(1-3) n
        by (simp add: malloc_small_def Let_def l_def [symmetric] palloc_get_page_def dp s1_def [symmetric] s2_def [symmetric])
      moreover have al2: "allocated (mpages s2) = os \<union> owned A2"
        using al os(1) owned_upd [where A = A and k = "Small i", OF h(3)] by (auto simp: s2_def s1_def A2_def)
      moreover have d2: "os \<inter> owned A2 = {}"
        using al os owned_upd [where A = A and k = "Small i", OF h(3)] by (auto simp: A2_def)
      ultimately have "malloc_ok s' ((live A F)(b \<mapsto> blk_size i)) os"
        using malloc_ok_intro [OF t(4,5), of os] t(6,8) live2 by simp
      moreover have "same_on (block_bytes (live A F) \<union> page_bytes os) s s'"
      proof -
        have a2: "A2 a = Some (Small i)" by (simp add: A2_def)
        have r: "ram (mpages s') x = ram (mpages s) x" if x: "x < a \<or> a + 12 \<le> x" for x
          using t(10) [of x] x pb init_arena_outside [OF x, of "s\<lparr>mpages := g\<rparr>"] 2(9) by (simp add: s2_def s1_def)
        have "same_on (block_bytes (live A2 F2) \<union> page_bytes os) s2 s'"
          by (rule same_on_header [OF inv2 d2 a2]) (use t(10) pb in auto)
        moreover have "same_on (block_bytes (live A2 F2) \<union> page_bytes os) s2 s"
          by (rule same_on_header [OF inv2 d2 a2]) (use init_arena_outside [of _ a "s\<lparr>mpages := g\<rparr>"] 2(9) in \<open>auto simp: s2_def s1_def\<close>)
        ultimately show ?thesis by (simp add: same_on_def live2)
      qed
      ultimately show thesis using \<open>malloc_small s i = Some (b, s')\<close> t(7,9) live2 by (intro that(2)) auto
    qed
  qed
qed

text \<open>Large requests.\<close>

lemma live_add_big:
  assumes "A a = None" "a mod 4096 = 0"
  shows "live (A(a \<mapsto> Big n)) F = (live A F)(a + 12 \<mapsto> 4096 * n - 12)" "live A F (a + 12) = None"
proof -
  have pb: "page_base (a + 12) = a" using assms(2) by (rule page_base_inside) simp
  then show "live A F (a + 12) = None" using assms(1) by (simp add: live_def)
  show "live (A(a \<mapsto> Big n)) F = (live A F)(a + 12 \<mapsto> 4096 * n - 12)"
  proof
    fix b
    show "live (A(a \<mapsto> Big n)) F b = ((live A F)(a + 12 \<mapsto> 4096 * n - 12)) b"
      using pb assms(1) by (cases "page_base b = a") (auto simp: live_def)
  qed
qed

lemma malloc_big_contract:
  assumes inv: "malloc_inv s A F" "busy A F" and cnt: "size_t (int sz + int sizeof_arena + int PGSIZE - 1) div PGSIZE = n"
    and n: "0 < n" "n < 2 ^ 20" and os: "allocated (mpages s) = os \<union> owned A" "os \<inter> owned A = {}"
  obtains "malloc_big s sz = Some (NULL, s)" "pool_full (mpages s) 0 n"
  | b s' where "malloc_big s sz = Some (b, s')" "b \<noteq> NULL" "live A F b = None"
    "malloc_ok s' ((live A F)(b \<mapsto> 4096 * n - 12)) os" "same_on (block_bytes (live A F) \<union> page_bytes os) s s'"
proof -
  have st: "static_ok s" "arenas_ok s A F" "arenas_apart A" "lists_ok s A F" using inv by (simp_all add: malloc_inv_def)
  have ok: "palloc_ok (mpages s)" using st(1) by (simp add: static_ok_def)
  show thesis
  proof (rule kernel_pages [OF ok n(1)], goal_cases)
    case 1
    then have "malloc_big s sz = Some (NULL, s)" by (simp only: malloc_big_def Let_def cnt) simp
    then show thesis using 1(2) by (intro that(1))
  next
    case (2 a g)
    define s' where "s' = init_arena (s\<lparr>mpages := g\<rparr>) a NULL n"
    have run: "malloc_big s sz = Some (a + 12, s')" using 2(1,3) by (simp only: malloc_big_def Let_def cnt) (simp add: s'_def sizeof_arena_def)
    have here: "header_ok s' F a (Big n)"
      using n by (simp add: s'_def init_arena_header unat_of_nat take_bit_nat_eq_self)
    have p: "a + 4096 * page_count (Big n) \<le> 2 ^ 32" "0 < page_count (Big n)" "arena_pages a (Big n) \<inter> allocated (mpages s) = {}"
      "descs_base s' = descs_base s" "pool_base (kernel_pool (mpages s')) = pool_base (kernel_pool (mpages s))"
      "allocated (mpages s') = allocated (mpages s) \<union> arena_pages a (Big n)"
      using 2 n by (simp_all add: s'_def)
    have ram: "ram (mpages s') x = ram (mpages s) x" if "x < a \<or> a + 12 \<le> x" for x
      using init_arena_outside [OF that, of "s\<lparr>mpages := g\<rparr>"] 2(9) by (simp add: s'_def)
    have q: "ram (mpages s') x = ram (mpages s) x" if "x < a \<or> a + 4096 * page_count (Big n) \<le> x" for x
      using that n(1) by (intro ram) auto
    have new: "arenas_ok s' (A(a \<mapsto> Big n)) F" "arenas_apart (A(a \<mapsto> Big n))" "A a = None"
      by (rule arenas_ok_add [OF st(2,3) 2(4,6) p(1-3) q p(4-6) refl here]; assumption)+
    have "lists_ok s' (A(a \<mapsto> Big n)) F" using st(4) new(3) by (auto simp: lists_ok_def s'_def desc_ptr_def)
    moreover have "static_ok s'" by (rule static_ok_cong [OF st(1)]) (simp_all add: s'_def 2)
    ultimately have inv': "malloc_inv s' (A(a \<mapsto> Big n)) F" using new by (simp add: malloc_inv_def)
    have bz: "busy (A(a \<mapsto> Big n)) F" using inv(2) by (simp add: busy_def)
    have o: "owned (A(a \<mapsto> Big n)) = owned A \<union> arena_pages a (Big n)" by (rule owned_upd [where A = A, OF new(3)])
    have d: "os \<inter> owned (A(a \<mapsto> Big n)) = {}" using o os p(3) by blast
    have mo: "malloc_ok s' ((live A F)(a + 12 \<mapsto> 4096 * n - 12)) os"
      using malloc_ok_intro [OF inv' bz _ d] o os(1) p(6) live_add_big(1) [where A = A, OF new(3) 2(4)] by (simp add: Un_assoc)
    have "same_on (block_bytes (live (A(a \<mapsto> Big n)) F) \<union> page_bytes os) s' s"
      by (rule same_on_header [OF inv' d, of a "Big n"]) (use ram in auto)
    moreover have "block_bytes (live A F) \<subseteq> block_bytes (live (A(a \<mapsto> Big n)) F)"
      unfolding live_add_big(1) [where A = A, OF new(3) 2(4)] by (rule block_bytes_upd, rule live_add_big(2) [where A = A, OF new(3) 2(4)])
    ultimately have "same_on (block_bytes (live A F) \<union> page_bytes os) s s'" by (auto simp: same_on_def)
    then show thesis using run mo live_add_big(2) [where A = A, OF new(3) 2(4)] by (intro that(2)) auto
  qed
qed

text \<open>The search for the descriptor.\<close>

lemma find_desc_bounds:
  "i \<le> find_desc ds sz i \<and> find_desc ds sz i \<le> i + length ds \<and>
   (find_desc ds sz i < i + length ds \<longrightarrow> sz \<le> desc_block_size (ds ! (find_desc ds sz i - i)))"
proof (induction ds arbitrary: i)
  case (Cons d ds)
  show ?case using Cons.IH [of "i + 1"] by (auto simp: nth_Cons')
qed simp

text \<open>The number of pages of a large request whose size does not wrap around.\<close>

lemma big_page_count:
  assumes "0 < sz" "sz + 4107 < 2 ^ 32"
  defines "n \<equiv> (sz + 4107) div 4096"
  shows "size_t (int sz + int sizeof_arena + int PGSIZE - 1) div PGSIZE = n" "0 < n" "n < 2 ^ 20" "sz \<le> 4096 * n - 12"
proof -
  have "sz + 12 \<le> 4096 * n" using div_mult_mod_eq [of "sz + 4107" 4096] mod_less_divisor [of 4096 "sz + 4107"] unfolding n_def by linarith
  then show "sz \<le> 4096 * n - 12" by linarith
  have "size_t (int sz + int sizeof_arena + int PGSIZE - 1) = sz + 4107"
    using assms(2) by (simp add: size_t_def sizeof_arena_def nat_mod_distrib nat_add_distrib)
  then show "size_t (int sz + int sizeof_arena + int PGSIZE - 1) div PGSIZE = n" by (simp add: n_def)
  show "0 < n" "n < 2 ^ 20" using assms(1,2) by (simp_all add: n_def div_greater_zero_iff div_less_iff_less_mult)
qed

lemma malloc_contract:
  assumes ok: "malloc_ok s L os" and sz: "sz + 4107 < 2 ^ 32"
  obtains "malloc_block s sz = Some (NULL, s)" "0 < sz \<Longrightarrow> \<exists>n. 0 < n \<and> n \<le> DIV_ROUND_UP (sz + 12) 4096 \<and> pool_full (mpages s) 0 n"
  | b s' n where "0 < sz" "malloc_block s sz = Some (b, s')" "b \<noteq> NULL" "L b = None" "sz \<le> n"
    "malloc_ok s' (L(b \<mapsto> n)) os" "same_on (block_bytes L \<union> page_bytes os) s s'"
proof (cases "sz = 0")
  case True
  then show thesis by (intro that(1)) (simp_all add: malloc_block_def)
next
  case False
  obtain A F where AF: "malloc_inv s A F" "busy A F" "L = live A F" "allocated (mpages s) = os \<union> owned A" "os \<inter> owned A = {}"
    using ok by (auto simp: malloc_ok_def)
  have ds: "descs s = map (\<lambda>i. \<lparr>desc_block_size = blk_size i, blocks_per_arena = blk_count i\<rparr>) [0..<7]"
    using AF(1) by (simp add: malloc_inv_def static_ok_def)
  then have len: "length (descs s) = 7" by simp
  define i where "i = find_desc (descs s) sz 0"
  have i: "i \<le> 7" "i < 7 \<Longrightarrow> sz \<le> blk_size i" using find_desc_bounds [of 0 "descs s" sz] len by (auto simp: i_def ds)
  have page_cnt: "DIV_ROUND_UP (sz + 12) 4096 = (sz + 4107) div 4096" by (simp add: DIV_ROUND_UP_def)
  show thesis
  proof (cases "i = 7")
    case True
    then have run: "malloc_block s sz = malloc_big s sz" using False len by (simp add: malloc_block_def i_def)
    from False have "0 < sz" by simp
    show thesis
    proof (rule malloc_big_contract [OF AF(1,2) big_page_count(1-3) [OF \<open>0 < sz\<close> sz] AF(4,5)], goal_cases)
      case 1
      moreover have "0 < (sz + 4107) div 4096" using False by (simp add: div_greater_zero_iff)
      ultimately show thesis using run by (intro that(1)) (auto simp: page_cnt)
    next
      case (2 b s')
      then show thesis using run False big_page_count(4) [OF \<open>0 < sz\<close> sz] by (intro that(2) [of b s']) (auto simp: AF(3))
    qed
  next
    case False2: False
    then have i7: "i < 7" using i(1) by simp
    have run: "malloc_block s sz = malloc_small s i" using False False2 len by (simp add: malloc_block_def i_def [symmetric] Let_def)
    show thesis
    proof (rule malloc_small_contract [OF AF(1,2) i7 AF(4,5)], goal_cases)
      case 1
      moreover have "1 \<le> DIV_ROUND_UP (sz + 12) 4096" using False by (simp add: page_cnt div_greater_zero_iff Suc_le_eq)
      ultimately show thesis using run by (intro that(1)) auto
    next
      case (2 b s')
      then show thesis using run False i(2) [OF i7] by (intro that(2) [of b s']) (auto simp: AF(3))
    qed
  qed
qed

end
