(* ===== verification/Malloc_Free.thy ===== *)
theory Malloc_Free
  imports Malloc_Calls
begin

text \<open>\<^verbatim>\<open>free\<close>: the block goes back to its list, and an arena without blocks in use goes back to the page allocator.\<close>

section \<open>An arena without blocks in use\<close>

lemma drop_arena:
  assumes inv: "malloc_inv s A F" and a: "A a = Some (Small i)" and all: "set (arena_blocks i a) \<subseteq> set (F i)"
  defines "F' \<equiv> F(i := filter (\<lambda>b. b \<notin> set (arena_blocks i a)) (F i))"
  obtains h g where "remove_blocks s a [0..<blk_count i] = Some (s\<lparr>mlinks := h\<rparr>)" "palloc_free_page (mpages s) a = Some g"
    "malloc_inv (s\<lparr>mlinks := h, mpages := g\<rparr>) (A(a := None)) F'" "allocated g = allocated (mpages s) - {a}"
    "\<And>x. x < a \<or> a + 4096 \<le> x \<Longrightarrow> ram g x = ram (mpages s) x"
proof -
  have st: "static_ok s" "arenas_ok s A F" "arenas_apart A" "lists_ok s A F" using inv by (simp_all add: malloc_inv_def)
  define l where "l = free_list (desc_ptr s i)"
  note fa = arena_facts [OF st(2) a]
  have i: "i < 7" using fa(5) by simp
  have a0: "a \<noteq> NULL" using fa(2) desc_ptr_props(3) [OF st(1) i] by auto
  have r: "represents (mlinks s) l (F i)" using st(4) i by (auto simp: lists_ok_def l_def)
  have im: "nth_block i a ` set [0..<blk_count i] = set (arena_blocks i a)" by (simp add: arena_blocks_map)
  have ks: "set [0..<blk_count i] \<subseteq> {..<blk_count i}" "nth_block i a ` set [0..<blk_count i] \<subseteq> set (F i)" using all im by auto
  obtain h where h: "remove_blocks (s\<lparr>mlinks := mlinks s\<rparr>) a [0..<blk_count i] = Some (s\<lparr>mlinks := h\<rparr>)"
    "represents h l (F' i)" "\<forall>x. x \<notin> set (F i) \<union> {head_of l, tail_of l} \<longrightarrow> h x = mlinks s x"
    using remove_blocks_run [OF st(1) fa(5) a0 r distinct_upt ks] unfolding im by (auto simp: F'_def)
  have sub: "pages_at a 1 \<subseteq> allocated (mpages s)" using fa(4) by simp
  have pal: "palloc_ok (mpages s)" using st(1) by (simp add: static_ok_def)
  obtain g where g: "palloc_free_multiple (mpages s) a 1 = Some g" "palloc_ok g" "allocated g = allocated (mpages s) - pages_at a 1"
    "ram g = store_bytes (ram (mpages s)) a (replicate (4096 * 1) 0xcc)"
    by (rule palloc_free_allocated [OF pal fa(1) sub zero_less_one])
  let ?s = "s\<lparr>mlinks := h, mpages := g\<rparr>"
  have ram: "ram (mpages ?s) x = ram (mpages s) x" if "x < a \<or> a + 4096 * page_count (Small i) \<le> x" for x
    using that by (auto simp: g(4) store_bytes_outside)
  have old: "set (F' j) \<inter> set (arena_blocks j c) = set (F j) \<inter> set (arena_blocks j c)" if c: "A c = Some (Small j)" "c \<noteq> a" for c j
  proof (cases "j = i")
    case True
    have "set (arena_blocks i a) \<inter> set (arena_blocks i c) = {}"
      using block_page [of _ i a] block_page [of _ i c] fa(1) arena_facts(1) [OF st(2) c(1)] c(2) by fastforce
    then show ?thesis using True by (auto simp: F'_def)
  qed (simp add: F'_def)
  have b: "pool_base (kernel_pool (mpages ?s)) = pool_base (kernel_pool (mpages s))" using palloc_free_pool_base [OF g(1)] by simp
  have al: "allocated (mpages ?s) = allocated (mpages s) - arena_pages a (Small i)" using g(3) by simp
  have new: "arenas_ok ?s (A(a := None)) F'" "arenas_apart (A(a := None))"
    by (rule arenas_ok_remove [OF st(2,3) a ram _ b al old]; simp)+
  have "lists_ok (s\<lparr>mlinks := h\<rparr>) A F'"
    unfolding F'_def
  proof (rule lists_ok_change [OF st(1,2,4) i, of h])
    show "represents h (free_list (desc_ptr s i)) (filter (\<lambda>b. b \<notin> set (arena_blocks i a)) (F i))"
      using h(2) by (simp add: l_def F'_def)
  qed (use h(3) st(4) i in \<open>auto simp: l_def lists_ok_def\<close>)
  moreover have "page_base b \<noteq> a" if j: "j < 7" "b \<in> set (F' j)" for j b
  proof
    assume pb: "page_base b = a"
    have "b \<in> set (F j)" using j(2) by (auto simp: F'_def split: if_splits)
    then have "A a = Some (Small j)" "b \<in> set (arena_blocks j a)" using st(4) j(1) pb by (auto simp: lists_ok_def)
    with a j(2) show False by (simp add: F'_def)
  qed
  ultimately have "lists_ok ?s (A(a := None)) F'" by (simp add: lists_ok_def desc_ptr_def)
  moreover have "static_ok ?s" by (rule static_ok_cong [OF st(1)]) (simp_all add: g(2) b [simplified])
  ultimately have "malloc_inv ?s (A(a := None)) F'" using new by (simp add: malloc_inv_def)
  then show thesis using h(1) g by (intro that [of h g]) (auto simp: palloc_get_page_def palloc_free_page_def store_bytes_outside)
qed

lemma live_drop:
  assumes "A a = Some (Small i)" "set (arena_blocks i a) \<subseteq> set (F i)" "a mod 4096 = 0"
  shows "live (A(a := None)) (F(i := filter (\<lambda>b. b \<notin> set (arena_blocks i a)) (F i))) = live A F"
proof
  fix b
  show "live (A(a := None)) (F(i := filter (\<lambda>b. b \<notin> set (arena_blocks i a)) (F i))) b = live A F b"
  proof (cases "page_base b = a")
    case True
    then show ?thesis using assms by (auto simp: live_def)
  next
    case False
    then have "b \<notin> set (arena_blocks i a)" using block_page [of b i a] assms(3) by argo
    then show ?thesis using False by (auto simp: live_def split: option.split arena_kind.split)
  qed
qed

section \<open>The call\<close>

lemma fill_eq: "p \<noteq> NULL \<Longrightarrow> fill s p v n = Some (s\<lparr>mpages := (mpages s)\<lparr>ram := store_bytes (ram (mpages s)) p (replicate n v)\<rparr>\<rparr>)"
  by (simp add: fill_def memset_def memset_loop_eq)

text \<open>Writing inside a block that is handed out keeps the invariant.\<close>

lemma malloc_inv_write:
  assumes inv: "malloc_inv s A F" and k: "A a = Some k"
    and m: "\<And>x. x < a + 12 \<or> a + 4096 * page_count k \<le> x \<Longrightarrow> m x = ram (mpages s) x"
  shows "malloc_inv (s\<lparr>mpages := (mpages s)\<lparr>ram := m\<rparr>\<rparr>) A F"
proof -
  have st: "static_ok s" "arenas_ok s A F" "arenas_apart A" "lists_ok s A F" using inv by (simp_all add: malloc_inv_def)
  let ?s = "s\<lparr>mpages := (mpages s)\<lparr>ram := m\<rparr>\<rparr>"
  have "header_ok ?s F a k"
    by (rule header_ok_frame [OF arena_facts(5) [OF st(2) k]]) (use m in auto)
  then have "arenas_ok ?s A F"
    by (intro arenas_ok_change [OF st(2,3) k, of ?s F]) (use m in auto)
  moreover have "static_ok ?s" using st(1) by (simp add: static_ok_def)
  moreover have "lists_ok ?s A F" using st(4) by (simp add: lists_ok_def desc_ptr_def)
  ultimately show ?thesis using st(3) by (simp add: malloc_inv_def)
qed

lemma live_give:
  assumes b: "A (page_base b) = Some (Small i)" "b \<in> set (arena_blocks i (page_base b))"
  shows "live A (F(i := b # F i)) = (live A F)(b := None)"
proof
  fix c
  show "live A (F(i := b # F i)) c = ((live A F)(b := None)) c"
    using b by (cases "c = b") (auto simp: live_def split: option.split arena_kind.split)
qed

lemma block_bytes_remove: "block_bytes (L(b := None)) \<subseteq> block_bytes L"
  by (auto simp: block_bytes_def split: if_splits)

lemma freed_bytes:
  assumes inv: "malloc_inv s A F" and b: "live A F b = Some n" and x: "x \<in> block_bytes ((live A F)(b := None))"
  shows "x < b \<or> b + n \<le> x"
proof -
  obtain c m where c: "c \<noteq> b" "live A F c = Some m" "c \<le> x" "x < c + m" using x by (auto simp: block_bytes_def split: if_splits)
  from live_apart [OF inv b c(2)] c show ?thesis by (auto simp: apart_from_def)
qed

lemma free_small_contract:
  assumes inv: "malloc_inv s A F" "busy A F" and os: "allocated (mpages s) = os \<union> owned A" "os \<inter> owned A = {}"
    and b: "A (page_base b) = Some (Small i)" "b \<in> set (arena_blocks i (page_base b))" "b \<notin> set (F i)"
  obtains s' where "free_block s b = Some s'" "malloc_ok s' ((live A F)(b := None)) os"
    "same_on (block_bytes ((live A F)(b := None)) \<union> page_bytes os) s s'"
proof -
  have st: "static_ok s" "arenas_ok s A F" "arenas_apart A" using inv by (simp_all add: malloc_inv_def)
  define a where "a = page_base b"
  note a = b [folded a_def]
  note fa = arena_facts [OF st(2) a(1)]
  have i: "i < 7" using fa(5) by simp
  have rng: "a + 12 \<le> b" "b + blk_size i \<le> a + 4096" by (rule block_bounds [OF a(2)])+
  have hdr: "block_to_arena s b = Some a" "arena_desc s a = desc_ptr s i" "desc_ptr s i \<noteq> NULL" "b \<noteq> NULL"
    "desc_of s (desc_ptr s i) = Some \<lparr>desc_block_size = blk_size i, blocks_per_arena = blk_count i\<rparr>"
    using block_arena_run [OF st(1,2) b(1,2), of s] fa(5) desc_ptr_props(1) [OF st(1) i] desc_of_ptr [OF st(1) i] rng by (simp_all add: a_def)
  define s0 where "s0 = s\<lparr>mpages := (mpages s)\<lparr>ram := store_bytes (ram (mpages s)) b (replicate (blk_size i) 0xcc)\<rparr>\<rparr>"
  have inv0: "malloc_inv s0 A F"
    unfolding s0_def by (rule malloc_inv_write [OF inv(1) a(1)]) (use rng in \<open>auto intro!: store_bytes_outside\<close>)
  have fa0: "arena_desc s0 a = desc_ptr s i"
    using inv0 arena_facts(5) [of s0 A F a "Small i"] a(1) by (simp add: malloc_inv_def s0_def desc_ptr_def)
  define s1 where "s1 h = set_word (s0\<lparr>mlinks := h\<rparr>) (a + 8) (of_nat (arena_free_cnt s0 a) + 1)" for h
  obtain h where h: "list_push_front (mlinks s0) (free_list (desc_ptr s i)) b = Some h" "malloc_inv (s1 h) A (F(i := b # F i))"
    "arena_free_cnt (s1 h) a = card (set (b # F i) \<inter> set (arena_blocks i a))"
    using give_block [OF inv0 b] unfolding a_def [symmetric] s1_def by (auto simp: s0_def desc_ptr_def)
  let ?F = "F(i := b # F i)"
  have live1: "live A ?F = (live A F)(b := None)" using b(1,2) by (rule live_give)
  have n: "live A F b = Some (blk_size i)" using b by (simp add: live_def)
  have al1: "allocated (mpages (s1 h)) = os \<union> owned A" using os(1) by (simp add: s1_def s0_def)
  have same1: "same_on (block_bytes ((live A F)(b := None)) \<union> page_bytes os) s (s1 h)"
    unfolding same_on_def
  proof
    fix x assume x: "x \<in> block_bytes ((live A F)(b := None)) \<union> page_bytes os"
    have "same_on (block_bytes (live A ?F) \<union> page_bytes os) s0 (s1 h)"
      unfolding live1
      by (rule same_on_mono [OF same_on_header [OF inv0 os(2) a(1), of "s1 h"]])
         (use block_bytes_remove in \<open>auto simp: s1_def store32_outside\<close>)
    then have "ram (mpages (s1 h)) x = ram (mpages s0) x" using x by (simp add: same_on_def live1)
    moreover have "x < b \<or> b + blk_size i \<le> x"
    proof (cases "x \<in> page_bytes os")
      case True
      have "pages_at a 1 \<inter> os = {}" using os(2) a(1) by (force simp: mem_owned disjoint_iff)
      with page_bytes_outside [OF fa(1) _ True] rng show ?thesis by fastforce
    next
      case False
      then show ?thesis using freed_bytes [OF inv(1) n] x by blast
    qed
    then have "ram (mpages s0) x = ram (mpages s) x" by (simp add: s0_def store_bytes_outside)
    ultimately show "ram (mpages (s1 h)) x = ram (mpages s) x" by simp
  qed
  have rest: "\<not> set (arena_blocks j c) \<subseteq> set (?F j)" if c: "A c = Some (Small j)" "c \<noteq> a" for c j
  proof (cases "j = i")
    case True
    have "b \<notin> set (arena_blocks i c)" using block_page [of b i c] arena_facts(1) [OF st(2) c(1)] c(2) by (auto simp: a_def)
    then show ?thesis using True inv(2) c(1) by (auto simp: busy_def)
  next
    case False
    then show ?thesis using inv(2) c(1) by (simp add: busy_def)
  qed
  have fl: "fill s b 0xcc (blk_size i) = Some s0" using fill_eq [OF hdr(4)] by (simp add: s0_def)
  have start: "free_block s b = (if blk_count i \<le> arena_free_cnt (s1 h) a then do {
      ASSERT (arena_free_cnt (s1 h) a = blk_count i); s \<leftarrow> remove_blocks (s1 h) a [0..<blk_count i];
      g \<leftarrow> palloc_free_page (mpages s) a; Some (s\<lparr>mpages := g\<rparr>) } else Some (s1 h))"
    using hdr fa0 h(1) fl by (simp add: free_block_def Let_def s1_def [symmetric] cong: if_cong)
  show thesis
  proof (cases "blk_count i \<le> arena_free_cnt (s1 h) a")
    case False
    have "busy A ?F" unfolding busy_def
    proof (intro allI impI)
      fix c j assume c: "A c = Some (Small j)"
      show "\<not> set (arena_blocks j c) \<subseteq> set (?F j)"
      proof (cases "c = a")
        case True
        then have "j = i" using c a(1) by simp
        show ?thesis
        proof
          assume "set (arena_blocks j c) \<subseteq> set (?F j)"
          then have "set (b # F i) \<inter> set (arena_blocks i a) = set (arena_blocks i a)" using True \<open>j = i\<close> by auto
          with h(3) False show False by simp
        qed
      qed (use rest c in auto)
    qed
    then have "malloc_ok (s1 h) ((live A F)(b := None)) os" using malloc_ok_intro [OF h(2) _ al1 os(2)] live1 by simp
    then show thesis using start False same1 by (intro that [of "s1 h"]) auto
  next
    case True
    have "card (set (b # F i) \<inter> set (arena_blocks i a)) \<le> blk_count i" using card_mono [of "set (arena_blocks i a)"] by simp
    then have eq: "card (set (b # F i) \<inter> set (arena_blocks i a)) = card (set (arena_blocks i a))" using True h(3) by simp
    have "set (b # F i) \<inter> set (arena_blocks i a) = set (arena_blocks i a)"
      by (rule card_subset_eq) (use eq in auto)
    then have all: "set (arena_blocks i a) \<subseteq> set (?F i)" by auto
    define F2 where "F2 = ?F(i := filter (\<lambda>b. b \<notin> set (arena_blocks i a)) (?F i))"
    obtain h2 g where d: "remove_blocks (s1 h) a [0..<blk_count i] = Some ((s1 h)\<lparr>mlinks := h2\<rparr>)" "palloc_free_page (mpages (s1 h)) a = Some g"
      "malloc_inv ((s1 h)\<lparr>mlinks := h2, mpages := g\<rparr>) (A(a := None)) F2" "allocated g = allocated (mpages (s1 h)) - {a}"
      "\<And>x. x < a \<or> a + 4096 \<le> x \<Longrightarrow> ram g x = ram (mpages (s1 h)) x"
      using drop_arena [OF h(2) a(1) all] unfolding F2_def by metis
    define s2 where "s2 = (s1 h)\<lparr>mlinks := h2, mpages := g\<rparr>"
    have run: "free_block s b = Some s2" using start True d(1,2) eq h(3) by (simp add: s2_def)
    have live2: "live (A(a := None)) F2 = (live A F)(b := None)"
      unfolding F2_def live1 [symmetric] using a(1) all fa(1) by (rule live_drop)
    have bz: "busy (A(a := None)) F2" unfolding busy_def
    proof (intro allI impI)
      fix c j assume "(A(a := None)) c = Some (Small j)"
      then have c: "A c = Some (Small j)" "c \<noteq> a" by (auto split: if_splits)
      have "set (F2 j) \<subseteq> set (?F j)" by (auto simp: F2_def)
      with rest [OF c] show "\<not> set (arena_blocks j c) \<subseteq> set (F2 j)" by blast
    qed
    have o: "owned A = owned (A(a := None)) \<union> {a}" "owned (A(a := None)) \<inter> {a} = {}"
      using owned_remove [OF st(3) a(1)] by simp_all
    have al2: "allocated (mpages s2) = os \<union> owned (A(a := None))" "os \<inter> owned (A(a := None)) = {}"
      using d(4) al1 o os(2) by (auto simp: s2_def)
    have mo: "malloc_ok s2 ((live A F)(b := None)) os"
      using malloc_ok_intro [OF d(3) [folded s2_def] bz al2] by (simp add: live2)
    have "same_on (block_bytes ((live A F)(b := None)) \<union> page_bytes os) (s1 h) s2"
      unfolding same_on_def
    proof
      fix x assume x: "x \<in> block_bytes ((live A F)(b := None)) \<union> page_bytes os"
      have "a \<notin> os \<union> owned (A(a := None))" using o os(2) by auto
      moreover have "page_base x \<in> os \<union> owned (A(a := None))"
        using x block_bytes_owned [OF d(3)] unfolding live2 by (auto simp: page_bytes_def)
      ultimately have "page_base x \<noteq> a" by blast
      then have "x < a \<or> a + 4096 \<le> x" by (rule page_base_outside [OF fa(1)])
      then show "ram (mpages s2) x = ram (mpages (s1 h)) x" by (simp add: s2_def d(5))
    qed
    then show thesis using run mo same_on_trans [OF same1] by (intro that [of s2]) auto
  qed
qed

text \<open>Large blocks.\<close>

lemma live_drop_big:
  assumes "A a = Some (Big n)" "a mod 4096 = 0"
  shows "live (A(a := None)) F = (live A F)(a + 12 := None)"
proof
  fix c
  have "page_base (a + 12) = a" using assms(2) by (rule page_base_inside) simp
  then show "live (A(a := None)) F c = ((live A F)(a + 12 := None)) c"
    using assms(1) by (cases "page_base c = a") (auto simp: live_def)
qed

lemma free_big_contract:
  assumes inv: "malloc_inv s A F" "busy A F" and os: "allocated (mpages s) = os \<union> owned A" "os \<inter> owned A = {}"
    and a: "A a = Some (Big n)"
  obtains s' where "free_block s (a + 12) = Some s'" "malloc_ok s' ((live A F)(a + 12 := None)) os"
    "same_on (block_bytes ((live A F)(a + 12 := None)) \<union> page_bytes os) s s'"
proof -
  have st: "static_ok s" "arenas_ok s A F" "arenas_apart A" "lists_ok s A F" using inv by (simp_all add: malloc_inv_def)
  note fa = arena_facts [OF st(2) a]
  have a0: "a \<noteq> NULL" using fa(2) desc_ptr_props(3) [of s 0, OF st(1)] by auto
  have ofs: "pg_ofs (a + 12) = 12" using fa(1) by (auto simp: pg_ofs_eq elim!: dvdE)
  have hdr: "block_to_arena s (a + 12) = Some a" "arena_desc s a = NULL" "arena_free_cnt s a = n" "0 < n"
    using fa(5) a0 ofs by (simp_all add: block_to_arena_def sizeof_arena_def)
  have ok: "palloc_ok (mpages s)" using st(1) by (simp add: static_ok_def)
  obtain g where g: "palloc_free_multiple (mpages s) a n = Some g" "palloc_ok g" "allocated g = allocated (mpages s) - pages_at a n"
    "ram g = store_bytes (ram (mpages s)) a (replicate (4096 * n) 0xcc)"
    using fa(4) by (auto intro: palloc_free_allocated [OF ok fa(1) _ hdr(4)])
  let ?s = "s\<lparr>mpages := g\<rparr>"
  have run: "free_block s (a + 12) = Some ?s" using hdr g(1) by (simp add: free_block_def)
  have ram: "ram (mpages ?s) x = ram (mpages s) x" if "x < a \<or> a + 4096 * page_count (Big n) \<le> x" for x
    using that by (auto simp: g(4) store_bytes_outside)
  have b: "pool_base (kernel_pool (mpages ?s)) = pool_base (kernel_pool (mpages s))" using palloc_free_pool_base [OF g(1)] by simp
  have al: "allocated (mpages ?s) = allocated (mpages s) - arena_pages a (Big n)" using g(3) by simp
  have new: "arenas_ok ?s (A(a := None)) F" "arenas_apart (A(a := None))"
    by (rule arenas_ok_remove [OF st(2,3) a ram _ b al refl]; simp)+
  have "lists_ok ?s (A(a := None)) F" using st(4) a by (auto simp: lists_ok_def desc_ptr_def)
  moreover have "static_ok ?s" by (rule static_ok_cong [OF st(1)]) (simp_all add: g(2) b [simplified])
  ultimately have inv': "malloc_inv ?s (A(a := None)) F" using new by (simp add: malloc_inv_def)
  have bz: "busy (A(a := None)) F" using inv(2) by (auto simp: busy_def)
  have o: "owned A = owned (A(a := None)) \<union> pages_at a n" "owned (A(a := None)) \<inter> pages_at a n = {}"
    using owned_remove [OF st(3) a] by simp_all
  have al2: "allocated (mpages ?s) = os \<union> owned (A(a := None))" "os \<inter> owned (A(a := None)) = {}"
    using g(3) os o by auto
  have live': "live (A(a := None)) F = (live A F)(a + 12 := None)" using a fa(1) by (rule live_drop_big)
  have mo: "malloc_ok ?s ((live A F)(a + 12 := None)) os" using malloc_ok_intro [OF inv' bz al2] by (simp add: live')
  have "same_on (block_bytes ((live A F)(a + 12 := None)) \<union> page_bytes os) s ?s"
    unfolding same_on_def
  proof
    fix x assume x: "x \<in> block_bytes ((live A F)(a + 12 := None)) \<union> page_bytes os"
    have "x \<in> page_bytes (os \<union> owned (A(a := None)))"
      using x block_bytes_owned [OF inv'] unfolding live' by (auto simp: page_bytes_def)
    moreover have "pages_at a n \<inter> (os \<union> owned (A(a := None))) = {}" using o os(2) by blast
    ultimately have "x < a \<or> a + 4096 * n \<le> x" using page_bytes_outside [OF fa(1)] by blast
    then show "ram (mpages ?s) x = ram (mpages s) x" using ram [of x] by simp
  qed
  with run mo show thesis by (rule that)
qed

lemma free_contract:
  assumes ok: "malloc_ok s L os" and b: "L b = Some n"
  obtains s' where "free_block s b = Some s'" "malloc_ok s' (L(b := None)) os" "same_on (block_bytes (L(b := None)) \<union> page_bytes os) s s'"
proof -
  obtain A F where AF: "malloc_inv s A F" "busy A F" "L = live A F" "allocated (mpages s) = os \<union> owned A" "os \<inter> owned A = {}"
    using ok by (auto simp: malloc_ok_def)
  from b have "live A F b = Some n" by (simp add: AF(3))
  then show thesis
  proof (cases rule: live_cases)
    case (1 i)
    from free_small_contract [OF AF(1,2,4,5) 1(1-3)] show thesis using that unfolding AF(3) by metis
  next
    case (2 m)
    from free_big_contract [OF AF(1,2,4,5) 2(1)] show thesis using that unfolding AF(3) 2(2) [symmetric] by metis
  qed
qed

end
