(* ===== verification/Malloc_Properties.thy ===== *)
theory Malloc_Properties
  imports Malloc_Free Process_Properties
begin

text \<open>The properties of the block allocator.\<close>

section \<open>Initialisation\<close>

definition std_descs :: "nat \<Rightarrow> desc list" where
  "std_descs k = map (\<lambda>i. \<lparr>desc_block_size = blk_size i, blocks_per_arena = blk_count i\<rparr>) [0..<k]"

lemma malloc_init_loop_run:
  assumes base: "0 < descs_base s"
  shows "k \<le> 7 \<Longrightarrow> (\<And>j. j < k \<Longrightarrow> represents h (free_list (desc_ptr s j)) []) \<Longrightarrow>
    \<exists>h'. malloc_init_loop (s\<lparr>descs := std_descs k, mlinks := h\<rparr>) (blk_size k) = Some (s\<lparr>descs := std_descs 7, mlinks := h'\<rparr>) \<and>
      (\<forall>j<7. represents h' (free_list (desc_ptr s j)) [])"
proof (induction "7 - k" arbitrary: k h)
  case 0
  then have k: "k = 7" by simp
  have "\<not> blk_size 7 < PGSIZE div 2" by (simp add: blk_size_def)
  then show ?case using 0 unfolding k by (subst malloc_init_loop.simps) auto
next
  case (Suc d)
  then have k: "k < 7" by simp
  have lt: "blk_size k < PGSIZE div 2"
  proof -
    have "(2::nat) ^ k \<le> 2 ^ 6" using k by (intro power_increasing) simp_all
    then show ?thesis by (simp add: blk_size_def)
  qed
  let ?s = "s\<lparr>descs := std_descs k, mlinks := h\<rparr>"
  define l where "l = free_list (desc_ptr s k)"
  have len: "length (std_descs k) = k" by (simp add: std_descs_def)
  have l0: "l \<noteq> NULL" by (simp add: l_def free_list_def)
  obtain h1 where h1: "list_init h l = Some h1" "represents h1 l []" "\<And>x. x \<notin> {head_of l, tail_of l} \<Longrightarrow> h1 x = h x"
    using list_init_represents [OF l0, of h] by auto
  have old: "represents h1 (free_list (desc_ptr s j)) []" if j: "j < Suc k" for j
  proof (cases "j = k")
    case True
    then show ?thesis using h1(2) by (simp add: l_def)
  next
    case False
    then have jk: "j < k" using j by simp
    show ?thesis
    proof (rule represents_frame [OF Suc.prems(2) [OF jk]])
      fix x assume x: "x \<in> set (head_of (free_list (desc_ptr s j)) # [] @ [tail_of (free_list (desc_ptr s j))])"
      have "48 * Suc j \<le> 48 * k" using jk by (intro mult_le_mono2) simp
      then have "x < head_of l" using x
        by (auto simp: l_def head_of_def tail_of_def free_list_def desc_ptr_def sizeof_desc_def)
      then show "h1 x = h x" by (intro h1(3)) (auto simp: head_of_def tail_of_def)
    qed
  qed
  have next_descs: "std_descs k @ [\<lparr>desc_block_size = blk_size k, blocks_per_arena = (PGSIZE - sizeof_arena) div blk_size k\<rparr>] = std_descs (Suc k)"
    by (simp add: std_descs_def sizeof_arena_def blk_count_def)
  have next_size: "size_t (int (blk_size k) * 2) = blk_size (Suc k)"
    using lt by (simp add: size_t_def nat_mod_distrib nat_mult_distrib) (simp add: blk_size_def)
  have ptr: "desc_ptr ?s (length (descs ?s)) = desc_ptr s k" by (simp add: desc_ptr_def len)
  have step: "malloc_init_loop ?s (blk_size k) = malloc_init_loop (s\<lparr>descs := std_descs (Suc k), mlinks := h1\<rparr>) (blk_size (Suc k))"
    using lt len k h1(1) ptr next_descs next_size
    by (subst malloc_init_loop.simps) (simp add: Let_def DESC_MAX_def l_def)
  have "d = 7 - Suc k" "Suc k \<le> 7" using Suc.hyps(2) k by simp_all
  from Suc.hyps(1) [OF this old] show ?case unfolding step .
qed

lemma malloc_init_ok:
  assumes "palloc_ok (mpages s)" "descs s = []" "0 < descs_base s" "descs_base s + 480 \<le> pool_base (kernel_pool (mpages s))"
  obtains s' where "malloc_init s = Some s'" "malloc_ok s' Map.empty (allocated (mpages s))" "mpages s' = mpages s"
proof -
  have z: "s\<lparr>descs := std_descs 0, mlinks := mlinks s\<rparr> = s" using assms(2) by (simp add: std_descs_def)
  obtain h where h: "malloc_init s = Some (s\<lparr>descs := std_descs 7, mlinks := h\<rparr>)" "\<forall>j<7. represents h (free_list (desc_ptr s j)) []"
    using malloc_init_loop_run [OF assms(3), of 0 "mlinks s"] unfolding z by (auto simp: malloc_init_def blk_size_def)
  let ?s = "s\<lparr>descs := std_descs 7, mlinks := h\<rparr>"
  have "malloc_inv ?s Map.empty (\<lambda>_. [])"
    using assms h(2) by (simp add: malloc_inv_def static_ok_def std_descs_def arenas_ok_def arenas_apart_def lists_ok_def desc_ptr_def)
  moreover have "live Map.empty (\<lambda>_. []) = Map.empty" by (simp add: live_def fun_eq_iff)
  ultimately have "malloc_ok ?s Map.empty (allocated (mpages s))"
    using malloc_ok_intro [of ?s Map.empty "\<lambda>_. []" "allocated (mpages s)"] by (simp add: busy_def owned_def)
  with h(1) show thesis by (intro that [OF h(1)]) simp_all
qed

text \<open>A kernel that has just started, on the small machine with one free kernel page.\<close>

definition sample_heap :: malloc_state where
  "sample_heap = \<lparr>mlinks = (\<lambda>_. \<lparr>prev_ptr = 0, next_ptr = 0\<rparr>), mpages = sample_pages, descs = [], descs_base = 0xc0000100\<rparr>"

lemma sample_heap_init:
  obtains s where "malloc_init sample_heap = Some s" "malloc_ok s Map.empty {0xc0001000, 0xc0002000}" "\<not> pool_full (mpages s) 0 1"
proof (rule malloc_init_ok [of sample_heap])
  show "palloc_ok (mpages sample_heap)" "descs sample_heap = []" "0 < descs_base sample_heap"
    "descs_base sample_heap + 480 \<le> pool_base (kernel_pool (mpages sample_heap))"
    using sample_pages_ok by (simp_all add: sample_heap_def sample_pages_def)
  fix s assume s: "malloc_init sample_heap = Some s" "malloc_ok s Map.empty (allocated (mpages sample_heap))" "mpages s = mpages sample_heap"
  have "mpages sample_heap = sample_pages" by (simp add: sample_heap_def)
  with s(2,3) sample_allocated sample_not_full(1)
  have "malloc_ok s Map.empty {0xc0001000, 0xc0002000}" "\<not> pool_full (mpages s) 0 1" by simp_all
  with s(1) show thesis by (rule that)
qed

section \<open>Sizes and contents of blocks\<close>

lemma malloc_ok_size:
  assumes ok: "malloc_ok s L os" and b: "L b = Some n"
  shows "block_size_of s b = Some n" "b \<noteq> NULL" "0 < n"
proof -
  obtain A F where AF: "malloc_inv s A F" "L = live A F" using ok by (auto simp: malloc_ok_def)
  have st: "static_ok s" "arenas_ok s A F" using AF(1) by (simp_all add: malloc_inv_def)
  have lb: "live A F b = Some n" using b by (simp add: AF(2))
  obtain k where "page_base b + 12 \<le> b" "0 < n" using live_inside [OF AF(1) lb] by metis
  then show "b \<noteq> NULL" "0 < n" by linarith+
  from lb show "block_size_of s b = Some n"
  proof (cases rule: live_cases)
    case (1 i)
    note fa = arena_facts(5) [OF st(2) 1(1)]
    have "desc_of s (desc_ptr s i) = Some \<lparr>desc_block_size = blk_size i, blocks_per_arena = blk_count i\<rparr>"
      using desc_of_ptr [OF st(1)] fa by simp
    then show ?thesis using block_arena_run [OF st 1(1,2), of s] fa 1(4) desc_ptr_props(1) [OF st(1)]
      by (simp add: block_size_of_def)
  next
    case (2 m)
    define a where "a = page_base b"
    note fa = arena_facts [OF st(2) 2(1), folded a_def]
    have ba: "b = a + 12" "a \<noteq> NULL" using 2(2) fa(2) desc_ptr_props(3) [of s 0, OF st(1)] by (auto simp: a_def)
    have ofs: "pg_ofs b = 12" using fa(1) unfolding ba(1) by (auto simp: pg_ofs_eq elim!: dvdE)
    have "block_to_arena s b = Some a" using fa(5) ba ofs by (simp add: block_to_arena_def sizeof_arena_def)
    moreover have "size_t (int (PGSIZE * m) - int 12) = 4096 * m - 12"
      using fa(3,5) by (simp add: size_t_def nat_mod_distrib flip: of_nat_diff) 
    ultimately show ?thesis using fa(5) 2(3) ofs by (simp add: block_size_of_def)
  qed
qed

lemma malloc_ok_write:
  assumes ok: "malloc_ok s L os" and c: "L c = Some m" and w: "\<And>x. x < c \<or> c + m \<le> x \<Longrightarrow> w x = ram (mpages s) x"
  shows "malloc_ok (s\<lparr>mpages := (mpages s)\<lparr>ram := w\<rparr>\<rparr>) L os"
proof -
  obtain A F where AF: "malloc_inv s A F" "busy A F" "L = live A F" "allocated (mpages s) = os \<union> owned A" "os \<inter> owned A = {}"
    using ok by (auto simp: malloc_ok_def)
  obtain k where k: "A (page_base c) = Some k" "page_base c + 12 \<le> c" "c + m \<le> page_base c + 4096 * page_count k"
    using live_inside [OF AF(1)] c by (metis AF(3))
  have "malloc_inv (s\<lparr>mpages := (mpages s)\<lparr>ram := w\<rparr>\<rparr>) A F"
    by (rule malloc_inv_write [OF AF(1) k(1)]) (use w k in auto)
  from malloc_ok_intro [OF this AF(2) _ AF(5)] AF(4) show ?thesis by (simp add: AF(3))
qed

section \<open>The contract of a block allocator\<close>

text \<open>
  A client sees the map of the blocks that it holds.  The allocator may refuse a request; otherwise the block is
  new and large enough.  Blocks in the map never overlap, and a block in the map can be given back.
\<close>

locale block_allocator =
  fixes alloc :: "'s \<Rightarrow> nat \<Rightarrow> (addr \<times> 's) option"
    and release :: "'s \<Rightarrow> addr \<Rightarrow> 's option"
    and size_of :: "'s \<Rightarrow> addr \<Rightarrow> nat option"
    and ok :: "'s \<Rightarrow> (addr \<Rightarrow> nat option) \<Rightarrow> bool"
    and limit :: nat
  assumes alloc_law: "ok s L \<Longrightarrow> sz < limit \<Longrightarrow> \<exists>b s'. alloc s sz = Some (b, s') \<and>
      (if b = NULL then ok s' L else L b = None \<and> (\<exists>n\<ge>sz. ok s' (L(b \<mapsto> n))))"
    and release_law: "ok s L \<Longrightarrow> L b = Some n \<Longrightarrow> \<exists>s'. release s b = Some s' \<and> ok s' (L(b := None))"
    and size_law: "ok s L \<Longrightarrow> L b = Some n \<Longrightarrow> size_of s b = Some n \<and> b \<noteq> NULL"
    and apart_law: "ok s L \<Longrightarrow> L b = Some n \<Longrightarrow> L c = Some m \<Longrightarrow> b \<noteq> c \<Longrightarrow> apart_from b n c m"
begin

lemma alloc_cases:
  assumes "ok s L" "sz < limit"
  obtains s' where "alloc s sz = Some (NULL, s')" "ok s' L"
  | b s' n where "alloc s sz = Some (b, s')" "b \<noteq> NULL" "L b = None" "sz \<le> n" "ok s' (L(b \<mapsto> n))" "size_of s' b = Some n"
proof -
  obtain b s' where r: "alloc s sz = Some (b, s')" "if b = NULL then ok s' L else L b = None \<and> (\<exists>n\<ge>sz. ok s' (L(b \<mapsto> n)))"
    using alloc_law [OF assms] by auto
  show thesis
  proof (cases "b = NULL")
    case True
    with r that(1) show thesis by simp
  next
    case False
    with r(2) obtain n where n: "L b = None" "sz \<le> n" "ok s' (L(b \<mapsto> n))" by auto
    with r(1) False size_law [OF n(3), of b n] show thesis by (intro that(2)) auto
  qed
qed

lemma two_blocks_apart:
  assumes "ok s L" "sz < limit" "tz < limit" "alloc s sz = Some (b, s1)" "b \<noteq> NULL" "alloc s1 tz = Some (c, s2)" "c \<noteq> NULL"
  shows "apart_from b sz c tz"
proof -
  obtain n where n: "sz \<le> n" "ok s1 (L(b \<mapsto> n))" using alloc_law [OF assms(1,2)] assms(4,5) by auto
  obtain m where m: "tz \<le> m" "(L(b \<mapsto> n)) c = None" "ok s2 (L(b \<mapsto> n, c \<mapsto> m))" using alloc_law [OF n(2) assms(3)] assms(6,7) by auto
  have "b \<noteq> c" using m(2) by auto
  then have "apart_from b n c m" using apart_law [OF m(3), of b n c m] by simp
  with n(1) m(1) show ?thesis by (auto simp: apart_from_def)
qed

end

definition size_limit :: nat where
  "size_limit = 2 ^ 32 - 4107"

lemma malloc_null_or_new:
  assumes "malloc_ok s L os" "sz < size_limit"
  shows "\<exists>b s'. malloc_block s sz = Some (b, s') \<and> (if b = NULL then malloc_ok s' L os else L b = None \<and> (\<exists>n\<ge>sz. malloc_ok s' (L(b \<mapsto> n)) os))"
proof -
  have sz: "sz + 4107 < 2 ^ 32" using assms(2) by (simp add: size_limit_def)
  show ?thesis
  proof (rule malloc_contract [OF assms(1) sz], goal_cases)
    case 1
    then show ?thesis using assms(1) by auto
  next
    case (2 b s' n)
    then show ?thesis by (intro exI [of _ b] exI [of _ s']) auto
  qed
qed

interpretation mal: block_allocator malloc_block free_block block_size_of "\<lambda>s L. malloc_ok s L os" size_limit for os
proof
  show "\<exists>s'. free_block s b = Some s' \<and> malloc_ok s' (L(b := None)) os" if "malloc_ok s L os" "L b = Some n" for s L b n
    by (rule free_contract [OF that]) blast
  show "apart_from b n c m" if "malloc_ok s L os" "L b = Some n" "L c = Some m" "b \<noteq> c" for s L b n c m
    using that by (rule malloc_ok_apart)
qed (use malloc_null_or_new malloc_ok_size in blast)+

section \<open>Sequences of requests\<close>

text \<open>
  A client of the allocator, for the statement only: it asks for blocks and gives back blocks that it holds.
  \<open>R\<close> is what it holds, for each block the size that it asked for and the size of the block at that time.
\<close>

datatype request = Malloc nat | Free addr

type_synonym holdings = "addr \<Rightarrow> (nat \<times> nat) option"

fun serve :: "malloc_state \<Rightarrow> holdings \<Rightarrow> request list \<Rightarrow> (malloc_state \<times> holdings) option" where
  "serve s R [] = Some (s, R)"
| "serve s R (Malloc sz # rs) = do {
     (b, s) \<leftarrow> malloc_block s sz;
     if b = NULL then serve s R rs else do { n \<leftarrow> block_size_of s b; serve s (R(b \<mapsto> (sz, n))) rs }
   }"
| "serve s R (Free b # rs) = (if R b = None then serve s R rs else do { s \<leftarrow> free_block s b; serve s (R(b := None)) rs })"

definition fair :: "request \<Rightarrow> bool" where
  "fair r = (case r of Malloc sz \<Rightarrow> sz < size_limit | Free b \<Rightarrow> True)"

definition sizes :: "holdings \<Rightarrow> addr \<Rightarrow> nat option" where
  "sizes R b = map_option snd (R b)"

lemma sizes_upd: "sizes (R(b \<mapsto> (sz, n))) = (sizes R)(b \<mapsto> n)" "sizes (R(b := None)) = (sizes R)(b := None)"
  by (auto simp: sizes_def fun_eq_iff)

definition holds :: "malloc_state \<Rightarrow> holdings \<Rightarrow> addr set \<Rightarrow> bool" where
  "holds s R os \<longleftrightarrow> malloc_ok s (sizes R) os \<and> (\<forall>b sz n. R b = Some (sz, n) \<longrightarrow> sz \<le> n)"

lemma serve_ok:
  "holds s R os \<Longrightarrow> list_all fair rs \<Longrightarrow> \<exists>s' R'. serve s R rs = Some (s', R') \<and> holds s' R' os"
proof (induction s R rs rule: serve.induct)
  case (2 s R sz rs)
  have fr: "list_all fair rs" using 2(4) by simp
  have sz: "sz < size_limit" using 2(4) by (simp add: fair_def)
  have R: "malloc_ok s (sizes R) os" "\<forall>b sz n. R b = Some (sz, n) \<longrightarrow> sz \<le> n" using 2(3) by (simp_all add: holds_def)
  from R(1) sz show ?case
  proof (cases rule: mal.alloc_cases)
    case (1 s')
    then have "holds s' R os" using R(2) by (simp add: holds_def)
    then show ?thesis using 2(1) [OF 1(1) refl refl _ fr] 1(1) by auto
  next
    case (2 b s' n)
    define R1 where "R1 = R(b \<mapsto> (sz, n))"
    have "holds s' R1 os" using 2(4,5) R(2) by (auto simp: holds_def R1_def sizes_upd)
    then have "\<exists>s'' R'. serve s' R1 rs = Some (s'', R') \<and> holds s'' R' os"
      unfolding R1_def by (intro "2.IH"(2) [OF 2(1) refl _ 2(6) _ fr]) (use 2(2) in \<open>simp_all del: fun_upd_apply\<close>)
    then show ?thesis using 2(1,2,6) by (simp add: R1_def [symmetric])
  qed
next
  case (3 s R b rs)
  show ?case
  proof (cases "R b")
    case None
    then show ?thesis using 3 by simp
  next
    case (Some e)
    have R: "malloc_ok s (sizes R) os" "\<forall>b sz n. R b = Some (sz, n) \<longrightarrow> sz \<le> n" using 3(3) by (simp_all add: holds_def)
    have "sizes R b = Some (snd e)" using Some by (simp add: sizes_def)
    then obtain s' where s': "free_block s b = Some s'" "malloc_ok s' ((sizes R)(b := None)) os" using mal.release_law [OF R(1)] by auto
    define R1 where "R1 = R(b := None)"
    have "holds s' R1 os" using s'(2) R(2) by (simp add: holds_def R1_def sizes_upd)
    then have "\<exists>s'' R'. serve s' R1 rs = Some (s'', R') \<and> holds s'' R' os"
      unfolding R1_def by (intro 3(2) [OF _ s'(1)]) (use 3(4) Some in \<open>simp_all del: fun_upd_apply\<close>)
    then show ?thesis using s'(1) Some by (simp add: R1_def [symmetric])
  qed
qed auto

text \<open>
  C17: The block allocator serves any sequence of requests for fewer than \<open>2 ^ 32 - 4107\<close> bytes each without
  halting (it may answer null pointers): every block that a client holds is at least as large as it asked
  for and keeps its size, the blocks never overlap, and when all have been given back, every page has been
  returned to the page allocator.
\<close>

theorem malloc_serves_requests:
  assumes "malloc_ok s Map.empty os" "list_all fair rs"
  shows "\<exists>s' R. serve s Map.empty rs = Some (s', R) \<and>
    (\<forall>b sz n. R b = Some (sz, n) \<longrightarrow> sz \<le> n \<and> block_size_of s' b = Some n) \<and>
    (\<forall>b sz n c tz m. R b = Some (sz, n) \<longrightarrow> R c = Some (tz, m) \<longrightarrow> b \<noteq> c \<longrightarrow> apart_from b n c m) \<and>
    (R = Map.empty \<longrightarrow> allocated (mpages s') = os)"
proof -
  have "sizes Map.empty = Map.empty" by (simp add: sizes_def fun_eq_iff)
  then have "holds s Map.empty os" using assms(1) by (simp add: holds_def)
  from serve_ok [OF this assms(2)] obtain s' R where R: "serve s Map.empty rs = Some (s', R)" "holds s' R os" by blast
  then have ok: "malloc_ok s' (sizes R) os" and le: "\<forall>b sz n. R b = Some (sz, n) \<longrightarrow> sz \<le> n" by (simp_all add: holds_def)
  have sz: "sizes R b = Some n" if "R b = Some (z, n)" for b z n using that by (simp add: sizes_def)
  have "allocated (mpages s') = os" if "R = Map.empty"
    using ok that malloc_ok_empty [of s' os] by (simp add: \<open>sizes Map.empty = Map.empty\<close>)
  then show ?thesis using R(1) le mal.size_law [OF ok sz] mal.apart_law [OF ok sz sz] by blast
qed

theorem malloc_serves_requests_witness:
  "\<exists>s s' L. malloc_init sample_heap = Some s \<and> serve s Map.empty [Malloc 100, Malloc 40, Malloc 120] = Some (s', L) \<and>
    (\<forall>b sz n. L b = Some (sz, n) \<longrightarrow> sz \<le> n \<and> block_size_of s' b = Some n)"
proof -
  obtain s where s: "malloc_init sample_heap = Some s" "malloc_ok s Map.empty {0xc0001000, 0xc0002000}"
    by (rule sample_heap_init)
  have "list_all fair [Malloc 100, Malloc 40, Malloc 120]" by (simp add: fair_def size_limit_def)
  from malloc_serves_requests [OF s(2) this] s(1) show ?thesis by blast
qed

section \<open>Resizing\<close>

lemma memcpy_eq:
  assumes "d \<noteq> NULL" "p \<noteq> NULL" "apart_from d n p n"
  shows "memcpy m d p n = Some (d, store_bytes m d (load_bytes m p n))"
  using assms copy_up_eq [of d p n m] by (simp add: memcpy_def)

lemma same_on_block:
  assumes "same_on (block_bytes L \<union> X) s s'" "L b = Some n" "k \<le> n"
  shows "load_bytes (ram (mpages s')) b k = load_bytes (ram (mpages s)) b k"
proof (rule nth_equalityI)
  fix i assume "i < length (load_bytes (ram (mpages s')) b k)"
  then have i: "i < k" by simp
  then have "b + i \<in> block_bytes L" using assms(2,3) unfolding block_bytes_def by (intro CollectI exI [of _ b] exI [of _ n]) simp
  then show "load_bytes (ram (mpages s')) b k ! i = load_bytes (ram (mpages s)) b k ! i" using assms(1) i by (simp add: same_on_def)
qed simp

lemma other_bytes:
  assumes ok: "malloc_ok s L os" and c: "L c = Some m" and x: "x \<in> block_bytes (L(c := None)) \<union> page_bytes os"
  shows "x < c \<or> c + m \<le> x"
proof -
  obtain A F where AF: "malloc_inv s A F" "L = live A F" "os \<inter> owned A = {}" using ok by (auto simp: malloc_ok_def)
  show ?thesis
  proof (cases "x \<in> page_bytes os")
    case False
    then show ?thesis using freed_bytes [OF AF(1), of c m x] c x by (auto simp: AF(2))
  next
    case True
    have "x \<notin> block_bytes (live A F)" using block_bytes_owned [OF AF(1)] True AF(3) by (auto simp: page_bytes_def)
    then show ?thesis using c unfolding AF(2) block_bytes_def by (metis (mono_tags, lifting) mem_Collect_eq not_less)
  qed
qed

text \<open>
  C20: \<^verbatim>\<open>realloc\<close> to a size between 1 and \<open>2 ^ 32 - 4108\<close> keeps the content: it either finds no memory, answers a null pointer and leaves the old block
  as it is, or answers a new block of at least the new size, whose first bytes are those of the old block, as
  many as both have; the old block is gone and no other block has changed.
\<close>

theorem realloc_keeps_content:
  assumes ok: "malloc_ok s L os" and b: "L b = Some n" and sz: "0 < sz" "sz < size_limit"
  shows "realloc_block s b sz = Some (NULL, s) \<or>
    (\<exists>c m s'. realloc_block s b sz = Some (c, s') \<and> c \<noteq> NULL \<and> L c = None \<and> sz \<le> m \<and> malloc_ok s' (L(b := None, c \<mapsto> m)) os \<and>
      load_bytes (ram (mpages s')) c (min sz n) = load_bytes (ram (mpages s)) b (min sz n) \<and>
      same_on (block_bytes (L(b := None)) \<union> page_bytes os) s s')"
proof -
  have lim: "sz + 4107 < 2 ^ 32" using sz(2) by (simp add: size_limit_def)
  have b0: "b \<noteq> NULL" using malloc_ok_size(2) [OF ok b] .
  show ?thesis
  proof (rule malloc_contract [OF ok lim], goal_cases)
    case 1
    then have "realloc_block s b sz = Some (NULL, s)" using sz(1) by (simp add: realloc_block_def)
    then show ?thesis ..
  next
    case (2 c s1 m)
    define k where "k = min sz n"
    have bc: "b \<noteq> c" using b 2(4) by auto
    define L1 where "L1 = L(c \<mapsto> m)"
    have L1: "malloc_ok s1 L1 os" "L1 b = Some n" "L1 c = Some m" using 2(6) b bc by (simp_all add: L1_def)
    have ap: "apart_from b n c m" by (rule malloc_ok_apart [OF L1 bc])
    then have ap': "apart_from c k b k" "apart_from b k c k" using 2(5) by (auto simp: k_def apart_from_def)
    define w where "w = store_bytes (ram (mpages s1)) c (load_bytes (ram (mpages s1)) b k)"
    define s2 where "s2 = s1\<lparr>mpages := (mpages s1)\<lparr>ram := w\<rparr>\<rparr>"
    have kk: "(if sz < n then sz else n) = k" by (simp add: k_def)
    have cp: "memcpy (ram (mpages s1)) c b (if sz < n then sz else n) = Some (c, w)"
      using memcpy_eq [OF 2(3) b0 ap'(1)] unfolding kk by (simp add: w_def)
    have km: "k \<le> m" using 2(5) by (simp add: k_def)
    have ok2: "malloc_ok s2 L1 os" unfolding s2_def
      by (rule malloc_ok_write [OF L1(1,3)]) (use km in \<open>auto simp: w_def intro!: store_bytes_outside\<close>)
    obtain s3 where s3: "free_block s2 b = Some s3" "malloc_ok s3 (L1(b := None)) os" "same_on (block_bytes (L1(b := None)) \<union> page_bytes os) s2 s3"
      by (rule free_contract [OF ok2 L1(2)])
    have run: "realloc_block s b sz = Some (c, s3)"
      using sz(1) 2(2,3) b0 malloc_ok_size(1) [OF L1(1,2)] cp s3(1) by (simp add: realloc_block_def s2_def [symmetric])
    have upd: "L1(b := None) = L(b := None, c \<mapsto> m)" using bc by (auto simp: L1_def)
    have "load_bytes (ram (mpages s3)) c k = load_bytes (ram (mpages s2)) c k"
      by (rule same_on_block [OF s3(3)]) (use bc km L1(3) in simp_all)
    also have "\<dots> = load_bytes (ram (mpages s1)) b k" using load_store_bytes [of "ram (mpages s1)" c "load_bytes (ram (mpages s1)) b k"]
      by (simp add: s2_def w_def)
    also have "\<dots> = load_bytes (ram (mpages s)) b k" by (rule same_on_block [OF 2(7) b]) (simp add: k_def)
    finally have content: "load_bytes (ram (mpages s3)) c k = load_bytes (ram (mpages s)) b k" .
    have "same_on (block_bytes (L(b := None)) \<union> page_bytes os) s s3"
      unfolding same_on_def
    proof
      fix x assume x: "x \<in> block_bytes (L(b := None)) \<union> page_bytes os"
      have sub: "block_bytes (L(b := None)) \<subseteq> block_bytes (L1(b := None))"
        using block_bytes_upd [of "L(b := None)" c m] 2(4) bc unfolding upd by simp
      have "ram (mpages s3) x = ram (mpages s2) x" using s3(3) x sub by (auto simp: same_on_def)
      also have "\<dots> = ram (mpages s1) x"
      proof -
        have "L1(c := None) = L" using 2(4) by (auto simp: L1_def)
        then have "x \<in> block_bytes (L1(c := None)) \<union> page_bytes os" using x block_bytes_remove [of L b] by auto
        then have "x < c \<or> c + m \<le> x" by (rule other_bytes [OF L1(1,3)])
        then show ?thesis using km by (auto simp: s2_def w_def intro!: store_bytes_outside)
      qed
      also have "\<dots> = ram (mpages s) x" using 2(7) x block_bytes_remove [of L b] by (auto simp: same_on_def)
      finally show "ram (mpages s3) x = ram (mpages s) x" .
    qed
    with run 2(3,4,5) s3(2) content show ?thesis unfolding upd k_def by blast
  qed
qed

theorem realloc_keeps_content_witness:
  "\<exists>s s1 b n. malloc_init sample_heap = Some s \<and> malloc_block s 100 = Some (b, s1) \<and> b \<noteq> NULL \<and> block_size_of s1 b = Some n \<and>
    (realloc_block s1 b 120 = Some (NULL, s1) \<or> (\<exists>c s2. realloc_block s1 b 120 = Some (c, s2) \<and> c \<noteq> NULL \<and>
      load_bytes (ram (mpages s2)) c (min 120 n) = load_bytes (ram (mpages s1)) b (min 120 n)))"
proof -
  obtain s where s: "malloc_init sample_heap = Some s" "malloc_ok s Map.empty {0xc0001000, 0xc0002000}" "\<not> pool_full (mpages s) 0 1"
    by (rule sample_heap_init)
  have z: "(100 :: nat) + 4107 < 2 ^ 32" "0 < (120 :: nat)" "120 < size_limit" by (simp_all add: size_limit_def)
  obtain b s1 n where b: "malloc_block s 100 = Some (b, s1)" "b \<noteq> NULL" "malloc_ok s1 [b \<mapsto> n] {0xc0001000, 0xc0002000}"
  proof (rule malloc_contract [OF s(2) z(1)], goal_cases)
    case 1
    then obtain k where "0 < k" "k \<le> DIV_ROUND_UP (100 + 12) 4096" "pool_full (mpages s) 0 k" by auto
    moreover have "DIV_ROUND_UP (100 + 12) 4096 = 1" by (simp add: DIV_ROUND_UP_def)
    ultimately have "pool_full (mpages s) 0 1" by (metis One_nat_def le_antisym Suc_leI)
    with s(3) show thesis by simp
  next
    case (2 b s1 n)
    then show thesis using that by blast
  qed
  have "[b \<mapsto> n] b = Some n" by simp
  from realloc_keeps_content [OF b(3) this z(2,3)] malloc_ok_size(1) [OF b(3) this] s(1) b(1,2) show ?thesis by blast
qed

section \<open>Sizes that wrap around\<close>


lemma calloc_serves:
  fixes a b :: nat
  defines "sz \<equiv> size_t (int a * int b)"
  assumes ok: "malloc_ok s L os" and le: "a \<le> sz" "b \<le> sz" and lim: "sz < size_limit"
  shows "calloc_block s a b = Some (NULL, s) \<and> (0 < sz \<longrightarrow> (\<exists>k. 0 < k \<and> k \<le> DIV_ROUND_UP (sz + 12) 4096 \<and> pool_full (mpages s) 0 k)) \<or>
    (\<exists>p n s'. calloc_block s a b = Some (p, s') \<and> p \<noteq> NULL \<and> L p = None \<and> sz \<le> n \<and> malloc_ok s' (L(p \<mapsto> n)) os \<and>
      load_bytes (ram (mpages s')) p sz = replicate sz 0)"
proof -
  have "sz + 4107 < 2 ^ 32" using lim by (simp add: size_limit_def)
  from ok this show ?thesis
  proof (rule malloc_contract, goal_cases)
    case 1
    have "calloc_block s a b = Some (NULL, s)" using le 1(1) by (simp add: calloc_block_def Let_def sz_def [symmetric])
    then show ?thesis using 1(2) by blast
  next
    case (2 p s1 n)
    define m where "m = store_bytes (ram (mpages s1)) p (replicate sz 0)"
    define s2 where "s2 = s1\<lparr>mpages := (mpages s1)\<lparr>ram := m\<rparr>\<rparr>"
    have "calloc_block s a b = Some (p, s2)"
      using le 2(2,3) by (simp add: calloc_block_def Let_def fill_eq s2_def m_def sz_def [symmetric])
    moreover have "malloc_ok s2 (L(p \<mapsto> n)) os"
      unfolding s2_def by (rule malloc_ok_write [OF 2(6)]) (use 2(5) in \<open>auto simp: m_def intro!: store_bytes_outside\<close>)
    moreover have "load_bytes (ram (mpages s2)) p sz = replicate sz 0"
      using load_store_bytes [of "ram (mpages s1)" p "replicate sz 0"] by (simp add: s2_def m_def)
    ultimately show ?thesis using 2(3-5) by blast
  qed
qed



section \<open>Cleared blocks\<close>

lemma calloc_clears:
  assumes ok: "malloc_ok s L os" and sz: "a * b < size_limit" "0 < a" "0 < b"
  shows "calloc_block s a b = Some (NULL, s) \<or>
    (\<exists>p n s'. calloc_block s a b = Some (p, s') \<and> p \<noteq> NULL \<and> L p = None \<and> a * b \<le> n \<and> malloc_ok s' (L(p \<mapsto> n)) os \<and>
      load_bytes (ram (mpages s')) p (a * b) = replicate (a * b) 0)"
proof -
  have w: "size_t (int a * int b) = a * b" using sz(1) by (simp add: size_limit_def size_t_def flip: of_nat_mult)
  have "a \<le> a * b" "b \<le> a * b" using sz(2,3) by simp_all
  with calloc_serves [OF ok, of a b] sz(1) show ?thesis unfolding w by blast
qed

end
