(* ===== verification/Hash_Table.thy ===== *)
theory Hash_Table
  imports Kernel_List_Ordered Machine_Memory
begin

text \<open>
  \<^verbatim>\<open>lib/kernel/hash.c\<close>: hash tables with chaining, whose buckets are lists of \<^verbatim>\<open>list.c\<close>.  The \<^verbatim>\<open>struct hash_elem\<close> is
  its \<^verbatim>\<open>list_elem\<close>, so that both have one address.  The hash function and the comparison are fields of the
  table, applied to the addresses of elements; \<open>mem\<close> is what \<^verbatim>\<open>malloc\<close> answers when an operation asks for an
  array of buckets.  The number of elements does not wrap around, because they have different addresses.  A function that calls an action for elements returns the elements in the order of the calls.
\<close>

unbundle bit_operations_syntax

section \<open>Tables\<close>

record hash_table =
  hash_cnt :: nat
  bucket_cnt :: nat
  buckets :: addr
  hash_fn :: "addr \<Rightarrow> u32"
  less_fn :: "addr \<Rightarrow> addr \<Rightarrow> bool"

definition sizeof_list :: nat where "sizeof_list = 16"

definition bucket_at :: "addr \<Rightarrow> nat \<Rightarrow> addr" where
  "bucket_at bs i = bs + sizeof_list * i"

definition find_bucket :: "hash_table \<Rightarrow> addr \<Rightarrow> addr" where
  "find_bucket t e = bucket_at (buckets t) (unat (hash_fn t e) AND (bucket_cnt t - 1))"

partial_function (option) find_loop :: "heap \<Rightarrow> hash_table \<Rightarrow> addr \<Rightarrow> addr \<Rightarrow> addr \<Rightarrow> addr option" where
  "find_loop h t bucket e i = do {
     en \<leftarrow> list_end bucket;
     if i \<noteq> en then
       if \<not> less_fn t i e \<and> \<not> less_fn t e i then Some i
       else do { i \<leftarrow> list_next h i; find_loop h t bucket e i }
     else Some NULL
   }"

definition find_elem :: "heap \<Rightarrow> hash_table \<Rightarrow> addr \<Rightarrow> addr \<Rightarrow> addr option" where
  "find_elem h t bucket e = do { i \<leftarrow> list_begin h bucket; find_loop h t bucket e i }"

definition insert_elem :: "heap \<Rightarrow> hash_table \<Rightarrow> addr \<Rightarrow> addr \<Rightarrow> (heap \<times> hash_table) option" where
  "insert_elem h t bucket e = do {
     let t = t\<lparr>hash_cnt := hash_cnt t + 1\<rparr>;
     h \<leftarrow> list_push_front h bucket e;
     Some (h, t)
   }"

definition remove_elem :: "heap \<Rightarrow> hash_table \<Rightarrow> addr \<Rightarrow> (heap \<times> hash_table) option" where
  "remove_elem h t e = do {
     let t = t\<lparr>hash_cnt := hash_cnt t - 1\<rparr>;
     (_, h) \<leftarrow> list_remove h e;
     Some (h, t)
   }"

section \<open>The number of buckets\<close>

definition turn_off_least_1bit :: "nat \<Rightarrow> nat" where
  "turn_off_least_1bit x = x AND (x - 1)"

definition is_power_of_2 :: "nat \<Rightarrow> bool" where
  "is_power_of_2 x \<longleftrightarrow> x \<noteq> 0 \<and> turn_off_least_1bit x = 0"

definition MIN_ELEMS_PER_BUCKET :: nat where "MIN_ELEMS_PER_BUCKET = 1"
definition BEST_ELEMS_PER_BUCKET :: nat where "BEST_ELEMS_PER_BUCKET = 2"
definition MAX_ELEMS_PER_BUCKET :: nat where "MAX_ELEMS_PER_BUCKET = 4"

partial_function (option) power_loop :: "nat \<Rightarrow> nat option" where
  "power_loop n = (if \<not> is_power_of_2 n then power_loop (turn_off_least_1bit n) else Some n)"

definition new_bucket_cnt :: "nat \<Rightarrow> nat option" where
  "new_bucket_cnt cnt = (let n = cnt div BEST_ELEMS_PER_BUCKET in power_loop (if n < 4 then 4 else n))"

fun init_buckets :: "heap \<Rightarrow> addr \<Rightarrow> nat list \<Rightarrow> heap option" where
  "init_buckets h bs [] = Some h"
| "init_buckets h bs (i # is) = do { h \<leftarrow> list_init h (bucket_at bs i); init_buckets h bs is }"

partial_function (option) move_loop :: "heap \<Rightarrow> hash_table \<Rightarrow> addr \<Rightarrow> addr \<Rightarrow> heap option" where
  "move_loop h t old elem = do {
     en \<leftarrow> list_end old;
     if elem \<noteq> en then do {
       let new_bucket = find_bucket t elem;
       nxt \<leftarrow> list_next h elem;
       (_, h) \<leftarrow> list_remove h elem;
       h \<leftarrow> list_push_front h new_bucket elem;
       move_loop h t old nxt
     } else Some h
   }"

fun move_buckets :: "heap \<Rightarrow> hash_table \<Rightarrow> addr \<Rightarrow> nat list \<Rightarrow> heap option" where
  "move_buckets h t olds [] = Some h"
| "move_buckets h t olds (i # is) = do {
     b \<leftarrow> list_begin h (bucket_at olds i);
     h \<leftarrow> move_loop h t (bucket_at olds i) b;
     move_buckets h t olds is
   }"

definition rehash :: "heap \<Rightarrow> hash_table \<Rightarrow> addr \<Rightarrow> (heap \<times> hash_table) option" where
  "rehash h t mem = do {
     let old_buckets = buckets t;
     let old_bucket_cnt = bucket_cnt t;
     n \<leftarrow> new_bucket_cnt (hash_cnt t);
     if n = old_bucket_cnt then Some (h, t)
     else if mem = NULL then Some (h, t)
     else do {
       h \<leftarrow> init_buckets h mem [0..<n];
       let t = t\<lparr>buckets := mem, bucket_cnt := n\<rparr>;
       h \<leftarrow> move_buckets h t old_buckets [0..<old_bucket_cnt];
       Some (h, t)
     }
   }"

section \<open>Operations\<close>

partial_function (option) pop_all :: "heap \<Rightarrow> addr \<Rightarrow> (addr list \<times> heap) option" where
  "pop_all h l = do {
     em \<leftarrow> list_empty h l;
     if em then Some ([], h)
     else do { (e, h) \<leftarrow> list_pop_front h l; (es, h) \<leftarrow> pop_all h l; Some (e # es, h) }
   }"

fun clear_buckets :: "heap \<Rightarrow> addr \<Rightarrow> bool \<Rightarrow> nat list \<Rightarrow> (addr list \<times> heap) option" where
  "clear_buckets h bs destructor [] = Some ([], h)"
| "clear_buckets h bs destructor (i # is) = do {
     let bucket = bucket_at bs i;
     (es, h) \<leftarrow> (if destructor then pop_all h bucket else Some ([], h));
     h \<leftarrow> list_init h bucket;
     (fs, h) \<leftarrow> clear_buckets h bs destructor is;
     Some (es @ fs, h)
   }"

definition hash_clear :: "heap \<Rightarrow> hash_table \<Rightarrow> bool \<Rightarrow> (addr list \<times> heap \<times> hash_table) option" where
  "hash_clear h t destructor = do {
     (es, h) \<leftarrow> clear_buckets h (buckets t) destructor [0..<bucket_cnt t];
     Some (es, h, t\<lparr>hash_cnt := 0\<rparr>)
   }"

text \<open>\<^verbatim>\<open>hash_destroy\<close> also answers the array that it returns to \<^verbatim>\<open>free\<close>.\<close>

definition hash_destroy :: "heap \<Rightarrow> hash_table \<Rightarrow> bool \<Rightarrow> (addr list \<times> addr \<times> heap) option" where
  "hash_destroy h t destructor = do {
     (es, h, t) \<leftarrow> (if destructor then hash_clear h t destructor else Some ([], h, t));
     Some (es, buckets t, h)
   }"

definition hash_init :: "heap \<Rightarrow> (addr \<Rightarrow> u32) \<Rightarrow> (addr \<Rightarrow> addr \<Rightarrow> bool) \<Rightarrow> addr \<Rightarrow> (bool \<times> heap \<times> hash_table) option" where
  "hash_init h hash lt mem = do {
     let t = \<lparr>hash_cnt = 0, bucket_cnt = 4, buckets = mem, hash_fn = hash, less_fn = lt\<rparr>;
     if buckets t \<noteq> NULL then do { (_, h, t) \<leftarrow> hash_clear h t False; Some (True, h, t) }
     else Some (False, h, t)
   }"

definition hash_insert :: "heap \<Rightarrow> hash_table \<Rightarrow> addr \<Rightarrow> addr \<Rightarrow> (addr \<times> heap \<times> hash_table) option" where
  "hash_insert h t new mem = do {
     let bucket = find_bucket t new;
     old \<leftarrow> find_elem h t bucket new;
     (h, t) \<leftarrow> (if old = NULL then insert_elem h t bucket new else Some (h, t));
     (h, t) \<leftarrow> rehash h t mem;
     Some (old, h, t)
   }"

definition hash_replace :: "heap \<Rightarrow> hash_table \<Rightarrow> addr \<Rightarrow> addr \<Rightarrow> (addr \<times> heap \<times> hash_table) option" where
  "hash_replace h t new mem = do {
     let bucket = find_bucket t new;
     old \<leftarrow> find_elem h t bucket new;
     (h, t) \<leftarrow> (if old \<noteq> NULL then remove_elem h t old else Some (h, t));
     (h, t) \<leftarrow> insert_elem h t bucket new;
     (h, t) \<leftarrow> rehash h t mem;
     Some (old, h, t)
   }"

definition hash_find :: "heap \<Rightarrow> hash_table \<Rightarrow> addr \<Rightarrow> addr option" where
  "hash_find h t e = find_elem h t (find_bucket t e) e"

definition hash_delete :: "heap \<Rightarrow> hash_table \<Rightarrow> addr \<Rightarrow> addr \<Rightarrow> (addr \<times> heap \<times> hash_table) option" where
  "hash_delete h t e mem = do {
     found \<leftarrow> find_elem h t (find_bucket t e) e;
     if found \<noteq> NULL then do {
       (h, t) \<leftarrow> remove_elem h t found;
       (h, t) \<leftarrow> rehash h t mem;
       Some (found, h, t)
     } else Some (found, h, t)
   }"

definition hash_size :: "hash_table \<Rightarrow> nat" where "hash_size t = hash_cnt t"

definition hash_empty :: "hash_table \<Rightarrow> bool" where "hash_empty t \<longleftrightarrow> hash_cnt t = 0"

text \<open>Visiting every element.\<close>

partial_function (option) apply_loop :: "heap \<Rightarrow> addr \<Rightarrow> addr \<Rightarrow> addr list option" where
  "apply_loop h bucket elem = do {
     en \<leftarrow> list_end bucket;
     if elem \<noteq> en then do { nxt \<leftarrow> list_next h elem; es \<leftarrow> apply_loop h bucket nxt; Some (elem # es) }
     else Some []
   }"

fun apply_buckets :: "heap \<Rightarrow> addr \<Rightarrow> nat list \<Rightarrow> addr list option" where
  "apply_buckets h bs [] = Some []"
| "apply_buckets h bs (i # is) = do {
     b \<leftarrow> list_begin h (bucket_at bs i);
     es \<leftarrow> apply_loop h (bucket_at bs i) b;
     fs \<leftarrow> apply_buckets h bs is;
     Some (es @ fs)
   }"

definition hash_apply :: "heap \<Rightarrow> hash_table \<Rightarrow> addr list option" where
  "hash_apply h t = apply_buckets h (buckets t) [0..<bucket_cnt t]"

record hash_iterator =
  it_bucket :: addr
  it_elem :: addr

definition hash_first :: "hash_table \<Rightarrow> hash_iterator option" where
  "hash_first t = do { e \<leftarrow> list_head (buckets t); Some \<lparr>it_bucket = buckets t, it_elem = e\<rparr> }"

partial_function (option) next_loop :: "heap \<Rightarrow> hash_table \<Rightarrow> addr \<Rightarrow> addr \<Rightarrow> hash_iterator option" where
  "next_loop h t bucket elem = do {
     en \<leftarrow> list_end bucket;
     if elem = en then do {
       let bucket = bucket + sizeof_list;
       if bucket \<ge> bucket_at (buckets t) (bucket_cnt t) then Some \<lparr>it_bucket = bucket, it_elem = NULL\<rparr>
       else do { e \<leftarrow> list_begin h bucket; next_loop h t bucket e }
     } else Some \<lparr>it_bucket = bucket, it_elem = elem\<rparr>
   }"

definition hash_next :: "heap \<Rightarrow> hash_table \<Rightarrow> hash_iterator \<Rightarrow> hash_iterator option" where
  "hash_next h t i = do { e \<leftarrow> list_next h (it_elem i); next_loop h t (it_bucket i) e }"

definition hash_cur :: "hash_iterator \<Rightarrow> addr" where "hash_cur i = it_elem i"

section \<open>Hash functions\<close>

definition FNV_32_PRIME :: u32 where "FNV_32_PRIME = 16777619"
definition FNV_32_BASIS :: u32 where "FNV_32_BASIS = 2166136261"

fun hash_bytes_loop :: "memory \<Rightarrow> addr \<Rightarrow> nat \<Rightarrow> u32 \<Rightarrow> u32" where
  "hash_bytes_loop m buf 0 hash = hash"
| "hash_bytes_loop m buf (Suc n) hash = hash_bytes_loop m (buf + 1) n ((hash * FNV_32_PRIME) XOR ucast (m buf))"

definition hash_bytes :: "memory \<Rightarrow> addr \<Rightarrow> nat \<Rightarrow> u32 option" where
  "hash_bytes m buf n = do { ASSERT (buf \<noteq> NULL); Some (hash_bytes_loop m buf n FNV_32_BASIS) }"

partial_function (option) hash_string_loop :: "memory \<Rightarrow> addr \<Rightarrow> u32 \<Rightarrow> u32 option" where
  "hash_string_loop m s hash =
     (if m s \<noteq> 0 then hash_string_loop m (s + 1) ((hash * FNV_32_PRIME) XOR ucast (m s)) else Some hash)"

definition hash_string :: "memory \<Rightarrow> addr \<Rightarrow> u32 option" where
  "hash_string m s = do { ASSERT (s \<noteq> NULL); hash_string_loop m s FNV_32_BASIS }"

text \<open>\<^verbatim>\<open>i\<close> is at the address \<open>a\<close>, a local variable of the function.\<close>

definition hash_int :: "memory \<Rightarrow> addr \<Rightarrow> int \<Rightarrow> u32 option" where
  "hash_int m a i = hash_bytes (store32 m a (of_int i)) a 4"

end
