(* ===== verification/Hash_Buckets.thy ===== *)
theory Hash_Buckets
  imports Hash_Table
begin

text \<open>
  Several lists side by side in one heap, and the movement of elements between them when the number of
  buckets changes.
\<close>

section \<open>Lists that do not share addresses\<close>

definition cells :: "addr \<Rightarrow> addr list \<Rightarrow> addr set" where
  "cells l xs = {head_of l, tail_of l} \<union> set xs"

definition lists_at :: "heap \<Rightarrow> addr list \<Rightarrow> addr list list \<Rightarrow> bool" where
  "lists_at h ls xss \<longleftrightarrow> length ls = length xss \<and> (\<forall>i<length ls. represents h (ls ! i) (xss ! i)) \<and>
     (\<forall>i j. i < length ls \<longrightarrow> j < length ls \<longrightarrow> i \<noteq> j \<longrightarrow> cells (ls ! i) (xss ! i) \<inter> cells (ls ! j) (xss ! j) = {})"

lemma lists_at_nth: "lists_at h ls xss \<Longrightarrow> i < length ls \<Longrightarrow> represents h (ls ! i) (xss ! i)"
  by (simp add: lists_at_def)

lemma lists_at_apart:
  "lists_at h ls xss \<Longrightarrow> i < length ls \<Longrightarrow> j < length ls \<Longrightarrow> i \<noteq> j \<Longrightarrow> cells (ls ! i) (xss ! i) \<inter> cells (ls ! j) (xss ! j) = {}"
  by (simp add: lists_at_def)

lemma lists_at_length: "lists_at h ls xss \<Longrightarrow> length ls = length xss"
  by (simp add: lists_at_def)

lemma represents_distinct: "represents h l xs \<Longrightarrow> distinct xs \<and> NULL \<notin> set xs \<and> {head_of l, tail_of l} \<inter> set xs = {}"
  by (auto simp: represents_def wf_chain_def)

lemma lists_at_upd:
  assumes l: "lists_at h ls xss" and i: "i < length ls" and r: "represents h' (ls ! i) ys"
    and fr: "\<And>x. x \<notin> cells (ls ! i) (xss ! i) \<union> set ys \<Longrightarrow> h' x = h x"
    and ys: "\<And>j. j < length ls \<Longrightarrow> j \<noteq> i \<Longrightarrow> set ys \<inter> cells (ls ! j) (xss ! j) = {}"
  shows "lists_at h' ls (xss[i := ys])"
proof -
  have len: "length ls = length xss" using l by (rule lists_at_length)
  have fp: "cells (ls ! j) ((xss[i := ys]) ! j) = (if j = i then {head_of (ls ! i), tail_of (ls ! i)} \<union> set ys else cells (ls ! j) (xss ! j))"
    if "j < length ls" for j using that len by (auto simp: cells_def)
  have "represents h' (ls ! j) ((xss[i := ys]) ! j)" if j: "j < length ls" for j
  proof (cases "j = i")
    case True
    then show ?thesis using r i len by simp
  next
    case False
    have "represents h' (ls ! j) (xss ! j)"
    proof (rule represents_frame [OF lists_at_nth [OF l j]])
      fix x assume "x \<in> set (head_of (ls ! j) # xss ! j @ [tail_of (ls ! j)])"
      then have "x \<in> cells (ls ! j) (xss ! j)" by (auto simp: cells_def)
      then have "x \<notin> cells (ls ! i) (xss ! i) \<union> set ys" using lists_at_apart [OF l i j] ys [OF j] False by blast
      then show "h' x = h x" by (rule fr)
    qed
    then show ?thesis using False by simp
  qed
  moreover have "cells (ls ! j) ((xss[i := ys]) ! j) \<inter> cells (ls ! k) ((xss[i := ys]) ! k) = {}"
    if jk: "j < length ls" "k < length ls" "j \<noteq> k" for j k
  proof -
    have new: "({head_of (ls ! i), tail_of (ls ! i)} \<union> set ys) \<inter> cells (ls ! m) (xss ! m) = {}" if "m < length ls" "m \<noteq> i" for m
    proof -
      have "{head_of (ls ! i), tail_of (ls ! i)} \<subseteq> cells (ls ! i) (xss ! i)" by (simp add: cells_def)
      then show ?thesis using lists_at_apart [OF l i that(1)] that(2) ys [OF that] by blast
    qed
    consider "j = i" "k \<noteq> i" | "j \<noteq> i" "k = i" | "j \<noteq> i" "k \<noteq> i" using jk(3) by blast
    then show ?thesis
    proof cases
      case 1
      then show ?thesis unfolding fp [OF jk(1)] fp [OF jk(2)] using new [OF jk(2)] by (simp only: if_True if_False simp_thms)
    next
      case 2
      then show ?thesis unfolding fp [OF jk(1)] fp [OF jk(2)] Int_commute [of "if j = i then _ else _"] using new [OF jk(1)] by (simp only: if_True if_False simp_thms)
    next
      case 3
      then show ?thesis unfolding fp [OF jk(1)] fp [OF jk(2)] using lists_at_apart [OF l jk] by (simp only: if_False)
    qed
  qed
  ultimately show ?thesis using len by (simp add: lists_at_def)
qed

lemma lists_at_member:
  assumes "lists_at h ls xss" "i < length ls" "x \<in> set (xss ! i)" "j < length ls"
  shows "j \<noteq> i \<Longrightarrow> x \<notin> cells (ls ! j) (xss ! j)" "x \<noteq> NULL" "x \<notin> {head_of (ls ! j), tail_of (ls ! j)}"
proof -
  have r: "represents h (ls ! i) (xss ! i)" by (rule lists_at_nth [OF assms(1,2)])
  show a: "j \<noteq> i \<Longrightarrow> x \<notin> cells (ls ! j) (xss ! j)"
  proof -
    assume "j \<noteq> i"
    have "x \<in> cells (ls ! i) (xss ! i)" using assms(3) by (simp add: cells_def)
    then show ?thesis using lists_at_apart [OF assms(1,2,4) \<open>j \<noteq> i\<close> [symmetric]] by (metis disjoint_iff)
  qed
  show "x \<noteq> NULL" using represents_distinct [OF r] assms(3) by metis
  show "x \<notin> {head_of (ls ! j), tail_of (ls ! j)}"
  proof (cases "j = i")
    case True
    then show ?thesis using represents_distinct [OF r] assms(3) by (metis disjoint_iff)
  next
    case False
    then show ?thesis using a [OF False] by (simp add: cells_def)
  qed
qed

text \<open>Taking an element out of one list, putting a new one in front, and moving one.\<close>

lemma lists_at_remove:
  assumes l: "lists_at h ls xss" and i: "i < length ls" and x: "xss ! i = us @ x # vs"
  obtains h' where "list_remove h x = Some (hd (vs @ [tail_of (ls ! i)]), h')" "lists_at h' ls (xss[i := us @ vs])"
    "\<And>j. j < length ls \<Longrightarrow> x \<notin> cells (ls ! j) ((xss[i := us @ vs]) ! j)"
proof -
  have r: "represents h (ls ! i) (us @ x # vs)" using lists_at_nth [OF l i] x by simp
  obtain h' where h': "list_remove h x = Some (hd (vs @ [tail_of (ls ! i)]), h')" "represents h' (ls ! i) (us @ vs)"
    "\<And>y. y \<notin> set (us @ vs) \<union> {head_of (ls ! i), tail_of (ls ! i)} \<Longrightarrow> h' y = h y"
    using list_remove_represents [OF r] by auto
  have at: "lists_at h' ls (xss[i := us @ vs])"
  proof (rule lists_at_upd [OF l i h'(2)])
    show "h' y = h y" if "y \<notin> cells (ls ! i) (xss ! i) \<union> set (us @ vs)" for y
      using that by (intro h'(3)) (auto simp: cells_def)
    show "set (us @ vs) \<inter> cells (ls ! j) (xss ! j) = {}" if "j < length ls" "j \<noteq> i" for j
      using lists_at_apart [OF l i that(1)] that(2) x by (auto simp: cells_def)
  qed
  have len: "length ls = length xss" using l by (rule lists_at_length)
  have xi: "x \<in> set (xss ! i)" using x by simp
  have "x \<notin> cells (ls ! j) ((xss[i := us @ vs]) ! j)" if j: "j < length ls" for j
  proof (cases "j = i")
    case True
    then show ?thesis using represents_distinct [OF r] i len by (auto simp: cells_def)
  next
    case False
    then show ?thesis using lists_at_member(1) [OF l i xi j] by simp
  qed
  with h'(1) at show thesis by (rule that)
qed

lemma lists_at_push:
  assumes l: "lists_at h ls xss" and j: "j < length ls" and x: "x \<noteq> NULL" "\<And>k. k < length ls \<Longrightarrow> x \<notin> cells (ls ! k) (xss ! k)"
  obtains h' where "list_push_front h (ls ! j) x = Some h'" "lists_at h' ls (xss[j := x # xss ! j])"
proof -
  have r: "represents h (ls ! j) (xss ! j)" by (rule lists_at_nth [OF l j])
  obtain h' where h': "list_push_front h (ls ! j) x = Some h'" "represents h' (ls ! j) (x # xss ! j)"
    "\<And>y. y \<notin> set (x # xss ! j) \<union> {head_of (ls ! j), tail_of (ls ! j)} \<Longrightarrow> h' y = h y"
    using list_push_front_represents [OF r x(1)] x(2) [OF j] by (auto simp: cells_def)
  have "lists_at h' ls (xss[j := x # xss ! j])"
  proof (rule lists_at_upd [OF l j h'(2)])
    show "h' y = h y" if "y \<notin> cells (ls ! j) (xss ! j) \<union> set (x # xss ! j)" for y
      using that by (intro h'(3)) (auto simp: cells_def)
    show "set (x # xss ! j) \<inter> cells (ls ! k) (xss ! k) = {}" if "k < length ls" "k \<noteq> j" for k
      using lists_at_apart [OF l j that(1)] that(2) x(2) [OF that(1)] by (auto simp: cells_def)
  qed
  with h'(1) show thesis by (rule that)
qed

lemma mset_concat_update:
  "i < length xss \<Longrightarrow> mset (concat (xss[i := ys])) + mset (xss ! i) = mset (concat xss) + mset ys"
proof (induction xss arbitrary: i)
  case (Cons xs xss)
  show ?case
  proof (cases i)
    case (Suc k)
    with Cons.IH [of k] Cons.prems show ?thesis by (simp add: ac_simps)
  qed simp
qed simp

section \<open>Redistribution\<close>

text \<open>
  The first \<open>m\<close> lists are the old buckets, the others the new ones.  \<open>placed m g xss\<close>: every element of a new
  bucket is in the one that \<open>g\<close> says.
\<close>

definition placed :: "nat \<Rightarrow> (addr \<Rightarrow> nat) \<Rightarrow> addr list list \<Rightarrow> bool" where
  "placed m g xss \<longleftrightarrow> (\<forall>k<length xss. m \<le> k \<longrightarrow> (\<forall>x\<in>set (xss ! k). g x = k))"

lemma move_loop_run:
  assumes "lists_at h ls xss" "i < m" "m \<le> length ls" "xss ! i = xs" "placed m g xss"
    and g: "\<And>x. x \<in> set (concat xss) \<Longrightarrow> m \<le> g x \<and> g x < length ls \<and> find_bucket t x = ls ! g x"
  shows "\<exists>h' xss'. move_loop h t (ls ! i) (hd (xs @ [tail_of (ls ! i)])) = Some h' \<and> lists_at h' ls xss' \<and> xss' ! i = [] \<and>
    (\<forall>k<m. k \<noteq> i \<longrightarrow> xss' ! k = xss ! k) \<and> placed m g xss' \<and> mset (concat xss') = mset (concat xss)"
  using assms
proof (induction xs arbitrary: h xss)
  case Nil
  have "represents h (ls ! i) []" using lists_at_nth [OF Nil(1), of i] Nil(2-4) by simp
  then have "list_end (ls ! i) = Some (tail_of (ls ! i))" by (simp add: represents_simps(1))
  then have "move_loop h t (ls ! i) (tail_of (ls ! i)) = Some h" by (subst move_loop.simps) simp
  with Nil show ?case by auto
next
  case (Cons x xs)
  let ?l = "ls ! i"
  have i: "i < length ls" "i < length xss" using Cons.prems(1-3) lists_at_length by force+
  have r: "represents h ?l ([] @ x # xs)" using lists_at_nth [OF Cons.prems(1) i(1)] Cons.prems(4) by simp
  have "x \<in> set (xss ! i)" using Cons.prems(4) by simp
  then have xin: "x \<in> set (concat xss)" using i(2) nth_mem by (fastforce simp: in_set_conv_nth)
  have gx: "m \<le> g x" "g x < length ls" "find_bucket t x = ls ! g x" using Cons.prems(6) [OF xin] by auto
  have ne: "g x \<noteq> i" using gx(1) Cons.prems(2) by simp
  obtain h1 where h1: "list_remove h x = Some (hd (xs @ [tail_of ?l]), h1)" "lists_at h1 ls (xss[i := [] @ xs])"
    "\<And>j. j < length ls \<Longrightarrow> x \<notin> cells (ls ! j) ((xss[i := [] @ xs]) ! j)"
    by (rule lists_at_remove [OF Cons.prems(1) i(1), of "[]" x xs]) (use Cons.prems(4) in auto)
  have x0: "x \<noteq> NULL" using represents_distinct [OF r] by auto
  obtain h2 where h2: "list_push_front h1 (ls ! g x) x = Some h2"
    "lists_at h2 ls ((xss[i := [] @ xs])[g x := x # (xss[i := [] @ xs]) ! g x])"
    by (rule lists_at_push [OF h1(2) gx(2) x0 h1(3)])
  define yss where "yss = xss[i := xs, g x := x # xss ! g x]"
  have at: "lists_at h2 ls yss" using h2(2) ne by (simp add: yss_def)
  have yi: "yss ! i = xs" using ne i by (simp add: yss_def)
  have ms: "mset (concat yss) = mset (concat xss)"
  proof -
    have "g x < length (xss[i := xs])" using gx(2) lists_at_length [OF Cons.prems(1)] by simp
    from mset_concat_update [OF this, of "x # xss ! g x"] mset_concat_update [OF i(2), of xs] ne Cons.prems(4)
    show ?thesis by (simp add: yss_def)
  qed
  have pl: "placed m g yss"
    unfolding placed_def
  proof (intro allI impI ballI)
    fix k y assume k: "k < length yss" "m \<le> k" "y \<in> set (yss ! k)"
    then have "k < length xss" "k \<noteq> i" using Cons.prems(2) by (simp_all add: yss_def)
    moreover from this have "y = x \<and> k = g x \<or> y \<in> set (xss ! k)" using k(3) by (cases "k = g x") (auto simp: yss_def)
    ultimately show "g y = k" using Cons.prems(5) k(2) unfolding placed_def by blast
  qed
  have g': "m \<le> g y \<and> g y < length ls \<and> find_bucket t y = ls ! g y" if "y \<in> set (concat yss)" for y
  proof -
    have "y \<in> set (concat xss)" using that mset_eq_setD [OF ms] by (simp only:)
    then show ?thesis by (rule Cons.prems(6))
  qed
  obtain h' xss' where IH: "move_loop h2 t ?l (hd (xs @ [tail_of ?l])) = Some h'" "lists_at h' ls xss'" "xss' ! i = []"
    "\<forall>k<m. k \<noteq> i \<longrightarrow> xss' ! k = yss ! k" "placed m g xss'" "mset (concat xss') = mset (concat yss)"
    using Cons.IH [OF at Cons.prems(2,3) yi pl g'] by auto
  have "move_loop h t ?l x = Some h'"
    using represents_simps(1) [OF r] represents_distinct [OF r] list_next_represents [OF r] h1(1) h2(1) gx(3) IH(1)
    by (subst move_loop.simps) auto
  moreover have "\<forall>k<m. k \<noteq> i \<longrightarrow> xss' ! k = xss ! k" using IH(4) gx(1) by (simp add: yss_def)
  ultimately show ?case using IH ms by auto
qed

lemma move_buckets_run:
  assumes "lists_at h ls xss" "m \<le> length ls" "placed m g xss" "distinct is" "set is \<subseteq> {..<m}"
    "\<And>i. i < m \<Longrightarrow> ls ! i = bucket_at olds i"
    and g: "\<And>x. x \<in> set (concat xss) \<Longrightarrow> m \<le> g x \<and> g x < length ls \<and> find_bucket t x = ls ! g x"
  shows "\<exists>h' xss'. move_buckets h t olds is = Some h' \<and> lists_at h' ls xss' \<and> (\<forall>i\<in>set is. xss' ! i = []) \<and>
    (\<forall>k<m. k \<notin> set is \<longrightarrow> xss' ! k = xss ! k) \<and> placed m g xss' \<and> mset (concat xss') = mset (concat xss)"
  using assms
proof (induction "is" arbitrary: h xss)
  case (Cons i "is")
  have i: "i < m" "i < length ls" "bucket_at olds i = ls ! i" using Cons.prems(2,5,6) by auto
  have b: "list_begin h (ls ! i) = Some (hd (xss ! i @ [tail_of (ls ! i)]))"
    by (rule list_begin_represents [OF lists_at_nth [OF Cons.prems(1) i(2)]])
  obtain h1 yss where h1: "move_loop h t (ls ! i) (hd (xss ! i @ [tail_of (ls ! i)])) = Some h1" "lists_at h1 ls yss" "yss ! i = []"
    "\<forall>k<m. k \<noteq> i \<longrightarrow> yss ! k = xss ! k" "placed m g yss" "mset (concat yss) = mset (concat xss)"
    using move_loop_run [OF Cons.prems(1) i(1) Cons.prems(2) refl Cons.prems(3,7)] by auto
  have g': "m \<le> g y \<and> g y < length ls \<and> find_bucket t y = ls ! g y" if "y \<in> set (concat yss)" for y
  proof -
    have "y \<in> set (concat xss)" using that mset_eq_setD [OF h1(6)] by (simp only:)
    then show ?thesis by (rule Cons.prems(7))
  qed
  have is': "distinct is" "set is \<subseteq> {..<m}" using Cons.prems(4,5) by auto
  obtain h' xss' where IH: "move_buckets h1 t olds is = Some h'" "lists_at h' ls xss'" "\<forall>i\<in>set is. xss' ! i = []"
    "\<forall>k<m. k \<notin> set is \<longrightarrow> xss' ! k = yss ! k" "placed m g xss'" "mset (concat xss') = mset (concat yss)"
    using Cons.IH [OF h1(2) Cons.prems(2) h1(5) is' Cons.prems(6) g'] by auto
  have "xss' ! i = []" using IH(4) i(1) Cons.prems(4) h1(3) by simp
  then show ?case using b h1 IH i(3) by (intro exI [of _ h'] exI [of _ xss']) auto
qed auto

end
