(* ===== verification/Hash_Refine.thy ===== *)
theory Hash_Refine
  imports Hash_Buckets
begin

text \<open>The representation of a hash table, and each operation on the set of its elements.\<close>

section \<open>The number of buckets\<close>

lemma bit_le: "bit (n :: nat) k \<Longrightarrow> 2 ^ k \<le> n"
proof (rule ccontr)
  assume "bit n k" "\<not> 2 ^ k \<le> n"
  then show False by (simp add: bit_iff_odd)
qed

lemma and_pred_power: "(2 :: nat) ^ k AND (2 ^ k - 1) = 0"
proof -
  have "(2 :: nat) ^ k AND mask k = take_bit k (2 ^ k)" by (simp add: take_bit_eq_mask)
  then show ?thesis by (simp add: mask_eq_exp_minus_1 take_bit_eq_mod)
qed

lemma turn_off_between:
  assumes "2 ^ k < n" "n < 2 ^ Suc k"
  shows "2 ^ k \<le> turn_off_least_1bit n" "turn_off_least_1bit n < n"
proof -
  have "n div 2 ^ k = 1" "(n - 1) div 2 ^ k = 1" using assms by (simp_all add: div_nat_eqI)
  then have "bit n k" "bit (n - 1) k" by (simp_all add: bit_iff_odd)
  then have "bit (n AND (n - 1)) k" by (simp add: bit_and_iff)
  then show "2 ^ k \<le> turn_off_least_1bit n" unfolding turn_off_least_1bit_def by (rule bit_le)
  have "int (n AND (n - 1)) \<le> int (n - 1)" by (simp add: of_nat_and_eq AND_upper2)
  then show "turn_off_least_1bit n < n" using assms(1) by (simp add: turn_off_least_1bit_def)
qed

text \<open>The loop ends with the largest power of 2 that is not greater.\<close>

lemma power_loop_run: "2 ^ k \<le> n \<Longrightarrow> n < 2 ^ Suc k \<Longrightarrow> power_loop n = Some (2 ^ k)"
proof (induction n rule: less_induct)
  case (less n)
  show ?case
  proof (cases "n = 2 ^ k")
    case True
    then have "is_power_of_2 n" using and_pred_power by (simp add: is_power_of_2_def turn_off_least_1bit_def)
    with True show ?thesis by (subst power_loop.simps) simp
  next
    case False
    then have n: "2 ^ k < n" using less.prems(1) by simp
    note t = turn_off_between [OF n less.prems(2)]
    have "turn_off_least_1bit n \<noteq> 0" using t(1) by (metis not_le zero_less_power zero_less_numeral)
    then have "\<not> is_power_of_2 n" by (simp add: is_power_of_2_def)
    moreover have "turn_off_least_1bit n < 2 ^ Suc k" using t(2) less.prems(2) by simp
    ultimately show ?thesis using less.IH [OF t(2,1)] by (subst power_loop.simps) simp
  qed
qed

lemma new_bucket_cnt_power: "\<exists>k\<ge>2. new_bucket_cnt n = Some (2 ^ k) \<and> (2 ^ k \<le> max 4 (n div 2) \<and> max 4 (n div 2) < 2 ^ Suc k)"
proof -
  define m where "m = max 4 (n div 2)"
  have "1 \<le> m" by (simp add: m_def)
  then obtain k where k: "2 ^ k \<le> m" "m < 2 ^ Suc k" using ex_power_ivl1 [of 2 m] by auto
  have "2 \<le> k"
  proof (rule ccontr)
    assume "\<not> 2 \<le> k"
    then have "(2 :: nat) ^ Suc k \<le> 2 ^ 2" by (intro power_increasing) simp_all
    then show False using k(2) by (simp add: m_def)
  qed
  moreover have "new_bucket_cnt n = power_loop m"
    by (auto simp: new_bucket_cnt_def Let_def BEST_ELEMS_PER_BUCKET_def m_def max_def)
  ultimately show ?thesis using power_loop_run [OF k] k by (auto simp: m_def)
qed

section \<open>Representation\<close>

definition bucket_list :: "addr \<Rightarrow> nat \<Rightarrow> addr list" where
  "bucket_list bs n = map (bucket_at bs) [0..<n]"

definition bucket_idx :: "hash_table \<Rightarrow> addr \<Rightarrow> nat" where
  "bucket_idx t e = unat (hash_fn t e) AND (bucket_cnt t - 1)"

definition equal_in :: "hash_table \<Rightarrow> addr \<Rightarrow> addr \<Rightarrow> bool" where
  "equal_in t x y \<longleftrightarrow> \<not> less_fn t x y \<and> \<not> less_fn t y x"

text \<open>The functions of a table: equality by \<^verbatim>\<open>less\<close> is transitive and equal elements have equal hash values.\<close>

definition keys_ok :: "hash_table \<Rightarrow> bool" where
  "keys_ok t \<longleftrightarrow> (\<forall>x. \<not> less_fn t x x) \<and> (\<forall>x y z. equal_in t x y \<longrightarrow> equal_in t y z \<longrightarrow> equal_in t x z) \<and>
     (\<forall>x y. equal_in t x y \<longrightarrow> hash_fn t x = hash_fn t y)"

definition hash_rep :: "heap \<Rightarrow> hash_table \<Rightarrow> addr list list \<Rightarrow> bool" where
  "hash_rep h t bs \<longleftrightarrow> keys_ok t \<and> (\<exists>k. bucket_cnt t = 2 ^ k) \<and> lists_at h (bucket_list (buckets t) (bucket_cnt t)) bs \<and>
     (\<forall>i<length bs. \<forall>x\<in>set (bs ! i). bucket_idx t x = i) \<and> hash_cnt t = length (concat bs) \<and>
     (\<forall>x\<in>set (concat bs). \<forall>y\<in>set (concat bs). equal_in t x y \<longrightarrow> x = y)"

definition elements :: "addr list list \<Rightarrow> addr set" where
  "elements bs = set (concat bs)"

text \<open>All addresses that the table uses: those of its buckets and of its elements.\<close>

definition table_cells :: "hash_table \<Rightarrow> addr list list \<Rightarrow> addr set" where
  "table_cells t bs = {x. \<exists>i<bucket_cnt t. x = head_of (bucket_at (buckets t) i) \<or> x = tail_of (bucket_at (buckets t) i)} \<union> elements bs"

text \<open>What \<^verbatim>\<open>malloc\<close> may answer for an array of buckets: a null pointer, or memory that is not in use.\<close>

definition fresh_buckets :: "addr \<Rightarrow> nat \<Rightarrow> addr set \<Rightarrow> bool" where
  "fresh_buckets mem n X \<longleftrightarrow> mem = NULL \<or> {mem..<mem + 16 * n} \<inter> X = {}"

lemma length_bucket_list [simp]: "length (bucket_list bs n) = n"
  and nth_bucket_list [simp]: "i < n \<Longrightarrow> bucket_list bs n ! i = bucket_at bs i"
  by (simp_all add: bucket_list_def)

lemma bucket_idx_less: "bucket_cnt t = 2 ^ k \<Longrightarrow> bucket_idx t e < bucket_cnt t"
proof -
  assume k: "bucket_cnt t = 2 ^ k"
  have "bucket_idx t e = take_bit k (unat (hash_fn t e))"
    by (simp add: bucket_idx_def k take_bit_eq_mask mask_eq_exp_minus_1)
  then show ?thesis by (simp add: k take_bit_eq_mod)
qed

lemma find_bucket_idx: "find_bucket t e = bucket_at (buckets t) (bucket_idx t e)"
  by (simp add: find_bucket_def bucket_idx_def)

lemma bucket_cells: "i < n \<Longrightarrow> {head_of (bucket_at bs i), tail_of (bucket_at bs i)} \<subseteq> {bs..<bs + 16 * n}"
  by (auto simp: head_of_def tail_of_def bucket_at_def sizeof_list_def)

lemma buckets_apart: "i \<noteq> j \<Longrightarrow> {head_of (bucket_at bs i), tail_of (bucket_at bs i)} \<inter> {head_of (bucket_at bs j), tail_of (bucket_at bs j)} = {}"
  by (auto simp: head_of_def tail_of_def bucket_at_def sizeof_list_def)

section \<open>Empty buckets\<close>

lemma init_buckets_run:
  assumes "mem \<noteq> NULL" "distinct is"
  shows "\<exists>h'. init_buckets h mem is = Some h' \<and> (\<forall>i\<in>set is. represents h' (bucket_at mem i) []) \<and>
    (\<forall>x. (\<forall>i\<in>set is. x \<notin> {head_of (bucket_at mem i), tail_of (bucket_at mem i)}) \<longrightarrow> h' x = h x)"
  using assms(2)
proof (induction "is" arbitrary: h)
  case (Cons i "is")
  have "bucket_at mem i \<noteq> NULL" using assms(1) by (simp add: bucket_at_def)
  then obtain h1 where h1: "list_init h (bucket_at mem i) = Some h1" "represents h1 (bucket_at mem i) []"
    "\<And>x. x \<notin> {head_of (bucket_at mem i), tail_of (bucket_at mem i)} \<Longrightarrow> h1 x = h x"
    using list_init_represents [of "bucket_at mem i" h] by auto
  obtain h' where h': "init_buckets h1 mem is = Some h'" "\<forall>i\<in>set is. represents h' (bucket_at mem i) []"
    "\<forall>x. (\<forall>i\<in>set is. x \<notin> {head_of (bucket_at mem i), tail_of (bucket_at mem i)}) \<longrightarrow> h' x = h1 x"
    using Cons.IH [of h1] Cons.prems by auto
  have "represents h' (bucket_at mem i) []"
  proof (rule represents_frame [OF h1(2)])
    fix x assume x: "x \<in> set (head_of (bucket_at mem i) # [] @ [tail_of (bucket_at mem i)])"
    have "\<forall>j\<in>set is. x \<notin> {head_of (bucket_at mem j), tail_of (bucket_at mem j)}"
    proof
      fix j assume "j \<in> set is"
      then have "i \<noteq> j" using Cons.prems by auto
      with buckets_apart [of i j mem] x show "x \<notin> {head_of (bucket_at mem j), tail_of (bucket_at mem j)}" by auto
    qed
    then show "h' x = h1 x" using h'(3) by blast
  qed
  then show ?case using h1 h' by (intro exI [of _ h']) auto
qed simp

lemma lists_at_new:
  assumes l: "lists_at h ls xss" and mem: "mem \<noteq> NULL"
    and fresh: "\<And>i. i < length ls \<Longrightarrow> cells (ls ! i) (xss ! i) \<inter> {mem..<mem + 16 * n} = {}"
  obtains h' where "init_buckets h mem [0..<n] = Some h'" "lists_at h' (ls @ bucket_list mem n) (xss @ replicate n [])"
proof -
  obtain h' where h': "init_buckets h mem [0..<n] = Some h'" "\<forall>i\<in>set [0..<n]. represents h' (bucket_at mem i) []"
    "\<forall>x. (\<forall>i\<in>set [0..<n]. x \<notin> {head_of (bucket_at mem i), tail_of (bucket_at mem i)}) \<longrightarrow> h' x = h x"
    using init_buckets_run [OF mem distinct_upt, of h 0 n] by auto
  have len: "length ls = length xss" using l by (rule lists_at_length)
  have keep: "h' x = h x" if "x \<notin> {mem..<mem + 16 * n}" for x
  proof -
    have "\<forall>i\<in>set [0..<n]. x \<notin> {head_of (bucket_at mem i), tail_of (bucket_at mem i)}"
      using bucket_cells [of _ n mem] that by (metis atLeastLessThan_upt atLeastLessThan_iff subsetD)
    then show ?thesis using h'(3) by blast
  qed
  have old: "represents h' (ls ! i) (xss ! i)" if i: "i < length ls" for i
  proof (rule represents_frame [OF lists_at_nth [OF l i]])
    fix x assume "x \<in> set (head_of (ls ! i) # xss ! i @ [tail_of (ls ! i)])"
    then have "x \<in> cells (ls ! i) (xss ! i)" by (auto simp: cells_def)
    then show "h' x = h x" using fresh [OF i] by (intro keep) blast
  qed
  have new_cells: "cells (bucket_at mem i) [] \<subseteq> {mem..<mem + 16 * n}" if "i < n" for i
    using bucket_cells [OF that, of mem] by (simp add: cells_def)
  have "lists_at h' (ls @ bucket_list mem n) (xss @ replicate n [])"
    unfolding lists_at_def
  proof (intro conjI allI impI)
    show "length (ls @ bucket_list mem n) = length (xss @ replicate n [])" using len by simp
    show "represents h' ((ls @ bucket_list mem n) ! i) ((xss @ replicate n []) ! i)" if "i < length (ls @ bucket_list mem n)" for i
      using that old len h'(2) by (auto simp: nth_append)
    show "cells ((ls @ bucket_list mem n) ! i) ((xss @ replicate n []) ! i) \<inter> cells ((ls @ bucket_list mem n) ! j) ((xss @ replicate n []) ! j) = {}"
      if ij: "i < length (ls @ bucket_list mem n)" "j < length (ls @ bucket_list mem n)" "i \<noteq> j" for i j
    proof -
      consider "i < length ls" "j < length ls" | "i < length ls" "\<not> j < length ls" | "\<not> i < length ls" "j < length ls"
        | "\<not> i < length ls" "\<not> j < length ls" by blast
      then show ?thesis
      proof cases
        case 1 then show ?thesis using lists_at_apart [OF l 1 ij(3)] len by (simp add: nth_append)
      next
        case 2
        then have "j - length ls < n" using ij(2) by simp
        with fresh [OF 2(1)] new_cells [OF this] 2 len show ?thesis by (simp add: nth_append) blast
      next
        case 3
        then have "i - length ls < n" using ij(1) by simp
        with fresh [OF 3(2)] new_cells [OF this] 3 len show ?thesis by (simp add: nth_append) blast
      next
        case 4
        then have "i - length ls < n" "j - length ls < n" "i - length ls \<noteq> j - length ls" using ij by auto
        with buckets_apart [OF this(3), of mem] 4 len show ?thesis by (simp add: nth_append cells_def)
      qed
    qed
  qed
  with h'(1) show thesis by (rule that)
qed

section \<open>Changing the number of buckets\<close>

lemma lists_at_drop:
  assumes "lists_at h (ls @ ms) xss"
  shows "lists_at h ms (drop (length ls) xss)"
  unfolding lists_at_def
proof (intro conjI allI impI)
  have len: "length ls + length ms = length xss" using lists_at_length [OF assms] by simp
  then show "length ms = length (drop (length ls) xss)" by simp
  show "represents h (ms ! i) (drop (length ls) xss ! i)" if "i < length ms" for i
    using lists_at_nth [OF assms, of "length ls + i"] that len by simp
  show "cells (ms ! i) (drop (length ls) xss ! i) \<inter> cells (ms ! j) (drop (length ls) xss ! j) = {}"
    if "i < length ms" "j < length ms" "i \<noteq> j" for i j
    using lists_at_apart [OF assms, of "length ls + i" "length ls + j"] that len by simp
qed

lemma rep_facts:
  assumes "hash_rep h t bs"
  shows "length bs = bucket_cnt t" "keys_ok t" "lists_at h (bucket_list (buckets t) (bucket_cnt t)) bs"
    "\<And>i x. i < bucket_cnt t \<Longrightarrow> x \<in> set (bs ! i) \<Longrightarrow> bucket_idx t x = i" "hash_cnt t = length (concat bs)"
    "\<And>x y. x \<in> elements bs \<Longrightarrow> y \<in> elements bs \<Longrightarrow> equal_in t x y \<Longrightarrow> x = y" "\<And>e. bucket_idx t e < bucket_cnt t"
proof -
  show len: "length bs = bucket_cnt t" using assms lists_at_length [of h "bucket_list (buckets t) (bucket_cnt t)" bs] by (simp add: hash_rep_def)
  show "keys_ok t" "lists_at h (bucket_list (buckets t) (bucket_cnt t)) bs" "hash_cnt t = length (concat bs)"
    using assms by (simp_all add: hash_rep_def)
  show "\<And>i x. i < bucket_cnt t \<Longrightarrow> x \<in> set (bs ! i) \<Longrightarrow> bucket_idx t x = i" using assms len by (simp add: hash_rep_def)
  show "\<And>x y. x \<in> elements bs \<Longrightarrow> y \<in> elements bs \<Longrightarrow> equal_in t x y \<Longrightarrow> x = y"
    using assms unfolding hash_rep_def elements_def by blast
  show "bucket_idx t e < bucket_cnt t" for e using assms bucket_idx_less by (auto simp: hash_rep_def)
qed

lemma element_bucket:
  assumes "hash_rep h t bs"
  shows "x \<in> elements bs \<longleftrightarrow> x \<in> set (bs ! bucket_idx t x)"
proof
  assume "x \<in> elements bs"
  then obtain i where "i < length bs" "x \<in> set (bs ! i)" by (auto simp: elements_def in_set_conv_nth [of _ bs])
  with rep_facts(4) [OF assms, of i x] rep_facts(1) [OF assms] show "x \<in> set (bs ! bucket_idx t x)" by simp
next
  assume "x \<in> set (bs ! bucket_idx t x)"
  moreover have "bucket_idx t x < length bs" using rep_facts(1,7) [OF assms] by simp
  ultimately show "x \<in> elements bs" unfolding elements_def by (metis UN_I nth_mem set_concat)
qed

lemma cells_table: "hash_rep h t bs \<Longrightarrow> i < bucket_cnt t \<Longrightarrow> cells (bucket_list (buckets t) (bucket_cnt t) ! i) (bs ! i) \<subseteq> table_cells t bs"
proof
  fix x assume r: "hash_rep h t bs" "i < bucket_cnt t" and x: "x \<in> cells (bucket_list (buckets t) (bucket_cnt t) ! i) (bs ! i)"
  show "x \<in> table_cells t bs"
  proof (cases "x \<in> set (bs ! i)")
    case True
    then have "x \<in> elements bs" using r rep_facts(1) [OF r(1)] nth_mem unfolding elements_def by (metis UN_I set_concat)
    then show ?thesis by (simp add: table_cells_def)
  next
    case False
    then show ?thesis using x r(2) by (auto simp: cells_def table_cells_def)
  qed
qed

lemma rep_rehash:
  assumes r: "hash_rep h t bs" and fresh: "\<And>n. new_bucket_cnt (hash_cnt t) = Some n \<Longrightarrow> fresh_buckets mem n (table_cells t bs)"
  obtains h' t' bs' where "rehash h t mem = Some (h', t')" "hash_rep h' t' bs'" "elements bs' = elements bs"
    "hash_fn t' = hash_fn t" "less_fn t' = less_fn t" "hash_cnt t' = hash_cnt t"
proof -
  obtain k where k: "new_bucket_cnt (hash_cnt t) = Some (2 ^ k)" using new_bucket_cnt_power by blast
  define n m where "n = (2 :: nat) ^ k" and "m = bucket_cnt t"
  show thesis
  proof (cases "n = m \<or> mem = NULL")
    case True
    then have "rehash h t mem = Some (h, t)" using k unfolding rehash_def n_def [symmetric] m_def [symmetric]
      by (cases "n = m") (simp_all add: Let_def)
    then show thesis using r by (rule that) simp_all
  next
    case False
    then have mem: "mem \<noteq> NULL" "n \<noteq> m" by auto
    have fr: "{mem..<mem + 16 * n} \<inter> table_cells t bs = {}" using fresh [OF k] mem(1) by (simp add: fresh_buckets_def n_def)
    define ls where "ls = bucket_list (buckets t) m"
    note f = rep_facts [OF r, folded m_def, folded ls_def]
    have len: "length ls = m" by (simp add: ls_def)
    have away: "cells (ls ! i) (bs ! i) \<inter> {mem..<mem + 16 * n} = {}" if "i < length ls" for i
    proof -
      have "i < bucket_cnt t" using that len by (simp add: m_def)
      from cells_table [OF r this] have "cells (ls ! i) (bs ! i) \<subseteq> table_cells t bs" by (simp only: ls_def m_def)
      then show ?thesis using fr by blast
    qed
    obtain h1 where h1: "init_buckets h mem [0..<n] = Some h1" "lists_at h1 (ls @ bucket_list mem n) (bs @ replicate n [])"
      by (rule lists_at_new [OF f(3) mem(1) away])
    define t' where "t' = t\<lparr>buckets := mem, bucket_cnt := n\<rparr>"
    define g where "g x = m + bucket_idx t' x" for x
    have idx: "bucket_idx t' x < n" for x using bucket_idx_less [of t' k x] by (simp add: t'_def n_def)
    have pl: "placed m g (bs @ replicate n [])" using f(1) by (auto simp: placed_def nth_append)
    have gl: "m \<le> g x \<and> g x < length (ls @ bucket_list mem n) \<and> find_bucket t' x = (ls @ bucket_list mem n) ! g x" for x
      using idx [of x] len by (simp add: g_def find_bucket_idx nth_append) (simp add: t'_def)
    have old: "(ls @ bucket_list mem n) ! i = bucket_at (buckets t) i" if "i < m" for i
      using that len by (simp add: nth_append ls_def)
    obtain h2 xss where h2: "move_buckets h1 t' (buckets t) [0..<m] = Some h2" "lists_at h2 (ls @ bucket_list mem n) xss"
      "\<forall>i\<in>set [0..<m]. xss ! i = []" "placed m g xss" "mset (concat xss) = mset (concat (bs @ replicate n []))"
    proof -
      have "m \<le> length (ls @ bucket_list mem n)" "set [0..<m] \<subseteq> {..<m}" using len by auto
      then show ?thesis using move_buckets_run [OF h1(2) _ pl distinct_upt [of 0 m] _ old gl] that by metis
    qed
    define bs' where "bs' = drop m xss"
    have lx: "length xss = m + n" using lists_at_length [OF h2(2)] len by simp
    have "concat (take m xss) = []" using h2(3) lx by (auto simp: in_set_conv_nth)
    then have "concat xss = concat bs'" unfolding bs'_def by (metis append_Nil append_take_drop_id concat_append)
    then have ms: "mset (concat bs') = mset (concat bs)" using h2(5) by simp
    have run: "rehash h t mem = Some (h2, t')"
      using k mem h1(1) h2(1) unfolding rehash_def n_def [symmetric] m_def [symmetric] by (simp add: Let_def t'_def)
    have eq: "equal_in t' = equal_in t" by (simp add: equal_in_def t'_def fun_eq_iff)
    have "hash_rep h2 t' bs'"
      unfolding hash_rep_def
    proof (intro conjI)
      show "keys_ok t'" using f(2) unfolding keys_ok_def eq by (simp add: t'_def)
      show "\<exists>k. bucket_cnt t' = 2 ^ k" by (auto simp: t'_def n_def)
      show "lists_at h2 (bucket_list (buckets t') (bucket_cnt t')) bs'"
        using lists_at_drop [OF h2(2)] len by (simp add: bs'_def t'_def)
      show "\<forall>i<length bs'. \<forall>x\<in>set (bs' ! i). bucket_idx t' x = i"
      proof (intro allI impI ballI)
        fix i x assume "i < length bs'" "x \<in> set (bs' ! i)"
        then have "g x = m + i" using h2(4) lx unfolding placed_def bs'_def by simp
        then show "bucket_idx t' x = i" by (simp add: g_def)
      qed
      show "hash_cnt t' = length (concat bs')" using f(5) mset_eq_length [OF ms] by (simp add: t'_def)
      show "\<forall>x\<in>set (concat bs'). \<forall>y\<in>set (concat bs'). equal_in t' x y \<longrightarrow> x = y"
        using f(6) unfolding eq mset_eq_setD [OF ms] elements_def by blast
    qed
    moreover have "elements bs' = elements bs" using mset_eq_setD [OF ms] by (simp only: elements_def)
    ultimately show thesis by (rule that [OF run]) (simp_all add: t'_def)
  qed
qed

section \<open>Finding an element\<close>

lemma find_loop_run:
  "represents h l (us @ vs) \<Longrightarrow>
   find_loop h t l e (hd (vs @ [tail_of l])) = Some (case find (\<lambda>x. equal_in t x e) vs of None \<Rightarrow> NULL | Some x \<Rightarrow> x)"
proof (induction vs arbitrary: us)
  case Nil
  then show ?case by (subst find_loop.simps) (simp add: represents_simps(1))
next
  case (Cons v vs)
  have r: "represents h l ((us @ [v]) @ vs)" using Cons.prems by simp
  have "v \<noteq> tail_of l" using represents_distinct [OF Cons.prems] by auto
  then show ?case
    using Cons.IH [OF r] list_next_represents [OF Cons.prems] represents_simps(1) [OF Cons.prems]
    by (subst find_loop.simps) (auto simp: equal_in_def)
qed

lemma equal_idx: "keys_ok t \<Longrightarrow> equal_in t x y \<Longrightarrow> bucket_idx t x = bucket_idx t y"
  unfolding keys_ok_def bucket_idx_def by metis

lemma rep_find:
  assumes r: "hash_rep h t bs"
  obtains x where "find_elem h t (find_bucket t e) e = Some x" "x = NULL \<Longrightarrow> \<forall>y\<in>elements bs. \<not> equal_in t y e"
    "x \<noteq> NULL \<Longrightarrow> x \<in> elements bs \<and> equal_in t x e"
proof -
  note f = rep_facts [OF r]
  define i where "i = bucket_idx t e"
  have i: "i < bucket_cnt t" using f(7) by (simp add: i_def)
  have rp: "represents h (bucket_at (buckets t) i) ([] @ bs ! i)" using lists_at_nth [OF f(3), of i] i by simp
  have run: "find_elem h t (find_bucket t e) e = Some (case find (\<lambda>x. equal_in t x e) (bs ! i) of None \<Rightarrow> NULL | Some x \<Rightarrow> x)"
    using find_loop_run [OF rp, of t e] list_begin_represents [OF rp] by (simp add: find_elem_def find_bucket_idx i_def [symmetric])
  show thesis
  proof (cases "find (\<lambda>x. equal_in t x e) (bs ! i)")
    case None
    have "\<not> equal_in t y e" if "y \<in> elements bs" for y
    proof
      assume "equal_in t y e"
      then have "bucket_idx t y = i" using equal_idx [OF f(2)] by (simp add: i_def)
      then have "y \<in> set (bs ! i)" using that element_bucket [OF r, of y] by simp
      with None \<open>equal_in t y e\<close> show False by (auto simp: find_None_iff)
    qed
    with run None show thesis by (intro that [of NULL]) auto
  next
    case (Some x)
    then have x: "x \<in> set (bs ! i)" "equal_in t x e" by (auto simp: find_Some_iff)
    have "x \<noteq> NULL" using represents_distinct [OF rp] x(1) by (metis append_Nil)
    moreover have "x \<in> elements bs" using x(1) i f(1) nth_mem unfolding elements_def by (metis UN_I set_concat)
    ultimately show thesis using run Some x(2) by (intro that) simp_all
  qed
qed

section \<open>Adding and taking out an element\<close>

lemma rep_insert:
  assumes r: "hash_rep h t bs" and e: "e \<noteq> NULL" "e \<notin> table_cells t bs"
    and new: "\<forall>y\<in>elements bs. \<not> equal_in t y e"
  obtains h' bs' where "insert_elem h t (find_bucket t e) e = Some (h', t\<lparr>hash_cnt := hash_cnt t + 1\<rparr>)"
    "hash_rep h' (t\<lparr>hash_cnt := hash_cnt t + 1\<rparr>) bs'" "elements bs' = insert e (elements bs)"
proof -
  note f = rep_facts [OF r]
  define t' i where "t' = t\<lparr>hash_cnt := hash_cnt t + 1\<rparr>" and "i = bucket_idx t e"
  define ls where "ls = bucket_list (buckets t) (bucket_cnt t)"
  have i: "i < bucket_cnt t" using f(7) by (simp add: i_def)
  have away: "e \<notin> cells (ls ! k) (bs ! k)" if "k < length ls" for k
    using cells_table [OF r, of k] that e(2) by (auto simp: ls_def)
  obtain h' where h': "list_push_front h (ls ! i) e = Some h'" "lists_at h' ls (bs[i := e # bs ! i])"
    by (rule lists_at_push [OF f(3) [folded ls_def], of i e]) (use i e(1) away in \<open>auto simp: ls_def\<close>)
  define bs' where "bs' = bs[i := e # bs ! i]"
  have b: "find_bucket t e = ls ! i" using i by (simp add: ls_def i_def find_bucket_idx)
  have run: "insert_elem h t (find_bucket t e) e = Some (h', t')"
    unfolding b using h'(1) by (simp add: insert_elem_def Let_def t'_def)
  have ms: "mset (concat bs') = add_mset e (mset (concat bs))"
    using mset_concat_update [of i bs "e # bs ! i"] i f(1) by (simp add: bs'_def)
  have el: "elements bs' = insert e (elements bs)" using arg_cong [OF ms, of set_mset] by (simp add: elements_def del: set_concat)
  have same: "equal_in t' = equal_in t" "bucket_idx t' = bucket_idx t" "keys_ok t' = keys_ok t" "buckets t' = buckets t" "bucket_cnt t' = bucket_cnt t"
    by (auto simp: equal_in_def bucket_idx_def keys_ok_def t'_def fun_eq_iff)
  have sym: "equal_in t x y = equal_in t y x" for x y by (auto simp: equal_in_def)
  have "hash_rep h' t' bs'"
    unfolding hash_rep_def same
  proof (intro conjI)
    show "keys_ok t" by (rule f(2))
    show "\<exists>k. bucket_cnt t = 2 ^ k" using r by (simp add: hash_rep_def)
    show "lists_at h' (bucket_list (buckets t) (bucket_cnt t)) bs'" using h'(2) by (simp add: bs'_def ls_def)
    show "\<forall>j<length bs'. \<forall>x\<in>set (bs' ! j). bucket_idx t x = j"
      using f(1,4) i by (auto simp: bs'_def nth_list_update i_def)
    show "hash_cnt t' = length (concat bs')" using mset_eq_length [OF ms [unfolded mset.simps(2) [symmetric]]] f(5) by (simp add: t'_def)
    show "\<forall>x\<in>set (concat bs'). \<forall>y\<in>set (concat bs'). equal_in t x y \<longrightarrow> x = y"
      using f(6) new sym unfolding elements_def [symmetric] el by blast
  qed
  with run el show thesis unfolding t'_def by (intro that)
qed

lemma rep_remove:
  assumes r: "hash_rep h t bs" and x: "x \<in> elements bs"
  obtains h' bs' where "remove_elem h t x = Some (h', t\<lparr>hash_cnt := hash_cnt t - 1\<rparr>)"
    "hash_rep h' (t\<lparr>hash_cnt := hash_cnt t - 1\<rparr>) bs'" "elements bs' = elements bs - {x}" "x \<notin> table_cells t bs'"
proof -
  note f = rep_facts [OF r]
  define t' i where "t' = t\<lparr>hash_cnt := hash_cnt t - 1\<rparr>" and "i = bucket_idx t x"
  define ls where "ls = bucket_list (buckets t) (bucket_cnt t)"
  have i: "i < bucket_cnt t" using f(7) by (simp add: i_def)
  then have il: "i < length ls" "i < length bs" using f(1) by (simp_all add: ls_def)
  have "x \<in> set (bs ! i)" using x element_bucket [OF r, of x] by (simp add: i_def)
  then obtain us vs where bi: "bs ! i = us @ x # vs" by (auto simp: in_set_conv_decomp)
  obtain h' where h': "list_remove h x = Some (hd (vs @ [tail_of (ls ! i)]), h')" "lists_at h' ls (bs[i := us @ vs])"
    "\<And>j. j < length ls \<Longrightarrow> x \<notin> cells (ls ! j) ((bs[i := us @ vs]) ! j)"
    using lists_at_remove [OF f(3) [folded ls_def] il(1) bi] by metis
  define bs' where "bs' = bs[i := us @ vs]"
  have run: "remove_elem h t x = Some (h', t')" using h'(1) by (simp add: remove_elem_def Let_def t'_def)
  have ms: "mset (concat bs) = add_mset x (mset (concat bs'))"
    using mset_concat_update [OF il(2), of "us @ vs"] bi by (simp add: bs'_def)
  have out: "x \<notin> cells (ls ! j) (bs' ! j)" if "j < length ls" for j using h'(3) [OF that] by (simp add: bs'_def)
  have len': "length bs' = length ls" using f(1) by (simp add: bs'_def ls_def)
  have nx: "x \<notin> elements bs'"
  proof
    assume "x \<in> elements bs'"
    then obtain j where "j < length ls" "x \<in> set (bs' ! j)" using len' by (auto simp: elements_def in_set_conv_nth [of _ bs'])
    with out [of j] show False by (simp add: cells_def)
  qed
  have el: "elements bs' = elements bs - {x}" using arg_cong [OF ms, of set_mset] nx by (auto simp: elements_def simp del: set_concat)
  have nt: "x \<notin> table_cells t bs'" using nx out by (auto simp: table_cells_def cells_def ls_def)
  have same: "equal_in t' = equal_in t" "bucket_idx t' = bucket_idx t" "keys_ok t' = keys_ok t" "buckets t' = buckets t" "bucket_cnt t' = bucket_cnt t"
    by (auto simp: equal_in_def bucket_idx_def keys_ok_def t'_def fun_eq_iff)
  have "hash_rep h' t' bs'"
    unfolding hash_rep_def same
  proof (intro conjI)
    show "keys_ok t" by (rule f(2))
    show "\<exists>k. bucket_cnt t = 2 ^ k" using r by (simp add: hash_rep_def)
    show "lists_at h' (bucket_list (buckets t) (bucket_cnt t)) bs'" using h'(2) by (simp add: bs'_def ls_def)
    have "set (us @ vs) \<subseteq> set (bs ! i)" using bi by auto
    then show "\<forall>j<length bs'. \<forall>x\<in>set (bs' ! j). bucket_idx t x = j"
      using f(1,4) il by (auto simp: bs'_def nth_list_update)
    show "hash_cnt t' = length (concat bs')" using mset_eq_length [OF ms [unfolded mset.simps(2) [symmetric]]] f(5) by (simp add: t'_def)
    show "\<forall>x\<in>set (concat bs'). \<forall>y\<in>set (concat bs'). equal_in t x y \<longrightarrow> x = y"
      using f(6) unfolding elements_def [symmetric] el by blast
  qed
  with run el nt show thesis unfolding t'_def by (intro that)
qed

end
