(* ===== verification/Hash_Visit.thy ===== *)
theory Hash_Visit
  imports Hash_Refine
begin

text \<open>
  Visiting the elements of a hash table: \<^verbatim>\<open>hash_apply\<close>, the iteration idiom of \<^verbatim>\<open>hash_first\<close> and the
  destructor of \<^verbatim>\<open>hash_clear\<close>, and the table that \<^verbatim>\<open>hash_init\<close> makes.
\<close>

section \<open>The order of the elements\<close>

lemma lists_at_disjoint:
  assumes "lists_at h ls xss" "i < length ls" "j < length ls" "i \<noteq> j"
  shows "set (xss ! i) \<inter> set (xss ! j) = {}"
  using lists_at_apart [OF assms] by (auto simp: cells_def)

lemma distinct_concat_nth:
  "(\<And>i. i < length xss \<Longrightarrow> distinct (xss ! i)) \<Longrightarrow>
   (\<And>i j. i < length xss \<Longrightarrow> j < length xss \<Longrightarrow> i \<noteq> j \<Longrightarrow> set (xss ! i) \<inter> set (xss ! j) = {}) \<Longrightarrow> distinct (concat xss)"
proof (induction xss)
  case (Cons xs xss)
  have "distinct (concat xss)"
  proof (rule Cons.IH)
    show "distinct (xss ! i)" if "i < length xss" for i using Cons.prems(1) [of "Suc i"] that by simp
    show "set (xss ! i) \<inter> set (xss ! j) = {}" if "i < length xss" "j < length xss" "i \<noteq> j" for i j
      using Cons.prems(2) [of "Suc i" "Suc j"] that by simp
  qed
  moreover have "distinct xs" using Cons.prems(1) [of 0] by simp
  moreover have "set xs \<inter> set ys = {}" if "ys \<in> set xss" for ys
  proof -
    from that obtain j where "j < length xss" "ys = xss ! j" by (auto simp: in_set_conv_nth)
    then show ?thesis using Cons.prems(2) [of 0 "Suc j"] by simp
  qed
  ultimately show ?case by auto
qed simp

lemma rep_distinct: "hash_rep h t bs \<Longrightarrow> distinct (concat bs)"
proof -
  assume r: "hash_rep h t bs"
  note f = rep_facts [OF r]
  show ?thesis
  proof (rule distinct_concat_nth)
    show "distinct (bs ! i)" if "i < length bs" for i
      using represents_simps(4) [OF lists_at_nth [OF f(3)], of i] that f(1) by simp
    show "set (bs ! i) \<inter> set (bs ! j) = {}" if "i < length bs" "j < length bs" "i \<noteq> j" for i j
      using lists_at_disjoint [OF f(3), of i j] that f(1) by simp
  qed
qed

lemma rep_size: "hash_rep h t bs \<Longrightarrow> hash_size t = card (elements bs)"
  using rep_facts(5) distinct_card [OF rep_distinct] by (simp add: hash_size_def elements_def)

section \<open>Applying an action\<close>

lemma apply_loop_run: "represents h l (us @ vs) \<Longrightarrow> apply_loop h l (hd (vs @ [tail_of l])) = Some vs"
proof (induction vs arbitrary: us)
  case Nil
  then show ?case by (subst apply_loop.simps) (simp add: represents_simps(1))
next
  case (Cons v vs)
  have r: "represents h l ((us @ [v]) @ vs)" using Cons.prems by simp
  have "v \<noteq> tail_of l" using represents_distinct [OF Cons.prems] by auto
  then show ?case
    using Cons.IH [OF r] list_next_represents [OF Cons.prems] represents_simps(1) [OF Cons.prems]
    by (subst apply_loop.simps) simp
qed

lemma apply_buckets_run:
  "(\<And>i. i \<in> set is \<Longrightarrow> represents h (bucket_at b i) (bs ! i)) \<Longrightarrow> apply_buckets h b is = Some (concat (map ((!) bs) is))"
proof (induction "is")
  case (Cons i "is")
  have r: "represents h (bucket_at b i) ([] @ bs ! i)" using Cons.prems by simp
  show ?case using Cons.IH Cons.prems apply_loop_run [OF r] list_begin_represents [OF r] by simp
qed simp

lemma bucket_rep: "hash_rep h t bs \<Longrightarrow> i < bucket_cnt t \<Longrightarrow> represents h (bucket_at (buckets t) i) (bs ! i)"
  using lists_at_nth [OF rep_facts(3)] by fastforce

lemma rep_apply: "hash_rep h t bs \<Longrightarrow> hash_apply h t = Some (concat bs)"
  using apply_buckets_run [of "[0..<bucket_cnt t]" h "buckets t" bs] bucket_rep [of h t bs] rep_facts(1) [of h t bs]
  by (simp add: hash_apply_def) (metis map_nth)

section \<open>Iterating\<close>

text \<open>The idiom in the comment of \<^verbatim>\<open>hash_first\<close>: \<^verbatim>\<open>while (hash_next (&i)) ... hash_cur (&i) ...\<close>.\<close>

partial_function (option) iterate :: "heap \<Rightarrow> hash_table \<Rightarrow> hash_iterator \<Rightarrow> addr list option" where
  "iterate h t i = do {
     i \<leftarrow> hash_next h t i;
     if hash_cur i \<noteq> NULL then do { es \<leftarrow> iterate h t i; Some (hash_cur i # es) } else Some []
   }"

definition hash_iterate :: "heap \<Rightarrow> hash_table \<Rightarrow> addr list option" where
  "hash_iterate h t = do { i \<leftarrow> hash_first t; iterate h t i }"

lemma list_next_head: "represents h l xs \<Longrightarrow> list_next h (head_of l) = Some (hd (xs @ [tail_of l]))"
proof -
  assume r: "represents h l xs"
  then have "head_of l \<noteq> NULL" "prev_ptr (h (head_of l)) = NULL" "NULL \<notin> set (xs @ [tail_of l])"
    by (auto simp: represents_def wf_chain_def)
  moreover from this(3) have "hd (xs @ [tail_of l]) \<noteq> NULL" by (metis hd_in_set snoc_eq_iff_butlast)
  ultimately show ?thesis using represents_simps(2) [OF r] by (simp add: list_next_def is_head_def)
qed

lemma bucket_order: "bucket_at b i + sizeof_list = bucket_at b (Suc i)" "bucket_at b i < bucket_at b j \<longleftrightarrow> i < j"
  by (simp_all add: bucket_at_def sizeof_list_def)

lemma iterate_from:
  assumes r: "hash_rep h t bs" and i: "i < bucket_cnt t" and bi: "bs ! i = us @ vs"
    and it: "it_bucket it = bucket_at (buckets t) i" "list_next h (it_elem it) = Some (hd (vs @ [tail_of (bucket_at (buckets t) i)]))"
  shows "iterate h t it = Some (vs @ concat (drop (Suc i) bs))"
  using i bi it
proof (induction "bucket_cnt t - i" arbitrary: i us vs it rule: less_induct)
  case less
  note outer = less.hyps
  show ?case
    using less.prems
  proof (induction vs arbitrary: us it)
    case Nil
    let ?l = "bucket_at (buckets t) i" and ?n = "bucket_at (buckets t) (Suc i)"
    have rp: "represents h ?l (bs ! i)" using bucket_rep [OF r Nil.prems(1)] .
    show ?case
    proof (cases "Suc i < bucket_cnt t")
      case False
      then have "bucket_at (buckets t) (bucket_cnt t) \<le> ?n" using bucket_order(2) [of "buckets t" "Suc i" "bucket_cnt t"] by simp
      then have "next_loop h t ?l (tail_of ?l) = Some \<lparr>it_bucket = ?n, it_elem = NULL\<rparr>"
        using represents_simps(1) [OF rp] by (subst next_loop.simps) (simp add: bucket_order(1) Let_def)
      moreover have "drop (Suc i) bs = []" using False rep_facts(1) [OF r] by simp
      ultimately show ?thesis using Nil.prems(3,4)
        by (subst iterate.simps) (simp add: hash_next_def hash_cur_def)
    next
      case True
      have rn: "represents h ?n (bs ! Suc i)" using bucket_rep [OF r True] .
      have "\<not> bucket_at (buckets t) (bucket_cnt t) \<le> ?n" using bucket_order(2) [of "buckets t" "Suc i" "bucket_cnt t"] True by simp
      then have step: "next_loop h t ?l (tail_of ?l) = next_loop h t ?n (hd (bs ! Suc i @ [tail_of ?n]))"
        using represents_simps(1) [OF rp] list_begin_represents [OF rn]
        by (subst next_loop.simps) (simp add: bucket_order(1) Let_def)
      define it' where "it' = \<lparr>it_bucket = ?n, it_elem = head_of ?n\<rparr>"
      have nx: "list_next h (head_of ?n) = Some (hd (bs ! Suc i @ [tail_of ?n]))"
        by (rule list_next_head [OF rn])
      have "hash_next h t it = hash_next h t it'"
        using Nil.prems(3,4) nx step by (simp add: hash_next_def it'_def)
      then have "iterate h t it = iterate h t it'" by (subst (1 2) iterate.simps) simp
      also have "\<dots> = Some (bs ! Suc i @ concat (drop (Suc (Suc i)) bs))"
        using outer [of "Suc i" "[]" "bs ! Suc i" it'] True nx by (simp add: it'_def)
      also have "\<dots> = Some (concat (drop (Suc i) bs))"
        using Cons_nth_drop_Suc [of "Suc i" bs] True rep_facts(1) [OF r] by (metis concat.simps(2))
      finally show ?thesis by simp
    qed
  next
    case (Cons v vs)
    let ?l = "bucket_at (buckets t) i"
    have rp: "represents h ?l (us @ v # vs)" using bucket_rep [OF r Cons.prems(1)] Cons.prems(2) by simp
    have v: "v \<noteq> tail_of ?l" "v \<noteq> NULL" using represents_distinct [OF rp] by auto
    define it' where "it' = \<lparr>it_bucket = ?l, it_elem = v\<rparr>"
    have "next_loop h t ?l v = Some it'" using v represents_simps(1) [OF rp] by (subst next_loop.simps) (simp add: it'_def)
    then have "hash_next h t it = Some it'" using Cons.prems(3,4) by (simp add: hash_next_def)
    moreover have "iterate h t it' = Some (vs @ concat (drop (Suc i) bs))"
      by (rule Cons.IH [of "us @ [v]"]) (use Cons.prems list_next_represents [OF rp] in \<open>simp_all add: it'_def\<close>)
    ultimately show ?case using v(2) by (subst iterate.simps) (simp add: hash_cur_def it'_def)
  qed
qed

lemma rep_iterate: "hash_rep h t bs \<Longrightarrow> hash_iterate h t = Some (concat bs)"
proof -
  assume r: "hash_rep h t bs"
  have c: "0 < bucket_cnt t" using r by (auto simp: hash_rep_def)
  have b: "bucket_at (buckets t) 0 = buckets t" by (simp add: bucket_at_def)
  have rp: "represents h (buckets t) (bs ! 0)" using bucket_rep [OF r c] by (simp add: b)
  have "iterate h t \<lparr>it_bucket = buckets t, it_elem = head_of (buckets t)\<rparr> = Some (bs ! 0 @ concat (drop (Suc 0) bs))"
    by (rule iterate_from [OF r c, of "[]"]) (simp_all add: b list_next_head [OF rp])
  moreover have "bs ! 0 @ concat (drop (Suc 0) bs) = concat bs"
    using Cons_nth_drop_Suc [of 0 bs] c rep_facts(1) [OF r] by (metis concat.simps(2) drop_0)
  ultimately show ?thesis using represents_simps(1) [OF rp] by (simp add: hash_iterate_def hash_first_def list_head_def)
qed

section \<open>Clearing\<close>

lemma pop_all_run:
  "represents h l xs \<Longrightarrow> \<exists>h'. pop_all h l = Some (xs, h') \<and> represents h' l [] \<and> (\<forall>x. x \<notin> cells l xs \<longrightarrow> h' x = h x)"
proof (induction xs arbitrary: h)
  case Nil
  then show ?case by (subst pop_all.simps) (simp add: list_empty_represents)
next
  case (Cons x xs)
  obtain h1 where h1: "list_pop_front h l = Some (x, h1)" "represents h1 l xs"
    "\<And>y. y \<notin> set xs \<union> {head_of l, tail_of l} \<Longrightarrow> h1 y = h y"
    using list_pop_front_represents [OF Cons.prems] by auto
  obtain h' where h': "pop_all h1 l = Some (xs, h')" "represents h' l []" "\<forall>x. x \<notin> cells l xs \<longrightarrow> h' x = h1 x"
    using Cons.IH [OF h1(2)] by auto
  have "h' y = h y" if "y \<notin> cells l (x # xs)" for y using h1(3) [of y] h'(3) that by (auto simp: cells_def)
  then show ?case using h1(1) h' by (subst pop_all.simps) (simp add: list_empty_represents [OF Cons.prems])
qed

lemma clear_buckets_run:
  assumes "lists_at h ls xss" "distinct is" "\<And>i. i \<in> set is \<Longrightarrow> i < length ls \<and> ls ! i = bucket_at b i"
  shows "\<exists>h' yss. clear_buckets h b True is = Some (concat (map ((!) xss) is), h') \<and> lists_at h' ls yss \<and>
    (\<forall>i<length ls. yss ! i = (if i \<in> set is then [] else xss ! i))"
  using assms
proof (induction "is" arbitrary: h xss)
  case (Cons i "is")
  have i: "i < length ls" "ls ! i = bucket_at b i" using Cons.prems(3) by auto
  have len: "length xss = length ls" using lists_at_length [OF Cons.prems(1)] by simp
  have rp: "represents h (ls ! i) (xss ! i)" by (rule lists_at_nth [OF Cons.prems(1) i(1)])
  obtain h1 where h1: "pop_all h (ls ! i) = Some (xss ! i, h1)" "\<forall>x. x \<notin> cells (ls ! i) (xss ! i) \<longrightarrow> h1 x = h x"
    using pop_all_run [OF rp] by auto
  obtain h2 where h2: "list_init h1 (ls ! i) = Some h2" "represents h2 (ls ! i) []"
    "\<And>x. x \<notin> {head_of (ls ! i), tail_of (ls ! i)} \<Longrightarrow> h2 x = h1 x"
    using list_init_represents [OF represents_simps(1) [OF rp], of h1] by auto
  have "h2 x = h x" if "x \<notin> cells (ls ! i) (xss ! i) \<union> set []" for x
    using h1(2) h2(3) [of x] that by (auto simp: cells_def)
  then have at: "lists_at h2 ls (xss[i := []])" by (intro lists_at_upd [OF Cons.prems(1) i(1) h2(2)]) auto
  obtain h' yss where h': "clear_buckets h2 b True is = Some (concat (map ((!) (xss[i := []])) is), h')" "lists_at h' ls yss"
    "\<forall>k<length ls. yss ! k = (if k \<in> set is then [] else xss[i := []] ! k)"
    using Cons.IH [OF at] Cons.prems(2,3) by auto
  have same: "map ((!) (xss[i := []])) is = map ((!) xss) is"
  proof (rule map_cong [OF refl])
    fix j assume "j \<in> set is"
    then have "i \<noteq> j" using Cons.prems(2) by auto
    then show "xss[i := []] ! j = xss ! j" by (rule nth_list_update_neq)
  qed
  have "clear_buckets h b True (i # is) = Some (concat (map ((!) xss) (i # is)), h')"
    using h1(1) h2(1) h'(1) i(2) by (simp add: same Let_def)
  moreover have "\<forall>k<length ls. yss ! k = (if k \<in> set (i # is) then [] else xss ! k)" using h'(3) i(1) len by auto
  ultimately show ?case using h'(2) by blast
qed auto

lemma clear_buckets_init: "clear_buckets h b False is = map_option (Pair []) (init_buckets h b is)"
  by (induction "is" arbitrary: h) (auto simp: Let_def split: Option.bind_splits)

lemma lists_at_empty:
  assumes "mem \<noteq> NULL"
  obtains h' where "init_buckets h mem [0..<n] = Some h'" "lists_at h' (bucket_list mem n) (replicate n [])"
proof -
  have "lists_at h [] []" by (simp add: lists_at_def)
  then show thesis using lists_at_new [of h "[]" "[]" mem n] assms that by auto
qed

lemma rep_empty:
  assumes "keys_ok t" "bucket_cnt t = 2 ^ k" "lists_at h (bucket_list (buckets t) (bucket_cnt t)) (replicate (bucket_cnt t) [])"
  shows "hash_rep h (t\<lparr>hash_cnt := 0\<rparr>) (replicate (bucket_cnt t) [])"
proof -
  have "keys_ok (t\<lparr>hash_cnt := 0\<rparr>) = keys_ok t" by (simp add: keys_ok_def equal_in_def)
  moreover have "set (concat (replicate (bucket_cnt t) ([] :: addr list))) = {}" by auto
  moreover from this have "concat (replicate (bucket_cnt t) ([] :: addr list)) = []" by simp
  ultimately show ?thesis using assms(1,3) exI [of "\<lambda>k. bucket_cnt t = 2 ^ k", OF assms(2)]
    unfolding hash_rep_def by simp
qed

lemma rep_clear:
  assumes r: "hash_rep h t bs"
  obtains h' where "hash_clear h t destructor = Some (if destructor then concat bs else [], h', t\<lparr>hash_cnt := 0\<rparr>)"
    "hash_rep h' (t\<lparr>hash_cnt := 0\<rparr>) (replicate (bucket_cnt t) [])"
proof -
  note f = rep_facts [OF r]
  obtain k where k: "bucket_cnt t = 2 ^ k" using r by (auto simp: hash_rep_def)
  show thesis
  proof (cases destructor)
    case True
    obtain h' yss where h': "clear_buckets h (buckets t) True [0..<bucket_cnt t] = Some (concat (map ((!) bs) [0..<bucket_cnt t]), h')"
      "lists_at h' (bucket_list (buckets t) (bucket_cnt t)) yss" "\<forall>i<bucket_cnt t. yss ! i = []"
      using clear_buckets_run [OF f(3), of "[0..<bucket_cnt t]" "buckets t"] by auto
    have "length yss = bucket_cnt t" using lists_at_length [OF h'(2)] by simp
    with h'(3) have y: "yss = replicate (bucket_cnt t) []" by (intro nth_equalityI) auto
    have "map ((!) bs) [0..<bucket_cnt t] = bs" using map_nth [of bs] f(1) by simp
    then have "hash_clear h t destructor = Some (concat bs, h', t\<lparr>hash_cnt := 0\<rparr>)" using h'(1) True by (simp add: hash_clear_def)
    with rep_empty [OF f(2) k h'(2) [unfolded y]] True show thesis by (intro that) simp_all
  next
    case False
    have "0 < bucket_cnt t" by (simp add: k)
    from represents_simps(1) [OF bucket_rep [OF r this]] have "buckets t \<noteq> NULL" by (simp add: bucket_at_def)
    then obtain h' where h': "init_buckets h (buckets t) [0..<bucket_cnt t] = Some h'"
      "lists_at h' (bucket_list (buckets t) (bucket_cnt t)) (replicate (bucket_cnt t) [])"
      using lists_at_empty by blast
    have "hash_clear h t destructor = Some ([], h', t\<lparr>hash_cnt := 0\<rparr>)" using h'(1) False by (simp add: hash_clear_def clear_buckets_init)
    with rep_empty [OF f(2) k h'(2)] False show thesis by (intro that) simp_all
  qed
qed

lemma hash_init_rep:
  assumes "mem \<noteq> NULL" "keys_ok \<lparr>hash_cnt = 0, bucket_cnt = 4, buckets = mem, hash_fn = f, less_fn = lt\<rparr>"
  obtains h' where "hash_init h f lt mem = Some (True, h', \<lparr>hash_cnt = 0, bucket_cnt = 4, buckets = mem, hash_fn = f, less_fn = lt\<rparr>)"
    "hash_rep h' \<lparr>hash_cnt = 0, bucket_cnt = 4, buckets = mem, hash_fn = f, less_fn = lt\<rparr> (replicate 4 [])"
proof -
  let ?t = "\<lparr>hash_cnt = 0, bucket_cnt = 4, buckets = mem, hash_fn = f, less_fn = lt\<rparr>"
  obtain h' where h': "init_buckets h mem [0..<4] = Some h'" "lists_at h' (bucket_list mem 4) (replicate 4 [])"
    by (rule lists_at_empty [OF assms(1)])
  have "hash_rep h' ?t (replicate 4 [])" using rep_empty [of ?t 2 h'] assms(2) h'(2) by simp
  moreover have "hash_clear h ?t False = Some ([], h', ?t)" using h'(1) by (simp add: hash_clear_def clear_buckets_init del: upt_rec_numeral)
  ultimately show thesis using assms(1) by (intro that) (simp_all add: hash_init_def Let_def)
qed

end
