(* ===== verification/Hash_Properties.thy ===== *)
theory Hash_Properties
  imports Hash_Visit
begin

text \<open>The properties of hash tables.\<close>

section \<open>Operations on the set of elements\<close>

text \<open>What a search for an element equal to \<open>e\<close> may answer.\<close>

definition matches :: "hash_table \<Rightarrow> addr set \<Rightarrow> addr \<Rightarrow> addr \<Rightarrow> bool" where
  "matches t S e x \<longleftrightarrow> (if x = NULL then \<forall>y\<in>S. \<not> equal_in t y e else x \<in> S \<and> equal_in t x e)"

text \<open>An operation leaves a table with the elements \<open>S\<close> and the functions of \<open>t\<close>.\<close>

definition holds_set :: "hash_table \<Rightarrow> heap \<Rightarrow> hash_table \<Rightarrow> addr set \<Rightarrow> bool" where
  "holds_set t h' t' S \<longleftrightarrow> hash_fn t' = hash_fn t \<and> less_fn t' = less_fn t \<and> (\<exists>bs'. hash_rep h' t' bs' \<and> elements bs' = S)"

definition room_for :: "hash_table \<Rightarrow> addr set \<Rightarrow> addr \<Rightarrow> bool" where
  "room_for t X mem \<longleftrightarrow> fresh_buckets mem (max 4 ((hash_cnt t + 1) div 2)) X"

lemma equal_in_cong: "less_fn t' = less_fn t \<Longrightarrow> equal_in t' = equal_in t"
  by (simp add: equal_in_def fun_eq_iff)

lemma table_cells_cong: "buckets t' = buckets t \<Longrightarrow> bucket_cnt t' = bucket_cnt t \<Longrightarrow>
    elements bs' \<subseteq> insert e (elements bs) \<Longrightarrow> table_cells t' bs' \<subseteq> insert e (table_cells t bs)"
  by (auto simp: table_cells_def)

lemma holds_rehash:
  assumes r: "hash_rep h t bs" and c: "hash_cnt t \<le> n + 1"
    and f: "fresh_buckets mem (max 4 ((n + 1) div 2)) X" and X: "table_cells t bs \<subseteq> X"
  obtains h' t' where "rehash h t mem = Some (h', t')" "holds_set t h' t' (elements bs)"
proof -
  have "fresh_buckets mem m (table_cells t bs)" if m: "new_bucket_cnt (hash_cnt t) = Some m" for m
  proof -
    from new_bucket_cnt_power [of "hash_cnt t"] m have "m \<le> max 4 (hash_cnt t div 2)" by auto
    also have "\<dots> \<le> max 4 ((n + 1) div 2)" using c by (intro max.mono order_refl div_le_mono)
    finally have "{mem..<mem + 16 * m} \<subseteq> {mem..<mem + 16 * max 4 ((n + 1) div 2)}" by auto
    with f X show ?thesis unfolding fresh_buckets_def by (metis inf_mono subset_empty)
  qed
  from rep_rehash [OF r this] obtain h' t' bs' where q: "rehash h t mem = Some (h', t')" "hash_rep h' t' bs'" "elements bs' = elements bs"
    "hash_fn t' = hash_fn t" "less_fn t' = less_fn t" by metis
  then have "holds_set t h' t' (elements bs)" unfolding holds_set_def by metis
  with q(1) show thesis by (rule that)
qed

lemma holds_set_cong: "hash_fn t1 = hash_fn t \<Longrightarrow> less_fn t1 = less_fn t \<Longrightarrow> holds_set t1 h' t' S = holds_set t h' t' S"
  by (simp add: holds_set_def)

lemma find_matches:
  assumes "hash_rep h t bs"
  obtains x where "find_elem h t (find_bucket t e) e = Some x" "matches t (elements bs) e x"
  using rep_find [OF assms, of e] unfolding matches_def by metis

lemma null_not_element: "hash_rep h t bs \<Longrightarrow> NULL \<notin> elements bs"
proof
  assume r: "hash_rep h t bs" and n: "NULL \<in> elements bs"
  then have "NULL \<in> set (bs ! bucket_idx t NULL)" using element_bucket [OF r] by simp
  then show False using represents_distinct [OF bucket_rep [OF r rep_facts(7) [OF r]]] by metis
qed

lemma insert_holds:
  assumes r: "hash_rep h t bs" and e: "e \<noteq> NULL" "e \<notin> table_cells t bs" and f: "room_for t (insert e (table_cells t bs)) mem"
  shows "\<exists>x h' t'. hash_insert h t e mem = Some (x, h', t') \<and> matches t (elements bs) e x \<and>
    holds_set t h' t' (if x = NULL then insert e (elements bs) else elements bs)"
proof -
  obtain x where x: "find_elem h t (find_bucket t e) e = Some x" "matches t (elements bs) e x" by (rule find_matches [OF r])
  show ?thesis
  proof (cases "x = NULL")
    case True
    then have "\<forall>y\<in>elements bs. \<not> equal_in t y e" using x(2) by (simp add: matches_def)
    from rep_insert [OF r e this] obtain h1 b1 where
      i: "insert_elem h t (find_bucket t e) e = Some (h1, t\<lparr>hash_cnt := hash_cnt t + 1\<rparr>)" "hash_rep h1 (t\<lparr>hash_cnt := hash_cnt t + 1\<rparr>) b1"
      "elements b1 = insert e (elements bs)" by auto
    have "table_cells (t\<lparr>hash_cnt := hash_cnt t + 1\<rparr>) b1 \<subseteq> insert e (table_cells t bs)"
      by (rule table_cells_cong) (simp_all add: i(3))
    from holds_rehash [OF i(2) _ f [unfolded room_for_def] this] obtain h' t' where
      "rehash h1 (t\<lparr>hash_cnt := hash_cnt t + 1\<rparr>) mem = Some (h', t')" "holds_set t h' t' (elements b1)"
      by (auto simp: holds_set_def)
    then show ?thesis using x True i by (simp add: hash_insert_def Let_def)
  next
    case False
    from holds_rehash [OF r _ f [unfolded room_for_def] subset_insertI] obtain h' t' where
      "rehash h t mem = Some (h', t')" "holds_set t h' t' (elements bs)" by auto
    then show ?thesis using x False by (simp add: hash_insert_def Let_def)
  qed
qed

lemma replace_holds:
  assumes r: "hash_rep h t bs" and e: "e \<noteq> NULL" "e \<notin> table_cells t bs" and f: "room_for t (insert e (table_cells t bs)) mem"
  shows "\<exists>x h' t'. hash_replace h t e mem = Some (x, h', t') \<and> matches t (elements bs) e x \<and>
    holds_set t h' t' (insert e (elements bs - {x}))"
proof -
  obtain x where x: "find_elem h t (find_bucket t e) e = Some x" "matches t (elements bs) e x" by (rule find_matches [OF r])
  obtain h0 t0 b0 where m: "(if x \<noteq> NULL then remove_elem h t x else Some (h, t)) = Some (h0, t0)" "hash_rep h0 t0 b0"
    "elements b0 = elements bs - {x}" "t0 = t\<lparr>hash_cnt := hash_cnt t0\<rparr>" "hash_cnt t0 \<le> hash_cnt t"
  proof (cases "x = NULL")
    case True
    then show thesis using that [of h t bs] r null_not_element [OF r] by simp
  next
    case False
    then have "x \<in> elements bs" using x(2) by (simp add: matches_def)
    from rep_remove [OF r this] obtain h0 b0 where "remove_elem h t x = Some (h0, t\<lparr>hash_cnt := hash_cnt t - 1\<rparr>)"
      "hash_rep h0 (t\<lparr>hash_cnt := hash_cnt t - 1\<rparr>) b0" "elements b0 = elements bs - {x}" by metis
    with False show thesis by (intro that [of h0 "t\<lparr>hash_cnt := hash_cnt t - 1\<rparr>" b0]) simp_all
  qed
  have same: "buckets t0 = buckets t" "bucket_cnt t0 = bucket_cnt t" "less_fn t0 = less_fn t" "hash_fn t0 = hash_fn t"
    by (subst m(4), simp)+
  have bk: "find_bucket t0 e = find_bucket t e" using same by (simp add: find_bucket_def)
  have "elements b0 \<subseteq> insert e (elements bs)" using m(3) by blast
  from table_cells_cong [OF same(1,2) this] have tc: "table_cells t0 b0 \<subseteq> insert e (table_cells t bs)" .
  have "e \<notin> elements bs" using e(2) by (simp add: table_cells_def)
  then have e0: "e \<notin> table_cells t0 b0" using e(2) m(3) same by (simp add: table_cells_def)
  have "\<not> equal_in t y e" if "y \<in> elements b0" for y
  proof
    assume y: "equal_in t y e"
    with that m(3) x(2) have "x \<noteq> NULL" unfolding matches_def by (metis DiffD1)
    then have "equal_in t x e" "x \<in> elements bs" using x(2) by (simp_all add: matches_def)
    moreover have "equal_in t e x" using \<open>equal_in t x e\<close> by (simp add: equal_in_def)
    ultimately have "equal_in t y x" using y rep_facts(2) [OF r] unfolding keys_ok_def by blast
    then show False using rep_facts(6) [OF r] that m(3) \<open>x \<in> elements bs\<close> by blast
  qed
  then have ne: "\<forall>y\<in>elements b0. \<not> equal_in t0 y e" using equal_in_cong [OF same(3)] by simp
  from rep_insert [OF m(2) e(1) e0 ne] obtain h1 b1 where
    i: "insert_elem h0 t0 (find_bucket t0 e) e = Some (h1, t0\<lparr>hash_cnt := hash_cnt t0 + 1\<rparr>)" "hash_rep h1 (t0\<lparr>hash_cnt := hash_cnt t0 + 1\<rparr>) b1"
    "elements b1 = insert e (elements b0)" by auto
  let ?t1 = "t0\<lparr>hash_cnt := hash_cnt t0 + 1\<rparr>"
  have "table_cells ?t1 b1 \<subseteq> insert e (table_cells t0 b0)" by (rule table_cells_cong) (simp_all add: i(3))
  with tc have "table_cells ?t1 b1 \<subseteq> insert e (table_cells t bs)" by blast
  from holds_rehash [OF i(2) _ f [unfolded room_for_def] this] m(5) obtain h' t' where
    "rehash h1 ?t1 mem = Some (h', t')" "holds_set ?t1 h' t' (elements b1)" by auto
  then show ?thesis using x m i same by (auto simp: hash_replace_def Let_def bk holds_set_def)
qed

lemma delete_holds:
  assumes r: "hash_rep h t bs" and f: "room_for t X mem" "table_cells t bs \<subseteq> X"
  shows "\<exists>x h' t'. hash_delete h t e mem = Some (x, h', t') \<and> matches t (elements bs) e x \<and> holds_set t h' t' (elements bs - {x})"
proof -
  obtain x where x: "find_elem h t (find_bucket t e) e = Some x" "matches t (elements bs) e x" by (rule find_matches [OF r])
  show ?thesis
  proof (cases "x = NULL")
    case True
    then show ?thesis using x r null_not_element [OF r] by (auto simp: hash_delete_def holds_set_def)
  next
    case False
    then have "x \<in> elements bs" using x(2) by (simp add: matches_def)
    from rep_remove [OF r this] obtain h1 b1 where
      d: "remove_elem h t x = Some (h1, t\<lparr>hash_cnt := hash_cnt t - 1\<rparr>)" "hash_rep h1 (t\<lparr>hash_cnt := hash_cnt t - 1\<rparr>) b1"
      "elements b1 = elements bs - {x}" by metis
    let ?t1 = "t\<lparr>hash_cnt := hash_cnt t - 1\<rparr>"
    have "table_cells ?t1 b1 \<subseteq> table_cells t bs" using d(3) by (auto simp: table_cells_def)
    from subset_trans [OF this f(2)] have X: "table_cells ?t1 b1 \<subseteq> X" .
    have c: "hash_cnt ?t1 \<le> hash_cnt t + 1" by simp
    obtain h' t' where "rehash h1 ?t1 mem = Some (h', t')" "holds_set ?t1 h' t' (elements b1)"
      by (rule holds_rehash [OF d(2) c f(1) [unfolded room_for_def] X])
    then have "hash_delete h t e mem = Some (x, h', t')" "holds_set t h' t' (elements bs - {x})"
      using x False d by (simp_all add: hash_delete_def holds_set_def)
    with x(2) show ?thesis by blast
  qed
qed

text \<open>
  C18: a hash table behaves as the set of its elements.  For a new element whose address the table does not use,
  insertion, replacement, search and deletion return normally, whatever number of buckets they change to and whether or
  not there is memory for the new array.  The answer is the element that is equal to the given one, or a null pointer
  exactly when there is none; insertion adds the element in the second case only, replacement puts it in
  the place of the equal element, and deletion takes the equal element out.  The result is a well-formed table again.
\<close>

theorem hash_refines_set:
  assumes "hash_rep h t bs" "e \<noteq> NULL" "e \<notin> table_cells t bs" "room_for t (insert e (table_cells t bs)) mem"
  shows "(\<exists>x h' t'. hash_insert h t e mem = Some (x, h', t') \<and> matches t (elements bs) e x \<and>
      holds_set t h' t' (if x = NULL then insert e (elements bs) else elements bs)) \<and>
    (\<exists>x h' t'. hash_replace h t e mem = Some (x, h', t') \<and> matches t (elements bs) e x \<and>
      holds_set t h' t' (insert e (elements bs - {x}))) \<and>
    (\<exists>x. hash_find h t e = Some x \<and> matches t (elements bs) e x) \<and>
    (\<exists>x h' t'. hash_delete h t e mem = Some (x, h', t') \<and> matches t (elements bs) e x \<and> holds_set t h' t' (elements bs - {x}))"
proof -
  obtain x where "hash_find h t e = Some x" "matches t (elements bs) e x"
    unfolding hash_find_def by (rule find_matches [OF assms(1)])
  then show ?thesis
    using insert_holds [OF assms] replace_holds [OF assms] delete_holds [OF assms(1,4) subset_insertI] by blast
qed

text \<open>A table that compares and hashes its elements by the last digit of their addresses.\<close>

definition digit_table :: "nat \<Rightarrow> hash_table" where
  "digit_table n = \<lparr>hash_cnt = n, bucket_cnt = 4, buckets = 1024, hash_fn = (\<lambda>x. of_nat (x mod 16)), less_fn = (\<lambda>x y. x mod 16 < y mod 16)\<rparr>"

lemma digit_keys: "keys_ok (digit_table n)"
  by (auto simp: keys_ok_def equal_in_def digit_table_def)

lemma digit_table_starts: "\<exists>h. hash_rep h (digit_table 0) (replicate 4 [])"
  using hash_init_rep [of 1024 "\<lambda>x. of_nat (x mod 16)" "\<lambda>x y. x mod 16 < y mod 16"] digit_keys [of 0]
  by (auto simp: digit_table_def)

lemma digit_cells: "x < 1024 \<Longrightarrow> x \<notin> table_cells (digit_table n) (replicate 4 [])"
  by (auto simp: table_cells_def elements_def digit_table_def bucket_at_def sizeof_list_def head_of_def tail_of_def)

theorem hash_refines_set_witness:
  "\<exists>h x h' t'. hash_insert h (digit_table 0) 512 NULL = Some (x, h', t') \<and> x = NULL \<and> holds_set (digit_table 0) h' t' {512}"
proof -
  obtain h where r: "hash_rep h (digit_table 0) (replicate 4 [])" using digit_table_starts by blast
  have "elements (replicate 4 []) = {}" by (simp add: elements_def)
  then show ?thesis
    using hash_refines_set [OF r, of 512 NULL] digit_cells [of 512 0]
    by (fastforce simp: room_for_def fresh_buckets_def matches_def split: if_splits)
qed

section \<open>Visiting the elements\<close>

text \<open>
  C32: \<^verbatim>\<open>hash_apply\<close>, the iteration idiom (\<^verbatim>\<open>hash_first\<close>, then \<^verbatim>\<open>hash_next\<close> until a null pointer) and the
  destructor of \<^verbatim>\<open>hash_clear\<close> all visit the same sequence: every element of the table once and nothing else, as many
  as \<^verbatim>\<open>hash_size\<close> says.  \<^verbatim>\<open>hash_clear\<close> leaves an empty table.
\<close>

theorem hash_visits_each_once:
  assumes "hash_rep h t bs"
  shows "\<exists>es h' t'. hash_apply h t = Some es \<and> hash_iterate h t = Some es \<and> distinct es \<and> set es = elements bs \<and>
    length es = hash_size t \<and> hash_clear h t True = Some (es, h', t') \<and> holds_set t h' t' {} \<and> hash_empty t'"
proof -
  obtain h' where c: "hash_clear h t True = Some (concat bs, h', t\<lparr>hash_cnt := 0\<rparr>)"
    "hash_rep h' (t\<lparr>hash_cnt := 0\<rparr>) (replicate (bucket_cnt t) [])"
    using rep_clear [OF assms, of True] by auto
  have "holds_set t h' (t\<lparr>hash_cnt := 0\<rparr>) {}" using c(2) by (auto simp: holds_set_def elements_def)
  then show ?thesis
    using c(1) rep_apply [OF assms] rep_iterate [OF assms] rep_distinct [OF assms] rep_facts(5) [OF assms]
    by (simp add: hash_size_def hash_empty_def elements_def)
qed

theorem hash_visits_each_once_witness:
  "\<exists>h t es. es \<noteq> [] \<and> hash_apply h t = Some es \<and> hash_iterate h t = Some es"
proof -
  obtain h where r: "hash_rep h (digit_table 0) (replicate 4 [])" using digit_table_starts by blast
  have e0: "elements (replicate 4 []) = {}" by (simp add: elements_def)
  have "room_for (digit_table 0) X NULL" for X by (simp add: room_for_def fresh_buckets_def)
  from insert_holds [OF r _ _ this, of 512] digit_cells [of 512 0] obtain x h' t' where
    "matches (digit_table 0) {} 512 x" "holds_set (digit_table 0) h' t' (if x = NULL then insert 512 {} else {})"
    unfolding e0 by auto
  then obtain b where i: "hash_rep h' t' b" "512 \<in> elements b" by (auto simp: matches_def holds_set_def split: if_splits)
  from hash_visits_each_once [OF i(1)] obtain es where "hash_apply h' t' = Some es" "hash_iterate h' t' = Some es" "set es = elements b" by blast
  with i(2) show ?thesis by (intro exI [of _ h'] exI [of _ t'] exI [of _ es]) auto
qed

section \<open>Hash functions\<close>

lemma hash_string_loop_run:
  "(\<And>i. i < n \<Longrightarrow> m (s + i) \<noteq> 0) \<Longrightarrow> m (s + n) = 0 \<Longrightarrow> hash_string_loop m s x = Some (hash_bytes_loop m s n x)"
proof (induction n arbitrary: s x)
  case 0
  then show ?case by (subst hash_string_loop.simps) simp
next
  case (Suc n)
  have "m (s + 1 + i) \<noteq> 0" if "i < n" for i using Suc.prems(1) [of "Suc i"] that by simp
  moreover have "m (s + 1 + n) = 0" using Suc.prems(2) by simp
  ultimately show ?case using Suc.IH [of "s + 1"] Suc.prems(1) [of 0] by (subst hash_string_loop.simps) simp
qed

text \<open>The hash of a string is that of its bytes before the terminating zero.\<close>

lemma hash_string_bytes:
  "(\<And>i. i < n \<Longrightarrow> m (s + i) \<noteq> 0) \<Longrightarrow> m (s + n) = 0 \<Longrightarrow> hash_string m s = hash_bytes m s n"
  using hash_string_loop_run [of n m s FNV_32_BASIS] by (simp add: hash_string_def hash_bytes_def)

end
