(* ===== verification/Stdlib.thy ===== *)
theory Stdlib
  imports String_Lib Fixed_Point
begin

text \<open>
  \<^verbatim>\<open>lib/stdlib.c\<close>: the conversion of decimal strings, heap sort and binary search on arrays of bytes.  An
  array with its elements fits in memory, so that no index wraps around.  A comparison gets the memory and
  the addresses of two objects; the auxiliary pointer \<^verbatim>\<open>aux\<close> is part of the comparison.
\<close>

section \<open>Decimal strings (ctype.h, atoi)\<close>

definition isspace :: "byte \<Rightarrow> bool" where
  "isspace c \<longleftrightarrow> c = 32 \<or> c = 12 \<or> c = 10 \<or> c = 13 \<or> c = 9 \<or> c = 11"

definition isdigit :: "byte \<Rightarrow> bool" where
  "isdigit c \<longleftrightarrow> c \<ge> 48 \<and> c \<le> 57"

partial_function (option) skip_space :: "memory \<Rightarrow> addr \<Rightarrow> addr option" where
  "skip_space m s = (if isspace (m s) then skip_space m (s + 1) else Some s)"

partial_function (option) parse_digits :: "memory \<Rightarrow> addr \<Rightarrow> int \<Rightarrow> int option" where
  "parse_digits m s val = (if isdigit (m s) then parse_digits m (s + 1) (int32 (val * 10 - (int (unat (m s)) - 48))) else Some val)"

definition atoi :: "memory \<Rightarrow> addr \<Rightarrow> int option" where
  "atoi m s = do {
     ASSERT (s \<noteq> NULL);
     s \<leftarrow> skip_space m s;
     let (negative, s) = (if m s = 43 then (False, s + 1) else if m s = 45 then (True, s + 1) else (False, s));
     val \<leftarrow> parse_digits m s 0;
     Some (if \<not> negative then int32 (- val) else val)
   }"

section \<open>Heap sort\<close>

type_synonym comparison = "memory \<Rightarrow> addr \<Rightarrow> addr \<Rightarrow> int"

fun swap_bytes :: "memory \<Rightarrow> addr \<Rightarrow> addr \<Rightarrow> nat \<Rightarrow> memory" where
  "swap_bytes m a b 0 = m"
| "swap_bytes m a b (Suc n) = swap_bytes (m(a := m b, b := m a)) (a + 1) (b + 1) n"

definition do_swap :: "memory \<Rightarrow> addr \<Rightarrow> nat \<Rightarrow> nat \<Rightarrow> nat \<Rightarrow> memory" where
  "do_swap m array a_idx b_idx sz = swap_bytes m (array + (a_idx - 1) * sz) (array + (b_idx - 1) * sz) sz"

definition do_compare :: "comparison \<Rightarrow> memory \<Rightarrow> addr \<Rightarrow> nat \<Rightarrow> nat \<Rightarrow> nat \<Rightarrow> int" where
  "do_compare cmp m array a_idx b_idx sz = cmp m (array + (a_idx - 1) * sz) (array + (b_idx - 1) * sz)"

text \<open>The index of the largest element among a node and its children.\<close>

definition largest :: "comparison \<Rightarrow> memory \<Rightarrow> addr \<Rightarrow> nat \<Rightarrow> nat \<Rightarrow> nat \<Rightarrow> nat" where
  "largest cmp m array i cnt sz = (
     let left = 2 * i; right = 2 * i + 1; mx = i;
         mx = (if left \<le> cnt \<and> do_compare cmp m array left mx sz > 0 then left else mx)
     in if right \<le> cnt \<and> do_compare cmp m array right mx sz > 0 then right else mx)"

lemma largest_down: "largest cmp m array i cnt sz \<noteq> i \<Longrightarrow> i < largest cmp m array i cnt sz \<and> largest cmp m array i cnt sz \<le> cnt"
  by (auto simp: largest_def Let_def split: if_splits)

function heapify :: "comparison \<Rightarrow> memory \<Rightarrow> addr \<Rightarrow> nat \<Rightarrow> nat \<Rightarrow> nat \<Rightarrow> memory" where
  "heapify cmp m array i cnt sz = (
     let mx = largest cmp m array i cnt sz
     in if mx = i then m else heapify cmp (do_swap m array i mx sz) array mx cnt sz)"
  by pat_completeness auto
termination
  by (relation "measure (\<lambda>(cmp, m, array, i, cnt, sz). cnt - i)") (use largest_down in \<open>fastforce+\<close>)

declare heapify.simps [simp del]

fun build_heap :: "comparison \<Rightarrow> memory \<Rightarrow> addr \<Rightarrow> nat \<Rightarrow> nat \<Rightarrow> nat \<Rightarrow> memory" where
  "build_heap cmp m array 0 cnt sz = m"
| "build_heap cmp m array (Suc i) cnt sz = build_heap cmp (heapify cmp m array (Suc i) cnt sz) array i cnt sz"

fun sort_heap :: "comparison \<Rightarrow> memory \<Rightarrow> addr \<Rightarrow> nat \<Rightarrow> nat \<Rightarrow> memory" where
  "sort_heap cmp m array i sz =
     (if i > 1 then sort_heap cmp (heapify cmp (do_swap m array 1 i sz) array 1 (i - 1) sz) array (i - 1) sz else m)"

declare sort_heap.simps [simp del]

definition sort_array :: "comparison \<Rightarrow> memory \<Rightarrow> addr \<Rightarrow> nat \<Rightarrow> nat \<Rightarrow> memory option" where
  "sort_array cmp m array cnt sz = do {
     ASSERT (array \<noteq> NULL \<or> cnt = 0);
     ASSERT (sz > 0);
     let m = build_heap cmp m array (cnt div 2) cnt sz;
     Some (sort_heap cmp m array cnt sz)
   }"

text \<open>\<^verbatim>\<open>compare_thunk\<close> calls the comparison that \<^verbatim>\<open>aux\<close> points to.\<close>

definition compare_thunk :: "comparison \<Rightarrow> comparison" where
  "compare_thunk cmp = (\<lambda>m a b. cmp m a b)"

definition qsort :: "comparison \<Rightarrow> memory \<Rightarrow> addr \<Rightarrow> nat \<Rightarrow> nat \<Rightarrow> memory option" where
  "qsort cmp m array cnt sz = sort_array (compare_thunk cmp) m array cnt sz"

section \<open>Binary search\<close>

text \<open>An element size of 0 is a division by zero, which traps.\<close>

partial_function (option) search_loop :: "comparison \<Rightarrow> memory \<Rightarrow> addr \<Rightarrow> addr \<Rightarrow> addr \<Rightarrow> nat \<Rightarrow> addr option" where
  "search_loop cmp m key firstp lastp sz =
     (if firstp < lastp then
        if sz = 0 then None
        else do {
          let rng = (lastp - firstp) div sz;
          let middle = firstp + (rng div 2) * sz;
          let c = cmp m key middle;
          if c < 0 then search_loop cmp m key firstp middle sz
          else if c > 0 then search_loop cmp m key (middle + sz) lastp sz
          else Some middle
        }
      else Some NULL)"

definition binary_search :: "comparison \<Rightarrow> memory \<Rightarrow> addr \<Rightarrow> addr \<Rightarrow> nat \<Rightarrow> nat \<Rightarrow> addr option" where
  "binary_search cmp m key array cnt sz = search_loop cmp m key array (array + sz * cnt) sz"

definition bsearch :: "comparison \<Rightarrow> memory \<Rightarrow> addr \<Rightarrow> addr \<Rightarrow> nat \<Rightarrow> nat \<Rightarrow> addr option" where
  "bsearch cmp m key array cnt sz = binary_search (compare_thunk cmp) m key array cnt sz"

end
