(* ===== verification/Stdlib_Sort.thy ===== *)
theory Stdlib_Sort
  imports Stdlib
begin

text \<open>
  Heap sort and binary search of \<^verbatim>\<open>lib/stdlib.c\<close>: the memory of the array as the list of its elements, the
  heap that \<open>heapify\<close> restores and the order that \<open>sort_heap\<close> builds up from the end.
\<close>

section \<open>The array as a list\<close>

definition elems :: "memory \<Rightarrow> addr \<Rightarrow> nat \<Rightarrow> nat \<Rightarrow> byte list list" where
  "elems m array n sz = map (\<lambda>k. load_bytes m (array + k * sz) sz) [0..<n]"

text \<open>The comparison looks at the bytes of the two elements only, and orders them.\<close>

definition compares_by :: "(byte list \<Rightarrow> byte list \<Rightarrow> int) \<Rightarrow> comparison \<Rightarrow> nat \<Rightarrow> bool" where
  "compares_by c cmp sz \<longleftrightarrow> (\<forall>m a b. cmp m a b = c (load_bytes m a sz) (load_bytes m b sz))"

definition order_like :: "('a \<Rightarrow> 'a \<Rightarrow> int) \<Rightarrow> bool" where
  "order_like c \<longleftrightarrow> (\<forall>x y. c x y > 0 \<longleftrightarrow> c y x < 0) \<and> (\<forall>x y z. c x y \<le> 0 \<longrightarrow> c y z \<le> 0 \<longrightarrow> c x z \<le> 0)"

lemma length_elems [simp]: "length (elems m array n sz) = n"
  and nth_elems [simp]: "k < n \<Longrightarrow> elems m array n sz ! k = load_bytes m (array + k * sz) sz"
  by (simp_all add: elems_def)

lemma do_compare_elems:
  "compares_by c cmp sz \<Longrightarrow> i - 1 < n \<Longrightarrow> j - 1 < n \<Longrightarrow>
   do_compare cmp m array i j sz = c (elems m array n sz ! (i - 1)) (elems m array n sz ! (j - 1))"
  by (simp add: do_compare_def compares_by_def)

section \<open>Swapping\<close>

lemma swap_bytes_run:
  "apart_from a n b n \<Longrightarrow> swap_bytes m a b n x =
    (if a \<le> x \<and> x < a + n then m (b + (x - a)) else if b \<le> x \<and> x < b + n then m (a + (x - b)) else m x)"
proof (induction n arbitrary: m a b)
  case (Suc n)
  have ap: "apart_from (a + 1) n (b + 1) n" using Suc.prems by (auto simp: apart_from_def)
  have ne: "a \<noteq> b" using Suc.prems by (auto simp: apart_from_def)
  define f where "f = m(a := m b, b := m a)"
  have f: "f a = m b" "f b = m a" "\<And>y. y \<noteq> a \<Longrightarrow> y \<noteq> b \<Longrightarrow> f y = m y" using ne by (simp_all add: f_def)
  have step: "swap_bytes m a b (Suc n) x = (if a + 1 \<le> x \<and> x < a + 1 + n then f (b + 1 + (x - (a + 1)))
      else if b + 1 \<le> x \<and> x < b + 1 + n then f (a + 1 + (x - (b + 1))) else f x)"
    unfolding swap_bytes.simps f_def [symmetric] by (rule Suc.IH [OF ap])
  consider "x = a" | "x = b" | "a < x" "x < a + Suc n" | "b < x" "x < b + Suc n"
    | "x < a \<or> a + Suc n \<le> x" "x < b \<or> b + Suc n \<le> x" by linarith
  then show ?case
  proof cases
    case 1
    then show ?thesis unfolding step using Suc.prems f(1) by (auto simp: apart_from_def)
  next
    case 2
    then show ?thesis unfolding step using Suc.prems f(2) by (auto simp: apart_from_def)
  next
    case 3
    then have "b + 1 + (x - (a + 1)) = b + (x - a)" by simp
    moreover have "f (b + (x - a)) = m (b + (x - a))" by (rule f(3)) (use 3 Suc.prems in \<open>auto simp: apart_from_def\<close>)
    ultimately show ?thesis unfolding step using 3 by simp
  next
    case 4
    then have "a + 1 + (x - (b + 1)) = a + (x - b)" by simp
    moreover have "f (a + (x - b)) = m (a + (x - b))" by (rule f(3)) (use 4 Suc.prems in \<open>auto simp: apart_from_def\<close>)
    ultimately show ?thesis unfolding step using 4 Suc.prems by (auto simp: apart_from_def)
  next
    case 5
    then show ?thesis unfolding step using f(3) [of x] by auto
  qed
qed auto

lemma swap_bytes_same: "swap_bytes m a a n = m"
  by (induction n arbitrary: m a) simp_all

lemma slots_apart: "i \<noteq> j \<Longrightarrow> apart_from (array + i * sz) sz (array + j * sz) sz"
proof (cases "i < j")
  case True
  then have "Suc i * sz \<le> j * sz" by (intro mult_le_mono1) simp
  then show ?thesis by (simp add: apart_from_def)
next
  case False
  moreover assume "i \<noteq> j"
  ultimately have "Suc j * sz \<le> i * sz" by (intro mult_le_mono1) simp
  then show ?thesis by (simp add: apart_from_def)
qed

definition swapped :: "'a list \<Rightarrow> nat \<Rightarrow> nat \<Rightarrow> 'a list" where
  "swapped xs i j = xs[j - 1 := xs ! (i - 1), i - 1 := xs ! (j - 1)]"

lemma length_swapped [simp]: "length (swapped xs i j) = length xs"
  by (simp add: swapped_def)

lemma nth_swapped: "1 \<le> i \<Longrightarrow> 1 \<le> j \<Longrightarrow> 1 \<le> k \<Longrightarrow> i \<le> length xs \<Longrightarrow> j \<le> length xs \<Longrightarrow> k \<le> length xs \<Longrightarrow>
    swapped xs i j ! (k - 1) = (if k = i then xs ! (j - 1) else if k = j then xs ! (i - 1) else xs ! (k - 1))"
  by (auto simp: swapped_def nth_list_update)

lemma mset_swapped: "1 \<le> i \<Longrightarrow> 1 \<le> j \<Longrightarrow> i \<le> length xs \<Longrightarrow> j \<le> length xs \<Longrightarrow> mset (swapped xs i j) = mset xs"
  unfolding swapped_def by (rule mset_swap) simp_all

lemma slot_end: "i < n \<Longrightarrow> array + i * sz + sz \<le> array + n * (sz :: nat)"
  using mult_le_mono1 [of "Suc i" n sz] by simp

lemma do_swap_run:
  assumes "1 \<le> i" "i \<le> n" "1 \<le> j" "j \<le> n"
  shows "elems (do_swap m array i j sz) array n sz = swapped (elems m array n sz) i j"
    and "x < array \<or> array + n * sz \<le> x \<Longrightarrow> do_swap m array i j sz x = m x"
proof -
  define a b where "a = i - 1" and "b = j - 1"
  have ab: "a < n" "b < n" using assms by (auto simp: a_def b_def)
  have ds: "do_swap m array i j sz = swap_bytes m (array + a * sz) (array + b * sz) sz" by (simp only: do_swap_def a_def b_def)
  have sw: "swapped xs i j = xs[b := xs ! a, a := xs ! b]" for xs :: "byte list list" by (simp only: swapped_def a_def b_def)
  show "elems (do_swap m array i j sz) array n sz = swapped (elems m array n sz) i j"
  proof (cases "a = b")
    case True
    then show ?thesis using ab by (simp add: ds sw swap_bytes_same)
  next
    case False
    show ?thesis
    proof (rule nth_equalityI)
      fix k assume "k < length (elems (do_swap m array i j sz) array n sz)"
      then have k: "k < n" by simp
      have "load_bytes (swap_bytes m (array + a * sz) (array + b * sz) sz) (array + k * sz) sz =
          load_bytes m (array + (if k = a then b else if k = b then a else k) * sz) sz"
        (is "?l = ?r")
      proof (rule nth_equalityI)
        fix x assume "x < length ?l"
        then have x: "x < sz" by simp
        define A B K where "A = array + a * sz" and "B = array + b * sz" and "K = array + k * sz"
        have AB: "apart_from A sz B sz" using slots_apart [OF False] by (simp add: A_def B_def)
        have KA: "k \<noteq> a \<Longrightarrow> apart_from K sz A sz" "k \<noteq> b \<Longrightarrow> apart_from K sz B sz" "k = a \<Longrightarrow> K = A" "k = b \<Longrightarrow> K = B"
          using slots_apart by (auto simp: A_def B_def K_def)
        have l: "?l ! x = swap_bytes m A B sz (K + x)" and r: "?r ! x = m ((if k = a then B else if k = b then A else K) + x)"
          using x by (simp_all add: A_def B_def K_def)
        show "?l ! x = ?r ! x" unfolding l r swap_bytes_run [OF AB] using x False KA AB
          by (cases "k = a"; cases "k = b") (auto simp: apart_from_def)
      qed simp
      then show "elems (do_swap m array i j sz) array n sz ! k = swapped (elems m array n sz) i j ! k"
        using k ab False by (auto simp: ds sw nth_list_update)
    qed simp
  qed
  show "do_swap m array i j sz x = m x" if x: "x < array \<or> array + n * sz \<le> x"
  proof (cases "a = b")
    case True
    then show ?thesis by (simp add: ds swap_bytes_same)
  next
    case False
    then show ?thesis using x slot_end [OF ab(1), of array sz] slot_end [OF ab(2), of array sz]
      by (auto simp: ds swap_bytes_run [OF slots_apart [OF False]])
  qed
qed

section \<open>Heaps\<close>

text \<open>
  The node \<open>p\<close>, counted from 1, of the heap in the first \<open>n\<close> elements is not smaller than its children; this
  holds from the node \<open>lo\<close> on.
\<close>

definition node_ok :: "('a \<Rightarrow> 'a \<Rightarrow> int) \<Rightarrow> 'a list \<Rightarrow> nat \<Rightarrow> nat \<Rightarrow> bool" where
  "node_ok c xs n p \<longleftrightarrow> (\<forall>q\<in>{2 * p, 2 * p + 1}. q \<le> n \<longrightarrow> c (xs ! (q - 1)) (xs ! (p - 1)) \<le> 0)"

definition heap_from :: "('a \<Rightarrow> 'a \<Rightarrow> int) \<Rightarrow> nat \<Rightarrow> nat \<Rightarrow> 'a list \<Rightarrow> bool" where
  "heap_from c lo n xs \<longleftrightarrow> (\<forall>p\<ge>lo. node_ok c xs n p)"

text \<open>A heap but for the node \<open>i\<close>, whose parent is not smaller than the children of \<open>i\<close>.\<close>

definition heap_but :: "('a \<Rightarrow> 'a \<Rightarrow> int) \<Rightarrow> nat \<Rightarrow> nat \<Rightarrow> nat \<Rightarrow> 'a list \<Rightarrow> bool" where
  "heap_but c lo i n xs \<longleftrightarrow> (\<forall>p\<ge>lo. p \<noteq> i \<longrightarrow> node_ok c xs n p) \<and>
     (\<forall>p\<ge>lo. i \<in> {2 * p, 2 * p + 1} \<longrightarrow> (\<forall>q\<in>{2 * i, 2 * i + 1}. q \<le> n \<longrightarrow> c (xs ! (q - 1)) (xs ! (p - 1)) \<le> 0))"

lemma order_likeD:
  assumes "order_like c"
  shows "c x y > 0 \<longleftrightarrow> c y x < 0" "c x y \<le> 0 \<Longrightarrow> c y z \<le> 0 \<Longrightarrow> c x z \<le> 0" "\<not> c x y > 0 \<Longrightarrow> c x y \<le> 0" "c x x \<le> 0"
    "c x y > 0 \<Longrightarrow> c y x \<le> 0"
proof -
  show "c x y > 0 \<longleftrightarrow> c y x < 0" for x y using assms by (simp add: order_like_def)
  then show "c x x \<le> 0" "c x y > 0 \<Longrightarrow> c y x \<le> 0" by (metis not_less less_imp_le linorder_neqE_linordered_idom order_less_asym, simp add: less_imp_le)
  show "c x y \<le> 0 \<Longrightarrow> c y z \<le> 0 \<Longrightarrow> c x z \<le> 0" using assms unfolding order_like_def by blast
qed simp

text \<open>The child that \<open>heapify\<close> goes down to.\<close>

lemma largest_child:
  assumes c: "compares_by c cmp sz" "order_like c" and i: "1 \<le> i" "i \<le> N" "n \<le> N"
    and xs: "xs = elems m array N sz" and k: "k = largest cmp m array i n sz"
  shows "k = i \<Longrightarrow> node_ok c xs n i"
    and "k \<noteq> i \<Longrightarrow> k \<in> {2 * i, 2 * i + 1} \<and> k \<le> n \<and> c (xs ! (i - 1)) (xs ! (k - 1)) \<le> 0 \<and>
      (\<forall>q\<in>{2 * i, 2 * i + 1}. q \<le> n \<longrightarrow> c (xs ! (q - 1)) (xs ! (k - 1)) \<le> 0)"
proof -
  define f where "f a b = c (xs ! (a - 1)) (xs ! (b - 1))" for a b
  have cmp: "do_compare cmp m array a b sz = f a b" if "1 \<le> a" "1 \<le> b" "a \<le> N" "b \<le> N" for a b
    using do_compare_elems [OF c(1), of a N b m array] that unfolding f_def xs by linarith
  have t: "f x y \<le> 0 \<Longrightarrow> f y z \<le> 0 \<Longrightarrow> f x z \<le> 0" "f x x \<le> 0" "f x y > 0 \<Longrightarrow> f y x \<le> 0" for x y z
    unfolding f_def by (fact order_likeD(2) [OF c(2)], fact order_likeD(4) [OF c(2)], fact order_likeD(5) [OF c(2)])
  have kd: "k = (let mx = (if 2 * i \<le> n \<and> f (2 * i) i > 0 then 2 * i else i)
      in if 2 * i + 1 \<le> n \<and> f (2 * i + 1) mx > 0 then 2 * i + 1 else mx)"
    unfolding k largest_def Let_def using cmp i by auto
  show "node_ok c xs n i" if "k = i"
    using that kd i unfolding node_ok_def f_def [symmetric] by (auto simp: Let_def not_less split: if_splits)
  show "k \<in> {2 * i, 2 * i + 1} \<and> k \<le> n \<and> c (xs ! (i - 1)) (xs ! (k - 1)) \<le> 0 \<and>
      (\<forall>q\<in>{2 * i, 2 * i + 1}. q \<le> n \<longrightarrow> c (xs ! (q - 1)) (xs ! (k - 1)) \<le> 0)" if "k \<noteq> i"
    unfolding f_def [symmetric]
  proof (cases "2 * i \<le> n \<and> f (2 * i) i > 0")
    case l: True
    show "k \<in> {2 * i, 2 * i + 1} \<and> k \<le> n \<and> f i k \<le> 0 \<and> (\<forall>q\<in>{2 * i, 2 * i + 1}. q \<le> n \<longrightarrow> f q k \<le> 0)"
    proof (cases "2 * i + 1 \<le> n \<and> f (2 * i + 1) (2 * i) > 0")
      case True
      then have "k = 2 * i + 1" using kd l by (simp add: Let_def)
      then show ?thesis using True l t(2,3) t(1) [of i "2 * i" "2 * i + 1"] by auto
    next
      case False
      then have "k = 2 * i" using kd l by (auto simp: Let_def)
      then show ?thesis using False l t(2,3) by auto
    qed
  next
    case False
    then have "2 * i + 1 \<le> n \<and> f (2 * i + 1) i > 0" "k = 2 * i + 1" using kd that by (auto simp: Let_def split: if_splits)
    then show "k \<in> {2 * i, 2 * i + 1} \<and> k \<le> n \<and> f i k \<le> 0 \<and> (\<forall>q\<in>{2 * i, 2 * i + 1}. q \<le> n \<longrightarrow> f q k \<le> 0)"
      using False t(2) t(3) [of "2 * i + 1" i] t(1) [of "2 * i" i "2 * i + 1"] by (auto simp: not_less)
  qed
qed

lemma heap_but_down:
  assumes b: "heap_but c lo i n xs" and i: "1 \<le> i" "i \<le> length xs" "lo \<le> i" "1 \<le> lo"
    and k: "k \<in> {2 * i, 2 * i + 1}" "k \<le> n" "n \<le> length xs" "c (xs ! (i - 1)) (xs ! (k - 1)) \<le> 0"
    "\<forall>q\<in>{2 * i, 2 * i + 1}. q \<le> n \<longrightarrow> c (xs ! (q - 1)) (xs ! (k - 1)) \<le> 0"
  shows "heap_but c lo k n (swapped xs i k)"
proof -
  let ?ys = "swapped xs i k"
  have ki: "i < k" "1 \<le> k" "k \<le> length xs" using k(1-3) i(1) by auto
  have at: "?ys ! (p - 1) = (if p = i then xs ! (k - 1) else if p = k then xs ! (i - 1) else xs ! (p - 1))" if "1 \<le> p" "p \<le> length xs" for p
    using nth_swapped [of i k p xs] that i ki by simp
  have "node_ok c ?ys n p" if p: "p \<ge> lo" "p \<noteq> k" for p
    unfolding node_ok_def
  proof (intro ballI impI)
    fix q assume q: "q \<in> {2 * p, 2 * p + 1}" "q \<le> n"
    have pq: "1 \<le> p" "p < q" "q \<le> length xs" "p \<le> length xs" using p(1) i(4) q k(3) by auto
    note ys = at [of p] at [of q]
    consider "p = i" | "p \<noteq> i" "q = i" | "p \<noteq> i" "q \<noteq> i" by blast
    then show "c (?ys ! (q - 1)) (?ys ! (p - 1)) \<le> 0"
    proof cases
      case 1
      then show ?thesis using ys pq q k(4,5) ki by auto
    next
      case 2
      then have "c (xs ! (k - 1)) (xs ! (p - 1)) \<le> 0" using b p(1) q k(1,2) unfolding heap_but_def by blast
      then show ?thesis using ys pq 2 p by auto
    next
      case 3
      have "q \<noteq> k" using 3(1) q(1) k(1) by auto
      moreover have "c (xs ! (q - 1)) (xs ! (p - 1)) \<le> 0" using b p(1) 3(1) q unfolding heap_but_def node_ok_def by blast
      ultimately show ?thesis using ys pq 3 p by auto
    qed
  qed
  moreover have "c (?ys ! (q - 1)) (?ys ! (p - 1)) \<le> 0"
    if p: "p \<ge> lo" "k \<in> {2 * p, 2 * p + 1}" and q: "q \<in> {2 * k, 2 * k + 1}" "q \<le> n" for p q
  proof -
    have "p = i" using p(2) k(1) by auto
    moreover have "c (xs ! (q - 1)) (xs ! (k - 1)) \<le> 0" using b q ki i(3) unfolding heap_but_def node_ok_def by auto
    ultimately show ?thesis using at [of p] at [of q] q ki i k(3) by auto
  qed
  ultimately show ?thesis by (simp add: heap_but_def)
qed

lemma heapify_run:
  assumes "compares_by c cmp sz" "order_like c" "1 \<le> lo" "lo \<le> i" "i \<le> N" "n \<le> N" "heap_but c lo i n (elems m array N sz)"
  shows "heap_from c lo n (elems (heapify cmp m array i n sz) array N sz) \<and>
    mset (elems (heapify cmp m array i n sz) array N sz) = mset (elems m array N sz) \<and>
    drop n (elems (heapify cmp m array i n sz) array N sz) = drop n (elems m array N sz) \<and>
    (\<forall>x. x < array \<or> array + N * sz \<le> x \<longrightarrow> heapify cmp m array i n sz x = m x)"
  using assms
proof (induction cmp m array i n sz rule: heapify.induct)
  case (1 cmp m array i n sz)
  note c = "1.prems"(1,2) and b = "1.prems"(3-7)
  define k where "k = largest cmp m array i n sz"
  let ?xs = "elems m array N sz"
  have i: "1 \<le> i" using b(1,2) by simp
  note child = largest_child [OF c i b(3,4) refl k_def]
  show ?case
  proof (cases "k = i")
    case True
    have "heap_from c lo n ?xs" using child(1) [OF True] b(5) unfolding heap_from_def heap_but_def by metis
    moreover have "heapify cmp m array i n sz = m" using True by (subst heapify.simps) (simp add: k_def Let_def)
    ultimately show ?thesis by simp
  next
    case False
    note k = child(2) [OF False]
    have ki: "i < k" "k \<le> n" "k \<le> N" using k i b(4) by auto
    let ?m = "do_swap m array i k sz"
    have xs: "elems ?m array N sz = swapped ?xs i k" using do_swap_run(1) [of i N k m array sz] i b ki by simp
    have hb: "heap_but c lo k n (elems ?m array N sz)"
      unfolding xs by (rule heap_but_down [OF b(5) i]) (use k b in auto)
    have h: "heapify cmp m array i n sz = heapify cmp ?m array k n sz" using False by (subst heapify.simps) (simp add: k_def Let_def)
    have "lo \<le> k" using b(2) ki(1) by simp
    note IH = "1.IH" [OF k_def False c b(1) this ki(3) b(4) hb]
    have "mset (elems ?m array N sz) = mset ?xs" unfolding xs by (rule mset_swapped) (use i b ki in auto)
    moreover have "drop n (elems ?m array N sz) = drop n ?xs"
      unfolding xs swapped_def using ki i by (simp add: drop_update_cancel)
    moreover have "?m x = m x" if "x < array \<or> array + N * sz \<le> x" for x
      using do_swap_run(2) [of i N k x array sz m] i b ki that by simp
    ultimately show ?thesis unfolding h using IH by simp
  qed
qed

section \<open>Sorting\<close>

lemma build_heap_run:
  assumes "compares_by c cmp sz" "order_like c" "i \<le> n" "heap_from c (Suc i) n (elems m array n sz)"
  shows "heap_from c 1 n (elems (build_heap cmp m array i n sz) array n sz) \<and>
    mset (elems (build_heap cmp m array i n sz) array n sz) = mset (elems m array n sz) \<and>
    (\<forall>x. x < array \<or> array + n * sz \<le> x \<longrightarrow> build_heap cmp m array i n sz x = m x)"
  using assms(3,4)
proof (induction i arbitrary: m)
  case (Suc i)
  have b: "heap_but c (Suc i) (Suc i) n (elems m array n sz)"
    using Suc.prems(2) unfolding heap_but_def heap_from_def by auto
  have r: "heap_from c (Suc i) n (elems (heapify cmp m array (Suc i) n sz) array n sz)"
    "mset (elems (heapify cmp m array (Suc i) n sz) array n sz) = mset (elems m array n sz)"
    "\<forall>x. x < array \<or> array + n * sz \<le> x \<longrightarrow> heapify cmp m array (Suc i) n sz x = m x"
    using heapify_run [OF assms(1,2) _ order_refl Suc.prems(1) order_refl b] by auto
  show ?case using Suc.IH [OF _ r(1)] Suc.prems(1) r(2,3) by simp
qed simp

lemma heap_root:
  assumes "order_like c" "heap_from c 1 n xs"
  shows "1 \<le> k \<Longrightarrow> k \<le> n \<Longrightarrow> c (xs ! (k - 1)) (xs ! 0) \<le> 0"
proof (induction k rule: less_induct)
  case (less k)
  show ?case
  proof (cases "k = 1")
    case True
    then show ?thesis using order_likeD(4) [OF assms(1)] by simp
  next
    case False
    define p where "p = k div 2"
    have p: "1 \<le> p" "p < k" "k \<in> {2 * p, 2 * p + 1}" using less.prems False by (auto simp: p_def)
    then have "c (xs ! (k - 1)) (xs ! (p - 1)) \<le> 0" using assms(2) less.prems(2) unfolding heap_from_def node_ok_def by blast
    moreover have "c (xs ! (p - 1)) (xs ! 0) \<le> 0" using less.IH [OF p(2,1)] p(2) less.prems(2) by simp
    ultimately show ?thesis by (rule order_likeD(2) [OF assms(1)])
  qed
qed

text \<open>
  While the array is being sorted, its first \<open>i\<close> elements are a heap and the others are in their final places.
\<close>

definition half_sorted :: "('a \<Rightarrow> 'a \<Rightarrow> int) \<Rightarrow> nat \<Rightarrow> 'a list \<Rightarrow> bool" where
  "half_sorted c i xs \<longleftrightarrow> heap_from c 1 i xs \<and> sorted_wrt (\<lambda>x y. c x y \<le> 0) (drop i xs) \<and>
     (\<forall>x\<in>set (take i xs). \<forall>y\<in>set (drop i xs). c x y \<le> 0)"

lemma mset_take_same: "mset ys = mset xs \<Longrightarrow> drop n ys = drop n xs \<Longrightarrow> mset (take n ys) = mset (take n xs)"
proof -
  assume m: "mset ys = mset xs" "drop n ys = drop n xs"
  have "mset (take n ys) + mset (drop n ys) = mset (take n xs) + mset (drop n xs)"
    using m(1) by (metis append_take_drop_id mset_append)
  with m(2) show ?thesis by simp
qed

lemma half_sorted_step:
  assumes c: "order_like c" and i: "1 < i" "i \<le> length xs" and h: "half_sorted c i xs"
    and ys: "heap_from c 1 (i - 1) ys" "mset ys = mset (swapped xs 1 i)" "drop (i - 1) ys = drop (i - 1) (swapped xs 1 i)"
  shows "half_sorted c (i - 1) ys"
proof -
  let ?zs = "swapped xs 1 i"
  have z: "?zs ! (i - 1) = xs ! 0" using i by (simp add: swapped_def nth_list_update)
  have d: "drop (i - 1) ?zs = xs ! 0 # drop i xs"
  proof -
    have "drop i ?zs = drop i xs" unfolding swapped_def using i by (simp add: drop_update_cancel)
    then show ?thesis using Cons_nth_drop_Suc [of "i - 1" ?zs] z i by simp
  qed
  have "mset (take (i - 1) ys) = mset (take (i - 1) ?zs)" using ys(2,3) by (rule mset_take_same)
  then have set: "set (take (i - 1) ys) = set (take (i - 1) ?zs)" by (rule mset_eq_setD)
  have sub: "set (take (i - 1) ?zs) \<subseteq> set (take i xs)"
  proof
    fix x assume "x \<in> set (take (i - 1) ?zs)"
    then obtain k where k: "k < i - 1" "x = ?zs ! k" using i by (auto simp: in_set_conv_nth)
    moreover have "xs \<noteq> []" using i by auto
    ultimately have "x = xs ! (if k = 0 then i - 1 else k)" using i by (auto simp: swapped_def nth_list_update)
    then show "x \<in> set (take i xs)" using i k(1) by (auto simp: in_set_conv_nth intro!: exI [of _ "if k = 0 then i - 1 else k"])
  qed
  have root: "c x (xs ! 0) \<le> 0" if "x \<in> set (take i xs)" for x
  proof -
    from that obtain k where "k < i" "x = xs ! k" using i by (auto simp: in_set_conv_nth)
    then show ?thesis using heap_root [OF c, of i xs "Suc k"] h by (simp add: half_sorted_def)
  qed
  have "xs ! 0 \<in> set (take i xs)" using i by (auto simp: in_set_conv_nth intro!: exI [of _ 0])
  then have low: "\<forall>y\<in>set (drop i xs). c (xs ! 0) y \<le> 0" using h by (simp add: half_sorted_def)
  have "sorted_wrt (\<lambda>x y. c x y \<le> 0) (drop (i - 1) ys)"
    unfolding ys(3) d using h low by (simp add: half_sorted_def)
  moreover have "c x y \<le> 0" if "x \<in> set (take (i - 1) ys)" "y \<in> set (drop (i - 1) ys)" for x y
  proof -
    have x: "x \<in> set (take i xs)" using that(1) set sub by blast
    from that(2) consider "y = xs ! 0" | "y \<in> set (drop i xs)" unfolding ys(3) d by auto
    then show ?thesis using root [OF x] x h by cases (simp_all add: half_sorted_def)
  qed
  ultimately show ?thesis using ys(1) unfolding half_sorted_def by blast
qed

lemma sort_heap_run:
  assumes "compares_by c cmp sz" "order_like c" "i \<le> n" "half_sorted c i (elems m array n sz)"
  shows "half_sorted c (min i 1) (elems (sort_heap cmp m array i sz) array n sz) \<and>
    mset (elems (sort_heap cmp m array i sz) array n sz) = mset (elems m array n sz) \<and>
    (\<forall>x. x < array \<or> array + n * sz \<le> x \<longrightarrow> sort_heap cmp m array i sz x = m x)"
  using assms(3,4)
proof (induction i arbitrary: m)
  case 0
  then show ?case by (subst (1 2 3) sort_heap.simps) simp
next
  case (Suc i)
  show ?case
  proof (cases "i = 0")
    case True
    then show ?thesis using Suc.prems by (subst (1 2 3) sort_heap.simps) simp
  next
    case False
    then have i: "1 < Suc i" by simp
    let ?xs = "elems m array n sz" and ?m = "do_swap m array 1 (Suc i) sz"
    have sw: "elems ?m array n sz = swapped ?xs 1 (Suc i)" using do_swap_run(1) [of 1 n "Suc i"] Suc.prems(1) by simp
    have at: "swapped ?xs 1 (Suc i) ! (k - 1) = ?xs ! (k - 1)" if "1 < k" "k \<le> i" for k
      using nth_swapped [of 1 "Suc i" k ?xs] that Suc.prems(1) by simp
    have hb: "heap_but c 1 1 i (elems ?m array n sz)"
      unfolding sw heap_but_def node_ok_def
    proof (intro conjI allI impI ballI)
      fix p q assume pq: "1 \<le> p" "p \<noteq> 1" "q \<in> {2 * p, 2 * p + 1}" "q \<le> i"
      then have "1 < p" "p \<le> i" "1 < q" by auto
      moreover have "c (?xs ! (q - 1)) (?xs ! (p - 1)) \<le> 0"
        using Suc.prems(2) pq unfolding half_sorted_def heap_from_def node_ok_def by auto
      ultimately show "c (swapped ?xs 1 (Suc i) ! (q - 1)) (swapped ?xs 1 (Suc i) ! (p - 1)) \<le> 0"
        using at pq(4) by simp
    qed auto
    have n: "1 \<le> n" "i \<le> n" using Suc.prems(1) by simp_all
    note r = heapify_run [OF assms(1,2) order_refl order_refl n hb]
    let ?m' = "heapify cmp ?m array 1 i sz"
    have half: "half_sorted c (Suc i - 1) (elems ?m' array n sz)"
      by (rule half_sorted_step [OF assms(2) i _ Suc.prems(2)]) (use r Suc.prems(1) in \<open>simp_all add: sw [unfolded One_nat_def]\<close>)
    have step: "sort_heap cmp m array (Suc i) sz = sort_heap cmp ?m' array i sz" using False by (subst sort_heap.simps) simp
    have "mset (elems ?m array n sz) = mset ?xs" unfolding sw using Suc.prems(1) by (intro mset_swapped) simp_all
    moreover have "?m x = m x" if "x < array \<or> array + n * sz \<le> x" for x
      using do_swap_run(2) [of 1 n "Suc i" x array sz m] Suc.prems(1) that by simp
    moreover have "half_sorted c i (elems ?m' array n sz)" using half by simp
    ultimately show ?thesis unfolding step using Suc.IH [OF n(2), of ?m'] r False by simp
  qed
qed

text \<open>The whole sort.\<close>

lemma sort_array_run:
  assumes c: "compares_by c cmp sz" "order_like c" and "array \<noteq> NULL \<or> n = 0" "sz > 0"
  obtains m' where "sort_array cmp m array n sz = Some m'" "mset (elems m' array n sz) = mset (elems m array n sz)"
    "sorted_wrt (\<lambda>x y. c x y \<le> 0) (elems m' array n sz)" "\<And>x. x < array \<or> array + n * sz \<le> x \<Longrightarrow> m' x = m x"
proof -
  let ?m1 = "build_heap cmp m array (n div 2) n sz"
  let ?m2 = "sort_heap cmp ?m1 array n sz"
  have "heap_from c (Suc (n div 2)) n (elems m array n sz)" by (auto simp: heap_from_def node_ok_def)
  note b = build_heap_run [OF c _ this]
  have "half_sorted c n (elems ?m1 array n sz)" using b by (simp add: half_sorted_def)
  note s = sort_heap_run [OF c order_refl this]
  have "sorted_wrt (\<lambda>x y. c x y \<le> 0) (elems ?m2 array n sz)"
  proof (cases n)
    case 0
    then show ?thesis by (simp add: elems_def)
  next
    case (Suc k)
    let ?ys = "elems ?m2 array n sz"
    obtain y ys where ys: "?ys = y # ys" using Suc by (cases ?ys) (use length_elems [of ?m2 array n sz] in auto)
    have "half_sorted c 1 ?ys" using s Suc by simp
    then show ?thesis unfolding ys half_sorted_def by simp
  qed
  then show thesis using b s assms(3,4) by (intro that [of ?m2]) (auto simp: sort_array_def Let_def)
qed

section \<open>Binary search\<close>

text \<open>The order of the array relative to the key.\<close>

definition ordered_for :: "comparison \<Rightarrow> memory \<Rightarrow> addr \<Rightarrow> addr \<Rightarrow> nat \<Rightarrow> nat \<Rightarrow> bool" where
  "ordered_for cmp m key array n sz \<longleftrightarrow> (\<forall>i j. i < j \<longrightarrow> j < n \<longrightarrow>
     (cmp m key (array + j * sz) > 0 \<longrightarrow> cmp m key (array + i * sz) > 0) \<and>
     (cmp m key (array + i * sz) < 0 \<longrightarrow> cmp m key (array + j * sz) < 0))"

lemma search_loop_run:
  assumes sz: "sz > 0" and array: "array \<noteq> NULL" and o: "ordered_for cmp m key array n sz"
  shows "a \<le> b \<Longrightarrow> b \<le> n \<Longrightarrow> (\<And>k. k < a \<Longrightarrow> cmp m key (array + k * sz) > 0) \<Longrightarrow> (\<And>k. b \<le> k \<Longrightarrow> k < n \<Longrightarrow> cmp m key (array + k * sz) < 0) \<Longrightarrow>
    \<exists>x. search_loop cmp m key (array + a * sz) (array + b * sz) sz = Some x \<and>
      (if x = NULL then \<forall>k<n. cmp m key (array + k * sz) \<noteq> 0 else \<exists>k<n. x = array + k * sz \<and> cmp m key x = 0)"
proof (induction "b - a" arbitrary: a b rule: less_induct)
  case less
  show ?case
  proof (cases "a < b")
    case False
    then have "cmp m key (array + k * sz) \<noteq> 0" if "k < n" for k
      using less.prems(3) [of k] less.prems(4) [of k] that less.prems(1) by (cases "k < a") force+
    then show ?thesis using False less.prems(1) by (subst search_loop.simps) simp
  next
    case True
    define mid where "mid = a + (b - a) div 2"
    have mid: "a \<le> mid" "mid < b" using True by (auto simp: mid_def)
    have lt: "array + a * sz < array + b * sz" using True sz by simp
    have "(array + b * sz - (array + a * sz)) div sz = b - a" using sz by (simp add: diff_mult_distrib [symmetric])
    then have m: "array + a * sz + ((array + b * sz - (array + a * sz)) div sz div 2) * sz = array + mid * sz"
      by (simp add: mid_def algebra_simps)
    have step: "search_loop cmp m key (array + a * sz) (array + b * sz) sz =
       (let c = cmp m key (array + mid * sz) in
        if c < 0 then search_loop cmp m key (array + a * sz) (array + mid * sz) sz
        else if c > 0 then search_loop cmp m key (array + Suc mid * sz) (array + b * sz) sz else Some (array + mid * sz))"
      using lt sz by (subst search_loop.simps) (simp only: m Let_def, simp add: ac_simps)
    consider "cmp m key (array + mid * sz) < 0" | "cmp m key (array + mid * sz) > 0" | "cmp m key (array + mid * sz) = 0" by linarith
    then show ?thesis
    proof cases
      case 1
      have "cmp m key (array + k * sz) < 0" if "mid \<le> k" "k < n" for k
      proof (cases "mid < k")
        case True
        then show ?thesis using o 1 that unfolding ordered_for_def by blast
      qed (use 1 that in simp)
      then show ?thesis unfolding step using 1 less.hyps [of mid a] mid less.prems by (simp add: Let_def)
    next
      case 2
      have "mid < n" using mid less.prems(2) by simp
      have "cmp m key (array + k * sz) > 0" if "k < Suc mid" for k
      proof (cases "k < mid")
        case True
        then show ?thesis using o 2 \<open>mid < n\<close> unfolding ordered_for_def by blast
      next
        case False
        then have "k = mid" using that by simp
        with 2 show ?thesis by simp
      qed
      have n: "\<not> cmp m key (array + mid * sz) < 0" using 2 by simp
      show ?thesis unfolding step Let_def if_not_P [OF n] if_P [OF 2]
        by (rule less.hyps) (use mid less.prems \<open>\<And>k. k < Suc mid \<Longrightarrow> cmp m key (array + k * sz) > 0\<close> in auto)
    next
      case 3
      have n: "\<not> cmp m key (array + mid * sz) < 0" "\<not> cmp m key (array + mid * sz) > 0" "array + mid * sz \<noteq> NULL" "mid < n"
        using 3 array mid less.prems(2) by simp_all
      show ?thesis unfolding step Let_def if_not_P [OF n(1)] if_not_P [OF n(2)]
        using 3 n(4) by (intro exI [of _ "array + mid * sz"] conjI refl) (simp only: if_not_P [OF n(3)], blast)
    qed
  qed
qed

end
