(* ===== verification/Stdlib_Properties.thy ===== *)
theory Stdlib_Properties
  imports Stdlib_Sort
begin

text \<open>The properties of sorting and searching.\<close>

section \<open>Sorting and searching\<close>

text \<open>
  C24: \<^verbatim>\<open>sort\<close> returns for every array of elements that the comparison orders like \<^verbatim>\<open>strcmp\<close>: the array then
  has the same elements with the same multiplicities, in ascending order, and no byte outside it has changed.
\<close>

theorem sort_array_sorts:
  assumes "compares_by c cmp sz" "order_like c" "array \<noteq> NULL \<or> n = 0" "sz > 0"
  shows "\<exists>m'. sort_array cmp m array n sz = Some m' \<and> mset (elems m' array n sz) = mset (elems m array n sz) \<and>
    sorted_wrt (\<lambda>x y. c x y \<le> 0) (elems m' array n sz) \<and> (\<forall>x. x < array \<or> array + n * sz \<le> x \<longrightarrow> m' x = m x)"
  by (rule sort_array_run [OF assms, of m]) blast

text \<open>Bytes in ascending order.\<close>

definition byte_order :: "byte list \<Rightarrow> byte list \<Rightarrow> int" where
  "byte_order x y = int (unat (hd x)) - int (unat (hd y))"

definition byte_cmp :: comparison where
  "byte_cmp m a b = byte_order (load_bytes m a 1) (load_bytes m b 1)"

lemma byte_cmp_order: "compares_by byte_order byte_cmp 1" "order_like byte_order"
  by (auto simp: compares_by_def byte_cmp_def order_like_def byte_order_def)

theorem sort_array_sorts_witness:
  "\<exists>m'. sort_array byte_cmp (store_bytes (\<lambda>_. 0) 16 [3, 1, 2]) 16 3 1 = Some m' \<and>
    mset (elems m' 16 3 1) = {#[3], [1], [2]#} \<and> sorted_wrt (\<lambda>x y. byte_order x y \<le> 0) (elems m' 16 3 1)"
proof -
  have "elems (store_bytes (\<lambda>_. 0) 16 [3, 1, 2]) 16 3 1 = [[3], [1], [2]]"
    by (simp add: elems_def load_bytes_def store_bytes_def numeral_3_eq_3)
  then show ?thesis using sort_array_sorts [OF byte_cmp_order, of 16 3 "store_bytes (\<lambda>_. 0) 16 [3, 1, 2]"] by auto
qed

text \<open>
  C27: an array that \<^verbatim>\<open>qsort\<close> has sorted can be searched: \<^verbatim>\<open>bsearch\<close> returns for every key, a null pointer if no
  element of the unsorted array was equal to the key, otherwise the address of an element equal to it.
\<close>

theorem sorted_array_searchable:
  assumes c: "compares_by c cmp sz" "order_like c" and a: "array \<noteq> NULL" "sz > 0" and key: "apart_from key sz array (n * sz)"
  shows "\<exists>m' x. qsort cmp m array n sz = Some m' \<and> bsearch cmp m' key array n sz = Some x \<and>
    (if x = NULL then \<forall>e\<in>set (elems m array n sz). c (load_bytes m key sz) e \<noteq> 0
     else \<exists>k<n. x = array + k * sz \<and> c (load_bytes m key sz) (elems m' array n sz ! k) = 0)"
proof -
  obtain m' where m': "sort_array cmp m array n sz = Some m'" "mset (elems m' array n sz) = mset (elems m array n sz)"
    "sorted_wrt (\<lambda>x y. c x y \<le> 0) (elems m' array n sz)" "\<And>x. x < array \<or> array + n * sz \<le> x \<Longrightarrow> m' x = m x"
    using sort_array_run [OF c, of array n m] a by auto
  define kb where "kb = load_bytes m key sz"
  have kb: "load_bytes m' key sz = kb" unfolding kb_def
    by (rule nth_equalityI) (use key in \<open>auto simp: apart_from_def intro!: m'(4)\<close>)
  have cmp: "cmp m' key (array + k * sz) = c kb (elems m' array n sz ! k)" if "k < n" for k
    using c(1) that by (simp add: compares_by_def kb)
  have o: "ordered_for cmp m' key array n sz"
    unfolding ordered_for_def
  proof (intro allI impI)
    fix i j :: nat assume ij: "i < j" "j < n"
    then have le: "c (elems m' array n sz ! i) (elems m' array n sz ! j) \<le> 0" using m'(3) by (simp add: sorted_wrt_iff_nth_less)
    define x y where "x = elems m' array n sz ! i" and "y = elems m' array n sz ! j"
    note t = order_likeD [OF c(2)]
    have "c kb y > 0 \<Longrightarrow> c kb x > 0" using t(1,2,3) le unfolding x_def [symmetric] y_def [symmetric] by (metis not_less)
    moreover have "c kb x < 0 \<Longrightarrow> c kb y < 0" using t(1,2,3) le unfolding x_def [symmetric] y_def [symmetric] by (metis not_less)
    ultimately show "(0 < cmp m' key (array + j * sz) \<longrightarrow> 0 < cmp m' key (array + i * sz)) \<and>
        (cmp m' key (array + i * sz) < 0 \<longrightarrow> cmp m' key (array + j * sz) < 0)"
      using cmp ij by (simp add: x_def y_def)
  qed
  obtain x where x: "search_loop cmp m' key (array + 0 * sz) (array + n * sz) sz = Some x"
    "if x = NULL then \<forall>k<n. cmp m' key (array + k * sz) \<noteq> 0 else \<exists>k<n. x = array + k * sz \<and> cmp m' key x = 0"
    using search_loop_run [OF a(2,1) o, of 0 n] by auto
  have th: "compare_thunk cmp = cmp" by (simp add: compare_thunk_def)
  have run: "bsearch cmp m' key array n sz = Some x" using x(1) by (simp add: bsearch_def binary_search_def th mult.commute)
  have "set (elems m array n sz) = set (elems m' array n sz)" using m'(2) by (metis set_mset_mset)
  then have "if x = NULL then \<forall>e\<in>set (elems m array n sz). c kb e \<noteq> 0 else \<exists>k<n. x = array + k * sz \<and> c kb (elems m' array n sz ! k) = 0"
    using x(2) cmp by (auto simp: in_set_conv_nth split: if_splits)
  then show ?thesis using m'(1) run by (auto simp: qsort_def th kb_def)
qed

theorem sorted_array_searchable_witness:
  "\<exists>m' x. qsort byte_cmp (store_bytes (\<lambda>_. 2) 16 [3, 1, 2]) 16 3 1 = Some m' \<and> bsearch byte_cmp m' 8 16 3 1 = Some x \<and> x \<noteq> NULL"
proof -
  let ?m = "store_bytes (\<lambda>_. 2) 16 [3, 1, 2] :: memory"
  have e: "elems ?m 16 3 1 = [[3], [1], [2]]" "load_bytes ?m 8 1 = [2]"
    by (simp_all add: elems_def load_bytes_def store_bytes_def numeral_3_eq_3)
  have "apart_from 8 1 16 (3 * 1)" by (simp add: apart_from_def)
  from sorted_array_searchable [OF byte_cmp_order _ _ this, of ?m] obtain m' x where
    "qsort byte_cmp ?m 16 3 1 = Some m'" "bsearch byte_cmp m' 8 16 3 1 = Some x" "x = NULL \<longrightarrow> (\<forall>e\<in>{[3], [1], [2]}. byte_order [2] e \<noteq> 0)"
    unfolding e by (auto split: if_splits)
  moreover have "byte_order [2] [2] = 0" by (simp add: byte_order_def)
  ultimately show ?thesis by blast
qed

end
