(* ===== verification/Stdio.thy ===== *)
theory Stdio
  imports Stdlib
begin

text \<open>
  \<^verbatim>\<open>lib/stdio.c\<close>: formatted output.  A format is the list of its characters before the terminating null; its
  empty rest is the position of the null, and a step beyond it leaves the string (\<open>None\<close>).  The
  arguments are the 32-bit words on the stack from \<^verbatim>\<open>va_list\<close> on; an argument that was not passed is \<open>None\<close>, too.
  The output function and its auxiliary data are an \<open>out_fn\<close>: a state, the memory in it, and how it changes
  with a character.
\<close>

unbundle bit_operations_syntax

section \<open>Characters and arguments\<close>

abbreviation ascii :: "string \<Rightarrow> byte list" where "ascii s \<equiv> map of_char s"

record 's out_fn =
  mem_of :: "'s \<Rightarrow> memory"
  putc :: "byte \<Rightarrow> 's \<Rightarrow> 's"

definition cur :: "byte list \<Rightarrow> byte" where
  "cur f = (case f of [] \<Rightarrow> 0 | c # _ \<Rightarrow> c)"

definition advance :: "byte list \<Rightarrow> byte list option" where
  "advance f = (case f of [] \<Rightarrow> None | _ # g \<Rightarrow> Some g)"

definition va_word :: "u32 list \<Rightarrow> (u32 \<times> u32 list) option" where
  "va_word args = (case args of [] \<Rightarrow> None | w # r \<Rightarrow> Some (w, r))"

definition va_int :: "u32 list \<Rightarrow> (int \<times> u32 list) option" where
  "va_int args = do { (w, args) \<leftarrow> va_word args; Some (sint w, args) }"

text \<open>A 64-bit argument takes two words, the low one first.\<close>

definition va_wide :: "u32 list \<Rightarrow> (64 word \<times> u32 list) option" where
  "va_wide args = do {
     (lo, args) \<leftarrow> va_word args;
     (hi, args) \<leftarrow> va_word args;
     Some (push_bit 32 (ucast hi) OR ucast lo, args)
   }"

section \<open>Conversions\<close>

definition MINUS :: u32 where "MINUS = 1"
definition PLUS :: u32 where "PLUS = 2"
definition SPACE :: u32 where "SPACE = 4"
definition POUND :: u32 where "POUND = 8"
definition ZERO :: u32 where "ZERO = 16"
definition GROUP :: u32 where "GROUP = 32"

datatype arg_type = TypeChar | TypeShort | TypeInt | TypeIntmax | TypeLong | TypeLongLong | TypePtrDiff | TypeSize

record printf_conversion =
  conv_flags :: u32
  conv_width :: int
  conv_prec :: int
  conv_type :: arg_type

record integer_base =
  ib_base :: nat
  ib_digits :: "byte list"
  ib_x :: byte
  ib_group :: nat

definition base_d :: integer_base where
  "base_d = \<lparr>ib_base = 10, ib_digits = ascii ''0123456789'', ib_x = 0, ib_group = 3\<rparr>"
definition base_o :: integer_base where
  "base_o = \<lparr>ib_base = 8, ib_digits = ascii ''01234567'', ib_x = 0, ib_group = 3\<rparr>"
definition base_x :: integer_base where
  "base_x = \<lparr>ib_base = 16, ib_digits = ascii ''0123456789abcdef'', ib_x = of_char CHR ''x'', ib_group = 4\<rparr>"
definition base_X :: integer_base where
  "base_X = \<lparr>ib_base = 16, ib_digits = ascii ''0123456789ABCDEF'', ib_x = of_char CHR ''X'', ib_group = 4\<rparr>"

fun parse_flags :: "byte list \<Rightarrow> u32 \<Rightarrow> u32 \<times> byte list" where
  "parse_flags [] fl = (fl, [])"
| "parse_flags (c # f) fl =
     (if c = of_char CHR ''-'' then parse_flags f (fl OR MINUS)
      else if c = of_char CHR ''+'' then parse_flags f (fl OR PLUS)
      else if c = of_char CHR '' '' then parse_flags f (fl OR SPACE)
      else if c = of_char CHR ''#'' then parse_flags f (fl OR POUND)
      else if c = of_char CHR ''0'' then parse_flags f (fl OR ZERO)
      else if c = of_char CHR 0x27 then parse_flags f (fl OR GROUP)
      else (fl, c # f))"

fun parse_number :: "byte list \<Rightarrow> int \<Rightarrow> int \<times> byte list" where
  "parse_number [] n = (n, [])"
| "parse_number (c # f) n = (if isdigit c then parse_number f (int32 (n * 10 + int (unat c) - 48)) else (n, c # f))"

definition parse_width :: "byte list \<Rightarrow> u32 \<Rightarrow> u32 list \<Rightarrow> (int \<times> u32 \<times> byte list \<times> u32 list) option" where
  "parse_width f fl args = do {
     (w, f, args) \<leftarrow>
       (if cur f = of_char CHR ''*'' then do { f \<leftarrow> advance f; (w, args) \<leftarrow> va_int args; Some (w, f, args) }
        else let (w, f) = parse_number f 0 in Some (w, f, args));
     Some (if w < 0 then (int32 (- w), fl OR MINUS, f, args) else (w, fl, f, args))
   }"

definition parse_precision :: "byte list \<Rightarrow> u32 list \<Rightarrow> (int \<times> byte list \<times> u32 list) option" where
  "parse_precision f args =
     (if cur f = of_char CHR ''.'' then do {
        f \<leftarrow> advance f;
        (p, f, args) \<leftarrow>
          (if cur f = of_char CHR ''*'' then do { f \<leftarrow> advance f; (p, args) \<leftarrow> va_int args; Some (p, f, args) }
           else let (p, f) = parse_number f 0 in Some (p, f, args));
        Some (if p < 0 then - 1 else p, f, args)
      } else Some (- 1, f, args))"

definition parse_type :: "byte list \<Rightarrow> arg_type \<times> byte list" where
  "parse_type f = (case f of [] \<Rightarrow> (TypeInt, [])
     | c # g \<Rightarrow>
         if c = of_char CHR ''h'' then (if cur g = of_char CHR ''h'' then (TypeChar, tl g) else (TypeShort, g))
         else if c = of_char CHR ''j'' then (TypeIntmax, g)
         else if c = of_char CHR ''l'' then (if cur g = of_char CHR ''l'' then (TypeLongLong, tl g) else (TypeLong, g))
         else if c = of_char CHR ''t'' then (TypePtrDiff, g)
         else if c = of_char CHR ''z'' then (TypeSize, g)
         else (TypeInt, f))"

definition parse_conversion :: "byte list \<Rightarrow> u32 list \<Rightarrow> (printf_conversion \<times> byte list \<times> u32 list) option" where
  "parse_conversion f args = do {
     let (fl, f) = parse_flags f 0;
     let fl = (if fl AND MINUS \<noteq> 0 then fl AND NOT ZERO else fl);
     let fl = (if fl AND PLUS \<noteq> 0 then fl AND NOT SPACE else fl);
     (w, fl, f, args) \<leftarrow> parse_width f fl args;
     (p, f, args) \<leftarrow> parse_precision f args;
     let fl = (if p \<ge> 0 then fl AND NOT ZERO else fl);
     let (ty, f) = parse_type f;
     Some (\<lparr>conv_flags = fl, conv_width = w, conv_prec = p, conv_type = ty\<rparr>, f, args)
   }"

section \<open>Output\<close>

definition put_all :: "'s out_fn \<Rightarrow> byte list \<Rightarrow> 's \<Rightarrow> 's" where
  "put_all io bs st = fold (putc io) bs st"

definition output_dup :: "'s out_fn \<Rightarrow> byte \<Rightarrow> nat \<Rightarrow> 's \<Rightarrow> 's" where
  "output_dup io ch cnt st = put_all io (replicate cnt ch) st"

text \<open>The buffer of \<^verbatim>\<open>format_integer\<close> has 64 characters; a character after them is written outside.\<close>

definition push :: "byte list \<Rightarrow> byte \<Rightarrow> byte list option" where
  "push buf c = (if length buf < 64 then Some (buf @ [c]) else None)"

partial_function (option) digits_loop :: "integer_base \<Rightarrow> u32 \<Rightarrow> nat \<Rightarrow> nat \<Rightarrow> byte list \<Rightarrow> byte list option" where
  "digits_loop b fl val digit_cnt buf =
     (if val > 0 then do {
        buf \<leftarrow> (if fl AND GROUP \<noteq> 0 \<and> digit_cnt > 0 \<and> digit_cnt mod ib_group b = 0 then push buf (of_char CHR '','') else Some buf);
        buf \<leftarrow> push buf (ib_digits b ! (val mod ib_base b));
        digits_loop b fl (val div ib_base b) (digit_cnt + 1) buf
      } else Some buf)"

function zeros_loop :: "int \<Rightarrow> byte list \<Rightarrow> byte list" where
  "zeros_loop p buf = (if int (length buf) < p \<and> length buf < 63 then zeros_loop p (buf @ [of_char CHR ''0'']) else buf)"
  by pat_completeness auto
termination
  by (relation "measure (\<lambda>(p, buf). nat (p - int (length buf)))") auto

declare zeros_loop.simps [simp del]

definition sign_char :: "bool \<Rightarrow> bool \<Rightarrow> u32 \<Rightarrow> byte" where
  "sign_char is_signed negative fl =
     (if is_signed then
        if fl AND PLUS \<noteq> 0 then (if negative then of_char CHR ''-'' else of_char CHR ''+'')
        else if fl AND SPACE \<noteq> 0 then (if negative then of_char CHR ''-'' else of_char CHR '' '')
        else if negative then of_char CHR ''-'' else 0
      else 0)"

definition integer_digits :: "nat \<Rightarrow> integer_base \<Rightarrow> printf_conversion \<Rightarrow> byte list option" where
  "integer_digits val b c = do {
     buf \<leftarrow> digits_loop b (conv_flags c) val 0 [];
     let p = (if conv_prec c < 0 then 1 else conv_prec c);
     let buf = zeros_loop p buf;
     if conv_flags c AND POUND \<noteq> 0 \<and> ib_base b = 8 \<and> (buf = [] \<or> last buf \<noteq> of_char CHR ''0'') then push buf (of_char CHR ''0'')
     else Some buf
   }"

definition format_integer :: "'s out_fn \<Rightarrow> nat \<Rightarrow> bool \<Rightarrow> bool \<Rightarrow> integer_base \<Rightarrow> printf_conversion \<Rightarrow> 's \<Rightarrow> 's option" where
  "format_integer io val is_signed negative b c st = do {
     let sign = sign_char is_signed negative (conv_flags c);
     let x = (if conv_flags c AND POUND \<noteq> 0 \<and> val \<noteq> 0 then ib_x b else 0);
     buf \<leftarrow> integer_digits val b c;
     let pad = int32 (conv_width c - int (length buf) - (if x \<noteq> 0 then 2 else 0) - (if sign \<noteq> 0 then 1 else 0));
     let pad_cnt = nat (if pad < 0 then 0 else pad);
     let st = (if conv_flags c AND (MINUS OR ZERO) = 0 then output_dup io (of_char CHR '' '') pad_cnt st else st);
     let st = (if sign \<noteq> 0 then putc io sign st else st);
     let st = (if x \<noteq> 0 then putc io x (putc io (of_char CHR ''0'') st) else st);
     let st = (if conv_flags c AND ZERO \<noteq> 0 then output_dup io (of_char CHR ''0'') pad_cnt st else st);
     let st = put_all io (rev buf) st;
     Some (if conv_flags c AND MINUS \<noteq> 0 then output_dup io (of_char CHR '' '') pad_cnt st else st)
   }"

fun put_string :: "'s out_fn \<Rightarrow> addr \<Rightarrow> nat \<Rightarrow> 's \<Rightarrow> 's" where
  "put_string io s 0 st = st"
| "put_string io s (Suc n) st = put_string io (s + 1) n (putc io (mem_of io st s) st)"

definition format_string :: "'s out_fn \<Rightarrow> ('s \<Rightarrow> 's) \<Rightarrow> int \<Rightarrow> printf_conversion \<Rightarrow> 's \<Rightarrow> 's" where
  "format_string io body len c st = (
     let st = (if conv_width c > len \<and> conv_flags c AND MINUS = 0 then output_dup io (of_char CHR '' '') (nat (conv_width c - len)) st else st);
         st = body st
     in if conv_width c > len \<and> conv_flags c AND MINUS \<noteq> 0 then output_dup io (of_char CHR '' '') (nat (conv_width c - len)) st else st)"

section \<open>Conversion of one argument\<close>

definition signed_arg :: "arg_type \<Rightarrow> u32 list \<Rightarrow> (int \<times> u32 list) option" where
  "signed_arg ty args = (case ty of
     TypeChar \<Rightarrow> do { (w, args) \<leftarrow> va_word args; Some (sint (ucast w :: 8 word), args) }
   | TypeShort \<Rightarrow> do { (w, args) \<leftarrow> va_word args; Some (sint (ucast w :: 16 word), args) }
   | TypeInt \<Rightarrow> va_int args
   | TypeIntmax \<Rightarrow> do { (w, args) \<leftarrow> va_wide args; Some (sint w, args) }
   | TypeLong \<Rightarrow> va_int args
   | TypeLongLong \<Rightarrow> do { (w, args) \<leftarrow> va_wide args; Some (sint w, args) }
   | TypePtrDiff \<Rightarrow> va_int args
   | TypeSize \<Rightarrow> do {
       (w, args) \<leftarrow> va_word args;
       Some (if uint w > 0xffffffff div 2 then uint w - 0xffffffff - 1 else uint w, args)
     })"

definition unsigned_arg :: "arg_type \<Rightarrow> u32 list \<Rightarrow> (nat \<times> u32 list) option" where
  "unsigned_arg ty args = (case ty of
     TypeChar \<Rightarrow> do { (w, args) \<leftarrow> va_word args; Some (unat (ucast w :: 8 word), args) }
   | TypeShort \<Rightarrow> do { (w, args) \<leftarrow> va_word args; Some (unat (ucast w :: 16 word), args) }
   | TypeInt \<Rightarrow> do { (w, args) \<leftarrow> va_word args; Some (unat w, args) }
   | TypeIntmax \<Rightarrow> do { (w, args) \<leftarrow> va_wide args; Some (unat w, args) }
   | TypeLong \<Rightarrow> do { (w, args) \<leftarrow> va_word args; Some (unat w, args) }
   | TypeLongLong \<Rightarrow> do { (w, args) \<leftarrow> va_wide args; Some (unat w, args) }
   | TypePtrDiff \<Rightarrow> do { (w, args) \<leftarrow> va_word args; Some (unat ((scast w :: 64 word) AND 0xffffffff), args) }
   | TypeSize \<Rightarrow> do { (w, args) \<leftarrow> va_word args; Some (unat w, args) })"

text \<open>\<^verbatim>\<open>value < 0 ? -value : value\<close>, converted to \<^verbatim>\<open>uintmax_t\<close>; the 64-bit negation of the least value gives itself.\<close>

definition magnitude :: "int \<Rightarrow> nat" where
  "magnitude v = unat (if v < 0 then - (of_int v :: 64 word) else of_int v)"

definition base_of :: "byte \<Rightarrow> integer_base" where
  "base_of ch = (if ch = of_char CHR ''o'' then base_o else if ch = of_char CHR ''u'' then base_d
     else if ch = of_char CHR ''x'' then base_x else base_X)"

definition no_conversion :: "byte \<Rightarrow> byte list option" where
  "no_conversion ch =
     (if ch \<in> set (ascii ''diouxXcsp'') then None
      else if ch \<in> set (ascii ''feEgGn'') then Some (ascii ''<<no %%%c in kernel>>'')
      else Some (ascii ''<<no %%%c conversion>>''))"

definition convert :: "'s out_fn \<Rightarrow> byte \<Rightarrow> printf_conversion \<Rightarrow> u32 list \<Rightarrow> 's \<Rightarrow> ('s \<times> u32 list) option" where
  "convert io ch c args st =
     (if ch = of_char CHR ''d'' \<or> ch = of_char CHR ''i'' then do {
        (v, args) \<leftarrow> signed_arg (conv_type c) args;
        st \<leftarrow> format_integer io (magnitude v) True (v < 0) base_d c st;
        Some (st, args)
      }
      else if ch \<in> set (ascii ''ouxX'') then do {
        (v, args) \<leftarrow> unsigned_arg (conv_type c) args;
        st \<leftarrow> format_integer io v False False (base_of ch) c st;
        Some (st, args)
      }
      else if ch = of_char CHR ''c'' then do {
        (w, args) \<leftarrow> va_word args;
        Some (format_string io (putc io (ucast w)) 1 c st, args)
      }
      else if ch = of_char CHR ''s'' then do {
        (w, args) \<leftarrow> va_word args;
        let s = unat w;
        let maxlen = unat (of_int (conv_prec c) :: u32);
        if s = NULL then
          let len = min maxlen (length (ascii ''(null)''))
          in Some (format_string io (put_all io (take len (ascii ''(null)''))) (int len) c st, args)
        else do {
          len \<leftarrow> strnlen (mem_of io st) s maxlen;
          Some (format_string io (put_string io s len) (int len) c st, args)
        }
      }
      else do {
        (w, args) \<leftarrow> va_word args;
        st \<leftarrow> format_integer io (unat w) False False base_x (c\<lparr>conv_flags := POUND\<rparr>) st;
        Some (st, args)
      })"

partial_function (option) vprintf_to :: "'s out_fn \<Rightarrow> byte list \<Rightarrow> u32 list \<Rightarrow> 's \<Rightarrow> 's option" where
  "vprintf_to io f args st =
     (if cur f = 0 then Some st
      else if cur f \<noteq> of_char CHR ''%'' then vprintf_to io (tl f) args (putc io (cur f) st)
      else if cur (tl f) = of_char CHR ''%'' then vprintf_to io (tl (tl f)) args (putc io (of_char CHR ''%'') st)
      else do {
        (c, f, args) \<leftarrow> parse_conversion (tl f) args;
        (st, args) \<leftarrow> (case no_conversion (cur f) of
           None \<Rightarrow> convert io (cur f) c args st
         | Some msg \<Rightarrow> do { st \<leftarrow> vprintf_to io msg [scast (cur f)] st; Some (st, args) });
        f \<leftarrow> advance f;
        vprintf_to io f args st
      })"

section \<open>Output to a buffer and to the console\<close>

text \<open>The auxiliary data of \<^verbatim>\<open>vsnprintf_helper\<close>: the memory, the position in the buffer and the length so
  far; the length does not wrap around, an output of \<open>2 ^ 31\<close> characters is undefined for an \<^verbatim>\<open>int\<close>.\<close>

type_synonym snprintf_aux = "memory \<times> addr \<times> int"

definition snprintf_out :: "int \<Rightarrow> snprintf_aux out_fn" where
  "snprintf_out max_length = \<lparr>
     mem_of = (\<lambda>(m, p, len). m),
     putc = (\<lambda>ch (m, p, len). if len < max_length then (m(p := ch), p + 1, len + 1) else (m, p, len + 1))\<rparr>"

definition vsnprintf :: "memory \<Rightarrow> addr \<Rightarrow> nat \<Rightarrow> byte list \<Rightarrow> u32 list \<Rightarrow> (int \<times> memory) option" where
  "vsnprintf m dst buf_size f args = do {
     let max_length = (if buf_size > 0 then int32 (int buf_size - 1) else 0);
     (m, p, len) \<leftarrow> vprintf_to (snprintf_out max_length) f args (m, dst, 0);
     Some (len, if buf_size > 0 then m(p := 0) else m)
   }"

definition snprintf :: "memory \<Rightarrow> addr \<Rightarrow> nat \<Rightarrow> byte list \<Rightarrow> u32 list \<Rightarrow> (int \<times> memory) option" where
  "snprintf m dst buf_size f args = vsnprintf m dst buf_size f args"

text \<open>
  The console of \<^verbatim>\<open>lib/kernel/console.c\<close> as the list of the characters that were written; \<^verbatim>\<open>vprintf_helper\<close> counts
  those of one call.  The lock that keeps the output of a call together is not modelled.
\<close>

type_synonym console_aux = "memory \<times> byte list \<times> int"

definition vprintf_helper :: "byte \<Rightarrow> console_aux \<Rightarrow> console_aux" where
  "vprintf_helper c = (\<lambda>(m, shown, char_cnt). (m, shown @ [c], char_cnt + 1))"

definition vprintf :: "memory \<Rightarrow> byte list \<Rightarrow> u32 list \<Rightarrow> byte list \<Rightarrow> (int \<times> byte list) option" where
  "vprintf m f args shown = do {
     (m, shown, char_cnt) \<leftarrow> vprintf_to \<lparr>mem_of = fst, putc = vprintf_helper\<rparr> f args (m, shown, 0);
     Some (char_cnt, shown)
   }"

definition printf :: "memory \<Rightarrow> byte list \<Rightarrow> u32 list \<Rightarrow> byte list \<Rightarrow> (int \<times> byte list) option" where
  "printf m f args shown = vprintf m f args shown"

text \<open>One call of \<^verbatim>\<open>printf\<close> for every index of a loop.\<close>

fun printf_each :: "memory \<Rightarrow> (nat \<Rightarrow> string \<times> u32 list) \<Rightarrow> nat list \<Rightarrow> byte list \<Rightarrow> byte list option" where
  "printf_each m g [] shown = Some shown"
| "printf_each m g (i # is) shown = do {
     let (f, args) = g i;
     (_, shown) \<leftarrow> printf m (ascii f) args shown;
     printf_each m g is shown
   }"

definition isprint :: "byte \<Rightarrow> bool" where
  "isprint c \<longleftrightarrow> c \<ge> 32 \<and> c < 127"

partial_function (option) hex_dump :: "memory \<Rightarrow> nat \<Rightarrow> addr \<Rightarrow> nat \<Rightarrow> bool \<Rightarrow> byte list \<Rightarrow> byte list option" where
  "hex_dump m ofs buf sz as_ascii shown =
     (if sz > 0 then do {
        let per_line = 16;
        let start = ofs mod per_line;
        let end' = (if per_line - start > sz then start + sz else per_line);
        let n = end' - start;
        (_, shown) \<leftarrow> printf m (ascii ''%08jx  '') [of_nat (ROUND_DOWN ofs per_line), 0] shown;
        shown \<leftarrow> printf_each m (\<lambda>i. (''   '', [])) [0..<start] shown;
        shown \<leftarrow> printf_each m (\<lambda>i. (''%02hhx%c'', [ucast (m (buf + (i - start))),
            if i = per_line div 2 - 1 then of_char CHR ''-'' else of_char CHR '' ''])) [start..<end'] shown;
        shown \<leftarrow> (if as_ascii then do {
            shown \<leftarrow> printf_each m (\<lambda>i. (''   '', [])) [end'..<per_line] shown;
            (_, shown) \<leftarrow> printf m (ascii ''|'') [] shown;
            shown \<leftarrow> printf_each m (\<lambda>i. ('' '', [])) [0..<start] shown;
            shown \<leftarrow> printf_each m (\<lambda>i. (''%c'', [if isprint (m (buf + (i - start))) then ucast (m (buf + (i - start)))
                else of_char CHR ''.''])) [start..<end'] shown;
            shown \<leftarrow> printf_each m (\<lambda>i. ('' '', [])) [end'..<per_line] shown;
            (_, shown) \<leftarrow> printf m (ascii ''|'') [] shown;
            Some shown
          } else Some shown);
        (_, shown) \<leftarrow> printf m (ascii (char_of (10 :: nat) # [])) [] shown;
        hex_dump m (ofs + n) (buf + n) (sz - n) as_ascii shown
      } else Some shown)"

text \<open>\<^verbatim>\<open>factors\<close>; the loop stops at the last name.  The names are constants without a conversion character, so the \<^verbatim>\<open>%s\<close> that prints one is the name itself in the format.\<close>

fun factor_loop :: "nat \<Rightarrow> string list \<Rightarrow> nat \<times> string" where
  "factor_loop sz (f # g # fs) = (if sz \<ge> 1024 then factor_loop (sz div 1024) (g # fs) else (sz, f))"
| "factor_loop sz [f] = (sz, f)"
| "factor_loop sz [] = (sz, [])"

definition print_human_readable_size :: "memory \<Rightarrow> nat \<Rightarrow> byte list \<Rightarrow> byte list option" where
  "print_human_readable_size m sz shown =
     (if sz = 1 then do { (_, shown) \<leftarrow> printf m (ascii ''1 byte'') [] shown; Some shown }
      else do {
        let (sz, f) = factor_loop sz [''bytes'', ''kB'', ''MB'', ''GB'', ''TB''];
        (_, shown) \<leftarrow> printf m (ascii (''%llu '' @ f)) [of_nat (sz mod 2 ^ 32), of_nat (sz div 2 ^ 32)] shown;
        Some shown
      })"

end
