(* ===== verification/Stdio_Facts.thy ===== *)
theory Stdio_Facts
  imports Stdio
begin

text \<open>What the parts of formatted output write: every output is a sequence of characters given to the output function.\<close>

section \<open>Sequences of characters\<close>

lemma put_all_Nil [simp]: "put_all io [] st = st"
  and put_all_Cons [simp]: "put_all io (b # bs) st = put_all io bs (putc io b st)"
  and put_all_append: "put_all io (as @ bs) st = put_all io bs (put_all io as st)"
  by (simp_all add: put_all_def)

definition puts :: "'s out_fn \<Rightarrow> 's \<Rightarrow> 's \<Rightarrow> bool" where
  "puts io st st' \<longleftrightarrow> (\<exists>bs. st' = put_all io bs st)"

lemma puts_refl [simp]: "puts io st st"
  unfolding puts_def by (rule exI [of _ "[]"]) simp

lemma puts_all [simp]: "puts io st (put_all io bs st)"
  by (auto simp: puts_def)

lemma puts_one [simp]: "puts io st (putc io b st)"
  unfolding puts_def by (rule exI [of _ "[b]"]) simp

lemma puts_trans: "puts io st st' \<Longrightarrow> puts io st' st'' \<Longrightarrow> puts io st st''"
  unfolding puts_def by (metis put_all_append)

lemma puts_dup [simp]: "puts io st (output_dup io ch n st)"
  by (simp add: output_dup_def)

lemma puts_string: "puts io st (put_string io s n st)"
proof (induction n arbitrary: s st)
  case (Suc n)
  show ?case unfolding put_string.simps by (rule puts_trans [OF puts_one Suc.IH])
qed simp

section \<open>Integers\<close>

text \<open>The characters of an integer conversion, from the digits in the buffer.\<close>

definition pad_count :: "byte list \<Rightarrow> byte \<Rightarrow> byte \<Rightarrow> printf_conversion \<Rightarrow> nat" where
  "pad_count buf x sign c = nat (int32 (conv_width c - int (length buf) - (if x \<noteq> 0 then 2 else 0) - (if sign \<noteq> 0 then 1 else 0)))"

definition layout :: "byte list \<Rightarrow> byte \<Rightarrow> byte \<Rightarrow> printf_conversion \<Rightarrow> byte list" where
  "layout buf x sign c = (let n = pad_count buf x sign c in
     (if conv_flags c AND (MINUS OR ZERO) = 0 then replicate n (of_char CHR '' '') else []) @
     (if sign \<noteq> 0 then [sign] else []) @
     (if x \<noteq> 0 then [of_char CHR ''0'', x] else []) @
     (if conv_flags c AND ZERO \<noteq> 0 then replicate n (of_char CHR ''0'') else []) @
     rev buf @
     (if conv_flags c AND MINUS \<noteq> 0 then replicate n (of_char CHR '' '') else []))"

definition prefix_char :: "integer_base \<Rightarrow> nat \<Rightarrow> printf_conversion \<Rightarrow> byte" where
  "prefix_char b val c = (if conv_flags c AND POUND \<noteq> 0 \<and> val \<noteq> 0 then ib_x b else 0)"

lemma format_integer_layout:
  assumes "integer_digits val b c = Some buf"
  shows "format_integer io val sg neg b c st = Some (put_all io (layout buf (prefix_char b val c) (sign_char sg neg (conv_flags c)) c) st)"
proof -
  have n: "nat (if p < 0 then 0 else p) = nat p" for p :: int by simp
  show ?thesis
    unfolding format_integer_def assms Let_def prefix_char_def [symmetric]
    by (simp add: n layout_def pad_count_def output_dup_def put_all_append Let_def)
qed

lemma base_cases:
  assumes "b \<in> {base_d, base_o, base_x, base_X}"
  shows "8 \<le> ib_base b"
  using assms by (auto simp: base_d_def base_o_def base_x_def base_X_def)

text \<open>No conversion needs more than the 64 characters of the buffer: a number below \<open>8 ^ k\<close> has at most \<open>k\<close> digits.\<close>

lemma digits_loop_fits:
  assumes "8 \<le> ib_base b"
  shows "val < 8 ^ k \<Longrightarrow> length buf + 2 * k \<le> 64 \<Longrightarrow>
    \<exists>r. digits_loop b fl val n buf = Some r \<and> length r \<le> length buf + 2 * k"
proof (induction k arbitrary: val n buf)
  case 0
  then show ?case by (subst digits_loop.simps) simp
next
  case (Suc k)
  show ?case
  proof (cases "val = 0")
    case True
    then show ?thesis by (subst digits_loop.simps) simp
  next
    case False
    define buf1 where "buf1 = (if fl AND GROUP \<noteq> 0 \<and> n > 0 \<and> n mod ib_group b = 0 then buf @ [of_char CHR '','' :: byte] else buf)"
    define buf2 where "buf2 = buf1 @ [ib_digits b ! (val mod ib_base b)]"
    have l: "length buf2 \<le> length buf + 2" "length buf1 < 64" using Suc.prems(2) by (auto simp: buf1_def buf2_def)
    have "val div ib_base b \<le> val div 8" using assms by (rule div_le_mono2 [rotated]) simp
    also have "\<dots> < 8 ^ k" using Suc.prems(1) by (simp add: less_mult_imp_div_less mult.commute)
    finally have "val div ib_base b < 8 ^ k" .
    then obtain r where r: "digits_loop b fl (val div ib_base b) (n + 1) buf2 = Some r" "length r \<le> length buf2 + 2 * k"
      using Suc.IH [of "val div ib_base b" buf2 "n + 1"] l(1) Suc.prems(2) by auto
    have "digits_loop b fl val n buf = Some r"
    proof -
      have "length buf < 64" using Suc.prems(2) by simp
      then have p1: "(if fl AND GROUP \<noteq> 0 \<and> n > 0 \<and> n mod ib_group b = 0 then push buf (of_char CHR '','') else Some buf) = Some buf1"
        by (simp add: buf1_def push_def)
      have p2: "push buf1 (ib_digits b ! (val mod ib_base b)) = Some buf2" using l(2) by (simp add: buf2_def push_def)
      show ?thesis using False r(1) by (subst digits_loop.simps) (simp add: p1 p2)
    qed
    then show ?thesis using r(2) l(1) by simp
  qed
qed

lemma zeros_loop_length: "length buf \<le> 63 \<Longrightarrow> length (zeros_loop p buf) \<le> 63"
proof (induction p buf rule: zeros_loop.induct)
  case (1 p buf)
  then show ?case by (subst zeros_loop.simps) simp
qed

lemma integer_digits_fit:
  assumes b: "b \<in> {base_d, base_o, base_x, base_X}" and v: "val < 2 ^ 64"
  obtains buf where "integer_digits val b c = Some buf" "length buf \<le> 64"
proof -
  have "val < 8 ^ 22" using v by simp
  then obtain r where r: "digits_loop b (conv_flags c) val 0 [] = Some r" "length r \<le> 44"
    using digits_loop_fits [OF base_cases [OF b], of val 22 "[]" "conv_flags c" 0] by auto
  define z where "z = zeros_loop (if conv_prec c < 0 then 1 else conv_prec c) r"
  have z: "length z \<le> 63" unfolding z_def using r(2) by (intro zeros_loop_length) simp
  show thesis
  proof (cases "conv_flags c AND POUND \<noteq> 0 \<and> ib_base b = 8 \<and> (z = [] \<or> last z \<noteq> of_char CHR ''0'')")
    case True
    have "push z (of_char CHR ''0'') = Some (z @ [of_char CHR ''0''])" using z by (simp add: push_def)
    then have "integer_digits val b c = Some (z @ [of_char CHR ''0''])"
      unfolding integer_digits_def r(1) Option.bind.bind_lunit Let_def z_def [symmetric] if_P [OF True] .
    then show thesis using z by (intro that [of "z @ [of_char CHR ''0'']"]) simp_all
  next
    case False
    have "integer_digits val b c = Some z"
      unfolding integer_digits_def r(1) Option.bind.bind_lunit Let_def z_def [symmetric] if_not_P [OF False] ..
    then show thesis using z by (intro that [of z]) simp_all
  qed
qed

lemma magnitude_less: "magnitude v < 2 ^ 64"
  unfolding magnitude_def by (rule order_less_le_trans [OF unsigned_less]) simp

text \<open>
  The number of characters is the field width, unless the digits need more; with the flags \<^verbatim>\<open>-\<close> and \<^verbatim>\<open>0\<close> together
  the padding is written twice.
\<close>

lemma layout_length:
  fixes x sign :: byte
  assumes w: "0 \<le> conv_width c" "conv_width c < 2 ^ 31" and l: "length buf \<le> 64"
  defines "need \<equiv> int (length buf) + (if x \<noteq> 0 then 2 else 0) + (if sign \<noteq> 0 then 1 else 0)"
  shows "int (length (layout buf x sign c)) =
    need + (if conv_flags c AND MINUS \<noteq> 0 \<and> conv_flags c AND ZERO \<noteq> 0 then 2 else 1) * max 0 (conv_width c - need)"
proof -
  have mz: "conv_flags c AND (MINUS OR ZERO) = 0 \<longleftrightarrow> conv_flags c AND MINUS = 0 \<and> conv_flags c AND ZERO = 0"
    unfolding bit.conj_disj_distrib or_eq_0_iff ..
  define a b :: int where "a = (if x \<noteq> 0 then 2 else 0)" and "b = (if sign \<noteq> 0 then 1 else 0)"
  define n where "n = pad_count buf x sign c"
  have "n = nat (int32 (conv_width c - int (length buf) - a - b))" unfolding n_def pad_count_def a_def b_def ..
  moreover have "a \<in> {0, 2}" "b \<in> {0, 1}" by (auto simp: a_def b_def)
  ultimately have n: "int n = max 0 (conv_width c - int (length buf) - a - b)" using w l by (subst (asm) int32_id) auto
  define k :: int where "k = (if conv_flags c AND MINUS \<noteq> 0 \<and> conv_flags c AND ZERO \<noteq> 0 then 2 else 1)"
  have "int (length (layout buf x sign c)) = k * int n + int (length buf) + a + b"
    unfolding layout_def n_def [symmetric] Let_def mz k_def by (auto simp: a_def b_def)
  moreover have "conv_width c - int (length buf) - a - b = conv_width c - need" by (simp add: need_def a_def b_def)
  ultimately show ?thesis unfolding n k_def need_def a_def b_def by (simp add: algebra_simps)
qed

section \<open>Every output is a sequence of characters\<close>

lemma format_integer_puts: "format_integer io val sg neg b c st = Some st' \<Longrightarrow> puts io st st'"
proof (cases "integer_digits val b c")
  case (Some buf)
  assume "format_integer io val sg neg b c st = Some st'"
  then show ?thesis unfolding format_integer_layout [OF Some] by auto
qed (simp add: format_integer_def Let_def)

lemma format_string_puts:
  assumes "\<And>st. puts io st (body st)"
  shows "puts io st (format_string io body len c st)"
proof -
  define st1 where "st1 = (if conv_width c > len \<and> conv_flags c AND MINUS = 0 then output_dup io (of_char CHR '' '') (nat (conv_width c - len)) st else st)"
  have "puts io st st1" by (simp add: st1_def)
  then have "puts io st (body st1)" by (rule puts_trans [OF _ assms])
  moreover have "puts io (body st1) (format_string io body len c st)" by (simp add: format_string_def Let_def st1_def)
  ultimately show ?thesis by (rule puts_trans)
qed

lemma format_string_all: "puts io st (format_string io (put_all io bs) len c st)"
  by (rule format_string_puts) simp

lemma three_cases: "(P \<Longrightarrow> R) \<Longrightarrow> (\<not> P \<Longrightarrow> Q \<Longrightarrow> R) \<Longrightarrow> (\<not> P \<Longrightarrow> \<not> Q \<Longrightarrow> R) \<Longrightarrow> R"
  by blast

lemma convert_puts:
  assumes "convert io ch c args st = Some (st', args')"
  shows "puts io st st'"
proof -
  note fi = format_integer_puts and fs = format_string_puts [OF puts_string] format_string_puts [OF puts_one]
  show ?thesis
  proof (rule three_cases [where P = "ch = of_char CHR ''d'' \<or> ch = of_char CHR ''i''" and Q = "ch \<in> set (ascii ''ouxX'')"], goal_cases)
    case 1
    then show ?thesis using assms unfolding convert_def if_P [OF 1] by (auto simp: bind_eq_Some_conv intro: fi)
  next
    case 2
    then show ?thesis using assms unfolding convert_def if_not_P [OF 2(1)] if_P [OF 2(2)]
      by (auto simp: bind_eq_Some_conv simp del: set_map intro: fi)
  next
    case 3
    note r = assms [unfolded convert_def if_not_P [OF 3(1)] if_not_P [OF 3(2)]]
    show ?thesis
    proof (cases "ch = of_char CHR ''c''")
      case True
      then show ?thesis using r fs(2) by (auto simp: bind_eq_Some_conv)
    next
      case c: False
      show ?thesis
      proof (cases "ch = of_char CHR ''s''")
        case True
        note r = r [unfolded if_not_P [OF c] if_P [OF True]]
        then obtain w args2 where w: "va_word args = Some (w, args2)" by (auto simp: bind_eq_Some_conv)
        show ?thesis
        proof (cases "unat w = NULL")
          case True
          show ?thesis using r unfolding w Let_def Option.bind.bind_lunit prod.case if_P [OF True]
            by (auto simp only: option.inject prod.inject format_string_all)
        next
          case False
          show ?thesis using r unfolding w Let_def Option.bind.bind_lunit prod.case if_not_P [OF False] by (auto simp: bind_eq_Some_conv intro: fs(1))
        qed
      next
        case False
        show ?thesis using r unfolding if_not_P [OF c] if_not_P [OF False] by (auto simp: bind_eq_Some_conv intro: fi)
      qed
    qed
  qed
qed

lemma vprintf_puts:
  assumes "vprintf_to io f args st = Some st'"
  shows "puts io st st'"
proof (rule vprintf_to.raw_induct [OF _ assms])
  fix vp :: "'a out_fn \<Rightarrow> byte list \<Rightarrow> u32 list \<Rightarrow> 'a \<Rightarrow> 'a option" and io f args st st'
  assume IH: "\<And>io f args st st'. vp io f args st = Some st' \<Longrightarrow> puts io st st'"
    and r: "(if cur f = 0 then Some st
      else if cur f \<noteq> of_char CHR ''%'' then vp io (tl f) args (putc io (cur f) st)
      else if cur (tl f) = of_char CHR ''%'' then vp io (tl (tl f)) args (putc io (of_char CHR ''%'') st)
      else do {
        (c, f, args) \<leftarrow> parse_conversion (tl f) args;
        (st, args) \<leftarrow> (case no_conversion (cur f) of
           None \<Rightarrow> convert io (cur f) c args st
         | Some msg \<Rightarrow> do { st \<leftarrow> vp io msg [scast (cur f)] st; Some (st, args) });
        f \<leftarrow> advance f;
        vp io f args st
      }) = Some st'"
  consider "cur f = 0" | "cur f \<noteq> 0" "cur f \<noteq> of_char CHR ''%''" | "cur f = of_char CHR ''%''" "cur (tl f) = of_char CHR ''%''"
    | "cur f = of_char CHR ''%''" "cur (tl f) \<noteq> of_char CHR ''%''" by blast
  then show "puts io st st'"
  proof cases
    case 1
    then show ?thesis using r by simp
  next
    case 2
    then have "vp io (tl f) args (putc io (cur f) st) = Some st'" using r by simp
    from puts_trans [OF puts_one IH [OF this]] show ?thesis .
  next
    case 3
    then have "vp io (tl (tl f)) args (putc io (of_char CHR ''%'') st) = Some st'" using r by simp
    from puts_trans [OF puts_one IH [OF this]] show ?thesis .
  next
    case 4
    then obtain c g args1 where p: "parse_conversion (tl f) args = Some (c, g, args1)" using r by (auto simp: bind_eq_Some_conv)
    obtain st1 args2 h where s: "(case no_conversion (cur g) of None \<Rightarrow> convert io (cur g) c args1 st
         | Some msg \<Rightarrow> do { st \<leftarrow> vp io msg [scast (cur g)] st; Some (st, args1) }) = Some (st1, args2)" "vp io h args2 st1 = Some st'"
      using r 4 p by (auto simp: bind_eq_Some_conv)
    have "puts io st st1" using s(1) convert_puts IH by (auto simp: bind_eq_Some_conv split: option.splits)
    with IH [OF s(2)] show ?thesis by (rule puts_trans [rotated])
  qed
qed

end
