(* ===== verification/Stdio_Properties.thy ===== *)
theory Stdio_Properties
  imports Stdio_Facts
begin

text \<open>The properties of formatted output and of decimal strings.\<close>

section \<open>Output to a buffer\<close>

lemma store_bytes_Nil [simp]: "store_bytes m p [] = m"
  by (auto simp: store_bytes_def fun_eq_iff)

lemma store_bytes_snoc: "(store_bytes m p bs)(p + length bs := b) = store_bytes m p (bs @ [b])"
  by (auto simp: store_bytes_def fun_eq_iff nth_append)

lemma put_all_snprintf:
  "put_all (snprintf_out mx) bs (m, p, len) =
   (store_bytes m p (take (nat (mx - len)) bs), p + min (length bs) (nat (mx - len)), len + int (length bs))"
proof (induction bs arbitrary: m p len)
  case (Cons b bs)
  show ?case
  proof (cases "len < mx")
    case True
    then obtain k where k: "nat (mx - len) = Suc k" by (cases "nat (mx - len)") simp_all
    moreover from this have "nat (mx - (len + 1)) = k" by linarith
    moreover have "putc (snprintf_out mx) b (m, p, len) = (m(p := b), p + 1, len + 1)" using True by (simp add: snprintf_out_def)
    ultimately show ?thesis unfolding put_all_Cons by (simp only: Cons.IH take_Suc_Cons store_bytes_Cons) (simp del: fun_upd_apply)
  next
    case False
    then have "putc (snprintf_out mx) b (m, p, len) = (m, p, len + 1)" by (simp add: snprintf_out_def)
    then show ?thesis unfolding put_all_Cons using False by (simp only: Cons.IH) simp
  qed
qed simp

lemma vsnprintf_of_puts:
  assumes "vprintf_to (snprintf_out (int n - 1)) f args (m, dst, 0) = Some (put_all (snprintf_out (int n - 1)) out (m, dst, 0))"
    and "0 < n" "n \<le> 2 ^ 31"
  shows "vsnprintf m dst n f args = Some (int (length out), store_bytes m dst (take (n - 1) out @ [0]))"
proof -
  have "int32 (int n - 1) = int n - 1" using assms(2,3) by simp
  moreover have "nat (int n - 1) = n - 1" by simp
  ultimately show ?thesis using assms(1,2) store_bytes_snoc [of m dst "take (n - 1) out" 0]
    by (simp add: vsnprintf_def Let_def put_all_snprintf min.commute)
qed


section \<open>Decimal numbers\<close>

text \<open>The decimal digits of a number, the last one first.\<close>

fun lsd :: "nat \<Rightarrow> byte list" where
  "lsd v = (if v = 0 then [] else of_nat (48 + v mod 10) # lsd (v div 10))"

declare lsd.simps [simp del]

lemma digit_at: "k < 10 \<Longrightarrow> ib_digits base_d ! k = of_nat (48 + k)"
proof -
  assume "k < 10"
  then have "k \<in> {0, 1, 2, 3, 4, 5, 6, 7, 8, 9}" by auto
  then show ?thesis by (auto simp: base_d_def)
qed

lemma length_lsd: "v < 10 ^ k \<Longrightarrow> length (lsd v) \<le> k"
proof (induction k arbitrary: v)
  case 0
  then show ?case by (subst lsd.simps) simp
next
  case (Suc k)
  then have "v div 10 < 10 ^ k" by (simp add: less_mult_imp_div_less mult.commute)
  then show ?case using Suc.IH [of "v div 10"] by (subst lsd.simps) simp
qed

lemma digits_loop_decimal:
  assumes "fl AND GROUP = 0"
  shows "length buf + length (lsd v) \<le> 64 \<Longrightarrow> digits_loop base_d fl v n buf = Some (buf @ lsd v)"
proof (induction v arbitrary: n buf rule: less_induct)
  case (less v)
  show ?case
  proof (cases "v = 0")
    case True
    then show ?thesis by (subst digits_loop.simps, subst lsd.simps) simp
  next
    case False
    have l: "lsd v = of_nat (48 + v mod 10) # lsd (v div 10)" using False by (subst lsd.simps) simp
    have "push buf (of_nat (48 + v mod 10)) = Some (buf @ [of_nat (48 + v mod 10)])" using less.prems l by (simp add: push_def)
    moreover have "ib_digits base_d ! (v mod 10) = of_nat (48 + v mod 10)" by (rule digit_at) simp
    moreover have "digits_loop base_d fl (v div 10) (n + 1) (buf @ [of_nat (48 + v mod 10)]) = Some (buf @ lsd v)"
      using less.IH [of "v div 10" "buf @ [of_nat (48 + v mod 10)]" "n + 1"] less.prems False l by simp
    moreover have "ib_base base_d = 10" by (simp add: base_d_def)
    ultimately show ?thesis using False assms by (subst digits_loop.simps) simp
  qed
qed

text \<open>\<^verbatim>\<open>atoi\<close> reads the digits back, as the negative of the number.\<close>

lemma unat_digit: "k < 10 \<Longrightarrow> unat (of_nat (48 + k) :: byte) = 48 + k"
  by (simp only: unat_of_nat) simp

lemma digit_byte: "k < 10 \<Longrightarrow> isdigit (of_nat (48 + k) :: byte)"
  unfolding isdigit_def word_le_nat_alt unat_digit by simp

lemma parse_digits_append:
  "v \<le> 2 ^ 31 \<Longrightarrow> load_bytes m s (length (lsd v)) = rev (lsd v) \<Longrightarrow>
   parse_digits m s 0 = parse_digits m (s + length (lsd v)) (- int v)"
proof (induction v rule: less_induct)
  case (less v)
  show ?case
  proof (cases "v = 0")
    case True
    then show ?thesis by (subst lsd.simps) simp
  next
    case False
    define r where "r = lsd (v div 10)"
    define d where "d = v mod 10"
    have l: "lsd v = of_nat (48 + d) # r" using False unfolding r_def d_def by (subst lsd.simps) simp
    have bytes: "load_bytes m s (length r) = rev r" "m (s + length r) = of_nat (48 + d)"
    proof -
      have e: "load_bytes m s (Suc (length r)) = rev r @ [of_nat (48 + d)]" using less.prems(2) l by simp
      then show "m (s + length r) = of_nat (48 + d)"
        using nth_load_bytes [of "length r" "Suc (length r)" m s] by (simp add: nth_append)
      show "load_bytes m s (length r) = rev r" using e by (simp add: load_bytes_def)
    qed
    have "v div 10 < v" "v div 10 \<le> 2 ^ 31" using False less.prems(1) by simp_all
    from less.IH [OF this] have IH: "parse_digits m s 0 = parse_digits m (s + length r) (- int (v div 10))"
      using bytes(1) by (simp add: r_def)
    have dl: "d < 10" by (simp add: d_def)
    have "- int (v div 10) * 10 - (int (48 + d) - 48) = - int v" unfolding d_def
      by (simp add: minus_div_mult_eq_mod [symmetric] zdiv_int)
    moreover have "int32 (- int v) = - int v" using less.prems(1) by (intro int32_id) auto
    ultimately have "parse_digits m (s + length r) (- int (v div 10)) = parse_digits m (s + length r + 1) (- int v)"
      using bytes(2) digit_byte [OF dl] unat_digit [OF dl] by (subst parse_digits.simps) simp
    then show ?thesis using IH l by simp
  qed
qed

text \<open>The output of \<^verbatim>\<open>%d\<close>.\<close>

definition decimal :: "int \<Rightarrow> byte list" where
  "decimal v = (if v < 0 then [of_char CHR ''-''] else []) @ (if v = 0 then [of_char CHR ''0''] else rev (lsd (nat \<bar>v\<bar>)))"

lemma magnitude_int: "- (2 ^ 31) \<le> v \<Longrightarrow> v < 2 ^ 31 \<Longrightarrow> magnitude v = nat \<bar>v\<bar>"
proof -
  assume v: "- (2 ^ 31) \<le> v" "v < 2 ^ 31"
  have "magnitude v = unat (of_int \<bar>v\<bar> :: 64 word)" by (auto simp: magnitude_def)
  also have "\<dots> = nat (\<bar>v\<bar> mod 2 ^ 64)" unfolding unat_eq_nat_uint uint_word_of_int by simp
  also have "\<bar>v\<bar> mod 2 ^ 64 = \<bar>v\<bar>" using v by (intro mod_pos_pos_trivial) auto
  finally show ?thesis .
qed

lemma length_lsd_int: "- (2 ^ 31) \<le> v \<Longrightarrow> v < 2 ^ 31 \<Longrightarrow> length (lsd (nat \<bar>v\<bar>)) \<le> 10"
proof -
  assume "- (2 ^ 31) \<le> v" "v < 2 ^ 31"
  then have "nat \<bar>v\<bar> < 10 ^ 10" by simp
  then show ?thesis by (rule length_lsd)
qed

lemma sint_of_int32: "- (2 ^ 31) \<le> v \<Longrightarrow> v < 2 ^ 31 \<Longrightarrow> sint (of_int v :: u32) = v"
  by (subst signed_of_int) (simp add: signed_take_bit_int_eq_self)

lemma decimal_digits:
  assumes "- (2 ^ 31) \<le> v" "v < 2 ^ 31" and c: "conv_flags c AND GROUP = 0" "conv_prec c = - 1"
  shows "integer_digits (magnitude v) base_d c = Some (if v = 0 then [of_char CHR ''0''] else lsd (nat \<bar>v\<bar>))"
proof -
  have l: "length (lsd (nat \<bar>v\<bar>)) \<le> 10" by (rule length_lsd_int [OF assms(1,2)])
  then have d: "digits_loop base_d (conv_flags c) (nat \<bar>v\<bar>) 0 [] = Some (lsd (nat \<bar>v\<bar>))"
    using digits_loop_decimal [OF c(1), of "[]" "nat \<bar>v\<bar>" 0] by simp
  have b: "ib_base base_d \<noteq> 8" by (simp add: base_d_def)
  show ?thesis
  proof (cases "v = 0")
    case True
    have "lsd 0 = []" by (subst lsd.simps) simp
    then show ?thesis using True d b unfolding integer_digits_def magnitude_int [OF assms(1,2)] c(2)
      by (simp add: Let_def zeros_loop.simps [of 1 "[]"] zeros_loop.simps [of 1 "[_]"])
  next
    case False
    have "0 < length (lsd (nat \<bar>v\<bar>))" using False by (subst lsd.simps) simp
    then have "zeros_loop 1 (lsd (nat \<bar>v\<bar>)) = lsd (nat \<bar>v\<bar>)" by (subst zeros_loop.simps) auto
    then show ?thesis using False d b unfolding integer_digits_def magnitude_int [OF assms(1,2)] c(2) by (simp add: Let_def)
  qed
qed

lemma vprintf_decimal:
  assumes "- (2 ^ 31) \<le> v" "v < 2 ^ 31"
  shows "vprintf_to io (ascii ''%d'') [of_int v] st = Some (put_all io (decimal v) st)"
proof -
  let ?c = "\<lparr>conv_flags = 0, conv_width = 0, conv_prec = - 1, conv_type = TypeInt\<rparr>"
  have digits: "integer_digits (magnitude v) base_d ?c = Some (if v = 0 then [of_char CHR ''0''] else lsd (nat \<bar>v\<bar>))"
    by (rule decimal_digits [OF assms]) simp_all
  have p: "parse_conversion (ascii ''d'') [of_int v] = Some (?c, ascii ''d'', [of_int v])"
    by (simp add: parse_conversion_def parse_width_def parse_precision_def parse_type_def cur_def Let_def isdigit_def)
  have "layout buf (prefix_char base_d (magnitude v) ?c) (sign_char True (v < 0) 0) ?c =
      (if v < 0 then [of_char CHR ''-''] else []) @ rev buf" if "length buf \<le> 64" for buf
    using that by (auto simp: layout_def pad_count_def prefix_char_def sign_char_def Let_def)
  moreover have "length (if v = 0 then [of_char CHR ''0''] else lsd (nat \<bar>v\<bar>)) \<le> 64"
    using length_lsd_int [OF assms] by simp
  ultimately have f: "format_integer io (magnitude v) True (v < 0) base_d ?c st = Some (put_all io (decimal v) st)"
    unfolding format_integer_layout [OF digits] by (simp add: decimal_def)
  have "convert io (of_char CHR ''d'') ?c [of_int v] st = Some (put_all io (decimal v) st, [])"
    unfolding convert_def using f sint_of_int32 [OF assms] by (simp add: signed_arg_def va_int_def va_word_def)
  moreover have "vprintf_to io [] [] st' = Some st'" for st' by (subst vprintf_to.simps) (simp add: cur_def)
  ultimately show ?thesis using p by (subst vprintf_to.simps) (simp add: cur_def no_conversion_def advance_def)
qed

lemma length_decimal: "- (2 ^ 31) \<le> v \<Longrightarrow> v < 2 ^ 31 \<Longrightarrow> length (decimal v) \<le> 11"
proof -
  assume v: "- (2 ^ 31) \<le> v" "v < 2 ^ 31"
  have "length (decimal v) \<le> 1 + max 1 (length (lsd (nat \<bar>v\<bar>)))" by (auto simp: decimal_def max_def)
  then show ?thesis using length_lsd_int [OF v] by simp
qed

lemma lsd_digits: "c \<in> set (lsd v) \<Longrightarrow> isdigit c"
proof (induction v rule: less_induct)
  case (less v)
  have "lsd 0 = []" by (subst lsd.simps) simp
  with less.prems have nz: "v \<noteq> 0" by (metis list.set_intros(1) list.set(1) empty_iff)
  then have "lsd v = of_nat (48 + v mod 10) # lsd (v div 10)" by (subst lsd.simps) simp
  then have "c = of_nat (48 + v mod 10) \<or> c \<in> set (lsd (v div 10))" using less.prems by simp
  then show ?case using digit_byte [of "v mod 10"] less.IH [of "v div 10"] nz by auto
qed

lemma parse_decimal:
  assumes "v \<noteq> 0" "\<bar>v\<bar> \<le> 2 ^ 31" "load_bytes m s (length (lsd (nat \<bar>v\<bar>))) = rev (lsd (nat \<bar>v\<bar>))" "m (s + length (lsd (nat \<bar>v\<bar>))) = 0"
  shows "parse_digits m s 0 = Some (- \<bar>v\<bar>)"
proof -
  have "parse_digits m s 0 = parse_digits m (s + length (lsd (nat \<bar>v\<bar>))) (- int (nat \<bar>v\<bar>))"
    by (rule parse_digits_append) (use assms(2,3) in auto)
  then show ?thesis using assms(4) by (subst (asm) (2) parse_digits.simps) (simp add: isdigit_def)
qed

lemma load_bytes_suffix: "load_bytes m a (length (xs @ ys)) = xs @ ys \<Longrightarrow> load_bytes m (a + length xs) (length ys) = ys"
proof (rule nth_equalityI)
  fix i assume m: "load_bytes m a (length (xs @ ys)) = xs @ ys" and "i < length (load_bytes m (a + length xs) (length ys))"
  then have i: "i < length ys" by simp
  have "m (a + (length xs + i)) = (xs @ ys) ! (length xs + i)" using i m nth_load_bytes [of "length xs + i" "length (xs @ ys)" m a] by simp
  then show "load_bytes m (a + length xs) (length ys) ! i = ys ! i" using i by (simp add: add.assoc)
qed simp

lemma digit_plain: "isdigit c \<Longrightarrow> \<not> isspace c \<and> c \<noteq> 43 \<and> c \<noteq> 45"
  by (auto simp: isdigit_def isspace_def)

lemma atoi_decimal:
  assumes v: "- (2 ^ 31) \<le> v" "v < 2 ^ 31" and a: "a \<noteq> NULL" and m: "load_bytes m a (length (decimal v)) = decimal v" "m (a + length (decimal v)) = 0"
  shows "atoi m a = Some v"
proof (cases "v = 0")
  case True
  then have "m a = 48" "m (a + 1) = 0" using m by (simp_all add: decimal_def load_bytes_def)
  then show ?thesis using a True unfolding atoi_def
    by (subst skip_space.simps) (simp add: isspace_def parse_digits.simps [of m a] parse_digits.simps [of m "Suc a"] isdigit_def)
next
  case nz: False
  define ds where "ds = rev (lsd (nat \<bar>v\<bar>))"
  have ds: "load_bytes m s (length ds) = ds \<Longrightarrow> m (s + length ds) = 0 \<Longrightarrow> parse_digits m s 0 = Some (- \<bar>v\<bar>)" for s
    using parse_decimal [OF nz, of m s] v by (simp add: ds_def)
  show ?thesis
  proof (cases "v < 0")
    case True
    then have d: "decimal v = [45] @ ds" by (simp add: decimal_def ds_def)
    then have "m a = 45" using m(1) nth_load_bytes [of 0 "length (decimal v)" m a] by simp
    moreover have "parse_digits m (a + 1) 0 = Some (- \<bar>v\<bar>)"
      using ds [of "a + 1"] load_bytes_suffix [of m a "[45]" ds] m unfolding d by simp
    ultimately show ?thesis using a True unfolding atoi_def by (subst skip_space.simps) (simp add: isspace_def)
  next
    case False
    then have d: "decimal v = ds" using nz by (simp add: decimal_def ds_def)
    have "ds \<noteq> []" using nz by (simp add: ds_def) (subst lsd.simps, simp)
    then have "m a = hd ds" using m(1) nth_load_bytes [of 0 "length ds" m a] unfolding d by (simp add: hd_conv_nth)
    then have "isdigit (m a)" using lsd_digits [of "m a" "nat \<bar>v\<bar>"] \<open>ds \<noteq> []\<close> hd_in_set [of ds] by (simp add: ds_def)
    note p = digit_plain [OF this]
    have "parse_digits m a 0 = Some (- v)" using ds [of a] m False unfolding d by simp
    moreover have "int32 v = v" using v by (intro int32_id) auto
    ultimately show ?thesis using a p unfolding atoi_def by (subst skip_space.simps) simp
  qed
qed

text \<open>
  C19: \<^verbatim>\<open>atoi\<close> reads back what \<^verbatim>\<open>snprintf\<close> prints with \<^verbatim>\<open>%d\<close>, for every number of the type \<^verbatim>\<open>int\<close>, the least
  one included, and every buffer of at least 12 characters.
\<close>

theorem decimal_roundtrip:
  assumes v: "- (2 ^ 31) \<le> v" "v < 2 ^ 31" and n: "dst \<noteq> NULL" "12 \<le> n" "n \<le> 2 ^ 31"
  shows "\<exists>len m'. snprintf m dst n (ascii ''%d'') [of_int v] = Some (len, m') \<and> atoi m' dst = Some v"
proof -
  define m' where "m' = store_bytes m dst (decimal v @ [0])"
  have ld: "length (decimal v) \<le> 11" by (rule length_decimal [OF v])
  then have run: "snprintf m dst n (ascii ''%d'') [of_int v] = Some (int (length (decimal v)), m')"
    using vsnprintf_of_puts [OF vprintf_decimal [OF v] _ n(3)] n(2) by (simp add: snprintf_def m'_def)
  have "load_bytes m' dst (length (decimal v)) = decimal v" "m' (dst + length (decimal v)) = 0"
    by (auto simp: m'_def store_bytes_def nth_append intro: nth_equalityI)
  then have "atoi m' dst = Some v" by (rule atoi_decimal [OF v n(1)])
  with run show ?thesis by blast
qed

theorem decimal_roundtrip_witness:
  "\<exists>len m'. snprintf (\<lambda>_. 1) 64 12 (ascii ''%d'') [of_int (- 2147483648)] = Some (len, m') \<and> atoi m' 64 = Some (- 2147483648)"
  using decimal_roundtrip [of "- 2147483648" 64 12 "\<lambda>_. 1"] by simp


section \<open>Field width\<close>

text \<open>
  C26: an integer conversion never needs more than the 64 characters of its buffer, whatever the flags and
  the precision are.  Its output consists of sign, prefix and digits, and of the padding that fills the
  requested width, if they need less; only when the flags \<^verbatim>\<open>-\<close> and \<^verbatim>\<open>0\<close> are both set, which a negative width from
  an argument can bring about, the padding is written twice and the output is longer than the width.
\<close>

theorem conversion_fills_width:
  assumes "b \<in> {base_d, base_o, base_x, base_X}" "val < 2 ^ 64" "0 \<le> conv_width c" "conv_width c < 2 ^ 31"
  shows "\<exists>buf out need. integer_digits val b c = Some buf \<and> length buf \<le> 64 \<and>
    format_integer io val sg neg b c st = Some (put_all io out st) \<and>
    need = int (length buf) + (if prefix_char b val c \<noteq> 0 then 2 else 0) + (if sign_char sg neg (conv_flags c) \<noteq> 0 then 1 else 0) \<and>
    int (length out) = (if conv_flags c AND MINUS \<noteq> 0 \<and> conv_flags c AND ZERO \<noteq> 0
      then need + 2 * max 0 (conv_width c - need) else max (conv_width c) need)"
proof -
  obtain buf where buf: "integer_digits val b c = Some buf" "length buf \<le> 64" by (rule integer_digits_fit [OF assms(1,2)])
  note l = layout_length [OF assms(3,4) buf(2), of "prefix_char b val c" "sign_char sg neg (conv_flags c)"]
  have m: "need + max 0 (w - need) = max w need" for need w :: int by simp
  show ?thesis
    by (intro exI [of _ buf] exI [of _ "layout buf (prefix_char b val c) (sign_char sg neg (conv_flags c)) c"] exI conjI buf
        format_integer_layout [OF buf(1)] refl) (unfold l, auto simp: m)
qed

definition console_out :: "console_aux out_fn" where
  "console_out = \<lparr>mem_of = fst, putc = vprintf_helper\<rparr>"

definition sample_conversion :: printf_conversion where
  "sample_conversion = \<lparr>conv_flags = POUND OR ZERO, conv_width = 9, conv_prec = - 1, conv_type = TypeInt\<rparr>"

theorem conversion_fills_width_witness:
  "\<exists>out. format_integer console_out 255 False False base_x sample_conversion ((\<lambda>_. 0), [], 0) =
    Some (put_all console_out out ((\<lambda>_. 0), [], 0)) \<and> 9 \<le> length out"
proof -
  have h: "base_x \<in> {base_d, base_o, base_x, base_X}" "255 < (2 ^ 64 :: nat)" "0 \<le> conv_width sample_conversion"
    "conv_width sample_conversion < 2 ^ 31" by (simp_all add: sample_conversion_def)
  obtain out need where o: "format_integer console_out 255 False False base_x sample_conversion ((\<lambda>_. 0), [], 0) =
      Some (put_all console_out out ((\<lambda>_. 0), [], 0))"
    "int (length out) = (if conv_flags sample_conversion AND MINUS \<noteq> 0 \<and> conv_flags sample_conversion AND ZERO \<noteq> 0
      then need + 2 * max 0 (conv_width sample_conversion - need) else max (conv_width sample_conversion) need)"
    using conversion_fills_width [where io = console_out and sg = False and neg = False and st = "(\<lambda>_. 0, [], 0)", OF h] by (elim exE conjE)
  have "w \<le> (if B then need + 2 * max 0 (w - need) else max w need)" for B and w :: int by (auto simp: max_def)
  then have "conv_width sample_conversion \<le> int (length out)" unfolding o(2) .
  then have "9 \<le> length out" by (simp add: sample_conversion_def)
  with o(1) show ?thesis by blast
qed

lemma put_all_console: "put_all console_out bs (m, shown, n) = (m, shown @ bs, n + int (length bs))"
  by (induction bs arbitrary: shown n) (simp_all add: console_out_def vprintf_helper_def)

text \<open>
  C38: a negative field width that comes from an argument sets the flag of \<^verbatim>\<open>-\<close> after the flag of \<^verbatim>\<open>0\<close> has been
  tested, and the padding is written twice: for every \<open>w\<close> from \<open>- (2 ^ 31) + 1\<close> to -1 and every number \<open>v\<close>,
  \<^verbatim>\<open>printf ("%0*d", w, v)\<close> prints the sign, zeros up to the width \<open>- w\<close>, the digits, and then as many blanks as
  zeros.  For -5 and 7 these are nine characters instead of five.
\<close>

theorem starred_width_pads_twice:
  assumes w: "- (2 ^ 31) < w" "w < 0" and v: "- (2 ^ 31) \<le> v" "v < 2 ^ 31"
  defines "n \<equiv> nat (- w - int (length (decimal v)))"
  defines "out \<equiv> (if v < 0 then [of_char CHR ''-''] else []) @ replicate n (of_char CHR ''0'') @ decimal \<bar>v\<bar> @ replicate n (of_char CHR '' '')"
  shows "vprintf m (ascii ''%0*d'') [of_int w, of_int v] shown = Some (int (length out), shown @ out)"
proof -
  let ?c = "\<lparr>conv_flags = 17, conv_width = - w, conv_prec = - 1, conv_type = TypeInt\<rparr>"
  have sw: "sint (of_int w :: u32) = w" using w by (intro sint_of_int32) auto
  have "int32 (- w) = - w" using w by (intro int32_id) auto
  then have p: "parse_conversion (ascii ''0*d'') [of_int w, of_int v] = Some (?c, ascii ''d'', [of_int v])"
    using w sw by (simp add: parse_conversion_def parse_width_def parse_precision_def parse_type_def cur_def advance_def va_int_def va_word_def
        Let_def isdigit_def MINUS_def PLUS_def ZERO_def)
  define buf :: "byte list" where "buf = (if v = 0 then [of_char CHR ''0''] else lsd (nat \<bar>v\<bar>))"
  have d: "integer_digits (magnitude v) base_d ?c = Some buf"
    using decimal_digits [OF v, of ?c] by (simp add: buf_def GROUP_def)
  have s: "sign_char True (v < 0) (conv_flags ?c) = (if v < 0 then of_char CHR ''-'' else 0)" by (simp add: sign_char_def PLUS_def SPACE_def)
  have x: "prefix_char base_d (magnitude v) ?c = 0" by (simp add: prefix_char_def base_d_def POUND_def)
  have dec: "decimal v = (if v < 0 then [of_char CHR ''-''] else []) @ rev buf" "decimal \<bar>v\<bar> = rev buf"
    by (simp_all add: decimal_def buf_def)
  have lb: "length buf \<le> 10" using length_lsd_int [OF v] by (simp add: buf_def)
  have "pad_count buf 0 (if v < 0 then of_char CHR ''-'' else 0) ?c = n"
  proof -
    have i: "int32 (- w - int (length buf) - k) = - w - int (length buf) - k" if "k \<in> {0, 1}" for k :: int
      using w lb that by (intro int32_id) auto
    show ?thesis using i [of 0] i [of 1] by (cases "v < 0") (simp_all add: pad_count_def n_def dec(1))
  qed
  then have l: "layout buf 0 (if v < 0 then of_char CHR ''-'' else 0) ?c = out"
    unfolding layout_def Let_def out_def dec(2) by (simp add: MINUS_def ZERO_def)
  have f: "format_integer console_out (magnitude v) True (v < 0) base_d ?c (m, shown, 0) = Some (m, shown @ out, int (length out))"
    unfolding format_integer_layout [OF d] s x l put_all_console by simp
  have "convert console_out (of_char CHR ''d'') ?c [of_int v] (m, shown, 0) = Some ((m, shown @ out, int (length out)), [])"
    unfolding convert_def using f sint_of_int32 [OF v] by (simp add: signed_arg_def va_int_def va_word_def)
  moreover have "vprintf_to console_out [] [] st' = Some st'" for st' by (subst vprintf_to.simps) (simp add: cur_def)
  ultimately have "vprintf_to console_out (ascii ''%0*d'') [of_int w, of_int v] (m, shown, 0) = Some (m, shown @ out, int (length out))"
    using p by (subst vprintf_to.simps) (simp add: cur_def no_conversion_def advance_def)
  then show ?thesis by (simp add: vprintf_def console_out_def)
qed

theorem starred_width_pads_twice_witness:
  "vprintf (\<lambda>_. 0) (ascii ''%0*d'') [of_int (- 5), of_int 7] [] = Some (9, ascii ''00007    '')"
proof -
  have "lsd 7 = [of_char CHR ''7'']" by (simp add: lsd.simps [of 7] lsd.simps [of 0])
  then have "decimal 7 = [of_char CHR ''7'']" by (simp add: decimal_def)
  moreover have "replicate 4 c = [c, c, c, c]" for c :: byte by (simp add: numeral_eq_Suc)
  ultimately show ?thesis using starred_width_pads_twice [of "- 5" 7 "\<lambda>_. 0" "[]"] by simp
qed

text \<open>
  A format that ends in \<^verbatim>\<open>%\<close> is read beyond its terminating null character: the null is taken for an unknown
  conversion, and the loop goes on behind it.
\<close>

theorem trailing_percent_runs_off: "vprintf m (ascii ''100%'') args shown = None"
proof -
  have p: "parse_conversion [] args = Some (\<lparr>conv_flags = 0, conv_width = 0, conv_prec = - 1, conv_type = TypeInt\<rparr>, [], args)"
    by (simp add: parse_conversion_def parse_width_def parse_precision_def parse_type_def cur_def Let_def)
  have e: "vprintf_to console_out (ascii ''%'') args st = None" for st
    using p by (subst vprintf_to.simps) (auto simp: cur_def no_conversion_def advance_def bind_eq_None_conv)
  have lit: "c \<noteq> 0 \<Longrightarrow> c \<noteq> of_char CHR ''%'' \<Longrightarrow> vprintf_to console_out (c # f) args st = vprintf_to console_out f args (putc console_out c st)" for c f st
    by (subst vprintf_to.simps) (simp add: cur_def)
  have "vprintf_to console_out (ascii ''100%'') args (m, shown, 0) = None" using e by (simp add: lit)
  then show ?thesis by (simp add: vprintf_def console_out_def)
qed

end
