(* ===== verification/Spec2Isabelle.thy ===== *)
theory Spec2Isabelle
  imports List_Properties File_System_Properties Scheduler_Properties Syscall_Properties
    Wait_Properties Division64 Malloc_Properties Hash_Properties Stdlib_Properties Stdio_Properties
begin

text \<open>
  \<^bold>\<open>A verification library for the Pintos kernels of this repository\<close>

  \<^bold>\<open>The program.\<close>  The repository holds three copies of the Pintos teaching kernel.  The tree
  \<^verbatim>\<open>src/pintos_pro3/src\<close> is the complete one, with user programs and an indexed, cached file system;
  \<^verbatim>\<open>src/pintos/src\<close> has the files that the scheduling project changes: \<^verbatim>\<open>threads/thread.c\<close>,
  \<^verbatim>\<open>threads/synch.c\<close> and \<^verbatim>\<open>devices/timer.c\<close> with priority donation and the feedback-queue scheduler;
  \<^verbatim>\<open>src/pintos-GDB/src\<close> is an earlier copy.  Three stacks of components are modelled, and the library below them.

  \<^item> Storage: block devices and partitions (\<^verbatim>\<open>devices/block.c\<close>, \<^verbatim>\<open>devices/partition.c\<close>) below a buffer
    cache (\<^verbatim>\<open>filesys/cache.c\<close>), below inodes and the free map (\<^verbatim>\<open>filesys/inode.c\<close>, \<^verbatim>\<open>filesys/free-map.c\<close>,
    \<^verbatim>\<open>lib/kernel/bitmap.c\<close>), below files, directories and the file system calls (\<^verbatim>\<open>filesys/file.c\<close>,
    \<^verbatim>\<open>filesys/directory.c\<close>, \<^verbatim>\<open>filesys/filesys.c\<close>).
  \<^item> Scheduling: threads, semaphores, locks, condition variables and the timer of \<^verbatim>\<open>src/pintos/src\<close>, on
    the fixed-point numbers of \<^verbatim>\<open>threads/fixed_point.h\<close>.
  \<^item> Processes: the page allocator (\<^verbatim>\<open>threads/palloc.c\<close>) over the physical memory, page directories
    (\<^verbatim>\<open>userprog/pagedir.c\<close>) in its pages, the string functions (\<^verbatim>\<open>lib/string.c\<close>), and on top the loading of
    programs and the arguments of a process (\<^verbatim>\<open>userprog/process.c\<close>), which reads the executable through
    the file system; then its table of open files (\<^verbatim>\<open>userprog/process.c\<close>, \<^verbatim>\<open>threads/thread.c\<close>) and the
    system calls (\<^verbatim>\<open>userprog/syscall.c\<close>) over all of these.

  \<^item> Library: the intrusive lists of \<^verbatim>\<open>lib/kernel/list.c\<close>, which the storage and the scheduling components
    use, hash tables on them (\<^verbatim>\<open>lib/kernel/hash.c\<close>), the block allocator (\<^verbatim>\<open>threads/malloc.c\<close>) on the page
    allocator, 64-bit division (\<^verbatim>\<open>lib/arithmetic.c\<close>), sorting, searching and decimal strings
    (\<^verbatim>\<open>lib/stdlib.c\<close>), and formatted output (\<^verbatim>\<open>lib/stdio.c\<close>).

  \<^bold>\<open>Conventions.\<close>  A kernel function is a HOL function of the same name over an explicit state.  Its result
  is in the option type: \<open>None\<close> is a kernel that has halted, by a failed \<^verbatim>\<open>ASSERT\<close>, a \<^verbatim>\<open>PANIC\<close> or the use
  of a null pointer.  Errors that the code reports to its caller are values (\<^verbatim>\<open>false\<close>, \<^verbatim>\<open>BITMAP_ERROR\<close>,
  a null pointer).  Pointers are natural numbers with 0 as the null pointer; machine words that are used
  bitwise are words, sizes and sector numbers are natural numbers with the wrap-around at 32 bits written
  out, \<^verbatim>\<open>off_t\<close> and \<^verbatim>\<open>int\<close> are integers with it written out.  A loop that need not end is a
  \<^verbatim>\<open>partial_function\<close> in the option type, so that an endless loop is \<open>None\<close> too, and a theorem that such a
  function returns something shows that it ends.  What is in uninitialised memory is a
  parameter.  The block allocator is a component of its own; for its callers in the storage components and for hash
  tables, what \<^verbatim>\<open>malloc\<close> answers is a parameter.

  \<^bold>\<open>The theories.\<close>

  \<^item> \<open>Pintos_Prelude\<close>: \<^verbatim>\<open>ASSERT\<close>, \<^verbatim>\<open>PANIC\<close>, the macros of \<^verbatim>\<open>lib/round.h\<close>, simplification rules for
    the option monad.
  \<^item> \<open>Kernel_List\<close>, \<open>Kernel_List_Ordered\<close>, \<open>Kernel_List_Sort\<close>: \<^verbatim>\<open>list.c\<close> on a heap of \<^verbatim>\<open>struct list_elem\<close>.
    The relation \<open>represents h l xs\<close> says that the list at \<open>l\<close> is well linked and holds \<open>xs\<close>; each operation
    is shown to refine its counterpart on \<open>xs\<close>.  The locale \<open>intrusive_list\<close> is the contract of a double-ended
    queue, interpreted on the operations as \<open>klist\<close>; the locale \<open>weak_order\<close> is what the comparison functions
    have to satisfy.
  \<^item> \<open>Bitmap\<close>: \<^verbatim>\<open>bitmap.c\<close> with 32-bit elements, abstracted to lists of booleans by \<open>bitmap_bits\<close>.
  \<^item> \<open>Block_Device\<close>, \<open>Partition_Table\<close>: the registry of devices, the translation of sectors through
    partitions to a disk (\<open>locate\<close>), and the scan of partition tables.  The depth of nested devices is bounded
    by the number of registered ones; the recursion of \<^verbatim>\<open>read_partition_table\<close> takes a depth as argument.
  \<^item> \<open>Buffer_Cache\<close>: \<^verbatim>\<open>cache.c\<close>; \<open>view\<close> is the content of a sector as seen through the cache, \<open>cache_ok\<close> the
    invariant.  The locale \<open>sector_store\<close> states what an array of sectors does and is interpreted on the bare
    device (\<open>disk\<close>) and on the cache (\<open>bcache\<close>).
  \<^item> \<open>Fs_Layout\<close>, \<open>Inode\<close>, \<open>Inode_Data\<close>, \<open>Inode_Faults\<close>: the layout of inodes on disk, all of \<^verbatim>\<open>inode.c\<close> with
    the free map, the content of a file (\<open>file_bytes\<close>) with the proofs that reading and writing in place act
    on it, and the cases in which the code goes wrong.  \<^verbatim>\<open>inode_write_at\<close> and \<^verbatim>\<open>free_map_allocate\<close> call each other
    through the file of the free map; \<open>inode_write_at_n\<close> takes the depth of that recursion, and
    \<open>WRITE_DEPTH\<close> is four because the file of the free map never grows, so that the inner write does
    not allocate.
  \<^item> \<open>File\<close>, \<open>Directory\<close>: open files with their positions, directories and the file system calls.
  \<^item> \<open>Fixed_Point\<close>, \<open>Thread_Sched\<close>: the scheduler.  What is left of a kernel function when it gives up the
    processor is a \<open>frame\<close> on the stack of the thread, and \<open>resume\<close> executes the topmost one.
    The donation loop of \<^verbatim>\<open>lock_acquire\<close>, which runs with interrupts on, is cut into frames at each of its lines,
    so that a timer interrupt can come between them.  \<open>Sched_Invariant\<close> and \<open>Sched_Steps\<close> show that every function
    keeps the invariant \<open>sched_inv\<close> of the strict priority scheduler (\<^verbatim>\<open>thread_mlfqs\<close> is off; with the feedback queue
    the ready list is not ordered) and define the step relation \<open>kernel_step\<close>; \<open>Sched_Facts\<close> has the lemmas on
    priorities.  \<open>Sched_Sleep\<close> counts the timer interrupts of a run (\<open>kernel_run\<close>) and shows what they do to a thread
    that sleeps.
  \<^item> \<open>Machine_Memory\<close>: a memory of bytes with words of 32 bits in it, the macros of \<^verbatim>\<open>threads/vaddr.h\<close> and
    \<^verbatim>\<open>threads/pte.h\<close>.  \<open>String_Lib\<close>: all of \<^verbatim>\<open>lib/string.c\<close> on such a memory; \<open>cstring m p s\<close> says that the string
    \<open>s\<close> is at \<open>p\<close>, and the loops that search for a null byte end because of it.
  \<^item> \<open>Palloc\<close>: \<^verbatim>\<open>palloc.c\<close> with the bitmaps of \<open>Bitmap\<close>; \<open>allocated\<close> is the set of the pages that have been
    handed out.  The locale \<open>page_allocator\<close> is the contract of an allocator and is interpreted as \<open>pal\<close>.
  \<^item> \<open>Page_Directory\<close>, \<open>Page_Dir_Free\<close>: \<^verbatim>\<open>pagedir.c\<close>.  \<open>page_dir v pd T\<close> says that \<open>T\<close> gives the page tables
    of the directory \<open>pd\<close> and that they are allocated pages; \<open>owns\<close> adds the frames.
  \<^item> \<open>User_Stack\<close>: the splitting of the command line and \<^verbatim>\<open>setup_argument\<close>.  A write that faults ends the
    process inside the kernel, and the function does not return: the result is \<open>None\<close>.
  \<^item> \<open>Elf_Load\<close>, \<open>Elf_Segment\<close>: \<^verbatim>\<open>load\<close> from the header of the executable to its last segment; \<open>loadable\<close> is
    the invariant of the memory while a program is loaded.
  \<^item> \<open>File_Table\<close>: the control blocks of open files, each in a page with two words of it and a list element;
    \<open>file_table p fcs\<close> is the invariant and \<open>descriptors\<close> the map from numbers to files.  \<open>exit_files\<close>, the loop at
    the end of a process, takes \<^verbatim>\<open>filesys_lock\<close> for each file and halts when the process holds it.
  \<^item> \<open>Syscalls\<close>, \<open>Syscall_Args\<close>, \<open>Syscall_Files\<close>: the checks of user pointers, the decoding of a call and the
    calls on files.  A call returns, or ends the process, or faults inside the kernel (\<open>Fault\<close>).  \<open>sys_read\<close>
    reads all bytes before it stores them, where the code goes sector by sector.
    \<open>user_space u T F\<close> says that \<open>T\<close> and \<open>F\<close> give the page tables and frames of the process, \<open>user_state\<close> adds its
    open files; \<open>user_mem\<close> is user memory as the process sees it.
  \<^item> \<open>Process_Wait\<close>: \<^verbatim>\<open>process_execute\<close>, \<^verbatim>\<open>process_wait\<close>, \<^verbatim>\<open>exit\<close> and \<^verbatim>\<open>thread_exit\<close> as parts between the accesses to
    the fields of shared records, the step relation \<open>pstep\<close> of all interleavings and its invariant \<open>wait_inv\<close>.  A
    walk along a list is one part.
  \<^item> \<open>Division64\<close>: the division routines, with the \<^verbatim>\<open>divl\<close> instruction that traps when the quotient does not fit.
  \<^item> \<open>Malloc\<close>: \<^verbatim>\<open>malloc.c\<close> on the pages of \<open>Palloc\<close> and the lists of \<open>Kernel_List\<close>.  \<open>Malloc_Blocks\<close>, \<open>Malloc_Steps\<close> and
    \<open>Malloc_Arenas\<close> have the layout of arenas, the invariant \<open>malloc_inv\<close> and the steps that keep it;
    \<open>Malloc_Contract\<close> the locale \<open>block_allocator\<close>, the contract towards callers, which \<open>Malloc_Calls\<close> and \<open>Malloc_Free\<close> prove
    and interpret as \<open>mal\<close>.
  \<^item> \<open>Hash_Table\<close>: \<^verbatim>\<open>hash.c\<close> on buckets that are lists.  \<open>Hash_Buckets\<close> has lists side by side in one heap and the
    movement of elements between them, \<open>Hash_Refine\<close> the invariant \<open>hash_rep h t bs\<close> (the buckets of \<open>t\<close> hold the
    elements \<open>bs\<close>), \<open>Hash_Visit\<close> iteration and clearing.
  \<^item> \<open>Stdlib\<close>, \<open>Stdlib_Sort\<close>: \<^verbatim>\<open>stdlib.c\<close>; \<open>elems\<close> is the array in memory as a list of its elements, \<open>heap_from\<close> and
    \<open>half_sorted\<close> are the invariants of the heap sort.
  \<^item> \<open>Stdio\<close>, \<open>Stdio_Facts\<close>: \<^verbatim>\<open>stdio.c\<close> with an arbitrary output function; every run of the formatter is a sequence of
    characters given to it (\<open>puts\<close>).
  \<^item> \<open>List_Properties\<close>, \<open>Storage_Properties\<close>, \<open>File_System_Properties\<close>, \<open>Scheduler_Properties\<close>,
    \<open>Process_Properties\<close>, \<open>Syscall_Properties\<close>, \<open>Wait_Properties\<close>, \<open>Malloc_Properties\<close>, \<open>Hash_Properties\<close>,
    \<open>Stdlib_Properties\<close>, \<open>Stdio_Properties\<close>: the properties of the components, each with an application to a small concrete state.

  \<^bold>\<open>What is shown.\<close>  Lists: the sort terminates, is stable and sorts; insertion keeps the order; queues are
  first in, first out; splicing, reversal and removal of duplicates do what they say.  Bitmaps: allocation
  is first fit, ranges that wrap around halt.  Devices: a partition is a window of its disk.  Cache: it
  cannot be told from the bare device, replacement ends and loses nothing, a shutdown makes everything
  durable.  Inodes: reads return, and writes in place change, exactly the addressed bytes.  Files and directories: consecutive reads, counting of write denials, lookup after
  addition.  Scheduler, with strict priorities: the ready list is ordered and one thread is running in every
  reachable state, yielding picks a thread of the highest priority, donation goes along a chain of waiting
  threads up to the first lock that carries the priority already, the timer interrupt always comes back, and a
  sleeper wakes with the right one, whatever else happens.
  Processes: no page has two owners, a page directory is a map from user pages to frames, destroying it
  returns what it owns, the words of the command line and the initial stack, and the memory of a process
  after a segment has been loaded; the table of open files is a map and is emptied at the end of a process that does
  not hold the lock of the file system;
  no stack pointer makes the decoding of a call halt or fault, and \<^verbatim>\<open>read\<close> delivers the content of a file to
  the memory of the process and nothing else, unless the buffer leaves user space.  In every interleaving an
  answer of \<^verbatim>\<open>process_wait\<close> other than -1, for any number but 0, tells the truth, and a sleeping parent is woken with the status of its child; a child
  that ends too early makes it wait for ever.
  Library: blocks that \<^verbatim>\<open>malloc\<close> has handed out are as large as asked for, do not overlap and keep their content until they are freed,
  also when \<^verbatim>\<open>realloc\<close> moves them; a hash table is the set of its elements and every visit sees each of them once;
  division is exact; the sort sorts in place and a sorted array can be searched; \<^verbatim>\<open>atoi\<close> reads back what \<^verbatim>\<open>snprintf\<close>
  prints, \<^verbatim>\<open>snprintf\<close> stays in its buffer and an integer conversion in its 64 characters.
  Faults: an endless partition scan, truncation by an empty write, the full disk, sizes that wrap around in \<^verbatim>\<open>malloc\<close>,
  remainders cut to 32 bits, padding that is written twice, and calls that halt.

  \<^bold>\<open>Not modelled.\<close>  Device drivers are port input and output; the console lock and the back trace of the debugging
  output, switching of stacks, segment descriptors and the start of a process are assembler or tables read by the
  processor.  What two processes do to each other while one of them walks along a list of children, and what
  another process does to the file system while one waits for \<^verbatim>\<open>filesys_lock\<close>, is not modelled.  Growing a file is modelled (\<open>inode_allocate\<close>), but the content of a file after it has grown is not stated.
\<close>

end
